(* ===== verification/Prelude.thy ===== *)
theory Prelude
  imports Main "HOL-Library.Word" "HOL-Library.Log_Nat"
begin

text \<open>
  Shared vocabulary of the development: the C integer types as words, byte-addressed memory, the
  rounding macros of \<^verbatim>\<open>src/native/private_macros.h\<close> and the two compiler builtins that the
  sources use (leading zero count and overflow-checked arithmetic), with the lemmas on words,
  lists and powers of two that several components need. The collection \<open>word_nat\<close> moves word
  arithmetic to the naturals; \<open>mem_simps\<close> evaluates reads and writes of memory.
\<close>

unbundle bit_operations_syntax

named_theorems word_nat
named_theorems mem_simps

section \<open>Machine integers\<close>

type_synonym u8 = "8 word"
type_synonym u16 = "16 word"
type_synonym u32 = "32 word"
type_synonym u64 = "64 word"

lemmas [word_nat] = unat_div unat_mod unat_word_ariths word_le_nat_alt word_less_nat_alt

lemma unat_bound: "unat (x :: 'a::len word) < 2 ^ LENGTH('a)"
  by (rule unsigned_less)

lemma unat_u8_lt [simp]: "unat (x :: u8) < 256"
  using unat_bound [of x] by simp

lemma unat_u16_lt [simp]: "unat (x :: u16) < 65536"
  using unat_bound [of x] by simp

lemma unat_u32_lt [simp]: "unat (x :: u32) < 4294967296"
  using unat_bound [of x] by simp

lemma unat_u64_lt [simp]: "unat (x :: u64) < 18446744073709551616"
  using unat_bound [of x] by simp

text \<open>The value of a word read as two's complement, in terms of its unsigned value.\<close>

lemma sint_uint_if:
  "sint (w :: 'a::len word) =
     (if uint w < 2 ^ (LENGTH('a) - 1) then uint w else uint w - 2 ^ LENGTH('a))"
proof -
  define h :: int where "h = 2 ^ (LENGTH('a) - 1)"
  have two: "2 ^ LENGTH('a) = 2 * h"
    unfolding h_def by (metis One_nat_def Suc_pred len_gt_0 power_Suc)
  have b: "0 \<le> uint w" "uint w < 2 * h" "0 < h"
    using uint_lt2p [of w] by (simp_all add: two) (simp add: h_def)
  have "sint w = (uint w + h) mod (2 * h) - h"
    by (simp add: sint_uint signed_take_bit_eq_take_bit_shift take_bit_eq_mod h_def two [unfolded h_def])
  moreover have "(uint w + h) mod (2 * h) = (if uint w < h then uint w + h else uint w - h)"
  proof (cases "uint w < h")
    case True
    with b show ?thesis by (simp add: mod_pos_pos_trivial)
  next
    case False
    have "(uint w + h) mod (2 * h) = (uint w - h + 2 * h) mod (2 * h)" by (simp add: algebra_simps)
    also have "\<dots> = (uint w - h) mod (2 * h)" by (rule mod_add_self2)
    also have "\<dots> = uint w - h" using b False by (simp add: mod_pos_pos_trivial)
    finally show ?thesis using False by simp
  qed
  ultimately show ?thesis unfolding h_def [symmetric] two by simp
qed

text \<open>The builtins \<^verbatim>\<open>__builtin_add_overflow\<close>, \<^verbatim>\<open>__builtin_sub_overflow\<close> and
  \<^verbatim>\<open>__builtin_mul_overflow\<close> on unsigned operands: the wrapped result and the overflow flag.\<close>

definition add_overflow :: "'a::len word \<Rightarrow> 'a word \<Rightarrow> 'a word \<times> bool" where
  "add_overflow a b = (a + b, 2 ^ LENGTH('a) \<le> unat a + unat b)"

definition sub_overflow :: "'a::len word \<Rightarrow> 'a word \<Rightarrow> 'a word \<times> bool" where
  "sub_overflow a b = (a - b, a < b)"

definition mul_overflow :: "'a::len word \<Rightarrow> 'a word \<Rightarrow> 'a word \<times> bool" where
  "mul_overflow a b = (a * b, 2 ^ LENGTH('a) \<le> unat a * unat b)"

text \<open>\<open>add_overflow\<close> splits the exact sum into the low word and a carry, \<open>sub_overflow\<close> the exact
  difference into the low word and a borrow.\<close>

lemma add_overflow_split:
  assumes "add_overflow a b = (s, c)"
  shows "unat s + 2 ^ LENGTH('a) * of_bool c = unat (a :: 'a::len word) + unat b"
proof (cases "2 ^ LENGTH('a) \<le> unat a + unat b")
  case True
  have "unat a + unat b < 2 * 2 ^ LENGTH('a)"
    using unat_bound [of a] unat_bound [of b] by linarith
  then have "(unat a + unat b) mod 2 ^ LENGTH('a) = unat a + unat b - 2 ^ LENGTH('a)"
    using True by (simp add: mod_if)
  with True assms show ?thesis
    by (auto simp: add_overflow_def unat_word_ariths)
next
  case False
  with assms show ?thesis
    by (auto simp: add_overflow_def unat_word_ariths)
qed

lemma sub_overflow_split:
  assumes "sub_overflow a b = (d, c)"
  shows "unat d + unat b = unat (a :: 'a::len word) + 2 ^ LENGTH('a) * of_bool c"
proof (cases "a < b")
  case True
  then have lt: "unat a < unat b" by (simp add: word_less_nat_alt)
  have "unat (a - b) = unat a + 2 ^ LENGTH('a) - unat b"
    using True by (simp add: unat_sub_if_size word_le_nat_alt word_less_nat_alt word_size)
  moreover have "unat b < 2 ^ LENGTH('a)" by (rule unat_bound)
  ultimately have "unat (a - b) + unat b = unat a + 2 ^ LENGTH('a)" by linarith
  with True assms show ?thesis
    by (auto simp: sub_overflow_def)
next
  case False
  then have "unat b \<le> unat a" by (simp add: word_less_nat_alt)
  then have "unat (a - b) = unat a - unat b"
    by (simp add: unat_sub_if_size)
  with False assms \<open>unat b \<le> unat a\<close> show ?thesis
    by (auto simp: sub_overflow_def)
qed

section \<open>Bit lengths and leading zeros\<close>

text \<open>\<^verbatim>\<open>__builtin_clzll\<close>: the number of leading zero bits. C leaves the value at 0 undefined, so no
  caller below applies it to 0.\<close>

definition clz64 :: "u64 \<Rightarrow> nat" where
  "clz64 x = 64 - floorlog 2 (unat x)"

lemma floorlog_bounds:
  "0 < n \<Longrightarrow> 2 ^ (floorlog 2 n - 1) \<le> n \<and> n < 2 ^ floorlog 2 n"
  using floorlog_bounds [of n 2] by simp

lemma floorlog_ge_1: "0 < n \<Longrightarrow> 1 \<le> floorlog 2 n"
  by (simp add: floorlog_def)

lemma floorlog_u64: "floorlog 2 (unat (x :: u64)) \<le> 64"
  by (rule floorlog_leI) auto

lemma floorlog_u64_split: "clz64 x + floorlog 2 (unat x) = 64"
  using floorlog_u64 [of x] by (simp add: clz64_def)

text \<open>Masks of the low bits are remainders.\<close>

lemma unat_and_mask: "unat (x AND mask k) = unat (x :: 'a::len word) mod 2 ^ k"
  by (metis take_bit_eq_mask take_bit_eq_mod unsigned_take_bit_eq)

lemma unat_and_15: "unat (x AND 15) = unat (x :: 'a::len word) mod 16"
  using unat_and_mask [of x 4] by (simp add: mask_eq_exp_minus_1)

lemma unat_and_mask_numeral:
  "unat (x AND 3) = unat x mod 4" "unat (x AND 7) = unat x mod 8"
  "unat (x AND 31) = unat x mod 32" "unat (x AND 63) = unat x mod 64"
  "unat (x AND 1023) = unat (x :: 'a::len word) mod 1024"
  using unat_and_mask [of x 2] unat_and_mask [of x 3] unat_and_mask [of x 5]
    unat_and_mask [of x 6] unat_and_mask [of x 10]
  by (simp_all add: mask_eq_exp_minus_1)

text \<open>A disjunction of disjoint bit fields is a sum.\<close>

lemma or_add_nat: "2 ^ k dvd a \<Longrightarrow> b < 2 ^ k \<Longrightarrow> a OR b = a + (b :: nat)"
proof -
  assume "2 ^ k dvd a" and b: "b < 2 ^ k"
  then obtain a' where "a = 2 ^ k * a'" by (elim dvdE)
  then have a: "a = push_bit k a'" by (simp add: push_bit_eq_mult mult.commute)
  have "b = take_bit k b" using b by (simp add: take_bit_nat_eq_self)
  then have "a AND b = 0"
    by (metis a and.commute bit_and_iff bit_push_bit_iff bit_take_bit_iff bit_eqI bit_0_eq bot_apply
        bot_bool_def linorder_not_le)
  then show ?thesis by (simp add: disjunctive_add_eq_or)
qed

lemma unat_or_add:
  "2 ^ k dvd unat a \<Longrightarrow> unat b < 2 ^ k \<Longrightarrow> unat (a OR b) = unat a + unat (b :: 'a::len word)"
  by (simp add: unsigned_or_eq or_add_nat)

lemma unat_push_bit_small:
  "unat x * 2 ^ k < 2 ^ LENGTH('a) \<Longrightarrow> unat (push_bit k x) = unat (x :: 'a::len word) * 2 ^ k"
  by (simp only: unsigned_push_bit_eq) (simp add: push_bit_eq_mult take_bit_nat_eq_self)

lemma unat_drop_bit: "unat (drop_bit k x) = unat (x :: 'a::len word) div 2 ^ k"
  by (simp only: unsigned_drop_bit_eq) (simp add: drop_bit_eq_div take_bit_nat_eq_self)

section \<open>Rounding\<close>

text \<open>\<^verbatim>\<open>CHI_DIV_CEIL\<close>, \<^verbatim>\<open>CHI_CEIL\<close> and \<^verbatim>\<open>CHI_FLOOR\<close> on sizes that do not overflow, and \<^verbatim>\<open>CHI_ALIGNUP\<close>
  with its mask \<^verbatim>\<open>CHI_ALIGNMASK\<close> on machine words.\<close>

definition CHI_DIV_CEIL :: "nat \<Rightarrow> nat \<Rightarrow> nat" where
  "CHI_DIV_CEIL i r = (i + r - 1) div r"

definition CHI_CEIL :: "nat \<Rightarrow> nat \<Rightarrow> nat" where
  "CHI_CEIL i r = CHI_DIV_CEIL i r * r"

definition CHI_FLOOR :: "nat \<Rightarrow> nat \<Rightarrow> nat" where
  "CHI_FLOOR i r = (i div r) * r"

definition CHI_ALIGNMASK :: "u64 \<Rightarrow> u64" where
  "CHI_ALIGNMASK a = NOT (a - 1)"

definition CHI_ALIGNUP :: "u64 \<Rightarrow> u64 \<Rightarrow> u64" where
  "CHI_ALIGNUP i a = (i + a - 1) AND CHI_ALIGNMASK a"

lemma CHI_CEIL_bounds: "0 < r \<Longrightarrow> i \<le> CHI_CEIL i r \<and> CHI_CEIL i r < i + r"
proof -
  assume r: "0 < r"
  have "(i + r - 1) div r * r + (i + r - 1) mod r = i + r - 1" by simp
  moreover have "(i + r - 1) mod r < r" using r by simp
  ultimately show ?thesis
    unfolding CHI_CEIL_def CHI_DIV_CEIL_def using r by linarith
qed

lemma CHI_CEIL_dvd [simp]: "r dvd CHI_CEIL i r"
  by (simp add: CHI_CEIL_def)

lemma CHI_FLOOR_le: "CHI_FLOOR i r \<le> i"
  by (simp add: CHI_FLOOR_def)

lemma CHI_FLOOR_dvd [simp]: "r dvd CHI_FLOOR i r"
  by (simp add: CHI_FLOOR_def)

section \<open>Byte-addressed memory\<close>

text \<open>Memory is a total function from addresses to bytes; which addresses an operation may touch is
  stated by the frame lemmas of each component.\<close>

type_synonym mem = "nat \<Rightarrow> u8"

definition mread :: "mem \<Rightarrow> nat \<Rightarrow> nat \<Rightarrow> u8 list" where
  "mread m a n = map m [a ..< a + n]"

fun mwrite :: "mem \<Rightarrow> nat \<Rightarrow> u8 list \<Rightarrow> mem" where
  "mwrite m a [] = m"
| "mwrite m a (b # bs) = mwrite (m(a := b)) (Suc a) bs"

lemma length_mread [simp]: "length (mread m a n) = n"
  by (simp add: mread_def)

lemma mread_nth [simp]: "i < n \<Longrightarrow> mread m a n ! i = m (a + i)"
  by (simp add: mread_def)

lemma mread_0 [mem_simps, simp]: "mread m a 0 = []"
  by (simp add: mread_def)

lemma mread_Suc [mem_simps]: "mread m a (Suc n) = m a # mread m (Suc a) n"
  by (simp add: mread_def upt_conv_Cons del: upt_Suc)

lemma mread_snoc [mem_simps]: "mread m a (Suc n) = mread m a n @ [m (a + n)]"
  by (simp add: mread_def)

lemma mread_add: "mread m a (j + k) = mread m a j @ mread m (a + j) k"
  using upt_add_eq_append [of a "a + j" k] by (simp add: mread_def add.assoc)

lemma mread_cong: "(\<And>i. a \<le> i \<Longrightarrow> i < a + n \<Longrightarrow> m i = m' i) \<Longrightarrow> mread m a n = mread m' a n"
  by (auto simp: mread_def)

lemma mwrite_outside: "i < a \<or> a + length bs \<le> i \<Longrightarrow> mwrite m a bs i = m i"
  by (induction m a bs rule: mwrite.induct) auto

lemma mwrite_inside: "i < length bs \<Longrightarrow> mwrite m a bs (a + i) = bs ! i"
proof (induction bs arbitrary: m a i)
  case (Cons b bs)
  show ?case
  proof (cases i)
    case 0
    then show ?thesis by (simp add: mwrite_outside)
  next
    case (Suc j)
    with Cons.prems have "mwrite (m(a := b)) (Suc a) bs (Suc a + j) = bs ! j"
      by (intro Cons.IH) simp
    with Suc show ?thesis by simp
  qed
qed simp

lemma mread_mwrite [simp]: "mread (mwrite m a bs) a (length bs) = bs"
  by (rule nth_equalityI) (auto simp: mwrite_inside)

lemma mwrite_at: "mwrite m a bs i = (if a \<le> i \<and> i < a + length bs then bs ! (i - a) else m i)"
proof (cases "a \<le> i \<and> i < a + length bs")
  case True
  then obtain j where "i = a + j" "j < length bs"
    by (metis add_less_cancel_left le_iff_add)
  then show ?thesis by (simp add: mwrite_inside)
next
  case False
  then show ?thesis by (auto simp: mwrite_outside)
qed

section \<open>Lists and options\<close>

lemma list_update_in_range: "i < length xs \<Longrightarrow> xs[i := x] ! j = (if j = i then x else xs ! j)"
  by simp

lemma filter_last_not: "xs \<noteq> [] \<Longrightarrow> \<not> P (last xs) \<Longrightarrow> filter P xs = filter P (butlast xs)"
  by (induction xs rule: rev_induct) auto

end
