(* ===== verification/Numfmt.thy ===== *)
theory Numfmt
  imports Prelude
begin

text \<open>
  Number formatting and parsing, from \<^verbatim>\<open>src/native/num.c\<close>, \<^verbatim>\<open>src/native/num.h\<close> and the ASCII
  predicates of \<^verbatim>\<open>src/native/ascii.h\<close>. The formatters write into memory at a pointer and return
  the end pointer; they are shown to write exactly the decimal or hexadecimal numeral and nothing
  else. The parsers read a C string, given as the list of its bytes before the terminating NUL, and
  are shown equal to their specification on every input, overflow included.
\<close>

section \<open>ASCII classification (ascii.h)\<close>

definition chiLower :: "int \<Rightarrow> bool" where
  "chiLower c \<longleftrightarrow> 97 \<le> c \<and> c \<le> 122"

definition chiUpper :: "int \<Rightarrow> bool" where
  "chiUpper c \<longleftrightarrow> 65 \<le> c \<and> c \<le> 90"

definition chiAlpha :: "int \<Rightarrow> bool" where
  "chiAlpha c \<longleftrightarrow> chiLower c \<or> chiUpper c"

definition chiDigit :: "int \<Rightarrow> bool" where
  "chiDigit c \<longleftrightarrow> 48 \<le> c \<and> c \<le> 57"

definition chiHexDigit :: "int \<Rightarrow> bool" where
  "chiHexDigit c \<longleftrightarrow> chiDigit c \<or> (65 \<le> c \<and> c \<le> 70) \<or> (97 \<le> c \<and> c \<le> 102)"

definition chiAlnum :: "int \<Rightarrow> bool" where
  "chiAlnum c \<longleftrightarrow> chiAlpha c \<or> chiDigit c"

definition chiToUpper :: "int \<Rightarrow> int" where
  "chiToUpper c = (if chiLower c then c - 97 + 65 else c)"

definition chiToHexDigit :: "int \<Rightarrow> int" where
  "chiToHexDigit c = (c AND 15) + 9 * drop_bit 6 c"

text \<open>The argument of these functions is a C \<^verbatim>\<open>char\<close> promoted to \<^verbatim>\<open>int\<close>, so a byte above 127 is
  negative where \<^verbatim>\<open>char\<close> is signed. No byte above 127 is a digit either way.\<close>

definition byte_digit :: "u8 \<Rightarrow> bool" where
  "byte_digit c = chiDigit (sint c)"

lemma sint_u8_if: "sint (c :: u8) = (if uint c < 128 then uint c else uint c - 256)"
  using sint_uint_if [of c] by simp

lemma byte_digit_iff: "byte_digit c \<longleftrightarrow> 48 \<le> c \<and> c \<le> 57"
  using uint_lt2p [of c] by (auto simp: byte_digit_def chiDigit_def word_le_def sint_u8_if)

section \<open>Digit tables (num.c)\<close>

definition digits_tab :: "u8 list" where
  "digits_tab = [
     48, 48, 48, 49, 48, 50, 48, 51, 48, 52, 48, 53, 48, 54, 48, 55, 48, 56, 48, 57,
     49, 48, 49, 49, 49, 50, 49, 51, 49, 52, 49, 53, 49, 54, 49, 55, 49, 56, 49, 57,
     50, 48, 50, 49, 50, 50, 50, 51, 50, 52, 50, 53, 50, 54, 50, 55, 50, 56, 50, 57,
     51, 48, 51, 49, 51, 50, 51, 51, 51, 52, 51, 53, 51, 54, 51, 55, 51, 56, 51, 57,
     52, 48, 52, 49, 52, 50, 52, 51, 52, 52, 52, 53, 52, 54, 52, 55, 52, 56, 52, 57,
     53, 48, 53, 49, 53, 50, 53, 51, 53, 52, 53, 53, 53, 54, 53, 55, 53, 56, 53, 57,
     54, 48, 54, 49, 54, 50, 54, 51, 54, 52, 54, 53, 54, 54, 54, 55, 54, 56, 54, 57,
     55, 48, 55, 49, 55, 50, 55, 51, 55, 52, 55, 53, 55, 54, 55, 55, 55, 56, 55, 57,
     56, 48, 56, 49, 56, 50, 56, 51, 56, 52, 56, 53, 56, 54, 56, 55, 56, 56, 56, 57,
     57, 48, 57, 49, 57, 50, 57, 51, 57, 52, 57, 53, 57, 54, 57, 55, 57, 56, 57, 57]"

definition chiPow10 :: "u64 list" where
  "chiPow10 = [1, 10, 100, 1000, 10000, 100000, 1000000, 10000000, 100000000, 1000000000, 10000000000, 100000000000, 1000000000000, 10000000000000, 100000000000000, 1000000000000000, 10000000000000000, 100000000000000000, 1000000000000000000, 10000000000000000000]"

definition chiHexDigits :: "u8 list" where
  "chiHexDigits = [48, 49, 50, 51, 52, 53, 54, 55, 56, 57, 97, 98, 99, 100, 101, 102]"

section \<open>Counting digits\<close>

definition countDigits10 :: "u64 \<Rightarrow> nat" where
  "countDigits10 n =
     (if n = 0 then 1
      else let t = drop_bit 12 ((64 - clz64 n) * 1233)
           in t - of_bool (n < chiPow10 ! t) + 1)"

definition countDigits16 :: "u64 \<Rightarrow> nat" where
  "countDigits16 n = (if n < 16 then 1 else 16 - drop_bit 2 (clz64 (n OR 1)))"

section \<open>Formatting\<close>

text \<open>The two bytes of the pair table at index \<open>i\<close>, the source operand of \<^verbatim>\<open>memcpy(p -= 2, digits + i, 2)\<close>.\<close>

definition digit_pair :: "u64 \<Rightarrow> u8 list" where
  "digit_pair i = take 2 (drop (unat i) digits_tab)"

function showLoop4 :: "u64 \<Rightarrow> nat \<Rightarrow> mem \<Rightarrow> u64 \<times> nat \<times> mem" where
  "showLoop4 n p m =
     (if 10000 \<le> n then
        let a = n mod 10000; b = 2 * (a mod 100); c = 2 * (a div 100);
            n' = n div 10000;
            m1 = mwrite m (p - 2) (digit_pair b);
            m2 = mwrite m1 (p - 4) (digit_pair c)
        in showLoop4 n' (p - 4) m2
      else (n, p, m))"
  by pat_completeness auto
termination
  by (relation "measure (\<lambda>(n, p, m). unat n)") (auto simp: unat_div word_le_nat_alt)

function showLoop2 :: "u64 \<Rightarrow> nat \<Rightarrow> mem \<Rightarrow> u64 \<times> nat \<times> mem" where
  "showLoop2 n p m =
     (if 100 \<le> n then
        let a = 2 * (n mod 100); n' = n div 100
        in showLoop2 n' (p - 2) (mwrite m (p - 2) (digit_pair a))
      else (n, p, m))"
  by pat_completeness auto
termination
  by (relation "measure (\<lambda>(n, p, m). unat n)") (auto simp: unat_div word_le_nat_alt)

declare showLoop4.simps [simp del] showLoop2.simps [simp del]

definition showLast :: "u64 \<Rightarrow> nat \<Rightarrow> mem \<Rightarrow> mem" where
  "showLast n p m =
     (if n < 10 then m(p - 1 := ucast (48 + n))
      else mwrite m (p - 2) (digit_pair (n * 2)))"

definition chiShowUInt :: "mem \<Rightarrow> nat \<Rightarrow> u64 \<Rightarrow> mem \<times> nat" where
  "chiShowUInt m p n =
     (let p = p + countDigits10 n; end = p;
          (n, p, m) = showLoop4 n p m;
          (n, p, m) = showLoop2 n p m
      in (showLast n p m, end))"

text \<open>The negation wraps at \<^verbatim>\<open>INT64_MIN\<close>, as the machine's does; the following cast to
  \<^verbatim>\<open>uint64_t\<close> reads the wrapped value as its magnitude.\<close>

definition chiShowInt :: "mem \<Rightarrow> nat \<Rightarrow> u64 \<Rightarrow> mem \<times> nat" where
  "chiShowInt m p n =
     (if sint n < 0 then chiShowUInt (m(p := 45)) (p + 1) (- n)
      else chiShowUInt m p n)"

function hexLoop :: "u64 \<Rightarrow> nat \<Rightarrow> mem \<Rightarrow> u64 \<times> nat \<times> mem" where
  "hexLoop n p m =
     (if 256 \<le> n then
        let m1 = m(p - 1 := chiHexDigits ! unat (n AND 15));
            m2 = m1(p - 2 := chiHexDigits ! unat ((n div 16) AND 15))
        in hexLoop (n div 256) (p - 2) m2
      else (n, p, m))"
  by pat_completeness auto
termination
  by (relation "measure (\<lambda>(n, p, m). unat n)") (auto simp: unat_div word_le_nat_alt)

declare hexLoop.simps [simp del]

definition hexLast :: "u64 \<Rightarrow> nat \<Rightarrow> mem \<Rightarrow> mem" where
  "hexLast n p m =
     (let m = m(p - 1 := chiHexDigits ! unat (n AND 15))
      in if 16 \<le> n then m(p - 2 := chiHexDigits ! unat ((n div 16) AND 15)) else m)"

definition chiShowHexUInt :: "mem \<Rightarrow> nat \<Rightarrow> u64 \<Rightarrow> mem \<times> nat" where
  "chiShowHexUInt m p n =
     (let p = p + countDigits16 n; end = p;
          (n, p, m) = hexLoop n p m
      in (hexLast n p m, end))"

section \<open>Powers\<close>

function powLoop :: "u64 \<Rightarrow> u64 \<Rightarrow> u32 \<Rightarrow> u64" where
  "powLoop p a b =
     (if b \<noteq> 0
      then powLoop (if b AND 1 \<noteq> 0 then p * a else p) (a * a) (drop_bit 1 b)
      else p)"
  by pat_completeness auto
termination
  by (relation "measure (\<lambda>(p, a, b). unat b)")
    (simp_all add: unat_div unat_gt_0 drop_bit_eq_div)

declare powLoop.simps [simp del]

definition chiPow :: "u64 \<Rightarrow> u32 \<Rightarrow> u64" where
  "chiPow a b = powLoop 1 a b"

section \<open>Parsing\<close>

text \<open>\<^verbatim>\<open>CHI_READ_UINT\<close> at any width. The loop either fails on overflow or returns the accumulated
  value with the rest of the string; the list ends where the string's NUL stands, which is not a
  digit.\<close>

fun readLoop :: "'a::len word \<Rightarrow> u8 list \<Rightarrow> ('a word \<times> u8 list) option" where
  "readLoop r [] = Some (r, [])"
| "readLoop r (c # s) =
     (if byte_digit c then
        let (r1, o1) = mul_overflow r 10 in
        if o1 then None
        else let (r2, o2) = add_overflow r1 (ucast (c - 48)) in
             if o2 then None else readLoop r2 s
      else Some (r, c # s))"

definition chiReadUInt :: "u8 list \<Rightarrow> ('a::len word \<times> u8 list) option" where
  "chiReadUInt s =
     (case readLoop 0 s of
        None \<Rightarrow> None
      | Some (r, s') \<Rightarrow> if s' = s then None else Some (r, s'))"

definition chiReadUInt64 :: "u8 list \<Rightarrow> (u64 \<times> u8 list) option" where
  "chiReadUInt64 s = chiReadUInt s"

definition chiReadUInt32 :: "u8 list \<Rightarrow> (u32 \<times> u8 list) option" where
  "chiReadUInt32 s = chiReadUInt s"

section \<open>Logarithms and rotations (num.h)\<close>

definition chiLog2Floor :: "u64 \<Rightarrow> nat" where
  "chiLog2Floor x = 63 - clz64 x"

definition chiLog2Ceil :: "u64 \<Rightarrow> nat" where
  "chiLog2Ceil x = 64 - clz64 (x - 1)"

definition chiIsPow2 :: "u64 \<Rightarrow> bool" where
  "chiIsPow2 x \<longleftrightarrow> x \<noteq> 0 \<and> x AND (x - 1) = 0"

definition chiRotl64 :: "u64 \<Rightarrow> nat \<Rightarrow> u64" where
  "chiRotl64 x r = push_bit r x OR drop_bit (64 - r) x"

definition chiRotl32 :: "u32 \<Rightarrow> nat \<Rightarrow> u32" where
  "chiRotl32 x r = push_bit r x OR drop_bit (32 - r) x"

section \<open>The decimal numeral\<close>

text \<open>The specification of the formatter: the decimal digits of a number, most significant first.\<close>

fun dec :: "nat \<Rightarrow> u8 list" where
  "dec n = (if n < 10 then [48 + of_nat n] else dec (n div 10) @ [48 + of_nat (n mod 10)])"

declare dec.simps [simp del]

lemma dec_small: "n < 10 \<Longrightarrow> dec n = [48 + of_nat n]"
  by (simp add: dec.simps)

lemma dec_step: "10 \<le> n \<Longrightarrow> dec n = dec (n div 10) @ [48 + of_nat (n mod 10)]"
  by (subst dec.simps) simp

lemma dec_nonempty [simp]: "dec n \<noteq> []"
  by (subst dec.simps) simp

lemma length_dec_pos [simp]: "0 < length (dec n)"
  by simp

lemma dec_lt_pow: "n < 10 ^ length (dec n)"
proof (induction n rule: dec.induct)
  case (1 n)
  show ?case
  proof (cases "n < 10")
    case False
    with 1 have "n div 10 < 10 ^ length (dec (n div 10))" by simp
    then have "n < 10 * 10 ^ length (dec (n div 10))" by linarith
    with False show ?thesis by (simp add: dec_step)
  qed (simp add: dec_small)
qed

lemma dec_ge_pow: "0 < n \<Longrightarrow> 10 ^ (length (dec n) - 1) \<le> n"
proof (induction n rule: dec.induct)
  case (1 n)
  show ?case
  proof (cases "n < 10")
    case False
    then have "10 ^ (length (dec (n div 10)) - 1) \<le> n div 10" using 1 by simp
    then have "10 * 10 ^ (length (dec (n div 10)) - 1) \<le> n" by linarith
    moreover have "10 ^ length (dec (n div 10)) = 10 * (10::nat) ^ (length (dec (n div 10)) - 1)"
      by (simp flip: power_Suc)
    ultimately show ?thesis using False by (simp add: dec_step)
  next
    case True
    with 1 show ?thesis by (simp add: dec_small)
  qed
qed

text \<open>The number of digits is fixed by the powers of ten around the number.\<close>

lemma length_dec_eqI:
  assumes "10 ^ k \<le> n" and "n < 10 ^ Suc k"
  shows "length (dec n) = Suc k"
proof -
  have "0 < n" using assms(1) by (metis gr_zeroI le_zero_eq power_not_zero zero_neq_numeral)
  have "(10::nat) ^ k < 10 ^ length (dec n)"
    using assms(1) dec_lt_pow [of n] by linarith
  then have "k < length (dec n)" by simp
  moreover have "(10::nat) ^ (length (dec n) - 1) < 10 ^ Suc k"
    using dec_ge_pow [OF \<open>0 < n\<close>] assms(2) by linarith
  then have "length (dec n) - 1 < Suc k" by (rule power_less_imp_less_exp [rotated]) simp
  ultimately show ?thesis by linarith
qed

lemma dec_pair: "100 \<le> n \<Longrightarrow>
  dec n = dec (n div 100) @ [48 + of_nat (n mod 100 div 10), 48 + of_nat (n mod 10)]"
proof -
  assume n: "100 \<le> n"
  have "n div 10 mod 10 = n mod 100 div 10" using mod_mult2_eq [of n 10 10] by simp
  moreover have "n div 10 div 10 = n div 100" by (simp flip: div_mult2_eq)
  ultimately show ?thesis using n by (simp add: dec_step)
qed

section \<open>The pair table and the digit count\<close>

lemma digits_tab_all:
  "\<forall>k \<in> set [0..<100]. take 2 (drop (2 * k) digits_tab)
     = [48 + of_nat (k div 10), 48 + of_nat (k mod 10)]"
  by code_simp

lemma digit_pair_eq:
  assumes "unat i = 2 * k" and "k < 100"
  shows "digit_pair i = [48 + of_nat (k div 10), 48 + of_nat (k mod 10)]"
  using digits_tab_all assms by (simp add: digit_pair_def)

text \<open>The estimate \<^verbatim>\<open>bits * 1233 >> 12\<close> of the decimal logarithm, checked for every bit length:
  it is at most the exponent of the smallest number of that length, and the next power of ten is
  beyond the largest.\<close>

lemma log10_estimate:
  "\<forall>b \<in> set [1..<65].
     b * 1233 div 4096 \<le> 19 \<and> (10::nat) ^ (b * 1233 div 4096) \<le> 10 * 2 ^ (b - 1) \<and>
     (2::nat) ^ b \<le> 10 ^ (b * 1233 div 4096 + 1)"
  by (simp add: upt_rec)

lemma chiPow10_all: "\<forall>t \<in> set [0..<20]. unat (chiPow10 ! t) = 10 ^ t"
  by (simp add: upt_rec chiPow10_def)

lemma countDigits10_length: "countDigits10 n = length (dec (unat n))"
proof (cases "n = 0")
  case True
  then show ?thesis by (simp add: countDigits10_def dec_small)
next
  case False
  define b where "b = floorlog 2 (unat n)"
  define t where "t = b * 1233 div 4096"
  have pos: "0 < unat n" using False by (simp add: unat_gt_0)
  have b: "1 \<le> b" "b \<le> 64"
    using floorlog_ge_1 [OF pos] floorlog_u64 [of n] by (simp_all add: b_def)
  have clz: "64 - clz64 n = b"
    using floorlog_u64_split [of n] by (simp add: b_def)
  have t19: "t \<le> 19" and lo: "(10::nat) ^ t \<le> 10 * 2 ^ (b - 1)" and hi: "(2::nat) ^ b \<le> 10 ^ (t + 1)"
    using log10_estimate b by (auto simp: t_def)
  have n: "2 ^ (b - 1) \<le> unat n" "unat n < 2 ^ b"
    using floorlog_bounds [OF pos] by (simp_all add: b_def)
  have pow: "unat (chiPow10 ! t) = 10 ^ t"
    using chiPow10_all t19 by simp
  have count: "countDigits10 n = t - of_bool (unat n < 10 ^ t) + 1"
    using False by (simp add: countDigits10_def clz drop_bit_eq_div t_def [symmetric] pow
        word_less_nat_alt)
  show ?thesis
  proof (cases "unat n < 10 ^ t")
    case True
    then have "t \<noteq> 0" using pos by (cases t) auto
    then obtain k where k: "t = Suc k" by (cases t) auto
    then have "10 ^ k \<le> unat n" using lo n(1) by simp
    then have "length (dec (unat n)) = Suc k" using True k by (intro length_dec_eqI) simp_all
    then show ?thesis using count True k by simp
  next
    case False
    then have "length (dec (unat n)) = Suc t" using hi n(2) by (intro length_dec_eqI) simp_all
    then show ?thesis using count False by simp
  qed
qed

section \<open>The decimal formatter\<close>

lemma mwrite_append:
  "b = a + length xs \<Longrightarrow> mwrite (mwrite m b ys) a xs = mwrite m a (xs @ ys)"
  by (rule ext) (auto simp: mwrite_at nth_append)

lemma mwrite_single: "m(a := b) = mwrite m a [b]"
  by simp

definition showDec :: "u64 \<Rightarrow> nat \<Rightarrow> mem \<Rightarrow> mem" where
  "showDec n p m = mwrite m (p - length (dec (unat n))) (dec (unat n))"

lemma showDec_prepend:
  assumes "dec (unat n) = dec (unat n') @ ds" and "length (dec (unat n)) \<le> p"
  shows "showDec n' (p - length ds) (mwrite m (p - length ds) ds) = showDec n p m"
  using assms by (simp add: showDec_def mwrite_append add.commute)

lemma take_bit_add_sub:
  "m \<le> n \<Longrightarrow> take_bit m (take_bit n x + take_bit n y) = take_bit m (x + y :: int)"
  by (metis take_bit_add take_bit_take_bit min.absorb1)

lemma ucast_add_u8: "(ucast (x + y :: u64) :: u8) = ucast x + ucast y"
  by transfer (simp add: take_bit_add_sub)

lemma showLast_dec:
  assumes "n < 100" and "length (dec (unat n)) \<le> p"
  shows "showLast n p m = showDec n p m"
proof (cases "n < 10")
  case True
  then have "unat n < 10" by (simp add: word_less_nat_alt)
  then show ?thesis using True
    by (simp add: showLast_def showDec_def dec_small ucast_add_u8)
next
  case False
  then have ge: "10 \<le> unat n" and lt: "unat n < 100"
    using assms(1) by (simp_all add: word_less_nat_alt)
  have "unat (n * 2) = 2 * unat n" using lt by (simp add: unat_word_ariths)
  then have "digit_pair (n * 2) = dec (unat n)"
    using ge lt by (simp add: digit_pair_eq dec_step dec_small)
  then show ?thesis using False ge lt
    by (simp add: showLast_def showDec_def dec_step dec_small flip: numeral_2_eq_2)
qed

lemma showLoop2_dec:
  assumes "n < 10000" and "length (dec (unat n)) \<le> p"
  shows "(case showLoop2 n p m of (n', p', m') \<Rightarrow> showLast n' p' m') = showDec n p m"
  using assms
proof (induction n p m rule: showLoop2.induct)
  case (1 n p m)
  show ?case
  proof (cases "100 \<le> n")
    case True
    define k where "k = unat (n mod 100)"
    have un: "100 \<le> unat n" using True by (simp add: word_le_nat_alt)
    have k: "k = unat n mod 100" "k < 100" by (simp_all add: k_def unat_mod)
    have idx: "unat (2 * (n mod 100)) = 2 * k"
      using k(2) by (simp add: unat_word_ariths(2) k_def)
    have ds: "dec (unat n) = dec (unat (n div 100)) @ digit_pair (2 * (n mod 100))"
      using dec_pair [OF un] k by (simp add: digit_pair_eq [OF idx k(2)] unat_div mod_mod_cancel)
    have len: "length (digit_pair (2 * (n mod 100))) = 2"
      by (simp add: digit_pair_eq [OF idx k(2)])
    have "n div 100 < 10000"
      using "1.prems"(1) by (simp add: word_less_nat_alt unat_div)
    then have "(case showLoop2 (n div 100) (p - 2) (mwrite m (p - 2) (digit_pair (2 * (n mod 100)))) of
        (n', p', m') \<Rightarrow> showLast n' p' m')
      = showDec (n div 100) (p - 2) (mwrite m (p - 2) (digit_pair (2 * (n mod 100))))"
      using True "1.prems"(2) ds len by (intro "1.IH") auto
    also have "\<dots> = showDec n p m"
      using showDec_prepend [OF ds "1.prems"(2)] len by simp
    finally show ?thesis
      using True by (subst showLoop2.simps) (simp add: Let_def)
  next
    case False
    then have "n < 100" by simp
    then show ?thesis
      using False "1.prems"(2) by (subst showLoop2.simps) (simp add: showLast_dec)
  qed
qed

lemma showLoop4_dec:
  assumes "length (dec (unat n)) \<le> p"
  shows "(case showLoop4 n p m of (n', p', m') \<Rightarrow>
           case showLoop2 n' p' m' of (n'', p'', m'') \<Rightarrow> showLast n'' p'' m'') = showDec n p m"
  using assms
proof (induction n p m rule: showLoop4.induct)
  case (1 n p m)
  show ?case
  proof (cases "10000 \<le> n")
    case True
    define a where "a = n mod 10000"
    define m1 where "m1 = mwrite m (p - 2) (digit_pair (2 * (a mod 100)))"
    define m2 where "m2 = mwrite m1 (p - 4) (digit_pair (2 * (a div 100)))"
    have un: "10000 \<le> unat n" using True by (simp add: word_le_nat_alt)
    have ua: "unat a = unat n mod 10000" by (simp add: a_def unat_mod)
    have lo: "digit_pair (2 * (a mod 100)) =
        [48 + of_nat (unat n mod 100 div 10), 48 + of_nat (unat n mod 10)]"
      using digit_pair_eq [of "2 * (a mod 100)" "unat n mod 100"]
      by (simp add: unat_word_ariths(2) unat_mod ua mod_mod_cancel)
    have hi: "digit_pair (2 * (a div 100)) =
        [48 + of_nat (unat n div 100 mod 100 div 10), 48 + of_nat (unat n div 100 mod 10)]"
      using digit_pair_eq [of "2 * (a div 100)" "unat n div 100 mod 100"] mod_mult2_eq [of "unat n" 100 100]
      by (simp add: unat_word_ariths(2) unat_div ua mod_mod_cancel)
    have ds: "dec (unat n) = dec (unat (n div 10000)) @
        (digit_pair (2 * (a div 100)) @ digit_pair (2 * (a mod 100)))"
      using dec_pair [of "unat n"] dec_pair [of "unat n div 100"] un
      by (simp add: lo hi unat_div div_mult2_eq [symmetric])
    have len: "length (digit_pair (2 * (a div 100))) = 2" "length (digit_pair (2 * (a mod 100))) = 2"
      by (simp_all add: lo hi)
    have "4 \<le> p" using "1.prems" ds len by simp
    then have m2: "m2 = mwrite m (p - 4) (digit_pair (2 * (a div 100)) @ digit_pair (2 * (a mod 100)))"
      unfolding m1_def m2_def by (intro mwrite_append) (simp add: len)
    have "(case showLoop4 (n div 10000) (p - 4) m2 of (n', p', m') \<Rightarrow>
        case showLoop2 n' p' m' of (n'', p'', m'') \<Rightarrow> showLast n'' p'' m'')
      = showDec (n div 10000) (p - 4) m2"
      using True "1.prems" ds len by (intro "1.IH") (auto simp: a_def m1_def m2_def)
    also have "\<dots> = showDec n p m"
      using showDec_prepend [OF ds "1.prems"] by (simp add: m2 len)
    finally show ?thesis
      using True by (subst showLoop4.simps) (simp add: Let_def a_def m1_def m2_def)
  next
    case False
    then have "n < 10000" by simp
    then show ?thesis
      using False "1.prems" by (subst showLoop4.simps) (simp add: showLoop2_dec)
  qed
qed

lemma chiShowUInt_eq:
  "chiShowUInt m p n = (mwrite m p (dec (unat n)), p + length (dec (unat n)))"
proof -
  have "(case showLoop4 n (p + countDigits10 n) m of (n', p', m') \<Rightarrow>
      case showLoop2 n' p' m' of (n'', p'', m'') \<Rightarrow> showLast n'' p'' m'')
    = showDec n (p + countDigits10 n) m"
    by (rule showLoop4_dec) (simp add: countDigits10_length)
  then show ?thesis
    by (simp add: chiShowUInt_def Let_def showDec_def countDigits10_length split: prod.splits)
qed

section \<open>Signed decimal\<close>

definition dec_int :: "int \<Rightarrow> u8 list" where
  "dec_int i = (if i < 0 then 45 # dec (nat (- i)) else dec (nat i))"

lemma unat_minus_neg: "sint (n :: u64) < 0 \<Longrightarrow> unat (- n) = nat (- sint n)"
proof -
  assume neg: "sint n < 0"
  then have s: "sint n = uint n - 2 ^ 64" and n: "uint n \<noteq> 0"
    using sint_uint_if [of n] by (auto split: if_splits)
  have "uint (- n) = (- uint n) mod 2 ^ 64" by (simp add: uint_word_ariths)
  also have "\<dots> = 2 ^ 64 - uint n"
    using n uint_lt2p [of n] by (simp add: zmod_zminus1_eq_if mod_pos_pos_trivial)
  finally have "uint (- n) = - sint n" by (simp add: s)
  then show ?thesis by (metis nat_uint_eq)
qed

lemma nat_sint_nonneg: "0 \<le> sint (n :: u64) \<Longrightarrow> nat (sint n) = unat n"
  using sint_uint_if [of n] uint_lt2p [of n] by (auto simp: nat_uint_eq split: if_splits)

lemma chiShowInt_eq:
  "chiShowInt m p n = (mwrite m p (dec_int (sint n)), p + length (dec_int (sint n)))"
proof (cases "sint n < 0")
  case True
  then show ?thesis
    by (simp add: chiShowInt_def dec_int_def chiShowUInt_eq unat_minus_neg)
next
  case False
  then show ?thesis
    by (simp add: chiShowInt_def dec_int_def chiShowUInt_eq nat_sint_nonneg)
qed

section \<open>The hexadecimal formatter\<close>

definition hex_digit :: "nat \<Rightarrow> u8" where
  "hex_digit d = (if d < 10 then 48 + of_nat d else 87 + of_nat d)"

fun hex :: "nat \<Rightarrow> u8 list" where
  "hex n = (if n < 16 then [hex_digit n] else hex (n div 16) @ [hex_digit (n mod 16)])"

declare hex.simps [simp del]

lemma hex_small: "n < 16 \<Longrightarrow> hex n = [hex_digit n]"
  by (simp add: hex.simps)

lemma hex_step: "16 \<le> n \<Longrightarrow> hex n = hex (n div 16) @ [hex_digit (n mod 16)]"
  by (subst hex.simps) simp

lemma hex_pair: "256 \<le> n \<Longrightarrow>
  hex n = hex (n div 256) @ [hex_digit (n div 16 mod 16), hex_digit (n mod 16)]"
proof -
  assume n: "256 \<le> n"
  have "n div 16 div 16 = n div 256" by (simp flip: div_mult2_eq)
  then show ?thesis using n by (simp add: hex_step)
qed

lemma length_hex: "16 ^ k \<le> n \<Longrightarrow> n < 16 ^ Suc k \<Longrightarrow> length (hex n) = Suc k"
proof (induction k arbitrary: n)
  case (Suc k)
  then have "16 ^ k \<le> n div 16" "n div 16 < 16 ^ Suc k" by simp_all
  then have "length (hex (n div 16)) = Suc k" by (rule Suc.IH)
  moreover have "16 * 1 \<le> 16 * (16::nat) ^ k" by (intro mult_le_mono2) simp
  with Suc.prems(1) have "16 \<le> n" unfolding power_Suc by linarith
  ultimately show ?case by (simp add: hex_step)
qed (simp add: hex_small)

lemma chiHexDigits_nth: "d < 16 \<Longrightarrow> chiHexDigits ! d = hex_digit d"
proof -
  have "\<forall>d \<in> set [0..<16]. chiHexDigits ! d = hex_digit d"
    by (simp add: upt_rec chiHexDigits_def hex_digit_def)
  then show "d < 16 \<Longrightarrow> chiHexDigits ! d = hex_digit d" by simp
qed

lemma hex_nibble [simp]: "chiHexDigits ! unat (n AND 15) = hex_digit (unat (n :: u64) mod 16)"
  by (simp add: unat_and_15 chiHexDigits_nth)

text \<open>Setting the lowest bit does not change the bit length of a positive number.\<close>

lemma floorlog_or_1: "x \<noteq> 0 \<Longrightarrow> floorlog 2 (unat (x OR 1 :: u64)) = floorlog 2 (unat x)"
proof -
  assume x: "x \<noteq> 0"
  have "unat (x OR 1) = unat x OR 1"
    by (simp only: unsigned_or_eq unsigned_1)
  also have "\<dots> = unat x + of_bool (even (unat x))"
    by (rule or_one_eq)
  finally have "unat (x OR 1) = unat x + of_bool (even (unat x))" .
  then have half: "unat (x OR 1) div 2 = unat x div 2" and pos: "0 < unat (x OR 1)"
    using x by (auto simp: unat_gt_0 simp del: or_one_eq elim: evenE)
  then show ?thesis using x by (simp add: compute_floorlog unat_gt_0 half)
qed

lemma log16_estimate:
  "\<forall>b \<in> set [5..<65]. (16::nat) ^ (15 - (64 - b) div 4) \<le> 2 ^ (b - 1) \<and>
     (2::nat) ^ b \<le> 16 ^ (16 - (64 - b) div 4)"
  by (simp add: upt_rec)

lemma countDigits16_length: "countDigits16 n = length (hex (unat n))"
proof (cases "n < 16")
  case True
  then show ?thesis by (simp add: countDigits16_def hex_small word_less_nat_alt)
next
  case False
  then have ge: "16 \<le> unat n" and nz: "n \<noteq> 0" by (auto simp: word_less_nat_alt)
  define b where "b = floorlog 2 (unat n)"
  have n: "2 ^ (b - 1) \<le> unat n" "unat n < 2 ^ b"
    using floorlog_bounds [of "unat n"] ge by (simp_all add: b_def)
  have "b \<le> 64" unfolding b_def by (rule floorlog_u64)
  moreover have "5 \<le> b"
  proof (rule ccontr)
    assume "\<not> 5 \<le> b"
    then have "(2::nat) ^ b \<le> 2 ^ 4" by (intro power_increasing) auto
    with n ge show False by simp
  qed
  ultimately have b: "b \<in> set [5..<65]"
    unfolding set_upt atLeastLessThan_iff by simp
  have le: "(64 - b) div 4 \<le> 15" using \<open>5 \<le> b\<close> by linarith
  have est: "(16::nat) ^ (15 - (64 - b) div 4) \<le> 2 ^ (b - 1)"
      "(2::nat) ^ b \<le> 16 ^ (16 - (64 - b) div 4)" "(64 - b) div 4 \<le> 15"
    using bspec [OF log16_estimate b] le by blast+
  then have "length (hex (unat n)) = Suc (15 - (64 - b) div 4)"
    using n by (intro length_hex) (simp_all add: Suc_diff_le [symmetric])
  moreover have "clz64 (n OR 1) = 64 - b" by (simp add: clz64_def floorlog_or_1 nz b_def)
  ultimately show ?thesis
    using False est(3) by (simp add: countDigits16_def drop_bit_eq_div Suc_diff_le [symmetric])
qed

definition showHex :: "u64 \<Rightarrow> nat \<Rightarrow> mem \<Rightarrow> mem" where
  "showHex n p m = mwrite m (p - length (hex (unat n))) (hex (unat n))"

lemma hexLast_hex:
  assumes "n < 256" and "length (hex (unat n)) \<le> p"
  shows "hexLast n p m = showHex n p m"
proof (cases "16 \<le> n")
  case True
  then have n: "16 \<le> unat n" "unat n < 256"
    using assms(1) by (simp_all add: word_le_nat_alt word_less_nat_alt)
  have "2 \<le> p" using assms(2) n by (simp add: hex_step hex_small)
  then show ?thesis using True n
    by (auto simp: hexLast_def showHex_def hex_step hex_small unat_div fun_eq_iff
        simp flip: numeral_2_eq_2)
next
  case False
  then have n: "unat n < 16" by (simp add: word_le_nat_alt)
  then show ?thesis using False by (simp add: hexLast_def showHex_def hex_small)
qed

lemma hexLoop_hex:
  assumes "length (hex (unat n)) \<le> p"
  shows "(case hexLoop n p m of (n', p', m') \<Rightarrow> hexLast n' p' m') = showHex n p m"
  using assms
proof (induction n p m rule: hexLoop.induct)
  case (1 n p m)
  show ?case
  proof (cases "256 \<le> n")
    case True
    define m2 where "m2 = m(p - 1 := chiHexDigits ! unat (n AND 15),
        p - 2 := chiHexDigits ! unat ((n div 16) AND 15))"
    define ds where "ds = [hex_digit (unat n div 16 mod 16), hex_digit (unat n mod 16)]"
    have un: "256 \<le> unat n" using True by (simp add: word_le_nat_alt)
    have h: "hex (unat n) = hex (unat (n div 256)) @ ds"
      using hex_pair [OF un] by (simp add: ds_def unat_div)
    then have p: "length (hex (unat (n div 256))) + 2 \<le> p"
      using "1.prems" by (simp add: ds_def)
    then have m2: "m2 = mwrite m (p - 2) ds"
      by (auto simp: m2_def ds_def unat_div fun_eq_iff simp flip: numeral_2_eq_2)
    have "(case hexLoop (n div 256) (p - 2) m2 of (n', p', m') \<Rightarrow> hexLast n' p' m')
        = showHex (n div 256) (p - 2) m2"
      using True p by (intro "1.IH") (auto simp: m2_def)
    also have "\<dots> = showHex n p m"
      using p by (simp add: showHex_def m2 h mwrite_append) (simp add: ds_def add.commute)
    finally show ?thesis
      using True by (subst hexLoop.simps) (simp add: Let_def m2_def)
  next
    case False
    then have "n < 256" by simp
    then show ?thesis
      using False "1.prems" by (subst hexLoop.simps) (simp add: hexLast_hex)
  qed
qed

lemma chiShowHexUInt_eq:
  "chiShowHexUInt m p n = (mwrite m p (hex (unat n)), p + length (hex (unat n)))"
proof -
  have "(case hexLoop n (p + countDigits16 n) m of (n', p', m') \<Rightarrow> hexLast n' p' m')
    = showHex n (p + countDigits16 n) m"
    by (rule hexLoop_hex) (simp add: countDigits16_length)
  then show ?thesis
    by (simp add: chiShowHexUInt_def Let_def showHex_def countDigits16_length
        split: prod.splits)
qed

section \<open>Square and multiply\<close>

lemma odd_iff_and_1: "(b AND 1 \<noteq> 0) = odd (unat (b :: 'a::len word))"
proof -
  have "unat (b AND 1) = unat b mod 2"
    using unat_and_mask [of b 1] by (simp add: mask_eq_exp_minus_1)
  then show ?thesis
    by (metis odd_iff_mod_2_eq_one even_iff_mod_2_eq_zero unat_eq_zero)
qed

lemma powLoop_eq: "powLoop p a b = p * a ^ unat b"
proof (induction p a b rule: powLoop.induct)
  case (1 p a b)
  show ?case
  proof (cases "b = 0")
    case True
    then show ?thesis by (simp add: powLoop.simps)
  next
    case False
    let ?k = "unat b div 2"
    have half: "unat (drop_bit (Suc 0) b) = ?k"
      by (simp add: unat_div drop_bit_eq_div)
    have sq: "(a * a) ^ ?k = a ^ (2 * ?k)"
      by (simp add: power_mult power2_eq_square)
    have "powLoop p a b = (if odd (unat b) then p * a else p) * (a * a) ^ ?k"
      using 1 [OF False] False by (subst powLoop.simps) (simp add: half odd_iff_and_1)
    also have "\<dots> = p * a ^ unat b"
    proof (cases "odd (unat b)")
      case True
      then have "unat b = Suc (2 * ?k)" by simp
      then have "a ^ unat b = a * a ^ (2 * ?k)" by (metis power_Suc)
      with True show ?thesis by (simp add: sq mult.assoc)
    next
      case False
      then show ?thesis by (simp add: sq)
    qed
    finally show ?thesis .
  qed
qed

section \<open>The decimal parser\<close>

definition digit_val :: "u8 \<Rightarrow> nat" where
  "digit_val c = unat c - 48"

text \<open>The number denoted by a list of digits that continues an accumulated value.\<close>

fun dval :: "nat \<Rightarrow> u8 list \<Rightarrow> nat" where
  "dval r [] = r"
| "dval r (c # ds) = dval (10 * r + digit_val c) ds"

lemma dval_ge: "r \<le> dval r ds"
  by (induction r ds rule: dval.induct) auto

lemma dval_append: "dval r (xs @ ys) = dval (dval r xs) ys"
  by (induction r xs rule: dval.induct) auto

lemma byte_digit_val: "byte_digit c \<Longrightarrow> unat (c - 48) = digit_val c \<and> digit_val c < 10"
  by (auto simp: byte_digit_iff digit_val_def unat_sub_if_size word_le_nat_alt)

text \<open>The parser's specification: the longest prefix of digits, its value, and failure exactly
  when the value does not fit the type.\<close>

definition read_spec :: "u8 list \<Rightarrow> ('a::len word \<times> u8 list) option" where
  "read_spec s =
     (let ds = takeWhile byte_digit s
      in if ds \<noteq> [] \<and> dval 0 ds < 2 ^ LENGTH('a)
         then Some (of_nat (dval 0 ds), dropWhile byte_digit s) else None)"

lemma readLoop_spec:
  assumes "4 \<le> LENGTH('a)"
  shows "readLoop (r :: 'a::len word) s =
     (let ds = takeWhile byte_digit s
      in if dval (unat r) ds < 2 ^ LENGTH('a)
         then Some (of_nat (dval (unat r) ds), dropWhile byte_digit s) else None)"
proof (induction s arbitrary: r)
  case Nil
  then show ?case by simp
next
  case (Cons c s)
  have "(2::nat) ^ 4 \<le> 2 ^ LENGTH('a)" using assms by (intro power_increasing) auto
  then have w16: "16 \<le> (2::nat) ^ LENGTH('a)" by simp
  then have ten: "unat (10 :: 'a word) = 10" by (simp add: unsigned_numeral take_bit_nat_eq_self)
  have ten': "take_bit LENGTH('a) (10::nat) = 10" using w16 by (simp add: take_bit_nat_eq_self)
  note simps = mul_overflow_def add_overflow_def ten ten' Let_def mult.commute
  show ?case
  proof (cases "byte_digit c")
    case True
    let ?d = "ucast (c - 48) :: 'a word"
    have d: "unat ?d = digit_val c"
      using byte_digit_val [OF True] w16
      by (simp add: unsigned_ucast_eq take_bit_nat_eq_self)
    let ?v = "10 * unat r + digit_val c"
    have ge: "?v \<le> dval ?v (takeWhile byte_digit s)" by (rule dval_ge)
    show ?thesis
    proof (cases "2 ^ LENGTH('a) \<le> ?v")
      case big: True
      show ?thesis
      proof (cases "2 ^ LENGTH('a) \<le> 10 * unat r")
        case mul: True
        with True ge big show ?thesis by (simp add: simps)
      next
        case False
        then have "unat (r * 10) = unat r * 10"
          by (simp add: unat_word_ariths simps)
        with False True ge big show ?thesis
          by (simp add: simps d)
      qed
    next
      case False
      have "unat (r * 10) = unat r * 10"
        using False by (simp add: unat_word_ariths simps)
      moreover from this have "unat (r * 10 + ?d) = ?v"
        using False by (simp add: unat_word_ariths(1) d mult.commute)
      ultimately show ?thesis
        using False True Cons.IH [of "r * 10 + ?d"]
        by (simp add: simps d)
    qed
  next
    case False
    then show ?thesis by simp
  qed
qed

lemma chiReadUInt_spec:
  assumes "4 \<le> LENGTH('a)"
  shows "(chiReadUInt s :: ('a::len word \<times> u8 list) option) = read_spec s"
proof -
  have "dropWhile byte_digit s = s \<longleftrightarrow> takeWhile byte_digit s = []"
  proof (cases s)
    case (Cons c t)
    have "length (dropWhile byte_digit t) \<le> length t" by (rule length_dropWhile_le)
    then have "dropWhile byte_digit t \<noteq> c # t" by auto
    with Cons show ?thesis by simp
  qed simp
  then show ?thesis
    by (auto simp: chiReadUInt_def readLoop_spec [OF assms] read_spec_def Let_def)
qed

lemma dec_digits: "c \<in> set (dec n) \<Longrightarrow> byte_digit c"
proof (induction n rule: dec.induct)
  case (1 n)
  have d: "byte_digit (48 + of_nat k)" if "k < 10" for k
  proof -
    have "unat (48 + of_nat k :: u8) = 48 + k"
      using that by (simp add: unat_word_ariths unat_of_nat)
    with that show ?thesis by (simp add: byte_digit_iff word_le_nat_alt)
  qed
  show ?case
    using 1 d [of "n mod 10"] d [of n] by (cases "n < 10") (auto simp: dec_small dec_step)
qed

lemma dval_dec: "dval 0 (dec n) = n"
proof (induction n rule: dec.induct)
  case (1 n)
  have d: "digit_val (48 + of_nat k) = k" if "k < 10" for k
    using that by (simp add: digit_val_def unat_word_ariths unat_of_nat)
  show ?case
    using 1 d [of "n mod 10"] d [of n] by (cases "n < 10") (simp_all add: dec_small dec_step dval_append)
qed

lemma read_spec_dec:
  assumes "n < 2 ^ LENGTH('a)" and "rest = [] \<or> \<not> byte_digit (hd rest)"
  shows "read_spec (dec n @ rest) = Some (of_nat n :: 'a::len word, rest)"
proof -
  have "takeWhile byte_digit rest = []" "dropWhile byte_digit rest = rest"
    using assms(2) by (cases rest; simp)+
  then show ?thesis
    using assms(1) by (simp add: read_spec_def takeWhile_append2 dropWhile_append2 dec_digits dval_dec)
qed

section \<open>Logarithms and powers of two\<close>

lemma chiLog2Floor_floorlog: "x \<noteq> 0 \<Longrightarrow> chiLog2Floor x = floorlog 2 (unat x) - 1"
  using floorlog_u64 [of x] floorlog_ge_1 [of "unat x"]
  by (simp add: chiLog2Floor_def clz64_def unat_gt_0)

lemma chiLog2Floor_bounds:
  assumes "x \<noteq> 0"
  shows "2 ^ chiLog2Floor x \<le> unat x \<and> unat x < 2 ^ (chiLog2Floor x + 1)"
  using floorlog_bounds [of "unat x"] floorlog_ge_1 [of "unat x"] assms
  by (simp add: chiLog2Floor_floorlog unat_gt_0)

lemma log2_unique:
  assumes "2 ^ j \<le> (n::nat)" "n < 2 ^ (j + 1)" "2 ^ k \<le> n" "n < 2 ^ (k + 1)"
  shows "j = k"
proof -
  have "(2::nat) ^ j < 2 ^ (k + 1)" "(2::nat) ^ k < 2 ^ (j + 1)" using assms by linarith+
  then have "j < k + 1" "k < j + 1" by (simp_all only: power_strict_increasing_iff one_less_numeral_iff semiring_norm)
  then show ?thesis by simp
qed

lemma chiLog2Ceil_bounds:
  assumes "1 < x"
  shows "2 ^ (chiLog2Ceil x - 1) < unat x \<and> unat x \<le> 2 ^ chiLog2Ceil x"
proof -
  have x: "1 < unat x" using assms by (simp add: word_less_nat_alt)
  then have "x \<noteq> 0" by auto
  then have pred: "unat (x - 1) = unat x - 1" by (rule unat_minus_one)
  have "chiLog2Ceil x = floorlog 2 (unat x - 1)"
    using floorlog_u64 [of "x - 1"] by (simp add: chiLog2Ceil_def clz64_def pred)
  then show ?thesis using floorlog_bounds [of "unat x - 1"] x by simp linarith
qed

text \<open>Clearing the lowest set bit of a power of two leaves 0, and of nothing else.\<close>

lemma and_pred_pow2: "n AND (n - 1) = 0 \<Longrightarrow> 0 < n \<Longrightarrow> \<exists>k. n = 2 ^ k" for n :: nat
proof (induction n rule: less_induct)
  case (less n)
  show ?case
  proof (cases "even n")
    case True
    then obtain m where m: "n = 2 * m" by (elim evenE)
    with less.prems have "0 < m" by simp
    have "(2 * m) AND (2 * m - 1) = 2 * (m AND (m - 1))"
    proof -
      from \<open>0 < m\<close> have "2 * m - 1 = 1 + 2 * (m - 1)" by simp
      then show ?thesis by (simp add: and_nat_rec [of "2 * m"])
    qed
    with less.prems m have "m AND (m - 1) = 0" by simp
    with less.IH [of m] m \<open>0 < m\<close> obtain k where "m = 2 ^ k" by auto
    with m have "n = 2 ^ Suc k" by simp
    then show ?thesis by blast
  next
    case False
    then obtain m where m: "n = Suc (2 * m)" by (auto elim: oddE)
    have "n AND (n - 1) = 2 * m" by (simp add: m and_nat_rec [of "Suc (2 * m)"])
    with less.prems m have "n = 2 ^ 0" by simp
    then show ?thesis by blast
  qed
qed

lemma pow2_and_pred: "(2 ^ k :: nat) AND (2 ^ k - 1) = 0"
proof -
  have "(2 ^ k :: nat) AND mask k = take_bit k (2 ^ k)" by (simp add: take_bit_eq_mask)
  then show ?thesis by (simp add: mask_eq_exp_minus_1)
qed

lemma chiIsPow2_iff: "chiIsPow2 x \<longleftrightarrow> (\<exists>k. unat x = 2 ^ k)"
proof -
  have "x AND (x - 1) = 0 \<longleftrightarrow> unat x AND (unat x - 1) = 0" if "x \<noteq> 0"
  proof -
    have "unat (x AND (x - 1)) = unat x AND (unat x - 1)"
      using that by (simp add: unsigned_and_eq unat_minus_one)
    then show ?thesis by (metis unat_eq_zero)
  qed
  moreover have "(unat x AND (unat x - 1) = 0 \<and> unat x \<noteq> 0) \<longleftrightarrow> (\<exists>k. unat x = 2 ^ k)"
    using and_pred_pow2 [of "unat x"] pow2_and_pred by fastforce
  moreover have "x = 0 \<longleftrightarrow> unat x = 0" by (simp add: unat_eq_zero)
  ultimately show ?thesis unfolding chiIsPow2_def by metis
qed

lemma length_dec_u64: "length (dec (unat (n :: u64))) \<le> 20"
proof -
  have "b * 1233 div 4096 \<le> 19" if "b \<le> 64" for b :: nat
    using that by simp
  then have "(64 - clz64 n) * 1233 div 4096 \<le> 19" by simp
  moreover have "countDigits10 n \<le> (64 - clz64 n) * 1233 div 4096 + 1"
    by (simp add: countDigits10_def Let_def drop_bit_eq_div)
  ultimately have "countDigits10 n \<le> 20" by linarith
  then show ?thesis by (simp add: countDigits10_length)
qed

lemma length_dec_int: "length (dec_int (sint (n :: u64))) \<le> 21"
proof (cases "sint n < 0")
  case True
  then show ?thesis
    using length_dec_u64 [of "- n"] by (simp add: dec_int_def unat_minus_neg)
next
  case False
  then show ?thesis
    using length_dec_u64 [of n] by (simp add: dec_int_def nat_sint_nonneg)
qed

section \<open>Properties\<close>

text \<open>C32: \<^verbatim>\<open>chiShowUInt\<close> writes exactly the decimal numeral of its argument, from the given pointer
  up to the returned end pointer, at most 20 bytes (below \<^verbatim>\<open>CHI_INT_BUFSIZE\<close> = 24), and leaves every
  byte outside that range as it was.\<close>

theorem chiShowUInt_decimal:
  assumes "chiShowUInt m p n = (m', q)"
  shows "mread m' p (q - p) = dec (unat n) \<and> p < q \<and> q \<le> p + 20 \<and>
    (\<forall>a. a < p \<or> q \<le> a \<longrightarrow> m' a = m a)"
  using assms length_dec_u64 [of n] length_dec_pos [of "unat n"]
  by (auto simp: chiShowUInt_eq mwrite_outside simp del: length_greater_0_conv)

theorem chiShowUInt_decimal_witness:
  "mread (fst (chiShowUInt (\<lambda>_. 7) 100 12345)) 100 5 = [49, 50, 51, 52, 53] \<and>
   snd (chiShowUInt (\<lambda>_. 7) 100 12345) = 105 \<and> fst (chiShowUInt (\<lambda>_. 7) 100 12345) 105 = 7"
proof -
  have d: "dec 12345 = [49, 50, 51, 52, 53]" by (simp add: dec.simps)
  then have q: "snd (chiShowUInt (\<lambda>_. 7) 100 12345) = 105" by (simp add: chiShowUInt_eq)
  with chiShowUInt_decimal [of "\<lambda>_. 7" 100 12345 "fst (chiShowUInt (\<lambda>_. 7) 100 12345)" 105] d
  show ?thesis by (simp add: prod_eq_iff)
qed

text \<open>\<^verbatim>\<open>chiShowInt\<close> writes exactly the signed decimal numeral, also for \<^verbatim>\<open>INT64_MIN\<close>, whose negation
  wraps to itself and is then read as its magnitude, and fits \<^verbatim>\<open>CHI_INT_BUFSIZE\<close> with its terminator.\<close>

theorem chiShowInt_decimal:
  assumes "chiShowInt m p n = (m', q)"
  shows "mread m' p (q - p) = dec_int (sint n) \<and> q < p + 24 \<and>
    (\<forall>a. a < p \<or> q \<le> a \<longrightarrow> m' a = m a)"
  using assms length_dec_int [of n] by (auto simp: chiShowInt_eq mwrite_outside)

theorem chiShowInt_decimal_witness:
  "mread (fst (chiShowInt (\<lambda>_. 0) 8 (- 42))) 8 3 = [45, 52, 50]"
proof -
  have s: "sint (- 42 :: u64) = - 42" by simp
  have d: "dec_int (- 42) = [45, 52, 50]" by (simp add: dec_int_def dec.simps)
  then have q: "snd (chiShowInt (\<lambda>_. 0) 8 (- 42)) = 11" by (simp add: chiShowInt_eq s)
  with chiShowInt_decimal [of "\<lambda>_. 0" 8 "- 42" "fst (chiShowInt (\<lambda>_. 0) 8 (- 42))" 11] d s
  show ?thesis by (simp add: prod_eq_iff)
qed

text \<open>\<^verbatim>\<open>chiShowHexUInt\<close> writes exactly the hexadecimal numeral in lower case, without leading
  zeros, and nothing outside it.\<close>

theorem chiShowHexUInt_hexadecimal:
  assumes "chiShowHexUInt m p n = (m', q)"
  shows "mread m' p (q - p) = hex (unat n) \<and> (\<forall>a. a < p \<or> q \<le> a \<longrightarrow> m' a = m a)"
  using assms by (auto simp: chiShowHexUInt_eq mwrite_outside)

theorem chiShowHexUInt_hexadecimal_witness:
  "mread (fst (chiShowHexUInt (\<lambda>_. 0) 4 43981)) 4 4 = [97, 98, 99, 100]"
proof -
  have h: "hex 43981 = [97, 98, 99, 100]" by (simp add: hex.simps hex_digit_def)
  then have q: "snd (chiShowHexUInt (\<lambda>_. 0) 4 43981) = 8" by (simp add: chiShowHexUInt_eq)
  with chiShowHexUInt_hexadecimal [of "\<lambda>_. 0" 4 43981 "fst (chiShowHexUInt (\<lambda>_. 0) 4 43981)" 8] h
  show ?thesis by (simp add: prod_eq_iff)
qed

text \<open>C33: \<^verbatim>\<open>chiReadUInt64\<close> and \<^verbatim>\<open>chiReadUInt32\<close> meet the parser's specification on every string: they
  fail exactly when there is no digit or the value of the longest digit prefix does not fit the
  type, and otherwise return that value and advance past the digits.\<close>

theorem chiReadUInt_meets_spec:
  "chiReadUInt64 s = read_spec s \<and> chiReadUInt32 s = read_spec s"
  by (simp add: chiReadUInt64_def chiReadUInt32_def chiReadUInt_spec)

text \<open>C34: Reading back what \<^verbatim>\<open>chiShowUInt\<close> wrote gives the number and the text that follows it.\<close>

theorem show_read_roundtrip:
  assumes "chiShowUInt m p n = (m', q)"
    and "rest = [] \<or> \<not> byte_digit (hd rest)"
  shows "chiReadUInt64 (mread m' p (q - p) @ rest) = Some (n, rest)"
proof -
  have "mread m' p (q - p) = dec (unat n)"
    using assms(1) by (auto simp: chiShowUInt_eq)
  moreover have "(read_spec (dec (unat n) @ rest) :: (u64 \<times> u8 list) option) = Some (n, rest)"
    using read_spec_dec [where 'a = 64, of "unat n" rest] assms(2) by simp
  ultimately show ?thesis
    by (simp add: chiReadUInt64_def chiReadUInt_spec)
qed

theorem show_read_roundtrip_witness:
  "chiReadUInt64 (mread (fst (chiShowUInt (\<lambda>_. 0) 0 905)) 0 3 @ [44, 49]) = Some (905, [44, 49])"
proof -
  have "dec 905 = [57, 48, 53]" by (simp add: dec.simps)
  then have "chiShowUInt (\<lambda>_. 0) 0 905 = (fst (chiShowUInt (\<lambda>_. 0) 0 905), 3)"
    by (simp add: chiShowUInt_eq)
  moreover have "\<not> byte_digit (hd [44, 49])" by (simp add: byte_digit_iff)
  ultimately show ?thesis
    using show_read_roundtrip [of "\<lambda>_. 0" 0 905 _ 3 "[44, 49]"] by simp
qed

text \<open>\<^verbatim>\<open>chiPow\<close>, square-and-multiply, is exponentiation modulo 2^64.\<close>

theorem chiPow_power: "chiPow a b = a ^ unat b"
  by (simp add: chiPow_def powLoop_eq)

text \<open>The logarithms bracket their argument between powers of two: \<^verbatim>\<open>chiLog2Floor\<close> from below for
  every non-zero word and \<^verbatim>\<open>chiLog2Ceil\<close> from above for every word above 1; \<^verbatim>\<open>chiIsPow2\<close> holds exactly
  for the powers of two.\<close>

theorem log2_brackets:
  assumes "1 < x"
  shows "2 ^ chiLog2Floor x \<le> unat x \<and> unat x < 2 ^ (chiLog2Floor x + 1) \<and>
    2 ^ (chiLog2Ceil x - 1) < unat x \<and> unat x \<le> 2 ^ chiLog2Ceil x \<and>
    (chiIsPow2 x \<longleftrightarrow> (\<exists>k. unat x = 2 ^ k))"
proof -
  have "x \<noteq> 0" using assms by auto
  then show ?thesis
    using chiLog2Floor_bounds [of x] chiLog2Ceil_bounds [OF assms] chiIsPow2_iff [of x] by simp
qed

theorem log2_brackets_witness:
  "2 ^ chiLog2Floor 4097 \<le> (4097::nat) \<and> (4097::nat) \<le> 2 ^ chiLog2Ceil 4097"
  using log2_brackets [of 4097] by simp

end
