(* ===== verification/Utf8.thy ===== *)
theory Utf8
  imports Numfmt
begin

text \<open>
  The UTF-8 coder of \<^verbatim>\<open>src/native/include/chili/object/string.h\<close> and the table-driven validator
  \<^verbatim>\<open>chiUtf8Valid\<close> of \<^verbatim>\<open>src/native/string.c\<close>. Strings are lists of bytes. The validator is shown to
  accept exactly the encodings of sequences of Unicode scalar values, on which decoding inverts
  encoding.
\<close>

section \<open>Coder (string.h)\<close>

definition chiUtf8DecodeSize :: "u8 \<Rightarrow> nat" where
  "chiUtf8DecodeSize c =
     unat (drop_bit (4 * (unat c div 16)) (0x4322000011111111 :: u64) AND 7)"

text \<open>The result is \<open>None\<close> where one of the two assertions of \<^verbatim>\<open>chiUtf8Decode\<close> fails: the cursor is at the
  end, or the sequence announced by its first byte runs past the end. A continuation byte in
  leading position announces no bytes, so 0 is returned and the cursor does not move.\<close>

definition chiUtf8Decode :: "u8 list \<Rightarrow> (u32 \<times> u8 list) option" where
  "chiUtf8Decode s =
     (if s = [] then None
      else let n = chiUtf8DecodeSize (s ! 0) in
        if length s < n then None
        else Some
          (if n = 1 then ucast (s ! 0)
           else if n = 2 then push_bit 6 (ucast (s ! 0) AND 31) OR (ucast (s ! 1) AND 63)
           else if n = 3 then
             (push_bit 12 (ucast (s ! 0) AND 15) OR push_bit 6 (ucast (s ! 1) AND 63))
               OR (ucast (s ! 2) AND 63)
           else if n = 4 then
             ((push_bit 18 (ucast (s ! 0) AND 7) OR push_bit 12 (ucast (s ! 1) AND 63))
               OR push_bit 6 (ucast (s ! 2) AND 63)) OR (ucast (s ! 3) AND 63)
           else 0,
           drop n s))"

definition chiUtf8EncodeSize :: "u32 \<Rightarrow> nat" where
  "chiUtf8EncodeSize c =
     (if c \<le> 0x7F then 1 else if c \<le> 0x7FF then 2 else if c \<le> 0xFFFF then 3
      else if c \<le> 0x1FFFFF then 4 else 0)"

definition chiUtf8Encode :: "u32 \<Rightarrow> u8 list" where
  "chiUtf8Encode c =
     (if c \<le> 0x7F then [ucast c]
      else if c \<le> 0x7FF then
        [ucast (0xC0 OR drop_bit 6 c), ucast (0x80 OR (c AND 0x3F))]
      else if c \<le> 0xFFFF then
        [ucast (0xE0 OR drop_bit 12 c), ucast (0x80 OR (drop_bit 6 c AND 0x3F)),
         ucast (0x80 OR (c AND 0x3F))]
      else if c \<le> 0x1FFFFF then
        [ucast (0xF0 OR drop_bit 18 c), ucast (0x80 OR (drop_bit 12 c AND 0x3F)),
         ucast (0x80 OR (drop_bit 6 c AND 0x3F)), ucast (0x80 OR (c AND 0x3F))]
      else [])"

section \<open>Validator (string.c)\<close>

definition utf8table :: "u8 list" where
  "utf8table = [
     0, 0, 0, 0, 0, 0, 0, 0, 0, 0, 0, 0, 0, 0, 0, 0, 0, 0, 0, 0, 0, 0, 0, 0,
     0, 0, 0, 0, 0, 0, 0, 0, 0, 0, 0, 0, 0, 0, 0, 0, 0, 0, 0, 0, 0, 0, 0, 0,
     0, 0, 0, 0, 0, 0, 0, 0, 0, 0, 0, 0, 0, 0, 0, 0, 0, 0, 0, 0, 0, 0, 0, 0,
     0, 0, 0, 0, 0, 0, 0, 0, 0, 0, 0, 0, 0, 0, 0, 0, 0, 0, 0, 0, 0, 0, 0, 0,
     0, 0, 0, 0, 0, 0, 0, 0, 0, 0, 0, 0, 0, 0, 0, 0, 0, 0, 0, 0, 0, 0, 0, 0,
     0, 0, 0, 0, 0, 0, 0, 0, 1, 1, 1, 1, 1, 1, 1, 1, 1, 1, 1, 1, 1, 1, 1, 1,
     9, 9, 9, 9, 9, 9, 9, 9, 9, 9, 9, 9, 9, 9, 9, 9, 7, 7, 7, 7, 7, 7, 7, 7,
     7, 7, 7, 7, 7, 7, 7, 7, 7, 7, 7, 7, 7, 7, 7, 7, 7, 7, 7, 7, 7, 7, 7, 7,
     8, 8, 2, 2, 2, 2, 2, 2, 2, 2, 2, 2, 2, 2, 2, 2, 2, 2, 2, 2, 2, 2, 2, 2,
     2, 2, 2, 2, 2, 2, 2, 2, 10, 3, 3, 3, 3, 3, 3, 3, 3, 3, 3, 3, 3, 4, 3, 3,
     11, 6, 6, 6, 5, 8, 8, 8, 8, 8, 8, 8, 8, 8, 8, 8, 0, 12, 24, 36, 60, 96, 84, 12,
     12, 12, 48, 72, 12, 12, 12, 12, 12, 12, 12, 12, 12, 12, 12, 12, 12, 0, 12, 12, 12, 12, 12, 0,
     12, 0, 12, 12, 12, 24, 12, 12, 12, 12, 12, 24, 12, 24, 12, 12, 12, 12, 12, 12, 12, 12, 12, 24,
     12, 12, 12, 12, 12, 24, 12, 12, 12, 12, 12, 12, 12, 24, 12, 12, 12, 12, 12, 12, 12, 12, 12, 36,
     12, 36, 12, 12, 12, 36, 12, 12, 12, 12, 12, 36, 12, 36, 12, 12, 12, 36, 12, 12, 12, 12, 12, 12,
     12, 12, 12, 12]"

definition utf8step :: "u8 \<Rightarrow> u8 \<Rightarrow> u8" where
  "utf8step state b = utf8table ! (256 + unat state + unat (utf8table ! unat b))"

definition chiUtf8Valid :: "u8 list \<Rightarrow> bool" where
  "chiUtf8Valid p \<longleftrightarrow> foldl utf8step 0 p = 0"

section \<open>The encoding on natural numbers\<close>

text \<open>The mathematical content of the coder: encoding and decoding of code points below 2^21 as lists
  of natural numbers.\<close>

definition utf8_enc :: "nat \<Rightarrow> nat list" where
  "utf8_enc c =
     (if c < 0x80 then [c]
      else if c < 0x800 then [0xC0 + c div 64, 0x80 + c mod 64]
      else if c < 0x10000 then [0xE0 + c div 4096, 0x80 + c div 64 mod 64, 0x80 + c mod 64]
      else [0xF0 + c div 262144, 0x80 + c div 4096 mod 64, 0x80 + c div 64 mod 64, 0x80 + c mod 64])"

lemma unat_prefix:
  assumes "unat (x :: u32) < 2 ^ k" and "2 ^ k dvd unat a" and "unat a + 2 ^ k \<le> 256"
  shows "unat (ucast (a OR x) :: u8) = unat a + unat x"
  using assms by (simp add: unsigned_ucast_eq unat_or_add take_bit_nat_eq_self)

lemma map_unat_chiUtf8Encode:
  assumes "c < 0x200000"
  shows "map unat (chiUtf8Encode c) = utf8_enc (unat c)"
proof -
  have c: "unat c < 0x200000" using assms by (simp add: word_less_nat_alt)
  have low: "unat (ucast (0x80 OR (x AND 0x3F) :: u32) :: u8) = 0x80 + unat x mod 64" for x
    by (subst unat_prefix [where k = 6]) (simp_all add: unat_and_mask_numeral)
  consider "unat c < 0x80" | "0x80 \<le> unat c" "unat c < 0x800"
    | "0x800 \<le> unat c" "unat c < 0x10000" | "0x10000 \<le> unat c" by linarith
  then show ?thesis
  proof cases
    case 1
    then show ?thesis
      by (simp add: chiUtf8Encode_def utf8_enc_def word_le_nat_alt unsigned_ucast_eq take_bit_nat_eq_self)
  next
    case 2
    have "unat (ucast (0xC0 OR drop_bit 6 c) :: u8) = 0xC0 + unat c div 64"
      using 2 by (subst unat_prefix [where k = 5]) (simp_all add: unat_drop_bit [of 6, simplified])
    with 2 low [of c] show ?thesis
      by (simp add: chiUtf8Encode_def utf8_enc_def word_le_nat_alt)
  next
    case 3
    have "unat (ucast (0xE0 OR drop_bit 12 c) :: u8) = 0xE0 + unat c div 4096"
      using 3 by (subst unat_prefix [where k = 4]) (simp_all add: unat_drop_bit [of 12, simplified])
    with 3 low [of c] low [of "drop_bit 6 c"] show ?thesis
      by (simp add: chiUtf8Encode_def utf8_enc_def word_le_nat_alt unat_drop_bit [of 6, simplified])
  next
    case 4
    have "unat (ucast (0xF0 OR drop_bit 18 c) :: u8) = 0xF0 + unat c div 262144"
      using c by (subst unat_prefix [where k = 3]) (simp_all add: unat_drop_bit [of 18, simplified])
    with 4 c low [of c] low [of "drop_bit 6 c"] low [of "drop_bit 12 c"] show ?thesis
      by (simp add: chiUtf8Encode_def utf8_enc_def word_le_nat_alt
          unat_drop_bit [of 6, simplified] unat_drop_bit [of 12, simplified])
  qed
qed

section \<open>Decoding inverts encoding\<close>

lemma chiUtf8DecodeSize_eq:
  "chiUtf8DecodeSize c =
     (if unat c < 128 then 1 else if unat c < 192 then 0 else if unat c < 224 then 2
      else if unat c < 240 then 3 else 4)"
proof -
  have "unat c div 16 < 16" using unat_u8_lt [of c] by linarith
  moreover have "\<forall>k \<in> set [0..<16]. unat (drop_bit (4 * k) (0x4322000011111111 :: u64) AND 7)
      = (if k < 8 then 1 else if k < 12 then 0 else if k < 14 then 2 else if k < 15 then 3 else 4)"
    by (simp add: upt_rec)
  ultimately have "chiUtf8DecodeSize c = (let k = unat c div 16 in
      if k < 8 then 1 else if k < 12 then 0 else if k < 14 then 2 else if k < 15 then 3 else 4)"
    by (simp add: chiUtf8DecodeSize_def Let_def)
  then show ?thesis by (simp add: Let_def div_less_iff_less_mult)
qed

lemma unat_ucast_u32 [simp]: "unat (ucast (a :: u8) :: u32) = unat a"
  by (simp add: unsigned_ucast_eq take_bit_nat_eq_self order_less_trans [OF unat_u8_lt])

lemma unat_shift_field:
  assumes "unat (x :: u32) < 2 ^ j" and "j + k \<le> 32"
  shows "unat (push_bit k x) = unat x * 2 ^ k"
proof (rule unat_push_bit_small)
  have "unat x * 2 ^ k < 2 ^ (j + k)" using assms(1) by (simp add: power_add)
  also have "\<dots> \<le> 2 ^ 32" using assms(2) by (intro power_increasing) auto
  finally show "unat x * 2 ^ k < 2 ^ LENGTH(32)" by simp
qed

lemma unat_or_field:
  assumes "unat (a :: u32) = x * 2 ^ k" and "unat b < 2 ^ k"
  shows "unat (a OR b) = x * 2 ^ k + unat b"
  using assms unat_or_add [of k a b] by simp

lemma decode2:
  "unat (push_bit 6 (ucast a AND 31) OR (ucast b AND 63) :: u32)
     = unat (a :: u8) mod 32 * 64 + unat (b :: u8) mod 64"
proof -
  have "unat (push_bit 6 (ucast a AND 31) :: u32) = unat a mod 32 * 2 ^ 6"
    using unat_shift_field [of "ucast a AND 31" 5 6] by (simp add: unat_and_mask_numeral)
  from unat_or_field [OF this, of "ucast b AND 63"] show ?thesis
    by (simp add: unat_and_mask_numeral)
qed

lemma decode3:
  "unat ((push_bit 12 (ucast a AND 15) OR push_bit 6 (ucast b AND 63)) OR (ucast c AND 63) :: u32)
     = (unat (a :: u8) mod 16 * 64 + unat (b :: u8) mod 64) * 64 + unat (c :: u8) mod 64"
proof -
  have "unat (push_bit 12 (ucast a AND 15) :: u32) = unat a mod 16 * 2 ^ 12"
    using unat_shift_field [of "ucast a AND 15" 4 12] by (simp add: unat_and_15)
  moreover have b: "unat (push_bit 6 (ucast b AND 63) :: u32) = unat b mod 64 * 2 ^ 6"
    using unat_shift_field [of "ucast b AND 63" 6 6] by (simp add: unat_and_mask_numeral)
  ultimately have "unat (push_bit 12 (ucast a AND 15) OR push_bit 6 (ucast b AND 63) :: u32)
      = (unat a mod 16 * 64 + unat b mod 64) * 2 ^ 6"
    using unat_or_field [of "push_bit 12 (ucast a AND 15)" "unat a mod 16" 12 "push_bit 6 (ucast b AND 63)"]
    by simp
  from unat_or_field [OF this, of "ucast c AND 63"] show ?thesis
    by (simp add: unat_and_mask_numeral)
qed

lemma decode4:
  "unat (((push_bit 18 (ucast a AND 7) OR push_bit 12 (ucast b AND 63))
       OR push_bit 6 (ucast c AND 63)) OR (ucast d AND 63) :: u32)
     = ((unat (a :: u8) mod 8 * 64 + unat (b :: u8) mod 64) * 64 + unat (c :: u8) mod 64) * 64
       + unat (d :: u8) mod 64"
proof -
  have "unat (push_bit 18 (ucast a AND 7) :: u32) = unat a mod 8 * 2 ^ 18"
    using unat_shift_field [of "ucast a AND 7" 3 18] by (simp add: unat_and_mask_numeral)
  moreover have "unat (push_bit 12 (ucast b AND 63) :: u32) = unat b mod 64 * 2 ^ 12"
    using unat_shift_field [of "ucast b AND 63" 6 12] by (simp add: unat_and_mask_numeral)
  ultimately have "unat (push_bit 18 (ucast a AND 7) OR push_bit 12 (ucast b AND 63) :: u32)
      = (unat a mod 8 * 64 + unat b mod 64) * 2 ^ 12"
    using unat_or_field [of "push_bit 18 (ucast a AND 7)" "unat a mod 8" 18 "push_bit 12 (ucast b AND 63)"]
    by simp
  moreover have "unat (push_bit 6 (ucast c AND 63) :: u32) = unat c mod 64 * 2 ^ 6"
    using unat_shift_field [of "ucast c AND 63" 6 6] by (simp add: unat_and_mask_numeral)
  ultimately have "unat ((push_bit 18 (ucast a AND 7) OR push_bit 12 (ucast b AND 63))
        OR push_bit 6 (ucast c AND 63) :: u32)
      = ((unat a mod 8 * 64 + unat b mod 64) * 64 + unat c mod 64) * 2 ^ 6"
    using unat_or_field [of _ "unat a mod 8 * 64 + unat b mod 64" 12 "push_bit 6 (ucast c AND 63)"]
    by simp
  from unat_or_field [OF this, of "ucast d AND 63"] show ?thesis
    by (simp add: unat_and_mask_numeral)
qed

lemma mod_offset: "k dvd a \<Longrightarrow> x < k \<Longrightarrow> (a + x) mod k = (x :: nat)"
  by (metis mod_less mod_add_left_eq dvd_eq_mod_eq_0 add_0)

lemma utf8_enc_decodes:
  assumes "map unat s = utf8_enc (unat c)" and "unat (c :: u32) < 0x200000"
  shows "chiUtf8Decode (s @ r) = Some (c, r)"
proof -
  define n where "n = unat c"
  have eqI: "v = c" if "unat v = n" for v
    using that by (simp add: n_def unsigned_word_eqI)
  consider "n < 0x80" | "0x80 \<le> n" "n < 0x800" | "0x800 \<le> n" "n < 0x10000" | "0x10000 \<le> n"
    by linarith
  then show ?thesis
  proof cases
    case 1
    then obtain a where s: "s = [a]" "unat a = n"
      using assms(1) by (auto simp: utf8_enc_def n_def)
    with 1 show ?thesis
      by (auto simp: chiUtf8Decode_def chiUtf8DecodeSize_eq intro!: eqI)
  next
    case 2
    then obtain a b where s: "s = [a, b]" "unat a = 0xC0 + n div 64" "unat b = 0x80 + n mod 64"
      using assms(1) by (auto simp: utf8_enc_def n_def)
    from 2 have "n div 64 < 32" "2 \<le> n div 64" by simp_all
    with s have "unat a mod 32 = n div 64" "unat b mod 64 = n mod 64"
      by (simp_all add: mod_offset)
    then have "unat a mod 32 * 64 + unat b mod 64 = n" by simp
    with s \<open>n div 64 < 32\<close> show ?thesis
      by (auto simp: chiUtf8Decode_def chiUtf8DecodeSize_eq decode2 [simplified] intro!: eqI)
  next
    case 3
    then obtain a b d where s: "s = [a, b, d]" "unat a = 0xE0 + n div 4096"
        "unat b = 0x80 + n div 64 mod 64" "unat d = 0x80 + n mod 64"
      using assms(1) by (auto simp: utf8_enc_def n_def)
    from 3 have lt: "n div 4096 < 16" by simp
    have "n div 4096 * 64 + n div 64 mod 64 = n div 64"
      using div_mult_mod_eq [of "n div 64" 64] by (simp flip: div_mult2_eq)
    moreover have "unat a mod 16 = n div 4096" "unat b mod 64 = n div 64 mod 64" "unat d mod 64 = n mod 64"
      using s lt by (simp_all add: mod_offset)
    ultimately have "(unat a mod 16 * 64 + unat b mod 64) * 64 + unat d mod 64 = n"
      by simp
    with s lt show ?thesis
      by (auto simp: chiUtf8Decode_def chiUtf8DecodeSize_eq decode3 [simplified] intro!: eqI)
  next
    case 4
    then obtain a b d e where s: "s = [a, b, d, e]" "unat a = 0xF0 + n div 262144"
        "unat b = 0x80 + n div 4096 mod 64" "unat d = 0x80 + n div 64 mod 64" "unat e = 0x80 + n mod 64"
      using assms(1) by (auto simp: utf8_enc_def n_def)
    have lt: "n div 262144 < 8" using assms(2) by (simp add: n_def)
    have "n div 262144 * 64 + n div 4096 mod 64 = n div 4096"
      using div_mult_mod_eq [of "n div 4096" 64] by (simp flip: div_mult2_eq)
    moreover have "n div 4096 * 64 + n div 64 mod 64 = n div 64"
      using div_mult_mod_eq [of "n div 64" 64] by (simp flip: div_mult2_eq)
    moreover have "unat a mod 8 = n div 262144" "unat b mod 64 = n div 4096 mod 64"
        "unat d mod 64 = n div 64 mod 64" "unat e mod 64 = n mod 64"
      using s lt by (simp_all add: mod_offset)
    ultimately have "((unat a mod 8 * 64 + unat b mod 64) * 64 + unat d mod 64) * 64 + unat e mod 64 = n"
      by simp
    with s lt show ?thesis
      by (auto simp: chiUtf8Decode_def chiUtf8DecodeSize_eq decode4 [simplified] intro!: eqI)
  qed
qed

lemma chiUtf8Decode_Encode:
  "c < 0x200000 \<Longrightarrow> chiUtf8Decode (chiUtf8Encode c @ r) = Some (c, r)"
  by (rule utf8_enc_decodes) (simp_all add: map_unat_chiUtf8Encode word_less_nat_alt)

lemma length_chiUtf8Encode: "length (chiUtf8Encode c) = chiUtf8EncodeSize c"
  by (simp add: chiUtf8Encode_def chiUtf8EncodeSize_def)

section \<open>The validator's automaton\<close>

text \<open>The nine states of the automaton on natural numbers, with the ranges of the next byte that each
  accepts; 12 is the rejecting state.\<close>

definition nxt :: "nat \<Rightarrow> nat \<Rightarrow> nat" where
  "nxt st b =
     (if st = 0 then
        if b < 0x80 then 0 else if b < 0xC2 then 12 else if b < 0xE0 then 24
        else if b = 0xE0 then 48 else if b = 0xED then 60 else if b < 0xF0 then 36
        else if b = 0xF0 then 72 else if b < 0xF4 then 84 else if b = 0xF4 then 96 else 12
      else if st = 24 then if 0x80 \<le> b \<and> b < 0xC0 then 0 else 12
      else if st = 36 then if 0x80 \<le> b \<and> b < 0xC0 then 24 else 12
      else if st = 48 then if 0xA0 \<le> b \<and> b < 0xC0 then 24 else 12
      else if st = 60 then if 0x80 \<le> b \<and> b < 0xA0 then 24 else 12
      else if st = 72 then if 0x90 \<le> b \<and> b < 0xC0 then 36 else 12
      else if st = 84 then if 0x80 \<le> b \<and> b < 0xC0 then 36 else 12
      else if st = 96 then if 0x80 \<le> b \<and> b < 0x90 then 36 else 12
      else 12)"

definition utf8_states :: "nat list" where
  "utf8_states = [0, 12, 24, 36, 48, 60, 72, 84, 96]"

text \<open>The byte classes of the first 256 table entries.\<close>

definition byte_class :: "nat \<Rightarrow> nat" where
  "byte_class b =
     (if b < 0x80 then 0 else if b < 0x90 then 1 else if b < 0xA0 then 9 else if b < 0xC0 then 7
      else if b < 0xC2 then 8 else if b < 0xE0 then 2 else if b = 0xE0 then 10
      else if b = 0xED then 4 else if b < 0xF0 then 3 else if b = 0xF0 then 11
      else if b < 0xF4 then 6 else if b = 0xF4 then 5 else 8)"

lemma byte_class_table: "\<forall>b \<in> set [0..<256]. unat (utf8table ! b) = byte_class b"
  by code_simp

text \<open>One byte of each class; bytes of the same class behave alike.\<close>

definition class_rep :: "nat list" where
  "class_rep = [0, 0x80, 0xC2, 0xE1, 0xED, 0xF4, 0xF1, 0xA0, 0xC0, 0x90, 0xE0, 0xF0]"

lemma transition_table:
  "\<forall>st \<in> set utf8_states. \<forall>k \<in> set [0..<12].
     unat (utf8table ! (256 + st + k)) = nxt st (class_rep ! k)"
  by code_simp

lemma nxt_byte_class:
  assumes "b < 256"
  shows "nxt st b = nxt st (class_rep ! byte_class b)"
proof -
  consider "b < 0x80" | "0x80 \<le> b" "b < 0x90" | "0x90 \<le> b" "b < 0xA0" | "0xA0 \<le> b" "b < 0xC0"
    | "0xC0 \<le> b" "b < 0xC2" | "0xC2 \<le> b" "b < 0xE0" | "b = 0xE0"
    | "0xE0 < b" "b < 0xF0" "b \<noteq> 0xED" | "b = 0xED" | "b = 0xF0" | "0xF0 < b" "b < 0xF4"
    | "b = 0xF4" | "0xF4 < b" by linarith
  then show ?thesis
    by cases (simp_all add: nxt_def byte_class_def class_rep_def)
qed

lemma byte_class_lt: "byte_class b < 12"
  by (simp add: byte_class_def)

lemma utf8step_nxt:
  assumes "unat st \<in> set utf8_states"
  shows "unat (utf8step st b) = nxt (unat st) (unat b)"
proof -
  have "unat (utf8table ! unat b) = byte_class (unat b)"
    using byte_class_table by simp
  moreover have "unat (utf8table ! (256 + unat st + byte_class (unat b)))
      = nxt (unat st) (class_rep ! byte_class (unat b))"
    using bspec [OF bspec [OF transition_table assms], of "byte_class (unat b)"]
    by (simp add: byte_class_lt)
  ultimately show ?thesis by (simp add: utf8step_def nxt_byte_class [symmetric])
qed

lemma nxt_state: "st \<in> set utf8_states \<Longrightarrow> nxt st b \<in> set utf8_states"
  by (auto simp: utf8_states_def nxt_def)

lemma foldl_utf8step:
  "unat st \<in> set utf8_states \<Longrightarrow> unat (foldl utf8step st bs) = foldl nxt (unat st) (map unat bs)"
  by (induction bs arbitrary: st) (simp_all add: utf8step_nxt nxt_state)

lemma chiUtf8Valid_nxt: "chiUtf8Valid bs \<longleftrightarrow> foldl nxt 0 (map unat bs) = 0"
  using foldl_utf8step [of 0 bs] by (simp add: chiUtf8Valid_def utf8_states_def flip: unat_eq_zero)

section \<open>Valid strings are encodings of scalar values\<close>

definition scalar :: "nat \<Rightarrow> bool" where
  "scalar c \<longleftrightarrow> c < 0x110000 \<and> \<not> (0xD800 \<le> c \<and> c < 0xE000)"

lemma foldl_nxt_12: "foldl nxt 12 bs = 12"
  by (induction bs) (simp_all add: nxt_def)

lemma not_accept_Nil: "st \<noteq> 0 \<Longrightarrow> foldl nxt st [] \<noteq> 0"
  by simp

text \<open>Acceptance from an inner state consumes a byte of the state's range.\<close>

lemma accept_step:
  "foldl nxt 24 bs = 0 \<Longrightarrow> \<exists>b r. bs = b # r \<and> 0x80 \<le> b \<and> b < 0xC0 \<and> foldl nxt 0 r = 0"
  "foldl nxt 36 bs = 0 \<Longrightarrow> \<exists>b r. bs = b # r \<and> 0x80 \<le> b \<and> b < 0xC0 \<and> foldl nxt 24 r = 0"
  "foldl nxt 48 bs = 0 \<Longrightarrow> \<exists>b r. bs = b # r \<and> 0xA0 \<le> b \<and> b < 0xC0 \<and> foldl nxt 24 r = 0"
  "foldl nxt 60 bs = 0 \<Longrightarrow> \<exists>b r. bs = b # r \<and> 0x80 \<le> b \<and> b < 0xA0 \<and> foldl nxt 24 r = 0"
  "foldl nxt 72 bs = 0 \<Longrightarrow> \<exists>b r. bs = b # r \<and> 0x90 \<le> b \<and> b < 0xC0 \<and> foldl nxt 36 r = 0"
  "foldl nxt 84 bs = 0 \<Longrightarrow> \<exists>b r. bs = b # r \<and> 0x80 \<le> b \<and> b < 0xC0 \<and> foldl nxt 36 r = 0"
  "foldl nxt 96 bs = 0 \<Longrightarrow> \<exists>b r. bs = b # r \<and> 0x80 \<le> b \<and> b < 0x90 \<and> foldl nxt 36 r = 0"
  by (cases bs; simp add: nxt_def foldl_nxt_12 split: if_splits)+

lemma accept_cont2:
  assumes "foldl nxt 36 bs = 0"
  obtains b d r where "bs = b # d # r" "0x80 \<le> b" "b < 0xC0" "0x80 \<le> d" "d < 0xC0" "foldl nxt 0 r = 0"
  using accept_step(2) [OF assms] accept_step(1) by blast

text \<open>The bytes of a code point from its digits in base 64, and back.\<close>

lemma digit64: "z < 64 \<Longrightarrow> (q * 64 + z) div 64 = q" "z < 64 \<Longrightarrow> (q * 64 + z) mod 64 = (z :: nat)"
  by simp_all

lemma enc2: "2 \<le> x \<Longrightarrow> x < 32 \<Longrightarrow> y < 64 \<Longrightarrow> utf8_enc (x * 64 + y) = [192 + x, 128 + y]"
  by (simp add: utf8_enc_def)

lemma enc3:
  assumes "x < 16" "y < 64" "z < 64" "32 \<le> x * 64 + y"
  shows "utf8_enc ((x * 64 + y) * 64 + z) = [224 + x, 128 + y, 128 + z]"
proof -
  let ?c = "(x * 64 + y) * 64 + z"
  have d: "?c div 64 = x * 64 + y" "?c mod 64 = z" by (simp_all only: digit64 [OF assms(3)])
  have "?c div 4096 = ?c div 64 div 64" by (simp flip: div_mult2_eq)
  also have "\<dots> = x" using assms by (simp add: d)
  finally have "?c div 4096 = x" .
  moreover have "?c < 65536" "2048 \<le> ?c" using assms by simp_all
  ultimately show ?thesis
    using d assms unfolding utf8_enc_def by simp
qed

lemma enc4:
  assumes "x < 8" "y < 64" "z < 64" "w < 64" "16 \<le> x * 64 + y"
  shows "utf8_enc (((x * 64 + y) * 64 + z) * 64 + w) = [240 + x, 128 + y, 128 + z, 128 + w]"
proof -
  let ?c = "((x * 64 + y) * 64 + z) * 64 + w"
  have d: "?c div 64 = (x * 64 + y) * 64 + z" "?c mod 64 = w" by (simp_all only: digit64 [OF assms(4)])
  have "?c div 4096 = ?c div 64 div 64" by (simp flip: div_mult2_eq)
  also have "\<dots> = x * 64 + y" using assms by (simp add: d)
  finally have d2: "?c div 4096 = x * 64 + y" .
  have "?c div 262144 = ?c div 4096 div 64" by (simp flip: div_mult2_eq)
  also have "\<dots> = x" using assms by (simp add: d2)
  finally have "?c div 262144 = x" .
  moreover have "65536 \<le> ?c" using assms by simp
  moreover have "?c div 64 mod 64 = z" by (simp only: d digit64 [OF assms(3)])
  ultimately show ?thesis
    using d(2) d2 assms unfolding utf8_enc_def by (simp del: distrib_left_numeral distrib_right_numeral)
qed

lemma offsetE: "a \<le> (b :: nat) \<Longrightarrow> (\<And>y. b = a + y \<Longrightarrow> P) \<Longrightarrow> P"
  using le_Suc_ex by blast

lemma accept_lead:
  assumes "foldl nxt 0 bs = 0" and "bs \<noteq> []"
  shows "\<exists>c r. scalar c \<and> bs = utf8_enc c @ r \<and> foldl nxt 0 r = 0"
proof -
  obtain a t where bs: "bs = a # t" using assms(2) by (cases bs) auto
  have acc: "foldl nxt (nxt 0 a) t = 0" using assms(1) bs by simp
  have three: "\<exists>c r. scalar c \<and> bs = utf8_enc c @ r \<and> foldl nxt 0 r = 0"
    if "a = 224 + x" "x < 16" "t = (128 + y) # (128 + z) # r" "y < 64" "z < 64"
      "x = 0 \<Longrightarrow> 32 \<le> y" "x = 13 \<Longrightarrow> y < 32" "foldl nxt 0 r = 0" for x y z r
  proof -
    have "32 \<le> x * 64 + y" using that by (cases x) auto
    moreover have "scalar ((x * 64 + y) * 64 + z)"
    proof (cases "x = 13")
      case True
      then have "y < 32" using that by blast
      with True that show ?thesis by (simp add: scalar_def)
    next
      case False
      then have "x \<le> 12 \<or> 14 \<le> x" by linarith
      then show ?thesis using that by (auto simp: scalar_def)
    qed
    ultimately show ?thesis using that bs enc3 [of x y z] by fastforce
  qed
  have four: "\<exists>c r. scalar c \<and> bs = utf8_enc c @ r \<and> foldl nxt 0 r = 0"
    if "a = 240 + x" "x < 5" "t = (128 + y) # (128 + z) # (128 + w) # r" "y < 64" "z < 64" "w < 64"
      "x = 0 \<Longrightarrow> 16 \<le> y" "x = 4 \<Longrightarrow> y < 16" "foldl nxt 0 r = 0" for x y z w r
  proof -
    have "16 \<le> x * 64 + y" using that by (cases x) auto
    moreover have "scalar (((x * 64 + y) * 64 + z) * 64 + w)"
    proof (cases "x = 4")
      case True
      then have "y < 16" using that by blast
      with True that show ?thesis by (simp add: scalar_def)
    next
      case False
      then have "x \<le> 3" using that by linarith
      then show ?thesis using that \<open>16 \<le> x * 64 + y\<close> by (auto simp: scalar_def)
    qed
    ultimately show ?thesis using that bs enc4 [of x y z w] by fastforce
  qed
  consider (asc) "a < 0x80" | (two) "0xC2 \<le> a" "a < 0xE0" | (e0) "a = 0xE0" | (ed) "a = 0xED"
    | (mid) "0xE0 < a" "a < 0xF0" "a \<noteq> 0xED" | (f0) "a = 0xF0" | (hi) "0xF0 < a" "a < 0xF4"
    | (f4) "a = 0xF4" | (bad) "0x80 \<le> a" "a < 0xC2" | (bad') "0xF4 < a"
    by linarith
  then show ?thesis
  proof cases
    case asc
    then show ?thesis using acc bs
      by (intro exI [of _ a] exI [of _ t]) (simp add: scalar_def utf8_enc_def nxt_def)
  next
    case two
    then have "foldl nxt 24 t = 0" using acc by (simp add: nxt_def)
    from accept_step(1) [OF this]
    obtain b r where t: "t = b # r" "0x80 \<le> b" "b < 0xC0" "foldl nxt 0 r = 0" by blast
    from two(1) have "192 \<le> a" by simp
    then obtain x where x: "a = 192 + x" by (rule offsetE)
    from t(2) obtain y where y: "b = 128 + y" by (rule offsetE)
    have "scalar (x * 64 + y)" using two x y t unfolding scalar_def by simp
    then show ?thesis using two x y t bs enc2 [of x y]
      by (intro exI [of _ "x * 64 + y"] exI [of _ r]) simp
  next
    case e0
    then have "foldl nxt 48 t = 0" using acc by (simp add: nxt_def)
    from accept_step(3) [OF this]
    obtain b t' where t: "t = b # t'" "0xA0 \<le> b" "b < 0xC0" "foldl nxt 24 t' = 0" by blast
    from accept_step(1) [OF t(4)]
    obtain d r where "t' = d # r" "0x80 \<le> d" "d < 0xC0" "foldl nxt 0 r = 0" by blast
    then show ?thesis using e0 t by (intro three [of 0 "b - 128" "d - 128" r]) auto
  next
    case ed
    then have "foldl nxt 60 t = 0" using acc by (simp add: nxt_def)
    from accept_step(4) [OF this]
    obtain b t' where t: "t = b # t'" "0x80 \<le> b" "b < 0xA0" "foldl nxt 24 t' = 0" by blast
    from accept_step(1) [OF t(4)]
    obtain d r where "t' = d # r" "0x80 \<le> d" "d < 0xC0" "foldl nxt 0 r = 0" by blast
    then show ?thesis using ed t by (intro three [of 13 "b - 128" "d - 128" r]) auto
  next
    case mid
    then have "foldl nxt 36 t = 0" using acc by (simp add: nxt_def)
    then obtain b d r where "t = b # d # r" "0x80 \<le> b" "b < 0xC0" "0x80 \<le> d" "d < 0xC0" "foldl nxt 0 r = 0"
      by (rule accept_cont2)
    then show ?thesis using mid by (intro three [of "a - 224" "b - 128" "d - 128" r]) auto
  next
    case f0
    then have "foldl nxt 72 t = 0" using acc by (simp add: nxt_def)
    from accept_step(5) [OF this]
    obtain b t' where t: "t = b # t'" "0x90 \<le> b" "b < 0xC0" "foldl nxt 36 t' = 0" by blast
    from t(4) obtain d e r where "t' = d # e # r" "0x80 \<le> d" "d < 0xC0" "0x80 \<le> e" "e < 0xC0" "foldl nxt 0 r = 0"
      by (rule accept_cont2)
    then show ?thesis using f0 t by (intro four [of 0 "b - 128" "d - 128" "e - 128" r]) auto
  next
    case hi
    then have "foldl nxt 84 t = 0" using acc by (simp add: nxt_def)
    from accept_step(6) [OF this]
    obtain b t' where t: "t = b # t'" "0x80 \<le> b" "b < 0xC0" "foldl nxt 36 t' = 0" by blast
    from t(4) obtain d e r where "t' = d # e # r" "0x80 \<le> d" "d < 0xC0" "0x80 \<le> e" "e < 0xC0" "foldl nxt 0 r = 0"
      by (rule accept_cont2)
    then show ?thesis using hi t by (intro four [of "a - 240" "b - 128" "d - 128" "e - 128" r]) auto
  next
    case f4
    then have "foldl nxt 96 t = 0" using acc by (simp add: nxt_def)
    from accept_step(7) [OF this]
    obtain b t' where t: "t = b # t'" "0x80 \<le> b" "b < 0x90" "foldl nxt 36 t' = 0" by blast
    from t(4) obtain d e r where "t' = d # e # r" "0x80 \<le> d" "d < 0xC0" "0x80 \<le> e" "e < 0xC0" "foldl nxt 0 r = 0"
      by (rule accept_cont2)
    then show ?thesis using f4 t by (intro four [of 4 "b - 128" "d - 128" "e - 128" r]) auto
  next
    case bad
    then show ?thesis using acc by (simp add: nxt_def foldl_nxt_12)
  next
    case bad'
    then show ?thesis using acc by (simp add: nxt_def foldl_nxt_12)
  qed
qed

lemma accept_enc:
  assumes "scalar c"
  shows "foldl nxt 0 (utf8_enc c @ r) = foldl nxt 0 r"
proof -
  consider "c < 0x80" | "0x80 \<le> c" "c < 0x800" | "0x800 \<le> c" "c < 0x10000" | "0x10000 \<le> c"
    by linarith
  then show ?thesis
  proof cases
    case 1
    then show ?thesis by (simp add: utf8_enc_def nxt_def)
  next
    case 2
    then have "2 \<le> c div 64" "c div 64 < 32" by simp_all
    then show ?thesis using 2 by (simp add: utf8_enc_def nxt_def)
  next
    case 3
    define x y z where "x = c div 4096" and "y = c div 64 mod 64" and z: "z = c mod 64"
    have c: "c = (x * 64 + y) * 64 + z"
      using div_mult_mod_eq [of "c div 64" 64] div_mult_mod_eq [of c 64]
      by (simp add: x_def y_def z flip: div_mult2_eq)
    have lt: "x < 16" "y < 64" "z < 64" using 3 by (simp_all add: x_def y_def z)
    moreover have "32 \<le> y" if "x = 0" using that c 3(1) lt by presburger
    moreover have "y < 32" if "x = 13"
      using that c assms lt unfolding scalar_def by presburger
    ultimately show ?thesis using 3
      by (auto simp: utf8_enc_def nxt_def x_def [symmetric] y_def [symmetric])
  next
    case 4
    define x y where "x = c div 262144" and "y = c div 4096 mod 64"
    have "c div 4096 = x * 64 + y"
      using div_mult_mod_eq [of "c div 4096" 64] by (simp add: x_def y_def flip: div_mult2_eq)
    moreover have "c div 4096 < 272" "16 \<le> c div 4096" using assms 4 by (simp_all add: scalar_def)
    moreover have "y < 64" by (simp add: y_def)
    ultimately have "y < 64" "x < 5" "x \<noteq> 0 \<or> 16 \<le> y" "x \<noteq> 4 \<or> y < 16" by linarith+
    then show ?thesis using 4
      by (auto simp: utf8_enc_def nxt_def x_def [symmetric] y_def [symmetric])
  qed
qed

lemma accept_encs: "\<forall>c \<in> set cs. scalar c \<Longrightarrow> foldl nxt 0 (concat (map utf8_enc cs)) = 0"
  by (induction cs) (simp_all add: accept_enc [simplified foldl_append])

lemma utf8_enc_nonempty [simp]: "utf8_enc c \<noteq> []"
  by (simp add: utf8_enc_def)

lemma accept_decompose:
  "foldl nxt 0 bs = 0 \<Longrightarrow> \<exists>cs. (\<forall>c \<in> set cs. scalar c) \<and> bs = concat (map utf8_enc cs)"
proof (induction bs rule: length_induct)
  case (1 bs)
  show ?case
  proof (cases "bs = []")
    case True
    then show ?thesis by (intro exI [of _ "[]"]) simp
  next
    case False
    then obtain c r where c: "scalar c" "bs = utf8_enc c @ r" "foldl nxt 0 r = 0"
      using accept_lead 1 by blast
    then have "length r < length bs" by simp
    with 1 c(3) obtain cs where "\<forall>c \<in> set cs. scalar c" "r = concat (map utf8_enc cs)"
      by blast
    with c show ?thesis by (intro exI [of _ "c # cs"]) simp
  qed
qed

definition scalar32 :: "u32 \<Rightarrow> bool" where
  "scalar32 c = scalar (unat c)"

lemma scalar32_lt: "scalar32 c \<Longrightarrow> c < 0x200000"
  by (simp add: scalar32_def scalar_def word_less_nat_alt)

lemma map_unat_inj: "map unat xs = map unat ys \<Longrightarrow> xs = (ys :: 'a::len word list)"
  by (rule map_injective [of unat]) (auto intro: injI unsigned_word_eqI)

lemma map_unat_encs: "\<forall>c \<in> set cs. scalar32 c \<Longrightarrow>
  map unat (concat (map chiUtf8Encode cs)) = concat (map utf8_enc (map unat cs))"
  by (induction cs) (simp_all add: map_unat_chiUtf8Encode scalar32_lt)

lemma scalar_word: "scalar c \<Longrightarrow> \<exists>w. scalar32 w \<and> unat w = c"
  by (intro exI [of _ "of_nat c"]) (auto simp: scalar32_def scalar_def unat_of_nat)

text \<open>Decoding a whole string: the code points read by the loop
  \<^verbatim>\<open>while (s < ends) c = chiUtf8Decode(&s, ends)\<close>.\<close>

fun utf8_chars :: "nat \<Rightarrow> u8 list \<Rightarrow> u32 list option" where
  "utf8_chars 0 s = (if s = [] then Some [] else None)"
| "utf8_chars (Suc k) s =
     (if s = [] then Some []
      else case chiUtf8Decode s of
        None \<Rightarrow> None
      | Some (c, s') \<Rightarrow> map_option (Cons c) (utf8_chars k s'))"

lemma utf8_chars_encs:
  assumes "\<forall>c \<in> set cs. scalar32 c" and "length cs \<le> k"
  shows "utf8_chars k (concat (map chiUtf8Encode cs)) = Some cs"
  using assms
proof (induction cs arbitrary: k)
  case Nil
  then show ?case by (cases k) simp_all
next
  case (Cons c cs)
  then obtain k' where k: "k = Suc k'" by (cases k) auto
  have "length (chiUtf8Encode c) \<noteq> 0"
    using scalar32_lt [of c] Cons.prems(1)
    by (auto simp: length_chiUtf8Encode chiUtf8EncodeSize_def word_less_nat_alt word_le_nat_alt)
  then have "chiUtf8Encode c \<noteq> []" by simp
  then show ?case
    using Cons k by (simp add: chiUtf8Decode_Encode scalar32_lt)
qed

section \<open>Properties\<close>

text \<open>C31: \<^verbatim>\<open>chiUtf8Decode\<close> inverts \<^verbatim>\<open>chiUtf8Encode\<close> on every code point below 2^21, whatever follows the
  sequence, and \<^verbatim>\<open>chiUtf8EncodeSize\<close> is the number of bytes written.\<close>

theorem utf8_encode_decode:
  assumes "c < 0x200000"
  shows "chiUtf8Decode (chiUtf8Encode c @ r) = Some (c, r) \<and>
    length (chiUtf8Encode c) = chiUtf8EncodeSize c"
  using assms by (simp add: chiUtf8Decode_Encode length_chiUtf8Encode)

theorem utf8_encode_decode_witness:
  "chiUtf8Decode (chiUtf8Encode 0x20AC @ [33]) = Some (0x20AC, [33])"
  using utf8_encode_decode [of "0x20AC" "[33]"] by simp

text \<open>C24: The table-driven validator \<^verbatim>\<open>chiUtf8Valid\<close> accepts a byte string exactly when it is the encoding
  of a sequence of Unicode scalar values: no overlong forms, no surrogates, nothing above
  U+10FFFF, no truncated sequences.\<close>

theorem chiUtf8Valid_iff_encoding:
  "chiUtf8Valid bs \<longleftrightarrow> (\<exists>cs. list_all scalar32 cs \<and> bs = concat (map chiUtf8Encode cs))"
proof
  assume "chiUtf8Valid bs"
  then obtain ns where ns: "\<forall>c \<in> set ns. scalar c" "map unat bs = concat (map utf8_enc ns)"
    using accept_decompose chiUtf8Valid_nxt by blast
  define cs where "cs = map (\<lambda>c. of_nat c :: u32) ns"
  have "unat (of_nat c :: u32) = c" if "c \<in> set ns" for c
    using ns(1) that by (auto simp: scalar_def unat_of_nat)
  then have u: "map unat cs = ns" unfolding cs_def map_map by (intro map_idI) simp
  then have "\<forall>c \<in> set cs. scalar32 c" using ns(1) unfolding scalar32_def by auto
  moreover from this have "map unat bs = map unat (concat (map chiUtf8Encode cs))"
    using ns(2) u by (simp add: map_unat_encs)
  ultimately show "\<exists>cs. list_all scalar32 cs \<and> bs = concat (map chiUtf8Encode cs)"
    using map_unat_inj by (auto simp: list_all_iff)
next
  assume "\<exists>cs. list_all scalar32 cs \<and> bs = concat (map chiUtf8Encode cs)"
  then obtain cs where "\<forall>c \<in> set cs. scalar32 c" "bs = concat (map chiUtf8Encode cs)"
    by (auto simp: list_all_iff)
  then show "chiUtf8Valid bs"
    using accept_encs [of "map unat cs"] by (auto simp: chiUtf8Valid_nxt map_unat_encs scalar32_def)
qed

end
