(* ===== verification/HashTable.thy ===== *)
theory HashTable
  imports Prelude
begin

text \<open>
  The open-addressing hash table generated by \<^verbatim>\<open>src/native/generic/hashtable.h\<close>, for any entry type
  \<open>'e\<close> with a key and any hash function (the macros \<^verbatim>\<open>HT_KEY\<close> and \<^verbatim>\<open>HT_HASHFN\<close>, parameters
  here). A zeroed slot (\<^verbatim>\<open>HT_EXISTS\<close> false) is None; pointers to entries are slot indices. Probing is
  linear over a power-of-two capacity, deletion shifts entries back. The loops of the source have no
  bound, so they are partial functions; they are shown to end on every table with the invariant, and
  the operations to implement a finite map.
\<close>

record 'e htable =
  hentry :: "'e option list"
  hused :: nat
  hcap :: nat

definition CHI_HT_INIT :: "'e htable" where
  "CHI_HT_INIT = \<lparr> hentry = [], hused = 0, hcap = 0 \<rparr>"

definition CHI_HT_MAXFILL :: nat where
  "CHI_HT_MAXFILL = 80"

definition CHI_HT_INITSHIFT :: nat where
  "CHI_HT_INITSHIFT = 8"

definition HT_FULL :: "'e htable \<Rightarrow> bool" where
  "HT_FULL h \<longleftrightarrow> CHI_HT_MAXFILL * hcap h div 100 \<le> hused h"

definition HT_FREE :: "'e htable \<Rightarrow> 'e htable" where
  "HT_FREE h = CHI_HT_INIT"

section \<open>Probing\<close>

text \<open>Slot \<open>n\<close> of the probe sequence of hash \<open>i\<close>. The sum does not wrap here; the mask keeps only low
  bits, which a wrap at \<open>2 ^ 64\<close> would not change.\<close>

definition slot :: "nat \<Rightarrow> u64 \<Rightarrow> nat \<Rightarrow> nat" where
  "slot cap i n = (unat i + n) AND (cap - 1)"

text \<open>\<^verbatim>\<open>_next\<close>: the first existing entry at or after a position.\<close>

function HT_NEXT :: "'e htable \<Rightarrow> nat \<Rightarrow> nat option" where
  "HT_NEXT h p =
     (if p < hcap h then (if hentry h ! p \<noteq> None then Some p else HT_NEXT h (p + 1)) else None)"
  by pat_completeness auto
termination
  by (relation "measure (\<lambda>(h, p). hcap h - p)") auto

declare HT_NEXT.simps [simp del]

partial_function (option) insertpos_loop :: "'e htable \<Rightarrow> u64 \<Rightarrow> nat \<Rightarrow> nat option" where
  "insertpos_loop h i n =
     (let e = slot (hcap h) i n
      in if hentry h ! e = None then Some e else insertpos_loop h i (n + 1))"

definition HT_INSERTPOS :: "'e htable \<Rightarrow> u64 \<Rightarrow> nat option" where
  "HT_INSERTPOS h i = insertpos_loop h i 0"

partial_function (option) findpos_loop ::
  "('e \<Rightarrow> 'k) \<Rightarrow> 'e htable \<Rightarrow> 'k \<Rightarrow> u64 \<Rightarrow> nat \<Rightarrow> (nat \<times> bool) option" where
  "findpos_loop key h k i n =
     (let e = slot (hcap h) i n
      in case hentry h ! e of
           None \<Rightarrow> Some (e, False)
         | Some l \<Rightarrow> if key l = k then Some (e, True) else findpos_loop key h k i (n + 1))"

definition HT_FINDPOS :: "('e \<Rightarrow> 'k) \<Rightarrow> 'e htable \<Rightarrow> 'k \<Rightarrow> u64 \<Rightarrow> (nat \<times> bool) option" where
  "HT_FINDPOS key h k i = findpos_loop key h k i 0"

text \<open>\<^verbatim>\<open>HT_FIND\<close>: the outer option is the end of the loop, the inner one the null pointer.\<close>

definition HT_FIND :: "('e \<Rightarrow> 'k) \<Rightarrow> ('k \<Rightarrow> u64) \<Rightarrow> 'e htable \<Rightarrow> 'k \<Rightarrow> nat option option" where
  "HT_FIND key hash h k =
     (if hentry h = [] then Some None
      else case HT_FINDPOS key h k (hash k) of
        None \<Rightarrow> None
      | Some (e, found) \<Rightarrow> Some (if found then Some e else None))"

section \<open>Growing and inserting\<close>

text \<open>Writing an entry through the pointer that an insertion returned.\<close>

definition ht_store :: "'e htable \<Rightarrow> nat \<Rightarrow> 'e \<Rightarrow> 'e htable" where
  "ht_store h p e = h\<lparr> hentry := (hentry h)[p := Some e] \<rparr>"

text \<open>The loop over the existing entries of the old table, from position \<open>p\<close> on.\<close>

function grow_loop :: "('e \<Rightarrow> 'k) \<Rightarrow> ('k \<Rightarrow> u64) \<Rightarrow> 'e htable \<Rightarrow> 'e htable \<Rightarrow> nat \<Rightarrow> 'e htable option" where
  "grow_loop key hash h l p =
     (if hcap h \<le> p then Some l
      else case hentry h ! p of
        None \<Rightarrow> grow_loop key hash h l (p + 1)
      | Some e \<Rightarrow>
          (case HT_INSERTPOS l (hash (key e)) of
             None \<Rightarrow> None
           | Some q \<Rightarrow> grow_loop key hash h (ht_store l q e) (p + 1)))"
  by pat_completeness auto
termination
  by (relation "measure (\<lambda>(key, hash, h, l, p). hcap h - p)") auto

declare grow_loop.simps [simp del]

definition HT_GROW :: "('e \<Rightarrow> 'k) \<Rightarrow> ('k \<Rightarrow> u64) \<Rightarrow> 'e htable \<Rightarrow> 'e htable option" where
  "HT_GROW key hash h =
     (let cap = (if hcap h \<noteq> 0 then 2 * hcap h else 2 ^ CHI_HT_INITSHIFT);
          l = \<lparr> hentry = replicate cap None, hused = hused h, hcap = cap \<rparr>
      in grow_loop key hash h l 0)"

definition HT_INSERT :: "('e \<Rightarrow> 'k) \<Rightarrow> ('k \<Rightarrow> u64) \<Rightarrow> 'e htable \<Rightarrow> u64 \<Rightarrow> ('e htable \<times> nat) option" where
  "HT_INSERT key hash h i =
     (case (if HT_FULL h then HT_GROW key hash h else Some h) of
        None \<Rightarrow> None
      | Some h1 \<Rightarrow>
          (let h2 = h1\<lparr> hused := hused h1 + 1 \<rparr>
           in case HT_INSERTPOS h2 i of None \<Rightarrow> None | Some p \<Rightarrow> Some (h2, p)))"

text \<open>\<^verbatim>\<open>HT_CREATE\<close>: the table, the position of the entry, and whether it is new. The caller fills a new
  entry.\<close>

definition HT_CREATE :: "('e \<Rightarrow> 'k) \<Rightarrow> ('k \<Rightarrow> u64) \<Rightarrow> 'e htable \<Rightarrow> 'k \<Rightarrow> ('e htable \<times> nat \<times> bool) option" where
  "HT_CREATE key hash h k =
     (let i = hash k;
          ins = (case HT_INSERT key hash h i of None \<Rightarrow> None | Some (h', p) \<Rightarrow> Some (h', p, True))
      in if hentry h \<noteq> []
         then (case HT_FINDPOS key h k i of
                 None \<Rightarrow> None
               | Some (e, found) \<Rightarrow>
                   if found then Some (h, e, False)
                   else if \<not> HT_FULL h then Some (h\<lparr> hused := hused h + 1 \<rparr>, e, True)
                   else ins)
         else ins)"

section \<open>Deleting\<close>

text \<open>The loop that closes the gap at \<open>e\<close>: \<open>f\<close> runs ahead, \<open>shift\<close> is its distance from the gap. The
  difference of position and hash is taken modulo the capacity, as the masked unsigned difference.\<close>

definition probe_dist :: "nat \<Rightarrow> nat \<Rightarrow> u64 \<Rightarrow> nat" where
  "probe_dist cap f i = nat ((int f - uint i) AND (int cap - 1))"

partial_function (option) delete_loop ::
  "('e \<Rightarrow> 'k) \<Rightarrow> ('k \<Rightarrow> u64) \<Rightarrow> nat \<Rightarrow> 'e option list \<Rightarrow> nat \<Rightarrow> nat \<Rightarrow> nat \<Rightarrow>
     ('e option list \<times> nat) option" where
  "delete_loop key hash cap ents e f shift =
     (let f = (f + 1) AND (cap - 1)
      in case ents ! f of
           None \<Rightarrow> Some (ents, e)
         | Some l \<Rightarrow>
             if shift \<le> probe_dist cap f (hash (key l))
             then delete_loop key hash cap (ents[e := Some l]) f f 1
             else delete_loop key hash cap ents e f (shift + 1))"

definition HT_DELETE :: "('e \<Rightarrow> 'k) \<Rightarrow> ('k \<Rightarrow> u64) \<Rightarrow> 'e htable \<Rightarrow> 'k \<Rightarrow> ('e htable \<times> bool) option" where
  "HT_DELETE key hash h k =
     (if hentry h = [] then Some (h, False)
      else case HT_FINDPOS key h k (hash k) of
        None \<Rightarrow> None
      | Some (e, found) \<Rightarrow>
          if \<not> found then Some (h, False)
          else (case delete_loop key hash (hcap h) (hentry h) e e 1 of
                  None \<Rightarrow> None
                | Some (ents, e') \<Rightarrow>
                    Some (h\<lparr> hentry := ents[e' := None], hused := hused h - 1 \<rparr>, True)))"

section \<open>Cyclic distances\<close>

definition cdist :: "nat \<Rightarrow> nat \<Rightarrow> nat \<Rightarrow> nat" where
  "cdist N a b = (if a \<le> b then b - a else b + N - a)"

lemma cadd_if: "a < N \<Longrightarrow> j \<le> N \<Longrightarrow> (a + j) mod N = (if a + j < N then a + j else a + j - N :: nat)"
  by (auto simp: mod_if le_mod_geq)

lemma cdist_lt: "a < N \<Longrightarrow> b < N \<Longrightarrow> cdist N a b < N"
  by (auto simp: cdist_def)

lemma cadd_cdist: "a < N \<Longrightarrow> b < N \<Longrightarrow> (a + cdist N a b) mod N = b"
  using cdist_lt [of a N b] by (simp add: cadd_if) (auto simp: cdist_def)

lemma cdist_cadd: "a < N \<Longrightarrow> x < N \<Longrightarrow> cdist N a ((a + x) mod N) = x"
  by (simp add: cadd_if) (auto simp: cdist_def)

lemma cdist_0 [simp]: "cdist N a a = 0"
  by (simp add: cdist_def)

lemma cdist_eq_0: "a < N \<Longrightarrow> b < N \<Longrightarrow> cdist N a b = 0 \<longleftrightarrow> a = b"
  by (auto simp: cdist_def)

text \<open>A point before \<open>p\<close> seen from the hole \<open>e\<close>, on a probe path from \<open>c\<close> that reaches back to the hole,
  lies on that path.\<close>

lemma path_to_hole:
  assumes "c < N" "e < N" "p < N" "cdist N e p \<le> cdist N c p"
  shows "(c + (cdist N c p - cdist N e p)) mod N = e"
proof (cases "c \<le> p")
  case True
  then have "e \<le> p" using assms unfolding cdist_def by (cases "e \<le> p") simp_all
  then have "c + (cdist N c p - cdist N e p) = e" using True assms(4) unfolding cdist_def by simp
  then show ?thesis using assms(2) by simp
next
  case False
  have "c + (cdist N c p - cdist N e p) = (if e \<le> p then e + N else e)"
    using False assms unfolding cdist_def by (cases "e \<le> p") simp_all
  then show ?thesis using assms(2) by (simp split: if_splits)
qed

lemma on_path:
  assumes "c < N" "e < N" "p < N" "s < cdist N e p" "cdist N e p \<le> cdist N c p"
  shows "cdist N c p - cdist N e p + s < cdist N c p" "(c + (cdist N c p - cdist N e p + s)) mod N = (e + s) mod N"
proof -
  show "cdist N c p - cdist N e p + s < cdist N c p" using assms(4,5) by linarith
  show "(c + (cdist N c p - cdist N e p + s)) mod N = (e + s) mod N"
    using path_to_hole [OF assms(1-3,5)] by (metis add.assoc mod_add_left_eq)
qed

text \<open>Conversely, the hole is on the path only if the path reaches back to it.\<close>

lemma cdist_after:
  assumes "c < N" "p < N" "j \<le> cdist N c p"
  shows "cdist N ((c + j) mod N) p = cdist N c p - j"
proof -
  let ?y = "cdist N c p - j"
  have lt: "?y < N" using cdist_lt [OF assms(1,2)] by linarith
  have "((c + j) mod N + ?y) mod N = (c + cdist N c p) mod N"
    using assms(3) by (metis add.assoc le_add_diff_inverse mod_add_left_eq)
  also have "\<dots> = p" using assms by (simp add: cadd_cdist)
  finally show ?thesis using cdist_cadd [of "(c + j) mod N" N ?y] lt assms(1) by simp
qed

lemma hole_on_path: "c < N \<Longrightarrow> p < N \<Longrightarrow> j < cdist N c p \<Longrightarrow> cdist N ((c + j) mod N) p \<le> cdist N c p"
  by (simp add: cdist_after)

text \<open>Moving the entry at distance \<open>s\<close> after the hole into the hole shortens its path by \<open>s\<close>.\<close>

lemma cdist_hole_move:
  assumes "c < N" "e < N" "s < N" "s \<le> cdist N c ((e + s) mod N)"
  shows "cdist N c e = cdist N c ((e + s) mod N) - s"
proof -
  let ?f = "(e + s) mod N"
  have f: "?f < N" using assms(2) by (intro mod_less_divisor) simp
  have "cdist N e ?f = s" using assms by (simp add: cdist_cadd)
  then have "(c + (cdist N c ?f - s)) mod N = e"
    using path_to_hole [OF assms(1,2) f] assms(4) by simp
  then show ?thesis
    using cdist_cadd [OF assms(1), of "cdist N c ?f - s"] cdist_lt [OF assms(1) f] by simp
qed

lemma and_mask_nat: "x AND (2 ^ b - 1) = x mod 2 ^ b" for x :: nat
  by (metis mask_eq_exp_minus_1 take_bit_eq_mask take_bit_eq_mod)

lemma slot_mod: "cap = 2 ^ b \<Longrightarrow> slot cap i n = (unat i mod cap + n) mod cap"
  unfolding slot_def by (simp only: and_mask_nat mod_add_left_eq)

lemma next_mod: "cap = 2 ^ b \<Longrightarrow> (f + 1) AND (cap - 1) = (f + 1) mod cap" for f :: nat
  using and_mask_nat [of "f + 1" b] by simp

lemma probe_dist_cdist:
  assumes "cap = 2 ^ b" "f < cap"
  shows "probe_dist cap f i = cdist cap (unat i mod cap) f"
proof -
  let ?o = "unat i mod cap"
  have pos: "0 < cap" using assms by simp
  have "(int f - uint i) AND (2 ^ b - 1) = (int f - uint i) mod 2 ^ b"
    by (metis mask_eq_exp_minus_1 take_bit_eq_mask take_bit_eq_mod)
  then have "probe_dist cap f i = nat ((int f - uint i) mod int cap)"
    by (simp add: probe_dist_def assms(1))
  also have "(int f - uint i) mod int cap = (int f - int ?o) mod int cap"
    by (metis mod_diff_right_eq of_nat_mod of_nat_unat)
  also have "\<dots> = int (cdist cap ?o f)"
  proof (cases "?o \<le> f")
    case True
    then show ?thesis using assms(2) by (simp add: cdist_def of_nat_diff mod_pos_pos_trivial)
  next
    case False
    have "?o < cap" using pos by simp
    have "(int f - int ?o) mod int cap = (int f - int ?o + int cap) mod int cap" by simp
    also have "\<dots> = int f - int ?o + int cap" using False assms(2) \<open>?o < cap\<close> by (intro mod_pos_pos_trivial) auto
    finally show ?thesis using False \<open>?o < cap\<close> by (simp add: cdist_def)
  qed
  finally show ?thesis by simp
qed

section \<open>The invariant and the map of a table\<close>

definition home :: "('k \<Rightarrow> u64) \<Rightarrow> nat \<Rightarrow> 'k \<Rightarrow> nat" where
  "home hash cap k = unat (hash k) mod cap"

text \<open>Every entry, except those at the positions \<open>X\<close>, is reached from its home slot without crossing an
  empty slot.\<close>

definition probe_ok :: "('e \<Rightarrow> 'k) \<Rightarrow> ('k \<Rightarrow> u64) \<Rightarrow> nat set \<Rightarrow> 'e option list \<Rightarrow> bool" where
  "probe_ok key hash X ents \<longleftrightarrow>
     (\<forall>p < length ents. p \<notin> X \<longrightarrow> (\<forall>l. ents ! p = Some l \<longrightarrow>
        (\<forall>j < cdist (length ents) (home hash (length ents) (key l)) p.
           ents ! ((home hash (length ents) (key l) + j) mod length ents) \<noteq> None)))"

definition keys_ok :: "('e \<Rightarrow> 'k) \<Rightarrow> nat set \<Rightarrow> 'e option list \<Rightarrow> bool" where
  "keys_ok key X ents \<longleftrightarrow>
     (\<forall>p < length ents. \<forall>q < length ents. p \<notin> X \<longrightarrow> q \<notin> X \<longrightarrow>
        (\<forall>x y. ents ! p = Some x \<longrightarrow> ents ! q = Some y \<longrightarrow> key x = key y \<longrightarrow> p = q))"

definition occupancy :: "'e option list \<Rightarrow> nat" where
  "occupancy ents = length (filter (\<lambda>x. x \<noteq> None) ents)"

definition ht_inv :: "('e \<Rightarrow> 'k) \<Rightarrow> ('k \<Rightarrow> u64) \<Rightarrow> 'e htable \<Rightarrow> bool" where
  "ht_inv key hash h \<longleftrightarrow>
     h = CHI_HT_INIT \<or>
     (\<exists>b. hcap h = 2 ^ b) \<and> length (hentry h) = hcap h \<and> hused h = occupancy (hentry h) \<and>
     hused h < hcap h \<and> keys_ok key {} (hentry h) \<and> probe_ok key hash {} (hentry h)"

text \<open>The finite map that a table represents.\<close>

definition ht_map :: "('e \<Rightarrow> 'k) \<Rightarrow> 'e htable \<Rightarrow> 'k \<Rightarrow> 'e option" where
  "ht_map key h k =
     (case find (\<lambda>x. case x of None \<Rightarrow> False | Some e \<Rightarrow> key e = k) (hentry h) of
        None \<Rightarrow> None | Some x \<Rightarrow> x)"

lemma ht_map_Some:
  assumes "keys_ok key {} (hentry h)"
  shows "ht_map key h k = Some e \<longleftrightarrow> (\<exists>p < length (hentry h). hentry h ! p = Some e) \<and> key e = k"
proof -
  let ?P = "\<lambda>x. case x of None \<Rightarrow> False | Some e \<Rightarrow> key e = k"
  show ?thesis
  proof (cases "find ?P (hentry h)")
    case None
    then have "\<forall>x \<in> set (hentry h). \<not> ?P x" by (simp add: find_None_iff)
    then show ?thesis using None by (auto simp: ht_map_def dest!: nth_mem)
  next
    case (Some x)
    then obtain i where i: "i < length (hentry h)" "?P (hentry h ! i)" "x = hentry h ! i"
      by (auto simp: find_Some_iff)
    then obtain e' where e': "hentry h ! i = Some e'" "key e' = k" by (auto split: option.splits)
    then have m: "ht_map key h k = Some e'" using Some i by (simp add: ht_map_def)
    show ?thesis
    proof
      show "ht_map key h k = Some e \<Longrightarrow> (\<exists>p<length (hentry h). hentry h ! p = Some e) \<and> key e = k"
        using m e' i(1) by auto
      assume "(\<exists>p<length (hentry h). hentry h ! p = Some e) \<and> key e = k"
      then obtain p where "p < length (hentry h)" "hentry h ! p = Some e" "key e = k" by blast
      moreover from this have "p = i" using assms i(1) e' unfolding keys_ok_def by blast
      ultimately show "ht_map key h k = Some e" using m e' by simp
    qed
  qed
qed

lemma ht_map_None:
  "keys_ok key {} (hentry h) \<Longrightarrow>
     ht_map key h k = None \<longleftrightarrow> (\<forall>p < length (hentry h). \<forall>e. hentry h ! p = Some e \<longrightarrow> key e \<noteq> k)"
  using ht_map_Some [of key h k] by (metis not_None_eq)

lemma free_slot: "occupancy ents < length ents \<Longrightarrow> \<exists>z < length ents. ents ! z = None"
  by (metis (mono_tags, lifting) filter_True in_set_conv_nth less_irrefl occupancy_def)

lemma occupancy_split:
  "p < length ents \<Longrightarrow> occupancy (ents[p := x]) =
     occupancy (take p ents) + (if x = None then 0 else 1) + occupancy (drop (Suc p) ents)"
  by (simp add: occupancy_def upd_conv_take_nth_drop)

lemma occupancy_at:
  "p < length ents \<Longrightarrow> occupancy ents =
     occupancy (take p ents) + (if ents ! p = None then 0 else 1) + occupancy (drop (Suc p) ents)"
  using occupancy_split [of p ents "ents ! p"] by simp

lemma occupancy_store: "p < length ents \<Longrightarrow> ents ! p = None \<Longrightarrow> occupancy (ents[p := Some e]) = occupancy ents + 1"
  using occupancy_split [of p ents "Some e"] occupancy_at [of p ents] by simp

lemma occupancy_remove: "p < length ents \<Longrightarrow> ents ! p = Some e \<Longrightarrow> occupancy (ents[p := None]) = occupancy ents - 1"
  using occupancy_split [of p ents None] occupancy_at [of p ents] by simp

lemma occupancy_pos: "p < length ents \<Longrightarrow> ents ! p \<noteq> None \<Longrightarrow> 0 < occupancy ents"
  unfolding occupancy_def by (metis (mono_tags, lifting) filter_empty_conv length_greater_0_conv nth_mem)

lemma occupancy_swap: "p < length ents \<Longrightarrow> ents ! p \<noteq> None \<Longrightarrow> occupancy (ents[p := Some e]) = occupancy ents"
  using occupancy_split [of p ents "Some e"] occupancy_at [of p ents] by simp

section \<open>Probing finds the entry or a free slot\<close>

text \<open>The probe sequence of a hash from offset \<open>n\<close> on: the first slot that is empty or holds the key.\<close>

lemma findpos_loop_spec:
  assumes cap: "hcap h = 2 ^ b" "length (hentry h) = hcap h"
    and stop: "d < hcap h" "n \<le> d"
      "case hentry h ! ((unat i mod hcap h + d) mod hcap h) of None \<Rightarrow> True | Some l \<Rightarrow> key l = k"
    and go: "\<And>j. n \<le> j \<Longrightarrow> j < d \<Longrightarrow>
      \<exists>l. hentry h ! ((unat i mod hcap h + j) mod hcap h) = Some l \<and> key l \<noteq> k"
  shows "findpos_loop key h k i n =
    Some ((unat i mod hcap h + d) mod hcap h, hentry h ! ((unat i mod hcap h + d) mod hcap h) \<noteq> None)"
  using stop go
proof (induction "d - n" arbitrary: n)
  case 0
  then have "n = d" by simp
  then show ?case using 0 by (subst findpos_loop.simps) (auto simp: slot_mod [OF cap(1)] split: option.splits)
next
  case (Suc x)
  obtain l where l: "hentry h ! ((unat i mod hcap h + n) mod hcap h) = Some l" "key l \<noteq> k"
    using Suc.prems(4) [of n] Suc.hyps(2) by force
  have "findpos_loop key h k i n = findpos_loop key h k i (n + 1)"
    using l by (subst findpos_loop.simps) (simp add: slot_mod [OF cap(1)])
  then show ?case using Suc by simp
qed

lemma insertpos_loop_spec:
  assumes cap: "hcap h = 2 ^ b" and stop: "d < hcap h" "n \<le> d"
      "hentry h ! ((unat i mod hcap h + d) mod hcap h) = None"
    and go: "\<And>j. n \<le> j \<Longrightarrow> j < d \<Longrightarrow> hentry h ! ((unat i mod hcap h + j) mod hcap h) \<noteq> None"
  shows "insertpos_loop h i n = Some ((unat i mod hcap h + d) mod hcap h)"
  using stop go
proof (induction "d - n" arbitrary: n)
  case 0
  then have "n = d" by simp
  then show ?case using 0 by (subst insertpos_loop.simps) (simp add: slot_mod [OF cap])
next
  case (Suc x)
  have "n < d" using Suc.hyps(2) by linarith
  then obtain y where "hentry h ! ((unat i mod hcap h + n) mod hcap h) = Some y"
    using Suc.prems(4) [of n] by auto
  then have "insertpos_loop h i n = insertpos_loop h i (n + 1)"
    by (subst insertpos_loop.simps) (simp add: slot_mod [OF cap] Let_def)
  then show ?case using Suc by simp
qed

text \<open>The first free slot after a home slot.\<close>

lemma first_free:
  assumes "c < N" "length ents = N" "z < N" "ents ! z = None"
  obtains d where "d < N" "ents ! ((c + d) mod N) = None" "\<And>j. j < d \<Longrightarrow> ents ! ((c + j) mod N) \<noteq> None"
proof -
  let ?P = "\<lambda>d. ents ! ((c + d) mod N) = None"
  have "?P (cdist N c z)" using assms by (simp add: cadd_cdist)
  then have "?P (LEAST d. ?P d)" "(LEAST d. ?P d) \<le> cdist N c z" by (rule LeastI, rule Least_le)
  moreover have "\<And>j. j < (LEAST d. ?P d) \<Longrightarrow> \<not> ?P j" by (rule not_less_Least)
  ultimately show ?thesis using that [of "LEAST d. ?P d"] cdist_lt [OF assms(1,3)] by simp
qed

lemma ht_invD:
  assumes "ht_inv key hash h" "hentry h \<noteq> []"
  obtains b where "hcap h = 2 ^ b" "length (hentry h) = hcap h" "hused h = occupancy (hentry h)"
    "hused h < hcap h" "keys_ok key {} (hentry h)" "probe_ok key hash {} (hentry h)"
  using assms by (auto simp: ht_inv_def CHI_HT_INIT_def)

lemma ht_inv_keys: "ht_inv key hash h \<Longrightarrow> keys_ok key {} (hentry h)"
  by (auto simp: ht_inv_def CHI_HT_INIT_def keys_ok_def)

lemma home_lt: "0 < cap \<Longrightarrow> home hash cap k < cap"
  by (simp add: home_def)

text \<open>\<^verbatim>\<open>HT_FINDPOS\<close> always ends: at the entry of the key, or at the free slot where it belongs.\<close>

lemma findpos_found:
  assumes inv: "ht_inv key hash h" and p: "p < length (hentry h)" "hentry h ! p = Some e" "key e = k"
  shows "HT_FINDPOS key h k (hash k) = Some (p, True)"
proof -
  have "hentry h \<noteq> []" using p by auto
  then obtain b where h: "hcap h = 2 ^ b" "length (hentry h) = hcap h" "keys_ok key {} (hentry h)"
    "probe_ok key hash {} (hentry h)" using ht_invD [OF inv] by metis
  let ?c = "unat (hash k) mod hcap h" and ?N = "hcap h"
  have c: "?c < ?N" using h(1) by simp
  let ?d = "cdist ?N ?c p"
  have at: "(?c + ?d) mod ?N = p" using c p(1) h(2) by (simp add: cadd_cdist)
  have go: "\<exists>l. hentry h ! ((?c + j) mod ?N) = Some l \<and> key l \<noteq> k" if j: "j < ?d" for j
  proof -
    have "hentry h ! ((?c + j) mod ?N) \<noteq> None"
      using h(2,4) p j unfolding probe_ok_def home_def by auto
    then obtain l where l: "hentry h ! ((?c + j) mod ?N) = Some l" by blast
    have "key l \<noteq> k"
    proof
      assume "key l = k"
      then have "(?c + j) mod ?N = p"
        using h(2,3) l p c unfolding keys_ok_def by (auto dest: spec [of _ "(?c + j) mod ?N"])
      then have "cdist ?N ?c p = j" using cdist_cadd [OF c, of j] j cdist_lt [OF c, of p] p(1) h(2) by simp
      then show False using j by simp
    qed
    then show ?thesis using l by blast
  qed
  have "?d < ?N" using cdist_lt [OF c] p(1) h(2) by simp
  then show ?thesis unfolding HT_FINDPOS_def
    using findpos_loop_spec [where d = ?d and n = 0, OF h(1,2) _ _ _ go] p at by simp
qed

lemma findpos_missing:
  assumes inv: "ht_inv key hash h" and ne: "hentry h \<noteq> []"
    and new: "\<forall>x. Some x \<in> set (hentry h) \<longrightarrow> key x \<noteq> k"
  obtains d where "d < hcap h" "HT_FINDPOS key h k (hash k) = Some ((home hash (hcap h) k + d) mod hcap h, False)"
    "hentry h ! ((home hash (hcap h) k + d) mod hcap h) = None"
    "\<And>j. j < d \<Longrightarrow> hentry h ! ((home hash (hcap h) k + j) mod hcap h) \<noteq> None"
proof -
  obtain b where h: "hcap h = 2 ^ b" "length (hentry h) = hcap h" "hused h = occupancy (hentry h)" "hused h < hcap h"
    using ht_invD [OF inv ne] by metis
  let ?c = "unat (hash k) mod hcap h"
  have c: "?c < hcap h" using h(1) by simp
  obtain z where z: "z < hcap h" "hentry h ! z = None" using free_slot [of "hentry h"] h by auto
  obtain d where d: "d < hcap h" "hentry h ! ((?c + d) mod hcap h) = None"
    "\<And>j. j < d \<Longrightarrow> hentry h ! ((?c + j) mod hcap h) \<noteq> None" using first_free [OF c h(2) z] by blast
  have go: "\<exists>l. hentry h ! ((?c + j) mod hcap h) = Some l \<and> key l \<noteq> k" if j: "j < d" for j
  proof -
    obtain l where "hentry h ! ((?c + j) mod hcap h) = Some l" using d(3) [OF j] by blast
    moreover have "(?c + j) mod hcap h < length (hentry h)" using h(1,2) by simp
    ultimately show ?thesis using new by (metis nth_mem)
  qed
  have "HT_FINDPOS key h k (hash k) = Some ((?c + d) mod hcap h, False)"
    unfolding HT_FINDPOS_def using findpos_loop_spec [where n = 0, OF h(1,2) d(1) _ _ go] d(2) by simp
  then show ?thesis using that [of d] d by (simp add: home_def)
qed

section \<open>Inserting refines map update\<close>

lemma ht_map_iff:
  "keys_ok key {} (hentry h) \<Longrightarrow> ht_map key h k = Some e \<longleftrightarrow> Some e \<in> set (hentry h) \<and> key e = k"
  by (simp add: ht_map_Some in_set_conv_nth)

lemma ht_map_iff_None:
  "keys_ok key {} (hentry h) \<Longrightarrow> ht_map key h k = None \<longleftrightarrow> (\<forall>e. Some e \<in> set (hentry h) \<longrightarrow> key e \<noteq> k)"
  using ht_map_iff [of key h k] by (metis not_None_eq)

lemma set_store: "p < length ents \<Longrightarrow> ents ! p = None \<Longrightarrow> Some x \<in> set (ents[p := Some e]) \<longleftrightarrow> x = e \<or> Some x \<in> set ents"
  by (auto simp: in_set_conv_nth nth_list_update) (metis option.distinct(1))+

lemma keys_ok_store:
  assumes ok: "keys_ok key {} ents" and new: "\<forall>x. Some x \<in> set ents \<longrightarrow> key x \<noteq> key e"
  shows "keys_ok key {} (ents[p := Some e])"
  unfolding keys_ok_def
proof (intro allI impI)
  fix i j x y
  assume b: "i < length (ents[p := Some e])" "j < length (ents[p := Some e])"
    and e: "ents[p := Some e] ! i = Some x" "ents[p := Some e] ! j = Some y" "key x = key y"
  have old: "key x' \<noteq> key e" if "i' < length ents" "ents ! i' = Some x'" for i' x'
    using new nth_mem [OF that(1)] that(2) by simp
  show "i = j"
  proof (cases "i = p \<or> j = p")
    case True
    then show ?thesis using old [of i x] old [of j y] b e by (cases "i = p"; cases "j = p") auto
  next
    case False
    then show ?thesis using ok b e unfolding keys_ok_def by (metis empty_iff length_list_update nth_list_update_neq)
  qed
qed

lemma store_occupied: "i < length ents \<Longrightarrow> ents ! i \<noteq> None \<Longrightarrow> ents[p := Some e] ! i \<noteq> None"
  by (cases "i = p") simp_all

lemma probe_ok_store:
  assumes ok: "probe_ok key hash {} ents" and d: "d < length ents"
    and p: "p = (home hash (length ents) (key e) + d) mod length ents"
    and path: "\<And>j. j < d \<Longrightarrow> ents ! ((home hash (length ents) (key e) + j) mod length ents) \<noteq> None"
  shows "probe_ok key hash {} (ents[p := Some e])"
  unfolding probe_ok_def
proof (intro allI impI)
  fix q l j
  let ?N = "length ents"
  assume q: "q < length (ents[p := Some e])" and l: "ents[p := Some e] ! q = Some l"
    and j: "j < cdist (length (ents[p := Some e])) (home hash (length (ents[p := Some e])) (key l)) q"
  have N: "0 < ?N" using d by linarith
  let ?i = "(home hash ?N (key l) + j) mod ?N"
  have "ents ! ?i \<noteq> None"
  proof (cases "q = p")
    case True
    then have "l = e" using l q by simp
    then have "cdist ?N (home hash ?N (key l)) q = d"
      using True p d by (simp add: cdist_cadd home_lt [OF N])
    then show ?thesis using path [of j] j \<open>l = e\<close> by simp
  next
    case False
    then show ?thesis using ok q l j unfolding probe_ok_def by simp
  qed
  then show "ents[p := Some e] ! ((home hash (length (ents[p := Some e])) (key l) + j) mod length (ents[p := Some e])) \<noteq> None"
    using store_occupied [of ?i ents p e] N by simp
qed

text \<open>\<^verbatim>\<open>HT_INSERTPOS\<close> ends at a free slot where an entry of that hash keeps the invariant.\<close>

lemma insertpos_free:
  assumes cap: "hcap h = 2 ^ b" "length (hentry h) = hcap h" and room: "occupancy (hentry h) < hcap h"
  obtains d where "d < hcap h" "HT_INSERTPOS h (hash k) = Some ((home hash (hcap h) k + d) mod hcap h)"
    "hentry h ! ((home hash (hcap h) k + d) mod hcap h) = None"
    "\<And>j. j < d \<Longrightarrow> hentry h ! ((home hash (hcap h) k + j) mod hcap h) \<noteq> None"
proof -
  let ?c = "unat (hash k) mod hcap h"
  have c: "?c < hcap h" using cap(1) by simp
  obtain z where z: "z < hcap h" "hentry h ! z = None" using free_slot [of "hentry h"] cap room by auto
  obtain d where d: "d < hcap h" "hentry h ! ((?c + d) mod hcap h) = None"
    "\<And>j. j < d \<Longrightarrow> hentry h ! ((?c + j) mod hcap h) \<noteq> None" using first_free [OF c cap(2) z] by blast
  have "HT_INSERTPOS h (hash k) = Some ((?c + d) mod hcap h)"
    unfolding HT_INSERTPOS_def using insertpos_loop_spec [where n = 0, OF cap(1) d(1) _ d(2)] d(3) by simp
  then show ?thesis using that [of d] d by (simp add: home_def)
qed

text \<open>The tables between growing and filling the new slot: the invariant without the count.\<close>

definition ht_shape :: "('e \<Rightarrow> 'k) \<Rightarrow> ('k \<Rightarrow> u64) \<Rightarrow> 'e htable \<Rightarrow> bool" where
  "ht_shape key hash h \<longleftrightarrow> (\<exists>b. hcap h = 2 ^ b) \<and> length (hentry h) = hcap h \<and>
     occupancy (hentry h) < hcap h \<and> keys_ok key {} (hentry h) \<and> probe_ok key hash {} (hentry h)"

lemma ht_shapeI: "ht_inv key hash h \<Longrightarrow> hentry h \<noteq> [] \<Longrightarrow> ht_shape key hash h"
  by (auto simp: ht_inv_def ht_shape_def CHI_HT_INIT_def)

text \<open>Inserting an entry with a new key at the position that probing finds.\<close>

lemma insertpos_store:
  assumes sh: "ht_shape key hash h" and new: "\<forall>x. Some x \<in> set (hentry h) \<longrightarrow> key x \<noteq> k"
  obtains p where "HT_INSERTPOS h (hash k) = Some p" "p < hcap h" "hentry h ! p = None"
    "\<And>e. key e = k \<Longrightarrow> keys_ok key {} (hentry (ht_store h p e)) \<and> probe_ok key hash {} (hentry (ht_store h p e)) \<and>
       (\<forall>x. Some x \<in> set (hentry (ht_store h p e)) \<longleftrightarrow> x = e \<or> Some x \<in> set (hentry h)) \<and>
       occupancy (hentry (ht_store h p e)) = occupancy (hentry h) + 1"
proof -
  obtain b where h: "hcap h = 2 ^ b" "length (hentry h) = hcap h" "occupancy (hentry h) < hcap h"
    "keys_ok key {} (hentry h)" "probe_ok key hash {} (hentry h)"
    using sh by (auto simp: ht_shape_def)
  obtain d where d: "d < hcap h" "HT_INSERTPOS h (hash k) = Some ((home hash (hcap h) k + d) mod hcap h)"
    "hentry h ! ((home hash (hcap h) k + d) mod hcap h) = None"
    "\<And>j. j < d \<Longrightarrow> hentry h ! ((home hash (hcap h) k + j) mod hcap h) \<noteq> None"
    by (rule insertpos_free [OF h(1,2,3), of hash k]) (rule that)
  let ?p = "(home hash (hcap h) k + d) mod hcap h"
  have p: "?p < length (hentry h)" using h(1,2) by simp
  have "keys_ok key {} (hentry (ht_store h ?p e)) \<and> probe_ok key hash {} (hentry (ht_store h ?p e)) \<and>
     (\<forall>x. Some x \<in> set (hentry (ht_store h ?p e)) \<longleftrightarrow> x = e \<or> Some x \<in> set (hentry h)) \<and>
     occupancy (hentry (ht_store h ?p e)) = occupancy (hentry h) + 1" if e: "key e = k" for e
  proof -
    have eq: "hentry (ht_store h ?p e) = (hentry h)[?p := Some e]" by (simp add: ht_store_def)
    have 1: "keys_ok key {} ((hentry h)[?p := Some e])" using keys_ok_store [OF h(4)] new e by simp
    have 2: "probe_ok key hash {} ((hentry h)[?p := Some e])"
      by (rule probe_ok_store [OF h(5), of d]) (use d h(2) e in simp_all)
    show ?thesis unfolding eq by (intro conjI 1 2 allI set_store [OF p d(3)] occupancy_store [OF p d(3)])
  qed
  then show ?thesis using that [OF d(2) _ d(3)] p unfolding h(2) by blast
qed

text \<open>Growing keeps the entries: after the loop over the first \<open>p\<close> slots the new table holds their entries.\<close>

lemma occupancy_take_Suc:
  "p < length ents \<Longrightarrow> occupancy (take (Suc p) ents) = occupancy (take p ents) + (if ents ! p = None then 0 else 1)"
  by (simp add: take_Suc_conv_app_nth occupancy_def)

lemma occupancy_take_le: "occupancy (take p ents) \<le> occupancy ents"
  by (metis append_take_drop_id filter_append le_add1 length_append occupancy_def)

lemma keys_ok_before:
  "keys_ok key {} ents \<Longrightarrow> p < length ents \<Longrightarrow> ents ! p = Some e \<Longrightarrow> Some x \<in> set (take p ents) \<Longrightarrow> key x \<noteq> key e"
proof
  assume a: "keys_ok key {} ents" "p < length ents" "ents ! p = Some e" "Some x \<in> set (take p ents)" "key x = key e"
  then obtain q where "q < p" "ents ! q = Some x" by (metis in_set_conv_nth length_take min.strict_boundedE nth_take)
  moreover from this have "q = p" using a unfolding keys_ok_def by (meson empty_iff less_trans)
  ultimately show False by simp
qed

definition grown :: "('e \<Rightarrow> 'k) \<Rightarrow> ('k \<Rightarrow> u64) \<Rightarrow> 'e htable \<Rightarrow> nat \<Rightarrow> 'e htable \<Rightarrow> bool" where
  "grown key hash h p l \<longleftrightarrow> (\<exists>b. hcap l = 2 ^ b) \<and> length (hentry l) = hcap l \<and> hcap h < hcap l \<and>
     hused l = hused h \<and> occupancy (hentry l) = occupancy (take p (hentry h)) \<and>
     keys_ok key {} (hentry l) \<and> probe_ok key hash {} (hentry l) \<and>
     (\<forall>x. Some x \<in> set (hentry l) \<longleftrightarrow> Some x \<in> set (take p (hentry h)))"

lemma grow_loop_grown:
  assumes h: "length (hentry h) = hcap h" "occupancy (hentry h) \<le> hcap h" "keys_ok key {} (hentry h)"
    and l: "grown key hash h p l" "p \<le> hcap h"
  shows "\<exists>l'. grow_loop key hash h l p = Some l' \<and> grown key hash h (hcap h) l' \<and> hcap l' = hcap l"
  using l
proof (induction "hcap h - p" arbitrary: p l)
  case 0
  then show ?case by (subst grow_loop.simps) simp
next
  case (Suc n)
  have p: "p < hcap h" using Suc.hyps(2) by linarith
  show ?case
  proof (cases "hentry h ! p")
    case None
    then have "grow_loop key hash h l p = grow_loop key hash h l (p + 1)"
      using p by (subst grow_loop.simps) simp
    moreover have "grown key hash h (p + 1) l"
      using Suc.prems(1) None p h(1) by (simp add: grown_def occupancy_take_Suc) (simp add: take_Suc_conv_app_nth)
    ultimately show ?thesis using Suc.hyps(1) [of "p + 1" l] Suc.hyps(2) p by simp
  next
    case (Some e)
    have new: "\<forall>x. Some x \<in> set (hentry l) \<longrightarrow> key x \<noteq> key e"
      using keys_ok_before [OF h(3), of p e] Some p h(1) Suc.prems(1) by (simp add: grown_def)
    have "ht_shape key hash l"
      using Suc.prems(1) occupancy_take_le [of p "hentry h"] h(2) by (auto simp: ht_shape_def grown_def)
    then obtain q where q: "HT_INSERTPOS l (hash (key e)) = Some q" "q < hcap l" "hentry l ! q = None"
      "keys_ok key {} (hentry (ht_store l q e))" "probe_ok key hash {} (hentry (ht_store l q e))"
      "\<forall>x. Some x \<in> set (hentry (ht_store l q e)) \<longleftrightarrow> x = e \<or> Some x \<in> set (hentry l)"
      "occupancy (hentry (ht_store l q e)) = occupancy (hentry l) + 1"
      using insertpos_store [OF _ new] by metis
    have "grow_loop key hash h l p = grow_loop key hash h (ht_store l q e) (p + 1)"
      using p Some q(1) by (subst grow_loop.simps) simp
    moreover have "grown key hash h (p + 1) (ht_store l q e)"
      using Suc.prems(1) Some p h(1) q(4-7)
      by (simp add: grown_def occupancy_take_Suc) (auto simp: take_Suc_conv_app_nth ht_store_def)
    moreover have "hcap (ht_store l q e) = hcap l" by (simp add: ht_store_def)
    ultimately show ?thesis using Suc.hyps(1) [of "p + 1" "ht_store l q e"] Suc.hyps(2) p by simp
  qed
qed

lemma HT_GROW_entries:
  assumes inv: "ht_inv key hash h"
  shows "\<exists>l. HT_GROW key hash h = Some l \<and> ht_shape key hash l \<and> hused l = hused h \<and>
    occupancy (hentry l) = hused h \<and> hused h + 1 < hcap l \<and> (\<forall>x. Some x \<in> set (hentry l) \<longleftrightarrow> Some x \<in> set (hentry h))"
proof -
  let ?cap = "if hcap h \<noteq> 0 then 2 * hcap h else 2 ^ CHI_HT_INITSHIFT"
  let ?l = "\<lparr> hentry = replicate ?cap None, hused = hused h, hcap = ?cap \<rparr>"
  have h: "length (hentry h) = hcap h" "occupancy (hentry h) = hused h" "hused h \<le> hcap h" "hused h + 1 < ?cap"
    using inv by (auto simp: ht_inv_def CHI_HT_INIT_def occupancy_def CHI_HT_INITSHIFT_def)
  have pow: "\<exists>b. ?cap = 2 ^ b"
    using inv by (auto simp: ht_inv_def CHI_HT_INIT_def simp flip: power_Suc)
  have "grown key hash h 0 ?l"
    using pow by (simp add: grown_def occupancy_def keys_ok_def probe_ok_def CHI_HT_INITSHIFT_def del: power_Suc)
  then obtain l where l: "grow_loop key hash h ?l 0 = Some l" "grown key hash h (hcap h) l" "hcap l = ?cap"
    using grow_loop_grown [of h key hash 0 ?l] h ht_inv_keys [OF inv] by auto
  have "HT_GROW key hash h = Some l" using l(1) by (simp add: HT_GROW_def Let_def)
  moreover have "ht_shape key hash l"
    using l(2) h by (simp add: grown_def ht_shape_def)
  ultimately show ?thesis using l(2,3) h by (simp add: grown_def)
qed

text \<open>A slot that an insertion hands out: filling it with an entry of the key updates the map there.\<close>

definition slot_for :: "('e \<Rightarrow> 'k) \<Rightarrow> ('k \<Rightarrow> u64) \<Rightarrow> 'e htable \<Rightarrow> 'k \<Rightarrow> 'e htable \<Rightarrow> nat \<Rightarrow> bool" where
  "slot_for key hash h k h' p \<longleftrightarrow>
     p < length (hentry h') \<and> hentry h' ! p = None \<and>
     (\<forall>e. key e = k \<longrightarrow> ht_inv key hash (ht_store h' p e) \<and> ht_map key (ht_store h' p e) = (ht_map key h)(k \<mapsto> e))"

lemma ht_map_update:
  assumes "keys_ok key {} (hentry h)" "keys_ok key {} (hentry h')"
    "\<And>x. Some x \<in> set (hentry h') \<longleftrightarrow> x = e \<or> Some x \<in> set (hentry h)"
    "\<And>x. Some x \<in> set (hentry h) \<Longrightarrow> key x \<noteq> k" "key e = k"
  shows "ht_map key h' = (ht_map key h)(k \<mapsto> e)"
proof
  fix j
  show "ht_map key h' j = ((ht_map key h)(k \<mapsto> e)) j"
  proof (cases "j = k")
    case True
    then show ?thesis using ht_map_iff [OF assms(2), of k e] assms(3,5) by simp
  next
    case False
    then have "\<And>x. ht_map key h' j = Some x \<longleftrightarrow> ht_map key h j = Some x"
      using ht_map_iff [OF assms(2), of j] ht_map_iff [OF assms(1), of j] assms(3,5) by auto
    then show ?thesis using False by (metis fun_upd_other option.exhaust)
  qed
qed

lemma slot_forI:
  assumes keys: "keys_ok key {} (hentry h)" and sh: "ht_shape key hash h1"
    and same: "\<And>x. Some x \<in> set (hentry h1) \<longleftrightarrow> Some x \<in> set (hentry h)"
    and new: "\<And>x. Some x \<in> set (hentry h) \<Longrightarrow> key x \<noteq> k"
    and used: "hused h1 = occupancy (hentry h1) + 1" "hused h1 < hcap h1"
  shows "\<exists>p. HT_INSERTPOS h1 (hash k) = Some p \<and> slot_for key hash h k h1 p"
proof -
  have new1: "\<forall>x. Some x \<in> set (hentry h1) \<longrightarrow> key x \<noteq> k" using same new by blast
  obtain p where p: "HT_INSERTPOS h1 (hash k) = Some p" "p < hcap h1" "hentry h1 ! p = None"
    "\<And>e. key e = k \<Longrightarrow> keys_ok key {} (hentry (ht_store h1 p e)) \<and> probe_ok key hash {} (hentry (ht_store h1 p e)) \<and>
       (\<forall>x. Some x \<in> set (hentry (ht_store h1 p e)) \<longleftrightarrow> x = e \<or> Some x \<in> set (hentry h1)) \<and>
       occupancy (hentry (ht_store h1 p e)) = occupancy (hentry h1) + 1"
    by (rule insertpos_store [OF sh new1]) (rule that)
  have c: "length (hentry h1) = hcap h1" "\<exists>b. hcap h1 = 2 ^ b" using sh by (auto simp: ht_shape_def)
  have "ht_inv key hash (ht_store h1 p e) \<and> ht_map key (ht_store h1 p e) = (ht_map key h)(k \<mapsto> e)"
    if e: "key e = k" for e
  proof
    note P = p(4) [OF e]
    have sel: "hcap (ht_store h1 p e) = hcap h1" "hused (ht_store h1 p e) = hused h1"
      "length (hentry (ht_store h1 p e)) = hcap h1" using c by (simp_all add: ht_store_def)
    show "ht_inv key hash (ht_store h1 p e)"
      unfolding ht_inv_def sel using P c(2) used by simp
    show "ht_map key (ht_store h1 p e) = (ht_map key h)(k \<mapsto> e)"
      by (rule ht_map_update [OF keys]) (use P same new e in auto)
  qed
  then show ?thesis using p(1-3) c by (auto simp: slot_for_def)
qed

lemma not_full_room:
  assumes "\<not> HT_FULL h" shows "hused h + 1 < hcap h"
proof -
  have "hused h + 1 \<le> 80 * hcap h div 100" using assms by (simp add: HT_FULL_def CHI_HT_MAXFILL_def)
  then have "100 * (hused h + 1) \<le> 80 * hcap h" by (simp add: less_eq_div_iff_mult_less_eq)
  then show ?thesis by simp
qed

lemma ht_shape_used [simp]: "ht_shape key hash (h\<lparr>hused := n\<rparr>) = ht_shape key hash h"
  by (simp add: ht_shape_def)

lemma HT_INSERT_slot:
  assumes inv: "ht_inv key hash h" and new: "\<forall>x. Some x \<in> set (hentry h) \<longrightarrow> key x \<noteq> k"
    and full: "hentry h = [] \<or> HT_FULL h"
  shows "\<exists>h' p. HT_INSERT key hash h (hash k) = Some (h', p) \<and> slot_for key hash h k h' p"
proof -
  obtain l where l: "HT_GROW key hash h = Some l" "ht_shape key hash l" "hused l = hused h"
    "occupancy (hentry l) = hused h" "hused h + 1 < hcap l" "\<And>x. Some x \<in> set (hentry l) \<longleftrightarrow> Some x \<in> set (hentry h)"
    using HT_GROW_entries [OF inv] by auto
  have f: "HT_FULL h" using full inv by (auto simp: ht_inv_def CHI_HT_INIT_def HT_FULL_def)
  let ?l = "l\<lparr>hused := hused l + 1\<rparr>"
  have "\<exists>p. HT_INSERTPOS ?l (hash k) = Some p \<and> slot_for key hash h k ?l p"
    by (rule slot_forI [OF ht_inv_keys [OF inv]]) (use l new in auto)
  then show ?thesis using f l(1) by (auto simp: HT_INSERT_def Let_def)
qed

text \<open>\<^verbatim>\<open>HT_CREATE\<close> always ends; it returns the entry of a key of the map, or a slot for a new one.\<close>

lemma HT_CREATE_found:
  assumes inv: "ht_inv key hash h" and m: "ht_map key h k = Some e"
  shows "\<exists>p < length (hentry h). HT_CREATE key hash h k = Some (h, p, False) \<and> hentry h ! p = Some e"
proof -
  obtain p where p: "p < length (hentry h)" "hentry h ! p = Some e" "key e = k"
    using m ht_map_Some [OF ht_inv_keys [OF inv]] by metis
  moreover have "hentry h \<noteq> []" using p(1) by auto
  ultimately show ?thesis using findpos_found [OF inv p] by (auto simp: HT_CREATE_def Let_def)
qed

lemma HT_CREATE_new:
  assumes inv: "ht_inv key hash h" and m: "ht_map key h k = None"
  shows "\<exists>h' p. HT_CREATE key hash h k = Some (h', p, True) \<and> slot_for key hash h k h' p"
proof (cases "hentry h = []")
  case True
  have "\<forall>x. Some x \<in> set (hentry h) \<longrightarrow> key x \<noteq> k" using True by simp
  then obtain h' p where "HT_INSERT key hash h (hash k) = Some (h', p)" "slot_for key hash h k h' p"
    using HT_INSERT_slot [OF inv, of k] True by auto
  then show ?thesis using True by (auto simp: HT_CREATE_def Let_def)
next
  case False
  note keys = ht_inv_keys [OF inv]
  have new: "\<forall>x. Some x \<in> set (hentry h) \<longrightarrow> key x \<noteq> k"
    using m by (simp add: ht_map_iff_None [OF keys])
  obtain b where b: "hcap h = 2 ^ b" "length (hentry h) = hcap h" "hused h = occupancy (hentry h)"
    by (rule ht_invD [OF inv False])
  obtain d where d: "d < hcap h" "HT_FINDPOS key h k (hash k) = Some ((home hash (hcap h) k + d) mod hcap h, False)"
    "hentry h ! ((home hash (hcap h) k + d) mod hcap h) = None"
    "\<And>j. j < d \<Longrightarrow> hentry h ! ((home hash (hcap h) k + j) mod hcap h) \<noteq> None"
    by (rule findpos_missing [OF inv False new]) (rule that)
  show ?thesis
  proof (cases "HT_FULL h")
    case True
    then show ?thesis using HT_INSERT_slot [OF inv new] False d(2) by (auto simp: HT_CREATE_def Let_def)
  next
    case nf: False
    let ?h = "h\<lparr>hused := hused h + 1\<rparr>" and ?p = "(home hash (hcap h) k + d) mod hcap h"
    have "HT_INSERTPOS ?h (hash k) = Some ?p"
      unfolding HT_INSERTPOS_def home_def
      using insertpos_loop_spec [of ?h b d 0 "hash k"] b(1) d by (simp add: home_def)
    moreover have "\<exists>p. HT_INSERTPOS ?h (hash k) = Some p \<and> slot_for key hash h k ?h p"
      by (rule slot_forI [OF keys])
        (use ht_shapeI [OF inv False] not_full_room [OF nf] new b(3) in auto)
    ultimately show ?thesis using False nf d(2) by (auto simp: HT_CREATE_def Let_def)
  qed
qed

lemma HT_FIND_spec:
  assumes inv: "ht_inv key hash h"
  shows "\<exists>r. HT_FIND key hash h k = Some r \<and>
    (case r of None \<Rightarrow> ht_map key h k = None | Some p \<Rightarrow> p < length (hentry h) \<and> hentry h ! p \<noteq> None \<and> hentry h ! p = ht_map key h k)"
proof (cases "ht_map key h k")
  case None
  then have new: "\<forall>x. Some x \<in> set (hentry h) \<longrightarrow> key x \<noteq> k"
    by (simp add: ht_map_iff_None [OF ht_inv_keys [OF inv]])
  show ?thesis
  proof (cases "hentry h = []")
    case False
    obtain p where "HT_FINDPOS key h k (hash k) = Some (p, False)"
      by (rule findpos_missing [OF inv False new]) (rule that)
    then show ?thesis using None False by (simp add: HT_FIND_def)
  qed (use None in \<open>simp add: HT_FIND_def\<close>)
next
  case (Some e)
  obtain p where p: "p < length (hentry h)" "hentry h ! p = Some e" "key e = k"
    using Some ht_map_Some [OF ht_inv_keys [OF inv]] by metis
  moreover have "hentry h \<noteq> []" using p(1) by auto
  ultimately show ?thesis using findpos_found [OF inv p] Some by (simp add: HT_FIND_def)
qed

section \<open>Deleting refines map removal\<close>

text \<open>The state of the loop that closes the gap \<open>e\<close>, seen \<open>s\<close> slots further: the gap still holds a stale
  entry; every other entry is reached from its home slot (through the gap, at worst); the entries
  between the gap and the scan position sit nearer to home than the gap is away. \<open>A\<close> is the set of
  entries to keep.\<close>

definition gap_inv :: "('e \<Rightarrow> 'k) \<Rightarrow> ('k \<Rightarrow> u64) \<Rightarrow> nat \<Rightarrow> 'e set \<Rightarrow> nat \<Rightarrow> 'e option list \<Rightarrow> nat \<Rightarrow> nat \<Rightarrow> bool" where
  "gap_inv key hash N A m ents e s \<longleftrightarrow>
     length ents = N \<and> e < N \<and> ents ! e \<noteq> None \<and> occupancy ents = m \<and> 1 \<le> s \<and>
     keys_ok key {e} ents \<and> probe_ok key hash {e} ents \<and>
     (\<forall>x. x \<in> A \<longleftrightarrow> (\<exists>p < N. p \<noteq> e \<and> ents ! p = Some x)) \<and>
     (\<forall>t. 1 \<le> t \<longrightarrow> t < s \<longrightarrow> (\<exists>l. ents ! ((e + t) mod N) = Some l \<and>
        cdist N (home hash N (key l)) ((e + t) mod N) < t))"

text \<open>At the end of the loop the slot after the scanned run is free: no probe path crosses the gap.\<close>

lemma gap_closed:
  assumes g: "gap_inv key hash N A m ents e s" and s: "s < N" and free: "ents ! ((e + s) mod N) = None"
  shows "probe_ok key hash {} (ents[e := None])"
  unfolding probe_ok_def
proof (intro allI impI)
  fix p l j
  assume p: "p < length (ents[e := None])" and l: "ents[e := None] ! p = Some l"
    and j: "j < cdist (length (ents[e := None])) (home hash (length (ents[e := None])) (key l)) p"
  have N: "length ents = N" "e < N" "0 < N" using g s by (auto simp: gap_inv_def)
  let ?c = "home hash N (key l)" and ?t = "cdist N e p"
  have c: "?c < N" using N(3) by (rule home_lt)
  have pe: "p \<noteq> e" "ents ! p = Some l" "p < N" using l p N by (auto simp: nth_list_update split: if_splits)
  have path: "ents ! ((?c + i) mod N) \<noteq> None" if "i < cdist N ?c p" for i
    using g pe that unfolding gap_inv_def probe_ok_def by auto
  have j': "j < cdist N ?c p" using j N by simp
  have "(?c + j) mod N \<noteq> e"
  proof
    assume at: "(?c + j) mod N = e"
    have t: "?t = cdist N ?c p - j" using cdist_after [OF c pe(3), of j] j' at by simp
    then have le: "?t \<le> cdist N ?c p" by simp
    have arr: "(e + ?t) mod N = p" using N pe by (simp add: cadd_cdist)
    consider "?t = 0" | "1 \<le> ?t" "?t < s" | "?t = s" | "s < ?t" by linarith
    then show False
    proof cases
      case 1
      then show False using t j' by simp
    next
      case 2
      then have "cdist N ?c p < ?t" using g arr pe(2) unfolding gap_inv_def by (metis option.inject)
      then show False using le by simp
    next
      case 3
      then show False using free arr pe(2) by simp
    next
      case 4
      from on_path [OF c N(2) pe(3) 4 le] path free show False by metis
    qed
  qed
  then show "ents[e := None] ! ((home hash (length (ents[e := None])) (key l) + j) mod length (ents[e := None])) \<noteq> None"
    using path [OF j'] N(1) by simp
qed

lemma gap_keys: "keys_ok key {e} ents \<Longrightarrow> keys_ok key {} (ents[e := None])"
  unfolding keys_ok_def by (metis empty_iff length_list_update nth_list_update_eq nth_list_update_neq option.distinct(1) singletonD)

text \<open>Scanning one entry that stays.\<close>

lemma gap_scan:
  assumes g: "gap_inv key hash N A m ents e s"
    and l: "ents ! ((e + s) mod N) = Some l" "cdist N (home hash N (key l)) ((e + s) mod N) < s"
  shows "gap_inv key hash N A m ents e (s + 1)"
  using g l unfolding gap_inv_def by (auto simp: less_Suc_eq)

text \<open>Moving an entry into the gap; the new gap is the slot the entry came from.\<close>

lemma gap_move:
  assumes g: "gap_inv key hash N A m ents e s" and s: "s < N"
    and l: "ents ! ((e + s) mod N) = Some l" "s \<le> cdist N (home hash N (key l)) ((e + s) mod N)"
  shows "gap_inv key hash N A m (ents[e := Some l]) ((e + s) mod N) 1"
proof -
  let ?f = "(e + s) mod N" and ?E = "ents[e := Some l]"
  have G: "length ents = N" "e < N" "ents ! e \<noteq> None" "occupancy ents = m" "1 \<le> s"
    "keys_ok key {e} ents" "probe_ok key hash {e} ents"
    "\<And>x. x \<in> A \<longleftrightarrow> (\<exists>p < N. p \<noteq> e \<and> ents ! p = Some x)"
    using g by (simp_all add: gap_inv_def)
  have f: "?f < N" using G(2) by (intro mod_less_divisor) simp
  have fe: "?f \<noteq> e" using cdist_cadd [OF G(2) s] G(5) by (metis cdist_0 not_one_le_zero)
  have fl: "?E ! ?f = Some l" using fe l(1) by simp
  have keys: "keys_ok key {?f} ?E"
    unfolding keys_ok_def
  proof (intro allI impI)
    fix p q x y
    assume a: "p < length ?E" "q < length ?E" "p \<notin> {?f}" "q \<notin> {?f}" "?E ! p = Some x" "?E ! q = Some y" "key x = key y"
    define p' where "p' = (if p = e then ?f else p)"
    define q' where "q' = (if q = e then ?f else q)"
    have "p' \<noteq> e" "q' \<noteq> e" "p' < N" "q' < N" "ents ! p' = Some x" "ents ! q' = Some y"
      using a fe f l(1) G(1) by (auto simp: p'_def q'_def)
    then have "p' = q'" using G(1,6) a(7) unfolding keys_ok_def by (metis singletonD)
    then show "p = q" using a(3,4) by (auto simp: p'_def q'_def split: if_splits)
  qed
  have probe: "probe_ok key hash {?f} ?E"
    unfolding probe_ok_def
  proof (intro allI impI)
    fix p x j
    assume a: "p < length ?E" "p \<notin> {?f}" "?E ! p = Some x"
      and j: "j < cdist (length ?E) (home hash (length ?E) (key x)) p"
    let ?c = "home hash N (key x)"
    have c: "?c < N" using f by (intro home_lt) simp
    define p' where "p' = (if p = e then ?f else p)"
    have p': "p' \<noteq> e" "p' < N" "ents ! p' = Some x" using a fe f l(1) G(1) by (auto simp: p'_def)
    have "j < cdist N ?c p'"
    proof (cases "p = e")
      case True
      then have "x = l" using a(3) G(1,2) by simp
      then show ?thesis using cdist_hole_move [OF c G(2) s] l(2) j True G(1) by (simp add: p'_def)
    qed (use j G(1) in \<open>simp add: p'_def\<close>)
    then have "ents ! ((?c + j) mod N) \<noteq> None" using G(1,7) p' unfolding probe_ok_def by (metis singletonD)
    then show "?E ! ((home hash (length ?E) (key x) + j) mod length ?E) \<noteq> None"
      using store_occupied [of "(?c + j) mod N" ents e l] f G(1) by simp
  qed
  have A: "x \<in> A \<longleftrightarrow> (\<exists>p < N. p \<noteq> ?f \<and> ?E ! p = Some x)" for x
  proof
    assume "x \<in> A"
    then obtain p where p: "p < N" "p \<noteq> e" "ents ! p = Some x" using G(8) by blast
    show "\<exists>p < N. p \<noteq> ?f \<and> ?E ! p = Some x"
    proof (cases "p = ?f")
      case True
      then have "?E ! e = Some x" using p(3) l(1) G(1,2) by simp
      then show ?thesis using fe G(2) by metis
    qed (use p in auto)
  next
    assume "\<exists>p < N. p \<noteq> ?f \<and> ?E ! p = Some x"
    then obtain p where p: "p < N" "p \<noteq> ?f" "?E ! p = Some x" by blast
    show "x \<in> A"
    proof (cases "p = e")
      case True
      then have "ents ! ?f = Some x" using p(3) l(1) G(1,2) by simp
      then show ?thesis using G(8) f fe by metis
    qed (use p G(8) in auto)
  qed
  show ?thesis
    unfolding gap_inv_def
    using G(1,4) f fl keys probe A occupancy_swap [of e ents l] G(2,3) by simp
qed

text \<open>The loop ends: it advances towards a slot \<open>z\<close> that is free and stays free.\<close>

lemma delete_loop_ends:
  assumes N: "N = 2 ^ b" and z: "z < N" "ents ! z = None" "s \<le> cdist N e z"
    and g: "gap_inv key hash N A m ents e s" and f: "f = (e + (s - 1)) mod N"
  shows "\<exists>ents' e' s'. delete_loop key hash N ents e f s = Some (ents', e') \<and> gap_inv key hash N A m ents' e' s' \<and>
    s' < N \<and> ents' ! ((e' + s') mod N) = None"
  using z g f
proof (induction "cdist N e z - s" arbitrary: ents e f s rule: less_induct)
  case less
  have G: "length ents = N" "e < N" "1 \<le> s" using less.prems(4) by (simp_all add: gap_inv_def)
  have s: "s < N" using less.prems(3) cdist_lt [OF G(2) less.prems(1)] by linarith
  let ?f = "(e + s) mod N"
  have "(f + 1) mod N = (e + (s - 1) + 1) mod N" unfolding less.prems(5) by (rule mod_add_left_eq)
  then have nf: "(f + 1) AND (N - 1) = ?f" using G(3) unfolding next_mod [OF N] by simp
  have fN: "?f < N" using G(2) by (intro mod_less_divisor) simp
  show ?case
  proof (cases "ents ! ?f")
    case None
    then have "delete_loop key hash N ents e f s = Some (ents, e)"
      by (subst delete_loop.simps) (simp only: nf Let_def option.case)
    then show ?thesis using less.prems(4) s None by blast
  next
    case (Some l)
    let ?d = "cdist N (home hash N (key l)) ?f"
    have pd: "probe_dist N ?f (hash (key l)) = ?d"
      using probe_dist_cdist [OF N fN] by (simp add: home_def)
    have step: "delete_loop key hash N ents e f s =
        (if s \<le> ?d then delete_loop key hash N (ents[e := Some l]) ?f ?f 1 else delete_loop key hash N ents e ?f (s + 1))"
      by (subst delete_loop.simps) (simp only: nf Let_def option.case Some pd)
    have sz: "s < cdist N e z"
    proof -
      have "s \<noteq> cdist N e z" using cadd_cdist [OF G(2) less.prems(1)] less.prems(2) Some by auto
      then show ?thesis using less.prems(3) by simp
    qed
    show ?thesis
    proof (cases "s \<le> ?d")
      case True
      have dz: "cdist N ?f z = cdist N e z - s" using cdist_after [OF G(2) less.prems(1)] sz by simp
      have "e \<noteq> z" using sz by auto
      moreover have "gap_inv key hash N A m (ents[e := Some l]) ?f 1"
        by (rule gap_move [OF less.prems(4) s Some True])
      ultimately show ?thesis
        using less.hyps [of ?f 1 "ents[e := Some l]" ?f] less.prems(1,2) dz sz G(3) step True fN by simp
    next
      case False
      have "gap_inv key hash N A m ents e (s + 1)"
        by (rule gap_scan [OF less.prems(4) Some]) (use False in simp)
      then show ?thesis
        using less.hyps [of e "s + 1" ents ?f] less.prems(1,2) sz step False by simp
    qed
  qed
qed

lemma HT_DELETE_spec:
  assumes inv: "ht_inv key hash h"
  shows "\<exists>h'. HT_DELETE key hash h k = Some (h', ht_map key h k \<noteq> None) \<and> ht_inv key hash h' \<and>
    ht_map key h' = (ht_map key h)(k := None)"
proof (cases "ht_map key h k")
  case None
  then have upd: "(ht_map key h)(k := None) = ht_map key h" by auto
  from None have new: "\<forall>x. Some x \<in> set (hentry h) \<longrightarrow> key x \<noteq> k"
    by (simp add: ht_map_iff_None [OF ht_inv_keys [OF inv]])
  have "HT_DELETE key hash h k = Some (h, False)"
  proof (cases "hentry h = []")
    case False
    obtain p where "HT_FINDPOS key h k (hash k) = Some (p, False)"
      by (rule findpos_missing [OF inv False new]) (rule that)
    then show ?thesis using False by (simp add: HT_DELETE_def)
  qed (simp add: HT_DELETE_def)
  then show ?thesis using inv upd None by auto
next
  case (Some x)
  note keys = ht_inv_keys [OF inv]
  obtain p where p: "p < length (hentry h)" "hentry h ! p = Some x" "key x = k"
    using Some ht_map_Some [OF keys] by metis
  then have ne: "hentry h \<noteq> []" by auto
  obtain b where h: "hcap h = 2 ^ b" "length (hentry h) = hcap h" "hused h = occupancy (hentry h)" "hused h < hcap h"
    "keys_ok key {} (hentry h)" "probe_ok key hash {} (hentry h)"
    by (rule ht_invD [OF inv ne])
  let ?A = "{y. Some y \<in> set (hentry h) \<and> key y \<noteq> k}"
  have kp: "key y = k \<longleftrightarrow> q = p" if "q < hcap h" "hentry h ! q = Some y" for q y
    using h(5) that p unfolding keys_ok_def h(2) by (metis empty_iff option.inject)
  have "y \<in> ?A \<longleftrightarrow> (\<exists>q < hcap h. q \<noteq> p \<and> hentry h ! q = Some y)" for y
    unfolding mem_Collect_eq in_set_conv_nth h(2) using kp by metis
  moreover have "keys_ok key {p} (hentry h)" "probe_ok key hash {p} (hentry h)"
    using h(5,6) unfolding keys_ok_def probe_ok_def by simp_all
  ultimately have g: "gap_inv key hash (hcap h) ?A (hused h) (hentry h) p 1"
    using h(2,3) p unfolding gap_inv_def by simp
  obtain z where z: "z < hcap h" "hentry h ! z = None" using free_slot [of "hentry h"] h by auto
  have "p \<noteq> z" using z p by auto
  then have "1 \<le> cdist (hcap h) p z" using cdist_eq_0 [of p "hcap h" z] p(1) z(1) h(2) by simp
  then obtain E e s where E: "delete_loop key hash (hcap h) (hentry h) p p 1 = Some (E, e)"
    "gap_inv key hash (hcap h) ?A (hused h) E e s" "s < hcap h" "E ! ((e + s) mod hcap h) = None"
    using delete_loop_ends [OF h(1) z _ g, of p] p(1) h(2) by auto
  let ?h = "h\<lparr>hentry := E[e := None], hused := hused h - 1\<rparr>"
  have del: "HT_DELETE key hash h k = Some (?h, True)"
    using findpos_found [OF inv p] ne E(1) by (simp add: HT_DELETE_def)
  have G: "length E = hcap h" "e < hcap h" "E ! e \<noteq> None" "occupancy E = hused h" "keys_ok key {e} E"
    "\<And>y. y \<in> ?A \<longleftrightarrow> (\<exists>q < hcap h. q \<noteq> e \<and> E ! q = Some y)"
    using E(2) unfolding gap_inv_def by blast+
  have K: "keys_ok key {} (hentry ?h)" using gap_keys [OF G(5)] by simp
  have "occupancy (E[e := None]) = hused h - 1" using occupancy_remove [of e E] G(1-4) by auto
  then have I: "ht_inv key hash ?h"
    using h gap_closed [OF E(2-4)] K G(1) by (simp add: ht_inv_def less_imp_diff_less)
  have S: "Some y \<in> set (hentry ?h) \<longleftrightarrow> y \<in> ?A" for y
  proof -
    have "Some y \<in> set (hentry ?h) \<longleftrightarrow> (\<exists>q < hcap h. E[e := None] ! q = Some y)"
      using G(1) by (simp add: in_set_conv_nth)
    also have "\<dots> \<longleftrightarrow> (\<exists>q < hcap h. q \<noteq> e \<and> E ! q = Some y)"
      using G(1) by (metis nth_list_update_eq nth_list_update_neq option.distinct(1))
    finally show ?thesis unfolding G(6) .
  qed
  have "ht_map key ?h j = ((ht_map key h)(k := None)) j" for j
  proof (cases "j = k")
    case True
    then have "ht_map key ?h j = None" unfolding ht_map_iff_None [OF K] S by simp
    then show ?thesis using True by simp
  next
    case False
    then have "\<And>y. ht_map key ?h j = Some y \<longleftrightarrow> ht_map key h j = Some y"
      unfolding ht_map_iff [OF K] ht_map_iff [OF keys] S by auto
    then show ?thesis using False by (metis fun_upd_other option.exhaust)
  qed
  then show ?thesis using del I Some by auto
qed

lemma ht_inv_INIT [simp]: "ht_inv key hash CHI_HT_INIT" "ht_map key CHI_HT_INIT = Map.empty"
  by (auto simp: ht_inv_def ht_map_def CHI_HT_INIT_def)

section \<open>The interface of keyed tables\<close>

text \<open>
  What the users of a generated table rely on: a table represents a finite map from keys to entries;
  \<open>create\<close> hands out the slot of a key, filling the slot with an entry of that key updates the map, \<open>find\<close>
  and \<open>remove\<close> are lookup and removal. Every operation ends.
\<close>

locale keyed_table =
  fixes invar :: "'t \<Rightarrow> bool" and lookup :: "'t \<Rightarrow> 'k \<Rightarrow> 'e option" and key :: "'e \<Rightarrow> 'k"
    and empty :: 't and entry_at :: "'t \<Rightarrow> nat \<Rightarrow> 'e option" and fill :: "'t \<Rightarrow> nat \<Rightarrow> 'e \<Rightarrow> 't"
    and create :: "'t \<Rightarrow> 'k \<Rightarrow> ('t \<times> nat \<times> bool) option" and find :: "'t \<Rightarrow> 'k \<Rightarrow> nat option option"
    and remove :: "'t \<Rightarrow> 'k \<Rightarrow> ('t \<times> bool) option"
  assumes empty_inv: "invar empty" and empty_map: "lookup empty k = None"
    and lookup_key: "invar t \<Longrightarrow> lookup t k = Some e \<Longrightarrow> key e = k"
    and create_old: "invar t \<Longrightarrow> lookup t k = Some e \<Longrightarrow>
      \<exists>p. create t k = Some (t, p, False) \<and> entry_at t p = Some e \<and>
        (\<forall>e'. key e' = k \<longrightarrow> invar (fill t p e') \<and> lookup (fill t p e') = (lookup t)(k \<mapsto> e'))"
    and create_fresh: "invar t \<Longrightarrow> lookup t k = None \<Longrightarrow>
      \<exists>t' p. create t k = Some (t', p, True) \<and> entry_at t' p = None \<and>
        (\<forall>e'. key e' = k \<longrightarrow> invar (fill t' p e') \<and> lookup (fill t' p e') = (lookup t)(k \<mapsto> e'))"
    and find_lookup: "invar t \<Longrightarrow>
      \<exists>r. find t k = Some r \<and> (case r of None \<Rightarrow> lookup t k = None | Some p \<Rightarrow> lookup t k \<noteq> None \<and> entry_at t p = lookup t k)"
    and remove_lookup: "invar t \<Longrightarrow>
      \<exists>t'. remove t k = Some (t', lookup t k \<noteq> None) \<and> invar t' \<and> lookup t' = (lookup t)(k := None)"
begin

text \<open>Creating the entry of a key and filling it with a value that depends on the old entry.\<close>

lemma create_fill:
  assumes "invar t" and f: "\<And>r. key (f r) = k"
  shows "\<exists>t' p new. create t k = Some (t', p, new) \<and> entry_at t' p = lookup t k \<and> new = (lookup t k = None) \<and>
    invar (fill t' p (f (entry_at t' p))) \<and> lookup (fill t' p (f (entry_at t' p))) = (lookup t)(k \<mapsto> f (lookup t k))"
proof (cases "lookup t k")
  case None
  then show ?thesis using create_fresh [OF assms(1) None] f by force
next
  case (Some e)
  then show ?thesis using create_old [OF assms(1) Some] f by force
qed

text \<open>A whole sequence of such updates.\<close>

lemma create_fill_all:
  assumes step: "\<And>t x. invar t \<Longrightarrow> \<exists>t'. add x t = Some t' \<and> invar t' \<and>
      lookup t' = (lookup t)(kx x \<mapsto> f x (lookup t (kx x)))"
    and t: "invar t"
  shows "\<exists>t'. fold (\<lambda>x r. Option.bind r (add x)) xs (Some t) = Some t' \<and> invar t' \<and>
    lookup t' = fold (\<lambda>x m. m(kx x \<mapsto> f x (m (kx x)))) xs (lookup t)"
  using t
proof (induction xs arbitrary: t)
  case (Cons x xs)
  obtain t1 where t1: "add x t = Some t1" "invar t1" "lookup t1 = (lookup t)(kx x \<mapsto> f x (lookup t (kx x)))"
    using step [OF Cons.prems] by blast
  show ?case using Cons.IH [OF t1(2)] by (simp add: t1(1,3))
qed simp

end

text \<open>The entry in a slot; a slot out of range has none.\<close>

definition ht_entry :: "'e htable \<Rightarrow> nat \<Rightarrow> 'e option" where
  "ht_entry h p = (if p < length (hentry h) then hentry h ! p else None)"

text \<open>Overwriting an entry by one with the same key keeps the shape of the table.\<close>

lemma ht_overwrite:
  assumes inv: "ht_inv key hash h" and p: "p < length (hentry h)" "hentry h ! p = Some e" and k: "key e' = key e"
  shows "ht_inv key hash (ht_store h p e') \<and> ht_map key (ht_store h p e') = (ht_map key h)(key e \<mapsto> e')"
proof -
  have "hentry h \<noteq> []" using p by auto
  then obtain b where h: "hcap h = 2 ^ b" "length (hentry h) = hcap h" "hused h = occupancy (hentry h)"
    "hused h < hcap h" "keys_ok key {} (hentry h)" "probe_ok key hash {} (hentry h)"
    by (rule ht_invD [OF inv])
  let ?E = "(hentry h)[p := Some e']"
  have old: "\<exists>y. hentry h ! q = Some y \<and> key y = key x \<and> (q \<noteq> p \<longrightarrow> y = x)" if "?E ! q = Some x" for q x
    using that p k by (cases "q = p") auto
  have keys: "keys_ok key {} ?E"
    unfolding keys_ok_def
  proof (intro allI impI)
    fix i j x y
    assume "i < length ?E" "j < length ?E" "?E ! i = Some x" "?E ! j = Some y" "key x = key y"
    then show "i = j" using old [of i x] old [of j y] h(5) unfolding keys_ok_def by (metis empty_iff length_list_update)
  qed
  have probe: "probe_ok key hash {} ?E"
    unfolding probe_ok_def
  proof (intro allI impI)
    fix q x j
    assume a: "q < length ?E" "?E ! q = Some x" "j < cdist (length ?E) (home hash (length ?E) (key x)) q"
    obtain y where "hentry h ! q = Some y" "key y = key x" using old [OF a(2)] by blast
    then have "hentry h ! ((home hash (hcap h) (key x) + j) mod hcap h) \<noteq> None"
      using h(2,6) a unfolding probe_ok_def by (metis empty_iff length_list_update)
    then show "?E ! ((home hash (length ?E) (key x) + j) mod length ?E) \<noteq> None"
      using store_occupied [of "(home hash (hcap h) (key x) + j) mod hcap h" "hentry h" p e'] h(1,2) by simp
  qed
  have occ: "occupancy ?E = occupancy (hentry h)" using occupancy_swap [OF p(1)] p(2) by simp
  have I: "ht_inv key hash (ht_store h p e')"
    using h keys probe occ by (simp add: ht_inv_def ht_store_def)
  have "ht_map key (ht_store h p e') j = ((ht_map key h)(key e \<mapsto> e')) j" for j
  proof (cases "j = key e")
    case True
    have "ht_map key (ht_store h p e') j = Some e'"
      using ht_map_Some [OF ht_inv_keys [OF I], of j e'] p(1) k True by (auto simp: ht_store_def)
    then show ?thesis using True by simp
  next
    case False
    have "?E ! q = Some y \<longleftrightarrow> hentry h ! q = Some y" if "key y = j" for q y
      using that False p k by (cases "q = p") auto
    then have "\<And>y. ht_map key (ht_store h p e') j = Some y \<longleftrightarrow> ht_map key h j = Some y"
      unfolding ht_map_Some [OF ht_inv_keys [OF I]] ht_map_Some [OF h(5)] by (auto simp: ht_store_def)
    then show ?thesis using False by (metis fun_upd_other option.exhaust)
  qed
  then show ?thesis using I by auto
qed

interpretation ht: keyed_table "ht_inv key hash" "ht_map key" key CHI_HT_INIT ht_entry ht_store
  "HT_CREATE key hash" "HT_FIND key hash" "HT_DELETE key hash"
  for key :: "'e \<Rightarrow> 'k" and hash
proof
  show "ht_inv key hash CHI_HT_INIT" "ht_map key CHI_HT_INIT k = None" for k by simp_all
  show "key e = k" if "ht_inv key hash t" "ht_map key t k = Some e" for t k e
    using that ht_map_iff [OF ht_inv_keys [OF that(1)]] by simp
  show "\<exists>p. HT_CREATE key hash t k = Some (t, p, False) \<and> ht_entry t p = Some e \<and>
      (\<forall>e'. key e' = k \<longrightarrow> ht_inv key hash (ht_store t p e') \<and> ht_map key (ht_store t p e') = (ht_map key t)(k \<mapsto> e'))"
    if i: "ht_inv key hash t" and m: "ht_map key t k = Some e" for t k e
  proof -
    have k: "key e = k" using m ht_map_iff [OF ht_inv_keys [OF i]] by simp
    obtain p where "p < length (hentry t)" "HT_CREATE key hash t k = Some (t, p, False)" "hentry t ! p = Some e"
      using HT_CREATE_found [OF i m] by blast
    then show ?thesis using ht_overwrite [OF i, of p e] k by (auto simp: ht_entry_def)
  qed
  show "\<exists>t' p. HT_CREATE key hash t k = Some (t', p, True) \<and> ht_entry t' p = None \<and>
      (\<forall>e'. key e' = k \<longrightarrow> ht_inv key hash (ht_store t' p e') \<and> ht_map key (ht_store t' p e') = (ht_map key t)(k \<mapsto> e'))"
    if "ht_inv key hash t" "ht_map key t k = None" for t k
    using HT_CREATE_new [OF that] by (auto simp: slot_for_def ht_entry_def)
  show "\<exists>r. HT_FIND key hash t k = Some r \<and>
      (case r of None \<Rightarrow> ht_map key t k = None | Some p \<Rightarrow> ht_map key t k \<noteq> None \<and> ht_entry t p = ht_map key t k)"
    if i: "ht_inv key hash t" for t k
  proof -
    obtain r where "HT_FIND key hash t k = Some r"
      "case r of None \<Rightarrow> ht_map key t k = None | Some p \<Rightarrow> p < length (hentry t) \<and> hentry t ! p \<noteq> None \<and> hentry t ! p = ht_map key t k"
      using HT_FIND_spec [OF i] by blast
    then show ?thesis by (cases r; cases "ht_map key t k") (auto simp: ht_entry_def)
  qed
  show "\<exists>t'. HT_DELETE key hash t k = Some (t', ht_map key t k \<noteq> None) \<and> ht_inv key hash t' \<and>
      ht_map key t' = (ht_map key t)(k := None)" if "ht_inv key hash t" for t k
    by (rule HT_DELETE_spec [OF that])
qed

section \<open>Properties\<close>

text \<open>C22: On every table that satisfies the invariant the operations end and implement a finite map:
  lookup returns the null pointer exactly if the key has no entry, and otherwise the slot that holds its entry; create returns
  the slot of the existing entry or, growing the table when it is too full, an empty slot, and filling that slot with an entry of the
  key updates the map at the key only and keeps the invariant.\<close>

theorem hashtable_create_find:
  assumes "ht_inv key hash h"
  shows "(\<exists>r. HT_FIND key hash h k = Some r \<and> (r = None \<longleftrightarrow> ht_map key h k = None) \<and>
      (\<forall>p. r = Some p \<longrightarrow> p < length (hentry h) \<and> hentry h ! p = ht_map key h k)) \<and>
    (\<exists>h' p. HT_CREATE key hash h k = Some (h', p, ht_map key h k = None) \<and> ht_entry h' p = ht_map key h k \<and>
       (\<forall>e. key e = k \<longrightarrow> ht_inv key hash (ht_store h' p e) \<and> ht_map key (ht_store h' p e) = (ht_map key h)(k \<mapsto> e)))"
proof
  obtain r where "HT_FIND key hash h k = Some r"
    "case r of None \<Rightarrow> ht_map key h k = None | Some p \<Rightarrow> ht_map key h k \<noteq> None \<and> ht_entry h p = ht_map key h k"
    using ht.find_lookup [OF assms] by blast
  then show "\<exists>r. HT_FIND key hash h k = Some r \<and> (r = None \<longleftrightarrow> ht_map key h k = None) \<and>
      (\<forall>p. r = Some p \<longrightarrow> p < length (hentry h) \<and> hentry h ! p = ht_map key h k)"
    by (cases r) (auto simp: ht_entry_def split: if_splits)
  show "\<exists>h' p. HT_CREATE key hash h k = Some (h', p, ht_map key h k = None) \<and> ht_entry h' p = ht_map key h k \<and>
      (\<forall>e. key e = k \<longrightarrow> ht_inv key hash (ht_store h' p e) \<and> ht_map key (ht_store h' p e) = (ht_map key h)(k \<mapsto> e))"
    using ht.create_old [OF assms] ht.create_fresh [OF assms] by (cases "ht_map key h k") (simp_all, metis+)
qed

text \<open>C23: Deleting a key always ends, removes exactly that key from the map, says whether it was there, and
  keeps the invariant, in particular that no other entry is cut off from its home slot.\<close>

theorem hashtable_delete:
  assumes "ht_inv key hash h"
  shows "\<exists>h'. HT_DELETE key hash h k = Some (h', ht_map key h k \<noteq> None) \<and> ht_inv key hash h' \<and>
    ht_map key h' = (ht_map key h)(k := None)"
  by (rule ht.remove_lookup [OF assms])

text \<open>A table of capacity 4 in which the home slots of the keys 4, 8 and 1 collide.\<close>

definition sample_table :: "(nat \<times> nat) htable" where
  "sample_table = \<lparr> hentry = [Some (4, 40), Some (8, 80), Some (1, 10), None], hused = 3, hcap = 4 \<rparr>"

lemma all_less_small:
  "(\<forall>j < 4. P j) \<longleftrightarrow> P 0 \<and> P 1 \<and> P 2 \<and> P 3" "(\<forall>j < 2. P j) \<longleftrightarrow> P 0 \<and> P 1" "(\<forall>j < Suc 0. P j) \<longleftrightarrow> P (0 :: nat)"
  by (auto simp: less_Suc_eq numeral_eq_Suc)

lemma sample_table_inv: "ht_inv fst of_nat sample_table"
proof -
  have len: "length (hentry sample_table) = 4" by (simp add: sample_table_def)
  have "keys_ok fst {} (hentry sample_table)" "probe_ok fst of_nat {} (hentry sample_table)"
    unfolding keys_ok_def probe_ok_def len all_less_small(1)
    by (simp_all add: sample_table_def all_less_small home_def cdist_def)
  moreover have "\<exists>b. hcap sample_table = 2 ^ b" by (rule exI [of _ 2]) (simp add: sample_table_def)
  ultimately show ?thesis by (simp add: ht_inv_def sample_table_def occupancy_def)
qed

lemma hashtable_create_find_witness:
  "(\<exists>p. HT_FIND fst of_nat sample_table 8 = Some (Some p) \<and> hentry sample_table ! p = Some (8, 80)) \<and>
    HT_FIND fst of_nat sample_table 5 = Some None \<and>
    (\<exists>h' p. HT_CREATE fst of_nat sample_table 8 = Some (h', p, ht_map fst sample_table 8 = None) \<and>
       ht_entry h' p = ht_map fst sample_table 8)"
proof -
  have m: "ht_map fst sample_table 8 = Some (8, 80)" "ht_map fst sample_table 5 = None" by (simp_all add: ht_map_def sample_table_def)
  show ?thesis using hashtable_create_find [OF sample_table_inv, of 8] hashtable_create_find [OF sample_table_inv, of 5]
    unfolding m by auto
qed

lemma hashtable_delete_witness:
  "\<exists>h'. HT_DELETE fst of_nat sample_table 4 = Some (h', ht_map fst sample_table 4 \<noteq> None) \<and>
     ht_map fst h' = (ht_map fst sample_table)(4 := None)"
  using hashtable_delete [OF sample_table_inv, of 4] by blast

end
