(* ===== verification/Chili.thy ===== *)
theory Chili
  imports Prelude
begin

text \<open>
  The value representation of \<^verbatim>\<open>src/native/include/chili/base.h\<close> in its 64-bit NaN-boxing layout: the
  bit field macros of \<^verbatim>\<open>bitfield.h\<close>, references to heap objects with their type, size, generation and
  pointer fields, the unboxed encodings (integers up to 63 bits, doubles, pointers, booleans, empty
  objects), the type numbering and the color test of the collector. A word of the C program is a \<open>u64\<close>.
\<close>

section \<open>Bit fields\<close>

text \<open>A field descriptor: shift, length and alignment, as the macro tuples of the source.\<close>

type_synonym bf = "nat \<times> nat \<times> nat"

definition CHI_BF_MASK :: "bf \<Rightarrow> u64" where
  "CHI_BF_MASK n = (case n of (s, l, a) \<Rightarrow> push_bit l 1 - 1)"

definition CHI_BF_SHIFTED_MASK :: "bf \<Rightarrow> u64" where
  "CHI_BF_SHIFTED_MASK n = (case n of (s, l, a) \<Rightarrow> push_bit s (CHI_BF_MASK n))"

definition CHI_BF_MAX :: "bf \<Rightarrow> u64" where
  "CHI_BF_MAX n = (case n of (s, l, a) \<Rightarrow> push_bit a (CHI_BF_MASK n))"

definition CHI_BF_ALIGNED_SHIFT :: "bf \<Rightarrow> nat" where
  "CHI_BF_ALIGNED_SHIFT n = (case n of (s, l, a) \<Rightarrow> s - a)"

definition CHI_BF_GET :: "bf \<Rightarrow> u64 \<Rightarrow> u64" where
  "CHI_BF_GET n x = drop_bit (CHI_BF_ALIGNED_SHIFT n) x AND CHI_BF_MAX n"

definition CHI_BF_INIT :: "bf \<Rightarrow> u64 \<Rightarrow> u64" where
  "CHI_BF_INIT n x = push_bit (CHI_BF_ALIGNED_SHIFT n) x"

definition CHI_BF_SET :: "bf \<Rightarrow> u64 \<Rightarrow> u64 \<Rightarrow> u64" where
  "CHI_BF_SET n x y = (x AND NOT (CHI_BF_SHIFTED_MASK n)) OR CHI_BF_INIT n y"

text \<open>The assertions of \<^verbatim>\<open>CHI_BF_INIT\<close>: the value is aligned and does not overflow the field.\<close>

definition bf_fits :: "bf \<Rightarrow> u64 \<Rightarrow> bool" where
  "bf_fits n x \<longleftrightarrow> (case n of (s, l, a) \<Rightarrow> x AND (push_bit a 1 - 1) = 0) \<and> x \<le> CHI_BF_MAX n"

section \<open>The layout\<close>

definition CHILI_BF_TYPE :: bf where "CHILI_BF_TYPE = (0, 9, 0)"
definition CHILI_BF_SIZE :: bf where "CHILI_BF_SIZE = (9, 6, 0)"
definition CHILI_BF_GEN :: bf where "CHILI_BF_GEN = (15, 3, 0)"
definition CHILI_BF_PTR :: bf where "CHILI_BF_PTR = (18, 34, 3)"
definition CHILI_BF_REFTAG :: bf where "CHILI_BF_REFTAG = (52, 12, 0)"
definition CHILI_BF_PTR_START :: bf where "CHILI_BF_PTR_START = (18, 35, 3)"

definition CHILI_NAN :: u64 where "CHILI_NAN = push_bit 51 0xFFF"
definition CHILI_LARGE :: u64 where "CHILI_LARGE = CHI_BF_MAX CHILI_BF_SIZE"
definition CHILI_REFTAG :: u64 where "CHILI_REFTAG = CHI_BF_SHIFTED_MASK CHILI_BF_REFTAG"
definition CHILI_EMPTY_REFTAG :: u64 where "CHILI_EMPTY_REFTAG = 0"

definition CHI_MAX_UNPINNED :: nat where "CHI_MAX_UNPINNED = 62"
definition CHI_AMAX :: nat where "CHI_AMAX = 16"
definition CHI_WORDSIZE :: nat where "CHI_WORDSIZE = 8"
definition CHI_CHUNK_START :: nat where "CHI_CHUNK_START = 2 ^ 37"
definition CHI_CHUNK_MAX_SIZE :: nat where "CHI_CHUNK_MAX_SIZE = 2 ^ 37"

text \<open>Generations.\<close>

definition CHI_GEN_NURSERY :: nat where "CHI_GEN_NURSERY = 0"
definition CHI_GEN_MAJOR :: nat where "CHI_GEN_MAJOR = unat (CHI_BF_MAX CHILI_BF_GEN)"

text \<open>The numbering of object types.\<close>

definition CHI_FIRST_TAG :: nat where "CHI_FIRST_TAG = 0"
definition CHI_LAST_TAG :: nat where "CHI_LAST_TAG = 487 - CHI_AMAX"
definition CHI_FIRST_FN :: nat where "CHI_FIRST_FN = CHI_LAST_TAG + 1"
definition CHI_LAST_FN :: nat where "CHI_LAST_FN = CHI_FIRST_FN + CHI_AMAX - 1"
definition CBY_INTERP_MODULE :: nat where "CBY_INTERP_MODULE = CHI_LAST_FN + 1"
definition CBY_NATIVE_MODULE :: nat where "CBY_NATIVE_MODULE = CBY_INTERP_MODULE + 1"
definition CHI_LAST_IMMUTABLE :: nat where "CHI_LAST_IMMUTABLE = CBY_NATIVE_MODULE"
definition CHI_FIRST_MUTABLE :: nat where "CHI_FIRST_MUTABLE = CHI_LAST_IMMUTABLE + 1"
definition CHI_STRINGBUILDER :: nat where "CHI_STRINGBUILDER = CHI_FIRST_MUTABLE"
definition CHI_ARRAY_SMALL :: nat where "CHI_ARRAY_SMALL = CHI_STRINGBUILDER + 1"
definition CHI_ARRAY_LARGE :: nat where "CHI_ARRAY_LARGE = CHI_ARRAY_SMALL + 1"
definition CHI_THUNK :: nat where "CHI_THUNK = CHI_ARRAY_LARGE + 1"
definition CHI_LAST_MUTABLE :: nat where "CHI_LAST_MUTABLE = CHI_THUNK"
definition CHI_THREAD :: nat where "CHI_THREAD = CHI_LAST_MUTABLE + 1"
definition CHI_STACK :: nat where "CHI_STACK = CHI_THREAD + 1"
definition CHI_POISON_TAG :: nat where "CHI_POISON_TAG = CHI_STACK + 1"
definition CHI_FIRST_RAW :: nat where "CHI_FIRST_RAW = CHI_POISON_TAG + 1"
definition CHI_FAIL :: nat where "CHI_FAIL = CHI_FIRST_RAW"
definition CHI_PRESTRING :: nat where "CHI_PRESTRING = CHI_FAIL + 1"
definition CHI_BIGINT_POS :: nat where "CHI_BIGINT_POS = CHI_PRESTRING + 1"
definition CHI_BIGINT_NEG :: nat where "CHI_BIGINT_NEG = CHI_BIGINT_POS + 1"
definition CBY_FFI :: nat where "CBY_FFI = CHI_BIGINT_NEG + 1"
definition CHI_STRING :: nat where "CHI_STRING = CBY_FFI + 1"
definition CHI_BOX :: nat where "CHI_BOX = CHI_STRING + 1"
definition CHI_BUFFER0 :: nat where "CHI_BUFFER0 = CHI_BOX + 1"
definition CHI_BUFFER7 :: nat where "CHI_BUFFER7 = CHI_BUFFER0 + 7"
definition CHI_LAST_TYPE :: nat where "CHI_LAST_TYPE = CHI_BUFFER7"

lemmas chili_types =
  CHI_FIRST_TAG_def CHI_LAST_TAG_def CHI_FIRST_FN_def CHI_LAST_FN_def CBY_INTERP_MODULE_def CBY_NATIVE_MODULE_def
  CHI_LAST_IMMUTABLE_def CHI_FIRST_MUTABLE_def CHI_STRINGBUILDER_def CHI_ARRAY_SMALL_def CHI_ARRAY_LARGE_def
  CHI_THUNK_def CHI_LAST_MUTABLE_def CHI_THREAD_def CHI_STACK_def CHI_POISON_TAG_def CHI_FIRST_RAW_def CHI_FAIL_def
  CHI_PRESTRING_def CHI_BIGINT_POS_def CHI_BIGINT_NEG_def CBY_FFI_def CHI_STRING_def CHI_BOX_def CHI_BUFFER0_def
  CHI_BUFFER7_def CHI_LAST_TYPE_def CHI_AMAX_def

definition chiRaw :: "nat \<Rightarrow> bool" where "chiRaw t \<longleftrightarrow> CHI_FIRST_RAW \<le> t"
definition chiFn :: "nat \<Rightarrow> bool" where "chiFn t \<longleftrightarrow> CHI_FIRST_FN \<le> t \<and> t \<le> CHI_LAST_FN"
definition chiFnTypeArity :: "nat \<Rightarrow> nat" where "chiFnTypeArity t = t - CHI_FIRST_FN + 1"
definition CHI_FN :: "nat \<Rightarrow> nat" where "CHI_FN n = CHI_FIRST_FN + n - 1"
definition CHI_TAG :: "nat \<Rightarrow> nat" where "CHI_TAG n = n"

section \<open>References\<close>

definition chiFitsUnboxed63 :: "u64 \<Rightarrow> bool" where
  "chiFitsUnboxed63 v \<longleftrightarrow> drop_bit 63 v = 0"

definition chiUnboxed63 :: "u64 \<Rightarrow> bool" where
  "chiUnboxed63 c = chiFitsUnboxed63 c"

definition chiRef :: "u64 \<Rightarrow> bool" where
  "chiRef c \<longleftrightarrow> CHILI_REFTAG < c"

definition chiFromUnboxed :: "u64 \<Rightarrow> u64" where
  "chiFromUnboxed v = v"

definition chiToUnboxed :: "u64 \<Rightarrow> u64" where
  "chiToUnboxed c = c"

definition chiType :: "u64 \<Rightarrow> nat" where
  "chiType c = unat (CHI_BF_GET CHILI_BF_TYPE c)"

definition chiSizeField :: "u64 \<Rightarrow> nat" where
  "chiSizeField c = unat (CHI_BF_GET CHILI_BF_SIZE c)"

definition chiAddress :: "u64 \<Rightarrow> nat" where
  "chiAddress c = unat (CHI_BF_GET CHILI_BF_PTR c)"

definition chiPtrField :: "u64 \<Rightarrow> nat" where
  "chiPtrField c = unat (CHI_BF_GET CHILI_BF_PTR_START c)"

definition chiGen :: "u64 \<Rightarrow> nat" where
  "chiGen c = unat (CHI_BF_GET CHILI_BF_GEN c)"

definition chiRefType :: "u64 \<Rightarrow> nat \<Rightarrow> bool" where
  "chiRefType c t \<longleftrightarrow>
     c AND (CHILI_REFTAG OR CHI_BF_SHIFTED_MASK CHILI_BF_TYPE) = CHILI_REFTAG OR push_bit 0 (of_nat t)"

definition chiRefMajor :: "u64 \<Rightarrow> bool" where
  "chiRefMajor c \<longleftrightarrow>
     c AND (CHILI_REFTAG OR CHI_BF_SHIFTED_MASK CHILI_BF_GEN) = CHILI_REFTAG OR push_bit 15 (of_nat CHI_GEN_MAJOR)"

definition chiWrap :: "nat \<Rightarrow> nat \<Rightarrow> nat \<Rightarrow> nat \<Rightarrow> u64" where
  "chiWrap p s t g =
     CHILI_REFTAG OR CHI_BF_INIT CHILI_BF_PTR_START (of_nat p) OR CHI_BF_INIT CHILI_BF_SIZE (of_nat s)
       OR CHI_BF_INIT CHILI_BF_TYPE (of_nat t) OR CHI_BF_INIT CHILI_BF_GEN (of_nat g)"

definition chiWrapLarge :: "nat \<Rightarrow> nat \<Rightarrow> nat \<Rightarrow> u64" where
  "chiWrapLarge p s t = chiWrap p (min s (unat CHILI_LARGE)) t CHI_GEN_MAJOR"

definition chiNewEmpty :: "nat \<Rightarrow> u64" where
  "chiNewEmpty t = CHILI_EMPTY_REFTAG OR CHI_BF_INIT CHILI_BF_TYPE (of_nat t)"

definition chiEmpty :: "u64 \<Rightarrow> bool" where
  "chiEmpty c \<longleftrightarrow> chiSizeField c = 0"

text \<open>The size of an object: the field, or for large objects the header, which lies one word before the
  payload. \<open>hdr\<close> is the \<^verbatim>\<open>size\<close> field of the header at an address.\<close>

definition chiObjectUnchecked :: "u64 \<Rightarrow> nat" where
  "chiObjectUnchecked c = chiPtrField c - CHI_WORDSIZE"

definition chiSize :: "(nat \<Rightarrow> nat) \<Rightarrow> u64 \<Rightarrow> nat" where
  "chiSize hdr c =
     (let s = chiSizeField c in if s \<noteq> unat CHILI_LARGE then s else hdr (chiObjectUnchecked c))"

definition chiSuccess :: "u64 \<Rightarrow> bool" where
  "chiSuccess c \<longleftrightarrow> \<not> chiRefType c CHI_FAIL"

definition chiTag :: "u64 \<Rightarrow> nat" where
  "chiTag c = chiType c"

definition chiIdentical :: "u64 \<Rightarrow> u64 \<Rightarrow> bool" where
  "chiIdentical a b \<longleftrightarrow> a = b"

definition chiTrue :: "u64 \<Rightarrow> bool" where
  "chiTrue c \<longleftrightarrow> c \<noteq> 0"

section \<open>Bit field lemmas\<close>

lemma BF_MASK_mask: "CHI_BF_MASK (s, l, a) = mask l"
  by (simp add: CHI_BF_MASK_def mask_eq_exp_minus_1)

lemma bit_mask_u64: "bit (mask l :: u64) i \<longleftrightarrow> i < l \<and> i < 64"
  by (auto simp: bit_mask_iff)

lemma bit_BF_GET:
  "bit (CHI_BF_GET (s, l, a) x) i \<longleftrightarrow> a \<le> i \<and> i < a + l \<and> i < 64 \<and> bit x (s - a + i)"
  by (auto simp: CHI_BF_GET_def CHI_BF_MAX_def BF_MASK_mask CHI_BF_ALIGNED_SHIFT_def bit_and_iff bit_drop_bit_eq
      bit_push_bit_iff bit_mask_u64)

lemma bit_BF_INIT:
  "bit (CHI_BF_INIT (s, l, a) x) i \<longleftrightarrow> s - a \<le> i \<and> i < 64 \<and> bit x (i - (s - a))"
  by (auto simp: CHI_BF_INIT_def CHI_BF_ALIGNED_SHIFT_def bit_push_bit_iff)

lemma bit_BF_SHIFTED_MASK: "bit (CHI_BF_SHIFTED_MASK (s, l, a)) i \<longleftrightarrow> s \<le> i \<and> i < s + l \<and> i < 64"
  by (auto simp: CHI_BF_SHIFTED_MASK_def BF_MASK_mask bit_push_bit_iff bit_mask_u64)

lemma bit_of_nat_u64: "bit (of_nat v :: u64) i \<longleftrightarrow> i < 64 \<and> bit v i"
  by (simp add: bit_of_nat_iff)

lemma bit_bound_nat: "v < 2 ^ m \<Longrightarrow> bit v i \<Longrightarrow> i < m" for v :: nat
  by (metis bit_take_bit_iff take_bit_nat_eq_self)

lemma bit_aligned_nat: "2 ^ k dvd v \<Longrightarrow> bit v i \<Longrightarrow> k \<le> i" for v :: nat
  by (metis bit_push_bit_iff dvdE mult.commute push_bit_eq_mult)

lemma CHILI_REFTAG_eq: "CHILI_REFTAG = 0xFFF0000000000000"
  by (simp add: CHILI_REFTAG_def CHI_BF_SHIFTED_MASK_def CHI_BF_MASK_def CHILI_BF_REFTAG_def)

lemma CHILI_LARGE_eq [simp]: "unat CHILI_LARGE = 63"
  by (simp add: CHILI_LARGE_def CHI_BF_MAX_def CHI_BF_MASK_def CHILI_BF_SIZE_def)

lemma CHI_GEN_MAJOR_eq [simp]: "CHI_GEN_MAJOR = 7"
  by (simp add: CHI_GEN_MAJOR_def CHI_BF_MAX_def CHI_BF_MASK_def CHILI_BF_GEN_def)

lemma bit_REFTAG: "bit CHILI_REFTAG i \<longleftrightarrow> 52 \<le> i \<and> i < 64"
  by (auto simp: CHILI_REFTAG_def CHILI_BF_REFTAG_def bit_BF_SHIFTED_MASK)

section \<open>Packing and reading references\<close>

lemmas layout_defs = CHILI_BF_TYPE_def CHILI_BF_SIZE_def CHILI_BF_GEN_def CHILI_BF_PTR_def CHILI_BF_PTR_START_def

definition wrap_ok :: "nat \<Rightarrow> nat \<Rightarrow> nat \<Rightarrow> nat \<Rightarrow> bool" where
  "wrap_ok p s t g \<longleftrightarrow> 8 dvd p \<and> CHI_CHUNK_START \<le> p \<and> p < CHI_CHUNK_START + CHI_CHUNK_MAX_SIZE \<and>
     0 < s \<and> s \<le> unat CHILI_LARGE \<and> t \<le> CHI_LAST_TYPE \<and> g \<le> CHI_GEN_MAJOR"

lemma wrap_ok_bounds:
  assumes "wrap_ok p s t g"
  shows "bit p i \<Longrightarrow> 3 \<le> i \<and> i < 38" "bit p 37" "bit s i \<Longrightarrow> i < 6" "bit t i \<Longrightarrow> i < 9" "bit g i \<Longrightarrow> i < 3"
    "p < 2 ^ 38" "s < 2 ^ 6" "t < 2 ^ 9" "g < 2 ^ 3"
proof -
  have b: "8 dvd p" "2 ^ 37 \<le> p" "p < 2 ^ 38" "s < 2 ^ 6" "t < 2 ^ 9" "g < 2 ^ 3"
    using assms by (simp_all add: wrap_ok_def CHI_CHUNK_START_def CHI_CHUNK_MAX_SIZE_def chili_types)
  then show "p < 2 ^ 38" "s < 2 ^ 6" "t < 2 ^ 9" "g < 2 ^ 3" by blast+
  show "bit p i \<Longrightarrow> 3 \<le> i \<and> i < 38" using bit_bound_nat [OF b(3)] bit_aligned_nat [of 3 p i] b(1) by simp
  show "bit s i \<Longrightarrow> i < 6" "bit t i \<Longrightarrow> i < 9" "bit g i \<Longrightarrow> i < 3"
    using bit_bound_nat [OF b(4)] bit_bound_nat [OF b(5)] bit_bound_nat [OF b(6)] by blast+
  have "p div 2 ^ 37 = 1" using b(2,3) by (intro div_nat_eqI) simp_all
  then show "bit p 37" by (simp add: bit_nat_def)
qed

lemma bit_chiWrap:
  "bit (chiWrap p s t g) i \<longleftrightarrow> i < 64 \<and> (52 \<le> i \<or> 15 \<le> i \<and> bit p (i - 15) \<or> 9 \<le> i \<and> bit s (i - 9) \<or> bit t i \<or>
     15 \<le> i \<and> bit g (i - 15))"
  unfolding chiWrap_def layout_defs by (auto simp: bit_or_iff bit_REFTAG bit_BF_INIT bit_of_nat_u64)

lemma unat_eqI_bits: "(\<And>i. i < 64 \<Longrightarrow> bit w i \<longleftrightarrow> bit v i) \<Longrightarrow> v < 2 ^ 64 \<Longrightarrow> unat (w :: u64) = v"
proof -
  assume eq: "\<And>i. i < 64 \<Longrightarrow> bit w i \<longleftrightarrow> bit v i" and v: "v < 2 ^ 64"
  have "w = of_nat v" by (rule bit_eqI) (simp add: bit_of_nat_u64 eq)
  then show ?thesis using v by (simp add: unsigned_of_nat take_bit_nat_eq_self)
qed

lemma wrap_type: assumes w: "wrap_ok p s t g" shows "chiType (chiWrap p s t g) = t"
  unfolding chiType_def layout_defs
proof (rule unat_eqI_bits)
  fix i
  show "bit (CHI_BF_GET (0, 9, 0) (chiWrap p s t g)) i \<longleftrightarrow> bit t i" if "i < 64"
    using that wrap_ok_bounds(4) [OF w, of i] wrap_ok_bounds(1) [OF w, of "i - 15"] by (auto simp: bit_BF_GET bit_chiWrap)
qed (use wrap_ok_bounds(8) [OF w] in simp)

lemma wrap_size: assumes w: "wrap_ok p s t g" shows "chiSizeField (chiWrap p s t g) = s"
  unfolding chiSizeField_def layout_defs
proof (rule unat_eqI_bits)
  fix i
  show "bit (CHI_BF_GET (9, 6, 0) (chiWrap p s t g)) i \<longleftrightarrow> bit s i" if "i < 64"
    using that wrap_ok_bounds(3) [OF w, of i] wrap_ok_bounds(4) [OF w, of "9 + i"] by (auto simp: bit_BF_GET bit_chiWrap)
qed (use wrap_ok_bounds(7) [OF w] in simp)

lemma wrap_gen: assumes w: "wrap_ok p s t g" shows "chiGen (chiWrap p s t g) = g"
  unfolding chiGen_def layout_defs
proof (rule unat_eqI_bits)
  fix i
  show "bit (CHI_BF_GET (15, 3, 0) (chiWrap p s t g)) i \<longleftrightarrow> bit g i" if "i < 64"
    using that wrap_ok_bounds(5) [OF w, of i] wrap_ok_bounds(4) [OF w, of "15 + i"] wrap_ok_bounds(3) [OF w, of "6 + i"]
      wrap_ok_bounds(1) [OF w, of i]
    by (auto simp: bit_BF_GET bit_chiWrap)
qed (use wrap_ok_bounds(9) [OF w] in simp)

lemma wrap_ptr: assumes w: "wrap_ok p s t g" shows "chiPtrField (chiWrap p s t g) = p"
  unfolding chiPtrField_def layout_defs
proof (rule unat_eqI_bits)
  fix i
  show "bit (CHI_BF_GET (18, 35, 3) (chiWrap p s t g)) i \<longleftrightarrow> bit p i" if "i < 64"
  proof (cases "i = 37")
    case True
    then show ?thesis using wrap_ok_bounds(2) [OF w] by (simp add: bit_BF_GET bit_chiWrap)
  next
    case False
    then show ?thesis
      using that wrap_ok_bounds(1) [OF w, of i] wrap_ok_bounds(4) [OF w, of "15 + i"] wrap_ok_bounds(3) [OF w, of "6 + i"]
        wrap_ok_bounds(5) [OF w, of i]
      by (auto simp: bit_BF_GET bit_chiWrap)
  qed
qed (use wrap_ok_bounds(6) [OF w] in simp)

text \<open>Values above the reference tag are those with all tag bits set and another bit.\<close>

lemma REFTAG_and: "c AND CHILI_REFTAG = CHILI_REFTAG \<longleftrightarrow> CHILI_REFTAG \<le> c"
proof
  assume "c AND CHILI_REFTAG = CHILI_REFTAG"
  then show "CHILI_REFTAG \<le> c" by (metis word_and_le2)
next
  assume "CHILI_REFTAG \<le> c"
  then have "0xFFF0000000000000 \<le> unat c" by (simp add: CHILI_REFTAG_eq word_le_nat_alt)
  moreover have "unat c < 2 ^ 64" using unat_u64_lt [of c] by simp
  ultimately have "unat c div 2 ^ 52 = 0xFFF" by (intro div_nat_eqI) simp_all
  moreover have "unat (mask 12 :: u64) = 0xFFF" by (simp add: mask_eq_exp_minus_1)
  ultimately have drop: "drop_bit 52 c = mask 12" by (intro word_unat_eq_iff [THEN iffD2]) (simp add: unat_drop_bit)
  have "bit c i" if "52 \<le> i" "i < 64" for i
  proof -
    have "bit (drop_bit 52 c) (i - 52)" using that by (simp only: drop bit_mask_u64) linarith
    then show ?thesis using that by (simp add: bit_drop_bit_eq)
  qed
  then show "c AND CHILI_REFTAG = CHILI_REFTAG"
    by (intro bit_eqI) (auto simp: bit_and_iff bit_REFTAG)
qed

lemma wrap_ref:
  assumes w: "wrap_ok p s t g" shows "chiRef (chiWrap p s t g)" "\<not> chiUnboxed63 (chiWrap p s t g)"
proof -
  let ?c = "chiWrap p s t g"
  have "?c AND CHILI_REFTAG = CHILI_REFTAG" by (intro bit_eqI) (auto simp: bit_and_iff bit_REFTAG bit_chiWrap)
  moreover have "chiSizeField CHILI_REFTAG = 0" by (simp add: chiSizeField_def CHI_BF_GET_def CHI_BF_MAX_def CHI_BF_MASK_def
        CHI_BF_ALIGNED_SHIFT_def layout_defs CHILI_REFTAG_eq)
  then have "?c \<noteq> CHILI_REFTAG" using wrap_size [OF w] w by (auto simp: wrap_ok_def)
  ultimately show "chiRef ?c" using REFTAG_and [of ?c] by (auto simp: chiRef_def)
  have "bit (drop_bit 63 ?c) 0" by (simp add: bit_drop_bit_eq bit_chiWrap)
  then show "\<not> chiUnboxed63 ?c" by (auto simp: chiUnboxed63_def chiFitsUnboxed63_def)
qed

text \<open>The branchless tests are the conjunctions they stand for.\<close>

lemma and_two_fields:
  assumes "A AND B = 0" "x AND A = x" "y AND B = y"
  shows "c AND (A OR B) = x OR y \<longleftrightarrow> c AND A = x \<and> c AND B = (y :: 'a :: len word)"
proof
  assume eq: "c AND (A OR B) = x OR y"
  have "c AND A = (c AND (A OR B)) AND A" by (intro bit_eqI) (auto simp: bit_and_iff bit_or_iff)
  also have "\<dots> = x" unfolding eq using assms by (metis (no_types) and.assoc and.commute and.right_neutral
        bit.conj_disj_distrib2 bit.conj_zero_right or.right_neutral)
  finally have 1: "c AND A = x" .
  have "c AND B = (c AND (A OR B)) AND B" by (intro bit_eqI) (auto simp: bit_and_iff bit_or_iff)
  also have "\<dots> = y" unfolding eq using assms by (metis (no_types) and.assoc and.commute and.right_neutral
        bit.conj_disj_distrib2 bit.conj_zero_right or.left_neutral)
  finally show "c AND A = x \<and> c AND B = y" using 1 by simp
next
  assume "c AND A = x \<and> c AND B = y"
  then show "c AND (A OR B) = x OR y" by (simp add: bit.conj_disj_distrib)
qed

lemma field_test:
  assumes sl: "s + l \<le> 64" and v: "v < 2 ^ l"
  shows "c AND CHI_BF_SHIFTED_MASK (s, l, 0) = push_bit s (of_nat v) \<longleftrightarrow> unat (CHI_BF_GET (s, l, 0) c) = v"
    and "push_bit s (of_nat v) AND CHI_BF_SHIFTED_MASK (s, l, 0) = push_bit s (of_nat v)"
proof -
  let ?M = "CHI_BF_SHIFTED_MASK (s, l, 0)" and ?v = "of_nat v :: u64"
  have bv: "bit v i \<Longrightarrow> i < l" for i using bit_bound_nat [OF v] .
  show "push_bit s ?v AND ?M = push_bit s ?v"
    by (intro bit_eqI) (auto simp: bit_and_iff bit_push_bit_iff bit_BF_SHIFTED_MASK bit_of_nat_u64 dest: bv)
  have 1: "push_bit s (CHI_BF_GET (s, l, 0) c) = c AND ?M"
    using sl by (intro bit_eqI) (auto simp: bit_and_iff bit_push_bit_iff bit_BF_SHIFTED_MASK bit_BF_GET)
  have 2: "CHI_BF_GET (s, l, 0) c = drop_bit s (c AND ?M)"
    using sl by (intro bit_eqI) (auto simp: bit_and_iff bit_drop_bit_eq bit_BF_SHIFTED_MASK bit_BF_GET)
  have 3: "drop_bit s (push_bit s ?v) = ?v"
    using sl by (intro bit_eqI) (auto simp: bit_drop_bit_eq bit_push_bit_iff bit_of_nat_u64 dest: bv)
  have "v < 2 ^ 64" using v sl by (meson add_leD2 less_le_trans one_le_numeral power_increasing)
  then have 4: "unat ?v = v" by (simp add: unsigned_of_nat take_bit_nat_eq_self)
  show "c AND ?M = push_bit s ?v \<longleftrightarrow> unat (CHI_BF_GET (s, l, 0) c) = v"
    using 1 2 3 4 by (metis word_unat_eq_iff)
qed

text \<open>The branchless type and generation tests agree with the tests they replace, on every word.\<close>

lemma refType_iff:
  assumes t: "0 < t" "t \<le> CHI_LAST_TYPE"
  shows "chiRefType c t \<longleftrightarrow> chiRef c \<and> chiType c = t"
proof -
  have t9: "t < 2 ^ 9" using t(2) by (simp add: chili_types)
  have "CHILI_REFTAG AND CHI_BF_SHIFTED_MASK (0, 9, 0) = 0"
    by (intro bit_eqI) (auto simp: bit_and_iff bit_REFTAG bit_BF_SHIFTED_MASK)
  then have "chiRefType c t \<longleftrightarrow> c AND CHILI_REFTAG = CHILI_REFTAG \<and> c AND CHI_BF_SHIFTED_MASK (0, 9, 0) = push_bit 0 (of_nat t)"
    unfolding chiRefType_def CHILI_BF_TYPE_def using field_test(2) [of 0 9 t, OF _ t9] by (intro and_two_fields) simp_all
  also have "\<dots> \<longleftrightarrow> CHILI_REFTAG \<le> c \<and> chiType c = t"
    unfolding REFTAG_and chiType_def CHILI_BF_TYPE_def using field_test(1) [of 0 9 t c, OF _ t9] by simp
  also have "\<dots> \<longleftrightarrow> chiRef c \<and> chiType c = t"
  proof -
    have "chiType CHILI_REFTAG = 0" by (simp add: chiType_def CHI_BF_GET_def CHI_BF_MAX_def CHI_BF_MASK_def
        CHI_BF_ALIGNED_SHIFT_def layout_defs CHILI_REFTAG_eq)
    then show ?thesis using t(1) by (auto simp: chiRef_def order.order_iff_strict)
  qed
  finally show ?thesis .
qed

lemma refMajor_iff: "chiRefMajor c \<longleftrightarrow> chiRef c \<and> chiGen c = CHI_GEN_MAJOR"
proof -
  have "CHILI_REFTAG AND CHI_BF_SHIFTED_MASK (15, 3, 0) = 0"
    by (intro bit_eqI) (auto simp: bit_and_iff bit_REFTAG bit_BF_SHIFTED_MASK)
  then have "chiRefMajor c \<longleftrightarrow> c AND CHILI_REFTAG = CHILI_REFTAG \<and> c AND CHI_BF_SHIFTED_MASK (15, 3, 0) = push_bit 15 (of_nat CHI_GEN_MAJOR)"
    unfolding chiRefMajor_def CHILI_BF_GEN_def using field_test(2) [of 15 3 CHI_GEN_MAJOR] by (intro and_two_fields) simp_all
  also have "\<dots> \<longleftrightarrow> CHILI_REFTAG \<le> c \<and> chiGen c = CHI_GEN_MAJOR"
    unfolding REFTAG_and chiGen_def CHILI_BF_GEN_def using field_test(1) [of 15 3 CHI_GEN_MAJOR c] by simp
  also have "\<dots> \<longleftrightarrow> chiRef c \<and> chiGen c = CHI_GEN_MAJOR"
  proof -
    have "chiGen CHILI_REFTAG = 0" by (simp add: chiGen_def CHI_BF_GET_def CHI_BF_MAX_def CHI_BF_MASK_def
        CHI_BF_ALIGNED_SHIFT_def layout_defs CHILI_REFTAG_eq)
    then show ?thesis by (auto simp: chiRef_def order.order_iff_strict)
  qed
  finally show ?thesis .
qed

section \<open>Unboxed values\<close>

definition chiToUInt32 :: "u64 \<Rightarrow> u32" where "chiToUInt32 c = ucast (chiToUnboxed c)"
definition chiFromUInt32 :: "u32 \<Rightarrow> u64" where "chiFromUInt32 v = chiFromUnboxed (ucast v)"
definition chiFromInt32 :: "u32 \<Rightarrow> u64" where "chiFromInt32 v = chiFromUInt32 v"
definition chiToInt32 :: "u64 \<Rightarrow> u32" where "chiToInt32 c = chiToUInt32 c"

text \<open>\<^verbatim>\<open>object/sized.h\<close>: the widening to 32 bits keeps the sign of the signed types.\<close>

definition chiFromInt8 :: "u8 \<Rightarrow> u64" where "chiFromInt8 v = chiFromUInt32 (scast v)"
definition chiToInt8 :: "u64 \<Rightarrow> u8" where "chiToInt8 c = ucast (chiToUInt32 c)"
definition chiFromUInt8 :: "u8 \<Rightarrow> u64" where "chiFromUInt8 v = chiFromUInt32 (ucast v)"
definition chiToUInt8 :: "u64 \<Rightarrow> u8" where "chiToUInt8 c = ucast (chiToUInt32 c)"
definition chiFromInt16 :: "u16 \<Rightarrow> u64" where "chiFromInt16 v = chiFromUInt32 (scast v)"
definition chiToInt16 :: "u64 \<Rightarrow> u16" where "chiToInt16 c = ucast (chiToUInt32 c)"
definition chiFromUInt16 :: "u16 \<Rightarrow> u64" where "chiFromUInt16 v = chiFromUInt32 (ucast v)"
definition chiToUInt16 :: "u64 \<Rightarrow> u16" where "chiToUInt16 c = ucast (chiToUInt32 c)"

definition chiFromBool :: "bool \<Rightarrow> u64" where "chiFromBool b = chiFromUnboxed (of_bool b)"
definition chiToBool :: "u64 \<Rightarrow> bool" where "chiToBool c \<longleftrightarrow> c \<noteq> 0"
definition chiFromPtr :: "u64 \<Rightarrow> u64" where "chiFromPtr p = chiFromUnboxed p"
definition chiToPtr :: "u64 \<Rightarrow> u64" where "chiToPtr c = chiToUnboxed c"

text \<open>Integers of 63 bits (\<^verbatim>\<open>object/box.h\<close>). The signed right shift of the source is arithmetic.\<close>

definition chiInt64Unboxed :: "u64 \<Rightarrow> bool" where
  "chiInt64Unboxed i \<longleftrightarrow> signed_drop_bit 1 (push_bit 1 i) = i"

definition chiInt64Pack :: "u64 \<Rightarrow> u64" where
  "chiInt64Pack i = chiFromUnboxed (drop_bit 1 (push_bit 1 i))"

definition chiInt64Unpack :: "u64 \<Rightarrow> u64" where
  "chiInt64Unpack c = signed_drop_bit 1 (push_bit 1 (chiToUnboxed c))"

text \<open>\<^verbatim>\<open>chiBoxNew\<close> stores the word in a fresh one-word object of the nursery at \<open>p\<close>; \<open>m\<close> is the memory of
  words.\<close>

definition chiBoxNew :: "nat \<Rightarrow> (nat \<Rightarrow> u64) \<Rightarrow> u64 \<Rightarrow> u64 \<times> (nat \<Rightarrow> u64)" where
  "chiBoxNew p m v = (chiWrap p 1 CHI_BOX CHI_GEN_NURSERY, m(p := v))"

definition chiFromUInt64 :: "nat \<Rightarrow> (nat \<Rightarrow> u64) \<Rightarrow> u64 \<Rightarrow> u64 \<times> (nat \<Rightarrow> u64)" where
  "chiFromUInt64 p m i = (if chiFitsUnboxed63 i then (chiFromUnboxed i, m) else chiBoxNew p m i)"

definition chiToUInt64 :: "(nat \<Rightarrow> u64) \<Rightarrow> u64 \<Rightarrow> u64" where
  "chiToUInt64 m c = (if chiUnboxed63 c then chiToUnboxed c else m (chiPtrField c))"

definition chiFromInt64 :: "nat \<Rightarrow> (nat \<Rightarrow> u64) \<Rightarrow> u64 \<Rightarrow> u64 \<times> (nat \<Rightarrow> u64)" where
  "chiFromInt64 p m i = (if chiInt64Unboxed i then (chiInt64Pack i, m) else chiBoxNew p m i)"

definition chiToInt64 :: "(nat \<Rightarrow> u64) \<Rightarrow> u64 \<Rightarrow> u64" where
  "chiToInt64 m c = (if chiUnboxed63 c then chiInt64Unpack c else m (chiPtrField c))"

text \<open>Doubles are given by their bits; \<open>is_nan\<close> is the comparison \<^verbatim>\<open>f == f\<close> negated.\<close>

definition is_nan :: "u64 \<Rightarrow> bool" where
  "is_nan b \<longleftrightarrow> drop_bit 52 b AND 0x7FF = 0x7FF \<and> b AND mask 52 \<noteq> 0"

definition chiFromFloat64 :: "u64 \<Rightarrow> u64" where
  "chiFromFloat64 b = (if \<not> is_nan b then b else CHILI_NAN)"

definition chiToFloat64 :: "u64 \<Rightarrow> u64" where
  "chiToFloat64 c = c"

text \<open>The bitmaps.\<close>

definition chiBitGet :: "u64 list \<Rightarrow> nat \<Rightarrow> bool" where
  "chiBitGet bits n = (drop_bit (n AND 63) (bits ! (n div 64)) AND 1 \<noteq> 0)"

definition chiBitSet :: "u64 list \<Rightarrow> nat \<Rightarrow> bool \<Rightarrow> u64 list \<times> bool" where
  "chiBitSet bits n x =
     (let s = n AND 63; old = bits ! (n div 64)
      in (bits[n div 64 := (old AND NOT (push_bit s 1)) OR push_bit s (of_bool x)], drop_bit s old AND 1 \<noteq> 0))"

text \<open>Conversion of a double to an integer by unpacking it. The multiplication by the sign is a negation
  on machine words.\<close>

definition chiFloat64ToInt64 :: "u64 \<Rightarrow> u64" where
  "chiFloat64ToInt64 bits =
     (let e = int (unat (drop_bit 52 bits AND 0x7FF)) in
      if e = 0x7FF then 0
      else
        let e = e - (1023 + 52);
            frac = (bits AND drop_bit 12 (- 1)) OR push_bit 52 1
        in if e < - 63 \<or> 63 < e then 0
           else
             let a = (if e < 0 then signed_drop_bit (nat (- e)) frac else push_bit (nat e) frac)
             in if drop_bit 63 bits \<noteq> 0 then - a else a)"

section \<open>Unboxed values round trip\<close>

lemma bit_lt_64: "bit (c :: u64) i \<Longrightarrow> i < 64"
  using bit_imp_le_length [of c i] by simp

lemma bit_unpack: "bit (chiInt64Unpack c) i \<longleftrightarrow> i < 64 \<and> bit c (if i = 63 then 62 else i)"
  unfolding chiInt64Unpack_def chiToUnboxed_def bit_signed_drop_bit_iff bit_push_bit_iff
  by (auto dest: bit_lt_64)

lemma int64Unboxed_unpack: "chiInt64Unboxed i \<longleftrightarrow> chiInt64Unpack i = i"
  unfolding chiInt64Unboxed_def chiInt64Unpack_def chiToUnboxed_def by (rule refl)

lemma int64Unboxed_bits: "chiInt64Unboxed i \<longleftrightarrow> bit i 63 = bit i 62"
proof
  assume "chiInt64Unboxed i"
  then have "bit (chiInt64Unpack i) 63 = bit i 63" by (simp add: int64Unboxed_unpack)
  then show "bit i 63 = bit i 62" by (simp add: bit_unpack)
next
  assume eq: "bit i 63 = bit i 62"
  show "chiInt64Unboxed i"
    unfolding int64Unboxed_unpack by (intro bit_eqI) (auto simp: bit_unpack eq)
qed

lemma bit_pack: "bit (chiInt64Pack i) n \<longleftrightarrow> n < 63 \<and> bit i n"
  unfolding chiInt64Pack_def chiFromUnboxed_def bit_drop_bit_eq o_def bit_push_bit_iff by auto

lemma unboxed63_bit: "chiUnboxed63 c \<longleftrightarrow> \<not> bit c 63"
proof -
  have "bit (drop_bit 63 c) n \<longleftrightarrow> n = 0 \<and> bit c 63" for n
    using bit_lt_64 [of c "63 + n"] by (cases n) (auto simp: bit_drop_bit_eq)
  then have "drop_bit 63 c = 0 \<longleftrightarrow> \<not> bit c 63" by (metis bit_0_eq bit_eqI bot_apply bot_bool_def)
  then show ?thesis by (simp add: chiUnboxed63_def chiFitsUnboxed63_def)
qed

lemma pack_unboxed [simp]: "chiUnboxed63 (chiInt64Pack i)"
  by (simp add: unboxed63_bit bit_pack)

lemma unpack_pack: "chiInt64Unboxed i \<Longrightarrow> chiInt64Unpack (chiInt64Pack i) = i"
  by (intro bit_eqI) (auto simp: bit_unpack bit_pack int64Unboxed_bits split: if_splits dest: bit_lt_64)

lemma pack_unpack: "chiUnboxed63 c \<Longrightarrow> chiInt64Pack (chiInt64Unpack c) = c"
proof (rule bit_eqI)
  fix n assume "chiUnboxed63 c"
  then show "bit (chiInt64Pack (chiInt64Unpack c)) n \<longleftrightarrow> bit c n"
    using bit_lt_64 [of c n] by (cases "n = 63") (auto simp: bit_unpack bit_pack unboxed63_bit)
qed

lemma unpack_Unboxed [simp]: "chiInt64Unboxed (chiInt64Unpack c)"
  by (simp add: int64Unboxed_bits bit_unpack)

text \<open>The 63-bit integers are those from \<open>- 2 ^ 62\<close> to \<open>2 ^ 62 - 1\<close>.\<close>

lemma int64Unboxed_range: "chiInt64Unboxed i \<longleftrightarrow> - (2 ^ 62) \<le> sint i \<and> sint i < 2 ^ 62"
proof -
  have b: "bit i n \<longleftrightarrow> odd (uint i div 2 ^ n)" if "n < 64" for n
  proof -
    have "bit (uint i) n \<longleftrightarrow> bit i n" using that by (simp add: bit_uint_iff)
    then show ?thesis by (simp add: bit_iff_odd)
  qed
  have u: "0 \<le> uint i" "uint i < 2 ^ 64" using uint_lt2p [of i] by simp_all
  define q where "q = uint i div 2 ^ 62"
  have q: "0 \<le> q" "q < 4" "2 ^ 62 * q \<le> uint i" "uint i < 2 ^ 62 * q + 2 ^ 62"
    using u unfolding q_def by (simp_all add: pos_imp_zdiv_nonneg_iff)
  have "uint i div 2 ^ 63 = q div 2" unfolding q_def by (simp flip: zdiv_zmult2_eq)
  then have "chiInt64Unboxed i \<longleftrightarrow> (odd (q div 2) = odd q)"
    unfolding int64Unboxed_bits using b [of 63] b [of 62] by (simp add: q_def)
  also have "\<dots> \<longleftrightarrow> q = 0 \<or> q = 3" using q(1,2) by presburger
  also have "\<dots> \<longleftrightarrow> - (2 ^ 62) \<le> sint i \<and> sint i < 2 ^ 62"
    using q u by (auto simp: sint_uint_if)
  finally show ?thesis .
qed

lemma unboxed63_less: "chiUnboxed63 c \<longleftrightarrow> unat c < 2 ^ 63"
proof -
  have "chiUnboxed63 c \<longleftrightarrow> unat c div 2 ^ 63 = 0"
    unfolding chiUnboxed63_def chiFitsUnboxed63_def by (simp add: word_unat_eq_iff unat_drop_bit)
  then show ?thesis by (simp add: div_eq_0_iff)
qed

lemma unboxed63_not_ref: "chiUnboxed63 c \<Longrightarrow> \<not> chiRef c"
  by (simp add: unboxed63_less chiRef_def CHILI_REFTAG_eq word_less_nat_alt)

lemma ucast32_unboxed [simp]: "chiUnboxed63 (ucast (v :: u32))"
proof -
  have "unat (ucast v :: u64) = unat v" 
    unfolding unsigned_ucast_eq by (rule take_bit_nat_eq_self, rule less_trans [OF unat_u32_lt]) simp
  then show ?thesis using less_trans [OF unat_u32_lt [of v], of "2 ^ 63"] by (simp add: unboxed63_less)
qed

text \<open>A word above the reference tag is a negative NaN pattern.\<close>

lemma ref_nan:
  assumes "chiRef c" shows "is_nan c"
proof -
  have "c AND CHILI_REFTAG = CHILI_REFTAG" using assms REFTAG_and [of c] by (simp add: chiRef_def)
  then have b: "bit c i" if "52 \<le> i" "i < 64" for i using that bit_REFTAG [of i] by (metis bit_and_iff)
  have e: "drop_bit 52 c AND 0x7FF = 0x7FF"
  proof -
    have "drop_bit 52 c AND mask 11 = mask 11"
      by (intro bit_eqI) (auto simp: bit_and_iff bit_drop_bit_eq bit_mask_u64 intro: b)
    then show ?thesis by (simp add: mask_eq_exp_minus_1)
  qed
  moreover have "c AND mask 52 \<noteq> 0"
  proof
    assume "c AND mask 52 = 0"
    have low: "\<not> bit c i" if i: "i < 52" for i
    proof
      assume "bit c i"
      then have "bit (c AND mask 52) i" using i by (simp add: bit_and_iff bit_mask_u64)
      then show False by (simp add: \<open>c AND mask 52 = 0\<close>)
    qed
    have "c = CHILI_REFTAG"
      by (intro bit_eqI) (use b bit_REFTAG low bit_lt_64 in \<open>metis not_less\<close>)
    then show False using assms by (simp add: chiRef_def)
  qed
  ultimately show ?thesis by (simp add: is_nan_def)
qed

lemma NAN_not_ref: "\<not> chiRef CHILI_NAN" "is_nan CHILI_NAN"
  by (simp_all add: chiRef_def CHILI_NAN_def CHILI_REFTAG_eq is_nan_def mask_eq_exp_minus_1)

lemma float64_not_ref: "\<not> chiRef (chiFromFloat64 b)"
  using ref_nan [of b] NAN_not_ref by (auto simp: chiFromFloat64_def)

lemma box_fits: "wrap_ok p 1 CHI_BOX CHI_GEN_NURSERY \<longleftrightarrow> 8 dvd p \<and> CHI_CHUNK_START \<le> p \<and> p < CHI_CHUNK_START + CHI_CHUNK_MAX_SIZE"
  by (simp add: wrap_ok_def CHI_GEN_NURSERY_def chili_types)

lemma int64_roundtrip:
  assumes p: "wrap_ok p 1 CHI_BOX CHI_GEN_NURSERY"
  shows "(case chiFromInt64 p m i of (c, m') \<Rightarrow> chiToInt64 m' c) = i"
    and "(case chiFromUInt64 p m i of (c, m') \<Rightarrow> chiToUInt64 m' c) = i"
  using wrap_ptr [OF p] wrap_ref(2) [OF p]
  by (auto simp: chiFromInt64_def chiToInt64_def chiFromUInt64_def chiToUInt64_def chiBoxNew_def unpack_pack
      chiFromUnboxed_def chiToUnboxed_def chiUnboxed63_def [symmetric])

lemma sized_roundtrip:
  "chiToUInt32 (chiFromUInt32 a) = a" "chiToInt32 (chiFromInt32 a) = a" "chiToInt8 (chiFromInt8 b) = b"
  "chiToUInt8 (chiFromUInt8 b) = b" "chiToInt16 (chiFromInt16 d) = d" "chiToUInt16 (chiFromUInt16 d) = d"
  by (rule bit_word_eqI, simp add: chiToUInt32_def chiFromUInt32_def chiToInt32_def chiFromInt32_def chiToInt8_def chiFromInt8_def
      chiToUInt8_def chiFromUInt8_def chiToInt16_def chiFromInt16_def chiToUInt16_def chiFromUInt16_def
      chiFromUnboxed_def chiToUnboxed_def bit_ucast_iff bit_signed_iff)+

lemma sized_unboxed:
  "\<not> chiRef (chiFromUInt32 a)" "\<not> chiRef (chiFromInt32 a)" "\<not> chiRef (chiFromInt8 b)" "\<not> chiRef (chiFromUInt8 b)"
  "\<not> chiRef (chiFromInt16 d)" "\<not> chiRef (chiFromUInt16 d)"
  by (simp_all add: chiFromUInt32_def chiFromInt32_def chiFromInt8_def chiFromUInt8_def chiFromInt16_def
      chiFromUInt16_def chiFromUnboxed_def unboxed63_not_ref)

text \<open>The bitmaps.\<close>

lemma and_63: "n AND 63 = n mod 64" for n :: nat
  using take_bit_eq_mask [of 6 n] by (simp add: take_bit_eq_mod mask_eq_exp_minus_1)

lemma bit_and_1: "w AND 1 \<noteq> 0 \<longleftrightarrow> bit w 0" for w :: u64
  by (simp add: bit_0 and_one_eq odd_iff_mod_2_eq_one)

lemma bitGet_bit: "chiBitGet bits n \<longleftrightarrow> bit (bits ! (n div 64)) (n mod 64)"
  unfolding chiBitGet_def bit_and_1 and_63 by (simp add: bit_drop_bit_eq)

lemma bitSet_get:
  assumes n: "n div 64 < length bits" and k: "k div 64 < length bits"
  shows "chiBitGet (fst (chiBitSet bits n x)) k = (if k = n then x else chiBitGet bits k)"
    and "snd (chiBitSet bits n x) = chiBitGet bits n" and "length (fst (chiBitSet bits n x)) = length bits"
proof -
  let ?s = "n mod 64"
  let ?w = "(bits ! (n div 64) AND NOT (push_bit ?s 1)) OR push_bit ?s (of_bool x :: u64)"
  have w: "bit ?w j \<longleftrightarrow> (if j = ?s then x else bit (bits ! (n div 64)) j)" if "j < 64" for j
    unfolding bit_or_iff bit_and_iff bit_not_iff bit_push_bit_iff bit_1_iff bit_of_bool_iff
    using that by auto
  show "chiBitGet (fst (chiBitSet bits n x)) k = (if k = n then x else chiBitGet bits k)"
  proof (cases "k div 64 = n div 64")
    case True
    then have "k mod 64 = n mod 64 \<longleftrightarrow> k = n" by (metis div_mult_mod_eq)
    then show ?thesis
      using True n w [of "k mod 64"] by (simp add: bitGet_bit chiBitSet_def Let_def and_63)
  next
    case False
    then show ?thesis by (auto simp: bitGet_bit chiBitSet_def Let_def)
  qed
  show "snd (chiBitSet bits n x) = chiBitGet bits n" "length (fst (chiBitSet bits n x)) = length bits"
    by (simp_all add: chiBitSet_def chiBitGet_def Let_def)
qed

section \<open>Properties\<close>

text \<open>C27: Packing a heap pointer of the chunk arena with its size, type and generation loses nothing: every
  field is read back, the result is a reference, and it is never taken for an unboxed 63-bit value.\<close>

theorem reference_fields:
  assumes "wrap_ok p s t g"
  shows "chiRef (chiWrap p s t g) \<and> \<not> chiUnboxed63 (chiWrap p s t g) \<and> \<not> chiEmpty (chiWrap p s t g) \<and>
    chiType (chiWrap p s t g) = t \<and> chiSizeField (chiWrap p s t g) = s \<and> chiGen (chiWrap p s t g) = g \<and>
    chiPtrField (chiWrap p s t g) = p"
  using wrap_ref [OF assms] wrap_type [OF assms] wrap_size [OF assms] wrap_gen [OF assms] wrap_ptr [OF assms] assms
  by (simp add: chiEmpty_def wrap_ok_def)

lemma reference_fields_witness:
  "chiPtrField (chiWrap 0x2000000008 63 CHI_STRING 7) = 0x2000000008 \<and> chiType (chiWrap 0x2000000008 63 CHI_STRING 7) = CHI_STRING"
  using reference_fields [of "0x2000000008" 63 CHI_STRING 7]
  by (simp add: wrap_ok_def CHI_CHUNK_START_def CHI_CHUNK_MAX_SIZE_def chili_types)

text \<open>C35: The branchless tests for a reference of a given type or of the major generation agree, on every
  word whatever it encodes, with the test for a reference followed by the test of the field.\<close>

theorem branchless_tests:
  assumes "0 < t" "t \<le> CHI_LAST_TYPE"
  shows "(chiRefType c t \<longleftrightarrow> chiRef c \<and> chiType c = t) \<and> (chiRefMajor c \<longleftrightarrow> chiRef c \<and> chiGen c = CHI_GEN_MAJOR)"
  using refType_iff [OF assms] refMajor_iff by blast

lemma branchless_tests_witness:
  "chiRefType 0xFFF0000000000000 CHI_FAIL \<longleftrightarrow> chiRef 0xFFF0000000000000 \<and> chiType 0xFFF0000000000000 = CHI_FAIL"
  using branchless_tests [of CHI_FAIL "0xFFF0000000000000"] by (simp add: chili_types)

text \<open>C36: Unboxed values are never taken for references and are read back unchanged: integers of every
  width (64-bit integers through a box when they need 64 bits), and doubles, where a NaN becomes the
  canonical NaN.\<close>

theorem unboxed_roundtrip:
  assumes "wrap_ok p 1 CHI_BOX CHI_GEN_NURSERY"
  shows "chiToUInt32 (chiFromUInt32 a) = a \<and> chiToInt8 (chiFromInt8 b) = b \<and> chiToInt16 (chiFromInt16 d) = d \<and>
    \<not> chiRef (chiFromUInt32 a) \<and> \<not> chiRef (chiFromInt8 b) \<and> \<not> chiRef (chiFromInt16 d) \<and>
    (case chiFromInt64 p m i of (c, m') \<Rightarrow> chiToInt64 m' c = i \<and> (chiInt64Unboxed i \<longrightarrow> \<not> chiRef c \<and> m' = m)) \<and>
    (case chiFromUInt64 p m i of (c, m') \<Rightarrow> chiToUInt64 m' c = i \<and> (chiFitsUnboxed63 i \<longrightarrow> \<not> chiRef c \<and> m' = m)) \<and>
    \<not> chiRef (chiFromFloat64 f) \<and> chiToFloat64 (chiFromFloat64 f) = (if is_nan f then CHILI_NAN else f)"
  using sized_roundtrip sized_unboxed int64_roundtrip [OF assms, of m i] float64_not_ref
    unboxed63_not_ref [OF pack_unboxed] unboxed63_not_ref [of i]
  by (auto simp: chiFromInt64_def chiFromUInt64_def chiFromUnboxed_def chiUnboxed63_def chiToFloat64_def
      chiFromFloat64_def split: prod.splits)

lemma unboxed_roundtrip_witness:
  "chiToInt64 (snd (chiFromInt64 0x2000000008 (\<lambda>_. 0) 0x8000000000000000))
     (fst (chiFromInt64 0x2000000008 (\<lambda>_. 0) 0x8000000000000000)) = 0x8000000000000000"
proof -
  have "wrap_ok 0x2000000008 1 CHI_BOX CHI_GEN_NURSERY"
    by (simp only: box_fits) (simp add: CHI_CHUNK_START_def CHI_CHUNK_MAX_SIZE_def)
  from unboxed_roundtrip [OF this, where m = "\<lambda>_. 0" and i = "0x8000000000000000" and a = 0 and b = 0 and d = 0 and f = 0]
  show ?thesis by (auto split: prod.splits)
qed

end
