(* ===== verification/BigDigits.thy ===== *)
theory BigDigits
  imports Prelude
begin

text \<open>
  The digit-vector kernel of the big integers, \<^verbatim>\<open>src/native/bigint/znogmp.h\<close>, for the 64-bit digits
  that \<^verbatim>\<open>src/native/bigint.c\<close> selects. A digit vector is the list of its digits, least significant
  first; a routine that writes through \<^verbatim>\<open>r\<close> returns the new vector and the carry that the C
  function returns. \<open>zval\<close> is the number a vector denotes. The lemmas state each routine exactly
  (result and carry), up to the correctness of schoolbook multiplication and of Knuth's algorithm D,
  whose quotient-estimation loop is shown to terminate.
\<close>

type_synonym z_digit = u64
type_synonym digits = "u64 list"

definition zB :: nat where
  "zB = 2 ^ 64"

fun zval :: "digits \<Rightarrow> nat" where
  "zval [] = 0"
| "zval (d # ds) = unat d + zB * zval ds"

definition digit :: "nat \<Rightarrow> z_digit" where
  "digit n = of_nat n"

section \<open>Single digits\<close>

definition zd_dd_mul :: "z_digit \<Rightarrow> z_digit \<Rightarrow> z_digit \<times> z_digit" where
  "zd_dd_mul a b = (digit (unat a * unat b div zB), digit (unat a * unat b))"

definition zd_dd_div :: "z_digit \<Rightarrow> z_digit \<Rightarrow> z_digit \<Rightarrow> z_digit \<times> z_digit" where
  "zd_dd_div ah al b =
     (let w = unat ah * zB + unat al in (digit (w div unat b), digit (w mod unat b)))"

definition of_flag :: "bool \<Rightarrow> z_digit" where
  "of_flag c = (if c then 1 else 0)"

section \<open>Vector routines\<close>

fun zd_shl_loop :: "digits \<Rightarrow> nat \<Rightarrow> z_digit \<Rightarrow> digits \<times> z_digit" where
  "zd_shl_loop [] s c = ([], c)"
| "zd_shl_loop (a # as) s c =
     (let x = push_bit s a OR c; (r, c') = zd_shl_loop as s (drop_bit (64 - s) a)
      in (x # r, c'))"

definition zd_shl :: "digits \<Rightarrow> nat \<Rightarrow> digits \<times> z_digit" where
  "zd_shl a s = zd_shl_loop a s 0"

text \<open>\<^verbatim>\<open>zd_shr\<close> runs from the most significant digit down, so the recursion returns the carry of the
  digits above.\<close>

fun zd_shr :: "digits \<Rightarrow> nat \<Rightarrow> digits \<times> z_digit" where
  "zd_shr [] s = ([], 0)"
| "zd_shr (a # as) s =
     (let (r, c) = zd_shr as s in ((drop_bit s a OR c) # r, push_bit (64 - s) a))"

fun zd_cmp_loop :: "digits \<Rightarrow> digits \<Rightarrow> nat \<Rightarrow> int" where
  "zd_cmp_loop a b 0 = 0"
| "zd_cmp_loop a b (Suc n) =
     (if a ! n \<noteq> b ! n then (if a ! n < b ! n then -1 else 1) else zd_cmp_loop a b n)"

definition zd_cmp :: "digits \<Rightarrow> digits \<Rightarrow> int" where
  "zd_cmp a b = zd_cmp_loop a b (length a)"

fun zd_mul_1_loop :: "digits \<Rightarrow> z_digit \<Rightarrow> z_digit \<Rightarrow> digits \<times> z_digit" where
  "zd_mul_1_loop [] b c = ([], c)"
| "zd_mul_1_loop (a # as) b c =
     (let (h, l) = zd_dd_mul a b;
          (r, o1) = add_overflow c l;
          (rs, c') = zd_mul_1_loop as b (h + of_flag o1)
      in (r # rs, c'))"

definition zd_mul_1 :: "digits \<Rightarrow> z_digit \<Rightarrow> digits \<times> z_digit" where
  "zd_mul_1 a b = zd_mul_1_loop a b 0"

fun zd_submul_1_loop :: "digits \<Rightarrow> digits \<Rightarrow> z_digit \<Rightarrow> z_digit \<Rightarrow> digits \<times> z_digit" where
  "zd_submul_1_loop (r # rs) (a # as) b c =
     (let (h, l) = zd_dd_mul a b;
          (l1, c1) = sub_overflow r l;
          (r', c2) = sub_overflow l1 c;
          (rs', c') = zd_submul_1_loop rs as b (h + of_flag c1 + of_flag c2)
      in (r' # rs', c'))"
| "zd_submul_1_loop rs as b c = (rs, c)"

definition zd_submul_1 :: "digits \<Rightarrow> digits \<Rightarrow> z_digit \<Rightarrow> digits \<times> z_digit" where
  "zd_submul_1 r a b = zd_submul_1_loop r a b 0"

fun zd_addmul_1_loop :: "digits \<Rightarrow> digits \<Rightarrow> z_digit \<Rightarrow> z_digit \<Rightarrow> digits \<times> z_digit" where
  "zd_addmul_1_loop (r # rs) (a # as) b c =
     (let (h, l) = zd_dd_mul a b;
          (l1, c1) = add_overflow r l;
          (r', c2) = add_overflow l1 c;
          (rs', c') = zd_addmul_1_loop rs as b (h + of_flag c1 + of_flag c2)
      in (r' # rs', c'))"
| "zd_addmul_1_loop rs as b c = (rs, c)"

definition zd_addmul_1 :: "digits \<Rightarrow> digits \<Rightarrow> z_digit \<Rightarrow> digits \<times> z_digit" where
  "zd_addmul_1 r a b = zd_addmul_1_loop r a b 0"

text \<open>\<^verbatim>\<open>zd_mul\<close> moves a window of \<open>n + 1\<close> digits up the result: \<open>low\<close> holds the digits below it, and
  \<open>w\<close> the window. The result has \<open>n + m\<close> digits; the C function also returns the top one.\<close>

fun zd_mul_loop :: "digits \<Rightarrow> digits \<Rightarrow> digits \<Rightarrow> digits \<Rightarrow> digits" where
  "zd_mul_loop a low w [] = low @ w"
| "zd_mul_loop a low w (b # bs) =
     (let (w', c) = zd_addmul_1 (tl w) a b in zd_mul_loop a (low @ [hd w]) (w' @ [c]) bs)"

definition zd_mul :: "digits \<Rightarrow> digits \<Rightarrow> digits \<times> z_digit" where
  "zd_mul a b =
     (let (w, c) = zd_mul_1 a (hd b); r = zd_mul_loop a [] (w @ [c]) (tl b) in (r, last r))"

definition zd_sqr :: "digits \<Rightarrow> digits \<times> z_digit" where
  "zd_sqr a = zd_mul a a"

fun zd_add_1 :: "digits \<Rightarrow> z_digit \<Rightarrow> digits \<times> z_digit" where
  "zd_add_1 [] c = ([], c)"
| "zd_add_1 (a # as) c =
     (let (x, o1) = add_overflow a c; (r, c') = zd_add_1 as (of_flag o1) in (x # r, c'))"

fun zd_sub_1 :: "digits \<Rightarrow> z_digit \<Rightarrow> digits \<times> z_digit" where
  "zd_sub_1 [] c = ([], c)"
| "zd_sub_1 (a # as) c =
     (let (x, o1) = sub_overflow a c; (r, c') = zd_sub_1 as (of_flag o1) in (x # r, c'))"

fun zd_add_n_loop :: "digits \<Rightarrow> digits \<Rightarrow> z_digit \<Rightarrow> digits \<times> z_digit" where
  "zd_add_n_loop (a # as) (b # bs) c =
     (let (x, c1) = add_overflow a b; (y, c2) = add_overflow x c;
          (r, c') = zd_add_n_loop as bs (of_flag c1 + of_flag c2) in (y # r, c'))"
| "zd_add_n_loop as bs c = ([], c)"

definition zd_add_n :: "digits \<Rightarrow> digits \<Rightarrow> digits \<times> z_digit" where
  "zd_add_n a b = zd_add_n_loop a b 0"

definition zd_add :: "digits \<Rightarrow> digits \<Rightarrow> digits \<times> z_digit" where
  "zd_add a b =
     (let m = length b; (r, c) = zd_add_n (take m a) b
      in if length a = m then (r, c)
         else (let (r', c') = zd_add_1 (drop m a) c in (r @ r', c')))"

fun zd_sub_n_loop :: "digits \<Rightarrow> digits \<Rightarrow> z_digit \<Rightarrow> digits \<times> z_digit" where
  "zd_sub_n_loop (a # as) (b # bs) c =
     (let (x, c1) = sub_overflow a b; (y, c2) = sub_overflow x c;
          (r, c') = zd_sub_n_loop as bs (of_flag c1 + of_flag c2) in (y # r, c'))"
| "zd_sub_n_loop as bs c = ([], c)"

definition zd_sub_n :: "digits \<Rightarrow> digits \<Rightarrow> digits \<times> z_digit" where
  "zd_sub_n a b = zd_sub_n_loop a b 0"

definition zd_sub :: "digits \<Rightarrow> digits \<Rightarrow> digits \<times> z_digit" where
  "zd_sub a b =
     (let m = length b; (r, c) = zd_sub_n (take m a) b
      in if length a = m then (r, c)
         else (let (r', c') = zd_sub_1 (drop m a) c in (r @ r', c')))"

definition zd_or_n :: "digits \<Rightarrow> digits \<Rightarrow> digits" where
  "zd_or_n a b = map2 (OR) a b"

definition zd_and_n :: "digits \<Rightarrow> digits \<Rightarrow> digits" where
  "zd_and_n a b = map2 (AND) a b"

definition zd_andnot_n :: "digits \<Rightarrow> digits \<Rightarrow> digits" where
  "zd_andnot_n a b = map2 (\<lambda>x y. x AND NOT y) a b"

definition zd_xor_n :: "digits \<Rightarrow> digits \<Rightarrow> digits" where
  "zd_xor_n a b = map2 (XOR) a b"

section \<open>Division\<close>

text \<open>\<^verbatim>\<open>_zd_div_1\<close> runs down from the top digit; the second component is the running remainder.\<close>

fun zd_div_1 :: "digits \<Rightarrow> z_digit \<Rightarrow> digits \<times> z_digit" where
  "zd_div_1 [] v = ([], 0)"
| "zd_div_1 (u # us) v =
     (let (q, c) = zd_div_1 us v; (x, c') = zd_dd_div c u v in (x # q, c'))"

text \<open>The \<^verbatim>\<open>do ... while\<close> loop that corrects the estimate \<^verbatim>\<open>Q\<close>; \<^verbatim>\<open>Qh\<close> is its bit above the digit. The
  value None is a loop that does not end.\<close>

partial_function (option) qhat_loop ::
  "z_digit \<Rightarrow> z_digit \<Rightarrow> z_digit \<Rightarrow> bool \<Rightarrow> z_digit \<Rightarrow> z_digit \<Rightarrow> z_digit option" where
  "qhat_loop v1 v2 u2 Qh Q R =
     (let (h, l) = zd_dd_mul Q v2
      in if \<not> Qh \<and> (h < R \<or> h = R \<and> l \<le> u2) then Some Q
         else let (Q', o1) = sub_overflow Q 1;
                  Qh' = (\<not> o1 \<and> Qh);
                  (R', o2) = add_overflow R v1
              in if o2 then Some Q' else qhat_loop v1 v2 u2 Qh' Q' R')"

text \<open>One step of algorithm D at position \<open>j\<close>: quotient digit, multiply and subtract, add back.\<close>

definition zd_div_knuth_step :: "digits \<Rightarrow> digits \<Rightarrow> digits \<Rightarrow> nat \<Rightarrow> (digits \<times> digits) option" where
  "zd_div_knuth_step q u v j =
     (let n = length v;
          (Q0, R0) = zd_dd_div (u ! (j + n)) (u ! (j + n - 1)) (v ! (n - 1))
      in case qhat_loop (v ! (n - 1)) (v ! (n - 2)) (u ! (j + n - 2))
                (u ! (j + n) = v ! (n - 1)) Q0 R0 of
           None \<Rightarrow> None
         | Some Q \<Rightarrow>
             let (w, c) = zd_submul_1 (take n (drop j u)) v Q;
                 (t, borrow) = sub_overflow (u ! (j + n)) c
             in if borrow
                then let (w', c') = zd_add_n w v
                     in Some (q[j := Q - 1], take j u @ w' @ [t + c'] @ drop (j + n + 1) u)
                else Some (q[j := Q], take j u @ w @ [t] @ drop (j + n + 1) u))"

fun knuth_loop :: "nat \<Rightarrow> digits \<Rightarrow> digits \<Rightarrow> digits \<Rightarrow> (digits \<times> digits) option" where
  "knuth_loop 0 q u v = Some (q, u)"
| "knuth_loop (Suc j) q u v =
     (case zd_div_knuth_step q u v j of
        None \<Rightarrow> None
      | Some (q', u') \<Rightarrow> knuth_loop j q' u' v)"

definition Z_SCRATCH :: nat where
  "Z_SCRATCH = 64"

text \<open>The outcome of a division: \<open>NoMem\<close> when the scratch allocation fails (the C function returns
  \<^verbatim>\<open>false\<close>); the argument \<open>scratch\<close> says whether an allocation of so many digits succeeds.\<close>

datatype 'a div_result = NoMem | Diverges | Done 'a

definition zd_div_knuth ::
  "(nat \<Rightarrow> bool) \<Rightarrow> digits \<Rightarrow> digits \<Rightarrow> digits \<Rightarrow> (digits \<times> digits) div_result" where
  "zd_div_knuth scratch q u v =
     (let m = length u; n = length v;
          s = clz64 (v ! (n - 1));
          needed = n + m + 1
      in if Z_SCRATCH < needed \<and> \<not> scratch needed then NoMem
         else let vn = (if s \<noteq> 0 then fst (zd_shl v s) else v);
                  un = (if s \<noteq> 0 then (let (x, c) = zd_shl u s in x @ [c]) else u @ [0])
              in case knuth_loop (m - n + 1) q un vn of
                   None \<Rightarrow> Diverges
                 | Some (q', un') \<Rightarrow>
                     Done (q', if s \<noteq> 0 then fst (zd_shr (take n un') s) else take n un'))"

definition zd_divmod ::
  "(nat \<Rightarrow> bool) \<Rightarrow> digits \<Rightarrow> digits \<Rightarrow> digits \<Rightarrow> (digits \<times> digits) div_result" where
  "zd_divmod scratch q u v =
     (if length v = 1 then (let (q', r) = zd_div_1 u (v ! 0) in Done (q', [r]))
      else zd_div_knuth scratch q u v)"

section \<open>Digits and values\<close>

lemma zB_pos [simp]: "0 < zB"
  by (simp add: zB_def)

lemma zB_gt_1 [simp]: "1 < zB" "Suc 0 < zB"
  by (simp_all add: zB_def)

lemma digit_lt [simp]: "unat (x :: z_digit) < zB"
  by (simp add: zB_def)

lemma digit_le [simp]: "unat (x :: z_digit) \<le> zB"
  using digit_lt [of x] by linarith

lemma unat_digit: "unat (digit n) = n mod zB"
  by (simp add: digit_def zB_def unat_of_nat)

lemma unat_digit_lt [simp]: "n < zB \<Longrightarrow> unat (digit n) = n"
  by (simp add: unat_digit)

lemma unat_of_flag [simp]: "unat (of_flag c) = of_bool c"
  by (simp add: of_flag_def)

lemma zval_append: "zval (a @ b) = zval a + zB ^ length a * zval b"
  by (induction a) (simp_all add: algebra_simps)

lemma zval_snoc: "zval (a @ [d]) = zval a + zB ^ length a * unat d"
  by (simp add: zval_append)

lemma zval_lt: "zval a < zB ^ length a"
proof (induction a)
  case (Cons d ds)
  have "unat d + zB * zval ds < zB + zB * zval ds" by simp
  also have "\<dots> = zB * Suc (zval ds)" by simp
  also have "\<dots> \<le> zB * zB ^ length ds" using Cons by (intro mult_le_mono) auto
  finally show ?case by simp
qed simp

lemma zval_take_drop: "j \<le> length a \<Longrightarrow> zval a = zval (take j a) + zB ^ j * zval (drop j a)"
  using zval_append [of "take j a" "drop j a"] by simp

lemma zval_ge_top: "a \<noteq> [] \<Longrightarrow> zB ^ (length a - 1) * unat (last a) \<le> zval a"
  using zval_snoc [of "butlast a" "last a"] by simp

lemma dd_mul:
  assumes "zd_dd_mul a b = (h, l)"
  shows "unat h * zB + unat l = unat a * unat b"
proof -
  have "unat a * unat b < zB * zB" by (intro mult_strict_mono) auto
  then have "unat a * unat b div zB < zB" by (simp add: less_mult_imp_div_less)
  with assms show ?thesis by (auto simp: zd_dd_mul_def unat_digit)
qed

lemma dd_mul_bound: "unat (a :: z_digit) * unat (b :: z_digit) + 2 * (zB - 1) < zB * zB"
proof -
  have "unat a * unat b \<le> (zB - 1) * (zB - 1)"
    using digit_lt [of a] digit_lt [of b] by (intro mult_le_mono) linarith+
  moreover have "(zB - 1) * (zB - 1) + 2 * (zB - 1) < zB * zB" by (simp add: zB_def)
  ultimately show ?thesis by linarith
qed

lemma add_ov: "add_overflow a b = (s, c) \<Longrightarrow> unat s + zB * of_bool c = unat a + unat (b :: z_digit)"
  using add_overflow_split [of a b s c] by (simp add: zB_def)

lemma sub_ov: "sub_overflow (a :: z_digit) b = (s, c) \<Longrightarrow> unat s + unat b = unat a + zB * of_bool c"
  using sub_overflow_split [of a b s c] by (simp add: zB_def)

text \<open>A sum of digits whose exact value is below the base does not wrap.\<close>

lemma unat_add_flags:
  assumes "unat h + of_bool c1 + of_bool c2 < zB"
  shows "unat (h + of_flag c1 + of_flag c2) = unat h + of_bool c1 + of_bool c2"
proof -
  have "unat (h + of_flag c1) = unat h + of_bool c1"
    using assms by (subst unat_add_lem [THEN iffD1]) (auto simp: zB_def)
  then show ?thesis
    using assms by (subst unat_add_lem [THEN iffD1]) (auto simp: zB_def)
qed

lemma unat_add_flag: "unat h + of_bool c1 < zB \<Longrightarrow> unat (h + of_flag c1) = unat h + of_bool c1"
  using unat_add_flags [of h c1 False] by (simp add: of_flag_def)

text \<open>The high part of a number below \<open>B * B\<close> is a digit.\<close>

lemma high_digit: "unat (l :: z_digit) + zB * h < zB * zB \<Longrightarrow> h < zB"
  by (metis add_lessD1 add.commute mult_less_cancel1)

section \<open>Addition and subtraction of one digit\<close>

lemma zd_add_1_exact:
  "zd_add_1 a b = (r, c) \<Longrightarrow> length r = length a \<and>
     zval r + zB ^ length a * unat c = zval a + unat b"
proof (induction a arbitrary: b r c)
  case (Cons a as)
  obtain x o1 where x: "add_overflow a b = (x, o1)" by force
  obtain r' c' where r: "zd_add_1 as (of_flag o1) = (r', c')" by force
  have "zval r' + zB ^ length as * unat c' = zval as + of_bool o1" "length r' = length as"
    using Cons.IH [OF r] by simp_all
  from arg_cong [OF this(1), of "\<lambda>n. zB * n"] this(2) add_ov [OF x] Cons.prems
  show ?case by (auto simp: x r algebra_simps)
qed simp

lemma zd_sub_1_exact:
  "zd_sub_1 a b = (r, c) \<Longrightarrow> length r = length a \<and>
     zval r + unat b = zval a + zB ^ length a * unat c"
proof (induction a arbitrary: b r c)
  case (Cons a as)
  obtain x o1 where x: "sub_overflow a b = (x, o1)" by force
  obtain r' c' where r: "zd_sub_1 as (of_flag o1) = (r', c')" by force
  have "zval r' + of_bool o1 = zval as + zB ^ length as * unat c'" "length r' = length as"
    using Cons.IH [OF r] by simp_all
  from arg_cong [OF this(1), of "\<lambda>n. zB * n"] this(2) sub_ov [OF x] Cons.prems
  show ?case by (auto simp: x r algebra_simps)
qed simp

lemma zd_add_1_carry: "zd_add_1 a b = (r, c) \<Longrightarrow> a \<noteq> [] \<Longrightarrow> unat c \<le> 1"
proof (induction a arbitrary: b r c)
  case (Cons a as)
  then show ?case by (cases as) (auto split: prod.splits)
qed simp

section \<open>Addition and subtraction of vectors\<close>

lemma zd_add_n_loop_exact:
  "zd_add_n_loop a b c = (r, d) \<Longrightarrow> length a = length b \<Longrightarrow> unat c \<le> 1 \<Longrightarrow>
     length r = length a \<and> unat d \<le> 1 \<and>
     zval r + zB ^ length a * unat d = zval a + zval b + unat c"
proof (induction a b c arbitrary: r d rule: zd_add_n_loop.induct)
  case (1 a as b bs c)
  obtain x c1 where x: "add_overflow a b = (x, c1)" by force
  obtain y c2 where y: "add_overflow x c = (y, c2)" by force
  obtain r' d' where r: "zd_add_n_loop as bs (of_flag c1 + of_flag c2) = (r', d')" by force
  have "unat y + zB * (of_bool c1 + of_bool c2) = unat a + unat b + unat c"
    using add_ov [OF x] add_ov [OF y] by (simp add: algebra_simps)
  moreover have "unat a + unat b + unat c < 2 * zB"
    using digit_lt [of a] digit_lt [of b] "1.prems"(3) by linarith
  ultimately have le1: "of_bool c1 + of_bool c2 \<le> (1 :: nat)" by (cases c1; cases c2) auto
  then have u: "unat (of_flag c1 + of_flag c2) = of_bool c1 + of_bool c2"
    using unat_add_flags [of 0 c1 c2] zB_gt_1 by (simp add: zB_def)
  have IH: "length r' = length as" "unat d' \<le> 1"
     "zval r' + zB ^ length as * unat d' = zval as + zval bs + (of_bool c1 + of_bool c2)"
    using "1.IH" [OF x [symmetric] refl y [symmetric] refl r] le1 u "1.prems"(2) by simp_all
  from arg_cong [OF IH(3), of "\<lambda>n. zB * n"] IH add_ov [OF x] add_ov [OF y] "1.prems"(1)
  show ?case by (auto simp: x y r algebra_simps)
qed auto

lemma zd_sub_n_loop_exact:
  "zd_sub_n_loop a b c = (r, d) \<Longrightarrow> length a = length b \<Longrightarrow> unat c \<le> 1 \<Longrightarrow>
     length r = length a \<and> unat d \<le> 1 \<and>
     zval r + zval b + unat c = zval a + zB ^ length a * unat d"
proof (induction a b c arbitrary: r d rule: zd_sub_n_loop.induct)
  case (1 a as b bs c)
  obtain x c1 where x: "sub_overflow a b = (x, c1)" by force
  obtain y c2 where y: "sub_overflow x c = (y, c2)" by force
  obtain r' d' where r: "zd_sub_n_loop as bs (of_flag c1 + of_flag c2) = (r', d')" by force
  have "unat y + unat b + unat c = unat a + zB * (of_bool c1 + of_bool c2)"
    using sub_ov [OF x] sub_ov [OF y] by (simp add: algebra_simps)
  moreover have "unat y + unat b + unat c < 2 * zB"
    using digit_lt [of y] digit_lt [of b] "1.prems"(3) by linarith
  ultimately have le1: "of_bool c1 + of_bool c2 \<le> (1 :: nat)" by (cases c1; cases c2) auto
  then have u: "unat (of_flag c1 + of_flag c2) = of_bool c1 + of_bool c2"
    using unat_add_flags [of 0 c1 c2] zB_gt_1 by (simp add: zB_def)
  have IH: "length r' = length as" "unat d' \<le> 1"
     "zval r' + zval bs + (of_bool c1 + of_bool c2) = zval as + zB ^ length as * unat d'"
    using "1.IH" [OF x [symmetric] refl y [symmetric] refl r] le1 u "1.prems"(2) by simp_all
  from arg_cong [OF IH(3), of "\<lambda>n. zB * n"] IH sub_ov [OF x] sub_ov [OF y] "1.prems"(1)
  show ?case by (auto simp: x y r algebra_simps)
qed auto

lemma zd_add_n_exact:
  assumes "zd_add_n a b = (r, c)" and "length a = length b"
  shows "length r = length a" "unat c \<le> 1" "zval r + zB ^ length a * unat c = zval a + zval b"
  using zd_add_n_loop_exact [of a b 0 r c] assms by (simp_all add: zd_add_n_def)

lemma zd_sub_n_exact:
  assumes "zd_sub_n a b = (r, c)" and "length a = length b"
  shows "length r = length a" "unat c \<le> 1" "zval r + zval b = zval a + zB ^ length a * unat c"
  using zd_sub_n_loop_exact [of a b 0 r c] assms by (simp_all add: zd_sub_n_def)

lemma zd_add_exact:
  assumes "zd_add a b = (r, c)" and "length b \<le> length a"
  shows "length r = length a" "unat c \<le> 1" "zval r + zB ^ length a * unat c = zval a + zval b"
proof -
  obtain r1 c1 where r1: "zd_add_n (take (length b) a) b = (r1, c1)" by force
  obtain r2 c2 where r2: "zd_add_1 (drop (length b) a) c1 = (r2, c2)" by force
  have e1: "length r1 = length b" "unat c1 \<le> 1"
    "zval r1 + zB ^ length b * unat c1 = zval (take (length b) a) + zval b"
    using zd_add_n_exact [OF r1] assms(2) by simp_all
  have split: "zval a = zval (take (length b) a) + zB ^ length b * zval (drop (length b) a)"
    using zval_take_drop assms(2) by blast
  have "length r = length a \<and> unat c \<le> 1 \<and> zval r + zB ^ length a * unat c = zval a + zval b"
  proof (cases "length a = length b")
    case True
    with assms(1) e1 r1 show ?thesis by (auto simp: zd_add_def Let_def)
  next
    case False
    have r: "r = r1 @ r2" "c = c2" using assms(1) r1 r2 False by (simp_all add: zd_add_def Let_def)
    have e2: "length r2 = length a - length b"
      "zval r2 + zB ^ (length a - length b) * unat c2 = zval (drop (length b) a) + unat c1"
      using zd_add_1_exact [OF r2] by simp_all
    have "zB ^ length a = zB ^ length b * zB ^ (length a - length b)"
      using assms(2) by (simp flip: power_add)
    with arg_cong [OF e2(2), of "\<lambda>n. zB ^ length b * n"] e1 e2(1) split
    have "zval r + zB ^ length a * unat c = zval a + zval b"
      unfolding r by (simp add: zval_append algebra_simps)
    moreover have "unat c2 \<le> 1" using zd_add_1_carry [OF r2] False assms(2) by simp
    ultimately show ?thesis using e1 e2 assms(2) by (simp add: r)
  qed
  then show "length r = length a" "unat c \<le> 1" "zval r + zB ^ length a * unat c = zval a + zval b"
    by simp_all
qed

lemma zd_sub_exact:
  assumes "zd_sub a b = (r, c)" and "length b \<le> length a"
  shows "length r = length a" "zval r + zval b = zval a + zB ^ length a * unat c"
proof -
  obtain r1 c1 where r1: "zd_sub_n (take (length b) a) b = (r1, c1)" by force
  obtain r2 c2 where r2: "zd_sub_1 (drop (length b) a) c1 = (r2, c2)" by force
  have e1: "length r1 = length b"
    "zval r1 + zval b = zval (take (length b) a) + zB ^ length b * unat c1"
    using zd_sub_n_exact [OF r1] assms(2) by simp_all
  have split: "zval a = zval (take (length b) a) + zB ^ length b * zval (drop (length b) a)"
    using zval_take_drop assms(2) by blast
  have "length r = length a \<and> zval r + zval b = zval a + zB ^ length a * unat c"
  proof (cases "length a = length b")
    case True
    with assms(1) e1 r1 show ?thesis by (auto simp: zd_sub_def Let_def)
  next
    case False
    have r: "r = r1 @ r2" "c = c2" using assms(1) r1 r2 False by (simp_all add: zd_sub_def Let_def)
    have e2: "length r2 = length a - length b"
      "zval r2 + unat c1 = zval (drop (length b) a) + zB ^ (length a - length b) * unat c2"
      using zd_sub_1_exact [OF r2] by simp_all
    have "zB ^ length a = zB ^ length b * zB ^ (length a - length b)"
      using assms(2) by (simp flip: power_add)
    with arg_cong [OF e2(2), of "\<lambda>n. zB ^ length b * n"] e1 split
    have "zval r + zval b = zval a + zB ^ length a * unat c"
      unfolding r by (simp add: zval_append algebra_simps)
    then show ?thesis using e1 e2 assms(2) by (simp add: r)
  qed
  then show "length r = length a" "zval r + zval b = zval a + zB ^ length a * unat c" by simp_all
qed

section \<open>Multiplication\<close>

lemma zd_mul_1_loop_exact:
  "zd_mul_1_loop a b c = (r, d) \<Longrightarrow>
     length r = length a \<and> zval r + zB ^ length a * unat d = zval a * unat b + unat c"
proof (induction a b c arbitrary: r d rule: zd_mul_1_loop.induct)
  case (2 a as b c)
  obtain h l where m: "zd_dd_mul a b = (h, l)" by force
  obtain x o1 where x: "add_overflow c l = (x, o1)" by force
  obtain r' d' where r: "zd_mul_1_loop as b (h + of_flag o1) = (r', d')" by force
  have sum: "unat x + zB * (unat h + of_bool o1) = unat a * unat b + unat c"
    using dd_mul [OF m] add_ov [OF x] by (simp add: algebra_simps)
  also have "\<dots> < zB * zB" using dd_mul_bound [of a b] digit_lt [of c] by linarith
  finally have "unat (h + of_flag o1) = unat h + of_bool o1"
    by (intro unat_add_flag high_digit)
  with "2.IH" [OF m [symmetric] refl x [symmetric] refl r]
  have IH: "length r' = length as"
    "zval r' + zB ^ length as * unat d' = zval as * unat b + (unat h + of_bool o1)" by simp_all
  from arg_cong [OF IH(2), of "\<lambda>n. zB * n"] IH(1) sum "2.prems"
  show ?case by (auto simp: m x r algebra_simps)
qed auto

lemma zd_mul_1_exact:
  "zd_mul_1 a b = (r, d) \<Longrightarrow>
     length r = length a \<and> zval r + zB ^ length a * unat d = zval a * unat b"
  using zd_mul_1_loop_exact [of a b 0 r d] by (simp add: zd_mul_1_def)

lemma zd_addmul_1_loop_exact:
  "zd_addmul_1_loop r a b c = (r', d) \<Longrightarrow> length r = length a \<Longrightarrow>
     length r' = length a \<and> zval r' + zB ^ length a * unat d = zval r + zval a * unat b + unat c"
proof (induction r a b c arbitrary: r' d rule: zd_addmul_1_loop.induct)
  case (1 r rs a as b c)
  obtain h l where m: "zd_dd_mul a b = (h, l)" by force
  obtain x o1 where x: "add_overflow r l = (x, o1)" by force
  obtain y o2 where y: "add_overflow x c = (y, o2)" by force
  obtain r1 d1 where r: "zd_addmul_1_loop rs as b (h + of_flag o1 + of_flag o2) = (r1, d1)" by force
  have sum: "unat y + zB * (unat h + of_bool o1 + of_bool o2) = unat r + unat a * unat b + unat c"
    using dd_mul [OF m] add_ov [OF x] add_ov [OF y] by (simp add: algebra_simps)
  also have "\<dots> < zB * zB" using dd_mul_bound [of a b] digit_lt [of c] digit_lt [of r] by linarith
  finally have "unat (h + of_flag o1 + of_flag o2) = unat h + of_bool o1 + of_bool o2"
    by (intro unat_add_flags high_digit)
  with "1.IH" [OF m [symmetric] refl x [symmetric] refl y [symmetric] refl r] "1.prems"(2)
  have IH: "length r1 = length as" "zval r1 + zB ^ length as * unat d1 =
    zval rs + zval as * unat b + (unat h + of_bool o1 + of_bool o2)" by simp_all
  have r': "r' = y # r1" "d = d1" using "1.prems"(1) by (simp_all add: m x y r)
  from arg_cong [OF IH(2), of "\<lambda>n. zB * n"] IH(1) sum
  show ?case unfolding r' by (simp add: algebra_simps)
qed auto

lemma zd_addmul_1_exact:
  "zd_addmul_1 r a b = (r', d) \<Longrightarrow> length r = length a \<Longrightarrow>
     length r' = length a \<and> zval r' + zB ^ length a * unat d = zval r + zval a * unat b"
  using zd_addmul_1_loop_exact [of r a b 0 r' d] by (simp add: zd_addmul_1_def)

lemma zd_submul_1_loop_exact:
  "zd_submul_1_loop r a b c = (r', d) \<Longrightarrow> length r = length a \<Longrightarrow>
     length r' = length a \<and> zval r' + zval a * unat b + unat c = zval r + zB ^ length a * unat d"
proof (induction r a b c arbitrary: r' d rule: zd_submul_1_loop.induct)
  case (1 r rs a as b c)
  obtain h l where m: "zd_dd_mul a b = (h, l)" by force
  obtain x o1 where x: "sub_overflow r l = (x, o1)" by force
  obtain y o2 where y: "sub_overflow x c = (y, o2)" by force
  obtain r1 d1 where r: "zd_submul_1_loop rs as b (h + of_flag o1 + of_flag o2) = (r1, d1)" by force
  have sum: "unat y + unat a * unat b + unat c = unat r + zB * (unat h + of_bool o1 + of_bool o2)"
    using dd_mul [OF m] sub_ov [OF x] sub_ov [OF y] by (simp add: algebra_simps)
  also have "unat y + unat a * unat b + unat c < zB * zB"
    using dd_mul_bound [of a b] digit_lt [of c] digit_lt [of y] by linarith
  ultimately have "unat (h + of_flag o1 + of_flag o2) = unat h + of_bool o1 + of_bool o2"
    by (intro unat_add_flags high_digit) simp
  with "1.IH" [OF m [symmetric] refl x [symmetric] refl y [symmetric] refl r] "1.prems"(2)
  have IH: "length r1 = length as" "zval r1 + zval as * unat b + (unat h + of_bool o1 + of_bool o2) =
    zval rs + zB ^ length as * unat d1" by simp_all
  have r': "r' = y # r1" "d = d1" using "1.prems"(1) by (simp_all add: m x y r)
  from arg_cong [OF IH(2), of "\<lambda>n. zB * n"] IH(1) sum
  show ?case unfolding r' by (simp add: algebra_simps)
qed auto

lemma zd_submul_1_exact:
  "zd_submul_1 r a b = (r', d) \<Longrightarrow> length r = length a \<Longrightarrow>
     length r' = length a \<and> zval r' + zval a * unat b = zval r + zB ^ length a * unat d"
  using zd_submul_1_loop_exact [of r a b 0 r' d] by (simp add: zd_submul_1_def)

lemma zd_mul_loop_exact:
  "length w = length a + 1 \<Longrightarrow>
     length (zd_mul_loop a low w bs) = length low + length a + 1 + length bs \<and>
     zval (zd_mul_loop a low w bs) =
       zval low + zB ^ length low * (zval w + zB * (zval a * zval bs))"
proof (induction bs arbitrary: low w)
  case Nil
  then show ?case by (simp add: zval_append)
next
  case (Cons b bs)
  obtain x t where w: "w = x # t" using Cons.prems by (cases w) auto
  obtain w' c where r: "zd_addmul_1 t a b = (w', c)" by force
  have e: "length w' = length a" "zval w' + zB ^ length a * unat c = zval t + zval a * unat b"
    using zd_addmul_1_exact [OF r] Cons.prems w by simp_all
  have v: "zval (w' @ [c]) = zval t + zval a * unat b" using e by (simp add: zval_snoc)
  have IH: "length (zd_mul_loop a (low @ [x]) (w' @ [c]) bs) = length low + 1 + length a + 1 + length bs"
    "zval (zd_mul_loop a (low @ [x]) (w' @ [c]) bs) = zval (low @ [x]) +
      zB ^ length (low @ [x]) * (zval t + zval a * unat b + zB * (zval a * zval bs))"
    using Cons.IH [of "w' @ [c]" "low @ [x]"] e(1) v by simp_all
  show ?case
  proof
    show "length (zd_mul_loop a low w (b # bs)) = length low + length a + 1 + length (b # bs)"
      using IH(1) w r by simp
    have "zval (zd_mul_loop a low w (b # bs)) = zval (low @ [x]) +
      zB ^ length (low @ [x]) * (zval t + zval a * unat b + zB * (zval a * zval bs))"
      using IH(2) w r by simp
    then show "zval (zd_mul_loop a low w (b # bs)) =
      zval low + zB ^ length low * (zval w + zB * (zval a * zval (b # bs)))"
      by (simp add: w zval_snoc algebra_simps)
  qed
qed

lemma zd_mul_exact:
  assumes "zd_mul a b = (r, t)" and "b \<noteq> []"
  shows "length r = length a + length b" "zval r = zval a * zval b" "t = last r"
proof -
  obtain w c where w: "zd_mul_1 a (hd b) = (w, c)" by force
  have r: "r = zd_mul_loop a [] (w @ [c]) (tl b)" "t = last r"
    using assms w by (auto simp: zd_mul_def Let_def)
  obtain d ds where b: "b = d # ds" using assms(2) by (cases b) auto
  have "length w = length a" "zval (w @ [c]) = zval a * unat d"
    using zd_mul_1_exact [OF w] b by (simp_all add: zval_snoc)
  then show "length r = length a + length b" "zval r = zval a * zval b" "t = last r"
    using zd_mul_loop_exact [of "w @ [c]" a "[]" "tl b"] r b by (simp_all add: algebra_simps)
qed

section \<open>Shifts, comparison and bitwise operations\<close>

lemma two_pow_le_zB: "s \<le> 64 \<Longrightarrow> 2 ^ s * 2 ^ (64 - s) = zB"
  by (simp add: zB_def flip: power_add)

lemma unat_push_bit_mod:
  assumes "k \<le> 64"
  shows "unat (push_bit k a) = 2 ^ k * (unat (a :: z_digit) mod 2 ^ (64 - k))"
proof -
  have "unat (push_bit k a) = 2 ^ k * unat a mod (2 ^ k * 2 ^ (64 - k))"
    unfolding two_pow_le_zB [OF assms] zB_def
    by (simp only: unsigned_push_bit_eq) (simp add: push_bit_eq_mult take_bit_eq_mod mult.commute)
  then show ?thesis by (simp only: mult_mod_right)
qed

lemma shl_digit:
  assumes "s < 64" and "unat c < 2 ^ s"
  shows "unat (push_bit s a OR c) + zB * unat (drop_bit (64 - s) a) = 2 ^ s * unat (a :: z_digit) + unat c"
proof -
  let ?h = "unat a div 2 ^ (64 - s)"
  have B: "2 ^ s * 2 ^ (64 - s) = zB" using assms by (intro two_pow_le_zB) simp
  have p: "unat (push_bit s a) = 2 ^ s * (unat a mod 2 ^ (64 - s))"
    using assms by (intro unat_push_bit_mod) simp
  have "unat (push_bit s a OR c) = unat (push_bit s a) + unat c"
    by (rule unat_or_add [of s]) (simp_all add: p assms)
  moreover have "unat (drop_bit (64 - s) a) = ?h" by (rule unat_drop_bit)
  moreover have "2 ^ s * (unat a mod 2 ^ (64 - s)) + 2 ^ s * (2 ^ (64 - s) * ?h) = 2 ^ s * unat a"
    by (simp only: mod_mult_div_eq flip: distrib_left)
  then have "2 ^ s * unat a = 2 ^ s * (unat a mod 2 ^ (64 - s)) + zB * ?h"
    by (simp only: B flip: mult.assoc)
  ultimately show ?thesis using p by simp
qed

lemma zd_shl_loop_exact:
  "zd_shl_loop a s c = (r, d) \<Longrightarrow> 0 < s \<Longrightarrow> s < 64 \<Longrightarrow> unat c < 2 ^ s \<Longrightarrow>
     length r = length a \<and> unat d < 2 ^ s \<and>
     zval r + zB ^ length a * unat d = 2 ^ s * zval a + unat c"
proof (induction a s c arbitrary: r d rule: zd_shl_loop.induct)
  case (2 a as s c)
  obtain r' d' where r: "zd_shl_loop as s (drop_bit (64 - s) a) = (r', d')" by force
  have "unat a < 2 ^ s * 2 ^ (64 - s)" using "2.prems" by (simp add: two_pow_le_zB)
  then have "unat (drop_bit (64 - s) a) < 2 ^ s"
    by (simp add: unat_drop_bit less_mult_imp_div_less)
  with "2.IH" [OF refl r] "2.prems"
  have IH: "length r' = length as" "unat d' < 2 ^ s"
    "zval r' + zB ^ length as * unat d' = 2 ^ s * zval as + unat (drop_bit (64 - s) a)"
    by simp_all
  from arg_cong [OF IH(3), of "\<lambda>n. zB * n"] IH(1,2) shl_digit [of s c a] "2.prems"
  show ?case by (auto simp: r algebra_simps)
qed auto

lemma zd_shl_exact:
  assumes "zd_shl a s = (r, d)" "0 < s" "s < 64"
  shows "length r = length a" "unat d < 2 ^ s" "zval r + zB ^ length a * unat d = 2 ^ s * zval a"
  using zd_shl_loop_exact [of a s 0 r d] assms by (simp_all add: zd_shl_def)

text \<open>The right shift is the quotient by \<open>2 ^ s\<close>; the bits shifted out are the high bits of the carry.\<close>

lemma shr_digit:
  assumes "0 < s" "s < 64"
  shows "unat (push_bit (64 - s) a) = 2 ^ (64 - s) * (unat (a :: z_digit) mod 2 ^ s)"
  using unat_push_bit_mod [of "64 - s" a] assms by simp

lemma zd_shr_exact:
  "zd_shr a s = (r, c) \<Longrightarrow> 0 < s \<Longrightarrow> s < 64 \<Longrightarrow>
     length r = length a \<and> zval r = zval a div 2 ^ s \<and>
     unat c = 2 ^ (64 - s) * (zval a mod 2 ^ s)"
proof (induction a s arbitrary: r c rule: zd_shr.induct)
  case (2 a as s)
  obtain r' c' where r: "zd_shr as s = (r', c')" by force
  have IH: "length r' = length as" "zval r' = zval as div 2 ^ s"
    "unat c' = 2 ^ (64 - s) * (zval as mod 2 ^ s)"
    using "2.IH" [OF r] "2.prems" by simp_all
  have B: "2 ^ (64 - s) * 2 ^ s = zB" using two_pow_le_zB [of s] "2.prems" by (simp add: mult.commute)
  have rc: "r = (drop_bit s a OR c') # r'" "c = push_bit (64 - s) a"
    using "2.prems"(1) r by simp_all
  have "unat a < 2 ^ (64 - s) * 2 ^ s" by (simp add: B)
  then have lt: "unat (drop_bit s a) < 2 ^ (64 - s)"
    by (simp add: unat_drop_bit less_mult_imp_div_less)
  have "unat (c' OR drop_bit s a) = unat c' + unat (drop_bit s a)"
    by (rule unat_or_add [of "64 - s"]) (simp_all add: IH lt)
  then have d: "unat (drop_bit s a OR c') = unat a div 2 ^ s + 2 ^ (64 - s) * (zval as mod 2 ^ s)"
    by (simp add: or.commute unat_drop_bit IH)
  have za: "zB * zval as = 2 ^ (64 - s) * zval as * 2 ^ s"
    by (simp flip: B)
  have "zval r = unat a div 2 ^ s + 2 ^ (64 - s) * (zval as mod 2 ^ s) + zB * (zval as div 2 ^ s)"
    by (simp add: rc d IH)
  also have "zB * (zval as div 2 ^ s) = 2 ^ (64 - s) * (2 ^ s * (zval as div 2 ^ s))"
    by (simp flip: B)
  also have "unat a div 2 ^ s + 2 ^ (64 - s) * (zval as mod 2 ^ s) +
      2 ^ (64 - s) * (2 ^ s * (zval as div 2 ^ s)) = unat a div 2 ^ s + 2 ^ (64 - s) * zval as"
    by (simp only: add.assoc flip: distrib_left) simp
  also have "\<dots> = zval (a # as) div 2 ^ s" by (simp add: za)
  finally have "zval r = zval (a # as) div 2 ^ s" .
  moreover have "zval (a # as) mod 2 ^ s = unat a mod 2 ^ s" by (simp add: za)
  ultimately show ?case using "2.prems" shr_digit [of s a] rc IH by simp
qed auto

lemma zd_cmp_loop_exact:
  "n \<le> length a \<Longrightarrow> n \<le> length b \<Longrightarrow>
     zd_cmp_loop a b n =
       (if zval (take n a) < zval (take n b) then -1
        else if zval (take n a) = zval (take n b) then 0 else 1)"
proof (induction n)
  case (Suc n)
  have t: "zval (take (Suc n) x) = zval (take n x) + zB ^ n * unat (x ! n)" if "Suc n \<le> length x" for x
    using that by (simp add: take_Suc_conv_app_nth zval_snoc)
  have lt: "zval (take n x) < zB ^ n" if "Suc n \<le> length x" for x
    using zval_lt [of "take n x"] that by simp
  have mono: "zval (take (Suc n) x) < zval (take (Suc n) y)"
    if "x ! n < y ! n" "Suc n \<le> length x" "Suc n \<le> length y" for x y
  proof -
    have "Suc (unat (x ! n)) \<le> unat (y ! n)" using that by (simp add: word_less_nat_alt)
    then have "zB ^ n * Suc (unat (x ! n)) \<le> zB ^ n * unat (y ! n)" by (rule mult_le_mono2)
    then show ?thesis using lt [OF that(2)] by (simp add: t that)
  qed
  show ?case
  proof (cases "a ! n = b ! n")
    case True
    then show ?thesis using Suc by (simp add: t)
  next
    case False
    then consider "a ! n < b ! n" | "b ! n < a ! n" by (rule neqE)
    then show ?thesis using False mono [of a b] mono [of b a] Suc.prems by cases auto
  qed
qed simp

lemma zd_cmp_exact:
  "length a = length b \<Longrightarrow>
     zd_cmp a b = (if zval a < zval b then -1 else if zval a = zval b then 0 else 1)"
  using zd_cmp_loop_exact [of "length a" a b] by (simp add: zd_cmp_def)

section \<open>Division by one digit\<close>

lemma dd_div:
  assumes "zd_dd_div ah al b = (q, r)" and "ah < b"
  shows "unat ah * zB + unat al = unat q * unat b + unat r" "r < b"
proof -
  have b: "unat ah < unat b" using assms(2) by (simp add: word_less_nat_alt)
  let ?w = "unat ah * zB + unat al"
  have "?w < unat ah * zB + zB" by simp
  also have "\<dots> = Suc (unat ah) * zB" by simp
  also have "\<dots> \<le> unat b * zB" using b by (intro mult_le_mono) auto
  finally have "?w div unat b < zB" by (simp add: less_mult_imp_div_less mult.commute)
  moreover have "?w mod unat b < unat b" using b by simp
  moreover from this have "?w mod unat b < zB" using digit_lt [of b] by linarith
  ultimately show "?w = unat q * unat b + unat r" "r < b"
    using assms(1) by (auto simp: zd_dd_div_def Let_def word_less_nat_alt)
qed

lemma zd_div_1_exact:
  "zd_div_1 u v = (q, r) \<Longrightarrow> 0 < v \<Longrightarrow>
     length q = length u \<and> r < v \<and> zval u = zval q * unat v + unat r"
proof (induction u arbitrary: q r)
  case (Cons u us)
  obtain q' c where q': "zd_div_1 us v = (q', c)" by force
  obtain x c' where x: "zd_dd_div c u v = (x, c')" by force
  have IH: "length q' = length us" "c < v" "zval us = zval q' * unat v + unat c"
    using Cons.IH [OF q'] Cons.prems by simp_all
  have q: "q = x # q'" "r = c'" using Cons.prems(1) q' x by simp_all
  show ?case using dd_div [OF x IH(2)] IH unfolding q by (simp add: algebra_simps)
qed simp

section \<open>Knuth's algorithm D\<close>

text \<open>The full value of the estimate, with its bit \<open>Qh\<close> above the digit, and the invariant of the
  correction loop: the estimate times the top divisor digit plus \<open>R\<close> is the top of the dividend, and
  the estimate is not below the true quotient.\<close>

definition qfull :: "bool \<Rightarrow> z_digit \<Rightarrow> nat" where
  "qfull Qh Q = zB * of_bool Qh + unat Q"

definition qhat_inv :: "z_digit \<Rightarrow> nat \<Rightarrow> nat \<Rightarrow> bool \<Rightarrow> z_digit \<Rightarrow> z_digit \<Rightarrow> bool" where
  "qhat_inv v1 U1 qt Qh Q R \<longleftrightarrow> qfull Qh Q * unat v1 + unat R = U1 \<and> qt \<le> qfull Qh Q"

text \<open>What is asked of the digits: the divisor is normalised, the top of the dividend does not exceed
  that of the divisor, and an estimate that is too big for the two top digits is above the true
  quotient \<open>qt\<close>.\<close>

definition qhat_pre :: "z_digit \<Rightarrow> z_digit \<Rightarrow> z_digit \<Rightarrow> nat \<Rightarrow> nat \<Rightarrow> bool" where
  "qhat_pre v1 v2 u2 U1 qt \<longleftrightarrow>
     zB \<le> 2 * unat v1 \<and> U1 < (unat v1 + 1) * zB \<and> qt < zB \<and>
     (\<forall>n. U1 * zB + unat u2 < n * (unat v1 * zB + unat v2) \<longrightarrow> qt < n)"

definition qhat_good :: "z_digit \<Rightarrow> z_digit \<Rightarrow> z_digit \<Rightarrow> nat \<Rightarrow> nat \<Rightarrow> z_digit \<Rightarrow> bool" where
  "qhat_good v1 v2 u2 U1 qt Q \<longleftrightarrow>
     qt \<le> unat Q \<and> unat Q * (unat v1 * zB + unat v2) \<le> U1 * zB + unat u2"

lemma qfull_dec:
  assumes "sub_overflow Q 1 = (Q', o1)" and "0 < qfull Qh Q"
  shows "qfull (\<not> o1 \<and> Qh) Q' = qfull Qh Q - 1"
proof (cases "Q = 0")
  case True
  have "Qh" using assms(2) True by (simp add: qfull_def)
  moreover have "unat (- 1 :: z_digit) = zB - 1"
    by (simp add: zB_def unsigned_minus_1_eq_mask mask_eq_exp_minus_1)
  ultimately show ?thesis using assms(1) True by (auto simp: sub_overflow_def qfull_def)
next
  case False
  then have "unat (Q - 1) = unat Q - 1" by (simp add: unat_minus_one)
  moreover have "0 < unat Q" using False by (simp add: unat_gt_0)
  ultimately show ?thesis
    using assms(1) False by (auto simp: sub_overflow_def qfull_def word_less_1)
qed

text \<open>The test that ends the loop says that the estimate fits the two top digits of the divisor.\<close>

lemma qhat_test:
  assumes "zd_dd_mul Q v2 = (h, l)"
  shows "(h < R \<or> h = R \<and> l \<le> u2) \<longleftrightarrow> unat Q * unat v2 \<le> unat R * zB + unat u2"
proof -
  have e: "unat Q * unat v2 = unat h * zB + unat l" using dd_mul [OF assms] by simp
  show ?thesis
  proof (cases "unat h" "unat R" rule: linorder_cases)
    case less
    then have "Suc (unat h) * zB \<le> unat R * zB" by (intro mult_le_mono) auto
    then have "unat Q * unat v2 < unat R * zB + unat u2"
      using e digit_lt [of l] unfolding mult_Suc by linarith
    then show ?thesis using less by (simp add: word_less_nat_alt)
  next
    case equal
    then show ?thesis by (simp add: e word_less_nat_alt word_le_nat_alt flip: word_unat_eq_iff)
  next
    case greater
    then have "Suc (unat R) * zB \<le> unat h * zB" by (intro mult_le_mono) auto
    then have "unat R * zB + unat u2 < unat Q * unat v2"
      using e digit_lt [of u2] unfolding mult_Suc by linarith
    then show ?thesis using greater by (auto simp: word_less_nat_alt word_unat_eq_iff)
  qed
qed

lemma qhat_scale:
  "n * v1 + R = U1 \<Longrightarrow> n * (v1 * B + v2) + R * B = U1 * B + n * (v2 :: nat)"
  by (auto simp: algebra_simps)

lemma qhat_step:
  assumes pre: "qhat_pre v1 v2 u2 U1 qt" and inv: "qhat_inv v1 U1 qt Qh Q R"
  shows "(\<exists>Q'. qhat_loop v1 v2 u2 Qh Q R = Some Q' \<and> qhat_good v1 v2 u2 U1 qt Q') \<or>
    (\<exists>Qh' Q' R'. qhat_loop v1 v2 u2 Qh Q R = qhat_loop v1 v2 u2 Qh' Q' R' \<and>
       qhat_inv v1 U1 qt Qh' Q' R' \<and> unat R' = unat R + unat v1)"
proof -
  obtain h l where m: "zd_dd_mul Q v2 = (h, l)" by force
  obtain Q' o1 where d: "sub_overflow Q 1 = (Q', o1)" by force
  obtain R' o2 where a: "add_overflow R v1 = (R', o2)" by force
  have e: "qfull Qh Q * unat v1 + unat R = U1" "qt \<le> qfull Qh Q" using inv by (simp_all add: qhat_inv_def)
  let ?test = "h < R \<or> h = R \<and> l \<le> u2"
  show ?thesis
  proof (cases "\<not> Qh \<and> ?test")
    case True
    then have "qhat_loop v1 v2 u2 Qh Q R = Some Q" by (subst qhat_loop.simps) (simp add: m)
    moreover have "unat Q * (unat v1 * zB + unat v2) + unat R * zB = U1 * zB + unat Q * unat v2"
      by (rule qhat_scale) (use e True in \<open>simp add: qfull_def\<close>)
    moreover have "unat Q * unat v2 \<le> unat R * zB + unat u2" using True qhat_test [OF m] by blast
    ultimately show ?thesis using e True by (auto simp: qhat_good_def qfull_def)
  next
    case False
    have above: "qt < qfull Qh Q"
    proof (cases Qh)
      case True
      then show ?thesis using pre by (simp add: qhat_pre_def qfull_def)
    next
      case no: False
      then have "unat R * zB + unat u2 < unat Q * unat v2" using False qhat_test [OF m] by (simp add: not_le)
      moreover have "unat Q * (unat v1 * zB + unat v2) + unat R * zB = U1 * zB + unat Q * unat v2"
        by (rule qhat_scale) (use e no in \<open>simp add: qfull_def\<close>)
      ultimately have "U1 * zB + unat u2 < unat Q * (unat v1 * zB + unat v2)" by linarith
      then show ?thesis using pre no by (simp add: qhat_pre_def qfull_def)
    qed
    define Qh' where "Qh' = (\<not> o1 \<and> Qh)"
    have q': "qfull Qh' Q' = qfull Qh Q - 1" using qfull_dec [OF d] above by (simp add: Qh'_def)
    have e': "qfull Qh' Q' * unat v1 + (unat R + unat v1) = U1" "qt \<le> qfull Qh' Q'"
      using e above unfolding q' by (cases "qfull Qh Q"; simp)+
    have loop: "qhat_loop v1 v2 u2 Qh Q R = (if o2 then Some Q' else qhat_loop v1 v2 u2 Qh' Q' R')"
      by (subst qhat_loop.simps) (simp only: m d a Qh'_def Let_def prod.case if_not_P [OF False])
    show ?thesis
    proof (cases o2)
      case True
      have big: "zB \<le> unat R + unat v1" using add_ov [OF a] True by simp
      have "\<not> zB \<le> qfull Qh' Q'"
      proof
        assume "zB \<le> qfull Qh' Q'"
        then have "zB * unat v1 \<le> qfull Qh' Q' * unat v1" by (rule mult_le_mono1)
        moreover have "(unat v1 + 1) * zB = zB * unat v1 + zB" by simp
        ultimately have "(unat v1 + 1) * zB \<le> U1" using e'(1) big by linarith
        then show False using pre by (simp add: qhat_pre_def)
      qed
      then have Q': "qfull Qh' Q' = unat Q'" by (auto simp: qfull_def)
      have "unat Q' * (unat v1 * zB + unat v2) + (unat R + unat v1) * zB = U1 * zB + unat Q' * unat v2"
        by (rule qhat_scale) (use e' Q' in simp)
      moreover have "unat Q' * unat v2 \<le> (unat R + unat v1) * zB"
        using big digit_lt [of Q'] digit_lt [of v2] by (intro mult_le_mono) linarith+
      ultimately show ?thesis using loop True e' Q' by (auto simp: qhat_good_def)
    next
      case no: False
      then have R': "unat R' = unat R + unat v1" using add_ov [OF a] by simp
      then have "qhat_inv v1 U1 qt Qh' Q' R'" using e' by (simp add: qhat_inv_def)
      moreover have "qhat_loop v1 v2 u2 Qh Q R = qhat_loop v1 v2 u2 Qh' Q' R'" using loop no by simp
      ultimately show ?thesis using R' by blast
    qed
  qed
qed

lemma qhat_loop_correct:
  assumes pre: "qhat_pre v1 v2 u2 U1 qt" and inv: "qhat_inv v1 U1 qt Qh Q R"
  shows "\<exists>Q'. qhat_loop v1 v2 u2 Qh Q R = Some Q' \<and> qhat_good v1 v2 u2 U1 qt Q'"
proof (rule ccontr)
  assume no: "\<not> ?thesis"
  from qhat_step [OF pre inv] no obtain Q1 R1 h1 where 1:
    "qhat_loop v1 v2 u2 Qh Q R = qhat_loop v1 v2 u2 h1 Q1 R1"
    "qhat_inv v1 U1 qt h1 Q1 R1" "unat R1 = unat R + unat v1" by blast
  from qhat_step [OF pre 1(2)] no 1(1) obtain R2 :: z_digit where "unat R2 = unat R1 + unat v1" by metis
  then have "2 * unat v1 < zB" using 1(3) digit_lt [of R2] by linarith
  then show False using pre by (simp add: qhat_pre_def)
qed

text \<open>The quantities of one step: a dividend window \<open>w @ [t]\<close> over a normalised divisor \<open>v\<close>.\<close>

lemma zval_top2:
  "zval (xs @ [a, b]) = zval xs + zB ^ length xs * (unat b * zB + unat a)"
  by (simp add: zval_append algebra_simps)

lemma zval_top3:
  "zval (xs @ [a, b, c]) = zval xs + zB ^ length xs * ((unat c * zB + unat b) * zB + unat a)"
  by (simp add: zval_append algebra_simps)

lemma div_less_of_high:
  fixes x y :: nat
  assumes "x < K" and "a < n * b" and "K * b \<le> V"
  shows "(x + K * a) div V < n"
proof -
  have "K * Suc a \<le> K * (n * b)" using assms(2) by (intro mult_le_mono2) simp
  also have "\<dots> \<le> n * V" using assms(3) by (simp add: mult.left_commute)
  finally have "x + K * a < n * V" using assms(1) by simp
  then show ?thesis by (simp add: less_mult_imp_div_less)
qed

lemma step_pre:
  assumes lens: "length vs = length ws" and norm: "zB \<le> 2 * unat v1"
    and U: "zval (ws @ [u2, u1, t]) < zB * zval (vs @ [v2, v1])"
  shows "unat t \<le> unat v1"
    and "qhat_pre v1 v2 u2 (unat t * zB + unat u1) (zval (ws @ [u2, u1, t]) div zval (vs @ [v2, v1]))"
proof -
  let ?K = "zB ^ length vs" and ?V = "zval (vs @ [v2, v1])"
  let ?U1 = "unat t * zB + unat u1" and ?V2 = "unat v1 * zB + unat v2"
  have K: "zval ws < ?K" "zval vs < ?K" using zval_lt [of ws] zval_lt [of vs] lens by simp_all
  have "zval ws + ?K * (?U1 * zB + unat u2) < zB * zval vs + ?K * (zB * ?V2)"
    using U lens by (simp only: zval_top2 zval_top3) (simp add: algebra_simps)
  moreover have "zB * zval vs + ?K * (zB * ?V2) < ?K * (zB * (?V2 + 1))"
    using K(2) by (simp add: algebra_simps)
  ultimately have "zval ws + ?K * (?U1 * zB + unat u2) < 0 + ?K * (zB * (?V2 + 1))" by linarith
  then have "?K * (?U1 * zB + unat u2) < ?K * (zB * (?V2 + 1))" by linarith
  then have "?U1 * zB + unat u2 < zB * (?V2 + 1)" by (simp only: mult_less_cancel1)
  then have "zB * ?U1 < zB * (?V2 + 1)" unfolding mult.commute [of ?U1 zB] by linarith
  then have "?U1 < ?V2 + 1" by (simp only: mult_less_cancel1)
  then have "unat t * zB < (unat v1 + 1) * zB"
    using digit_lt [of v2] unfolding distrib_right mult_1 by linarith
  then show t: "unat t \<le> unat v1" by (metis Suc_eq_plus1 less_Suc_eq_le mult_less_cancel2)
  have "?U1 < (unat v1 + 1) * zB"
    using mult_le_mono1 [OF t, of zB] digit_lt [of u1] unfolding distrib_right mult_1 by linarith
  moreover have "zval (ws @ [u2, u1, t]) div ?V < zB"
    using U by (simp add: less_mult_imp_div_less)
  moreover have "zval (ws @ [u2, u1, t]) div ?V < n" if "?U1 * zB + unat u2 < n * ?V2" for n
    unfolding zval_top3 lens [symmetric]
    by (rule div_less_of_high [OF K(1) that]) (simp add: zval_top2)
  ultimately show "qhat_pre v1 v2 u2 ?U1 (zval (ws @ [u2, u1, t]) div ?V)"
    using norm by (simp add: qhat_pre_def)
qed

lemma step_init:
  assumes lens: "length vs = length ws" and norm: "zB \<le> 2 * unat v1" and t: "unat t \<le> unat v1"
    and d: "zd_dd_div t u1 v1 = (Q, R)"
  shows "qhat_inv v1 (unat t * zB + unat u1)
    (zval (ws @ [u2, u1, t]) div zval (vs @ [v2, v1])) (t = v1) Q R"
proof -
  let ?U1 = "unat t * zB + unat u1"
  have v1: "0 < unat v1" using norm zB_pos by linarith
  have full: "qfull (t = v1) Q = ?U1 div unat v1 \<and> unat R = ?U1 mod unat v1"
  proof (cases "t = v1")
    case True
    have "unat u1 div unat v1 < zB"
      using digit_lt [of u1] by (rule le_less_trans [rotated]) simp
    moreover have "?U1 div unat v1 = zB + unat u1 div unat v1" using True v1 by simp
    moreover have "?U1 mod unat v1 < zB" using v1 digit_lt [of v1] by (meson mod_less_divisor less_trans)
    ultimately show ?thesis using d True by (auto simp: zd_dd_div_def Let_def qfull_def unat_digit)
  next
    case False
    then have "t < v1" using t by (simp add: word_less_nat_alt) (metis le_neq_implies_less word_unat_eq_iff)
    from dd_div [OF d this]
    have "?U1 = unat Q * unat v1 + unat R" "unat R < unat v1" by (simp_all add: word_less_nat_alt)
    then show ?thesis using False v1 by (simp add: qfull_def)
  qed
  have "?U1 < Suc (?U1 div unat v1) * unat v1"
    using dividend_less_div_times [OF v1, of ?U1] by simp
  then have a: "?U1 + 1 \<le> Suc (?U1 div unat v1) * unat v1" by simp
  let ?K = "zB ^ length vs * zB"
  have "zval (ws @ [u2]) < ?K" using zval_lt [of "ws @ [u2]"] lens by (simp add: mult.commute)
  moreover have "?U1 < Suc (?U1 div unat v1) * unat v1" using a by simp
  moreover have "?K * unat v1 \<le> zval (vs @ [v2, v1])" by (simp add: zval_top2 algebra_simps)
  ultimately have "(zval (ws @ [u2]) + ?K * ?U1) div zval (vs @ [v2, v1]) < Suc (?U1 div unat v1)"
    by (rule div_less_of_high)
  moreover have "zval (ws @ [u2, u1, t]) = zval (ws @ [u2]) + ?K * ?U1"
    using lens by (simp add: zval_append algebra_simps)
  ultimately show ?thesis using full by (simp add: qhat_inv_def)
qed

lemma good_le_succ:
  assumes lens: "length vs = length ws" and norm: "zB \<le> 2 * unat v1"
    and good: "qhat_good v1 v2 u2 (unat t * zB + unat u1) qt Q"
  shows "unat Q \<le> zval (ws @ [u2, u1, t]) div zval (vs @ [v2, v1]) + 1"
proof (cases "unat Q")
  case (Suc p)
  let ?K = "zB ^ length vs"
  let ?V2 = "unat v1 * zB + unat v2" and ?U2 = "(unat t * zB + unat u1) * zB + unat u2"
  have "1 \<le> unat v1" using norm zB_pos by linarith
  then have "zB \<le> ?V2" using mult_le_mono1 [of 1 "unat v1" zB] by linarith
  then have p: "p \<le> ?V2" using Suc digit_lt [of Q] by linarith
  have "Suc p * ?V2 \<le> ?U2" using good Suc by (simp add: qhat_good_def)
  then have le: "p * (?V2 + 1) \<le> ?U2" using p by simp
  have "p * zval (vs @ [v2, v1]) \<le> p * (?K * (?V2 + 1))"
    using zval_lt [of vs] by (intro mult_le_mono2) (simp add: zval_top2 algebra_simps)
  also have "\<dots> = ?K * (p * (?V2 + 1))" by (rule mult.left_commute)
  also have "\<dots> \<le> ?K * ?U2" using le by (rule mult_le_mono2)
  also have "\<dots> \<le> zval (ws @ [u2, u1, t])" using lens by (simp add: zval_top3)
  finally have "p * zval (vs @ [v2, v1]) \<le> zval (ws @ [u2, u1, t])" .
  moreover have "0 < zval (vs @ [v2, v1])" using \<open>1 \<le> unat v1\<close> by (simp add: zval_top2)
  ultimately show ?thesis using Suc by (simp add: less_eq_div_iff_mult_less_eq)
qed simp

text \<open>Multiply, subtract and add back: with an estimate that is the quotient digit or one more, the
  window is left with the remainder, its top digit zero.\<close>

lemma mul_sub_exact:
  fixes W V :: nat
  assumes q: "q = U div V" and V: "0 < V" "V < K" and U: "U = W + K * t" and t: "t < B"
    and Q: "q \<le> Q" "Q \<le> q + 1"
    and sub: "W1 + V * Q = W + K * c" and W1: "W1 < K"
    and top: "t1 + c = t + B * of_bool b" and t1: "t1 < B"
  shows "\<not> b \<Longrightarrow> Q = q \<and> W1 = U mod V \<and> t1 = 0"
    and "b \<Longrightarrow> Q = q + 1 \<and> W1 + K * t1 + V = U mod V + K * B"
proof -
  have "K * t1 + K * c = K * t + K * (B * of_bool b)" using top by (metis distrib_left)
  then have main: "(W1 + K * t1) + V * Q = U + K * B * of_bool b"
    using sub U by simp
  have qU: "V * q + U mod V = U" "U mod V < V" using q V(1) by simp_all
  have small: "W1 + K * t1 < K * B"
  proof -
    have "K * Suc t1 \<le> K * B" using t1 by (intro mult_le_mono2) simp
    then show ?thesis using W1 by simp
  qed
  have Qcase: "Q = q \<or> Q = q + 1" using Q by linarith
  show "Q = q \<and> W1 = U mod V \<and> t1 = 0" if "\<not> b"
  proof -
    have e: "(W1 + K * t1) + V * Q = U" using main that by simp
    have Qq: "Q = q"
    proof (rule ccontr)
      assume "Q \<noteq> q"
      then have "V * Q = V * q + V" using Qcase by auto
      then show False using e qU by linarith
    qed
    then have "W1 + K * t1 = U mod V" using e qU by simp
    moreover from this have "K * t1 < K" using qU(2) V(2) by linarith
    then have "t1 = 0" by simp
    ultimately show ?thesis using Qq by simp
  qed
  show "Q = q + 1 \<and> W1 + K * t1 + V = U mod V + K * B" if b
  proof -
    have e: "(W1 + K * t1) + V * Q = U + K * B" using main that by simp
    have Qq: "Q = q + 1"
    proof (rule ccontr)
      assume "Q \<noteq> q + 1"
      then have "V * Q = V * q" using Qcase by auto
      then show False using e qU small by linarith
    qed
    then have "V * Q = V * q + V" by simp
    then show ?thesis using e qU Qq by linarith
  qed
qed

lemma add_back_exact:
  fixes X :: nat
  assumes "W2 + K * (t2 :: nat) = X + K * B" and "W2 < K" and "X < K"
  shows "t2 = B" "W2 = X"
proof -
  have "0 < K" using assms(2) by simp
  have "(W2 + K * t2) div K = (X + K * B) div K" "(W2 + K * t2) mod K = (X + K * B) mod K"
    using assms(1) by simp_all
  then show "t2 = B" "W2 = X" using assms(2,3) \<open>0 < K\<close> by simp_all
qed

lemma digit_word: "unat (x :: z_digit) + unat y = zB \<Longrightarrow> x + y = 0"
  by (simp add: zB_def word_unat_eq_iff unat_word_ariths)

lemma split_last2: "2 \<le> length v \<Longrightarrow> \<exists>vs a b. v = vs @ [a, b]"
  by (metis append_assoc append_Cons append_Nil length_Suc_conv_rev numeral_2_eq_2 le_iff_add add_Suc)

lemma knuth_step_exact:
  assumes lens: "length w = length v" "2 \<le> length v" and norm: "zB \<le> 2 * unat (last v)"
    and U: "zval (w @ [t]) < zB * zval v"
  shows "\<exists>Q w'. zd_div_knuth_step q (low @ w @ [t] @ zs) v (length low) =
      Some (q[length low := Q], low @ w' @ [0] @ zs) \<and> length w' = length v \<and>
      unat Q = zval (w @ [t]) div zval v \<and> zval w' = zval (w @ [t]) mod zval v"
proof -
  obtain vs v2 v1 where v: "v = vs @ [v2, v1]" using split_last2 [OF lens(2)] by blast
  obtain ws u2 u1 where w: "w = ws @ [u2, u1]" using split_last2 [of w] lens by auto
  let ?U = "zval (w @ [t])" and ?V = "zval v" and ?K = "zB ^ length v"
  obtain Q0 R0 where d: "zd_dd_div t u1 v1 = (Q0, R0)" by force
  have l: "length vs = length ws" "zB \<le> 2 * unat v1" using lens norm v w by simp_all
  have wt: "w @ [t] = ws @ [u2, u1, t]" by (simp add: w)
  note pre = step_pre [OF l U [unfolded wt v]]
  from qhat_loop_correct [OF pre(2) step_init [OF l pre(1) d]]
  obtain Q where Q: "qhat_loop v1 v2 u2 (t = v1) Q0 R0 = Some Q"
    and good: "qhat_good v1 v2 u2 (unat t * zB + unat u1) (?U div ?V) Q" unfolding wt v by blast
  have Qb: "?U div ?V \<le> unat Q" "unat Q \<le> ?U div ?V + 1"
    using good good_le_succ [OF l good] by (simp_all add: qhat_good_def wt v)
  obtain w1 c where m: "zd_submul_1 w v Q = (w1, c)" by force
  obtain t1 b where s: "sub_overflow t c = (t1, b)" by force
  have m': "length w1 = length v" "zval w1 + ?V * unat Q = zval w + ?K * unat c"
    using zd_submul_1_exact [OF m lens(1)] by simp_all
  have V: "0 < ?V" "?V < ?K" using U zval_lt [of v] by (auto intro: gr0I)
  have U': "?U = zval w + ?K * unat t" using lens by (simp add: zval_snoc)
  have W1: "zval w1 < ?K" using zval_lt [of w1] m' by simp
  note ms = mul_sub_exact [OF refl V U' digit_lt Qb m'(2) W1 sub_ov [OF s] digit_lt]
  have idx: "(low @ w @ [t] @ zs) ! (length low + length v) = t"
    "(low @ w @ [t] @ zs) ! (length low + length v - 1) = u1"
    "(low @ w @ [t] @ zs) ! (length low + length v - 2) = u2"
    "v ! (length v - 1) = v1" "v ! (length v - 2) = v2"
    "take (length v) (drop (length low) (low @ w @ [t] @ zs)) = w"
    "take (length low) (low @ w @ [t] @ zs) = low"
    "drop (length low + length v + 1) (low @ w @ [t] @ zs) = zs"
    using l by (simp_all add: v w nth_append)
  have step: "zd_div_knuth_step q (low @ w @ [t] @ zs) v (length low) =
      (if b then let (w', c') = zd_add_n w1 v in Some (q[length low := Q - 1], low @ w' @ [t1 + c'] @ zs)
       else Some (q[length low := Q], low @ w1 @ [t1] @ zs))"
    unfolding zd_div_knuth_step_def Let_def idx d prod.case Q option.case m s by (rule refl)
  show ?thesis
  proof (cases b)
    case False
    from ms(1) [OF this] have "unat Q = ?U div ?V" "zval w1 = ?U mod ?V" "t1 = 0"
      by (simp_all add: unat_eq_zero)
    then show ?thesis using False m'(1)
      unfolding step by (intro exI [of _ Q] exI [of _ w1]) simp
  next
    case True
    obtain w2 c2 where a: "zd_add_n w1 v = (w2, c2)" by force
    have a': "length w2 = length v" "zval w2 + ?K * unat c2 = zval w1 + ?V"
      using zd_add_n_exact [OF a m'(1)] m'(1) by simp_all
    from ms(2) [OF True] have qt: "unat Q = ?U div ?V + 1"
      and e: "zval w1 + ?K * unat t1 + ?V = ?U mod ?V + ?K * zB" by simp_all
    have "zval w2 + ?K * (unat t1 + unat c2) = ?U mod ?V + ?K * zB"
      using e a'(2) by (simp add: algebra_simps)
    moreover have "zval w2 < ?K" using zval_lt [of w2] a' by simp
    moreover have "?U mod ?V < ?K" using V by (meson mod_less_divisor less_trans)
    ultimately have "unat t1 + unat c2 = zB" "zval w2 = ?U mod ?V" by (rule add_back_exact)+
    moreover have "unat (Q - 1) = ?U div ?V"
      using qt by (subst unat_minus_one) (auto simp: unat_eq_zero)
    ultimately show ?thesis using True a'(1) digit_word [of t1 c2]
      unfolding step by (intro exI [of _ "Q - 1"] exI [of _ w2]) (simp add: a)
  qed
qed

lemma knuth_loop_exact:
  assumes v: "2 \<le> length v" "zB \<le> 2 * unat (last v)"
  shows "length w = length v \<Longrightarrow> zval w < zval v \<Longrightarrow> length low \<le> length q \<Longrightarrow>
    \<exists>q' w' zs'. knuth_loop (length low) q (low @ w @ zs) v = Some (q', w' @ zs') \<and>
      length q' = length q \<and> length w' = length v \<and>
      drop (length low) q' = drop (length low) q \<and>
      zval (take (length low) q') * zval v + zval w' = zval (low @ w) \<and> zval w' < zval v"
proof (induction low arbitrary: w zs q rule: rev_induct)
  case Nil
  then show ?case by auto
next
  case (snoc x low)
  let ?l = "length low"
  obtain w0 t where w0: "x # w = w0 @ [t]" by (metis append_butlast_last_id list.distinct(1))
  have len: "length w0 = length v" using arg_cong [OF w0, of length] snoc.prems(1) by simp
  have val: "zval (w0 @ [t]) = unat x + zB * zval w" by (simp flip: w0)
  have "unat x + zB * zval w < zB * Suc (zval w)" by simp
  also have "\<dots> \<le> zB * zval v" using snoc.prems(2) by (intro mult_le_mono2) simp
  finally have lt: "zval (w0 @ [t]) < zB * zval v" by (simp add: val)
  from knuth_step_exact [OF len v lt, of q low zs] obtain Q w1 where
    st: "zd_div_knuth_step q (low @ w0 @ [t] @ zs) v ?l = Some (q[?l := Q], low @ w1 @ [0] @ zs)"
    and w1: "length w1 = length v" "unat Q = zval (w0 @ [t]) div zval v" "zval w1 = zval (w0 @ [t]) mod zval v"
    by blast
  have pos: "0 < zval v" using snoc.prems(2) by simp
  then have "zval w1 < zval v" by (simp add: w1)
  from snoc.IH [OF w1(1) this, of "q[?l := Q]" "[0] @ zs"] snoc.prems(3)
  obtain q' w' zs' where r: "knuth_loop ?l (q[?l := Q]) (low @ w1 @ [0] @ zs) v = Some (q', w' @ zs')"
    "length q' = length q" "length w' = length v" "drop ?l q' = drop ?l (q[?l := Q])"
    "zval (take ?l q') * zval v + zval w' = zval (low @ w1)" "zval w' < zval v" by auto
  have u: "(low @ [x]) @ w @ zs = low @ w0 @ [t] @ zs" using w0 by simp
  have l: "?l < length q" using snoc.prems(3) by simp
  have "q' ! ?l = Q" using arg_cong [OF r(4), of hd] l r(2) by (simp add: hd_drop_conv_nth)
  then have "zval (take (Suc ?l) q') = zval (take ?l q') + zB ^ ?l * unat Q"
    using l r(2) by (simp add: take_Suc_conv_app_nth zval_snoc)
  then have "zval (take (Suc ?l) q') * zval v + zval w' = zval low + zB ^ ?l * (unat Q * zval v + zval w1)"
    using r(5) by (simp add: zval_append algebra_simps)
  also have "unat Q * zval v + zval w1 = zval (x # w)" by (simp add: w1 val)
  finally have "zval (take (Suc ?l) q') * zval v + zval w' = zval ((low @ [x]) @ w)"
    by (simp add: zval_append)
  moreover have "drop (Suc ?l) q' = drop (Suc ?l) q"
    using arg_cong [OF r(4), of "drop 1"] by simp
  ultimately show ?case using r st
    by (intro exI [of _ q'] exI [of _ w'] exI [of _ zs']) (simp only: u, simp add: w1)
qed

lemma div_half: "2 * h = zB \<Longrightarrow> K * h \<le> x \<Longrightarrow> x < K * (a + 1) \<Longrightarrow> zB \<le> 2 * (a :: nat)"
proof -
  assume h: "2 * h = zB" and "K * h \<le> x" "x < K * (a + 1)"
  then have "K * h < K * (a + 1)" by linarith
  then have "h < a + 1" by (simp only: mult_less_cancel1)
  then show ?thesis using h by linarith
qed

lemma top_bounds:
  "a \<noteq> [] \<Longrightarrow> zB ^ (length a - 1) * unat (last a) \<le> zval a \<and>
     zval a < zB ^ (length a - 1) * (unat (last a) + 1)"
  using zval_lt [of "butlast a"] zval_snoc [of "butlast a" "last a"] by simp

text \<open>The normalisation shift brings the top digit of the divisor to at least half the base.\<close>

lemma clz_normalises:
  assumes "v \<noteq> [] " "last v \<noteq> 0" and "s = clz64 (last v)"
  shows "s < 64" "2 ^ s * (unat (last v) + 1) \<le> zB" "2 * h = zB \<Longrightarrow> h \<le> 2 ^ s * unat (last v)"
proof -
  let ?t = "unat (last v)" and ?f = "floorlog 2 (unat (last v))"
  have pos: "0 < ?t" using assms(2) by (simp add: unat_gt_0)
  have f: "s + ?f = 64" using floorlog_u64_split [of "last v"] assms(3) by simp
  have f1: "1 \<le> ?f" using floorlog_ge_1 [OF pos] .
  have b: "2 ^ (?f - 1) \<le> ?t" "?t < 2 ^ ?f" using floorlog_bounds [OF pos] by simp_all
  have e: "2 ^ s * 2 ^ ?f = zB" by (simp add: zB_def f flip: power_add)
  show "s < 64" using f f1 by linarith
  have "2 ^ s * (?t + 1) \<le> 2 ^ s * 2 ^ ?f" using b by (intro mult_le_mono2) simp
  then show "2 ^ s * (?t + 1) \<le> zB" by (simp add: e)
  assume "2 * h = zB"
  moreover have "2 * (2 ^ s * 2 ^ (?f - 1)) = zB"
    using f1 e by (simp add: power_eq_if mult.left_commute)
  ultimately have "h = 2 ^ s * 2 ^ (?f - 1)" by linarith
  then show "h \<le> 2 ^ s * ?t" using b(1) by simp
qed

lemma shl_normalised:
  assumes v: "v \<noteq> []" "last v \<noteq> 0" and s: "s = clz64 (last v)"
    and vn: "vn = (if s \<noteq> 0 then fst (zd_shl v s) else v)"
  shows "length vn = length v" "zval vn = 2 ^ s * zval v" "zB \<le> 2 * unat (last vn)"
proof -
  note c = clz_normalises [OF v s]
  let ?K = "zB ^ (length v - 1)"
  have "length vn = length v \<and> zval vn = 2 ^ s * zval v"
  proof (cases "s = 0")
    case False
    obtain r d where r: "zd_shl v s = (r, d)" by force
    note e = zd_shl_exact [OF r _ c(1)]
    have "2 ^ s * zval v < 2 ^ s * (?K * (unat (last v) + 1))" using top_bounds [OF v(1)] by simp
    also have "\<dots> = ?K * (2 ^ s * (unat (last v) + 1))" by (rule mult.left_commute)
    also have "\<dots> \<le> ?K * zB" using c(2) by (rule mult_le_mono2)
    also have "\<dots> = zB ^ length v" using v(1) by (cases v) simp_all
    finally have "zval r + zB ^ length v * unat d < zB ^ length v" using e(3) False by simp
    then have "unat d = 0" by (cases "unat d") simp_all
    then show ?thesis using e False by (simp add: vn r)
  qed (simp add: vn)
  then show l: "length vn = length v" and z: "zval vn = 2 ^ s * zval v" by simp_all
  define h where "h = zB div 2"
  have h: "2 * h = zB" by (simp add: h_def zB_def)
  have vn': "vn \<noteq> []" using l v(1) by auto
  have "?K * h \<le> ?K * (2 ^ s * unat (last v))" using c(3) [OF h] by (rule mult_le_mono2)
  also have "\<dots> = 2 ^ s * (?K * unat (last v))" by (rule mult.left_commute)
  also have "\<dots> \<le> zval vn" using top_bounds [OF v(1)] by (simp add: z)
  finally show "zB \<le> 2 * unat (last vn)" using top_bounds [OF vn'] l by (intro div_half [OF h]) auto
qed

lemma zd_div_knuth_exact:
  assumes lens: "2 \<le> length v" "length v \<le> length u" "length q = length u - length v + 1"
    and top: "last v \<noteq> 0" and mem: "length v + length u < Z_SCRATCH \<or> scratch (length v + length u + 1)"
  shows "\<exists>q' r. zd_div_knuth scratch q u v = Done (q', r) \<and> length q' = length q \<and>
    length r = length v \<and> zval u = zval q' * zval v + zval r \<and> zval r < zval v"
proof -
  have v: "v \<noteq> []" using lens(1) by auto
  define s where s: "s = clz64 (last v)"
  define vn where vn: "vn = (if s \<noteq> 0 then fst (zd_shl v s) else v)"
  define un where un: "un = (if s \<noteq> 0 then (let (x, c) = zd_shl u s in x @ [c]) else u @ [0])"
  note c = clz_normalises [OF v top s] and nv = shl_normalised [OF v top s vn]
  have U: "length un = length u + 1 \<and> zval un = 2 ^ s * zval u"
    using zd_shl_exact [of u s] c(1) by (auto simp: un zval_snoc split: prod.splits)
  let ?k = "length u - length v + 1"
  define low w where "low = take ?k un" and "w = drop ?k un"
  have lw: "length low = ?k" "length w = length v" "low @ w @ [] = un"
    using U lens by (simp_all add: low_def w_def)
  have "zB ^ ?k * zval w \<le> zval un" using zval_append [of low w] lw by simp
  also have "\<dots> < 2 ^ s * zB ^ length u" using U zval_lt [of u] by simp
  also have "zB ^ length u = zB ^ ?k * zB ^ (length v - 1)"
    unfolding power_add [symmetric] using lens by (intro arg_cong [of _ _ "\<lambda>n. zB ^ n"]) simp
  finally have "zB ^ ?k * zval w < zB ^ ?k * (2 ^ s * zB ^ (length v - 1))" by (simp add: mult.left_commute)
  then have "zval w < 2 ^ s * zB ^ (length v - 1)" by (simp only: mult_less_cancel1)
  also have "\<dots> \<le> 2 ^ s * (zB ^ (length v - 1) * unat (last v))"
    using top by (intro mult_le_mono2) (simp add: Suc_le_eq unat_gt_0)
  also have "\<dots> \<le> zval vn" using top_bounds [OF v] by (simp add: nv)
  finally have wlt: "zval w < zval vn" .
  have l2: "2 \<le> length vn" "length w = length vn" "length low \<le> length q" using lens lw nv by simp_all
  from knuth_loop_exact [OF l2(1) nv(3) l2(2) wlt l2(3), of "[]"] lw lens
  obtain q' w' zs' where r: "knuth_loop ?k q un vn = Some (q', w' @ zs')"
    "length q' = length q" "length w' = length v"
    "zval q' * zval vn + zval w' = zval un" "zval w' < zval vn" by (auto simp: nv)
  have sh: "zval (if s \<noteq> 0 then fst (zd_shr w' s) else w') = zval w' div 2 ^ s \<and>
      length (if s \<noteq> 0 then fst (zd_shr w' s) else w') = length v"
    using zd_shr_exact [of w' s] c(1) r(3) by (auto simp: prod_eq_iff)
  have "2 ^ s * (zval q' * zval v) + zval w' = 2 ^ s * zval u"
    using r(4) U by (simp add: nv mult.left_commute)
  then have "zval w' = 2 ^ s * zval u - 2 ^ s * (zval q' * zval v)"
    "2 ^ s * (zval q' * zval v) \<le> 2 ^ s * zval u" by linarith+
  then have "zval w' = 2 ^ s * (zval u - zval q' * zval v)" "zval q' * zval v \<le> zval u"
    by (simp_all add: diff_mult_distrib2)
  then have "zval u = zval q' * zval v + zval w' div 2 ^ s" by simp
  moreover have "zval w' div 2 ^ s < zval v"
    using r(5) by (simp add: nv less_mult_imp_div_less mult.commute)
  moreover have "zd_div_knuth scratch q u v = Done (q', if s \<noteq> 0 then fst (zd_shr w' s) else w')"
    using r mem v unfolding zd_div_knuth_def Let_def last_conv_nth [OF v, symmetric]
      s [symmetric] vn [symmetric] un [unfolded Let_def, symmetric] by (auto simp: not_less)
  ultimately show ?thesis using sh r(2)
    by (intro exI [of _ q'] exI [of _ "if s \<noteq> 0 then fst (zd_shr w' s) else w'"]) auto
qed

lemma zd_divmod_exact:
  assumes "1 \<le> length v" "length v \<le> length u" "length q = length u - length v + 1"
    and "last v \<noteq> 0"
    and "length v = 1 \<or> length v + length u < Z_SCRATCH \<or> scratch (length v + length u + 1)"
  shows "\<exists>q' r. zd_divmod scratch q u v = Done (q', r) \<and>
    length q' = length q \<and> length r = length v \<and>
    zval q' = zval u div zval v \<and> zval r = zval u mod zval v"
proof -
  have uniq: "Q = U div V \<and> R = U mod V" if "U = Q * V + R" "R < V" for Q R U V :: nat
    using that by (metis add.commute div_mult_self3 div_less mod_mult_self3 mod_less add_0 not_less_zero)
  show ?thesis
  proof (cases "length v = 1")
    case True
    then obtain d where v: "v = [d]" by (cases v) auto
    obtain q' r where d: "zd_div_1 u d = (q', r)" by force
    have "0 < d" using assms(4) v by (simp add: word_greater_zero_iff)
    from zd_div_1_exact [OF d this] have e: "length q' = length u" "zval u = zval q' * zval v + zval [r]"
      "zval [r] < zval v" by (simp_all add: v word_less_nat_alt)
    then show ?thesis using assms(2,3) uniq [OF e(2,3)] d by (simp add: zd_divmod_def v)
  next
    case False
    then have "2 \<le> length v" using assms(1) by linarith
    from zd_div_knuth_exact [of v u q scratch, OF this assms(2-4)] False assms(5) obtain q' r where
      "zd_div_knuth scratch q u v = Done (q', r)" "length q' = length q" "length r = length v"
      "zval u = zval q' * zval v + zval r" "zval r < zval v" by blast
    with False show ?thesis using uniq [of "zval u" "zval q'" "zval v" "zval r"]
      by (simp add: zd_divmod_def)
  qed
qed

section \<open>Properties\<close>

text \<open>Schoolbook multiplication \<^verbatim>\<open>zd_mul\<close> computes the exact product in \<open>n + m\<close> digits, and returns
  its top digit.\<close>

theorem zd_mul_product:
  assumes "b \<noteq> []" and "zd_mul a b = (r, t)"
  shows "zval r = zval a * zval b \<and> length r = length a + length b \<and> t = last r"
  using zd_mul_exact [OF assms(2,1)] by simp

theorem zd_mul_product_witness:
  "zval (fst (zd_mul [2 ^ 63, 5] [2, 7])) = zval [2 ^ 63, 5] * zval [2, 7]"
  using zd_mul_product [of "[2, 7]" "[2 ^ 63, 5]", OF _ prod.collapse [symmetric]] by simp

text \<open>Division \<^verbatim>\<open>zd_divmod\<close> (one-digit division and Knuth's algorithm D) always ends, and leaves the
  quotient and the remainder of the Euclidean division, for every divisor without leading zero
  digit whose scratch space can be allocated.\<close>

theorem zd_divmod_euclid:
  assumes "1 \<le> length v" "length v \<le> length u" "length q = length u - length v + 1"
    and "last v \<noteq> 0"
    and "length v = 1 \<or> length v + length u < Z_SCRATCH \<or> scratch (length v + length u + 1)"
  shows "\<exists>q' r. zd_divmod scratch q u v = Done (q', r) \<and>
    length q' = length q \<and> length r = length v \<and>
    zval q' = zval u div zval v \<and> zval r = zval u mod zval v"
  using assms by (rule zd_divmod_exact)

theorem zd_divmod_euclid_witness:
  "\<exists>q' r. zd_divmod (\<lambda>_. False) [0, 0] [5, 7, 9] [3, 4] = Done (q', r) \<and>
     length q' = length [0, 0 :: u64] \<and> length r = length [3, 4 :: u64] \<and> zval q' = zval [5, 7, 9] div zval [3, 4] \<and>
     zval r = zval [5, 7, 9] mod zval [3, 4]"
  using zd_divmod_euclid [of "[3, 4]" "[5, 7, 9]" "[0, 0]" "\<lambda>_. False"]
  by (simp add: Z_SCRATCH_def del: zval.simps)

end
