(* ===== verification/BigInt.thy ===== *)
theory BigInt
  imports BigDigits "HOL-Library.Signed_Division"
begin

text \<open>
  Arbitrary-precision integers, \<^verbatim>\<open>src/native/bigint/z.h\<close> with the allocation macros of
  \<^verbatim>\<open>src/native/bigint.c\<close>: sign and magnitude over the digit vectors of \<open>BigDigits\<close>. A \<open>z_int\<close> holds
  the buffer \<open>zd\<close> at address \<open>zp\<close>, of which the first \<open>zsize\<close> digits are in use. The allocator is a
  parameter: it returns the address and the (arbitrary) contents of a buffer, or fails; \<^verbatim>\<open>Z_FREE\<close> is
  empty in the runtime, so \<^verbatim>\<open>z_free\<close> has no effect. \<open>z_val\<close> is the integer denoted. Every operation is
  shown to return a canonical number with the right value, or \<open>z_err\<close> when an allocation failed.
\<close>

record z_int =
  zd :: digits
  zp :: nat
  zsize :: nat
  zalloc :: nat
  zneg :: bool
  zerr :: bool

type_synonym z_allocator = "nat \<Rightarrow> (nat \<times> digits) option"

definition z_err :: z_int where
  "z_err = \<lparr> zd = [], zp = 0, zsize = 0, zalloc = 0, zneg = False, zerr = True \<rparr>"

definition z_zero :: z_int where
  "z_zero = \<lparr> zd = [], zp = 0, zsize = 0, zalloc = 0, zneg = False, zerr = False \<rparr>"

section \<open>Buffers\<close>

definition z_new :: "z_allocator \<Rightarrow> bool \<Rightarrow> bool \<Rightarrow> nat \<Rightarrow> nat \<Rightarrow> z_int" where
  "z_new al err neg sz alloc =
     (if err then z_err
      else if alloc = 0
      then \<lparr> zd = [], zp = 0, zsize = sz, zalloc = 0, zneg = neg, zerr = False \<rparr>
      else case al alloc of
        None \<Rightarrow> z_err
      | Some (p, d) \<Rightarrow>
          \<lparr> zd = d, zp = p, zsize = sz, zalloc = alloc, zneg = neg, zerr = False \<rparr>)"

text \<open>\<^verbatim>\<open>_z_new_checked\<close>: a failed allocation ends the operation.\<close>

definition z_checked :: "z_int \<Rightarrow> (z_int \<Rightarrow> z_int) \<Rightarrow> z_int" where
  "z_checked r f = (if zerr r then z_err else f r)"

text \<open>Writing digits into a buffer at an offset, and the digits in use.\<close>

definition put :: "digits \<Rightarrow> nat \<Rightarrow> digits \<Rightarrow> digits" where
  "put d n xs = take n d @ xs @ drop (n + length xs) d"

definition used :: "z_int \<Rightarrow> digits" where
  "used a = take (zsize a) (zd a)"

definition z_grow :: "z_int \<Rightarrow> z_digit \<Rightarrow> z_int" where
  "z_grow a b = a\<lparr> zd := (zd a)[zsize a := b], zsize := zsize a + (if b \<noteq> 0 then 1 else 0) \<rparr>"

fun trim_size :: "digits \<Rightarrow> nat \<Rightarrow> nat" where
  "trim_size d 0 = 0"
| "trim_size d (Suc n) = (if d ! n = 0 then trim_size d n else Suc n)"

definition z_trim :: "z_int \<Rightarrow> z_int" where
  "z_trim a =
     (let n = trim_size (zd a) (zsize a) in a\<lparr> zsize := n, zneg := (n \<noteq> 0 \<and> zneg a) \<rparr>)"

definition z_trim_1 :: "z_int \<Rightarrow> z_int" where
  "z_trim_1 a = (if zd a ! (zsize a - 1) = 0 then a\<lparr> zsize := zsize a - 1 \<rparr> else a)"

section \<open>Operations\<close>

definition z_cmp :: "z_int \<Rightarrow> z_int \<Rightarrow> int" where
  "z_cmp a b =
     (if zneg a \<noteq> zneg b then (if zneg a then -1 else 1)
      else let (x, y) = (if zneg a then (b, a) else (a, b))
           in if zsize x \<noteq> zsize y then (if zsize x < zsize y then -1 else 1)
              else let c = zd_cmp (used x) (used y)
                   in if c \<noteq> 0 then (if c > 0 then 1 else -1) else 0)"

text \<open>The bodies of \<^verbatim>\<open>_z_addsub_1\<close> and \<^verbatim>\<open>_z_addsub\<close>, which fill the allocated result.\<close>

definition z_addsub_1_fill :: "z_int \<Rightarrow> z_digit \<Rightarrow> bool \<Rightarrow> bool \<Rightarrow> z_int \<Rightarrow> z_int" where
  "z_addsub_1_fill a b aneg bneg r =
     (if zsize a = 0 then r\<lparr> zd := (zd r)[0 := b], zneg := bneg, zsize := 1 \<rparr>
      else if aneg = bneg
      then (let (x, c) = zd_add_1 (used a) b in z_grow (r\<lparr> zd := put (zd r) 0 x \<rparr>) c)
      else if zsize a = 1 \<and> zd a ! 0 < b
      then r\<lparr> zd := (zd r)[0 := b - zd a ! 0], zneg := bneg \<rparr>
      else z_trim (r\<lparr> zd := put (zd r) 0 (fst (zd_sub_1 (used a) b)) \<rparr>))"

definition z_addsub_1 :: "z_allocator \<Rightarrow> z_int \<Rightarrow> z_digit \<Rightarrow> bool \<Rightarrow> bool \<Rightarrow> z_int" where
  "z_addsub_1 al a b aneg bneg =
     z_checked (z_new al (zerr a) aneg (zsize a) (zsize a + 1)) (z_addsub_1_fill a b aneg bneg)"

definition z_add_1 :: "z_allocator \<Rightarrow> z_int \<Rightarrow> z_digit \<Rightarrow> z_int" where
  "z_add_1 al a b = z_addsub_1 al a b (zneg a) False"

definition z_sub_1 :: "z_allocator \<Rightarrow> z_int \<Rightarrow> z_digit \<Rightarrow> z_int" where
  "z_sub_1 al a b = z_addsub_1 al a b (zneg a) True"

definition z_addsub_fill :: "z_int \<Rightarrow> z_int \<Rightarrow> bool \<Rightarrow> bool \<Rightarrow> z_int \<Rightarrow> z_int" where
  "z_addsub_fill a b aneg bneg r =
     (if aneg = bneg
      then (let (x, c) = zd_add (used a) (used b) in z_grow (r\<lparr> zd := put (zd r) 0 x \<rparr>) c)
      else if zsize a \<noteq> zsize b
      then z_trim (r\<lparr> zd := put (zd r) 0 (fst (zd_sub (used a) (used b))) \<rparr>)
      else if zd_cmp (used a) (used b) < 0
      then z_trim (r\<lparr> zd := put (zd r) 0 (fst (zd_sub_n (used b) (used a))), zneg := bneg \<rparr>)
      else z_trim (r\<lparr> zd := put (zd r) 0 (fst (zd_sub_n (used a) (used b))) \<rparr>))"

definition z_addsub :: "z_allocator \<Rightarrow> z_int \<Rightarrow> z_int \<Rightarrow> bool \<Rightarrow> bool \<Rightarrow> z_int" where
  "z_addsub al a0 b0 aneg0 bneg0 =
     (let (a, b, aneg, bneg) =
            (if zsize a0 < zsize b0 then (b0, a0, bneg0, aneg0) else (a0, b0, aneg0, bneg0))
      in if zsize b = 1 then z_addsub_1 al a (zd b ! 0) aneg bneg
         else z_checked (z_new al (zerr a \<or> zerr b) aneg (zsize a) (zsize a + 1))
                (z_addsub_fill a b aneg bneg))"

definition z_sub :: "z_allocator \<Rightarrow> z_int \<Rightarrow> z_int \<Rightarrow> z_int" where
  "z_sub al a b = z_addsub al a b (zneg a) (if zsize b \<noteq> 0 then \<not> zneg b else False)"

definition z_add :: "z_allocator \<Rightarrow> z_int \<Rightarrow> z_int \<Rightarrow> z_int" where
  "z_add al a b = z_addsub al a b (zneg a) (zneg b)"

definition z_identical :: "z_int \<Rightarrow> z_int \<Rightarrow> bool" where
  "z_identical a b \<longleftrightarrow> zp a = zp b \<and> zsize a = zsize b \<and> zneg a = zneg b"

definition z_mul_fill :: "z_int \<Rightarrow> z_int \<Rightarrow> z_int \<Rightarrow> z_int" where
  "z_mul_fill a b r =
     (if z_identical a b then z_trim_1 (r\<lparr> zd := put (zd r) 0 (fst (zd_sqr (used a))) \<rparr>)
      else if zsize b = 1
      then (let (x, c) = zd_mul_1 (used a) (zd b ! 0)
            in z_trim_1 (r\<lparr> zd := put (zd r) 0 (x @ [c]) \<rparr>))
      else (let (x, t) = zd_mul (used a) (used b)
            in r\<lparr> zd := put (zd r) 0 x, zsize := zsize r - (if t = 0 then 1 else 0) \<rparr>))"

definition z_mul :: "z_allocator \<Rightarrow> z_int \<Rightarrow> z_int \<Rightarrow> z_int" where
  "z_mul al a0 b0 =
     (let (a, b) = (if zsize a0 < zsize b0 then (b0, a0) else (a0, b0))
      in if zsize b = 0 then z_new al (zerr a \<or> zerr b) False 0 0
         else z_checked (z_new al (zerr a \<or> zerr b) (zneg a \<noteq> zneg b)
                           (zsize a + zsize b) (zsize a + zsize b)) (z_mul_fill a b))"

text \<open>\<^verbatim>\<open>z_quorem\<close>: the flags \<open>qp\<close> and \<open>rp\<close> say which results the caller asked for; a result that was
  not asked for is freed, and is returned here only as it stands. A scratch allocation in the
  division that fails is an error like the others.\<close>

definition scratch_ok :: "z_allocator \<Rightarrow> nat \<Rightarrow> bool" where
  "scratch_ok al n \<longleftrightarrow> al n \<noteq> None"

definition z_quorem :: "z_allocator \<Rightarrow> bool \<Rightarrow> bool \<Rightarrow> z_int \<Rightarrow> z_int \<Rightarrow> z_int \<times> z_int" where
  "z_quorem al qp rp a b =
     (let qsize = (zsize a + 1) - zsize b;
          q = z_new al (zerr a \<or> zerr b) (zneg a \<noteq> zneg b \<and> qsize \<noteq> 0) qsize qsize;
          r = z_new al (zerr a \<or> zerr b) (zneg a) (zsize b) (zsize b)
      in if \<not> zerr r \<and> \<not> zerr q \<and> qsize = 0
         then (q, if rp then r\<lparr> zd := put (zd r) 0 (used a), zsize := zsize a \<rparr> else r)
         else if zerr r \<or> zerr q then (z_err, z_err)
         else case zd_divmod (scratch_ok al) (zd q) (used a) (used b) of
           Done (qd, rd) \<Rightarrow>
             (let r1 = r\<lparr> zd := rd \<rparr>; q1 = q\<lparr> zd := qd \<rparr>; q2 = z_trim_1 q1
              in (if qp then (if zsize q2 = 0 then q2\<lparr> zneg := False \<rparr> else q2) else q1,
                  if rp then z_trim r1 else r1))
         | _ \<Rightarrow> (z_err, z_err))"

definition z_quo :: "z_allocator \<Rightarrow> z_int \<Rightarrow> z_int \<Rightarrow> z_int" where
  "z_quo al a b = fst (z_quorem al True False a b)"

definition z_rem :: "z_allocator \<Rightarrow> z_int \<Rightarrow> z_int \<Rightarrow> z_int" where
  "z_rem al a b = snd (z_quorem al False True a b)"

definition z_divmod :: "z_allocator \<Rightarrow> z_int \<Rightarrow> z_int \<Rightarrow> z_int \<times> z_int" where
  "z_divmod al a b =
     (let (q, r) = z_quorem al True True a b
      in if zsize r \<noteq> 0 \<and> zneg a \<noteq> zneg b then (z_sub_1 al q 1, z_add al r b) else (q, r))"

definition z_div :: "z_allocator \<Rightarrow> z_int \<Rightarrow> z_int \<Rightarrow> z_int" where
  "z_div al a b = fst (z_divmod al a b)"

definition z_mod :: "z_allocator \<Rightarrow> z_int \<Rightarrow> z_int \<Rightarrow> z_int" where
  "z_mod al a b = snd (z_divmod al a b)"

section \<open>Bitwise operations\<close>

definition z_unsigned_xor :: "z_allocator \<Rightarrow> z_int \<Rightarrow> z_int \<Rightarrow> z_int" where
  "z_unsigned_xor al a0 b0 =
     (let (a, b) = (if zsize a0 < zsize b0 then (b0, a0) else (a0, b0))
      in z_checked (z_new al (zerr a \<or> zerr b) False (zsize a) (zsize a)) (\<lambda>r.
        let r1 = r\<lparr> zd := put (zd r) 0
                    (zd_xor_n (take (zsize b) (used a)) (used b) @ drop (zsize b) (used a)) \<rparr>
        in if zsize a > zsize b then r1 else z_trim r1))"

definition z_unsigned_and :: "z_allocator \<Rightarrow> z_int \<Rightarrow> z_int \<Rightarrow> z_int" where
  "z_unsigned_and al a b =
     (let n = min (zsize a) (zsize b)
      in z_checked (z_new al (zerr a \<or> zerr b) False n n) (\<lambda>r.
        if zsize r \<noteq> 0
        then z_trim (r\<lparr> zd := put (zd r) 0 (zd_and_n (take n (used a)) (take n (used b))) \<rparr>)
        else r))"

definition z_unsigned_andnot :: "z_allocator \<Rightarrow> z_int \<Rightarrow> z_int \<Rightarrow> z_int" where
  "z_unsigned_andnot al a b =
     z_checked (z_new al (zerr a \<or> zerr b) False (zsize a) (zsize a)) (\<lambda>r.
       let n = min (zsize a) (zsize b)
       in z_trim (r\<lparr> zd := put (zd r) 0
            (zd_andnot_n (take n (used a)) (take n (used b)) @ drop n (used a)) \<rparr>))"

definition z_unsigned_or :: "z_allocator \<Rightarrow> z_int \<Rightarrow> z_int \<Rightarrow> z_int" where
  "z_unsigned_or al a0 b0 =
     (let (a, b) = (if zsize a0 < zsize b0 then (b0, a0) else (a0, b0))
      in z_checked (z_new al (zerr a \<or> zerr b) False (zsize a) (zsize a)) (\<lambda>r.
        r\<lparr> zd := put (zd r) 0
             (zd_or_n (take (zsize b) (used a)) (used b) @ drop (zsize b) (used a)) \<rparr>))"

definition z_unsigned_dec :: "z_allocator \<Rightarrow> z_int \<Rightarrow> z_int" where
  "z_unsigned_dec al a =
     z_checked (z_new al (zerr a) False (zsize a) (zsize a + 1)) (\<lambda>r.
       z_trim (r\<lparr> zd := put (zd r) 0 (fst (zd_sub_1 (used a) 1)) \<rparr>))"

definition z_xor :: "z_allocator \<Rightarrow> z_int \<Rightarrow> z_int \<Rightarrow> z_int" where
  "z_xor al a0 b0 =
     (if \<not> zneg a0 \<and> \<not> zneg b0 then z_unsigned_xor al a0 b0
      else let (a, b) = (if zneg a0 then (b0, a0) else (a0, b0));
               x = z_unsigned_dec al b
           in if zneg a \<and> zneg b then z_unsigned_xor al x (z_unsigned_dec al a)
              else (z_add_1 al (z_unsigned_xor al a x) 1)\<lparr> zneg := True \<rparr>)"

definition z_and :: "z_allocator \<Rightarrow> z_int \<Rightarrow> z_int \<Rightarrow> z_int" where
  "z_and al a0 b0 =
     (if \<not> zneg a0 \<and> \<not> zneg b0 then z_unsigned_and al a0 b0
      else let (a, b) = (if zneg a0 then (b0, a0) else (a0, b0));
               x = z_unsigned_dec al b
           in if zneg a \<and> zneg b
              then (z_add_1 al (z_unsigned_or al x (z_unsigned_dec al a)) 1)\<lparr> zneg := True \<rparr>
              else z_unsigned_andnot al a x)"

definition z_or :: "z_allocator \<Rightarrow> z_int \<Rightarrow> z_int \<Rightarrow> z_int" where
  "z_or al a0 b0 =
     (if \<not> zneg a0 \<and> \<not> zneg b0 then z_unsigned_or al a0 b0
      else let (a, b) = (if zneg a0 then (b0, a0) else (a0, b0));
               x = z_unsigned_dec al b
           in (if zneg a \<and> zneg b
               then z_add_1 al (z_unsigned_and al x (z_unsigned_dec al a)) 1
               else z_add_1 al (z_unsigned_andnot al x a) 1)\<lparr> zneg := True \<rparr>)"

section \<open>Sign, shifts and conversions\<close>

definition z_abs :: "z_int \<Rightarrow> z_int" where
  "z_abs a = a\<lparr> zneg := False, zalloc := 0 \<rparr>"

definition z_neg :: "z_int \<Rightarrow> z_int" where
  "z_neg a = a\<lparr> zneg := (\<not> zneg a \<and> zsize a \<noteq> 0), zalloc := 0 \<rparr>"

definition z_not :: "z_allocator \<Rightarrow> z_int \<Rightarrow> z_int" where
  "z_not al a = z_sub_1 al (z_neg a) 1"

definition z_shl_fill :: "z_int \<Rightarrow> nat \<Rightarrow> nat \<Rightarrow> z_int \<Rightarrow> z_int" where
  "z_shl_fill a n s r =
     (if s \<noteq> 0
      then (let (x, c) = zd_shl (used a) s; g = z_grow (r\<lparr> zd := put (zd r) n x \<rparr>) c
            in g\<lparr> zd := put (zd g) 0 (replicate n 0) \<rparr>)
      else r\<lparr> zd := put (put (zd r) n (used a)) 0 (replicate n 0) \<rparr>)"

definition z_shl :: "z_allocator \<Rightarrow> z_int \<Rightarrow> nat \<Rightarrow> z_int" where
  "z_shl al a b =
     (if zsize a = 0 then z_new al (zerr a) False 0 0
      else let n = b div 64; s = b mod 64
           in z_checked (z_new al (zerr a) (zneg a) (zsize a + n) (zsize a + n + 1)) (z_shl_fill a n s))"

definition z_to_u64 :: "z_int \<Rightarrow> u64" where
  "z_to_u64 a = (let b = (if zsize a = 0 then 0 else zd a ! 0) in if zneg a then - b else b)"

definition z_from_u64 :: "z_allocator \<Rightarrow> u64 \<Rightarrow> z_int" where
  "z_from_u64 al b =
     z_checked (z_new al False False 0 1) (\<lambda>r.
       if b \<noteq> 0 then r\<lparr> zd := (zd r)[0 := b], zsize := 1 \<rparr> else r)"

definition z_from_i64 :: "z_allocator \<Rightarrow> u64 \<Rightarrow> z_int" where
  "z_from_i64 al b =
     (z_from_u64 al (if b <s 0 then - b else b))\<lparr> zneg := (b <s 0) \<rparr>"

definition z_shr :: "z_allocator \<Rightarrow> z_int \<Rightarrow> nat \<Rightarrow> z_int" where
  "z_shr al a b =
     (let n = b div 64; s = b mod 64
      in if zsize a \<le> n \<and> zneg a then z_from_i64 al (- 1)
         else if zsize a = 0 \<or> zsize a \<le> n then z_new al (zerr a) False 0 0
         else z_checked (z_new al (zerr a) (zneg a) (zsize a - n) (zsize a - n)) (\<lambda>r.
           if s \<noteq> 0
           then z_trim_1 (r\<lparr> zd := put (zd r) 0 (fst (zd_shr (drop n (used a)) s)) \<rparr>)
           else r\<lparr> zd := put (zd r) 0 (drop n (used a)) \<rparr>))"

text \<open>\<^verbatim>\<open>z_from_d\<close> on the bits of a double: infinities and NaNs give 0.\<close>

definition z_from_d :: "z_allocator \<Rightarrow> u64 \<Rightarrow> z_int" where
  "z_from_d al bits =
     (let e = unat (drop_bit 52 bits AND 0x7FF)
      in if e = 0x7FF then z_zero
         else let frac = (bits AND (push_bit 52 1 - 1)) OR push_bit 52 1;
                  f = z_from_u64 al frac;
                  r = (if e < 1075 then z_shr al f (1075 - e) else z_shl al f (e - 1075))
              in r\<lparr> zneg := (drop_bit 63 bits \<noteq> 0 \<and> zsize r \<noteq> 0) \<rparr>)"

text \<open>\<^verbatim>\<open>z_from_b\<close>: big-endian bytes, consumed from the last one; \<open>s\<close> is the bit offset in the digit.\<close>

fun z_from_b_loop :: "u8 list \<Rightarrow> nat \<Rightarrow> digits \<Rightarrow> digits" where
  "z_from_b_loop [] s ds = ds"
| "z_from_b_loop (b # bs) s ds =
     (let ds1 = (if s = 0 then ds @ [0] else ds);
          ds2 = butlast ds1 @ [last ds1 OR push_bit s (ucast b)];
          s1 = s + 8
      in z_from_b_loop bs (if 64 \<le> s1 then 0 else s1) ds2)"

definition z_from_b :: "z_allocator \<Rightarrow> u8 list \<Rightarrow> z_int" where
  "z_from_b al buf =
     z_checked (z_new al False False 0 ((8 * length buf + 63) div 64)) (\<lambda>r.
       let ds = z_from_b_loop (rev buf) 0 [] in r\<lparr> zd := put (zd r) 0 ds, zsize := length ds \<rparr>)"

section \<open>Values\<close>

definition z_nat :: "z_int \<Rightarrow> nat" where
  "z_nat a = zval (used a)"

definition z_val :: "z_int \<Rightarrow> int" where
  "z_val a = (if zneg a then - int (z_nat a) else int (z_nat a))"

text \<open>Canonical numbers: the digits in use fit the buffer, the top one is not 0, and 0 is not
  negative. \<open>z_result\<close> is the outcome of an operation: the canonical number of a value, or an error
  that comes from an allocation.\<close>

definition z_ok :: "z_int \<Rightarrow> bool" where
  "z_ok a \<longleftrightarrow> \<not> zerr a \<and> zsize a \<le> length (zd a) \<and>
     (zsize a \<noteq> 0 \<longrightarrow> zd a ! (zsize a - 1) \<noteq> 0) \<and> (zneg a \<longrightarrow> zsize a \<noteq> 0)"

definition al_sound :: "z_allocator \<Rightarrow> bool" where
  "al_sound al \<longleftrightarrow> (\<forall>n p d. al n = Some (p, d) \<longrightarrow> length d = n)"

definition z_result :: "z_allocator \<Rightarrow> z_int \<Rightarrow> int \<Rightarrow> bool" where
  "z_result al r v \<longleftrightarrow> zerr r \<and> (\<exists>n. al n = None) \<or> z_ok r \<and> z_val r = v"

lemma last_take_nth: "n \<noteq> 0 \<Longrightarrow> n \<le> length d \<Longrightarrow> last (take n d) = d ! (n - 1)"
  by (subst last_conv_nth) auto

lemma zB_ge_1 [simp]: "1 \<le> zB" "Suc 0 \<le> zB"
  by (simp_all add: zB_def)

lemma zB_pow_pos [simp]: "0 < zB ^ n"
  by simp

lemma z_okD:
  assumes "z_ok a"
  shows "\<not> zerr a" "length (used a) = zsize a" "zsize a \<noteq> 0 \<Longrightarrow> last (used a) \<noteq> 0"
    "zneg a \<Longrightarrow> zsize a \<noteq> 0" "zsize a \<noteq> 0 \<Longrightarrow> used a \<noteq> []"
  using assms by (auto simp: z_ok_def used_def last_take_nth)

lemma last_nz_iff: "ds \<noteq> [] \<Longrightarrow> last ds \<noteq> 0 \<longleftrightarrow> zB ^ (length ds - 1) \<le> zval ds"
proof
  assume d: "ds \<noteq> []" "last ds \<noteq> 0"
  then have "1 \<le> unat (last ds)" by (simp add: Suc_le_eq unat_gt_0)
  then have "zB ^ (length ds - 1) * 1 \<le> zB ^ (length ds - 1) * unat (last ds)" by (rule mult_le_mono2)
  then show "zB ^ (length ds - 1) \<le> zval ds" using top_bounds [OF d(1)] by linarith
next
  assume d: "ds \<noteq> []" "zB ^ (length ds - 1) \<le> zval ds"
  then show "last ds \<noteq> 0" using top_bounds [OF d(1)] by (auto simp: unat_eq_zero)
qed

lemma z_nat_bounds:
  assumes "z_ok a"
  shows "z_nat a < zB ^ zsize a" "zsize a \<noteq> 0 \<Longrightarrow> zB ^ (zsize a - 1) \<le> z_nat a"
    "z_nat a = 0 \<longleftrightarrow> zsize a = 0"
proof -
  show "z_nat a < zB ^ zsize a" using zval_lt [of "used a"] z_okD [OF assms] by (simp add: z_nat_def)
  show ge: "zB ^ (zsize a - 1) \<le> z_nat a" if "zsize a \<noteq> 0"
    using last_nz_iff [of "used a"] z_okD [OF assms] that by (simp add: z_nat_def)
  have "0 < z_nat a" if "zsize a \<noteq> 0" using less_le_trans [OF zB_pow_pos ge [OF that]] .
  then show "z_nat a = 0 \<longleftrightarrow> zsize a = 0"
    using z_okD(2) [OF assms] by (cases "zsize a = 0") (auto simp: z_nat_def)
qed

lemma z_nat_size_less: "z_ok a \<Longrightarrow> z_ok b \<Longrightarrow> zsize a < zsize b \<Longrightarrow> z_nat a < z_nat b"
proof -
  assume a: "z_ok a" "z_ok b" "zsize a < zsize b"
  then have "zB ^ zsize a \<le> zB ^ (zsize b - 1)" by (intro power_increasing) (auto simp: Suc_le_eq)
  then show ?thesis using z_nat_bounds(1) [OF a(1)] z_nat_bounds(2) [OF a(2)] a(3) by linarith
qed

text \<open>Building a result: from its value and the bound on its top digit, by trimming, or by a carry.\<close>

lemma z_resultI:
  assumes "\<not> zerr r" "zsize r \<le> length (zd r)" "zsize r \<noteq> 0 \<Longrightarrow> zB ^ (zsize r - 1) \<le> z_nat r"
    "zneg r \<Longrightarrow> zsize r \<noteq> 0" "z_val r = v"
  shows "z_result al r v"
proof -
  have "zd r ! (zsize r - 1) \<noteq> 0" if "zsize r \<noteq> 0"
  proof -
    have "used r \<noteq> []" "length (used r) = zsize r" using that assms(2) by (auto simp: used_def)
    then have "last (used r) \<noteq> 0" using last_nz_iff [of "used r"] assms(3) that by (simp add: z_nat_def)
    then show ?thesis using that assms(2) by (simp add: used_def last_take_nth)
  qed
  then show ?thesis using assms by (simp add: z_result_def z_ok_def)
qed

lemma z_result_err [simp]: "al n = None \<Longrightarrow> z_result al z_err v"
  by (auto simp: z_result_def z_err_def)

lemma z_result_checked:
  assumes "al_sound al" "\<not> e"
    and "\<And>r. \<not> zerr r \<Longrightarrow> zneg r = neg \<Longrightarrow> zsize r = n \<Longrightarrow> length (zd r) = k \<Longrightarrow> z_result al (f r) v"
  shows "z_result al (z_checked (z_new al e neg n k) f) v"
  using assms by (auto simp: z_checked_def z_new_def al_sound_def z_err_def z_result_def split: option.splits)

lemma trim_size_le: "trim_size d n \<le> n"
  by (induction n) simp_all

lemma trim_size_top: "trim_size d n \<noteq> 0 \<Longrightarrow> d ! (trim_size d n - 1) \<noteq> 0"
  by (induction n) (auto split: if_splits)

lemma trim_size_zval: "n \<le> length d \<Longrightarrow> zval (take (trim_size d n) d) = zval (take n d)"
  by (induction n) (auto simp: take_Suc_conv_app_nth zval_snoc)

lemma z_result_trim:
  assumes "\<not> zerr r" "zsize r \<le> length (zd r)" "z_val r = v"
  shows "z_result al (z_trim r) v"
proof -
  let ?n = "trim_size (zd r) (zsize r)"
  have "z_ok (z_trim r)"
    using assms trim_size_le [of "zd r" "zsize r"] trim_size_top [of "zd r" "zsize r"]
    by (auto simp: z_ok_def z_trim_def Let_def)
  moreover have "z_nat (z_trim r) = z_nat r"
    using trim_size_zval [OF assms(2)] by (simp add: z_nat_def used_def z_trim_def Let_def)
  moreover have "z_nat (z_trim r) = 0" if "?n = 0" using that by (simp add: z_nat_def used_def z_trim_def)
  ultimately show ?thesis
    using assms by (auto simp: z_result_def z_val_def z_trim_def Let_def)
qed

lemma take_put [simp]: "length x = n \<Longrightarrow> take n (put d 0 x) = x"
  by (simp add: put_def)

lemma length_put [simp]: "n + length x \<le> length d \<Longrightarrow> length (put d n x) = length d"
  by (simp add: put_def)

lemma nth_put_0: "i < length x \<Longrightarrow> put d 0 x ! i = x ! i"
  by (simp add: put_def nth_append)

lemma z_nat_put: "length x = zsize r \<Longrightarrow> z_nat (r\<lparr> zd := put (zd r) 0 x \<rparr>) = zval x"
  by (simp add: z_nat_def used_def)

lemma z_result_grow:
  assumes r: "\<not> zerr r" "zsize r = length x" "length x < length (zd r)" "x \<noteq> []"
    and v: "int (zval x + zB ^ length x * unat c) = (if zneg r then - v else v)"
    and big: "zB ^ (length x - 1) \<le> zval x + zB ^ length x * unat c"
  shows "z_result al (z_grow (r\<lparr> zd := put (zd r) 0 x \<rparr>) c) v"
proof -
  have n: "z_nat (z_grow (r\<lparr> zd := put (zd r) 0 x \<rparr>) c) = zval x + zB ^ length x * unat c"
  proof (cases "c = 0")
    case True
    then show ?thesis using r by (simp add: z_nat_def used_def z_grow_def)
  next
    case False
    then have "take (Suc (length x)) ((put (zd r) 0 x)[length x := c]) = x @ [c]"
      using r by (simp add: take_Suc_conv_app_nth)
    then show ?thesis using False r by (simp add: z_nat_def used_def z_grow_def zval_snoc)
  qed
  show ?thesis
  proof (rule z_resultI)
    let ?g = "z_grow (r\<lparr> zd := put (zd r) 0 x \<rparr>) c"
    show "\<not> zerr ?g" "zsize ?g \<le> length (zd ?g)" "zneg ?g \<Longrightarrow> zsize ?g \<noteq> 0"
      using r by (auto simp: z_grow_def)
    show "zB ^ (zsize ?g - 1) \<le> z_nat ?g"
    proof (cases "c = 0")
      case False
      then have "1 \<le> unat c" by (simp add: Suc_le_eq unat_gt_0)
      then have "zB ^ length x * 1 \<le> zB ^ length x * unat c" by (rule mult_le_mono2)
      then have "zB ^ length x \<le> zval x + zB ^ length x * unat c" by linarith
      then show ?thesis using n r False by (simp add: z_grow_def)
    qed (use n r big in \<open>simp add: z_grow_def\<close>)
    show "z_val ?g = v" using n v by (auto simp: z_val_def) (simp_all add: z_grow_def split: if_splits)
  qed
qed

text \<open>Trimming at most one digit suffices when the value has at least all digits but one.\<close>

lemma z_trim_1_canon:
  assumes "zsize r = length x" "x \<noteq> []" and big: "2 \<le> length x \<Longrightarrow> zB ^ (length x - 2) \<le> zval x"
    and "t = z_trim_1 (r\<lparr> zd := x @ y \<rparr>)"
  shows "z_nat t = zval x" "zsize t \<le> length (zd t)" "zsize t \<noteq> 0 \<Longrightarrow> zd t ! (zsize t - 1) \<noteq> 0"
    "zneg t = zneg r" "zerr t = zerr r"
proof -
  have p: "(x @ y) ! (length x - 1) = last x" using assms(2) by (simp add: nth_append last_conv_nth)
  have b: "butlast x @ [last x] = x" using assms(2) by simp
  show "z_nat t = zval x"
    using assms p b zval_snoc [of "butlast x" "last x"]
    by (auto simp: z_trim_1_def z_nat_def used_def butlast_conv_take)
  show "zsize t \<le> length (zd t)" "zneg t = zneg r" "zerr t = zerr r"
    using assms by (auto simp: z_trim_1_def)
  show "zd t ! (zsize t - 1) \<noteq> 0" if "zsize t \<noteq> 0"
  proof (cases "last x = 0")
    case True
    then have s: "zsize t = length x - 1" "zd t = x @ y" using assms p by (simp_all add: z_trim_1_def)
    then have l: "2 \<le> length x" using that by simp
    have ne: "butlast x \<noteq> []" using l by (cases x) auto
    have "zval (butlast x) = zval x" using zval_snoc [of "butlast x" "last x"] b True by simp
    then have "last (butlast x) \<noteq> 0" using last_nz_iff [OF ne] big [OF l] by (simp add: numeral_2_eq_2)
    moreover have "length x - Suc (Suc 0) < length x" using l by linarith
    ultimately show ?thesis using s l ne by (simp add: last_conv_nth nth_append nth_butlast)
  next
    case False
    then show ?thesis using assms p by (simp add: z_trim_1_def)
  qed
qed

lemma z_trim_1_result:
  assumes r: "\<not> zerr r" "zsize r = length x" "length x \<le> length (zd r)" "x \<noteq> []"
    and v: "int (zval x) = (if zneg r then - v else v)"
    and big: "2 \<le> length x \<Longrightarrow> zB ^ (length x - 2) \<le> zval x" and pos: "zneg r \<Longrightarrow> zval x \<noteq> 0"
  shows "z_result al (z_trim_1 (r\<lparr> zd := put (zd r) 0 x \<rparr>)) v"
proof -
  let ?t = "z_trim_1 (r\<lparr> zd := put (zd r) 0 x \<rparr>)"
  have "?t = z_trim_1 (r\<lparr> zd := x @ drop (length x) (zd r) \<rparr>)" by (simp add: put_def)
  note c = z_trim_1_canon [OF r(2,4) big this]
  have "zsize ?t \<noteq> 0" if "zneg ?t"
  proof
    assume "zsize ?t = 0"
    then have "z_nat ?t = 0" by (simp add: z_nat_def used_def)
    then show False using c(1,4) pos that by simp
  qed
  then show ?thesis using c r v by (auto simp: z_result_def z_ok_def z_val_def)
qed

section \<open>Addition and subtraction\<close>

definition sg :: "bool \<Rightarrow> nat \<Rightarrow> int" where
  "sg neg n = (if neg then - int n else int n)"

lemma z_val_sg: "z_val a = sg (zneg a) (z_nat a)"
  by (simp add: z_val_def sg_def)

lemma sg_0 [simp]: "sg neg 0 = 0"
  by (simp add: sg_def)

lemma no_borrow:
  assumes "zval x + b = zval a + zB ^ n * c" "length x = n" "b \<le> zval a"
  shows "zval x + b = zval a"
proof (cases c)
  case (Suc k)
  have "zB ^ n * 1 \<le> zB ^ n * c" using Suc by (intro mult_le_mono2) simp
  then have False using zval_lt [of x, unfolded assms(2)] assms(1,3) by linarith
  then show ?thesis ..
qed (use assms in simp)

lemma z_nat_one: "z_ok a \<Longrightarrow> zsize a = 1 \<Longrightarrow> z_nat a = unat (zd a ! 0)"
  by (simp add: z_nat_def used_def z_ok_def take_Suc_conv_app_nth Suc_le_eq)

lemma z_result_digit:
  "\<not> zerr r \<Longrightarrow> 1 \<le> length (zd r) \<Longrightarrow> b \<noteq> 0 \<Longrightarrow> v = sg neg (unat b) \<Longrightarrow>
     z_result al (r\<lparr> zd := (zd r)[0 := b], zneg := neg, zsize := 1 \<rparr>) v"
  by (intro z_resultI)
    (auto simp: z_nat_def used_def z_val_def sg_def take_Suc_conv_app_nth unat_gt_0 Suc_le_eq)

lemma z_result_digit_one:
  "\<not> zerr r \<Longrightarrow> zsize r = 1 \<Longrightarrow> 1 \<le> length (zd r) \<Longrightarrow> b \<noteq> 0 \<Longrightarrow> v = sg neg (unat b) \<Longrightarrow>
     z_result al (r\<lparr> zd := (zd r)[0 := b], zneg := neg \<rparr>) v"
  by (intro z_resultI)
    (auto simp: z_nat_def used_def z_val_def sg_def take_Suc_conv_app_nth unat_gt_0 Suc_le_eq)

lemma z_addsub_1_fill_result:
  assumes a: "z_ok a" and b: "zsize a = 0 \<longrightarrow> b \<noteq> 0"
    and r: "\<not> zerr r" "zneg r = aneg" "zsize r = zsize a" "length (zd r) = zsize a + 1"
  shows "z_result al (z_addsub_1_fill a b aneg bneg r) (sg aneg (z_nat a) + sg bneg (unat b))"
proof -
  let ?n = "zsize a" and ?v = "sg aneg (z_nat a) + sg bneg (unat b)"
  obtain x c where x: "zd_add_1 (used a) b = (x, c)" by force
  obtain y d where y: "zd_sub_1 (used a) b = (y, d)" by force
  note u = z_okD [OF a] and nb = z_nat_bounds [OF a]
  consider (zero) "?n = 0" | (add) "?n \<noteq> 0" "aneg = bneg"
    | (small) "?n = 1" "aneg \<noteq> bneg" "zd a ! 0 < b"
    | (sub) "?n \<noteq> 0" "aneg \<noteq> bneg" "\<not> (?n = 1 \<and> zd a ! 0 < b)" by blast
  then show ?thesis
  proof cases
    case zero
    then have "z_nat a = 0" using nb(3) by simp
    then show ?thesis using zero r b z_result_digit [of r b ?v bneg al]
      by (simp add: z_addsub_1_fill_def)
  next
    case add
    have e: "length x = ?n" "zval x + zB ^ ?n * unat c = z_nat a + unat b"
      using zd_add_1_exact [OF x] u by (simp_all add: z_nat_def)
    have "z_result al (z_grow (r\<lparr>zd := put (zd r) 0 x\<rparr>) c) ?v"
      by (rule z_result_grow) (use r e add nb(2) in \<open>auto simp: sg_def\<close>)
    then show ?thesis using add x by (simp add: z_addsub_1_fill_def)
  next
    case small
    have lt: "unat (zd a ! 0) < unat b" using small by (simp add: word_less_nat_alt)
    then have "unat (b - zd a ! 0) = unat b - unat (zd a ! 0)"
      by (simp add: unat_sub word_le_nat_alt)
    then have "z_result al (r\<lparr>zd := (zd r)[0 := b - zd a ! 0], zneg := bneg\<rparr>) ?v"
      using r small lt z_nat_one [OF a] by (intro z_result_digit_one) (auto simp: sg_def)
    then show ?thesis using small by (simp add: z_addsub_1_fill_def)
  next
    case sub
    have ge: "unat b \<le> z_nat a"
    proof (cases "?n = 1")
      case True
      then show ?thesis using sub z_nat_one [OF a] by (simp add: word_less_nat_alt)
    next
      case False
      then have "zB ^ 1 \<le> zB ^ (?n - 1)" using sub by (intro power_increasing) auto
      then show ?thesis using nb(2) [OF sub(1)] digit_le [of b] unfolding power_one_right by linarith
    qed
    have e: "length y = ?n" "zval y + unat b = zval (used a) + zB ^ ?n * unat d"
      using zd_sub_1_exact [OF y] u by simp_all
    have "zval y + unat b = z_nat a" using no_borrow [OF e(2,1)] ge by (simp add: z_nat_def)
    then have "int (zval y) + uint b = int (z_nat a)" by (metis of_nat_add of_nat_unat)
    then have "z_result al (z_trim (r\<lparr>zd := put (zd r) 0 y\<rparr>)) ?v"
      using r e sub by (intro z_result_trim) (auto simp: z_val_def sg_def z_nat_put)
    then show ?thesis using sub y by (auto simp: z_addsub_1_fill_def)
  qed
qed

lemma z_addsub_1_result:
  assumes "al_sound al" "z_ok a" "zsize a = 0 \<longrightarrow> b \<noteq> 0"
  shows "z_result al (z_addsub_1 al a b aneg bneg) (sg aneg (z_nat a) + sg bneg (unat b))"
  unfolding z_addsub_1_def
  by (rule z_result_checked) (use assms z_addsub_1_fill_result z_okD in auto)

lemma sub_n_exact:
  assumes "z_nat q \<le> z_nat p" "length (used p) = length (used q)"
  shows "length (fst (zd_sub_n (used p) (used q))) = length (used q) \<and>
    zval (fst (zd_sub_n (used p) (used q))) + z_nat q = z_nat p"
proof -
  obtain w k where w: "zd_sub_n (used p) (used q) = (w, k)" by force
  note e = zd_sub_n_exact [OF w]
  show ?thesis using no_borrow [OF e(3) e(1)] assms w e(1) by (simp add: z_nat_def)
qed

lemma z_addsub_fill_result:
  assumes a: "z_ok a" "zsize a = 0 \<longrightarrow> \<not> aneg" and b: "z_ok b" "zsize b = 0 \<longrightarrow> \<not> bneg"
    and le: "zsize b \<le> zsize a"
    and r: "\<not> zerr r" "zneg r = aneg" "zsize r = zsize a" "length (zd r) = zsize a + 1"
  shows "z_result al (z_addsub_fill a b aneg bneg r) (sg aneg (z_nat a) + sg bneg (z_nat b))"
proof -
  note ua = z_okD [OF a(1)] and ub = z_okD [OF b(1)]
    and na = z_nat_bounds [OF a(1)] and nb = z_nat_bounds [OF b(1)]
  let ?v = "sg aneg (z_nat a) + sg bneg (z_nat b)" and ?n = "zsize a"
  obtain x c where x: "zd_add (used a) (used b) = (x, c)" by force
  obtain y d where y: "zd_sub (used a) (used b) = (y, d)" by force
  consider (zero) "?n = 0" | (add) "?n \<noteq> 0" "aneg = bneg" | (big) "?n \<noteq> 0" "aneg \<noteq> bneg" "?n \<noteq> zsize b"
    | (less) "aneg \<noteq> bneg" "?n = zsize b" "z_nat a < z_nat b"
    | (ge) "aneg \<noteq> bneg" "?n = zsize b" "z_nat b \<le> z_nat a" by linarith
  then show ?thesis
  proof cases
    case zero
    have "x = [] \<and> c = 0" using x ua(2) ub(2) le zero
      by (simp add: zd_add_def zd_add_n_def)
    then show ?thesis using zero le a b na(3) nb(3) r x
      by (simp add: z_addsub_fill_def z_grow_def put_def)
        (intro z_resultI, auto simp: z_val_def z_nat_def used_def sg_def)
  next
    case add
    have e: "length x = ?n" "zval x + zB ^ ?n * unat c = z_nat a + z_nat b"
      using zd_add_exact [OF x] ua ub le by (simp_all add: z_nat_def)
    have "z_result al (z_grow (r\<lparr>zd := put (zd r) 0 x\<rparr>) c) ?v"
      by (rule z_result_grow) (use r e add na(2) in \<open>auto simp: sg_def\<close>)
    then show ?thesis using add x by (simp add: z_addsub_fill_def)
  next
    case big
    then have lt: "z_nat b < z_nat a" using z_nat_size_less [OF b(1) a(1)] le by simp
    have e: "length y = ?n" "zval y + zval (used b) = zval (used a) + zB ^ ?n * unat d"
      using zd_sub_exact [OF y] ua ub le by simp_all
    have "zval y + z_nat b = z_nat a" using no_borrow [OF e(2,1)] lt by (simp add: z_nat_def)
    then have "z_result al (z_trim (r\<lparr>zd := put (zd r) 0 y\<rparr>)) ?v"
      using r e big by (intro z_result_trim) (auto simp: z_val_def sg_def z_nat_put)
    then show ?thesis using big y by (simp add: z_addsub_fill_def)
  next
    case less
    then have "zd_cmp (used a) (used b) < 0" using zd_cmp_exact [of "used a" "used b"] ua ub by (simp add: z_nat_def)
    moreover have "z_result al (z_trim (r\<lparr>zd := put (zd r) 0 (fst (zd_sub_n (used b) (used a))), zneg := bneg\<rparr>)) ?v"
      using r sub_n_exact [of a b] ua(2) ub(2) less
      by (intro z_result_trim) (auto simp: z_val_def sg_def z_nat_def used_def)
    ultimately show ?thesis using less by (simp add: z_addsub_fill_def)
  next
    case ge
    then have "\<not> zd_cmp (used a) (used b) < 0" using zd_cmp_exact [of "used a" "used b"] ua ub by (simp add: z_nat_def)
    moreover have "z_result al (z_trim (r\<lparr>zd := put (zd r) 0 (fst (zd_sub_n (used a) (used b)))\<rparr>)) ?v"
      using r sub_n_exact [of b a] ua(2) ub(2) ge
      by (intro z_result_trim) (auto simp: z_val_def sg_def z_nat_put)
    ultimately show ?thesis using ge by (simp add: z_addsub_fill_def)
  qed
qed

lemma z_addsub_sorted_result:
  assumes al: "al_sound al" and "z_ok a" "zsize a = 0 \<longrightarrow> \<not> aneg" "z_ok b" "zsize b = 0 \<longrightarrow> \<not> bneg"
    and le: "zsize b \<le> zsize a"
  shows "z_result al (if zsize b = 1 then z_addsub_1 al a (zd b ! 0) aneg bneg
         else z_checked (z_new al (zerr a \<or> zerr b) aneg (zsize a) (zsize a + 1)) (z_addsub_fill a b aneg bneg))
       (sg aneg (z_nat a) + sg bneg (z_nat b))"
proof (cases "zsize b = 1")
  case True
  then show ?thesis using z_addsub_1_result [OF al assms(2), of "zd b ! 0" aneg bneg]
      z_nat_one [OF assms(4)] le by simp
next
  case False
  have "z_result al (z_checked (z_new al (zerr a \<or> zerr b) aneg (zsize a) (zsize a + 1)) (z_addsub_fill a b aneg bneg))
       (sg aneg (z_nat a) + sg bneg (z_nat b))"
    by (rule z_result_checked [OF al]) (use assms z_addsub_fill_result z_okD in auto)
  then show ?thesis using False by simp
qed

lemma z_addsub_result:
  assumes al: "al_sound al" and a: "z_ok a" "zsize a = 0 \<longrightarrow> \<not> aneg"
    and b: "z_ok b" "zsize b = 0 \<longrightarrow> \<not> bneg"
  shows "z_result al (z_addsub al a b aneg bneg) (sg aneg (z_nat a) + sg bneg (z_nat b))"
proof (cases "zsize a < zsize b")
  case True
  then show ?thesis using z_addsub_sorted_result [OF al b a] by (simp add: z_addsub_def add.commute)
next
  case False
  then show ?thesis using z_addsub_sorted_result [OF al a b] by (simp add: z_addsub_def)
qed

lemma z_add_result: "al_sound al \<Longrightarrow> z_ok a \<Longrightarrow> z_ok b \<Longrightarrow> z_result al (z_add al a b) (z_val a + z_val b)"
  unfolding z_add_def z_val_sg by (rule z_addsub_result) (auto simp: z_ok_def)

lemma z_sub_result: "al_sound al \<Longrightarrow> z_ok a \<Longrightarrow> z_ok b \<Longrightarrow> z_result al (z_sub al a b) (z_val a - z_val b)"
proof -
  assume *: "al_sound al" "z_ok a" "z_ok b"
  define bneg where "bneg = (if zsize b \<noteq> 0 then \<not> zneg b else False)"
  have "sg bneg (z_nat b) = - z_val b"
    using z_nat_bounds(3) [OF *(3)] by (auto simp: bneg_def sg_def z_val_def)
  moreover have "zsize b = 0 \<longrightarrow> \<not> bneg" by (simp add: bneg_def)
  moreover have "z_sub al a b = z_addsub al a b (zneg a) bneg" by (simp add: z_sub_def bneg_def)
  moreover have "zsize a = 0 \<longrightarrow> \<not> zneg a" using z_okD(4) [OF *(2)] by blast
  ultimately show ?thesis
    using z_addsub_result [OF *(1,2) _ *(3), of "zneg a" bneg] by (simp add: z_val_sg)
qed

lemma z_add_1_result:
  "al_sound al \<Longrightarrow> z_ok a \<Longrightarrow> b \<noteq> 0 \<Longrightarrow> z_result al (z_add_1 al a b) (z_val a + int (unat b))"
  using z_addsub_1_result [of al a b "zneg a" False] by (simp add: z_add_1_def z_val_sg) (simp add: sg_def)

lemma z_sub_1_result:
  "al_sound al \<Longrightarrow> z_ok a \<Longrightarrow> b \<noteq> 0 \<Longrightarrow> z_result al (z_sub_1 al a b) (z_val a - int (unat b))"
  using z_addsub_1_result [of al a b "zneg a" True] by (simp add: z_sub_1_def z_val_sg) (simp add: sg_def)

section \<open>Comparison, multiplication and division\<close>

lemma z_cmp_result:
  assumes "z_ok a" "z_ok b"
  shows "z_cmp a b = (if z_val a < z_val b then -1 else if z_val a = z_val b then 0 else 1)"
proof -
  have mag: "(if zsize x \<noteq> zsize y then (if zsize x < zsize y then -1 else 1)
      else let c = zd_cmp (used x) (used y) in if c \<noteq> 0 then (if c > 0 then 1 else -1) else 0) =
      (if z_nat x < z_nat y then -1 else if z_nat x = z_nat y then 0 else (1 :: int))"
    if "z_ok x" "z_ok y" for x y
    using z_nat_size_less [of x y] z_nat_size_less [of y x] that z_okD(2) [OF that(1)] z_okD(2) [OF that(2)]
      zd_cmp_exact [of "used x" "used y"]
    by (cases "zsize x" "zsize y" rule: linorder_cases) (auto simp: z_nat_def)
  have pos: "0 < z_nat x" if "z_ok x" "zneg x" for x
    using z_nat_bounds(3) [OF that(1)] z_okD(4) [OF that(1)] that(2) by simp
  show ?thesis
    using mag [of a b] mag [of b a] assms pos [of a] pos [of b]
    by (auto simp: z_cmp_def z_val_def)
qed

definition al_aliases :: "z_int \<Rightarrow> z_int \<Rightarrow> bool" where
  "al_aliases a b \<longleftrightarrow> (zp a = zp b \<longrightarrow> zd a = zd b)"

lemma z_mul_sorted_result:
  assumes al: "al_sound al" and a: "z_ok a" and b: "z_ok b" and le: "zsize b \<le> zsize a" "zsize b \<noteq> 0"
    and als: "al_aliases a b"
  shows "z_result al (z_checked (z_new al (zerr a \<or> zerr b) (zneg a \<noteq> zneg b)
                           (zsize a + zsize b) (zsize a + zsize b)) (z_mul_fill a b))
     (z_val a * z_val b)"
proof (rule z_result_checked [OF al])
  note ua = z_okD [OF a] and ub = z_okD [OF b] and na = z_nat_bounds [OF a] and nb = z_nat_bounds [OF b]
  let ?P = "z_nat a * z_nat b" and ?v = "z_val a * z_val b"
  show "\<not> (zerr a \<or> zerr b)" using ua ub by simp
  fix r :: z_int
  assume r: "\<not> zerr r" "zneg r = (zneg a \<noteq> zneg b)" "zsize r = zsize a + zsize b"
    "length (zd r) = zsize a + zsize b"
  have v: "int ?P = (if zneg r then - ?v else ?v)" using r(2) by (auto simp: z_val_def)
  have sz: "zsize a \<noteq> 0" using le by simp
  have "zB ^ (zsize a - 1) * zB ^ (zsize b - 1) \<le> ?P" using na(2) nb(2) sz le by (intro mult_le_mono) auto
  then have big: "zB ^ (zsize a + zsize b - 2) \<le> ?P"
    using sz le by (simp flip: power_add) (metis Nat.add_diff_assoc2 One_nat_def Suc_leI
        add_diff_cancel_left diff_diff_left neq0_conv numeral_2_eq_2 plus_1_eq_Suc add.commute)
  have T: "z_result al (z_trim_1 (r\<lparr> zd := put (zd r) 0 x \<rparr>)) ?v"
    if "length x = zsize a + zsize b" "zval x = ?P" for x
    by (rule z_trim_1_result) (use r that v big sz le na(3) nb(3) in auto)
  consider (same) "z_identical a b" | (one) "\<not> z_identical a b" "zsize b = 1"
    | (many) "\<not> z_identical a b" "zsize b \<noteq> 1" by blast
  then show "z_result al (z_mul_fill a b r) ?v"
  proof cases
    case same
    then have "used a = used b" using als by (simp add: z_identical_def al_aliases_def used_def)
    then have "length (fst (zd_sqr (used a))) = zsize a + zsize b" "zval (fst (zd_sqr (used a))) = ?P"
      using zd_mul_exact [of "used a" "used a"] ua sz le same
      by (auto simp: zd_sqr_def z_nat_def z_identical_def prod_eq_iff)
    then show ?thesis using T same by (simp add: z_mul_fill_def)
  next
    case one
    obtain x c where x: "zd_mul_1 (used a) (zd b ! 0) = (x, c)" by force
    have "length (x @ [c]) = zsize a + zsize b" "zval (x @ [c]) = ?P"
      using zd_mul_1_exact [OF x] ua z_nat_one [OF b] one by (simp_all add: z_nat_def zval_snoc)
    then show ?thesis using T [of "x @ [c]"] one x by (simp add: z_mul_fill_def)
  next
    case many
    obtain x t where x: "zd_mul (used a) (used b) = (x, t)" by force
    note e = zd_mul_exact [OF x ub(5) [OF le(2)]]
    have l: "length x = zsize a + zsize b" "zval x = ?P" "x \<noteq> []"
      using e ua ub sz by (auto simp: z_nat_def)
    have "r\<lparr> zd := put (zd r) 0 x, zsize := zsize r - (if t = 0 then 1 else 0) \<rparr> =
        z_trim_1 (r\<lparr> zd := put (zd r) 0 x \<rparr>)"
      using r(3) l e(3) sz by (cases r) (simp add: z_trim_1_def nth_put_0 last_conv_nth)
    then show ?thesis using T [OF l(1,2)] many x by (simp add: z_mul_fill_def)
  qed
qed

lemma z_mul_result:
  assumes al: "al_sound al" and a: "z_ok a" and b: "z_ok b" and als: "al_aliases a b"
  shows "z_result al (z_mul al a b) (z_val a * z_val b)"
proof -
  have zero: "z_result al (z_new al e False 0 0) 0" if "\<not> e" for e
    using that by (intro z_resultI) (simp_all add: z_new_def z_val_def z_nat_def used_def)
  have z0: "z_val x = 0" if "z_ok x" "zsize x = 0" for x
    using z_nat_bounds(3) [OF that(1)] that(2) by (simp add: z_val_def)
  have als': "al_aliases b a" using als by (auto simp: al_aliases_def)
  note ea = z_okD(1) [OF a] and eb = z_okD(1) [OF b]
  show ?thesis
  proof (cases "zsize a < zsize b")
    case True
    then show ?thesis using zero z0 [OF a] z_mul_sorted_result [OF al b a _ _ als'] ea eb
      by (cases "zsize a = 0") (simp_all add: z_mul_def mult.commute)
  next
    case False
    then show ?thesis using zero z0 [OF b] z_mul_sorted_result [OF al a b _ _ als] ea eb
      by (cases "zsize b = 0") (simp_all add: z_mul_def)
  qed
qed

lemma z_new_ok:
  assumes "al_sound al" "\<not> zerr (z_new al e neg n k)"
  shows "zneg (z_new al e neg n k) = neg" "zsize (z_new al e neg n k) = n" "length (zd (z_new al e neg n k)) = k"
  using assms by (auto simp: z_new_def al_sound_def z_err_def split: if_splits option.splits)

lemma z_new_fail: "\<not> e \<Longrightarrow> zerr (z_new al e neg n k) \<Longrightarrow> \<exists>n. al n = None"
  by (auto simp: z_new_def split: if_splits option.splits)

lemma z_err_simps [simp]: "zerr z_err" "zsize z_err = 0"
  by (simp_all add: z_err_def)

text \<open>A result buffer that is filled completely, used from the start.\<close>

lemma z_result_fill:
  assumes "\<not> zerr r" "zsize r = length x" "zneg r \<Longrightarrow> x \<noteq> []" "x \<noteq> [] \<Longrightarrow> last x \<noteq> 0" "v = sg (zneg r) (zval x)"
  shows "z_result al (r\<lparr> zd := x \<rparr>) v"
  using assms by (auto simp: z_result_def z_ok_def z_val_sg z_nat_def used_def last_conv_nth)

lemma put_all: "length x = length d \<Longrightarrow> put d 0 x = x"
  by (simp add: put_def)

text \<open>A quotient of canonical magnitudes fills all its digits but possibly one.\<close>

lemma quotient_digits:
  assumes a: "z_ok a" and b: "z_ok b" "zsize b \<noteq> 0" and le: "zsize b + 1 \<le> zsize a"
  shows "zB ^ (zsize a - 1 - zsize b) \<le> z_nat a div z_nat b"
proof -
  note na = z_nat_bounds [OF a] and nb = z_nat_bounds [OF b(1)]
  have "zB ^ (zsize a - 1 - zsize b) * z_nat b \<le> zB ^ (zsize a - 1 - zsize b) * zB ^ zsize b"
    using nb(1) by (intro mult_le_mono2) simp
  also have "\<dots> = zB ^ (zsize a - 1)" using le by (simp flip: power_add)
  also have "\<dots> \<le> z_nat a" using na(2) le by simp
  finally show ?thesis using nb(3) b(2) by (simp add: less_eq_div_iff_mult_less_eq)
qed

lemma z_quotient_ok:
  assumes Q: "zneg Q = neg" "\<not> zerr Q" "zsize Q = length qd" "qd \<noteq> []"
    and big: "2 \<le> length qd \<Longrightarrow> zB ^ (length qd - 2) \<le> zval qd" and q2: "q2 = z_trim_1 (Q\<lparr>zd := qd\<rparr>)"
    and q: "q = (if zsize q2 = 0 then q2\<lparr> zneg := False \<rparr> else q2)"
  shows "z_ok q" "z_val q = sg neg (zval qd)"
proof -
  note c = z_trim_1_canon [OF Q(3,4) big, of q2 "[]"] q2
  have "z_nat q2 = 0" if "zsize q2 = 0" using that by (simp add: z_nat_def used_def)
  moreover have "z_nat (q2\<lparr>zneg := x\<rparr>) = z_nat q2" for x by (simp add: z_nat_def used_def)
  ultimately show "z_ok q" "z_val q = sg neg (zval qd)"
    using q Q c by (auto simp: z_ok_def z_val_sg)
qed

lemma z_quorem_result:
  assumes al: "al_sound al" and a: "z_ok a" and b: "z_ok b" "zsize b \<noteq> 0"
    and q: "z_quorem al qp rp a b = (q, r)"
  shows "(qp \<longrightarrow> z_result al q (sg (zneg a \<noteq> zneg b) (z_nat a div z_nat b))) \<and>
    (rp \<longrightarrow> z_result al r (sg (zneg a) (z_nat a mod z_nat b))) \<and>
    (zerr q \<and> qp \<or> zerr r \<and> rp \<longrightarrow> q = z_err \<and> r = z_err)" (is ?goal)
proof -
  note ua = z_okD [OF a] and ub = z_okD [OF b(1)] and na = z_nat_bounds [OF a] and nb = z_nat_bounds [OF b(1)]
  define qs where "qs = zsize a + 1 - zsize b"
  define Q where "Q = z_new al (zerr a \<or> zerr b) (zneg a \<noteq> zneg b \<and> qs \<noteq> 0) qs qs"
  define R where "R = z_new al (zerr a \<or> zerr b) (zneg a) (zsize b) (zsize b)"
  note def = q [unfolded z_quorem_def, folded qs_def, unfolded Let_def, folded Q_def R_def]
  have e: "\<not> (zerr a \<or> zerr b)" using ua ub by simp
  have fail: ?goal if "q = z_err" "r = z_err" "\<exists>n. al n = None" using that by auto
  have QR: "zneg Q = (zneg a \<noteq> zneg b \<and> qs \<noteq> 0)" "zsize Q = qs" "length (zd Q) = qs" if "\<not> zerr Q"
    using z_new_ok [OF al] that unfolding Q_def by simp_all
  have RR: "zneg R = zneg a" "zsize R = zsize b" "length (zd R) = zsize b" if "\<not> zerr R"
    using z_new_ok [OF al] that unfolding R_def by simp_all
  consider (alloc) "zerr Q \<or> zerr R" | (lt) "\<not> zerr Q" "\<not> zerr R" "qs = 0"
    | (div) "\<not> zerr Q" "\<not> zerr R" "qs \<noteq> 0"
        "length (used b) = 1 \<or> length (used b) + length (used a) < Z_SCRATCH \<or>
         scratch_ok al (length (used b) + length (used a) + 1)"
    | (nomem) "\<not> zerr Q" "\<not> zerr R" "qs \<noteq> 0" "length (used b) \<noteq> 1"
        "Z_SCRATCH \<le> length (used b) + length (used a)"
        "\<not> scratch_ok al (length (used b) + length (used a) + 1)" by linarith
  then show ?goal
  proof cases
    case alloc
    then have "\<exists>n. al n = None" using z_new_fail [OF e] unfolding Q_def R_def by blast
    then show ?thesis using alloc fail def by auto
  next
    case lt
    then have sz: "zsize a < zsize b" by (simp add: qs_def)
    then have n: "z_nat a < z_nat b" by (rule z_nat_size_less [OF a b(1)])
    have q': "q = Q" "rp \<Longrightarrow> r = R\<lparr> zd := put (zd R) 0 (used a), zsize := zsize a \<rparr>"
      using def lt by auto
    have "z_result al q 0" unfolding q'(1)
      using QR lt by (intro z_resultI) (auto simp: z_val_def z_nat_def used_def)
    moreover have "z_result al r (z_val a)" if rp
      unfolding q'(2) [OF that] using RR lt(2) ua sz na(2)
      by (intro z_resultI) (auto simp: z_val_def z_nat_def used_def)
    moreover have "\<not> zerr q" "rp \<Longrightarrow> \<not> zerr r" using q' lt by auto
    ultimately show ?thesis using n by (auto simp: z_val_sg)
  next
    case div
    then have le: "zsize b \<le> zsize a" by (simp add: qs_def)
    have "1 \<le> length (used b)" "length (used b) \<le> length (used a)"
      "length (zd Q) = length (used a) - length (used b) + 1" "last (used b) \<noteq> 0"
      using ua ub le b(2) QR div(1) by (simp_all add: qs_def Suc_le_eq)
    from zd_divmod_exact [of "used b" "used a" "zd Q" "scratch_ok al", OF this div(4)]
    obtain qd rd where d: "zd_divmod (scratch_ok al) (zd Q) (used a) (used b) = Done (qd, rd)"
      "length qd = qs" "length rd = zsize b" "zval qd = z_nat a div z_nat b" "zval rd = z_nat a mod z_nat b"
      using QR div(1) ub by (auto simp: z_nat_def)
    define q2 where "q2 = z_trim_1 (Q\<lparr>zd := qd\<rparr>)"
    have q': "qp \<Longrightarrow> q = (if zsize q2 = 0 then q2\<lparr> zneg := False \<rparr> else q2)"
        "rp \<Longrightarrow> r = z_trim (R\<lparr> zd := rd \<rparr>)"
      using def div d(1) by (auto simp: q2_def Let_def)
    have R: "z_result al r (sg (zneg a) (z_nat a mod z_nat b))" if rp
      unfolding q'(2) [OF that] using RR div(2) d(3,5)
      by (intro z_result_trim) (simp_all add: z_val_sg z_nat_def used_def)
    have qd: "qd \<noteq> []" using d(2) div(3) by auto
    have "zB ^ (qs - 2) \<le> zval qd" if "2 \<le> length qd"
      using quotient_digits [OF a b] that d(2,4) by (simp add: qs_def numeral_2_eq_2)
    then have "z_ok q \<and> z_val q = sg (zneg a \<noteq> zneg b) (z_nat a div z_nat b)" if qp
      using z_quotient_ok [OF QR(1) [OF div(1)] div(1) _ qd _ q2_def q'(1) [OF that]] QR(2) div(1,3) d(2,4)
      by auto
    moreover have "\<not> zerr r" if rp using q'(2) [OF that] div(2) by (simp add: z_trim_def Let_def)
    ultimately show ?thesis using R by (auto simp: z_result_def z_ok_def)
  next
    case nomem
    then have "zd_divmod (scratch_ok al) (zd Q) (used a) (used b) = NoMem"
      by (simp add: zd_divmod_def zd_div_knuth_def Let_def)
    moreover have "\<exists>n. al n = None" using nomem(6) unfolding scratch_ok_def not_not by (rule exI)
    ultimately show ?thesis using fail def nomem by simp
  qed
qed

text \<open>Truncated and floored division of signed magnitudes.\<close>

lemma sg_div_floor:
  assumes "0 < m"
  shows "sg s n div sg t m = (if s \<noteq> t \<and> n mod m \<noteq> 0 then sg (s \<noteq> t) (n div m) - 1 else sg (s \<noteq> t) (n div m))"
    and "sg s n mod sg t m = (if s \<noteq> t \<and> n mod m \<noteq> 0 then sg s (n mod m) + sg t m else sg s (n mod m))"
  using assms mod_less_divisor [OF assms, of n]
  by (auto simp: sg_def zdiv_zminus1_eq_if zdiv_zminus2_eq_if zmod_zminus1_eq_if
      zmod_zminus2_eq_if simp flip: zdiv_int zmod_int)

lemma sg_sdiv:
  assumes "0 < m"
  shows "sg s n sdiv sg t m = sg (s \<noteq> t) (n div m)" "sg s n smod sg t m = sg s (n mod m)"
proof -
  show q: "sg s n sdiv sg t m = sg (s \<noteq> t) (n div m)"
    using assms by (auto simp: sg_def signed_divide_int_def zdiv_int sgn_if)
  have "int n = int m * int (n div m) + int (n mod m)" by (simp flip: of_nat_mult of_nat_add)
  then show "sg s n smod sg t m = sg s (n mod m)"
    unfolding minus_sdiv_mult_eq_smod [symmetric] q by (auto simp: sg_def algebra_simps)
qed

lemma z_quo_result:
  assumes "al_sound al" "z_ok a" "z_ok b" "z_val b \<noteq> 0"
  shows "z_result al (z_quo al a b) (z_val a sdiv z_val b)"
proof -
  have "zsize b \<noteq> 0" "0 < z_nat b" using z_nat_bounds(3) [OF assms(3)] assms(4) by (auto simp: z_val_def split: if_splits)
  then show ?thesis
    using z_quorem_result [OF assms(1-3), of True False "fst (z_quorem al True False a b)" "snd (z_quorem al True False a b)"]
    by (simp add: z_quo_def z_val_sg sg_sdiv)
qed

lemma z_rem_result:
  assumes "al_sound al" "z_ok a" "z_ok b" "z_val b \<noteq> 0"
  shows "z_result al (z_rem al a b) (z_val a smod z_val b)"
proof -
  have "zsize b \<noteq> 0" "0 < z_nat b" using z_nat_bounds(3) [OF assms(3)] assms(4) by (auto simp: z_val_def split: if_splits)
  then show ?thesis
    using z_quorem_result [OF assms(1-3), of False True "fst (z_quorem al False True a b)" "snd (z_quorem al False True a b)"]
    by (simp add: z_rem_def z_val_sg sg_sdiv)
qed

lemma z_divmod_result:
  assumes al: "al_sound al" and a: "z_ok a" and b: "z_ok b" "z_val b \<noteq> 0"
  shows "z_result al (z_div al a b) (z_val a div z_val b)" "z_result al (z_mod al a b) (z_val a mod z_val b)"
proof -
  have sz: "zsize b \<noteq> 0" "0 < z_nat b" using z_nat_bounds(3) [OF b(1)] b(2) by (auto simp: z_val_def split: if_splits)
  obtain q r where qr: "z_quorem al True True a b = (q, r)" by force
  from z_quorem_result [OF al a b(1) sz(1) qr]
  have q: "z_result al q (sg (zneg a \<noteq> zneg b) (z_nat a div z_nat b))"
    and r: "z_result al r (sg (zneg a) (z_nat a mod z_nat b))"
    and err: "zerr q \<or> zerr r \<longrightarrow> q = z_err \<and> r = z_err" by auto
  have "z_result al (z_div al a b) (z_val a div z_val b) \<and> z_result al (z_mod al a b) (z_val a mod z_val b)"
  proof (cases "zerr q \<or> zerr r")
    case True
    then show ?thesis using err q by (auto simp: z_div_def z_mod_def z_divmod_def qr z_result_def z_ok_def)
  next
    case False
    then have ok: "z_ok q" "z_ok r" "z_val r = sg (zneg a) (z_nat a mod z_nat b)"
      "z_val q = sg (zneg a \<noteq> zneg b) (z_nat a div z_nat b)" using q r by (auto simp: z_result_def)
    have "zsize r \<noteq> 0 \<longleftrightarrow> z_nat a mod z_nat b \<noteq> 0"
      using z_nat_bounds(3) [OF ok(2)] ok(3) by (auto simp: z_val_def sg_def split: if_splits)
    moreover note z_sub_1_result [OF al ok(1), of 1] z_add_result [OF al ok(2) b(1)]
    ultimately show ?thesis using q r ok sz(2)
      by (auto simp: z_div_def z_mod_def z_divmod_def qr z_val_sg [of a] z_val_sg [of b] sg_div_floor)
  qed
  then show "z_result al (z_div al a b) (z_val a div z_val b)" "z_result al (z_mod al a b) (z_val a mod z_val b)"
    by simp_all
qed

section \<open>Bitwise operations in two's complement\<close>

lemma bit_zval_Cons: "bit (zval (d # ds)) k = (if k < 64 then bit d k else bit (zval ds) (k - 64))"
proof -
  have "zval (d # ds) = push_bit 64 (zval ds) + unat d"
    by (simp add: push_bit_eq_mult zB_def)
  also have "\<dots> = push_bit 64 (zval ds) OR unat d"
    by (rule or_add_nat [of 64, symmetric]) (simp_all add: push_bit_eq_mult)
  finally show ?thesis
    by (auto simp: bit_or_iff bit_push_bit_iff bit_unsigned_iff dest: bit_imp_le_length)
qed

lemma bit_zval: "bit (zval ds) k \<longleftrightarrow> k div 64 < length ds \<and> bit (ds ! (k div 64)) (k mod 64)"
proof (induction ds arbitrary: k)
  case (Cons d ds)
  show ?case
  proof (cases "k < 64")
    case True
    then show ?thesis by (simp only: bit_zval_Cons) simp
  next
    case False
    then have "k div 64 = Suc ((k - 64) div 64)" "k mod 64 = (k - 64) mod 64"
      using le_div_geq [of 64 k] le_mod_geq [of 64 k] by simp_all
    then show ?thesis using False Cons.IH [of "k - 64"] by (simp only: bit_zval_Cons) simp
  qed
qed simp

lemma bit_int_zval: "bit (int (zval ds)) k \<longleftrightarrow> k div 64 < length ds \<and> bit (ds ! (k div 64)) (k mod 64)"
  by (simp add: bit_of_nat_iff_bit bit_zval)

lemma zval_bitwise:
  assumes "length b \<le> length a"
  shows "int (zval (zd_xor_n (take (length b) a) b @ drop (length b) a)) = int (zval a) XOR int (zval b)"
    and "int (zval (zd_or_n (take (length b) a) b @ drop (length b) a)) = int (zval a) OR int (zval b)"
  using assms by (auto intro!: bit_eqI
      simp: bit_xor_iff bit_or_iff bit_int_zval zd_xor_n_def zd_or_n_def nth_append split: if_splits)

lemma zval_and_andnot:
  shows "int (zval (zd_and_n (take (min (length a) (length b)) a) (take (min (length a) (length b)) b))) =
      int (zval a) AND int (zval b)"
    and "int (zval (zd_andnot_n (take (min (length a) (length b)) a) (take (min (length a) (length b)) b) @
      drop (min (length a) (length b)) a)) = int (zval a) AND NOT (int (zval b))"
  by (auto intro!: bit_eqI
      simp: bit_and_iff bit_not_iff bit_int_zval zd_and_n_def zd_andnot_n_def nth_append split: if_splits)

text \<open>Composition: an error of the operand is an error of the operation.\<close>

lemma z_result_bind:
  "z_result al x v \<Longrightarrow> (zerr x \<Longrightarrow> zerr y) \<Longrightarrow> (z_ok x \<Longrightarrow> z_val x = v \<Longrightarrow> z_result al y w) \<Longrightarrow>
     z_result al y w"
  by (auto simp: z_result_def)

lemma zerr_checked: "e \<Longrightarrow> zerr (z_checked (z_new al e neg n k) f)"
  by (simp add: z_checked_def z_new_def)

lemma zerr_ops:
  "zerr a \<or> zerr b \<Longrightarrow> zerr (z_unsigned_xor al a b)" "zerr a \<or> zerr b \<Longrightarrow> zerr (z_unsigned_and al a b)"
  "zerr a \<or> zerr b \<Longrightarrow> zerr (z_unsigned_or al a b)" "zerr a \<or> zerr b \<Longrightarrow> zerr (z_unsigned_andnot al a b)"
  "zerr a \<Longrightarrow> zerr (z_add_1 al a d)"
  by (auto simp: z_unsigned_xor_def z_unsigned_and_def z_unsigned_or_def z_unsigned_andnot_def
      z_add_1_def z_addsub_1_def Let_def zerr_checked)

lemma z_nat_int: "\<not> zneg a \<Longrightarrow> z_val a = int (z_nat a)"
  by (simp add: z_val_def)

lemma z_result_nonneg_trim:
  assumes "\<not> zerr r" "\<not> zneg r" "length x = zsize r" "zsize r \<le> length (zd r)" "v = int (zval x)"
  shows "z_result al (z_trim (r\<lparr> zd := put (zd r) 0 x \<rparr>)) v"
  by (rule z_result_trim) (use assms in \<open>auto simp: z_val_def z_nat_put\<close>)

lemma z_result_nonneg:
  assumes "\<not> zerr r" "\<not> zneg r" "length x = zsize r" "zsize r \<le> length (zd r)" "v = int (zval x)"
    "x \<noteq> [] \<Longrightarrow> last x \<noteq> 0"
  shows "z_result al (r\<lparr> zd := put (zd r) 0 x \<rparr>) v"
proof (rule z_resultI)
  show "zB ^ (zsize (r\<lparr> zd := put (zd r) 0 x \<rparr>) - 1) \<le> z_nat (r\<lparr> zd := put (zd r) 0 x \<rparr>)"
    if "zsize (r\<lparr> zd := put (zd r) 0 x \<rparr>) \<noteq> 0"
  proof -
    have "x \<noteq> []" using that assms(3) by auto
    then show ?thesis using last_nz_iff [of x] assms by (simp add: z_nat_put)
  qed
qed (use assms in \<open>auto simp: z_val_def z_nat_put\<close>)

lemma z_unsigned_and_result:
  assumes "al_sound al" "z_ok a" "z_ok b"
  shows "z_result al (z_unsigned_and al a b) (int (z_nat a) AND int (z_nat b))"
  unfolding z_unsigned_and_def Let_def
proof (rule z_result_checked [OF assms(1)])
  note ua = z_okD [OF assms(2)] and ub = z_okD [OF assms(3)]
  show "\<not> (zerr a \<or> zerr b)" using ua ub by simp
  let ?n = "min (zsize a) (zsize b)"
  let ?x = "zd_and_n (take ?n (used a)) (take ?n (used b))"
  have x: "length ?x = ?n" "int (zval ?x) = int (z_nat a) AND int (z_nat b)"
    using zval_and_andnot(1) [of "used a" "used b"] ua ub by (simp_all add: z_nat_def) (simp add: zd_and_n_def)
  fix r :: z_int
  assume r: "\<not> zerr r" "zneg r = False" "zsize r = ?n" "length (zd r) = ?n"
  show "z_result al (if zsize r \<noteq> 0 then z_trim (r\<lparr>zd := put (zd r) 0 ?x\<rparr>) else r) (int (z_nat a) AND int (z_nat b))"
  proof (cases "zsize r = 0")
    case True
    then have "?x = []" using x(1) r(3) by simp
    then have "int (z_nat a) AND int (z_nat b) = 0" using x(2) by simp
    then show ?thesis using True r by (intro z_resultI) (auto simp: z_val_def z_nat_def used_def)
  next
    case False
    then show ?thesis using z_result_nonneg_trim [of r ?x] r x by simp
  qed
qed

lemma z_unsigned_andnot_result:
  assumes "al_sound al" "z_ok a" "z_ok b"
  shows "z_result al (z_unsigned_andnot al a b) (int (z_nat a) AND NOT (int (z_nat b)))"
  unfolding z_unsigned_andnot_def Let_def
proof (rule z_result_checked [OF assms(1)])
  note ua = z_okD [OF assms(2)] and ub = z_okD [OF assms(3)]
  show "\<not> (zerr a \<or> zerr b)" using ua ub by simp
  let ?n = "min (zsize a) (zsize b)"
  let ?x = "zd_andnot_n (take ?n (used a)) (take ?n (used b)) @ drop ?n (used a)"
  have x: "length ?x = zsize a" "int (zval ?x) = int (z_nat a) AND NOT (int (z_nat b))"
    using zval_and_andnot(2) [of "used a" "used b"] ua ub by (simp_all add: z_nat_def) (simp add: zd_andnot_n_def)
  fix r :: z_int
  assume r: "\<not> zerr r" "zneg r = False" "zsize r = zsize a" "length (zd r) = zsize a"
  show "z_result al (z_trim (r\<lparr>zd := put (zd r) 0 ?x\<rparr>)) (int (z_nat a) AND NOT (int (z_nat b)))"
    using z_result_nonneg_trim [of r ?x] r x by simp
qed

lemma or_top:
  assumes "length b \<le> length a" "a \<noteq> []" "last a \<noteq> 0"
  shows "last (zd_or_n (take (length b) a) b @ drop (length b) a) \<noteq> 0"
proof (cases "length b < length a")
  case False
  then have l: "length b = length a" using assms by simp
  then have "last (zd_or_n a b) = last a OR last b"
    using assms(2) by (cases "b = []") (auto simp: zd_or_n_def last_conv_nth)
  moreover have "last a OR last b \<noteq> 0"
    using assms(3) by (metis or_eq_0_iff)
  ultimately show ?thesis using l by simp
qed (use assms in \<open>simp add: last_drop\<close>)

lemma z_unsigned_or_sorted:
  assumes "al_sound al" "z_ok a" "z_ok b" "zsize b \<le> zsize a"
  shows "z_result al (z_checked (z_new al (zerr a \<or> zerr b) False (zsize a) (zsize a)) (\<lambda>r.
        r\<lparr> zd := put (zd r) 0
             (zd_or_n (take (zsize b) (used a)) (used b) @ drop (zsize b) (used a)) \<rparr>))
     (int (z_nat a) OR int (z_nat b))"
proof (rule z_result_checked [OF assms(1)])
  note ua = z_okD [OF assms(2)] and ub = z_okD [OF assms(3)]
  show "\<not> (zerr a \<or> zerr b)" using ua ub by simp
  let ?x = "zd_or_n (take (zsize b) (used a)) (used b) @ drop (zsize b) (used a)"
  have x: "length ?x = zsize a" "int (zval ?x) = int (z_nat a) OR int (z_nat b)"
    using zval_bitwise(2) [of "used b" "used a"] ua ub assms(4) by (simp_all add: z_nat_def) (simp add: zd_or_n_def)
  fix r :: z_int
  assume r: "\<not> zerr r" "zneg r = False" "zsize r = zsize a" "length (zd r) = zsize a"
  have "last ?x \<noteq> 0" if "?x \<noteq> []"
    using or_top [of "used b" "used a"] ua ub assms(4) that x(1) by (cases "zsize a = 0") auto
  then show "z_result al (r\<lparr>zd := put (zd r) 0 ?x\<rparr>) (int (z_nat a) OR int (z_nat b))"
    using z_result_nonneg [of r ?x] r x by simp
qed

lemma z_unsigned_or_result:
  assumes "al_sound al" "z_ok a" "z_ok b"
  shows "z_result al (z_unsigned_or al a b) (int (z_nat a) OR int (z_nat b))"
  using z_unsigned_or_sorted [OF assms(1,2,3)] z_unsigned_or_sorted [OF assms(1,3,2)]
  by (cases "zsize a < zsize b") (simp_all add: z_unsigned_or_def Let_def or.commute)

lemma z_unsigned_xor_sorted:
  assumes "al_sound al" "z_ok a" "z_ok b" "zsize b \<le> zsize a"
  shows "z_result al (z_checked (z_new al (zerr a \<or> zerr b) False (zsize a) (zsize a)) (\<lambda>r.
        let r1 = r\<lparr> zd := put (zd r) 0
                    (zd_xor_n (take (zsize b) (used a)) (used b) @ drop (zsize b) (used a)) \<rparr>
        in if zsize a > zsize b then r1 else z_trim r1))
     (int (z_nat a) XOR int (z_nat b))"
proof (rule z_result_checked [OF assms(1)])
  note ua = z_okD [OF assms(2)] and ub = z_okD [OF assms(3)]
  show "\<not> (zerr a \<or> zerr b)" using ua ub by simp
  let ?x = "zd_xor_n (take (zsize b) (used a)) (used b) @ drop (zsize b) (used a)"
  have x: "length ?x = zsize a" "int (zval ?x) = int (z_nat a) XOR int (z_nat b)"
    using zval_bitwise(1) [of "used b" "used a"] ua ub assms(4) by (simp_all add: z_nat_def) (simp add: zd_xor_n_def)
  fix r :: z_int
  assume r: "\<not> zerr r" "zneg r = False" "zsize r = zsize a" "length (zd r) = zsize a"
  have "last ?x \<noteq> 0" if "zsize b < zsize a" using ua that by (simp add: last_drop)
  then show "z_result al (let r1 = r\<lparr> zd := put (zd r) 0 ?x \<rparr>
        in if zsize a > zsize b then r1 else z_trim r1) (int (z_nat a) XOR int (z_nat b))"
    using z_result_nonneg [of r ?x] z_result_nonneg_trim [of r ?x] r x by (simp add: Let_def)
qed

lemma z_unsigned_xor_result:
  assumes "al_sound al" "z_ok a" "z_ok b"
  shows "z_result al (z_unsigned_xor al a b) (int (z_nat a) XOR int (z_nat b))"
  using z_unsigned_xor_sorted [OF assms(1,2,3)] z_unsigned_xor_sorted [OF assms(1,3,2)]
  by (cases "zsize a < zsize b") (simp_all add: z_unsigned_xor_def Let_def xor.commute)

lemma z_unsigned_dec_result:
  assumes "al_sound al" "z_ok a" "zneg a"
  shows "z_result al (z_unsigned_dec al a) (int (z_nat a) - 1)"
  unfolding z_unsigned_dec_def
proof (rule z_result_checked [OF assms(1)])
  note ua = z_okD [OF assms(2)]
  show "\<not> zerr a" using ua by simp
  have pos: "0 < z_nat a" using z_nat_bounds(3) [OF assms(2)] ua(4) assms(3) by simp
  obtain y d where y: "zd_sub_1 (used a) 1 = (y, d)" by force
  have e: "length y = zsize a" "zval y + 1 = zval (used a) + zB ^ zsize a * unat d"
    using zd_sub_1_exact [OF y] ua by simp_all
  have "zval y + 1 = z_nat a" using no_borrow [OF e(2,1)] pos by (simp add: z_nat_def)
  then have v: "int (zval y) = int (z_nat a) - 1" by simp
  fix r :: z_int
  assume r: "\<not> zerr r" "zneg r = False" "zsize r = zsize a" "length (zd r) = zsize a + 1"
  show "z_result al (z_trim (r\<lparr>zd := put (zd r) 0 (fst (zd_sub_1 (used a) 1))\<rparr>)) (int (z_nat a) - 1)"
    using z_result_nonneg_trim [of r y] r e v y by simp
qed

lemma z_result_negate:
  "z_result al r v \<Longrightarrow> 0 < v \<Longrightarrow> z_result al (r\<lparr> zneg := True \<rparr>) (- v)"
  using z_nat_bounds(3) [of r]
  by (auto simp: z_result_def z_val_sg z_nat_def used_def sg_def split: if_splits) (simp_all add: z_ok_def)

text \<open>A negative number is the complement of its decremented magnitude.\<close>

lemma neg_complement: "zneg a \<Longrightarrow> z_val a = NOT (int (z_nat a) - 1)"
  by (simp add: z_val_def not_int_def)

lemma zneg_ok: "z_ok x \<Longrightarrow> z_val x = int n \<Longrightarrow> \<not> zneg x \<and> z_nat x = n"
  using z_nat_bounds(3) [of x] by (auto simp: z_val_def z_ok_def split: if_splits)

lemma z_add_1_neg:
  assumes "al_sound al" "z_result al y v" "0 \<le> v"
  shows "z_result al ((z_add_1 al y 1)\<lparr> zneg := True \<rparr>) (NOT v)"
proof (rule z_result_bind [OF assms(2)])
  show "zerr y \<Longrightarrow> zerr ((z_add_1 al y 1)\<lparr> zneg := True \<rparr>)" by (simp add: zerr_ops)
  assume "z_ok y" "z_val y = v"
  then show "z_result al ((z_add_1 al y 1)\<lparr> zneg := True \<rparr>) (NOT v)"
    using z_add_1_result [OF assms(1), of y 1] assms(3) z_result_negate [of al "z_add_1 al y 1" "v + 1"]
    by (simp add: not_int_def)
qed

text \<open>The two shapes of the bitwise operations: on a non-negative and a negative operand, and on two
  negative ones; \<open>x\<close> and \<open>y\<close> are the decremented magnitudes.\<close>

lemma dec_bind:
  assumes al: "al_sound al" and b: "z_ok b" "zneg b"
    and err: "\<And>x. zerr x \<Longrightarrow> zerr (F x)"
    and ok: "\<And>x. z_ok x \<Longrightarrow> \<not> zneg x \<Longrightarrow> int (z_nat x) = int (z_nat b) - 1 \<Longrightarrow> z_result al (F x) v"
  shows "z_result al (F (z_unsigned_dec al b)) v"
proof -
  have "0 < z_nat b" using z_nat_bounds(3) [OF b(1)] z_okD(4) [OF b] by simp
  then have n: "int (z_nat b) - 1 = int (z_nat b - 1)" by (simp add: of_nat_diff Suc_le_eq)
  note dec = z_unsigned_dec_result [OF al b]
  show ?thesis
  proof (rule z_result_bind [OF dec])
    assume d: "z_ok (z_unsigned_dec al b)" "z_val (z_unsigned_dec al b) = int (z_nat b) - 1"
    note e = zneg_ok [OF d(1) d(2) [unfolded n]]
    show "z_result al (F (z_unsigned_dec al b)) v"
      by (rule ok [OF d(1)]) (simp_all only: e n not_False_eq_True)
  qed (rule err)
qed

lemma z_and_mixed:
  assumes "al_sound al" "z_ok a" "\<not> zneg a" "z_ok b" "zneg b"
  shows "z_result al (z_unsigned_andnot al a (z_unsigned_dec al b)) (z_val a AND z_val b)"
proof (rule dec_bind [OF assms(1,4,5)])
  show "z_result al (z_unsigned_andnot al a x) (z_val a AND z_val b)"
    if "z_ok x" "int (z_nat x) = int (z_nat b) - 1" for x
    using z_unsigned_andnot_result [OF assms(1,2) that(1)] that(2) [symmetric] assms(3,5)
    by (simp add: z_nat_int neg_complement)
qed (simp add: zerr_ops)

lemma z_xor_mixed:
  assumes "al_sound al" "z_ok a" "\<not> zneg a" "z_ok b" "zneg b"
  shows "z_result al ((z_add_1 al (z_unsigned_xor al a (z_unsigned_dec al b)) 1)\<lparr> zneg := True \<rparr>)
    (z_val a XOR z_val b)"
proof (rule dec_bind [OF assms(1,4,5)])
  show "z_result al ((z_add_1 al (z_unsigned_xor al a x) 1)\<lparr> zneg := True \<rparr>) (z_val a XOR z_val b)"
    if "z_ok x" "int (z_nat x) = int (z_nat b) - 1" for x
    using z_add_1_neg [OF assms(1) z_unsigned_xor_result [OF assms(1,2) that(1)]] that assms
    by (simp add: z_nat_int neg_complement)
qed (simp add: zerr_ops)

lemma z_or_mixed:
  assumes "al_sound al" "z_ok a" "\<not> zneg a" "z_ok b" "zneg b"
  shows "z_result al ((z_add_1 al (z_unsigned_andnot al (z_unsigned_dec al b) a) 1)\<lparr> zneg := True \<rparr>)
    (z_val a OR z_val b)"
proof (rule dec_bind [OF assms(1,4,5)])
  show "z_result al ((z_add_1 al (z_unsigned_andnot al x a) 1)\<lparr> zneg := True \<rparr>) (z_val a OR z_val b)"
    if "z_ok x" "int (z_nat x) = int (z_nat b) - 1" for x
  proof -
    have "z_val a OR z_val b = NOT (int (z_nat x) AND NOT (int (z_nat a)))"
      using assms that by (simp add: z_nat_int neg_complement bit_eq_iff bit_or_iff bit_and_iff bit_not_iff) blast
    then show ?thesis
      using z_add_1_neg [OF assms(1) z_unsigned_andnot_result [OF assms(1) that(1) assms(2)]] by simp
  qed
qed (simp add: zerr_ops)

text \<open>Two negative operands.\<close>

lemma dec2_bind:
  assumes al: "al_sound al" and a: "z_ok a" "zneg a" and b: "z_ok b" "zneg b"
    and err: "\<And>x y. zerr x \<or> zerr y \<Longrightarrow> zerr (F x y)"
    and ok: "\<And>x y. z_ok x \<Longrightarrow> z_ok y \<Longrightarrow> int (z_nat x) = int (z_nat b) - 1 \<Longrightarrow>
      int (z_nat y) = int (z_nat a) - 1 \<Longrightarrow> z_result al (F x y) v"
  shows "z_result al (F (z_unsigned_dec al b) (z_unsigned_dec al a)) v"
proof (rule dec_bind [OF al b])
  show "zerr x \<Longrightarrow> zerr (F x (z_unsigned_dec al a))" for x by (rule err) simp
  show "z_result al (F x (z_unsigned_dec al a)) v"
    if "z_ok x" "int (z_nat x) = int (z_nat b) - 1" for x
    by (rule dec_bind [OF al a]) (use err ok [OF that(1)] that(2) in auto)
qed

lemma z_xor_result:
  assumes al: "al_sound al" and a: "z_ok a" and b: "z_ok b"
  shows "z_result al (z_xor al a b) (z_val a XOR z_val b)"
proof -
  have both: "z_result al (z_unsigned_xor al (z_unsigned_dec al p) (z_unsigned_dec al q)) (z_val q XOR z_val p)"
    if pq: "z_ok p" "zneg p" "z_ok q" "zneg q" for p q
  proof (rule dec2_bind [OF al pq(3,4,1,2)])
    show "z_result al (z_unsigned_xor al x y) (z_val q XOR z_val p)"
      if xy: "z_ok x" "z_ok y" "int (z_nat x) = int (z_nat p) - 1" "int (z_nat y) = int (z_nat q) - 1" for x y
    proof -
      have "z_val q XOR z_val p = int (z_nat x) XOR int (z_nat y)"
        using pq xy by (simp add: neg_complement xor.commute)
      then show ?thesis using z_unsigned_xor_result [OF al xy(1,2)] by simp
    qed
  qed (simp add: zerr_ops)
  show ?thesis
    using z_unsigned_xor_result [OF al a b] z_xor_mixed [OF al a _ b] z_xor_mixed [OF al b _ a] both [OF a _ b]
    by (cases "zneg a"; cases "zneg b") (simp_all add: z_xor_def Let_def z_nat_int xor.commute)
qed

lemma z_and_result:
  assumes al: "al_sound al" and a: "z_ok a" and b: "z_ok b"
  shows "z_result al (z_and al a b) (z_val a AND z_val b)"
proof -
  have both: "z_result al ((z_add_1 al (z_unsigned_or al (z_unsigned_dec al p) (z_unsigned_dec al q)) 1)\<lparr> zneg := True \<rparr>)
      (z_val q AND z_val p)"
    if pq: "z_ok p" "zneg p" "z_ok q" "zneg q" for p q
  proof (rule dec2_bind [OF al pq(3,4,1,2)])
    show "z_result al ((z_add_1 al (z_unsigned_or al x y) 1)\<lparr> zneg := True \<rparr>) (z_val q AND z_val p)"
      if "z_ok x" "z_ok y" "int (z_nat x) = int (z_nat p) - 1" "int (z_nat y) = int (z_nat q) - 1" for x y
    proof -
      have "z_val q AND z_val p = NOT (int (z_nat x) OR int (z_nat y))"
        using that pq by (simp add: neg_complement and.commute)
      then show ?thesis using z_add_1_neg [OF al z_unsigned_or_result [OF al that(1,2)]] by simp
    qed
  qed (simp add: zerr_ops)
  show ?thesis
    using z_unsigned_and_result [OF al a b] z_and_mixed [OF al a _ b] z_and_mixed [OF al b _ a] both [OF a _ b]
    by (cases "zneg a"; cases "zneg b") (simp_all add: z_and_def Let_def z_nat_int and.commute)
qed

lemma z_or_result:
  assumes al: "al_sound al" and a: "z_ok a" and b: "z_ok b"
  shows "z_result al (z_or al a b) (z_val a OR z_val b)"
proof -
  have both: "z_result al ((z_add_1 al (z_unsigned_and al (z_unsigned_dec al p) (z_unsigned_dec al q)) 1)\<lparr> zneg := True \<rparr>)
      (z_val q OR z_val p)"
    if pq: "z_ok p" "zneg p" "z_ok q" "zneg q" for p q
  proof (rule dec2_bind [OF al pq(3,4,1,2)])
    show "z_result al ((z_add_1 al (z_unsigned_and al x y) 1)\<lparr> zneg := True \<rparr>) (z_val q OR z_val p)"
      if "z_ok x" "z_ok y" "int (z_nat x) = int (z_nat p) - 1" "int (z_nat y) = int (z_nat q) - 1" for x y
    proof -
      have "z_val q OR z_val p = NOT (int (z_nat x) AND int (z_nat y))"
        using that pq by (simp add: neg_complement or.commute)
      then show ?thesis using z_add_1_neg [OF al z_unsigned_and_result [OF al that(1,2)]] by simp
    qed
  qed (simp add: zerr_ops)
  show ?thesis
    using z_unsigned_or_result [OF al a b] z_or_mixed [OF al a _ b] z_or_mixed [OF al b _ a] both [OF a _ b]
    by (cases "zneg a"; cases "zneg b") (simp_all add: z_or_def Let_def z_nat_int or.commute)
qed

lemma z_neg_ok: "z_ok a \<Longrightarrow> z_ok (z_neg a) \<and> z_val (z_neg a) = - z_val a"
  using z_nat_bounds(3) [of a] by (auto simp: z_ok_def z_neg_def z_val_def z_nat_def used_def)

lemma z_abs_ok: "z_ok a \<Longrightarrow> z_ok (z_abs a) \<and> z_val (z_abs a) = \<bar>z_val a\<bar>"
  by (auto simp: z_ok_def z_abs_def z_val_def z_nat_def used_def)

lemma z_not_result: "al_sound al \<Longrightarrow> z_ok a \<Longrightarrow> z_result al (z_not al a) (NOT (z_val a))"
  using z_sub_1_result [of al "z_neg a" 1] z_neg_ok [of a] by (simp add: z_not_def not_int_def)

section \<open>Shifts and conversions\<close>

lemma z_new_zero: "\<not> e \<Longrightarrow> z_result al (z_new al e False 0 0) 0"
  by (intro z_resultI) (simp_all add: z_new_def z_val_def z_nat_def used_def)

lemma zval_replicate_0 [simp]: "zval (replicate n 0) = 0"
  by (induction n) simp_all

lemma zB_two: "zB ^ n = 2 ^ (64 * n)"
  by (simp add: zB_def power_mult)

lemma z_nat_eq: "take (zsize r) (zd r) = x \<Longrightarrow> z_nat r = zval x"
  by (simp add: z_nat_def used_def)

lemma z_result_digits:
  assumes "take (zsize r) (zd r) = x" "length x = zsize r" "\<not> zerr r" "x \<noteq> [] \<Longrightarrow> last x \<noteq> 0"
    "zneg r \<Longrightarrow> x \<noteq> []" "v = sg (zneg r) (zval x)"
  shows "z_result al r v"
proof -
  have le: "zsize r \<le> length (zd r)" using assms(1,2) by (metis length_take min.cobounded1)
  have "zd r ! (zsize r - 1) \<noteq> 0" if nz: "zsize r \<noteq> 0"
  proof -
    have "x \<noteq> []" using assms(2) nz by auto
    then show ?thesis using assms(1,4) last_take_nth [OF nz le] by simp
  qed
  moreover have "zsize r \<noteq> 0" if "zneg r" using assms(2,5) that by (cases x) auto
  ultimately have "z_ok r" using le assms(3) by (auto simp: z_ok_def)
  then show ?thesis using assms z_nat_eq [OF assms(1)] by (simp add: z_result_def z_val_sg)
qed

text \<open>Giving a sign to a non-negative result.\<close>

lemma z_result_sign:
  assumes "z_result al r (int n)"
  shows "z_result al (r\<lparr> zneg := (s \<and> zsize r \<noteq> 0) \<rparr>) (sg s n)"
proof -
  have n: "z_nat (r\<lparr> zneg := x \<rparr>) = z_nat r" for x by (simp add: z_nat_def used_def)
  have "z_nat r = n" if "z_ok r" "z_val r = int n" using zneg_ok [OF that] by simp
  moreover have "n = 0" if "z_ok r" "z_val r = int n" "zsize r = 0"
    using z_nat_bounds(3) [OF that(1)] that by (simp add: z_val_def split: if_splits)
  ultimately show ?thesis
    using assms by (auto simp: z_result_def z_val_sg n sg_def) (auto simp: z_ok_def)
qed

lemma z_shl_fill_result:
  assumes a: "z_ok a" "zsize a \<noteq> 0" and s: "s < 64"
    and r: "\<not> zerr r" "zneg r = zneg a" "zsize r = zsize a + n" "length (zd r) = zsize a + n + 1"
  shows "z_result al (z_shl_fill a n s r) (sg (zneg a) (zB ^ n * 2 ^ s * z_nat a))"
proof -
  note ua = z_okD [OF a(1)] and na = z_nat_bounds [OF a(1)]
  define d1 d2 where "d1 = take n (zd r)" and "d2 = drop (n + zsize a) (zd r)"
  have d: "length d1 = n" "length d2 = 1" using r by (simp_all add: d1_def d2_def)
  then obtain d3 where d3: "d2 = [d3]" by (cases d2) auto
  have puts: "put (zd r) n y = d1 @ y @ [d3]" "put (d1 @ y @ z) 0 (replicate n 0) = replicate n 0 @ y @ z"
    if "length y = zsize a" for y z
    using that d d3 by (simp_all add: put_def d1_def d2_def)
  obtain x c where x: "zd_shl (used a) s = (x, c)" by force
  show ?thesis
  proof (cases "s = 0")
    case True
    show ?thesis
      by (rule z_result_digits [of _ "replicate n 0 @ used a"])
        (use True r ua a(2) puts [of "used a"] in \<open>auto simp: z_shl_fill_def zval_append z_nat_def\<close>)
  next
    case False
    have e: "length x = zsize a" "zval x + zB ^ zsize a * unat c = 2 ^ s * z_nat a"
      using zd_shl_exact [OF x] False s ua by (simp_all add: z_nat_def)
    have fill: "z_shl_fill a n s r = r\<lparr> zd := replicate n 0 @ x @ [c],
        zsize := zsize a + n + (if c \<noteq> 0 then 1 else 0) \<rparr>"
      using False x r e(1) d puts(1) [OF e(1)] puts(2) [OF e(1), of "[c]"]
      by (simp add: z_shl_fill_def z_grow_def list_update_append)
    have xne: "x \<noteq> []" using e(1) a(2) by auto
    show ?thesis
    proof (cases "c = 0")
      case True
      have "z_nat a \<le> 2 ^ s * z_nat a" by simp
      then have "zB ^ (zsize a - 1) \<le> 2 ^ s * z_nat a" using na(2) [OF a(2)] by linarith
      then have "zB ^ (length x - 1) \<le> zval x" using e True by simp
      then have "last x \<noteq> 0" using last_nz_iff [OF xne] by simp
      then show ?thesis unfolding fill
        by (intro z_result_digits [of _ "replicate n 0 @ x"])
          (use True r e xne in \<open>auto simp: zval_append algebra_simps\<close>)
    next
      case nz: False
      have "zval (x @ [c]) = 2 ^ s * z_nat a" using e by (simp add: zval_snoc)
      then show ?thesis unfolding fill
        by (intro z_result_digits [of _ "replicate n 0 @ x @ [c]"])
          (use nz r e xne in \<open>auto simp: zval_append algebra_simps\<close>)
    qed
  qed
qed

lemma z_shl_result:
  assumes al: "al_sound al" and a: "z_ok a"
  shows "z_result al (z_shl al a b) (z_val a * 2 ^ b)"
proof (cases "zsize a = 0")
  case True
  then have "z_val a = 0" using z_nat_bounds(3) [OF a] by (simp add: z_val_def)
  then show ?thesis using True z_new_zero z_okD(1) [OF a] by (simp add: z_shl_def)
next
  case False
  have pow: "zB ^ (b div 64) * 2 ^ (b mod 64) = 2 ^ b" by (simp add: zB_two flip: power_add)
  have "z_result al (z_checked (z_new al (zerr a) (zneg a) (zsize a + b div 64) (zsize a + b div 64 + 1))
      (z_shl_fill a (b div 64) (b mod 64))) (sg (zneg a) (zB ^ (b div 64) * 2 ^ (b mod 64) * z_nat a))"
    by (rule z_result_checked [OF al]) (use z_shl_fill_result [OF a False] z_okD(1) [OF a] in auto)
  moreover have "sg (zneg a) (2 ^ b * z_nat a) = z_val a * 2 ^ b" by (simp add: sg_def z_val_def)
  ultimately show ?thesis using False by (simp add: z_shl_def Let_def pow)
qed

lemma pow_pred: "2 \<le> m \<Longrightarrow> zB ^ (m - 2) * zB = zB ^ (m - 1)"
  by (auto simp: le_iff_add)

lemma z_shr_nonneg_result:
  assumes al: "al_sound al" and a: "z_ok a" "\<not> zneg a"
  shows "z_result al (z_shr al a b) (z_val a div 2 ^ b)"
proof -
  define n s where "n = b div 64" and "s = b mod 64"
  note ua = z_okD [OF a(1)] and na = z_nat_bounds [OF a(1)]
  have pow: "(2 :: nat) ^ b = zB ^ n * 2 ^ s" by (simp add: zB_two n_def s_def flip: power_add)
  have "z_val a div 2 ^ b = int (z_nat a div 2 ^ b)"
    using a(2) by (simp add: z_nat_int zdiv_int)
  then have v: "z_val a div 2 ^ b = int (z_nat a div zB ^ n div 2 ^ s)" by (simp only: pow div_mult2_eq)
  show ?thesis
  proof (cases "zsize a \<le> n")
    case True
    then have "z_nat a < zB ^ n" using na(1) power_increasing [OF True zB_ge_1(1)] by linarith
    then show ?thesis using True a(2) ua v z_new_zero [of "zerr a"] by (simp add: z_shr_def Let_def n_def)
  next
    case False
    let ?x = "drop n (used a)"
    have d: "zval ?x = z_nat a div zB ^ n"
    proof -
      have "z_nat a = zval (take n (used a)) + zB ^ n * zval ?x" "zval (take n (used a)) < zB ^ n"
        using zval_take_drop [of n "used a"] zval_lt [of "take n (used a)"] False ua by (simp_all add: z_nat_def)
      then show ?thesis by simp
    qed
    have x: "last ?x \<noteq> 0" "length ?x = zsize a - n" "?x \<noteq> []" using False ua by (simp_all add: last_drop)
    obtain y c where y: "zd_shr ?x s = (y, c)" by force
    have s: "s < 64" by (simp add: s_def)
    have e: "length y = zsize a - n" "zval y = z_nat a div zB ^ n div 2 ^ s" if "s \<noteq> 0"
      using zd_shr_exact [OF y] that s x d by simp_all
    have "z_result al (z_checked (z_new al (zerr a) (zneg a) (zsize a - n) (zsize a - n)) (\<lambda>r.
           if s \<noteq> 0 then z_trim_1 (r\<lparr> zd := put (zd r) 0 (fst (zd_shr ?x s)) \<rparr>)
           else r\<lparr> zd := put (zd r) 0 ?x \<rparr>)) (z_val a div 2 ^ b)"
    proof (rule z_result_checked [OF al])
      show "\<not> zerr a" using ua by simp
      fix r :: z_int
      assume r: "\<not> zerr r" "zneg r = zneg a" "zsize r = zsize a - n" "length (zd r) = zsize a - n"
      have big: "zB ^ (length y - 2) \<le> zval y" if "2 \<le> length y" "s \<noteq> 0"
      proof -
        have "zB ^ (length y - 2) * 2 ^ s \<le> zB ^ (length y - 2) * zB"
          unfolding zB_def using s by (intro mult_le_mono2 power_increasing) simp_all
        also have "\<dots> = zB ^ (length ?x - 1)" using e(1) [OF that(2)] x(2) pow_pred [OF that(1)] by simp
        also have "\<dots> \<le> zval ?x" using iffD1 [OF last_nz_iff [OF x(3)] x(1)] .
        finally show ?thesis using e [OF that(2)] d by (simp add: less_eq_div_iff_mult_less_eq)
      qed
      show "z_result al (if s \<noteq> 0 then z_trim_1 (r\<lparr> zd := put (zd r) 0 (fst (zd_shr ?x s)) \<rparr>)
           else r\<lparr> zd := put (zd r) 0 ?x \<rparr>) (z_val a div 2 ^ b)"
      proof (cases "s = 0")
        case True
        then show ?thesis using z_result_nonneg [of r ?x] r x d a(2) v by simp
      next
        case nz: False
        have "y \<noteq> []" using e(1) [OF nz] False by auto
        then have "z_result al (z_trim_1 (r\<lparr> zd := put (zd r) 0 y \<rparr>)) (z_val a div 2 ^ b)"
          using r e [OF nz] big nz a(2) v by (intro z_trim_1_result) auto
        then show ?thesis using nz y by simp
      qed
    qed
    then show ?thesis using False a(2) unfolding z_shr_def Let_def n_def s_def by simp
  qed
qed

text \<open>A negative number: shifted out completely it gives -1; else its magnitude is shifted and the sign
  kept, so the result is rounded toward zero, and is canonical but for the sign of a zero.\<close>

lemma z_shr_negative:
  assumes "zneg a" "b div 64 < zsize a"
  shows "z_shr al a b = (let r = z_shr al (a\<lparr> zneg := False \<rparr>) b in if zerr r then z_err else r\<lparr> zneg := True \<rparr>)"
  using assms
  by (auto simp: z_shr_def z_checked_def z_new_def z_err_def z_trim_1_def used_def Let_def split: option.splits)

lemma z_shr_negative_result:
  assumes al: "al_sound al" and a: "z_ok a" "zneg a" and b: "b div 64 < zsize a"
  defines "r \<equiv> z_shr al a b"
  shows "z_result al (r\<lparr> zneg := (zsize r \<noteq> 0) \<rparr>) (- int (z_nat a div 2 ^ b))" "\<not> zerr r \<Longrightarrow> zneg r"
proof -
  let ?a = "a\<lparr> zneg := False \<rparr>"
  define p where "p = z_shr al ?a b"
  have "z_ok ?a" "\<not> zneg ?a" "z_val ?a = int (z_nat a)" using a(1) by (auto simp: z_ok_def z_val_def z_nat_def used_def)
  then have p: "z_result al p (int (z_nat a div 2 ^ b))"
    using z_shr_nonneg_result [OF al, of ?a b] by (simp add: p_def zdiv_int)
  have r: "r = (if zerr p then z_err else p\<lparr> zneg := True \<rparr>)"
    unfolding r_def p_def using z_shr_negative [OF a(2) b] by (simp add: Let_def)
  show "\<not> zerr r \<Longrightarrow> zneg r" using r by (auto split: if_splits)
  show "z_result al (r\<lparr> zneg := (zsize r \<noteq> 0) \<rparr>) (- int (z_nat a div 2 ^ b))"
  proof (cases "zerr p")
    case True
    then show ?thesis using p r by (auto simp: z_result_def z_err_def z_ok_def)
  next
    case False
    then have "r\<lparr> zneg := (zsize r \<noteq> 0) \<rparr> = p\<lparr> zneg := (True \<and> zsize p \<noteq> 0) \<rparr>" using r by simp
    then show ?thesis using z_result_sign [OF p, of True] by (simp only: sg_def if_True)
  qed
qed

lemma z_from_u64_result: "al_sound al \<Longrightarrow> z_result al (z_from_u64 al b) (int (unat b))"
  unfolding z_from_u64_def
proof (rule z_result_checked, assumption, simp)
  fix r :: z_int
  assume r: "\<not> zerr r" "zneg r = False" "zsize r = 0" "length (zd r) = 1"
  then obtain d where d: "zd r = [d]" by (cases "zd r") auto
  show "z_result al (if b \<noteq> 0 then r\<lparr> zd := (zd r)[0 := b], zsize := 1 \<rparr> else r) (int (unat b))"
    by (cases "b = 0"; rule z_result_digits [of _ "if b = 0 then [] else [b]"])
      (use r d in \<open>auto simp: sg_def\<close>)
qed

lemma z_from_i64_result: "al_sound al \<Longrightarrow> z_result al (z_from_i64 al b) (sint b)"
proof -
  assume al: "al_sound al"
  have s: "b <s 0 \<longleftrightarrow> sint b < 0" by (simp add: word_sless_alt)
  have u: "sint b = (if uint b < 2 ^ 63 then uint b else uint b - 2 ^ 64)"
    using sint_uint_if [of b] by simp
  have m: "uint (- b) = 2 ^ 64 - uint b" if "b \<noteq> 0"
    using that uint_lt2p [of b] by (simp add: uint_word_ariths zmod_zminus1_eq_if uint_0_iff mod_pos_pos_trivial)
  show ?thesis
  proof (cases "b <s 0")
    case True
    then have neg: "sint b < 0" "b \<noteq> 0" using s by auto
    have v: "int (unat (- b)) = - sint b" using m [OF neg(2)] u neg(1) by (auto split: if_splits)
    from z_from_u64_result [OF al, of "- b"] True show ?thesis
      using z_result_negate [of al "z_from_u64 al (- b)" "- sint b"] v neg by (simp add: z_from_i64_def)
  next
    case False
    then have v: "int (unat b) = sint b" using s u uint_lt2p [of b] by (auto split: if_splits)
    from z_result_sign [OF z_from_u64_result [OF al, of b], of False] False v
    show ?thesis by (simp add: z_from_i64_def sg_def)
  qed
qed

lemma z_shr_out:
  "al_sound al \<Longrightarrow> zneg a \<Longrightarrow> zsize a \<le> b div 64 \<Longrightarrow> z_result al (z_shr al a b) (-1)"
  using z_from_i64_result [of al "- 1"] by (simp add: z_shr_def)

lemma z_to_u64_low: "z_ok a \<Longrightarrow> z_to_u64 a = word_of_int (z_val a)"
proof -
  assume a: "z_ok a"
  have low: "(if zsize a = 0 then 0 else zd a ! 0) = word_of_int (int (z_nat a))"
  proof (cases "used a")
    case Nil
    then show ?thesis using z_okD(2) [OF a] by (simp add: z_nat_def)
  next
    case (Cons d ds)
    then have "zsize a \<noteq> 0" "zd a ! 0 = d" using z_okD(2) [OF a] by (auto simp: used_def take_Suc_conv_app_nth nth_Cons' dest: arg_cong [of _ _ "\<lambda>l. l ! 0"])
    moreover have "word_of_int (int (z_nat a)) = (of_nat (z_nat a) :: u64)" by simp
    moreover have "(of_nat (z_nat a) :: u64) = of_nat (unat d) + of_nat zB * of_nat (zval ds)"
      using Cons by (simp add: z_nat_def)
    moreover have "(of_nat zB :: u64) = 0" by (simp add: zB_def)
    ultimately show ?thesis by simp
  qed
  show ?thesis unfolding z_to_u64_def low Let_def z_val_def by simp
qed

text \<open>Doubles: sign, biased exponent and fraction.\<close>

definition double_trunc :: "u64 \<Rightarrow> int" where
  "double_trunc bits =
     (let e = unat (drop_bit 52 bits AND 0x7FF); m = 2 ^ 52 + unat bits mod 2 ^ 52
      in sg (drop_bit 63 bits \<noteq> 0) (if e < 1075 then m div 2 ^ (1075 - e) else m * 2 ^ (e - 1075)))"

lemma z_from_d_result:
  assumes al: "al_sound al" and fin: "unat (drop_bit 52 bits AND 0x7FF) \<noteq> 0x7FF"
  shows "z_result al (z_from_d al bits) (double_trunc bits)"
proof -
  define e where "e = unat (drop_bit 52 bits AND 0x7FF)"
  define frac where "frac = (bits AND (push_bit 52 1 - 1)) OR (push_bit 52 1 :: u64)"
  define m where "m = (2 :: nat) ^ 52 + unat bits mod 2 ^ 52"
  define f where "f = z_from_u64 al frac"
  define r where "r = (if e < 1075 then z_shr al f (1075 - e) else z_shl al f (e - 1075))"
  have "unat (bits AND mask 52) = unat bits mod 2 ^ 52" by (rule unat_and_mask)
  then have low: "unat (bits AND (push_bit 52 1 - 1)) = unat bits mod 2 ^ 52"
    by (simp add: mask_eq_exp_minus_1 push_bit_eq_mult)
  have "unat ((push_bit 52 1 :: u64) OR (bits AND (push_bit 52 1 - 1))) = 2 ^ 52 + unat bits mod 2 ^ 52"
    unfolding low [symmetric] by (subst unat_or_add [of 52]) (simp_all only: low, simp_all add: push_bit_eq_mult)
  then have frac: "unat frac = m" by (simp add: frac_def m_def or.commute)
  define v where "v = (if e < 1075 then m div 2 ^ (1075 - e) else m * 2 ^ (e - 1075))"
  have err: "zerr f \<Longrightarrow> zerr r"
    unfolding r_def by (auto simp: z_shr_def z_shl_def z_from_i64_def z_new_def z_checked_def Let_def z_from_u64_def f_def split: if_splits option.splits)
  have "z_result al r (int v)"
  proof (rule z_result_bind [OF z_from_u64_result [OF al, of frac, folded f_def] err])
    assume f: "z_ok f" "z_val f = int (unat frac)"
    then have "\<not> zneg f" using zneg_ok by blast
    then show "z_result al r (int v)"
      using z_shr_nonneg_result [OF al f(1), of "1075 - e"] z_shl_result [OF al f(1), of "e - 1075"] f(2) frac
      by (auto simp: r_def v_def zdiv_int)
  qed
  from z_result_sign [OF this, of "drop_bit 63 bits \<noteq> 0"] show ?thesis
    using fin unfolding z_from_d_def double_trunc_def Let_def v_def r_def f_def frac_def m_def e_def
    by simp
qed

text \<open>Bytes: the loop accumulates the little-endian value of the reversed buffer; \<open>fill\<close> is the number
  of bits already in the digits.\<close>

definition le256 :: "u8 list \<Rightarrow> nat" where
  "le256 bs = foldr (\<lambda>b n. unat b + 256 * n) bs 0"

definition fill_bits :: "nat \<Rightarrow> digits \<Rightarrow> nat" where
  "fill_bits s ds = (if s = 0 then 64 * length ds else 64 * (length ds - 1) + s)"

lemma unat_ucast_u8_u64 [simp]: "unat (ucast (b :: u8) :: u64) = unat b"
  using unat_u8_lt [of b] by (simp add: unsigned_ucast_eq take_bit_nat_eq_self_iff del: unat_u8_lt)

lemma z_from_b_loop_value:
  assumes "s mod 8 = 0" "s < 64" "s \<noteq> 0 \<Longrightarrow> ds \<noteq> [] \<and> unat (last ds) < 2 ^ s"
  shows "zval (z_from_b_loop bs s ds) = zval ds + 2 ^ fill_bits s ds * le256 bs \<and>
    length (z_from_b_loop bs s ds) = (fill_bits s ds + 8 * length bs + 63) div 64"
  using assms
proof (induction bs arbitrary: s ds)
  case Nil
  have "(64 * (n - 1) + s + 63) div 64 = n" if "0 < s" "s < 64" "0 < n" for n :: nat
  proof -
    have "64 * (n - 1) + s + 63 = (s - 1) + n * 64" using that by simp
    then show ?thesis using that by simp
  qed
  from this [of "length ds" ] Nil show ?case by (cases "s = 0") (auto simp: le256_def fill_bits_def)
next
  case (Cons b bs)
  define xs d where "xs = (if s = 0 then ds else butlast ds)" and "d = (if s = 0 then 0 else last ds)"
  define e where "e = d OR push_bit s (ucast b)"
  define s1 where "s1 = (if 64 \<le> s + 8 then 0 else s + 8)"
  have dlt: "unat d < 2 ^ s" using Cons.prems(3) by (simp add: d_def)
  have fb: "fill_bits s ds = 64 * length xs + s" by (simp add: fill_bits_def xs_def)
  have v: "zval ds = zval xs + zB ^ length xs * unat d"
    using Cons.prems(3) zval_snoc [of "butlast ds" "last ds"] by (cases "s = 0") (simp_all add: xs_def d_def)
  have "s \<le> 56" using Cons.prems(1,2) by presburger
  then have s56: "2 ^ s * 256 \<le> (2 ^ 64 :: nat)" using power_increasing [of "s + 8" 64 "2 :: nat"] by (simp add: power_add)
  have "unat b * 2 ^ s < 256 * 2 ^ s" by simp
  then have "unat b * 2 ^ s < 2 ^ 64" using s56 by linarith
  then have p: "unat (push_bit s (ucast b :: u64)) = unat b * 2 ^ s"
    by (subst unat_push_bit_small) simp_all
  have "unat (push_bit s (ucast b :: u64) OR d) = unat b * 2 ^ s + unat d"
    using dlt p by (subst unat_or_add [of s]) simp_all
  then have e: "unat e = unat d + 2 ^ s * unat b" by (simp add: e_def or.commute)
  have elt: "unat e < 2 ^ (s + 8)"
  proof -
    have "2 ^ s * Suc (unat b) \<le> 2 ^ s * 256" by (intro mult_le_mono2) (simp add: Suc_le_eq)
    then have "unat e < 2 ^ s * 256" using e dlt unfolding mult_Suc_right by linarith
    then show ?thesis by (simp add: power_add)
  qed
  have step: "z_from_b_loop (b # bs) s ds = z_from_b_loop bs s1 (xs @ [e])"
    by (simp add: xs_def e_def d_def s1_def)
  have fb1: "fill_bits s1 (xs @ [e]) = fill_bits s ds + 8"
    using \<open>s \<le> 56\<close> unfolding fb by (auto simp: fill_bits_def s1_def)
  have IH: "zval (z_from_b_loop bs s1 (xs @ [e])) = zval (xs @ [e]) + 2 ^ fill_bits s1 (xs @ [e]) * le256 bs \<and>
    length (z_from_b_loop bs s1 (xs @ [e])) = (fill_bits s1 (xs @ [e]) + 8 * length bs + 63) div 64"
  proof (rule Cons.IH)
    show "s1 mod 8 = 0" "s1 < 64" using Cons.prems(1) by (auto simp: s1_def)
    show "s1 \<noteq> 0 \<Longrightarrow> xs @ [e] \<noteq> [] \<and> unat (last (xs @ [e])) < 2 ^ s1"
      using elt by (cases "56 \<le> s") (simp_all add: s1_def)
  qed
  have "2 ^ fill_bits s ds = zB ^ length xs * 2 ^ s" by (simp add: fb zB_two power_add)
  then show ?case
    using IH unfolding step fb1 v by (simp add: zval_snoc e le256_def power_add algebra_simps)
qed

lemma le256_append: "le256 (xs @ ys) = le256 xs + 256 ^ length xs * le256 ys"
  by (induction xs) (simp_all add: le256_def algebra_simps)

text \<open>Any buffer: the value is right; leading zero bytes may leave leading zero digits.\<close>

lemma z_from_b_value:
  fixes buf :: "u8 list"
  assumes al: "al_sound al"
  defines "r \<equiv> z_from_b al buf"
  shows "zerr r \<and> al ((8 * length buf + 63) div 64) = None \<or>
    \<not> zerr r \<and> \<not> zneg r \<and> zsize r = (8 * length buf + 63) div 64 \<and> zsize r \<le> length (zd r) \<and> z_nat r = le256 (rev buf)"
proof -
  let ?n = "(8 * length buf + 63) div 64" and ?ds = "z_from_b_loop (rev buf) 0 []"
  define q where "q = z_new al False False 0 ?n"
  have r: "r = z_checked q (\<lambda>r. r\<lparr> zd := put (zd r) 0 ?ds, zsize := length ?ds \<rparr>)"
    by (simp add: r_def q_def z_from_b_def Let_def)
  have ds: "zval ?ds = le256 (rev buf)" "length ?ds = ?n"
    using z_from_b_loop_value [of 0 "[]" "rev buf"] by (simp_all add: fill_bits_def)
  show ?thesis
  proof (cases "zerr q")
    case True
    then show ?thesis using r by (auto simp: q_def z_new_def z_checked_def split: if_splits option.splits)
  next
    case False
    have q: "zneg q = False" "length (zd q) = ?n" using z_new_ok [OF al False [unfolded q_def]] by (simp_all add: q_def)
    then show ?thesis using r False ds by (simp add: z_checked_def put_all z_nat_def used_def)
  qed
qed

lemma z_from_b_result:
  assumes al: "al_sound al" and buf: "buf = [] \<or> hd buf \<noteq> 0"
  shows "z_result al (z_from_b al buf) (int (le256 (rev buf)))"
proof -
  define r where "r = z_from_b al buf"
  have "z_ok r \<and> z_val r = int (le256 (rev buf))" if e: "\<not> zerr r"
  proof -
    have r: "\<not> zneg r" "zsize r = (8 * length buf + 63) div 64" "zsize r \<le> length (zd r)" "z_nat r = le256 (rev buf)"
      using z_from_b_value [OF al, of buf] e by (simp_all add: r_def)
    have "zd r ! (zsize r - 1) \<noteq> 0" if nz: "zsize r \<noteq> 0"
    proof (cases buf)
      case Nil
      then show ?thesis using nz r(2) by simp
    next
      case (Cons b bs)
      have "1 \<le> unat b" using buf Cons by (simp add: Suc_le_eq unat_gt_0)
      then have "256 ^ length bs * 1 \<le> 256 ^ length bs * unat b" by (rule mult_le_mono2)
      then have "256 ^ length bs \<le> le256 (rev bs) + 256 ^ length bs * unat b" by linarith
      moreover have "le256 (rev buf) = le256 (rev bs) + 256 ^ length bs * unat b"
        unfolding Cons rev.simps le256_append by (simp add: le256_def)
      moreover have "zB ^ (zsize r - 1) \<le> 256 ^ length bs"
      proof -
        have "64 * (zsize r - 1) \<le> 8 * length bs" using r(2) Cons by simp
        then have "(2 :: nat) ^ (64 * (zsize r - 1)) \<le> 2 ^ (8 * length bs)" by (intro power_increasing) simp_all
        then show ?thesis by (simp add: zB_two power_mult)
      qed
      ultimately have "zB ^ (zsize r - 1) \<le> z_nat r" using r(4) by linarith
      moreover have "length (used r) = zsize r" using r(3) by (simp add: used_def)
      ultimately have "zB ^ (length (used r) - 1) \<le> zval (used r)" "used r \<noteq> []"
        using nz by (auto simp: z_nat_def)
      then have "last (used r) \<noteq> 0" using last_nz_iff by blast
      then show ?thesis using last_take_nth [OF nz r(3)] by (simp add: used_def)
    qed
    then show ?thesis using e r by (simp add: z_ok_def z_val_def)
  qed
  then show ?thesis using z_from_b_value [OF al, of buf] by (auto simp: z_result_def r_def)
qed

section \<open>The buffers an operation asks for\<close>

text \<open>An operation asks the allocator for buffers of at most \<open>zsize a + zsize b + 2\<close> digits: it cannot
  tell an allocator from one that agrees with it on these requests. So an error comes from a request
  of that size that failed, which \<open>al_limit\<close> expresses with an allocator that fails on no other one.\<close>

definition al_agree :: "nat \<Rightarrow> z_allocator \<Rightarrow> z_allocator \<Rightarrow> bool" where
  "al_agree N al al' \<longleftrightarrow> (\<forall>n. 0 < n \<and> n \<le> N \<longrightarrow> al n = al' n)"

definition al_limit :: "nat \<Rightarrow> z_allocator \<Rightarrow> z_allocator" where
  "al_limit N al n = (if 0 < n \<and> n \<le> N then al n else Some (0, replicate n 0))"

lemma al_limit_agree [simp]: "al_agree N (al_limit N al) al"
  by (simp add: al_agree_def al_limit_def)

lemma al_limit_sound: "al_sound al \<Longrightarrow> al_sound (al_limit N al)"
  by (auto simp: al_sound_def al_limit_def split: if_splits)

lemma al_limit_fails: "al_limit N al n = None \<Longrightarrow> 0 < n \<and> n \<le> N \<and> al n = None"
  by (auto simp: al_limit_def split: if_splits)

lemma z_new_agree: "al_agree N al al' \<Longrightarrow> k \<le> N \<Longrightarrow> z_new al e neg n k = z_new al' e neg n k"
  by (auto simp: z_new_def al_agree_def)

lemma z_checked_size: "(\<And>r. \<not> zerr r \<Longrightarrow> zsize r = n \<Longrightarrow> zsize (f r) \<le> k) \<Longrightarrow> zsize (z_checked (z_new al e neg n l) f) \<le> k"
  by (auto simp: z_checked_def z_new_def split: option.splits)

lemma zsize_trim [simp]: "zsize (z_trim r) \<le> zsize r" "zsize (z_trim_1 r) \<le> zsize r"
  by (simp_all add: z_trim_def z_trim_1_def Let_def trim_size_le)

lemma z_trim_size: "zsize r \<le> k \<Longrightarrow> zsize (z_trim r) \<le> k" "zsize r \<le> k \<Longrightarrow> zsize (z_trim_1 r) \<le> k"
  using zsize_trim le_trans by blast+

lemma z_unsigned_size:
  "zsize (z_unsigned_xor al a b) \<le> max (zsize a) (zsize b)" "zsize (z_unsigned_or al a b) \<le> max (zsize a) (zsize b)"
  "zsize (z_unsigned_and al a b) \<le> max (zsize a) (zsize b)" "zsize (z_unsigned_andnot al a b) \<le> zsize a"
  "zsize (z_unsigned_dec al a) \<le> zsize a"
  unfolding z_unsigned_xor_def z_unsigned_and_def z_unsigned_andnot_def z_unsigned_or_def z_unsigned_dec_def Let_def
  by (auto simp: case_prod_beta min_def max_def intro!: z_checked_size z_trim_size)

lemma z_addsub_1_agree: "al_agree N al al' \<Longrightarrow> zsize a + 1 \<le> N \<Longrightarrow> z_addsub_1 al a d n1 n2 = z_addsub_1 al' a d n1 n2"
  by (simp add: z_addsub_1_def z_new_agree)

lemma z_addsub_agree:
  assumes "al_agree N al al'" "max (zsize a) (zsize b) + 1 \<le> N"
  shows "z_addsub al a b n1 n2 = z_addsub al' a b n1 n2"
  using assms z_addsub_1_agree z_new_agree unfolding z_addsub_def Let_def
  by (cases "zsize a < zsize b") (auto simp: max_def)

lemma z_mul_agree: "al_agree N al al' \<Longrightarrow> zsize a + zsize b \<le> N \<Longrightarrow> z_mul al a b = z_mul al' a b"
  unfolding z_mul_def Let_def by (cases "zsize a < zsize b") (simp_all add: z_new_agree add.commute)

lemma length_used_le: "length (used a) \<le> zsize a"
  by (simp add: used_def)

lemma z_quorem_agree:
  assumes N: "al_agree N al al'" "zsize a + zsize b + 1 \<le> N"
  shows "z_quorem al qp rp a b = z_quorem al' qp rp a b"
proof -
  have "length (used b) + length (used a) + 1 \<le> N" using length_used_le [of a] length_used_le [of b] N(2) by linarith
  then have "zd_divmod (scratch_ok al) q (used a) (used b) = zd_divmod (scratch_ok al') q (used a) (used b)" for q
    using N(1) by (simp add: zd_divmod_def zd_div_knuth_def scratch_ok_def al_agree_def Let_def)
  moreover have "z_new al e neg n (zsize a + 1 - zsize b) = z_new al' e neg n (zsize a + 1 - zsize b)"
    "z_new al e neg n (zsize b) = z_new al' e neg n (zsize b)" for e neg n
    using N by (auto intro!: z_new_agree)
  ultimately show ?thesis unfolding z_quorem_def Let_def by (simp only:)
qed

lemma z_new_size: "zsize (z_new al e neg n k) \<le> n"
  by (auto simp: z_new_def split: option.splits)

lemma z_quorem_size:
  assumes "z_quorem al qp rp a b = (q, r)"
  shows "zsize q \<le> zsize a + 1" "zsize r \<le> max (zsize a) (zsize b)"
proof -
  define k where "k = zsize a + 1 - zsize b"
  define q0 where "q0 = z_new al (zerr a \<or> zerr b) (zneg a \<noteq> zneg b \<and> k \<noteq> 0) k k"
  define r0 where "r0 = z_new al (zerr a \<or> zerr b) (zneg a) (zsize b) (zsize b)"
  have s: "zsize q0 \<le> zsize a + 1" "zsize r0 \<le> zsize b"
    unfolding q0_def r0_def by (rule le_trans [OF z_new_size], simp add: k_def) (rule z_new_size)
  have "zsize (z_trim_1 (q0\<lparr>zd := d\<rparr>)) \<le> zsize a + 1" "zsize (z_trim (r0\<lparr>zd := d\<rparr>)) \<le> max (zsize a) (zsize b)" for d
    using s by (intro z_trim_size; simp)+
  then show "zsize q \<le> zsize a + 1" "zsize r \<le> max (zsize a) (zsize b)"
    using assms s unfolding z_quorem_def Let_def k_def [symmetric] q0_def [symmetric] r0_def [symmetric]
    by (auto split: if_splits div_result.splits)
qed

lemma z_divmod_agree:
  assumes N: "al_agree N al al'" "zsize a + zsize b + 2 \<le> N"
  shows "z_divmod al a b = z_divmod al' a b"
proof -
  obtain q r where q: "z_quorem al' True True a b = (q, r)" by fastforce
  have "z_quorem al True True a b = (q, r)" using z_quorem_agree [OF N(1)] N(2) q by simp
  moreover have "z_sub_1 al q 1 = z_sub_1 al' q 1" "z_add al r b = z_add al' r b"
    unfolding z_sub_1_def z_add_def using z_quorem_size [OF q] N(2)
    by (intro z_addsub_1_agree [OF N(1)] z_addsub_agree [OF N(1)]; simp)+
  ultimately show ?thesis using q by (simp add: z_divmod_def)
qed

lemma z_unsigned_agree:
  assumes N: "al_agree N al al'" "max (zsize a) (zsize b) + 1 \<le> N"
  shows "z_unsigned_xor al a b = z_unsigned_xor al' a b" "z_unsigned_or al a b = z_unsigned_or al' a b"
    "z_unsigned_and al a b = z_unsigned_and al' a b" "z_unsigned_andnot al a b = z_unsigned_andnot al' a b"
    "z_unsigned_dec al b = z_unsigned_dec al' b"
proof -
  have n: "z_new al e neg n k = z_new al' e neg n k" if "k \<le> max (zsize a) (zsize b) + 1" for e neg n k
    using z_new_agree [OF N(1)] that N(2) by simp
  show "z_unsigned_xor al a b = z_unsigned_xor al' a b" "z_unsigned_or al a b = z_unsigned_or al' a b"
    unfolding z_unsigned_xor_def z_unsigned_or_def Let_def using n by (cases "zsize a < zsize b"; simp)+
  show "z_unsigned_and al a b = z_unsigned_and al' a b" "z_unsigned_andnot al a b = z_unsigned_andnot al' a b"
    "z_unsigned_dec al b = z_unsigned_dec al' b"
    unfolding z_unsigned_and_def z_unsigned_andnot_def z_unsigned_dec_def Let_def
    using n [of "min (zsize a) (zsize b)"] n [of "zsize a"] n [of "zsize b + 1"] by simp_all
qed

lemma z_add_1_agree: "al_agree N al al' \<Longrightarrow> zsize a + 1 \<le> N \<Longrightarrow> z_add_1 al a d = z_add_1 al' a d"
  by (simp add: z_add_1_def z_addsub_1_agree)

lemma z_bitwise_agree:
  assumes N: "al_agree N al al'" "max (zsize a) (zsize b) + 1 \<le> N"
  shows "z_xor al a b = z_xor al' a b" "z_and al a b = z_and al' a b" "z_or al a b = z_or al' a b" "z_not al a = z_not al' a"
proof -
  let ?M = "max (zsize a) (zsize b)"
  note U = z_unsigned_agree [OF N(1)]
  have dec: "z_unsigned_dec al c = z_unsigned_dec al' c" if "zsize c \<le> ?M" for c
    using U(5) [of a c] that N(2) by (simp add: max_def split: if_splits)
  have op: "z_unsigned_xor al c d = z_unsigned_xor al' c d" "z_unsigned_or al c d = z_unsigned_or al' c d"
    "z_unsigned_and al c d = z_unsigned_and al' c d" "z_unsigned_andnot al c d = z_unsigned_andnot al' c d"
    if "zsize c \<le> ?M" "zsize d \<le> ?M" for c d using U(1-4) [of c d] that N(2) by simp_all
  have add: "z_add_1 al c 1 = z_add_1 al' c 1" if "zsize c \<le> ?M" for c
    using z_add_1_agree [OF N(1)] that N(2) by simp
  have sz: "zsize (z_unsigned_dec l c) \<le> ?M" if "zsize c \<le> ?M" for l c
    using z_unsigned_size(5) [of l c] that by simp
  have szop: "zsize (z_unsigned_xor l c d) \<le> ?M" "zsize (z_unsigned_or l c d) \<le> ?M"
    "zsize (z_unsigned_and l c d) \<le> ?M" "zsize (z_unsigned_andnot l c d) \<le> ?M"
    if "zsize c \<le> ?M" "zsize d \<le> ?M" for l c d
    using z_unsigned_size(1-4) [of l c d] that by (auto intro: le_trans)
  have ab: "zsize a \<le> ?M" "zsize b \<le> ?M" by simp_all
  show "z_xor al a b = z_xor al' a b" "z_and al a b = z_and al' a b" "z_or al a b = z_or al' a b"
    unfolding z_xor_def z_and_def z_or_def Let_def
    using ab by (cases "zneg a"; simp add: dec op add sz szop del: max.bounded_iff)+
  show "z_not al a = z_not al' a"
    unfolding z_not_def z_sub_1_def using N(2) by (intro z_addsub_1_agree [OF N(1)]) (simp add: z_neg_def)
qed

text \<open>An error of an operation, traced to a request.\<close>

lemma z_limit_result:
  assumes "z_result (al_limit N al) r v" "zerr r"
  shows "\<exists>n. 0 < n \<and> n \<le> N \<and> al n = None"
  using assms al_limit_fails unfolding z_result_def z_ok_def by blast

section \<open>Properties\<close>

text \<open>A concrete allocator and the canonical number of a digit vector, for the examples.\<close>

definition zero_alloc :: z_allocator where
  "zero_alloc n = Some (0, replicate n 0)"

definition int_of_digits :: "bool \<Rightarrow> digits \<Rightarrow> z_int" where
  "int_of_digits neg ds =
     \<lparr> zd = ds, zp = length ds, zsize = length ds, zalloc = 0, zneg = neg, zerr = False \<rparr>"

lemma zero_alloc_sound: "al_sound zero_alloc"
  by (simp add: al_sound_def zero_alloc_def)

text \<open>C20: Addition, subtraction and multiplication of big integers are exact: the result is the
  canonical number of the sum, difference or product, or the error value of a failed allocation.
  The multiplication may take its shortcut for identical operands, which compares digit pointers.\<close>

theorem z_ring_exact:
  assumes "al_sound al" "z_ok a" "z_ok b" "al_aliases a b"
  shows "z_result al (z_add al a b) (z_val a + z_val b) \<and> z_result al (z_sub al a b) (z_val a - z_val b) \<and>
    z_result al (z_mul al a b) (z_val a * z_val b)"
  using assms by (simp add: z_add_result z_sub_result z_mul_result)

theorem z_ring_exact_witness:
  "z_result zero_alloc (z_mul zero_alloc (int_of_digits True [5, 7]) (int_of_digits False [3, 9, 1]))
     (z_val (int_of_digits True [5, 7]) * z_val (int_of_digits False [3, 9, 1]))"
  using z_ring_exact [of zero_alloc "int_of_digits True [5, 7]" "int_of_digits False [3, 9, 1]"] zero_alloc_sound
  by (simp add: z_ok_def al_aliases_def int_of_digits_def)

text \<open>C21: Division of big integers: \<^verbatim>\<open>z_div\<close> and \<^verbatim>\<open>z_mod\<close> are the floored quotient and its remainder,
  \<^verbatim>\<open>z_quo\<close> and \<^verbatim>\<open>z_rem\<close> the truncated ones, for every non-zero divisor.\<close>

theorem z_division_exact:
  assumes "al_sound al" "z_ok a" "z_ok b" "z_val b \<noteq> 0"
  shows "z_result al (z_div al a b) (z_val a div z_val b) \<and> z_result al (z_mod al a b) (z_val a mod z_val b) \<and>
    z_result al (z_quo al a b) (z_val a sdiv z_val b) \<and> z_result al (z_rem al a b) (z_val a smod z_val b)"
  using assms by (simp add: z_divmod_result z_quo_result z_rem_result)

theorem z_division_exact_witness:
  "z_result zero_alloc (z_div zero_alloc (int_of_digits True [5, 7]) (int_of_digits False [3]))
     (z_val (int_of_digits True [5, 7]) div z_val (int_of_digits False [3]))"
  using z_division_exact [of zero_alloc "int_of_digits True [5, 7]" "int_of_digits False [3]"] zero_alloc_sound
  by (simp add: z_ok_def int_of_digits_def z_val_def z_nat_def used_def)

text \<open>C28: The bitwise operations act on the infinite two's complement representation, although numbers
  are stored as sign and magnitude.\<close>

theorem z_bitwise_twos_complement:
  assumes "al_sound al" "z_ok a" "z_ok b"
  shows "z_result al (z_and al a b) (z_val a AND z_val b) \<and> z_result al (z_or al a b) (z_val a OR z_val b) \<and>
    z_result al (z_xor al a b) (z_val a XOR z_val b) \<and> z_result al (z_not al a) (NOT (z_val a))"
  using assms by (simp add: z_and_result z_or_result z_xor_result z_not_result)

theorem z_bitwise_twos_complement_witness:
  "z_result zero_alloc (z_and zero_alloc (int_of_digits True [0, 1]) (int_of_digits False [9, 7]))
     (z_val (int_of_digits True [0, 1]) AND z_val (int_of_digits False [9, 7]))"
  using z_bitwise_twos_complement [of zero_alloc "int_of_digits True [0, 1]" "int_of_digits False [9, 7]"]
    zero_alloc_sound
  by (simp add: z_ok_def int_of_digits_def)



text \<open>C30: Conversions. A signed 64-bit integer keeps its value. A finite double is truncated toward zero,
  an infinity or a NaN gives zero. Big-endian bytes give their value, as a canonical number when the first
  byte is not zero (or there is none); with leading zero bytes the size is still that of the buffer. Back
  to 64 bits the value is reduced modulo 2^64.\<close>

theorem z_conversions_exact:
  assumes "al_sound al"
  shows "z_result al (z_from_i64 al i) (sint i) \<and>
    (if unat (drop_bit 52 bits AND 0x7FF) = 0x7FF then z_from_d al bits = z_zero
     else z_result al (z_from_d al bits) (double_trunc bits)) \<and>
    (let r = z_from_b al buf; n = (8 * length buf + 63) div 64 in
       (zerr r \<and> al n = None \<or> \<not> zerr r \<and> \<not> zneg r \<and> z_val r = int (le256 (rev buf)) \<and> zsize r = n) \<and>
       (buf = [] \<or> hd buf \<noteq> 0 \<longrightarrow> z_result al r (int (le256 (rev buf))))) \<and>
    (z_ok a \<longrightarrow> z_to_u64 a = word_of_int (z_val a))"
proof (intro conjI)
  show "if unat (drop_bit 52 bits AND 0x7FF) = 0x7FF then z_from_d al bits = z_zero
     else z_result al (z_from_d al bits) (double_trunc bits)"
    using z_from_d_result [OF assms, of bits] by (simp add: z_from_d_def)
  show "let r = z_from_b al buf; n = (8 * length buf + 63) div 64 in
       (zerr r \<and> al n = None \<or> \<not> zerr r \<and> \<not> zneg r \<and> z_val r = int (le256 (rev buf)) \<and> zsize r = n) \<and>
       (buf = [] \<or> hd buf \<noteq> 0 \<longrightarrow> z_result al r (int (le256 (rev buf))))"
    using z_from_b_value [OF assms, of buf] z_from_b_result [OF assms, of buf] by (auto simp: Let_def z_val_def)
qed (use z_from_i64_result [OF assms] z_to_u64_low in blast)+

theorem z_conversions_exact_witness:
  "z_result zero_alloc (z_from_d zero_alloc 0xC059000000000000) (double_trunc 0xC059000000000000) \<and>
   z_from_d zero_alloc 0x7FF0000000000000 = z_zero \<and>
   z_val (z_from_b zero_alloc [0, 0, 0, 0, 0, 0, 0, 0, 5]) = 5"
proof (intro conjI)
  show "z_result zero_alloc (z_from_d zero_alloc 0xC059000000000000) (double_trunc 0xC059000000000000)"
    using z_conversions_exact [OF zero_alloc_sound, of 0 "0xC059000000000000" "[]" z_zero] by (simp add: drop_bit_eq_div)
  show "z_from_d zero_alloc 0x7FF0000000000000 = z_zero"
    using z_conversions_exact [OF zero_alloc_sound, of 0 "0x7FF0000000000000" "[]" z_zero] by (simp add: drop_bit_eq_div)
  show "z_val (z_from_b zero_alloc [0, 0, 0, 0, 0, 0, 0, 0, 5]) = 5"
    using z_conversions_exact [OF zero_alloc_sound, of 0 0 "[0, 0, 0, 0, 0, 0, 0, 0, 5]" z_zero]
    by (simp add: zero_alloc_def le256_def Let_def)
qed

text \<open>A right shift of -1 by one bit gives a negative zero, while a shift by a whole digit gives -1:
  negative numbers are neither floored nor canonical.\<close>

lemma z_shr_negative_zero:
  "zneg (z_shr zero_alloc (int_of_digits True [1]) 1) \<and> zsize (z_shr zero_alloc (int_of_digits True [1]) 1) = 0 \<and>
   z_val (z_shr zero_alloc (int_of_digits True [1]) 64) = -1"
  by (simp add: z_shr_def int_of_digits_def z_checked_def z_new_def zero_alloc_def z_trim_1_def put_def
      used_def z_from_i64_def z_from_u64_def z_val_def z_nat_def drop_bit_eq_div)

end
