(* ===== verification/ChiliInt.thy ===== *)
theory ChiliInt
  imports Chili BigInt "HOL-Library.Signed_Division"
begin

text \<open>
  Integers of the language: values that fit 63 bits are unboxed, the others are heap objects with the
  digits of a big integer (\<^verbatim>\<open>src/native/bigint.c\<close> and \<^verbatim>\<open>include/chili/object/bigint.h\<close>). The memory holds
  the digits at each payload address and the size field of each object header; \<open>al i\<close> is the allocator
  (\<^verbatim>\<open>chiNewFlags\<close>) as the \<open>i\<close>-th allocating call of an operation finds it.
\<close>

record big_mem =
  bdigs :: "nat \<Rightarrow> digits"
  bsize :: "nat \<Rightarrow> nat"

definition CHI_BIGINT_LIMIT :: nat where
  "CHI_BIGINT_LIMIT = 102400"

definition CHI_FALSE :: u64 where
  "CHI_FALSE = 0"

text \<open>\<^verbatim>\<open>Z_ALLOC\<close> on a number of digits.\<close>

definition Z_ALLOC :: "z_allocator \<Rightarrow> z_allocator" where
  "Z_ALLOC nf n = (if n * CHI_WORDSIZE \<le> CHI_BIGINT_LIMIT then nf (CHI_DIV_CEIL (n * CHI_WORDSIZE) CHI_WORDSIZE) else None)"

definition chi_get_digit :: "u64 \<Rightarrow> nat" where
  "chi_get_digit c = chiPtrField c"

text \<open>\<^verbatim>\<open>chi_try_from_z\<close>: a digit vector becomes a value; an error becomes the failure object \<open>fail\<close>. The
  allocation set the header size of a large object to its capacity; it is lowered to the size used.\<close>

definition chi_try_from_z :: "u64 \<Rightarrow> big_mem \<Rightarrow> z_int \<Rightarrow> u64 \<times> big_mem" where
  "chi_try_from_z fail m z =
     (if zerr z then (fail, m)
      else if zsize z = 0 then (CHI_FALSE, m)
      else if zsize z = 1 \<and> drop_bit 62 (zd z ! 0) = 0
      then (chiInt64Pack (if zneg z then - (zd z ! 0) else zd z ! 0), m)
      else
        let allocW = CHI_DIV_CEIL (zalloc z * 8) CHI_WORDSIZE;
            sizeW = CHI_DIV_CEIL (zsize z * 8) CHI_WORDSIZE;
            t = (if zneg z then CHI_BIGINT_NEG else CHI_BIGINT_POS);
            m1 = m\<lparr> bdigs := (bdigs m)(zp z := zd z) \<rparr>
        in if allocW \<le> CHI_MAX_UNPINNED then (chiWrap (zp z) sizeW t CHI_GEN_NURSERY, m1)
           else
             let c = chiWrapLarge (zp z) sizeW t; obj = chiObjectUnchecked c
             in (c, m1\<lparr> bsize := (bsize m)(obj := (if sizeW < allocW then sizeW else allocW)) \<rparr>))"

definition chi_to_z :: "z_allocator \<Rightarrow> big_mem \<Rightarrow> u64 \<Rightarrow> z_int" where
  "chi_to_z al m c =
     (if chiUnboxed63 c then z_from_i64 al (chiInt64Unpack c)
      else let sz = chiSize (bsize m) c * CHI_WORDSIZE div 8
           in \<lparr> zd = bdigs m (chi_get_digit c), zp = chi_get_digit c, zsize = sz, zalloc = sz,
                zneg = (chiType c = CHI_BIGINT_NEG), zerr = False \<rparr>)"

text \<open>\<^verbatim>\<open>chi_from_z\<close> aborts the program on failure: None.\<close>

definition chi_from_z :: "u64 \<Rightarrow> big_mem \<Rightarrow> z_int \<Rightarrow> (u64 \<times> big_mem) option" where
  "chi_from_z fail m z =
     (let (c, m') = chi_try_from_z fail m z in if \<not> chiSuccess c then None else Some (c, m'))"

section \<open>The slow paths\<close>

type_synonym z_binop = "z_allocator \<Rightarrow> z_int \<Rightarrow> z_int \<Rightarrow> z_int"

definition slow_binop :: "z_binop \<Rightarrow> (nat \<Rightarrow> z_allocator) \<Rightarrow> u64 \<Rightarrow> big_mem \<Rightarrow> u64 \<Rightarrow> u64 \<Rightarrow> u64 \<times> big_mem" where
  "slow_binop op al fail m a b =
     chi_try_from_z fail m
       (op (Z_ALLOC (al 2)) (chi_to_z (Z_ALLOC (al 0)) m a) (chi_to_z (Z_ALLOC (al 1)) m b))"

definition slow_unop ::
  "(z_allocator \<Rightarrow> z_int \<Rightarrow> z_int) \<Rightarrow> (nat \<Rightarrow> z_allocator) \<Rightarrow> u64 \<Rightarrow> big_mem \<Rightarrow> u64 \<Rightarrow> u64 \<times> big_mem" where
  "slow_unop op al fail m a = chi_try_from_z fail m (op (Z_ALLOC (al 1)) (chi_to_z (Z_ALLOC (al 0)) m a))"

definition chiSlowBigIntTryShr :: "(nat \<Rightarrow> z_allocator) \<Rightarrow> u64 \<Rightarrow> big_mem \<Rightarrow> u64 \<Rightarrow> u16 \<Rightarrow> u64 \<times> big_mem" where
  "chiSlowBigIntTryShr al fail m a b = slow_unop (\<lambda>al z. z_shr al z (unat b)) al fail m a"

definition chiSlowBigIntTryShl :: "(nat \<Rightarrow> z_allocator) \<Rightarrow> u64 \<Rightarrow> big_mem \<Rightarrow> u64 \<Rightarrow> u16 \<Rightarrow> u64 \<times> big_mem" where
  "chiSlowBigIntTryShl al fail m a b = slow_unop (\<lambda>al z. z_shl al z (unat b)) al fail m a"

definition chiSlowBigIntTryNot :: "(nat \<Rightarrow> z_allocator) \<Rightarrow> u64 \<Rightarrow> big_mem \<Rightarrow> u64 \<Rightarrow> u64 \<times> big_mem" where
  "chiSlowBigIntTryNot al fail m a = slow_unop z_not al fail m a"

definition chiSlowBigIntCmp :: "(nat \<Rightarrow> z_allocator) \<Rightarrow> big_mem \<Rightarrow> u64 \<Rightarrow> u64 \<Rightarrow> int" where
  "chiSlowBigIntCmp al m a b = z_cmp (chi_to_z (Z_ALLOC (al 0)) m a) (chi_to_z (Z_ALLOC (al 1)) m b)"

definition chiSlowBigIntToUInt64 :: "(nat \<Rightarrow> z_allocator) \<Rightarrow> big_mem \<Rightarrow> u64 \<Rightarrow> u64" where
  "chiSlowBigIntToUInt64 al m c = z_to_u64 (chi_to_z (Z_ALLOC (al 0)) m c)"

definition chiSlowInt64ToBigInt :: "(nat \<Rightarrow> z_allocator) \<Rightarrow> u64 \<Rightarrow> big_mem \<Rightarrow> u64 \<Rightarrow> (u64 \<times> big_mem) option" where
  "chiSlowInt64ToBigInt al fail m i = chi_from_z fail m (z_from_i64 (Z_ALLOC (al 0)) i)"

definition chiSlowUInt64ToBigInt :: "(nat \<Rightarrow> z_allocator) \<Rightarrow> u64 \<Rightarrow> big_mem \<Rightarrow> u64 \<Rightarrow> (u64 \<times> big_mem) option" where
  "chiSlowUInt64ToBigInt al fail m i = chi_from_z fail m (z_from_u64 (Z_ALLOC (al 0)) i)"

definition chiFloat64ToBigInt :: "(nat \<Rightarrow> z_allocator) \<Rightarrow> u64 \<Rightarrow> big_mem \<Rightarrow> u64 \<Rightarrow> (u64 \<times> big_mem) option" where
  "chiFloat64ToBigInt al fail m x = chi_from_z fail m (z_from_d (Z_ALLOC (al 0)) x)"

definition chiBigIntFromBytes :: "(nat \<Rightarrow> z_allocator) \<Rightarrow> u64 \<Rightarrow> big_mem \<Rightarrow> u8 list \<Rightarrow> (u64 \<times> big_mem) option" where
  "chiBigIntFromBytes al fail m buf =
     (if length buf < 8
      then Some (chiInt64Pack (foldl (\<lambda>x b. push_bit 8 x OR ucast b) 0 buf), m)
      else chi_from_z fail m (z_from_b (Z_ALLOC (al 0)) buf))"

text \<open>\<^verbatim>\<open>_chiSlowBigIntTryNeg\<close> reads the size of its argument without testing for an unboxed one, and copies
  the digits into a new object of the other sign.\<close>

definition chiSlowBigIntTryNeg :: "(nat \<Rightarrow> z_allocator) \<Rightarrow> u64 \<Rightarrow> big_mem \<Rightarrow> u64 \<Rightarrow> u64 \<times> big_mem" where
  "chiSlowBigIntTryNeg al fail m c =
     (let size = chiSize (bsize m) c;
          t = (if chiType c = CHI_BIGINT_POS then CHI_BIGINT_NEG else CHI_BIGINT_POS)
      in case al 0 size of
           None \<Rightarrow> (fail, m)
         | Some (p, d) \<Rightarrow>
             (let m1 = m\<lparr> bdigs := (bdigs m)(p := put d 0 (take size (bdigs m (chi_get_digit c)))) \<rparr>
              in if size \<le> CHI_MAX_UNPINNED then (chiWrap p size t CHI_GEN_NURSERY, m1)
                 else (chiWrapLarge p size t, m1\<lparr> bsize := (bsize m)(p - CHI_WORDSIZE := size) \<rparr>)))"

section \<open>The fast paths\<close>

text \<open>Signed 64-bit operations of C: truncating division and the overflow builtins.\<close>

definition i64_quo :: "u64 \<Rightarrow> u64 \<Rightarrow> u64" where "i64_quo a b = word_of_int (sint a sdiv sint b)"
definition i64_rem :: "u64 \<Rightarrow> u64 \<Rightarrow> u64" where "i64_rem a b = word_of_int (sint a smod sint b)"

definition CHI_DIV :: "u64 \<Rightarrow> u64 \<Rightarrow> u64" where
  "CHI_DIV v w =
     (let m = i64_rem v w; q = i64_quo v w in if m = 0 \<or> (m <s 0) = (w <s 0) then q else q - 1)"

definition CHI_MOD :: "u64 \<Rightarrow> u64 \<Rightarrow> u64" where
  "CHI_MOD v w =
     (if v \<noteq> push_bit 63 1 \<or> w \<noteq> - 1
      then let m = i64_rem v w in if m = 0 \<or> (m <s 0) = (w <s 0) then m else m + w
      else 0)"

definition CHI_REM :: "u64 \<Rightarrow> u64 \<Rightarrow> u64" where
  "CHI_REM v w = (if v \<noteq> push_bit 63 1 \<or> w \<noteq> - 1 then i64_rem v w else 0)"

definition i64_overflow :: "(int \<Rightarrow> int \<Rightarrow> int) \<Rightarrow> u64 \<Rightarrow> u64 \<Rightarrow> u64 \<times> bool" where
  "i64_overflow f a b =
     (let z = f (sint a) (sint b) in (word_of_int z, z < - (2 ^ 63) \<or> 2 ^ 63 \<le> z))"

definition both_unboxed :: "u64 \<Rightarrow> u64 \<Rightarrow> bool" where
  "both_unboxed x y \<longleftrightarrow> chiFitsUnboxed63 (x OR y)"

text \<open>The macros that generate the operations.\<close>

definition CHI_BIGINT_OVF_BINOP ::
  "(int \<Rightarrow> int \<Rightarrow> int) \<Rightarrow> z_binop \<Rightarrow> (nat \<Rightarrow> z_allocator) \<Rightarrow> u64 \<Rightarrow> big_mem \<Rightarrow> u64 \<Rightarrow> u64 \<Rightarrow> u64 \<times> big_mem" where
  "CHI_BIGINT_OVF_BINOP f op al fail m x y =
     (let (z, ovf) = i64_overflow f (chiInt64Unpack x) (chiInt64Unpack y)
      in if both_unboxed x y \<and> \<not> ovf \<and> chiInt64Unboxed z then (chiInt64Pack z, m)
         else slow_binop op al fail m x y)"

definition CHI_BIGINT_TRY_BINFN ::
  "(u64 \<Rightarrow> u64 \<Rightarrow> u64) \<Rightarrow> z_binop \<Rightarrow> (nat \<Rightarrow> z_allocator) \<Rightarrow> u64 \<Rightarrow> big_mem \<Rightarrow> u64 \<Rightarrow> u64 \<Rightarrow> u64 \<times> big_mem" where
  "CHI_BIGINT_TRY_BINFN f op al fail m x y =
     (if both_unboxed x y then (chiInt64Pack (f (chiInt64Unpack x) (chiInt64Unpack y)), m)
      else slow_binop op al fail m x y)"

definition CHI_BIGINT_TRY_BINOP ::
  "(u64 \<Rightarrow> u64 \<Rightarrow> u64) \<Rightarrow> z_binop \<Rightarrow> (nat \<Rightarrow> z_allocator) \<Rightarrow> u64 \<Rightarrow> big_mem \<Rightarrow> u64 \<Rightarrow> u64 \<Rightarrow> u64 \<times> big_mem" where
  "CHI_BIGINT_TRY_BINOP f op al fail m x y =
     (if both_unboxed x y then (chiInt64Pack (f (chiInt64Unpack x) (chiInt64Unpack y)), m)
      else slow_binop op al fail m x y)"

definition chiBigIntTryAdd where "chiBigIntTryAdd = CHI_BIGINT_OVF_BINOP (+) z_add"
definition chiBigIntTryMul where "chiBigIntTryMul = CHI_BIGINT_OVF_BINOP (*) z_mul"
definition chiBigIntTrySub where "chiBigIntTrySub = CHI_BIGINT_OVF_BINOP (-) z_sub"
definition chiBigIntTryDiv where "chiBigIntTryDiv = CHI_BIGINT_TRY_BINFN CHI_DIV z_div"
definition chiBigIntTryMod where "chiBigIntTryMod = CHI_BIGINT_TRY_BINFN CHI_MOD z_mod"
definition chiBigIntTryRem where "chiBigIntTryRem = CHI_BIGINT_TRY_BINFN CHI_REM z_rem"
definition chiBigIntTryAnd where "chiBigIntTryAnd = CHI_BIGINT_TRY_BINOP (AND) z_and"
definition chiBigIntTryOr where "chiBigIntTryOr = CHI_BIGINT_TRY_BINOP (OR) z_or"
definition chiBigIntTryQuo where "chiBigIntTryQuo = CHI_BIGINT_TRY_BINOP i64_quo z_quo"
definition chiBigIntTryXor where "chiBigIntTryXor = CHI_BIGINT_TRY_BINOP (XOR) z_xor"

definition CHI_BIGINT_TRY_UNOP ::
  "(u64 \<Rightarrow> u64) \<Rightarrow> ((nat \<Rightarrow> z_allocator) \<Rightarrow> u64 \<Rightarrow> big_mem \<Rightarrow> u64 \<Rightarrow> u64 \<times> big_mem) \<Rightarrow>
     (nat \<Rightarrow> z_allocator) \<Rightarrow> u64 \<Rightarrow> big_mem \<Rightarrow> u64 \<Rightarrow> u64 \<times> big_mem" where
  "CHI_BIGINT_TRY_UNOP f slow al fail m x =
     (let y = f (chiInt64Unpack x)
      in if chiUnboxed63 x \<and> chiInt64Unboxed y then (chiInt64Pack y, m) else slow al fail m x)"

definition chiBigIntTryNeg where "chiBigIntTryNeg = CHI_BIGINT_TRY_UNOP uminus chiSlowBigIntTryNeg"
definition chiBigIntTryNot where "chiBigIntTryNot = CHI_BIGINT_TRY_UNOP (NOT) chiSlowBigIntTryNot"

definition CHI_CMP :: "u64 \<Rightarrow> u64 \<Rightarrow> int" where
  "CHI_CMP x y = of_bool (y <s x) - of_bool (x <s y)"

definition chiBigIntCmp :: "(nat \<Rightarrow> z_allocator) \<Rightarrow> big_mem \<Rightarrow> u64 \<Rightarrow> u64 \<Rightarrow> int" where
  "chiBigIntCmp al m x y =
     (if both_unboxed x y then CHI_CMP (chiInt64Unpack x) (chiInt64Unpack y) else chiSlowBigIntCmp al m x y)"

definition chiBigIntEq where "chiBigIntEq al m x y \<longleftrightarrow> chiBigIntCmp al m x y = 0"
definition chiBigIntLe where "chiBigIntLe al m x y \<longleftrightarrow> chiBigIntCmp al m x y \<le> 0"
definition chiBigIntLt where "chiBigIntLt al m x y \<longleftrightarrow> chiBigIntCmp al m x y < 0"
definition chiBigIntNe where "chiBigIntNe al m x y \<longleftrightarrow> chiBigIntCmp al m x y \<noteq> 0"

definition chiInt64ToBigInt :: "(nat \<Rightarrow> z_allocator) \<Rightarrow> u64 \<Rightarrow> big_mem \<Rightarrow> u64 \<Rightarrow> (u64 \<times> big_mem) option" where
  "chiInt64ToBigInt al fail m x =
     (if chiInt64Unboxed x then Some (chiInt64Pack x, m) else chiSlowInt64ToBigInt al fail m x)"

definition chiUInt64ToBigInt :: "(nat \<Rightarrow> z_allocator) \<Rightarrow> u64 \<Rightarrow> big_mem \<Rightarrow> u64 \<Rightarrow> (u64 \<times> big_mem) option" where
  "chiUInt64ToBigInt al fail m x =
     (if drop_bit 62 x = 0 then Some (chiInt64Pack x, m) else chiSlowUInt64ToBigInt al fail m x)"

definition chiBigIntToUInt64 :: "(nat \<Rightarrow> z_allocator) \<Rightarrow> big_mem \<Rightarrow> u64 \<Rightarrow> u64" where
  "chiBigIntToUInt64 al m x = (if chiUnboxed63 x then chiInt64Unpack x else chiSlowBigIntToUInt64 al m x)"

definition chiBigIntTryShl :: "(nat \<Rightarrow> z_allocator) \<Rightarrow> u64 \<Rightarrow> big_mem \<Rightarrow> u64 \<Rightarrow> u16 \<Rightarrow> u64 \<times> big_mem" where
  "chiBigIntTryShl al fail m x y =
     (let a = chiInt64Unpack x; b = push_bit (unat y) a
      in if chiUnboxed63 x \<and> y < 63 \<and> signed_drop_bit (unat y) b = a then (chiInt64Pack b, m)
         else chiSlowBigIntTryShl al fail m x y)"

definition chiBigIntTryShr :: "(nat \<Rightarrow> z_allocator) \<Rightarrow> u64 \<Rightarrow> big_mem \<Rightarrow> u64 \<Rightarrow> u16 \<Rightarrow> u64 \<times> big_mem" where
  "chiBigIntTryShr al fail m x y =
     (let a = chiInt64Unpack x
      in if chiUnboxed63 x
         then (chiInt64Pack (if y < 63 then signed_drop_bit (unat y) a else if a <s 0 then - 1 else 0), m)
         else chiSlowBigIntTryShr al fail m x y)"

section \<open>Results fit their buffers, and errors propagate\<close>

text \<open>The buffer of a result is the one its allocation returned.\<close>

definition z_fits :: "z_allocator \<Rightarrow> z_int \<Rightarrow> bool" where
  "z_fits al r \<longleftrightarrow> zerr r \<or> zsize r \<le> zalloc r \<and> (zalloc r \<noteq> 0 \<longrightarrow> (\<exists>d. al (zalloc r) = Some (zp r, d)))"

definition z_bad :: "z_int \<Rightarrow> bool" where
  "z_bad a \<longleftrightarrow> zerr a \<and> zsize a = 0"

lemma z_fits_err [simp]: "z_fits al z_err"
  by (simp add: z_fits_def z_err_def)

lemma z_fits_new: "n \<le> k \<Longrightarrow> z_fits al (z_new al e neg n k)"
  by (auto simp: z_fits_def z_new_def z_err_def split: option.splits)

lemma z_new_fits:
  "\<not> zerr (z_new al e neg n k) \<Longrightarrow> zsize (z_new al e neg n k) = n \<and> zalloc (z_new al e neg n k) = k \<and>
     (k \<noteq> 0 \<longrightarrow> (\<exists>d. al k = Some (zp (z_new al e neg n k), d)))"
  by (auto simp: z_new_def z_err_def split: option.splits if_splits)

text \<open>Filling a buffer does not move it; the size stays within the allocation.\<close>

definition fills :: "(z_int \<Rightarrow> z_int) \<Rightarrow> nat \<Rightarrow> nat \<Rightarrow> bool" where
  "fills f n k \<longleftrightarrow> (\<forall>r. zsize r = n \<longrightarrow> zalloc (f r) = zalloc r \<and> zp (f r) = zp r \<and> zsize (f r) \<le> k)"

lemma z_fits_checked:
  assumes f: "fills f n k"
  shows "z_fits al (z_checked (z_new al e neg n k) f)"
proof (cases "zerr (z_new al e neg n k)")
  case False
  then show ?thesis using z_new_fits [OF False] f by (auto simp: z_checked_def z_fits_def fills_def)
qed (simp add: z_checked_def)

lemma z_buf_simps [simp]:
  "zalloc (z_grow r c) = zalloc r" "zp (z_grow r c) = zp r" "zsize (z_grow r c) = zsize r + (if c = 0 then 0 else 1)"
  "zalloc (z_trim r) = zalloc r" "zp (z_trim r) = zp r" "zsize (z_trim r) = trim_size (zd r) (zsize r)"
  "zalloc (z_trim_1 r) = zalloc r" "zp (z_trim_1 r) = zp r" "zsize (z_trim_1 r) \<le> zsize r"
  by (simp_all add: z_grow_def z_trim_def z_trim_1_def Let_def)

lemma z_size_le [simp]: "n \<le> k \<Longrightarrow> trim_size d n \<le> k" "zsize r \<le> k \<Longrightarrow> zsize (z_trim_1 r) \<le> k"
  by (auto simp: z_trim_1_def intro: le_trans [OF trim_size_le])

lemma fills_addsub_1: "fills (z_addsub_1_fill a b aneg bneg) (zsize a) (zsize a + 1)"
  unfolding fills_def z_addsub_1_fill_def by (auto split: prod.splits)

lemma fills_addsub: "fills (z_addsub_fill a b aneg bneg) (zsize a) (zsize a + 1)"
  unfolding fills_def z_addsub_fill_def by (auto split: prod.splits)

lemma fills_mul: "fills (z_mul_fill a b) (zsize a + zsize b) (zsize a + zsize b)"
  unfolding fills_def z_mul_fill_def by (auto split: prod.splits)

lemma fills_shl: "fills (z_shl_fill a n s) k (k + 1)"
  unfolding fills_def z_shl_fill_def by (auto simp: Let_def split: prod.splits)

lemma z_fits_addsub_1: "z_fits al (z_addsub_1 al a b aneg bneg)"
  unfolding z_addsub_1_def by (rule z_fits_checked [OF fills_addsub_1])

lemma z_fits_addsub: "z_fits al (z_addsub al a b aneg bneg)"
proof -
  have "z_fits al (if zsize b = 1 then z_addsub_1 al a d n1 n2
      else z_checked (z_new al e n1 (zsize a) (zsize a + 1)) (z_addsub_fill a b n1 n2))" for a b d e n1 n2
    using z_fits_addsub_1 z_fits_checked [OF fills_addsub, of al e n1] by (simp only: if_split) blast
  then show ?thesis unfolding z_addsub_def Let_def by (cases "zsize a < zsize b") (simp_all only: if_True if_False prod.case)
qed

lemma z_fits_mul: "z_fits al (z_mul al a b)"
  unfolding z_mul_def Let_def using z_fits_new z_fits_checked [OF fills_mul] by (simp split: prod.splits)

lemma z_fits_quorem:
  "z_fits al (fst (z_quorem al qp rp a b)) \<and> z_fits al (snd (z_quorem al qp rp a b))"
proof -
  define k where "k = zsize a + 1 - zsize b"
  define q where "q = z_new al (zerr a \<or> zerr b) (zneg a \<noteq> zneg b \<and> k \<noteq> 0) k k"
  define r where "r = z_new al (zerr a \<or> zerr b) (zneg a) (zsize b) (zsize b)"
  have q: "zerr q \<or> zsize q = k \<and> zalloc q = k \<and> (k \<noteq> 0 \<longrightarrow> (\<exists>d. al k = Some (zp q, d)))"
    and r: "zerr r \<or> zsize r = zsize b \<and> zalloc r = zsize b \<and> (zsize b \<noteq> 0 \<longrightarrow> (\<exists>d. al (zsize b) = Some (zp r, d)))"
    unfolding q_def r_def using z_new_fits by blast+
  have zb: "k = 0 \<Longrightarrow> zsize a \<le> zsize b" by (simp add: k_def)
  show ?thesis
    unfolding z_quorem_def Let_def k_def [symmetric] q_def [symmetric] r_def [symmetric]
    using q r zb by (auto simp: z_fits_def split: div_result.splits)
qed

lemma z_fits_neg [simp]: "z_fits al (r\<lparr>zneg := b\<rparr>) = z_fits al r"
  by (simp add: z_fits_def)

lemma z_fits_divmod: "z_fits al (fst (z_divmod al a b)) \<and> z_fits al (snd (z_divmod al a b))"
proof -
  obtain q r where "z_quorem al True True a b = (q, r)" by fastforce
  then show ?thesis
    using z_fits_quorem [of al True True a b]
    by (simp add: z_divmod_def z_sub_1_def z_add_def z_fits_addsub_1 z_fits_addsub)
qed

lemma z_fits_unsigned:
  "z_fits al (z_unsigned_xor al a b)" "z_fits al (z_unsigned_or al a b)" "z_fits al (z_unsigned_and al a b)"
  "z_fits al (z_unsigned_andnot al a b)"
proof -
  show "z_fits al (z_unsigned_xor al a b)" "z_fits al (z_unsigned_or al a b)"
    unfolding z_unsigned_xor_def z_unsigned_or_def Let_def
    by (cases "zsize a < zsize b"; simp only: if_True if_False prod.case; rule z_fits_checked; simp add: fills_def)+
  show "z_fits al (z_unsigned_and al a b)" "z_fits al (z_unsigned_andnot al a b)"
    unfolding z_unsigned_and_def z_unsigned_andnot_def Let_def
    by (rule z_fits_checked; simp add: fills_def)+
qed

lemma z_fits_bitwise:
  "z_fits al (z_xor al a b)" "z_fits al (z_and al a b)" "z_fits al (z_or al a b)" "z_fits al (z_not al a)"
  unfolding z_xor_def z_and_def z_or_def z_not_def z_add_1_def z_sub_1_def Let_def
  using z_fits_unsigned z_fits_addsub_1 by (simp_all split: prod.splits)

lemma z_fits_shl: "z_fits al (z_shl al a n)"
  unfolding z_shl_def Let_def using z_fits_new z_fits_checked [OF fills_shl] by (simp add: add.commute)

lemma z_fits_from_u64: "z_fits al (z_from_u64 al b)"
  unfolding z_from_u64_def by (rule z_fits_checked) (simp add: fills_def)

lemma z_fits_from_i64: "z_fits al (z_from_i64 al b)"
  unfolding z_from_i64_def by (simp add: z_fits_from_u64)

lemma z_fits_shr: "z_fits al (z_shr al a n)"
  unfolding z_shr_def Let_def
  by (auto simp: fills_def intro!: z_fits_from_i64 z_fits_new z_fits_checked)

lemma z_fits_from_d: "z_fits al (z_from_d al x)"
  unfolding z_from_d_def Let_def using z_fits_shr z_fits_shl by (simp add: z_fits_def z_zero_def)

text \<open>An error in an operand is an error of the result.\<close>

lemma z_err_zerr [simp]: "zerr z_err" "zerr (z_err\<lparr>zneg := b\<rparr>)" "zsize z_err = 0"
  by (simp_all add: z_err_def)

lemma z_new_bad [simp]: "z_new al True neg n k = z_err"
  by (simp add: z_new_def)

lemma z_checked_err [simp]: "z_checked z_err f = z_err"
  by (simp add: z_checked_def)

lemma z_addsub_1_bad: "zerr a \<Longrightarrow> z_addsub_1 al a b n1 n2 = z_err"
  by (simp add: z_addsub_1_def)

lemma z_addsub_bad: "z_bad a \<or> z_bad b \<Longrightarrow> z_addsub al a b n1 n2 = z_err"
  unfolding z_addsub_def Let_def
  by (cases "zsize a < zsize b") (auto simp: z_bad_def z_addsub_1_bad)

lemma z_mul_bad: "z_bad a \<or> z_bad b \<Longrightarrow> zerr (z_mul al a b)"
  unfolding z_mul_def Let_def by (cases "zsize a < zsize b") (auto simp: z_bad_def)

lemma z_quorem_bad: "z_bad a \<or> z_bad b \<Longrightarrow> z_quorem al qp rp a b = (z_err, z_err)"
  unfolding z_quorem_def Let_def by (auto simp: z_bad_def)

lemma z_unsigned_bad:
  "zerr a \<or> zerr b \<Longrightarrow> z_unsigned_xor al a b = z_err" "zerr a \<or> zerr b \<Longrightarrow> z_unsigned_and al a b = z_err"
  "zerr a \<or> zerr b \<Longrightarrow> z_unsigned_andnot al a b = z_err" "zerr a \<or> zerr b \<Longrightarrow> z_unsigned_or al a b = z_err"
  "zerr a \<Longrightarrow> z_unsigned_dec al a = z_err"
  unfolding z_unsigned_xor_def z_unsigned_and_def z_unsigned_andnot_def z_unsigned_or_def z_unsigned_dec_def Let_def
  by (auto simp: disj_commute)

lemma z_bitwise_bad:
  assumes "zerr a \<or> zerr b"
  shows "zerr (z_xor al a b)" "zerr (z_and al a b)" "zerr (z_or al a b)"
  using assms unfolding z_xor_def z_and_def z_or_def Let_def z_add_1_def
  by (auto simp: z_unsigned_bad z_addsub_1_bad)

text \<open>Operations that ask for at most two digits more than their operands have.\<close>

definition z_local :: "z_binop \<Rightarrow> bool" where
  "z_local op \<longleftrightarrow> (\<forall>N al al' a b. al_agree N al al' \<longrightarrow> zsize a + zsize b + 2 \<le> N \<longrightarrow> op al a b = op al' a b)"

lemma z_local_ops:
  "z_local z_add" "z_local z_sub" "z_local z_mul" "z_local z_and" "z_local z_or" "z_local z_xor"
  "z_local z_div" "z_local z_mod" "z_local z_quo" "z_local z_rem"
proof -
  have m: "zsize a + zsize b + 2 \<le> N \<Longrightarrow> max (zsize a) (zsize b) + 1 \<le> N"
    "zsize a + zsize b + 2 \<le> N \<Longrightarrow> zsize a + zsize b \<le> N" "zsize a + zsize b + 2 \<le> N \<Longrightarrow> zsize a + zsize b + 1 \<le> N"
    for a b :: z_int and N by simp_all
  show "z_local z_add" "z_local z_sub"
    unfolding z_local_def z_add_def z_sub_def by (intro allI impI z_addsub_agree m; assumption)+
  show "z_local z_and" "z_local z_or" "z_local z_xor" "z_local z_mul"
    unfolding z_local_def by (intro allI impI z_bitwise_agree z_mul_agree m; assumption)+
  show "z_local z_div" "z_local z_mod" "z_local z_quo" "z_local z_rem"
    unfolding z_local_def z_div_def z_mod_def z_quo_def z_rem_def
    by (intro allI impI arg_cong [where f = fst] arg_cong [where f = snd] z_divmod_agree z_quorem_agree m; assumption)+
qed

section \<open>Integers in memory\<close>

definition boxed_z :: "big_mem \<Rightarrow> u64 \<Rightarrow> z_int" where
  "boxed_z m c =
     (let sz = chiSize (bsize m) c
      in \<lparr> zd = bdigs m (chiPtrField c), zp = chiPtrField c, zsize = sz, zalloc = sz,
           zneg = (chiType c = CHI_BIGINT_NEG), zerr = False \<rparr>)"

definition big_ok :: "big_mem \<Rightarrow> u64 \<Rightarrow> bool" where
  "big_ok m c \<longleftrightarrow> chiUnboxed63 c \<or>
     chiRef c \<and> (chiType c = CHI_BIGINT_POS \<or> chiType c = CHI_BIGINT_NEG) \<and> z_ok (boxed_z m c)"

definition big_val :: "big_mem \<Rightarrow> u64 \<Rightarrow> int" where
  "big_val m c = (if chiUnboxed63 c then sint (chiInt64Unpack c) else z_val (boxed_z m c))"

text \<open>What the integer operations rely on of \<^verbatim>\<open>chiNewFlags\<close>: the payload has the requested number of words
  and lies, word aligned, in the chunk arena.\<close>

definition heap_alloc :: "z_allocator \<Rightarrow> bool" where
  "heap_alloc nf \<longleftrightarrow> (\<forall>n p d. nf n = Some (p, d) \<longrightarrow>
     length d = n \<and> 8 dvd p \<and> CHI_CHUNK_START \<le> p \<and> p < CHI_CHUNK_START + CHI_CHUNK_MAX_SIZE)"

definition heap_allocs :: "(nat \<Rightarrow> z_allocator) \<Rightarrow> bool" where
  "heap_allocs al \<longleftrightarrow> (\<forall>i. heap_alloc (al i))"

lemma allocs_at: "heap_allocs al \<Longrightarrow> heap_alloc (al i)"
  by (simp add: heap_allocs_def)

text \<open>The outcome of an operation with value \<open>v\<close>: an integer of that value, and only fresh objects were
  written; or the failure object and an unchanged memory, under the condition \<open>F\<close>.\<close>

definition big_outcome :: "(nat \<Rightarrow> z_allocator) \<Rightarrow> bool \<Rightarrow> u64 \<Rightarrow> big_mem \<Rightarrow> u64 \<times> big_mem \<Rightarrow> int \<Rightarrow> bool" where
  "big_outcome al F fail m r v \<longleftrightarrow>
     (r = (fail, m) \<and> F) \<or>
     (\<exists>c m'. r = (c, m') \<and> chiSuccess c \<and> big_ok m' c \<and> big_val m' c = v \<and>
        (\<forall>p. (\<forall>i n d. al i n \<noteq> Some (p, d)) \<longrightarrow>
           bdigs m' p = bdigs m p \<and> bsize m' (p - CHI_WORDSIZE) = bsize m (p - CHI_WORDSIZE)))"

text \<open>What an operation on the operands \<open>xs\<close> promises. If they are unboxed and the value fits an unboxed
  integer, the result is unboxed, the memory is not touched, and nothing fails. Otherwise the operation fails
  only if one of its allocations, which are of at most two digits more than the operands have, failed.\<close>

definition big_size :: "big_mem \<Rightarrow> u64 \<Rightarrow> nat" where
  "big_size m c = (if chiUnboxed63 c then 1 else chiSize (bsize m) c)"

definition all_unboxed :: "u64 list \<Rightarrow> int \<Rightarrow> bool" where
  "all_unboxed xs v \<longleftrightarrow> list_all chiUnboxed63 xs \<and> - (2 ^ 62) \<le> v \<and> v < 2 ^ 62"

definition request_fails :: "(nat \<Rightarrow> z_allocator) \<Rightarrow> nat \<Rightarrow> bool" where
  "request_fails al N \<longleftrightarrow> (\<exists>i \<le> 2. \<exists>n. 0 < n \<and> n \<le> N \<and> Z_ALLOC (al i) n = None)"

definition big_result ::
  "(nat \<Rightarrow> z_allocator) \<Rightarrow> u64 list \<Rightarrow> u64 \<Rightarrow> big_mem \<Rightarrow> u64 \<times> big_mem \<Rightarrow> int \<Rightarrow> bool" where
  "big_result al xs fail m r v \<longleftrightarrow>
     big_outcome al (\<not> all_unboxed xs v \<and> request_fails al (sum_list (map (big_size m) xs) + 2)) fail m r v \<and>
     (all_unboxed xs v \<longrightarrow> chiUnboxed63 (fst r) \<and> snd r = m)"

lemma outcome_mono: "big_outcome al F fail m r v \<Longrightarrow> (F \<Longrightarrow> F') \<Longrightarrow> big_outcome al F' fail m r v"
  by (auto simp: big_outcome_def)

lemma big_result_slow:
  assumes "\<not> all_unboxed xs v"
    and "big_outcome al (request_fails al (sum_list (map (big_size m) xs) + 2)) fail m r v"
  shows "big_result al xs fail m r v"
  using assms by (simp add: big_result_def)

lemma Z_ALLOC_simp: "Z_ALLOC nf n = (if n * 8 \<le> CHI_BIGINT_LIMIT then nf n else None)"
proof -
  have "(n * 8 + 8 - 1) div 8 = n" by (rule div_nat_eqI) simp_all
  then show ?thesis by (simp add: Z_ALLOC_def CHI_DIV_CEIL_def CHI_WORDSIZE_def)
qed

lemma Z_ALLOC_sound: "heap_alloc nf \<Longrightarrow> al_sound (Z_ALLOC nf)"
  by (auto simp: heap_alloc_def al_sound_def Z_ALLOC_simp split: if_splits)

lemma words_digits [simp]: "CHI_DIV_CEIL (n * 8) CHI_WORDSIZE = n"
proof -
  have "(n * 8 + 8 - 1) div 8 = n" by (rule div_nat_eqI) simp_all
  then show ?thesis by (simp add: CHI_DIV_CEIL_def CHI_WORDSIZE_def)
qed

lemma chi_to_z_boxed: "\<not> chiUnboxed63 c \<Longrightarrow> chi_to_z al m c = boxed_z m c"
  by (simp add: chi_to_z_def boxed_z_def chi_get_digit_def CHI_WORDSIZE_def Let_def)

lemma chi_to_z_unboxed: "chiUnboxed63 c \<Longrightarrow> chi_to_z al m c = z_from_i64 al (chiInt64Unpack c)"
  by (simp add: chi_to_z_def)

text \<open>An operand is a canonical number of its value, or the error of its allocation.\<close>

lemma chi_to_z_result:
  assumes al: "heap_alloc nf" and c: "big_ok m c"
  shows "z_bad (chi_to_z (Z_ALLOC nf) m c) \<and> Z_ALLOC nf 1 = None \<or>
    z_ok (chi_to_z (Z_ALLOC nf) m c) \<and> z_val (chi_to_z (Z_ALLOC nf) m c) = big_val m c"
proof (cases "chiUnboxed63 c")
  case True
  have "z_result (Z_ALLOC nf) (z_from_i64 (Z_ALLOC nf) (chiInt64Unpack c)) (sint (chiInt64Unpack c))"
    by (rule z_from_i64_result [OF Z_ALLOC_sound [OF al]])
  moreover have "zerr (z_from_i64 (Z_ALLOC nf) x) \<Longrightarrow> zsize (z_from_i64 (Z_ALLOC nf) x) = 0 \<and> Z_ALLOC nf 1 = None" for x
    by (auto simp: z_from_i64_def z_from_u64_def z_checked_def z_new_def split: if_splits option.splits)
  ultimately show ?thesis using True by (auto simp: z_result_def z_bad_def chi_to_z_unboxed big_val_def)
next
  case False
  then show ?thesis using c by (simp add: chi_to_z_boxed big_ok_def big_val_def)
qed

lemma chi_to_z_size: "zsize (chi_to_z al m c) \<le> big_size m c"
  by (auto simp: chi_to_z_unboxed chi_to_z_boxed big_size_def boxed_z_def Let_def z_from_i64_def z_from_u64_def
      intro!: z_checked_size)

lemma pack_small:
  assumes "drop_bit 62 (d :: u64) = 0"
  shows "chiInt64Unboxed d" "chiInt64Unboxed (- d)" "sint d = int (unat d)" "sint (- d) = - int (unat d)"
proof -
  have "unat d div 2 ^ 62 = 0" using assms by (metis unat_0 unat_drop_bit)
  then have d: "unat d < 2 ^ 62" by (simp add: div_eq_0_iff)
  then have "int (unat d) < int (2 ^ 62)" by (simp only: of_nat_less_iff)
  then have u: "uint d < 2 ^ 62" by simp
  show 1: "sint d = int (unat d)" using u by (simp add: sint_uint_if)
  show 2: "sint (- d) = - int (unat d)"
  proof (cases "d = 0")
    case False
    then have "uint d \<noteq> 0" by (simp add: uint_0_iff)
    then have "0 < uint d" using uint_ge_0 [of d] by linarith
    then have "uint (- d) = 2 ^ 64 - uint d"
      using u by (simp add: uint_word_ariths zmod_zminus1_eq_if)
    then show ?thesis using u \<open>0 < uint d\<close> by (simp add: sint_uint_if)
  qed simp
  have "0 \<le> uint d" by (rule uint_ge_0)
  then have "- (2 ^ 62) \<le> uint d \<and> uint d < 2 ^ 62" "- (2 ^ 62) \<le> - uint d \<and> - uint d < 2 ^ 62"
    using u by linarith+
  then show "chiInt64Unboxed d" "chiInt64Unboxed (- d)"
    unfolding int64Unboxed_range 1 2 by (simp_all only: int_nat_eq uint_nat)
qed

lemma chiSuccess_unboxed: "chiUnboxed63 c \<Longrightarrow> chiSuccess c"
  using refType_iff [of CHI_FAIL c] unboxed63_not_ref [of c] by (simp add: chiSuccess_def chili_types)

text \<open>Boxing a canonical number and reading the box back.\<close>

lemma try_from_z_boxed:
  assumes nf: "heap_alloc nf" and ok: "z_ok r" and fits: "z_fits (Z_ALLOC nf) r"
    and big: "zsize r \<noteq> 0" "\<not> (zsize r = 1 \<and> drop_bit 62 (zd r ! 0) = 0)"
    and m': "chi_try_from_z fail m r = (c, m')"
  shows "chiSuccess c \<and> big_ok m' c \<and> big_val m' c = z_val r \<and>
    (\<forall>p. (\<forall>n d. nf n \<noteq> Some (p, d)) \<longrightarrow>
       bdigs m' p = bdigs m p \<and> bsize m' (p - CHI_WORDSIZE) = bsize m (p - CHI_WORDSIZE))"
proof -
  let ?t = "if zneg r then CHI_BIGINT_NEG else CHI_BIGINT_POS"
  have err: "\<not> zerr r" using ok by (simp add: z_ok_def)
  have sz: "zsize r \<le> zalloc r" "zalloc r \<noteq> 0" using fits err big(1) by (auto simp: z_fits_def)
  then obtain d where d: "nf (zalloc r) = Some (zp r, d)"
    using fits err by (auto simp: z_fits_def Z_ALLOC_simp split: if_splits)
  then have p: "8 dvd zp r" "CHI_CHUNK_START \<le> zp r" "zp r < CHI_CHUNK_START + CHI_CHUNK_MAX_SIZE"
    using nf by (auto simp: heap_alloc_def)
  then have p8: "CHI_WORDSIZE \<le> zp r" by (simp add: CHI_CHUNK_START_def CHI_WORDSIZE_def)
  have w: "wrap_ok (zp r) s ?t g" if "0 < s" "s \<le> 63" "g \<le> 7" for s g
    using p that by (auto simp: wrap_ok_def chili_types)
  have main: "chiSuccess c \<and> big_ok m' c \<and> big_val m' c = z_val r"
    if c: "c = chiWrap (zp r) s ?t g" and s: "0 < s" "s \<le> 63" "g \<le> 7"
      and size: "chiSize (bsize m') c = zsize r" and dig: "bdigs m' (zp r) = zd r" for s g
  proof -
    note W = w [OF s]
    have T: "chiType c = ?t" "chiPtrField c = zp r" using c wrap_type [OF W] wrap_ptr [OF W] by simp_all
    have b: "boxed_z m' c = r\<lparr>zalloc := zsize r\<rparr>"
      using T size dig err by (simp add: boxed_z_def Let_def chili_types)
    have "z_ok (r\<lparr>zalloc := zsize r\<rparr>) \<and> z_val (r\<lparr>zalloc := zsize r\<rparr>) = z_val r"
      using ok by (simp add: z_ok_def z_val_def z_nat_def used_def)
    moreover have "chiRef c" "\<not> chiUnboxed63 c" using c wrap_ref [OF W] by simp_all
    moreover have "chiSuccess c" using refType_iff [of CHI_FAIL c] T(1) by (simp add: chiSuccess_def chili_types)
    ultimately show ?thesis using b T(1) by (auto simp: big_ok_def big_val_def)
  qed
  show ?thesis
  proof (cases "zalloc r \<le> CHI_MAX_UNPINNED")
    case True
    then have c: "c = chiWrap (zp r) (zsize r) ?t CHI_GEN_NURSERY" "m' = m\<lparr>bdigs := (bdigs m)(zp r := zd r)\<rparr>"
      using m' err big by (auto simp: chi_try_from_z_def Let_def)
    have s: "0 < zsize r" "zsize r \<le> 63" "CHI_GEN_NURSERY \<le> 7"
      using sz big(1) True by (simp_all add: CHI_MAX_UNPINNED_def CHI_GEN_NURSERY_def)
    have "chiSize (bsize m') c = zsize r"
      using c(1) wrap_size [OF w [OF s]] True sz by (simp add: chiSize_def Let_def CHI_MAX_UNPINNED_def)
    then show ?thesis using main [OF c(1) s] c(2) d by auto
  next
    case False
    let ?s = "min (zsize r) 63"
    have c: "c = chiWrap (zp r) ?s ?t CHI_GEN_MAJOR"
      and m2: "m' = m\<lparr>bdigs := (bdigs m)(zp r := zd r),
        bsize := (bsize m)(chiObjectUnchecked c := (if zsize r < zalloc r then zsize r else zalloc r))\<rparr>"
      using m' err big False by (auto simp: chi_try_from_z_def chiWrapLarge_def Let_def)
    have s: "0 < ?s" "?s \<le> 63" "CHI_GEN_MAJOR \<le> 7" using big(1) by simp_all
    have obj: "chiObjectUnchecked c = zp r - CHI_WORDSIZE"
      using wrap_ptr [OF w [OF s]] c by (simp add: chiObjectUnchecked_def)
    have "chiSizeField c = ?s" using wrap_size [OF w [OF s]] c by simp
    then have "chiSize (bsize m') c = zsize r"
      using sz m2 by (auto simp: chiSize_def Let_def)
    moreover have "p \<noteq> zp r \<Longrightarrow> p - CHI_WORDSIZE \<noteq> zp r - CHI_WORDSIZE" for p
      using p(2) by (auto simp: CHI_CHUNK_START_def CHI_WORDSIZE_def)
    ultimately show ?thesis using main [OF c s] m2 d obj by auto
  qed
qed

lemma try_from_z_result:
  assumes nf: "heap_alloc (al i)" and r: "z_result (al_limit N (Z_ALLOC (al i))) r v" and fits: "z_fits (Z_ALLOC (al i)) r"
  shows "big_outcome al (\<exists>n. 0 < n \<and> n \<le> N \<and> Z_ALLOC (al i) n = None) fail m (chi_try_from_z fail m r) v"
proof (cases "zerr r")
  case True
  then show ?thesis using z_limit_result [OF r] by (simp add: big_outcome_def chi_try_from_z_def)
next
  case False
  then have ok: "z_ok r" "z_val r = v" using r by (auto simp: z_result_def)
  consider "zsize r = 0" | "zsize r = 1" "drop_bit 62 (zd r ! 0) = 0" | "zsize r \<noteq> 0" "\<not> (zsize r = 1 \<and> drop_bit 62 (zd r ! 0) = 0)"
    by blast
  then show ?thesis
  proof cases
    case 1
    then have "v = 0" using ok by (auto simp: z_ok_def z_val_def z_nat_def used_def)
    moreover have "chiUnboxed63 0" "chiInt64Unpack 0 = 0"
      by (simp_all add: unboxed63_less) (intro bit_eqI, simp add: bit_unpack)
    ultimately show ?thesis
      using 1 False chiSuccess_unboxed [of 0] by (auto simp: big_outcome_def chi_try_from_z_def CHI_FALSE_def big_ok_def big_val_def)
  next
    case 2
    have v: "v = (if zneg r then - int (unat (zd r ! 0)) else int (unat (zd r ! 0)))"
    proof -
      have "zsize r \<le> length (zd r)" using ok(1) by (simp add: z_ok_def)
      then have "take 1 (zd r) = [zd r ! 0]" using 2(1) by (cases "zd r") auto
      then have "z_nat r = unat (zd r ! 0)" using 2(1) by (simp add: z_nat_def used_def)
      then show ?thesis using ok(2) by (auto simp: z_val_def)
    qed    show ?thesis
      using 2 False v pack_small [OF 2(2)] chiSuccess_unboxed unpack_pack
      by (auto simp: big_outcome_def chi_try_from_z_def big_ok_def big_val_def)
  next
    case 3
    obtain c m' where c: "chi_try_from_z fail m r = (c, m')" by fastforce
    show ?thesis using try_from_z_boxed [OF nf ok(1) fits 3 c] ok(2) c by (auto simp: big_outcome_def)
  qed
qed

section \<open>Slow paths are exact\<close>

lemma slow_binop_result:
  assumes al: "heap_allocs al" and a: "big_ok m a" and b: "big_ok m b"
  defines "N \<equiv> big_size m a + big_size m b + 2"
  assumes exact: "\<And>za zb. za = chi_to_z (Z_ALLOC (al 0)) m a \<Longrightarrow> zb = chi_to_z (Z_ALLOC (al 1)) m b \<Longrightarrow>
        z_ok za \<Longrightarrow> z_ok zb \<Longrightarrow> z_val za = big_val m a \<Longrightarrow> z_val zb = big_val m b \<Longrightarrow> z_result (al_limit N (Z_ALLOC (al 2))) (op (al_limit N (Z_ALLOC (al 2))) za zb) v"
    and local: "z_local op"
    and bad: "\<And>za zb. z_bad za \<or> z_bad zb \<Longrightarrow> zerr (op (Z_ALLOC (al 2)) za zb)"
    and fits: "\<And>za zb. z_fits (Z_ALLOC (al 2)) (op (Z_ALLOC (al 2)) za zb)"
  shows "big_outcome al (request_fails al N) fail m (slow_binop op al fail m a b) v"
proof -
  let ?za = "chi_to_z (Z_ALLOC (al 0)) m a" and ?zb = "chi_to_z (Z_ALLOC (al 1)) m b"
  note A = chi_to_z_result [OF allocs_at [OF al, of 0] a] and B = chi_to_z_result [OF allocs_at [OF al, of 1] b]
  show ?thesis
  proof (cases "z_bad ?za \<or> z_bad ?zb")
    case True
    then have "Z_ALLOC (al 0) 1 = None \<or> Z_ALLOC (al 1) 1 = None" using A B by (auto simp: z_ok_def z_bad_def)
    moreover have "1 \<le> N" by (simp add: N_def)
    ultimately have "request_fails al N" unfolding request_fails_def by (metis zero_le zero_less_one one_le_numeral)
    then show ?thesis using bad [OF True] by (auto simp: slow_binop_def chi_try_from_z_def big_outcome_def)
  next
    case False
    then have ok: "z_ok ?za" "z_ok ?zb" "z_val ?za = big_val m a" "z_val ?zb = big_val m b" using A B by blast+
    have "zsize ?za + zsize ?zb + 2 \<le> N" using chi_to_z_size [of _ m a] chi_to_z_size [of _ m b] by (simp add: N_def add_mono)
    then have "op (al_limit N (Z_ALLOC (al 2))) ?za ?zb = op (Z_ALLOC (al 2)) ?za ?zb"
      using local al_limit_agree unfolding z_local_def by blast
    then have "z_result (al_limit N (Z_ALLOC (al 2))) (op (Z_ALLOC (al 2)) ?za ?zb) v" using exact [OF refl refl ok] by simp
    from try_from_z_result [of al 2, OF allocs_at [OF al] this fits] show ?thesis
      unfolding slow_binop_def by (rule outcome_mono) (auto simp: request_fails_def)
  qed
qed

lemma slow_unop_result:
  assumes al: "heap_allocs al" and a: "big_ok m a" "\<not> chiUnboxed63 a"
  defines "N \<equiv> big_size m a + 2"
  assumes exact: "\<And>za. z_ok za \<Longrightarrow> z_val za = big_val m a \<Longrightarrow> zsize za = big_size m a \<Longrightarrow>
      z_result (al_limit N (Z_ALLOC (al 1))) (op (Z_ALLOC (al 1)) za) v"
    and fits: "\<And>za. z_fits (Z_ALLOC (al 1)) (op (Z_ALLOC (al 1)) za)"
  shows "big_outcome al (request_fails al N) fail m (slow_unop op al fail m a) v"
proof -
  have z: "z_ok (chi_to_z (Z_ALLOC (al 0)) m a)" "z_val (chi_to_z (Z_ALLOC (al 0)) m a) = big_val m a"
    "zsize (chi_to_z (Z_ALLOC (al 0)) m a) = big_size m a"
    using a by (auto simp: big_ok_def big_val_def chi_to_z_boxed big_size_def boxed_z_def Let_def)
  from try_from_z_result [of al 1, OF allocs_at [OF al] exact [OF z] fits] show ?thesis
    unfolding slow_unop_def by (rule outcome_mono) (unfold request_fails_def, rule exI [of _ 1], simp)
qed

text \<open>Allocations made for different operands do not overlap each other nor the operands.\<close>

definition al_apart :: "(nat \<Rightarrow> z_allocator) \<Rightarrow> u64 \<Rightarrow> u64 \<Rightarrow> bool" where
  "al_apart al x y \<longleftrightarrow>
     (\<forall>n p d n' p' d'. al 0 n = Some (p, d) \<longrightarrow> al 1 n' = Some (p', d') \<longrightarrow> p \<noteq> p') \<and>
     (\<forall>i n p d. al i n = Some (p, d) \<longrightarrow> (\<not> chiUnboxed63 x \<longrightarrow> p \<noteq> chiPtrField x) \<and> (\<not> chiUnboxed63 y \<longrightarrow> p \<noteq> chiPtrField y))"

lemma from_i64_ptr: "\<not> zerr (z_from_i64 (Z_ALLOC nf) i) \<Longrightarrow> \<exists>d. nf 1 = Some (zp (z_from_i64 (Z_ALLOC nf) i), d)"
  by (auto simp: z_from_i64_def z_from_u64_def z_checked_def z_new_def Z_ALLOC_simp split: option.splits if_splits)

lemma operands_alias:
  assumes ap: "al_apart al x y" and za: "za = chi_to_z (Z_ALLOC (al 0)) m x" and zb: "zb = chi_to_z (Z_ALLOC (al 1)) m y"
    and ok: "z_ok za" "z_ok zb"
  shows "al_aliases za zb"
proof -
  have e: "\<not> zerr za" "\<not> zerr zb" using ok by (simp_all add: z_ok_def)
  have bx: "zp (boxed_z m c) = chiPtrField c" "zd (boxed_z m c) = bdigs m (chiPtrField c)" for c
    by (simp_all add: boxed_z_def Let_def)
  consider "chiUnboxed63 x" "chiUnboxed63 y" | "chiUnboxed63 x" "\<not> chiUnboxed63 y"
    | "\<not> chiUnboxed63 x" "chiUnboxed63 y" | "\<not> chiUnboxed63 x" "\<not> chiUnboxed63 y" by blast
  then show ?thesis
  proof cases
    case 1
    then obtain d d' where "al 0 1 = Some (zp za, d)" "al 1 1 = Some (zp zb, d')"
      using from_i64_ptr e za zb by (metis chi_to_z_unboxed)
    then show ?thesis using ap unfolding al_apart_def al_aliases_def by metis
  next
    case 2
    then obtain d where "al 0 1 = Some (zp za, d)" using from_i64_ptr e za by (metis chi_to_z_unboxed)
    moreover have "zp zb = chiPtrField y" using 2 zb bx by (simp add: chi_to_z_boxed)
    ultimately show ?thesis using ap 2 unfolding al_apart_def al_aliases_def by metis
  next
    case 3
    then obtain d where "al 1 1 = Some (zp zb, d)" using from_i64_ptr e zb by (metis chi_to_z_unboxed)
    moreover have "zp za = chiPtrField x" using 3 za bx by (simp add: chi_to_z_boxed)
    ultimately show ?thesis using ap 3 unfolding al_apart_def al_aliases_def by metis
  next
    case 4
    then show ?thesis using za zb bx by (simp add: chi_to_z_boxed al_aliases_def)
  qed
qed

section \<open>Fast paths are exact\<close>

lemma both_unboxed_iff: "both_unboxed x y \<longleftrightarrow> chiUnboxed63 x \<and> chiUnboxed63 y"
  using unboxed63_bit [of "x OR y"] unboxed63_bit [of x] unboxed63_bit [of y]
  by (auto simp: both_unboxed_def chiUnboxed63_def bit_or_iff)

lemma unpack_range: "- (2 ^ 62) \<le> sint (chiInt64Unpack c) \<and> sint (chiInt64Unpack c) < 2 ^ 62"
  using unpack_Unboxed [of c] by (simp only: int64Unboxed_range)

lemma sint_word_of_int: "- (2 ^ 63) \<le> z \<Longrightarrow> z < 2 ^ 63 \<Longrightarrow> sint (word_of_int z :: u64) = z"
  by (simp add: signed_of_int signed_take_bit_int_eq_self)

text \<open>A packed integer is read back if it fits 63 bits.\<close>

lemma packed_result:
  assumes "- (2 ^ 62) \<le> sint z" "sint z < 2 ^ 62"
  shows "big_result al xs fail m (chiInt64Pack z, m) (sint z)"
proof -
  have "chiInt64Unboxed z" using assms by (simp only: int64Unboxed_range)
  then show ?thesis using chiSuccess_unboxed unpack_pack by (auto simp: big_result_def big_outcome_def big_ok_def big_val_def)
qed

text \<open>The slow path, of an operation on two values.\<close>

definition slow_result :: "(nat \<Rightarrow> z_allocator) \<Rightarrow> u64 \<Rightarrow> u64 \<Rightarrow> u64 \<Rightarrow> big_mem \<Rightarrow> u64 \<times> big_mem \<Rightarrow> int \<Rightarrow> bool" where
  "slow_result al x y fail m r v \<longleftrightarrow> big_outcome al (request_fails al (big_size m x + big_size m y + 2)) fail m r v"

lemma slow_big_result: "slow_result al x y fail m r v \<Longrightarrow> \<not> all_unboxed [x, y] v \<Longrightarrow> big_result al [x, y] fail m r v"
  by (rule big_result_slow) (simp_all add: slow_result_def)

lemma all_unboxed_both: "all_unboxed [x, y] v \<longleftrightarrow> both_unboxed x y \<and> - (2 ^ 62) \<le> v \<and> v < 2 ^ 62"
  by (simp add: all_unboxed_def both_unboxed_iff)

lemma ovf_binop_result:
  assumes x: "big_ok m x" "big_ok m y" and f: "f (big_val m x) (big_val m y) = v"
    and slow: "slow_result al x y fail m (slow_binop op al fail m x y) v"
  shows "big_result al [x, y] fail m (CHI_BIGINT_OVF_BINOP f op al fail m x y) v"
proof -
  obtain z ovf where z: "i64_overflow f (chiInt64Unpack x) (chiInt64Unpack y) = (z, ovf)" by fastforce
  show ?thesis
  proof (cases "both_unboxed x y \<and> \<not> ovf \<and> chiInt64Unboxed z")
    case True
    then have "sint z = v" using z f sint_word_of_int [of v]
      by (auto simp: i64_overflow_def Let_def both_unboxed_iff big_val_def)
    moreover have "- (2 ^ 62) \<le> sint z \<and> sint z < 2 ^ 62" using True by (simp only: int64Unboxed_range)
    ultimately show ?thesis using True z packed_result [of z] by (auto simp: CHI_BIGINT_OVF_BINOP_def)
  next
    case False
    have "\<not> all_unboxed [x, y] v"
    proof
      assume u: "all_unboxed [x, y] v"
      then have b: "both_unboxed x y" and v: "- (2 ^ 62) \<le> v" "v < 2 ^ 62" by (simp_all only: all_unboxed_both)
      have "z = word_of_int v" "ovf \<longleftrightarrow> v < - (2 ^ 63) \<or> 2 ^ 63 \<le> v"
        using z f b by (auto simp: i64_overflow_def Let_def both_unboxed_iff big_val_def)
      moreover have p: "(2 :: int) ^ 63 = 2 * 2 ^ 62" "0 < (2 :: int) ^ 62" by simp_all
      ultimately have "\<not> ovf" "sint z = v" using v sint_word_of_int [of v] by (linarith, simp)
      then have "chiInt64Unboxed z" using v by (simp only: int64Unboxed_range)
      then show False using False b \<open>\<not> ovf\<close> by blast
    qed
    then show ?thesis using slow_big_result [OF slow] False z by (auto simp: CHI_BIGINT_OVF_BINOP_def)
  qed
qed

lemma bitwise_unboxed:
  assumes "chiInt64Unboxed a" "chiInt64Unboxed b"
  shows "chiInt64Unboxed (a AND b)" "chiInt64Unboxed (a OR b)" "chiInt64Unboxed (a XOR b)" "chiInt64Unboxed (NOT a)"
  using assms by (simp_all add: int64Unboxed_bits bit_and_iff bit_or_iff bit_xor_iff bit_not_iff)

lemma binop_result:
  assumes f: "\<And>a b. chiInt64Unboxed a \<Longrightarrow> chiInt64Unboxed b \<Longrightarrow> chiInt64Unboxed (f a b) \<and> sint (f a b) = g (sint a) (sint b)"
    and v: "g (big_val m x) (big_val m y) = v" and slow: "slow_result al x y fail m (slow_binop op al fail m x y) v"
  shows "big_result al [x, y] fail m (CHI_BIGINT_TRY_BINOP f op al fail m x y) v"
proof (cases "both_unboxed x y")
  case True
  let ?z = "f (chiInt64Unpack x) (chiInt64Unpack y)"
  have z: "chiInt64Unboxed ?z" "sint ?z = v"
    using f [of "chiInt64Unpack x" "chiInt64Unpack y"] True v by (simp_all add: both_unboxed_iff big_val_def)
  have "- (2 ^ 62) \<le> sint ?z \<and> sint ?z < 2 ^ 62" using z(1) by (simp only: int64Unboxed_range)
  then show ?thesis using True packed_result [of ?z] z(2) by (simp add: CHI_BIGINT_TRY_BINOP_def)
qed (use slow_big_result [OF slow] in \<open>simp add: CHI_BIGINT_TRY_BINOP_def all_unboxed_both\<close>)

text \<open>C division on values of 63 bits does not overflow, and its correction gives the floored quotient.\<close>

lemma sdiv_range:
  assumes "- (2 ^ 62) \<le> a" "a < 2 ^ 62" "b \<noteq> (0 :: int)"
  shows "\<bar>a sdiv b\<bar> \<le> 2 ^ 62" "a sdiv b = 2 ^ 62 \<Longrightarrow> a = - (2 ^ 62) \<and> b = - 1"
proof -
  have le: "\<bar>a\<bar> div \<bar>b\<bar> \<le> \<bar>a\<bar>" 
  proof -
    have "\<bar>a\<bar> div \<bar>b\<bar> \<le> \<bar>a\<bar> div 1" using assms(3) by (intro zdiv_mono2) auto
    then show ?thesis by simp
  qed
  have nn: "0 \<le> \<bar>a\<bar> div \<bar>b\<bar>" using assms(3) by (simp add: pos_imp_zdiv_nonneg_iff)
  then have up: "\<bar>a sdiv b\<bar> \<le> \<bar>a\<bar> div \<bar>b\<bar>" by (simp add: signed_divide_int_def abs_mult sgn_if)
  show "\<bar>a sdiv b\<bar> \<le> 2 ^ 62" using assms(1,2) le up by linarith
  assume q: "a sdiv b = 2 ^ 62"
  then have d: "2 ^ 62 \<le> \<bar>a\<bar> div \<bar>b\<bar>" using up by simp
  then have a: "a = - (2 ^ 62)" using le assms(1,2) by linarith
  have "\<bar>b\<bar> = 1"
  proof (rule ccontr)
    assume "\<bar>b\<bar> \<noteq> 1"
    then have "2 \<le> \<bar>b\<bar>" using assms(3) by linarith
    then have "\<bar>a\<bar> div \<bar>b\<bar> \<le> \<bar>a\<bar> div 2" by (intro zdiv_mono2) auto
    then show False using d a by simp
  qed
  then show "a = - (2 ^ 62) \<and> b = - 1" using a q by (auto simp: abs_if split: if_splits)
qed

lemma smod_range:
  assumes "- (2 ^ 62) \<le> b" "b < 2 ^ 62" "b \<noteq> (0 :: int)"
  shows "\<bar>a smod b\<bar> < \<bar>b\<bar>"
  using assms by (auto simp: signed_modulo_int_def abs_mult sgn_if)

lemma smod_dvd: "a smod b = 0 \<longleftrightarrow> b dvd (a :: int)"
proof -
  have "\<bar>a\<bar> mod \<bar>b\<bar> = 0 \<longleftrightarrow> b dvd a" by (simp add: mod_eq_0_iff_dvd)
  then show ?thesis by (cases "a = 0") (auto simp: signed_modulo_int_def sgn_if)
qed

lemma smod_sign:
  assumes b: "b \<noteq> (0 :: int)"
  shows "(a smod b = 0 \<or> (a smod b < 0) = (b < 0)) \<longleftrightarrow> \<not> (b \<noteq> 0 \<and> sgn a \<noteq> sgn b \<and> \<not> b dvd a)"
proof -
  have "0 \<le> \<bar>a\<bar> mod \<bar>b\<bar>" using b by simp
  then have "a smod b \<noteq> 0 \<Longrightarrow> (a smod b < 0) = (a < 0) \<and> a \<noteq> 0"
    by (auto simp: signed_modulo_int_def sgn_if mult_less_0_iff)
  then show ?thesis using b smod_dvd [of a b] by (cases "b dvd a") (auto simp: sgn_if)
qed

lemma sint_less_0: "(x <s 0) = (sint x < 0)" for x :: u64
  by (simp add: word_sless_alt)

lemma i64_division:
  assumes a: "- (2 ^ 62) \<le> sint a" "sint a < 2 ^ 62" and b: "- (2 ^ 62) \<le> sint b" "sint b < 2 ^ 62" "sint b \<noteq> 0"
  shows "sint (i64_quo a b) = sint a sdiv sint b" "sint (i64_rem a b) = sint a smod sint b"
    "sint (CHI_DIV a b) = sint a div sint b" "sint (CHI_MOD a b) = sint a mod sint b" "sint (CHI_REM a b) = sint a smod sint b"
proof -
  have sd: "- (2 ^ 62) \<le> sint a sdiv sint b" "sint a sdiv sint b \<le> 2 ^ 62"
    using sdiv_range(1) [OF a b(3)] by (simp_all only: abs_le_iff) simp_all
  have p: "(2 :: int) ^ 63 = 2 * 2 ^ 62" "0 < (2 :: int) ^ 62" by simp_all
  have m: "\<bar>sint a smod sint b\<bar> < 2 ^ 62 + 1" using smod_range [OF b, of "sint a"] b by linarith
  show Q: "sint (i64_quo a b) = sint a sdiv sint b"
    unfolding i64_quo_def by (rule sint_word_of_int) (use sd p in linarith)+
  show R: "sint (i64_rem a b) = sint a smod sint b"
    unfolding i64_rem_def by (rule sint_word_of_int) (use m p in linarith)+
  have R0: "i64_rem a b = 0 \<longleftrightarrow> sint a smod sint b = 0" unfolding R [symmetric] by (metis signed_0 signed_word_eqI)
  have test: "(i64_rem a b = 0 \<or> (i64_rem a b <s 0) = (b <s 0)) \<longleftrightarrow>
      \<not> (sint b \<noteq> 0 \<and> sgn (sint a) \<noteq> sgn (sint b) \<and> \<not> sint b dvd sint a)"
    unfolding R0 sint_less_0 R by (rule smod_sign [OF b(3)])
  have min: "a \<noteq> push_bit 63 1" using a(1) by (auto simp: sint_uint_if)
  show "sint (CHI_REM a b) = sint a smod sint b" using R min by (simp add: CHI_REM_def)
  have sub: "sint (i64_quo a b - 1) = sint (i64_quo a b) - 1"
  proof -
    have "sint (word_of_int (sint (i64_quo a b) - 1) :: u64) = sint (i64_quo a b) - 1"
      by (rule sint_word_of_int) (use Q sd p in linarith)+
    then show ?thesis by (simp add: wi_hom_syms)
  qed
  show "sint (CHI_DIV a b) = sint a div sint b"
    unfolding CHI_DIV_def Let_def test divide_int_eq_signed_divide_int [of "sint a"] using sub Q by simp
  have add: "sint (i64_rem a b + b) = sint (i64_rem a b) + sint b"
  proof -
    have "sint (word_of_int (sint (i64_rem a b) + sint b) :: u64) = sint (i64_rem a b) + sint b"
      by (rule sint_word_of_int) (use R m b p in linarith)+
    then show ?thesis by (simp add: wi_hom_syms)
  qed
  show "sint (CHI_MOD a b) = sint a mod sint b"
    unfolding CHI_MOD_def Let_def test modulo_int_eq_signed_modulo_int [of "sint a"] using add R min b(3) by simp
qed

lemma binfn_result:
  assumes f: "\<And>a b. chiInt64Unboxed a \<Longrightarrow> chiInt64Unboxed b \<Longrightarrow> sint b \<noteq> 0 \<Longrightarrow> sint (f a b) = g (sint a) (sint b)"
    and y: "big_val m y \<noteq> 0" and v: "g (big_val m x) (big_val m y) = v"
    and range: "both_unboxed x y \<Longrightarrow> - (2 ^ 62) \<le> v \<and> v < 2 ^ 62"
    and slow: "slow_result al x y fail m (slow_binop op al fail m x y) v"
  shows "big_result al [x, y] fail m (CHI_BIGINT_TRY_BINFN f op al fail m x y) v"
proof (cases "both_unboxed x y")
  case True
  let ?z = "f (chiInt64Unpack x) (chiInt64Unpack y)"
  have "sint ?z = v"
    using f [of "chiInt64Unpack x" "chiInt64Unpack y"] True v y by (simp add: both_unboxed_iff big_val_def)
  then show ?thesis using True packed_result [of ?z] range by (simp add: CHI_BIGINT_TRY_BINFN_def)
qed (use slow_big_result [OF slow] in \<open>simp add: CHI_BIGINT_TRY_BINFN_def all_unboxed_both\<close>)

section \<open>The operations are exact\<close>

lemma sint_bits: "sint (a AND b) = sint a AND sint b" "sint (a OR b) = sint a OR sint b"
  "sint (a XOR b) = sint a XOR sint b" "sint (NOT a) = NOT (sint a)" for a b :: u64
  by (simp_all add: signed_and_eq signed_or_eq signed_xor_eq) (rule bit_eqI, auto simp: bit_simps min_def)

lemma try_not_result:
  assumes al: "heap_allocs al" and x: "big_ok m x"
  shows "big_result al [x] fail m (chiBigIntTryNot al fail m x) (NOT (big_val m x))"
proof (cases "chiUnboxed63 x")
  case True
  let ?z = "NOT (chiInt64Unpack x)"
  have u: "chiInt64Unboxed ?z" using bitwise_unboxed(4) unpack_Unboxed by blast
  then have "- (2 ^ 62) \<le> sint ?z \<and> sint ?z < 2 ^ 62" by (simp only: int64Unboxed_range)
  then show ?thesis
    using True u packed_result [of ?z] by (simp add: chiBigIntTryNot_def CHI_BIGINT_TRY_UNOP_def big_val_def sint_bits)
next
  case False
  let ?N = "big_size m x + 2" and ?al = "Z_ALLOC (al 1)"
  have "z_result (al_limit ?N ?al) (z_not ?al za) (NOT (big_val m x))"
    if z: "z_ok za" "z_val za = big_val m x" "zsize za = big_size m x" for za
  proof -
    have "z_not (al_limit ?N ?al) za = z_not ?al za"
      by (rule z_bitwise_agree(4) [OF al_limit_agree, of za za]) (simp add: z)
    then show ?thesis
      using z_not_result [OF al_limit_sound [OF Z_ALLOC_sound [OF allocs_at [OF al]]] z(1), of ?N 1] z(2) by simp
  qed
  then have "big_outcome al (request_fails al ?N) fail m (slow_unop z_not al fail m x) (NOT (big_val m x))"
    by (intro slow_unop_result [OF al x False] z_fits_bitwise(4))
  then have "big_result al [x] fail m (slow_unop z_not al fail m x) (NOT (big_val m x))"
    using False by (intro big_result_slow) (simp_all add: all_unboxed_def)
  then show ?thesis
    using False by (simp add: chiBigIntTryNot_def CHI_BIGINT_TRY_UNOP_def chiSlowBigIntTryNot_def)
qed

lemma slow_binop_exact:
  assumes al: "heap_allocs al" and x: "big_ok m x" "big_ok m y"
    and local: "z_local op"
    and exact: "\<And>l za zb. al_sound l \<Longrightarrow> z_ok za \<Longrightarrow> z_ok zb \<Longrightarrow> z_result l (op l za zb) (g (z_val za) (z_val zb))"
    and bad: "\<And>za zb. z_bad za \<or> z_bad zb \<Longrightarrow> zerr (op (Z_ALLOC (al 2)) za zb)"
    and fits: "\<And>za zb. z_fits (Z_ALLOC (al 2)) (op (Z_ALLOC (al 2)) za zb)"
  shows "slow_result al x y fail m (slow_binop op al fail m x y) (g (big_val m x) (big_val m y))"
  unfolding slow_result_def
proof (rule slow_binop_result [OF al x _ local])
  let ?al = "al_limit (big_size m x + big_size m y + 2) (Z_ALLOC (al 2))"
  have S: "al_sound ?al" by (rule al_limit_sound [OF Z_ALLOC_sound [OF allocs_at [OF al]]])
  show "z_result ?al (op ?al za zb) (g (big_val m x) (big_val m y))"
    if "z_ok za" "z_ok zb" "z_val za = big_val m x" "z_val zb = big_val m y" for za zb
    using exact [OF S that(1,2)] that(3,4) by simp
qed (use bad fits in blast)+

lemma ring_ops:
  assumes al: "heap_allocs al" and x: "big_ok m x" and y: "big_ok m y" and ap: "al_apart al x y"
  shows "big_result al [x, y] fail m (chiBigIntTryAdd al fail m x y) (big_val m x + big_val m y)"
    and "big_result al [x, y] fail m (chiBigIntTrySub al fail m x y) (big_val m x - big_val m y)"
    and "big_result al [x, y] fail m (chiBigIntTryMul al fail m x y) (big_val m x * big_val m y)"
proof -
  note slow = slow_binop_exact [OF al x y]
  have bad: "z_bad za \<or> z_bad zb \<Longrightarrow> zerr (z_addsub l za zb n1 n2)" for za zb l n1 n2
    by (simp add: z_addsub_bad)
  show "big_result al [x, y] fail m (chiBigIntTryAdd al fail m x y) (big_val m x + big_val m y)"
    unfolding chiBigIntTryAdd_def
    by (rule ovf_binop_result [OF x y refl], rule slow [where op = z_add and g = "(+)"], rule z_local_ops, rule z_add_result, assumption+)
      (simp_all only: z_add_def bad z_fits_addsub)
  show "big_result al [x, y] fail m (chiBigIntTrySub al fail m x y) (big_val m x - big_val m y)"
    unfolding chiBigIntTrySub_def
    by (rule ovf_binop_result [OF x y refl], rule slow [where op = z_sub and g = "(-)"], rule z_local_ops, rule z_sub_result, assumption+)
      (simp_all only: z_sub_def bad z_fits_addsub)
  show "big_result al [x, y] fail m (chiBigIntTryMul al fail m x y) (big_val m x * big_val m y)"
    unfolding chiBigIntTryMul_def
  proof (rule ovf_binop_result [OF x y refl], unfold slow_result_def, rule slow_binop_result [OF al x y])
    let ?al = "al_limit (big_size m x + big_size m y + 2) (Z_ALLOC (al 2))"
    have S: "al_sound ?al" by (rule al_limit_sound [OF Z_ALLOC_sound [OF allocs_at [OF al]]])
    fix za zb
    assume z: "za = chi_to_z (Z_ALLOC (al 0)) m x" "zb = chi_to_z (Z_ALLOC (al 1)) m y" "z_ok za" "z_ok zb"
      "z_val za = big_val m x" "z_val zb = big_val m y"
    show "z_result ?al (z_mul ?al za zb) (big_val m x * big_val m y)"
      using z_mul_result [OF S z(3,4) operands_alias [OF ap z(1-4)]] z(5,6) by simp
  qed (rule z_local_ops z_mul_bad z_fits_mul, assumption?)+
qed

lemma bitwise_ops:
  assumes al: "heap_allocs al" and x: "big_ok m x" and y: "big_ok m y"
  shows "big_result al [x, y] fail m (chiBigIntTryAnd al fail m x y) (big_val m x AND big_val m y)"
    and "big_result al [x, y] fail m (chiBigIntTryOr al fail m x y) (big_val m x OR big_val m y)"
    and "big_result al [x, y] fail m (chiBigIntTryXor al fail m x y) (big_val m x XOR big_val m y)"
proof -
  note slow = slow_binop_exact [OF al x y]
  have bad: "z_bad za \<or> z_bad zb \<Longrightarrow> zerr za \<or> zerr zb" for za zb by (auto simp: z_bad_def)
  show "big_result al [x, y] fail m (chiBigIntTryAnd al fail m x y) (big_val m x AND big_val m y)"
    unfolding chiBigIntTryAnd_def
    by (rule binop_result [OF _ refl], simp add: bitwise_unboxed sint_bits, rule slow [where op = z_and and g = "(AND)"])
      (rule z_and_result z_local_ops z_bitwise_bad z_fits_bitwise bad | assumption)+
  show "big_result al [x, y] fail m (chiBigIntTryOr al fail m x y) (big_val m x OR big_val m y)"
    unfolding chiBigIntTryOr_def
    by (rule binop_result [OF _ refl], simp add: bitwise_unboxed sint_bits, rule slow [where op = z_or and g = "(OR)"])
      (rule z_or_result z_local_ops z_bitwise_bad z_fits_bitwise bad | assumption)+
  show "big_result al [x, y] fail m (chiBigIntTryXor al fail m x y) (big_val m x XOR big_val m y)"
    unfolding chiBigIntTryXor_def
    by (rule binop_result [OF _ refl], simp add: bitwise_unboxed sint_bits, rule slow [where op = z_xor and g = "(XOR)"])
      (rule z_xor_result z_local_ops z_bitwise_bad z_fits_bitwise bad | assumption)+
qed

text \<open>C25: Addition, subtraction, multiplication, conjunction, disjunction, exclusive disjunction and
  complement of the language integers are exact: the fast path on unboxed operands, its fallback and the slow
  path return an integer of the exact value and write only fresh objects. On unboxed operands whose value
  fits an unboxed integer nothing is allocated and the result is unboxed; otherwise the failure object is
  returned, with the memory unchanged, only if an allocation of at most two digits more than the operands
  have failed.\<close>

theorem bigint_ops_exact:
  assumes "heap_allocs al" "big_ok m x" "big_ok m y" "al_apart al x y"
  shows "big_result al [x, y] fail m (chiBigIntTryAdd al fail m x y) (big_val m x + big_val m y) \<and>
    big_result al [x, y] fail m (chiBigIntTrySub al fail m x y) (big_val m x - big_val m y) \<and>
    big_result al [x, y] fail m (chiBigIntTryMul al fail m x y) (big_val m x * big_val m y) \<and>
    big_result al [x, y] fail m (chiBigIntTryAnd al fail m x y) (big_val m x AND big_val m y) \<and>
    big_result al [x, y] fail m (chiBigIntTryOr al fail m x y) (big_val m x OR big_val m y) \<and>
    big_result al [x, y] fail m (chiBigIntTryXor al fail m x y) (big_val m x XOR big_val m y) \<and>
    big_result al [x] fail m (chiBigIntTryNot al fail m x) (NOT (big_val m x))"
  using assms by (intro conjI ring_ops bitwise_ops try_not_result)

text \<open>Division: all four operations, on a divisor that is not zero. The quotient of the smallest unboxed
  integer by minus one does not fit 63 bits.\<close>

definition div_overflows :: "u64 \<Rightarrow> u64 \<Rightarrow> big_mem \<Rightarrow> bool" where
  "div_overflows x y m \<longleftrightarrow> both_unboxed x y \<and> big_val m x = - (2 ^ 62) \<and> big_val m y = - 1"

lemma unboxed_range: "chiUnboxed63 x \<Longrightarrow> - (2 ^ 62) \<le> big_val m x \<and> big_val m x < 2 ^ 62"
  using unpack_range [of x] by (simp add: big_val_def)

lemma div_bounds:
  assumes c: "1 \<le> (c :: int)" and a: "- n \<le> a" "a \<le> n" and n: "0 < n"
  shows "- n \<le> a div c" "a div c \<le> n" "a div c = n \<Longrightarrow> a = n \<and> c = 1"
proof -
  have nc: "n \<le> n * c" using mult_left_mono [of 1 c n] c n by simp
  have "((- n) * c) div c \<le> a div c" by (rule zdiv_mono1) (use nc a c in simp_all)
  then show "- n \<le> a div c" using c nonzero_mult_div_cancel_right [of c "- n"] by linarith
  have "a div c \<le> (n * c) div c" by (rule zdiv_mono1) (use nc a c in linarith)+
  then show "a div c \<le> n" using c by simp
  assume q: "a div c = n"
  have "a = c * n + a mod c" using q div_mult_mod_eq [of a c] by (simp add: mult.commute)
  then have "c * n \<le> n" using a(2) pos_mod_sign [of c a] c by linarith
  then have "c = 1" using mult_le_cancel_right [of c n 1] c n by simp
  then show "a = n \<and> c = 1" using q by simp
qed

lemma div_range:
  assumes a: "- (2 ^ 62) \<le> a" "a < 2 ^ 62" and b: "b \<noteq> (0 :: int)"
  shows "- (2 ^ 62) \<le> a div b" "a div b \<le> 2 ^ 62" "a div b = 2 ^ 62 \<Longrightarrow> a = - (2 ^ 62) \<and> b = - 1"
proof -
  note P = div_bounds [of b "2 ^ 62" a] and N = div_bounds [of "- b" "2 ^ 62" "- a"]
  have "- (2 ^ 62) \<le> a div b \<and> a div b \<le> 2 ^ 62 \<and> (a div b = 2 ^ 62 \<longrightarrow> a = - (2 ^ 62) \<and> b = - 1)"
  proof (cases "0 < b")
    case True
    then show ?thesis using P a by auto
  next
    case False
    then show ?thesis using N a b by auto
  qed
  then show "- (2 ^ 62) \<le> a div b" "a div b \<le> 2 ^ 62" "a div b = 2 ^ 62 \<Longrightarrow> a = - (2 ^ 62) \<and> b = - 1" by blast+
qed

lemma mod_range: "b \<noteq> (0 :: int) \<Longrightarrow> - (2 ^ 62) \<le> b \<Longrightarrow> b < 2 ^ 62 \<Longrightarrow> - (2 ^ 62) \<le> a mod b \<and> a mod b < 2 ^ 62"
  using pos_mod_sign [of b a] pos_mod_bound [of b a] neg_mod_sign [of b a] neg_mod_bound [of b a]
  by (cases "0 < b") linarith+

lemma division_ops:
  assumes al: "heap_allocs al" and x: "big_ok m x" and y: "big_ok m y"
    and nz: "big_val m y \<noteq> 0" and ov: "\<not> div_overflows x y m"
  shows "big_result al [x, y] fail m (chiBigIntTryDiv al fail m x y) (big_val m x div big_val m y)" (is ?D)
    and "big_result al [x, y] fail m (chiBigIntTryMod al fail m x y) (big_val m x mod big_val m y)" (is ?M)
    and "big_result al [x, y] fail m (chiBigIntTryRem al fail m x y) (big_val m x smod big_val m y)" (is ?R)
    and "big_result al [x, y] fail m (chiBigIntTryQuo al fail m x y) (big_val m x sdiv big_val m y)" (is ?Q)
proof -
  let ?al = "al_limit (big_size m x + big_size m y + 2) (Z_ALLOC (al 2))"
  have S: "al_sound ?al" by (rule al_limit_sound [OF Z_ALLOC_sound [OF allocs_at [OF al]]])
  have U: "chiInt64Unboxed a \<Longrightarrow> - (2 ^ 62) \<le> sint a \<and> sint a < 2 ^ 62" for a by (simp only: int64Unboxed_range)
  have xy: "both_unboxed x y \<Longrightarrow> - (2 ^ 62) \<le> big_val m x \<and> big_val m x < 2 ^ 62 \<and> - (2 ^ 62) \<le> big_val m y \<and> big_val m y < 2 ^ 62"
    using unboxed_range by (auto simp: both_unboxed_iff)
  have slow: "slow_result al x y fail m (slow_binop op al fail m x y) (g (big_val m x) (big_val m y))"
    if ex: "\<And>za zb. z_ok za \<Longrightarrow> z_ok zb \<Longrightarrow> z_val zb \<noteq> 0 \<Longrightarrow> z_result ?al (op ?al za zb) (g (z_val za) (z_val zb))"
      and local: "z_local op"
      and bad: "\<And>za zb. z_bad za \<or> z_bad zb \<Longrightarrow> zerr (op (Z_ALLOC (al 2)) za zb)"
      and fits: "\<And>za zb. z_fits (Z_ALLOC (al 2)) (op (Z_ALLOC (al 2)) za zb)" for op g
    unfolding slow_result_def
  proof (rule slow_binop_result [OF al x y])
    show "z_result ?al (op ?al za zb) (g (big_val m x) (big_val m y))"
      if z: "z_ok za" "z_ok zb" "z_val za = big_val m x" "z_val zb = big_val m y" for za zb
      using ex [OF z(1,2)] z(3,4) nz by simp
  qed (rule local bad fits, assumption?)+
  have fast: "big_result al [x, y] fail m (CHI_BIGINT_TRY_BINFN f op al fail m x y) (g (big_val m x) (big_val m y))"
    if f: "\<And>a b. chiInt64Unboxed a \<Longrightarrow> chiInt64Unboxed b \<Longrightarrow> sint b \<noteq> 0 \<Longrightarrow> sint (f a b) = g (sint a) (sint b)"
      and rg: "both_unboxed x y \<Longrightarrow> - (2 ^ 62) \<le> g (big_val m x) (big_val m y) \<and> g (big_val m x) (big_val m y) < 2 ^ 62"
      and sl: "slow_result al x y fail m (slow_binop op al fail m x y) (g (big_val m x) (big_val m y))" for f op g
    by (rule binfn_result [where g = g and v = "g (big_val m x) (big_val m y)", OF _ nz refl _ sl]) (use f rg in blast)+
  have bd: "z_bad za \<or> z_bad zb \<Longrightarrow> zerr (z_div l za zb) \<and> zerr (z_mod l za zb) \<and> zerr (z_quo l za zb) \<and> zerr (z_rem l za zb)" for za zb l
    by (simp add: z_div_def z_mod_def z_divmod_def z_quo_def z_rem_def z_quorem_bad)
  have ft: "z_fits l (z_div l za zb) \<and> z_fits l (z_mod l za zb) \<and> z_fits l (z_quo l za zb) \<and> z_fits l (z_rem l za zb)" for za zb l
    using z_fits_divmod z_fits_quorem by (simp add: z_div_def z_mod_def z_quo_def z_rem_def)
  have ops: "sint (CHI_DIV a b) = sint a div sint b" "sint (CHI_MOD a b) = sint a mod sint b"
    "sint (CHI_REM a b) = sint a smod sint b" "sint (i64_quo a b) = sint a sdiv sint b"
    if "chiInt64Unboxed a" "chiInt64Unboxed b" "sint b \<noteq> 0" for a b
    using i64_division [of a b] U [OF that(1)] U [OF that(2)] that(3) by simp_all
  show ?D
    unfolding chiBigIntTryDiv_def
  proof (rule fast)
    show "- (2 ^ 62) \<le> big_val m x div big_val m y \<and> big_val m x div big_val m y < 2 ^ 62" if b: "both_unboxed x y"
      using xy [OF b] div_range [of "big_val m x" "big_val m y"] nz ov b unfolding div_overflows_def by linarith
    show "slow_result al x y fail m (slow_binop z_div al fail m x y) (big_val m x div big_val m y)"
      by (rule slow) (use z_divmod_result [OF S] z_local_ops bd ft in blast)+
  qed (rule ops; assumption)
  show ?M
    unfolding chiBigIntTryMod_def
  proof (rule fast)
    show "- (2 ^ 62) \<le> big_val m x mod big_val m y \<and> big_val m x mod big_val m y < 2 ^ 62" if b: "both_unboxed x y"
      using xy [OF b] mod_range nz by blast
    show "slow_result al x y fail m (slow_binop z_mod al fail m x y) (big_val m x mod big_val m y)"
      by (rule slow) (use z_divmod_result [OF S] z_local_ops bd ft in blast)+
  qed (rule ops; assumption)
  show ?R
    unfolding chiBigIntTryRem_def
  proof (rule fast)
    show "- (2 ^ 62) \<le> big_val m x smod big_val m y \<and> big_val m x smod big_val m y < 2 ^ 62" if b: "both_unboxed x y"
      using xy [OF b] smod_range [of "big_val m y" "big_val m x"] nz by linarith
    show "slow_result al x y fail m (slow_binop z_rem al fail m x y) (big_val m x smod big_val m y)"
      by (rule slow) (use z_rem_result [OF S] z_local_ops bd ft in blast)+
  qed (rule ops; assumption)
  have "CHI_BIGINT_TRY_BINOP = CHI_BIGINT_TRY_BINFN"
    by (intro ext) (simp add: CHI_BIGINT_TRY_BINOP_def CHI_BIGINT_TRY_BINFN_def)
  then show ?Q
    unfolding chiBigIntTryQuo_def
  proof (simp only:, intro fast)
    show "- (2 ^ 62) \<le> big_val m x sdiv big_val m y \<and> big_val m x sdiv big_val m y < 2 ^ 62" if b: "both_unboxed x y"
      using xy [OF b] sdiv_range [of "big_val m x" "big_val m y"] nz ov b unfolding div_overflows_def by linarith
    show "slow_result al x y fail m (slow_binop z_quo al fail m x y) (big_val m x sdiv big_val m y)"
      by (rule slow) (use z_quo_result [OF S] z_local_ops bd ft in blast)+
  qed (rule ops; assumption)
qed

text \<open>C26: Floored and truncated division of language integers are exact for every non-zero divisor, apart
  from the one quotient of unboxed operands that does not fit an unboxed integer. Division of unboxed operands
  never fails; otherwise the failure object is returned only if an allocation of at most two digits more
  than the operands have failed.\<close>

theorem bigint_division_exact:
  assumes "heap_allocs al" "big_ok m x" "big_ok m y" "big_val m y \<noteq> 0" "\<not> div_overflows x y m"
  shows "big_result al [x, y] fail m (chiBigIntTryDiv al fail m x y) (big_val m x div big_val m y) \<and>
    big_result al [x, y] fail m (chiBigIntTryMod al fail m x y) (big_val m x mod big_val m y) \<and>
    big_result al [x, y] fail m (chiBigIntTryQuo al fail m x y) (big_val m x sdiv big_val m y) \<and>
    big_result al [x, y] fail m (chiBigIntTryRem al fail m x y) (big_val m x smod big_val m y)"
  using assms by (intro conjI division_ops)

section \<open>Comparison and conversion\<close>

lemma cmp_words: "CHI_CMP a b = (if sint a < sint b then - 1 else if sint a = sint b then 0 else 1)"
  by (auto simp: CHI_CMP_def word_sless_alt)

lemma bigint_cmp:
  assumes al: "heap_allocs al" and x: "big_ok m x" and y: "big_ok m y"
    and ok: "Z_ALLOC (al 0) 1 \<noteq> None" "Z_ALLOC (al 1) 1 \<noteq> None"
  shows "chiBigIntCmp al m x y =
    (if big_val m x < big_val m y then - 1 else if big_val m x = big_val m y then 0 else 1)"
proof (cases "both_unboxed x y")
  case True
  then show ?thesis by (simp add: chiBigIntCmp_def cmp_words both_unboxed_iff big_val_def)
next
  case False
  have z: "z_ok (chi_to_z (Z_ALLOC (al i)) m c) \<and> z_val (chi_to_z (Z_ALLOC (al i)) m c) = big_val m c"
    if c: "big_ok m c" and i: "Z_ALLOC (al i) 1 \<noteq> None" for c i
  proof (cases "chiUnboxed63 c")
    case True
    have "\<not> zerr (z_from_i64 (Z_ALLOC (al i)) j)" for j
      using i by (auto simp: z_from_i64_def z_from_u64_def z_checked_def z_new_def z_err_def split: option.splits)
    then show ?thesis
      using chi_to_z_result [OF allocs_at [OF al] c] True by (metis chi_to_z_unboxed z_bad_def)
  next
    case False
    then show ?thesis using c by (auto simp: big_ok_def big_val_def chi_to_z_boxed)
  qed
  show ?thesis
    using z [OF x ok(1)] z [OF y ok(2)] z_cmp_result False by (simp add: chiBigIntCmp_def chiSlowBigIntCmp_def)
qed

text \<open>The comparisons of language integers, boxed or unboxed, are those of their values.\<close>

theorem bigint_comparison:
  assumes "heap_allocs al" "big_ok m x" "big_ok m y" "Z_ALLOC (al 0) 1 \<noteq> None" "Z_ALLOC (al 1) 1 \<noteq> None"
  shows "(chiBigIntEq al m x y \<longleftrightarrow> big_val m x = big_val m y) \<and> (chiBigIntNe al m x y \<longleftrightarrow> big_val m x \<noteq> big_val m y) \<and>
    (chiBigIntLt al m x y \<longleftrightarrow> big_val m x < big_val m y) \<and> (chiBigIntLe al m x y \<longleftrightarrow> big_val m x \<le> big_val m y)"
  using bigint_cmp [OF assms]
  by (auto simp: chiBigIntEq_def chiBigIntNe_def chiBigIntLt_def chiBigIntLe_def)

lemma from_z_result:
  assumes r: "big_outcome al F fail m (chi_try_from_z fail m z) v" and f: "\<not> chiSuccess fail"
  shows "case chi_from_z fail m z of None \<Rightarrow> F | Some (c, m') \<Rightarrow> big_ok m' c \<and> big_val m' c = v"
  using r unfolding big_outcome_def
proof
  assume "chi_try_from_z fail m z = (fail, m) \<and> F"
  then show ?thesis using f by (simp add: chi_from_z_def)
qed (auto simp: chi_from_z_def)

lemma to_u64_value:
  assumes c: "big_ok m c"
  shows "chiBigIntToUInt64 al m c = word_of_int (big_val m c)"
proof (cases "chiUnboxed63 c")
  case True
  then show ?thesis by (simp add: chiBigIntToUInt64_def big_val_def)
next
  case False
  then have "z_ok (boxed_z m c)" using c by (simp add: big_ok_def)
  then show ?thesis
    using False by (simp add: chiBigIntToUInt64_def chiSlowBigIntToUInt64_def chi_to_z_boxed big_val_def z_to_u64_low)
qed

lemma int64_to_bigint:
  assumes al: "heap_allocs al" and f: "\<not> chiSuccess fail"
  shows "case chiInt64ToBigInt al fail m i of None \<Rightarrow> \<not> chiInt64Unboxed i \<and> Z_ALLOC (al 0) 1 = None
    | Some (c, m') \<Rightarrow> big_ok m' c \<and> big_val m' c = sint i"
proof (cases "chiInt64Unboxed i")
  case True
  then show ?thesis using unpack_pack by (simp add: chiInt64ToBigInt_def big_ok_def big_val_def)
next
  case False
  let ?al = "Z_ALLOC (al 0)"
  have "z_from_i64 (al_limit 1 ?al) i = z_from_i64 ?al i"
    unfolding z_from_i64_def z_from_u64_def by (simp add: z_new_agree [OF al_limit_agree])
  then have "z_result (al_limit 1 ?al) (z_from_i64 ?al i) (sint i)"
    using z_from_i64_result [OF al_limit_sound [OF Z_ALLOC_sound [OF allocs_at [OF al]]], of 1 0 i] by simp
  from from_z_result [OF try_from_z_result [where i = 0 and al = al, OF allocs_at [OF al] this z_fits_from_i64] f, of m]
  have "case chiSlowInt64ToBigInt al fail m i of None \<Rightarrow> \<exists>n. 0 < n \<and> n \<le> 1 \<and> ?al n = None
    | Some (c, m') \<Rightarrow> big_ok m' c \<and> big_val m' c = sint i"
    by (simp only: chiSlowInt64ToBigInt_def)
  moreover have "(\<exists>n. 0 < n \<and> n \<le> 1 \<and> ?al n = None) \<longleftrightarrow> ?al 1 = None" by (auto simp: le_Suc_eq)
  ultimately show ?thesis using False by (auto simp: chiInt64ToBigInt_def split: option.splits)
qed

text \<open>A signed 64-bit integer converted to a language integer and back is unchanged, boxed or not; the
  conversion aborts only when the integer does not fit 63 bits and the allocation of one digit fails.\<close>

theorem bigint_int64_roundtrip:
  assumes "heap_allocs al" "\<not> chiSuccess fail"
  shows "case chiInt64ToBigInt al fail m i of None \<Rightarrow> \<not> chiInt64Unboxed i \<and> Z_ALLOC (al 0) 1 = None
    | Some (c, m') \<Rightarrow> big_val m' c = sint i \<and> chiBigIntToUInt64 al m' c = i"
proof (cases "chiInt64ToBigInt al fail m i")
  case None
  then show ?thesis using int64_to_bigint [OF assms, where i = i and m = m] by simp
next
  case (Some r)
  obtain c m' where "r = (c, m')" by fastforce
  then show ?thesis
    using Some int64_to_bigint [OF assms, where i = i and m = m] to_u64_value [of m' c al] by simp
qed

text \<open>Where the fast paths leave 63 bits: the shift tests its result against 64 bits only, the division
  does not test, and the negation hands an unboxed value to the code for boxed ones.\<close>

lemma min_unboxed:
  "chiInt64Unpack (chiInt64Pack 1) = 1" "chiInt64Unpack (chiInt64Pack (- 1)) = - 1"
  "chiInt64Unpack (chiInt64Pack (- (2 ^ 62))) = - (2 ^ 62)" "chiInt64Unpack (chiInt64Pack (2 ^ 62)) = - (2 ^ 62)"
  "signed_drop_bit 62 (2 ^ 62 :: u64) = 1" "CHI_DIV (- (2 ^ 62)) (- 1) = 2 ^ 62"
  "chiUnboxed63 (chiInt64Pack 1)" "chiUnboxed63 (chiInt64Pack (- (2 ^ 62)))" "both_unboxed (chiInt64Pack (- (2 ^ 62))) (chiInt64Pack (- 1))"
  "\<not> chiInt64Unboxed (2 ^ 62)"
  by code_simp+

lemma shl_fast_path_wraps:
  "chiBigIntTryShl al fail m (chiInt64Pack 1) 62 = (chiInt64Pack (2 ^ 62), m)" "big_val m (chiInt64Pack (2 ^ 62)) = - (2 ^ 62)"
proof -
  have "push_bit (unat (62 :: u16)) (1 :: u64) = 2 ^ 62" by code_simp
  then show "chiBigIntTryShl al fail m (chiInt64Pack 1) 62 = (chiInt64Pack (2 ^ 62), m)"
    using min_unboxed(1,5,7) by (simp add: chiBigIntTryShl_def)
  have "chiUnboxed63 (chiInt64Pack (2 ^ 62))" "sint (- (2 ^ 62) :: u64) = - (2 ^ 62)" by code_simp+
  then show "big_val m (chiInt64Pack (2 ^ 62)) = - (2 ^ 62)" unfolding big_val_def min_unboxed by (simp only: if_True)
qed

lemma div_fast_path_wraps:
  "chiBigIntTryDiv al fail m (chiInt64Pack (- (2 ^ 62))) (chiInt64Pack (- 1)) = (chiInt64Pack (2 ^ 62), m)"
  unfolding chiBigIntTryDiv_def CHI_BIGINT_TRY_BINFN_def min_unboxed if_True by (simp only: min_unboxed if_True)

lemma neg_fast_path_unboxed:
  "chiBigIntTryNeg al fail m (chiInt64Pack (- (2 ^ 62))) = chiSlowBigIntTryNeg al fail m (chiInt64Pack (- (2 ^ 62)))"
  unfolding chiBigIntTryNeg_def CHI_BIGINT_TRY_UNOP_def Let_def min_unboxed minus_minus by (simp only: min_unboxed simp_thms if_False)

section \<open>Witnesses\<close>

definition arena_alloc :: "nat \<Rightarrow> z_allocator" where
  "arena_alloc i n = Some (CHI_CHUNK_START + 8 * min i 15, replicate n 0)"

definition empty_mem :: big_mem where
  "empty_mem = \<lparr> bdigs = (\<lambda>_. []), bsize = (\<lambda>_. 0) \<rparr>"

definition runtime_fail :: u64 where
  "runtime_fail = chiWrap (CHI_CHUNK_START + 4096) 1 CHI_FAIL CHI_GEN_MAJOR"

lemma arena_allocs: "heap_allocs arena_alloc"
  by (auto simp: heap_allocs_def heap_alloc_def arena_alloc_def CHI_CHUNK_START_def CHI_CHUNK_MAX_SIZE_def min_def)

lemma arena_apart: "chiUnboxed63 x \<Longrightarrow> chiUnboxed63 y \<Longrightarrow> al_apart arena_alloc x y"
  by (simp add: al_apart_def arena_alloc_def)

lemma arena_succeeds: "Z_ALLOC (arena_alloc i) 1 \<noteq> None"
  by (simp add: Z_ALLOC_simp arena_alloc_def CHI_BIGINT_LIMIT_def)

theorem bigint_ops_exact_witness:
  "big_result arena_alloc [chiInt64Pack (2 ^ 61), chiInt64Pack 3] runtime_fail empty_mem
     (chiBigIntTryMul arena_alloc runtime_fail empty_mem (chiInt64Pack (2 ^ 61)) (chiInt64Pack 3))
     (big_val empty_mem (chiInt64Pack (2 ^ 61)) * big_val empty_mem (chiInt64Pack 3))"
proof -
  have "chiUnboxed63 (chiInt64Pack (2 ^ 61))" "chiUnboxed63 (chiInt64Pack 3)" by code_simp+
  then show ?thesis
    using bigint_ops_exact [OF arena_allocs _ _ arena_apart, of empty_mem "chiInt64Pack (2 ^ 61)" "chiInt64Pack 3" runtime_fail]
    by (simp only: big_ok_def simp_thms)
qed

theorem bigint_division_exact_witness:
  "big_result arena_alloc [chiInt64Pack (- 7), chiInt64Pack 2] runtime_fail empty_mem
     (chiBigIntTryDiv arena_alloc runtime_fail empty_mem (chiInt64Pack (- 7)) (chiInt64Pack 2))
     (big_val empty_mem (chiInt64Pack (- 7)) div big_val empty_mem (chiInt64Pack 2))"
proof -
  have u: "chiUnboxed63 (chiInt64Pack (- 7))" "chiUnboxed63 (chiInt64Pack 2)" "sint (chiInt64Unpack (chiInt64Pack 2)) = 2" by code_simp+
  then have "big_val empty_mem (chiInt64Pack 2) = 2" by (simp add: big_val_def)
  then show ?thesis
    using bigint_division_exact [OF arena_allocs, of empty_mem "chiInt64Pack (- 7)" "chiInt64Pack 2" runtime_fail] u
    by (simp add: big_ok_def div_overflows_def)
qed

theorem bigint_comparison_witness:
  "chiBigIntLt arena_alloc empty_mem (chiInt64Pack (- 7)) (chiInt64Pack 2) \<longleftrightarrow>
     big_val empty_mem (chiInt64Pack (- 7)) < big_val empty_mem (chiInt64Pack 2)"
proof -
  have u: "chiUnboxed63 (chiInt64Pack (- 7))" "chiUnboxed63 (chiInt64Pack 2)" by code_simp+
  then show ?thesis
    using bigint_comparison [OF arena_allocs _ _ arena_succeeds arena_succeeds, of empty_mem "chiInt64Pack (- 7)" "chiInt64Pack 2"]
    by (simp add: big_ok_def)
qed

theorem bigint_int64_roundtrip_witness:
  "case chiInt64ToBigInt arena_alloc runtime_fail empty_mem (2 ^ 63) of
     None \<Rightarrow> \<not> chiInt64Unboxed (2 ^ 63) \<and> Z_ALLOC (arena_alloc 0) 1 = None
   | Some (c, m') \<Rightarrow> big_val m' c = sint (2 ^ 63 :: u64) \<and> chiBigIntToUInt64 arena_alloc m' c = 2 ^ 63"
proof -
  have "wrap_ok (CHI_CHUNK_START + 4096) 1 CHI_FAIL CHI_GEN_MAJOR"
    by (simp add: wrap_ok_def chili_types CHI_CHUNK_START_def CHI_CHUNK_MAX_SIZE_def CHI_GEN_MAJOR_def)
  then have "\<not> chiSuccess runtime_fail"
    using wrap_type wrap_ref refType_iff [of CHI_FAIL] by (simp add: chiSuccess_def runtime_fail_def chili_types)
  then show ?thesis by (rule bigint_int64_roundtrip [OF arena_allocs])
qed

end
