(* ===== verification/Sort.thy ===== *)
theory Sort
  imports Prelude "HOL-Library.Multiset"
begin

text \<open>
  The sorting template (\<^verbatim>\<open>src/native/generic/sort.h\<close>): \<open>lt\<close> is the comparison \<^verbatim>\<open>S_LESS\<close> of the instance, an
  array is a list. The two scans of the partition have no bound of their own; a read outside the array is
  None, and so is a sort that does not end.
\<close>

primrec insert_loop :: "('a \<Rightarrow> 'a \<Rightarrow> bool) \<Rightarrow> 'a \<Rightarrow> 'a list \<Rightarrow> nat \<Rightarrow> 'a list" where
  "insert_loop lt t a 0 = a[0 := t]"
| "insert_loop lt t a (Suc j) = (if lt t (a ! j) then insert_loop lt t (a[Suc j := a ! j]) j else a[Suc j := t])"

definition S_INSERT_SORT :: "('a \<Rightarrow> 'a \<Rightarrow> bool) \<Rightarrow> 'a list \<Rightarrow> 'a list" where
  "S_INSERT_SORT lt a = fold (\<lambda>i a. insert_loop lt (a ! i) a i) [1..<length a] a"

function sorted_loop :: "('a \<Rightarrow> 'a \<Rightarrow> bool) \<Rightarrow> 'a list \<Rightarrow> nat \<Rightarrow> bool" where
  "sorted_loop lt a i =
     (if length a > 1 \<and> i < length a - 1
      then if lt (a ! (i + 1)) (a ! i) then False else sorted_loop lt a (i + 1)
      else True)"
  by pat_completeness auto
termination by (relation "measure (\<lambda>(lt, a, i). length a - i)") auto

declare sorted_loop.simps [simp del]

definition S_SORTED :: "('a \<Rightarrow> 'a \<Rightarrow> bool) \<Rightarrow> 'a list \<Rightarrow> bool" where
  "S_SORTED lt a = sorted_loop lt a 0"

text \<open>\<^verbatim>\<open>do { ++p; } while (less(p, a))\<close> from the element after \<open>p\<close>, and its mirror image.\<close>

function scan_up :: "('a \<Rightarrow> 'a \<Rightarrow> bool) \<Rightarrow> 'a list \<Rightarrow> nat \<Rightarrow> nat option" where
  "scan_up lt a i =
     (if i < length a then if lt (a ! i) (a ! 0) then scan_up lt a (i + 1) else Some i else None)"
  by pat_completeness auto
termination by (relation "measure (\<lambda>(lt, a, i). length a - i)") auto

declare scan_up.simps [simp del]

primrec scan_down :: "('a \<Rightarrow> 'a \<Rightarrow> bool) \<Rightarrow> 'a list \<Rightarrow> nat \<Rightarrow> nat option" where
  "scan_down lt a 0 = None"
| "scan_down lt a (Suc k) = (if lt (a ! 0) (a ! k) then scan_down lt a k else Some k)"

lemma scan_down_less: "scan_down lt a k = Some q \<Longrightarrow> q < k"
  by (induction k) (auto split: if_splits)

function partition_loop :: "('a \<Rightarrow> 'a \<Rightarrow> bool) \<Rightarrow> 'a list \<Rightarrow> nat \<Rightarrow> nat \<Rightarrow> (nat \<times> 'a list) option" where
  "partition_loop lt a i k =
     (case scan_up lt a i of None \<Rightarrow> None
      | Some p \<Rightarrow>
        (case scan_down lt a k of None \<Rightarrow> None
         | Some q \<Rightarrow>
           if p \<ge> q then Some (q, a)
           else partition_loop lt (a[p := a ! q, q := a ! p]) (p + 1) q))"
  by pat_completeness auto
termination by (relation "measure (\<lambda>(lt, a, i, k). k)") (auto dest: scan_down_less)

declare partition_loop.simps [simp del]

definition S_PARTITION :: "('a \<Rightarrow> 'a \<Rightarrow> bool) \<Rightarrow> 'a list \<Rightarrow> (nat \<times> 'a list) option" where
  "S_PARTITION lt a = partition_loop lt a 0 (length a)"

definition CHI_QUICK_SORT_CUTOFF :: nat where
  "CHI_QUICK_SORT_CUTOFF = 16"

text \<open>The recursive calls sort the two parts of the array in place.\<close>

partial_function (option) S_SORT :: "('a \<Rightarrow> 'a \<Rightarrow> bool) \<Rightarrow> 'a list \<Rightarrow> 'a list option" where
  "S_SORT lt a =
     (if S_SORTED lt a then Some a
      else if length a < CHI_QUICK_SORT_CUTOFF then Some (S_INSERT_SORT lt a)
      else
        (case S_PARTITION lt a of None \<Rightarrow> None
         | Some (p, b) \<Rightarrow>
           Option.bind (S_SORT lt (take (p + 1) b)) (\<lambda>l.
             Option.bind (S_SORT lt (drop (p + 1) b)) (\<lambda>r. Some (l @ r)))))"

section \<open>Correctness for every strict weak order\<close>

locale weak_order =
  fixes lt :: "'a \<Rightarrow> 'a \<Rightarrow> bool"
  assumes asym: "lt x y \<Longrightarrow> \<not> lt y x"
    and trans: "\<not> lt x y \<Longrightarrow> \<not> lt y z \<Longrightarrow> \<not> lt x z"
begin

abbreviation ordered :: "'a list \<Rightarrow> bool" where
  "ordered \<equiv> sorted_wrt (\<lambda>x y. \<not> lt y x)"

lemma irrefl: "\<not> lt x x"
  using asym by blast

lemma insert_loop_split:
  "i < length a \<Longrightarrow> \<exists>p q. take i a = p @ q \<and> insert_loop lt t a i = p @ t # q @ drop (Suc i) a \<and>
     (\<forall>y\<in>set q. lt t y) \<and> (p \<noteq> [] \<longrightarrow> \<not> lt t (last p))"
proof (induction i arbitrary: a)
  case 0
  then show ?case by (cases a) auto
next
  case (Suc j)
  show ?case
  proof (cases "lt t (a ! j)")
    case True
    let ?b = "a[Suc j := a ! j]"
    obtain p q where pq: "take j ?b = p @ q" "insert_loop lt t ?b j = p @ t # q @ drop (Suc j) ?b"
      "\<forall>y\<in>set q. lt t y" "p \<noteq> [] \<longrightarrow> \<not> lt t (last p)"
      using Suc.IH [of ?b] Suc.prems by auto
    have "drop (Suc j) ?b = a ! j # drop (Suc (Suc j)) a"
      using Suc.prems by (simp add: Cons_nth_drop_Suc [symmetric] drop_update_cancel)
    moreover have "take (Suc j) a = p @ q @ [a ! j]"
      using pq(1) Suc.prems by (simp add: take_Suc_conv_app_nth)
    ultimately show ?thesis using pq True by (intro exI [of _ p] exI [of _ "q @ [a ! j]"]) auto
  next
    case False
    have "a[Suc j := t] = take (Suc j) a @ t # drop (Suc (Suc j)) a"
      using Suc.prems by (simp add: upd_conv_take_nth_drop)
    moreover have "last (take (Suc j) a) = a ! j" using Suc.prems by (simp add: take_Suc_conv_app_nth)
    ultimately show ?thesis using False by (intro exI [of _ "take (Suc j) a"] exI [of _ "[]"]) auto
  qed
qed

lemma insert_loop_step:
  assumes i: "i < length a" and s: "ordered (take i a)"
  shows "ordered (take (Suc i) (insert_loop lt (a ! i) a i))" "mset (insert_loop lt (a ! i) a i) = mset a"
    "length (insert_loop lt (a ! i) a i) = length a"
proof -
  obtain p q where pq: "take i a = p @ q" "insert_loop lt (a ! i) a i = p @ a ! i # q @ drop (Suc i) a"
    "\<forall>y\<in>set q. lt (a ! i) y" "p \<noteq> [] \<longrightarrow> \<not> lt (a ! i) (last p)"
    using insert_loop_split [OF i] by blast
  have a: "a = p @ q @ a ! i # drop (Suc i) a" using pq(1) i by (metis append.assoc id_take_nth_drop)
  have len: "length p + length q = i" using pq(1) i by (metis length_append length_take min.absorb4)
  show "mset (insert_loop lt (a ! i) a i) = mset a" 
  proof -
    have "mset (p @ a ! i # q @ drop (Suc i) a) = mset (p @ q @ a ! i # drop (Suc i) a)" by simp
    also have "\<dots> = mset a" using arg_cong [OF a [symmetric], of mset] .
    finally show ?thesis unfolding pq(2) .
  qed
  then show "length (insert_loop lt (a ! i) a i) = length a" by (rule mset_eq_length)
  have "\<not> lt (a ! i) x" if x: "x \<in> set p" for x
  proof -
    obtain ys z where p: "p = ys @ [z]" using x by (cases p rule: rev_cases) auto
    have "x = z \<or> \<not> lt z x" using s x unfolding pq(1) p by (auto simp: sorted_wrt_append)
    then show ?thesis using pq(4) trans p by auto
  qed
  then show "ordered (take (Suc i) (insert_loop lt (a ! i) a i))"
    using s pq(3) len asym unfolding pq(1,2) by (auto simp: sorted_wrt_append)
qed

lemma insert_sort_prefix:
  assumes "k \<le> length a" "1 \<le> k"
  shows "ordered (take k (fold (\<lambda>i a. insert_loop lt (a ! i) a i) [1..<k] a)) \<and>
    mset (fold (\<lambda>i a. insert_loop lt (a ! i) a i) [1..<k] a) = mset a"
  using assms
proof (induction k)
  case (Suc k)
  let ?b = "fold (\<lambda>i a. insert_loop lt (a ! i) a i) [1..<k] a"
  show ?case
  proof (cases "k = 0")
    case False
    have b: "ordered (take k ?b)" "mset ?b = mset a" using Suc.IH Suc.prems False by simp_all
    have "length ?b = length a" using b(2) by (rule mset_eq_length)
    then have "k < length ?b" using Suc.prems by linarith
    note step = insert_loop_step [OF this b(1)]
    have "[1..<Suc k] = [1..<k] @ [k]" using False by simp
    then have "fold (\<lambda>i a. insert_loop lt (a ! i) a i) [1..<Suc k] a = insert_loop lt (?b ! k) ?b k"
      by (simp only: fold_append fold.simps o_apply id_apply)
    then show ?thesis using step(1,2) b(2) by (simp only: simp_thms)
  next
    case True
    then have "take 1 a = [a ! 0]" using Suc.prems by (cases a) auto
    then show ?thesis using True by simp
  qed
qed simp

lemma insert_sort_correct: "ordered (S_INSERT_SORT lt a) \<and> mset (S_INSERT_SORT lt a) = mset a"
proof (cases "a = []")
  case False
  then have "length (S_INSERT_SORT lt a) = length a"
    using insert_sort_prefix [of "length a" a] by (metis S_INSERT_SORT_def Suc_leI le_refl length_greater_0_conv mset_eq_length One_nat_def)
  then show ?thesis
    using insert_sort_prefix [of "length a" a] False by (simp add: S_INSERT_SORT_def Suc_leI)
qed (simp add: S_INSERT_SORT_def)

lemma sorted_loop_adjacent:
  "sorted_loop lt a i \<longleftrightarrow> (\<forall>j. i \<le> j \<longrightarrow> Suc j < length a \<longrightarrow> \<not> lt (a ! Suc j) (a ! j))"
proof (induction lt a i rule: sorted_loop.induct)
  case (1 lt a i)
  show ?case
  proof (cases "Suc i < length a")
    case True
    have "(\<forall>j. i \<le> j \<longrightarrow> Suc j < length a \<longrightarrow> \<not> lt (a ! Suc j) (a ! j)) \<longleftrightarrow>
        \<not> lt (a ! Suc i) (a ! i) \<and> (\<forall>j. Suc i \<le> j \<longrightarrow> Suc j < length a \<longrightarrow> \<not> lt (a ! Suc j) (a ! j))"
      using True by (metis Suc_le_eq le_eq_less_or_eq)
    then show ?thesis using 1 True by (subst sorted_loop.simps) auto
  qed (subst sorted_loop.simps; auto)
qed

lemma sorted_iff: "S_SORTED lt a \<longleftrightarrow> ordered a"
proof -
  have "transp (\<lambda>x y. \<not> lt y x)" using trans by (auto intro: transpI)
  then show ?thesis by (simp add: S_SORTED_def sorted_loop_adjacent sorted_wrt_iff_nth_Suc_transp)
qed

text \<open>The scans, given an element that stops them.\<close>

lemma scan_up_stops:
  assumes "i \<le> j" "j < length a" "\<not> lt (a ! j) (a ! 0)"
  shows "\<exists>p. scan_up lt a i = Some p \<and> i \<le> p \<and> p \<le> j \<and> \<not> lt (a ! p) (a ! 0) \<and> (\<forall>k. i \<le> k \<longrightarrow> k < p \<longrightarrow> lt (a ! k) (a ! 0))"
  using assms
proof (induction "j - i" arbitrary: i)
  case 0
  then show ?case by (subst scan_up.simps) auto
next
  case (Suc n)
  show ?case
  proof (cases "lt (a ! i) (a ! 0)")
    case True
    then have "i \<noteq> j" using Suc.prems by auto
    then have j: "n = j - (i + 1)" "i + 1 \<le> j" using Suc.hyps(2) Suc.prems(1) by linarith+
    then obtain p where "scan_up lt a (i + 1) = Some p" "i + 1 \<le> p" "p \<le> j" "\<not> lt (a ! p) (a ! 0)"
      "\<forall>k. i + 1 \<le> k \<longrightarrow> k < p \<longrightarrow> lt (a ! k) (a ! 0)"
      using Suc.hyps(1) [OF j Suc.prems(2,3)] by blast
    then show ?thesis using True Suc.prems by (subst scan_up.simps) (auto, metis Suc_leI le_neq_implies_less)
  next
    case False
    then show ?thesis using Suc.prems by (subst scan_up.simps) auto
  qed
qed

lemma scan_down_stops:
  assumes "j < k" "\<not> lt (a ! 0) (a ! j)"
  shows "\<exists>q. scan_down lt a k = Some q \<and> j \<le> q \<and> q < k \<and> \<not> lt (a ! 0) (a ! q) \<and> (\<forall>i. q < i \<longrightarrow> i < k \<longrightarrow> lt (a ! 0) (a ! i))"
  using assms
proof (induction k)
  case (Suc k)
  show ?case
  proof (cases "lt (a ! 0) (a ! k)")
    case True
    then have "j < k" using Suc.prems by (metis less_Suc_eq)
    then show ?thesis using Suc.IH Suc.prems(2) True by (auto simp: less_Suc_eq)
  next
    case False
    then show ?thesis using Suc.prems by (intro exI [of _ k]) auto
  qed
qed simp

definition parted :: "'a list \<Rightarrow> nat \<Rightarrow> bool" where
  "parted b q \<longleftrightarrow> Suc q < length b \<and> (\<forall>i j. i \<le> q \<longrightarrow> q < j \<longrightarrow> j < length b \<longrightarrow> \<not> lt (b ! j) (b ! i))"

lemma partedI:
  assumes "Suc q < length b" "\<And>i. i \<le> q \<Longrightarrow> \<not> lt x (b ! i)" "\<And>j. q < j \<Longrightarrow> j < length b \<Longrightarrow> \<not> lt (b ! j) x"
  shows "parted b q"
  using assms trans by (fastforce simp: parted_def)

lemma partition_loop_parts:
  assumes "1 \<le> i" "i \<le> k" "k < length a"
    and "\<forall>j < i. \<not> lt (a ! 0) (a ! j)" "\<forall>j. k \<le> j \<longrightarrow> j < length a \<longrightarrow> \<not> lt (a ! j) (a ! 0)"
  shows "\<exists>q b. partition_loop lt a i k = Some (q, b) \<and> mset b = mset a \<and> parted b q"
  using assms
proof (induction k arbitrary: i a rule: less_induct)
  case (less k)
  obtain p where p: "scan_up lt a i = Some p" "i \<le> p" "p \<le> k" "\<not> lt (a ! p) (a ! 0)"
    "\<forall>j. i \<le> j \<longrightarrow> j < p \<longrightarrow> lt (a ! j) (a ! 0)"
    using scan_up_stops [of i k a] less.prems by auto
  obtain q where q: "scan_down lt a k = Some q" "i - 1 \<le> q" "q < k" "\<not> lt (a ! 0) (a ! q)"
    "\<forall>j. q < j \<longrightarrow> j < k \<longrightarrow> lt (a ! 0) (a ! j)"
  proof -
    have "i - 1 < k" "i - 1 < i" using less.prems(1,2) by linarith+
    then show ?thesis using scan_down_stops [of "i - 1" k a] less.prems(4) that by blast
  qed
  have left: "\<not> lt (a ! 0) (a ! j)" if "j < p" for j
    using less.prems(4) p(5) asym that by (metis not_le)
  have right: "\<not> lt (a ! j) (a ! 0)" if "q < j" "j < length a" for j
    using less.prems(5) q(5) asym that by (metis not_le)
  show ?case
  proof (cases "p \<ge> q")
    case True
    have "parted a q"
    proof (rule partedI [of _ _ "a ! 0"])
      show "Suc q < length a" using q(3) less.prems(3) by simp
      show "\<not> lt (a ! 0) (a ! j)" if "j \<le> q" for j
        using that True left [of j] q(4) by (cases "j = q") auto
    qed (rule right)
    then show ?thesis using True p(1) q(1) by (subst partition_loop.simps) auto
  next
    case False
    let ?b = "a[p := a ! q, q := a ! p]"
    have len: "p < length a" "q < length a" using p(3) q(3) less.prems(3) by simp_all
    have p0: "0 < p" using p(2) less.prems(1) by simp
    have b0: "?b ! 0 = a ! 0" using False p0 by simp
    have "\<exists>r c. partition_loop lt ?b (p + 1) q = Some (r, c) \<and> mset c = mset ?b \<and> parted c r"
    proof (rule less.IH)
      show "\<forall>j<p + 1. \<not> lt (?b ! 0) (?b ! j)" using False b0 left q(4) len by (auto simp: nth_list_update less_Suc_eq)
      show "\<forall>j. q \<le> j \<longrightarrow> j < length ?b \<longrightarrow> \<not> lt (?b ! j) (?b ! 0)"
        using False b0 right p(4) len by (auto simp: nth_list_update)
    qed (use False q(3) len in auto)
    moreover have "mset ?b = mset a" using len by (intro mset_swap) auto
    ultimately show ?thesis using False p(1) q(1) by (subst partition_loop.simps) auto
  qed
qed

lemma partition_parts:
  assumes n: "2 \<le> length a"
  shows "\<exists>q b. S_PARTITION lt a = Some (q, b) \<and> mset b = mset a \<and> parted b q"
proof -
  have up: "scan_up lt a 0 = Some 0" using n irrefl by (subst scan_up.simps) auto
  obtain q where q: "scan_down lt a (length a) = Some q" "q < length a" "\<not> lt (a ! 0) (a ! q)"
    "\<forall>j. q < j \<longrightarrow> j < length a \<longrightarrow> lt (a ! 0) (a ! j)"
  proof -
    have "0 < length a" using n by linarith
    then show ?thesis using scan_down_stops [of 0 "length a" a] irrefl that by blast
  qed
  show ?thesis
  proof (cases "q = 0")
    case True
    have "parted a 0" by (rule partedI [of _ _ "a ! 0"]) (use n irrefl q(4) True asym in auto)
    then show ?thesis using True up q(1) by (simp add: S_PARTITION_def partition_loop.simps)
  next
    case False
    let ?b = "a[0 := a ! q, q := a ! 0]"
    have b: "?b ! 0 = a ! q" "?b ! q = a ! 0" "length ?b = length a" 
    proof -
      have "0 < length a" using n by linarith
      then show "?b ! 0 = a ! q" using False nth_list_update_eq [of 0 a "a ! q"] by (simp only: nth_list_update_neq neq0_conv)
      show "?b ! q = a ! 0" using q(2) by simp
    qed simp
    have right: "\<not> lt (?b ! j) (?b ! 0)" if j: "q \<le> j" "j < length ?b" for j
    proof (cases "j = q")
      case True
      then show ?thesis using b q(3) by simp
    next
      case False
      then have "?b ! j = a ! j" "lt (a ! 0) (a ! j)" using j q(4) \<open>q \<noteq> 0\<close> by (auto simp: nth_list_update)
      then show ?thesis using b(1) asym trans [OF _ q(3), of "a ! j"] by simp
    qed
    have "\<exists>r c. partition_loop lt ?b 1 q = Some (r, c) \<and> mset c = mset ?b \<and> parted c r"
      by (rule partition_loop_parts) (use False q(2) irrefl right in auto)
    moreover have "mset ?b = mset a" using q(2) n by (intro mset_swap) auto
    ultimately show ?thesis
      using False up q(1) unfolding S_PARTITION_def by (subst partition_loop.simps) auto
  qed
qed

lemma sort_correct: "\<exists>b. S_SORT lt a = Some b \<and> mset b = mset a \<and> ordered b"
proof (induction "length a" arbitrary: a rule: less_induct)
  case less
  consider "S_SORTED lt a" | "\<not> S_SORTED lt a" "length a < CHI_QUICK_SORT_CUTOFF"
    | "\<not> S_SORTED lt a" "\<not> length a < CHI_QUICK_SORT_CUTOFF" by blast
  then show ?case
  proof cases
    case 3
    then have "2 \<le> length a" by (simp add: CHI_QUICK_SORT_CUTOFF_def)
    then obtain q b where b: "S_PARTITION lt a = Some (q, b)" "mset b = mset a" "parted b q"
      using partition_parts by blast
    have len: "Suc q < length b" "length b = length a" using b(3) mset_eq_length [OF b(2)] by (auto simp: parted_def)
    obtain l where l: "S_SORT lt (take (q + 1) b) = Some l" "mset l = mset (take (q + 1) b)" "ordered l"
      using less [of "take (q + 1) b"] len by fastforce
    obtain r where r: "S_SORT lt (drop (q + 1) b) = Some r" "mset r = mset (drop (q + 1) b)" "ordered r"
      
    proof -
      have "length (drop (q + 1) b) < length a" using len by simp
      then show ?thesis using less that by blast
    qed
    have "\<not> lt y x" if x: "x \<in> set l" and y: "y \<in> set r" for x y
    proof -
      have "x \<in> set (take (q + 1) b)" "y \<in> set (drop (q + 1) b)"
        using x y mset_eq_setD [OF l(2)] mset_eq_setD [OF r(2)] by simp_all
      then obtain i j where "x = b ! i" "i \<le> q" "y = b ! (q + 1 + j)" "q + 1 + j < length b"
        using len by (auto simp: in_set_conv_nth)
      then show ?thesis using b(3) by (simp add: parted_def)
    qed
    then have "ordered (l @ r)" using l(3) r(3) by (simp add: sorted_wrt_append)
    moreover have "mset (l @ r) = mset a"
      using l(2) r(2) b(2) by (metis append_take_drop_id mset_append)
    ultimately show ?thesis using 3 b(1) l(1) r(1) by (subst S_SORT.simps) simp
  qed (use sorted_iff insert_sort_correct in \<open>subst S_SORT.simps; simp\<close>)+
qed

end

section \<open>The instances of the runtime\<close>

text \<open>The profiler sorts its accumulated records by their own count or by their sum, largest first
  (\<^verbatim>\<open>src/native/profiler.c\<close>).\<close>

record AccumRecord =
  acc_name :: string
  acc_self :: u64
  acc_sum :: u64

definition less_BySelf :: "AccumRecord \<Rightarrow> AccumRecord \<Rightarrow> bool" where
  "less_BySelf a b \<longleftrightarrow> (if acc_self b = acc_self a then acc_sum b < acc_sum a else acc_self b < acc_self a)"

definition less_BySum :: "AccumRecord \<Rightarrow> AccumRecord \<Rightarrow> bool" where
  "less_BySum a b \<longleftrightarrow> (if acc_sum b = acc_sum a then acc_self b < acc_self a else acc_sum b < acc_sum a)"

interpretation by_self: weak_order less_BySelf
  by unfold_locales (auto simp: less_BySelf_def split: if_splits)

interpretation by_sum: weak_order less_BySum
  by unfold_locales (auto simp: less_BySum_def split: if_splits)

text \<open>C40: The sorts of the profiler end, read only inside the array, and return a permutation of it in
  which the record with the larger count comes first, ties being decided by the other count.\<close>

theorem profiler_sorts:
  "\<exists>b. S_SORT less_BySelf a = Some b \<and> mset b = mset a \<and>
     sorted_wrt (\<lambda>x y. acc_self y < acc_self x \<or> acc_self y = acc_self x \<and> acc_sum y \<le> acc_sum x) b \<and>
   (\<exists>c. S_SORT less_BySum a = Some c \<and> mset c = mset a \<and>
     sorted_wrt (\<lambda>x y. acc_sum y < acc_sum x \<or> acc_sum y = acc_sum x \<and> acc_self y \<le> acc_self x) c)"
proof -
  have e: "(\<lambda>x y. \<not> less_BySelf y x) = (\<lambda>x y. acc_self y < acc_self x \<or> acc_self y = acc_self x \<and> acc_sum y \<le> acc_sum x)"
    "(\<lambda>x y. \<not> less_BySum y x) = (\<lambda>x y. acc_sum y < acc_sum x \<or> acc_sum y = acc_sum x \<and> acc_self y \<le> acc_self x)"
    by (auto simp: less_BySelf_def less_BySum_def fun_eq_iff not_less intro: le_less_trans less_imp_le)
  show ?thesis using by_self.sort_correct [of a] by_sum.sort_correct [of a] unfolding e by blast
qed

end
