(* ===== verification/Vec.thy ===== *)
theory Vec
  imports Prelude
begin

text \<open>
  The growable array template (\<^verbatim>\<open>src/native/generic/vec.h\<close>). \<open>elem\<close> is the allocated buffer: its length is the
  capacity, and only the first \<open>used\<close> elements are meaningful. \<open>junk\<close> gives what \<^verbatim>\<open>realloc\<close> leaves in the new
  part of a buffer. Sizes are naturals: an allocation of \<open>2 ^ 64\<close> bytes fails before \<^verbatim>\<open>size_t\<close> wraps.
\<close>

record 'a vec =
  used :: nat
  capacity :: nat
  elem :: "'a list"

definition CHI_VEC_GROWTH :: nat where
  "CHI_VEC_GROWTH = 200"

definition vec_realloc :: "(nat \<Rightarrow> 'a) \<Rightarrow> 'a list \<Rightarrow> nat \<Rightarrow> 'a list" where
  "vec_realloc junk xs n = take n xs @ map junk [length xs..<n]"

text \<open>Copying \<open>ys\<close> over the elements from \<open>i\<close> on.\<close>

definition overwrite :: "'a list \<Rightarrow> nat \<Rightarrow> 'a list \<Rightarrow> 'a list" where
  "overwrite xs i ys = take i xs @ ys @ drop (i + length ys) xs"

definition VEC_FREE :: "'a vec \<Rightarrow> 'a vec" where
  "VEC_FREE v = (if elem v \<noteq> [] then \<lparr> used = 0, capacity = 0, elem = [] \<rparr> else v)"

definition next_capacity :: "nat \<Rightarrow> nat" where
  "next_capacity c = (if c \<noteq> 0 then (c * CHI_VEC_GROWTH) div 100 else 1)"

lemma next_capacity_greater: "c < next_capacity c"
  by (simp add: next_capacity_def CHI_VEC_GROWTH_def)

function grow_capacity :: "nat \<Rightarrow> nat \<Rightarrow> nat" where
  "grow_capacity c n = (let c' = next_capacity c in if c' < n then grow_capacity c' n else c')"
  by pat_completeness auto
termination
proof (relation "measure (\<lambda>(c, n). n - c)")
  fix c n x :: nat
  assume "x = next_capacity c" "x < n"
  then show "((x, n), (c, n)) \<in> measure (\<lambda>(c, n). n - c)" using next_capacity_greater [of c] by simp
qed simp

declare grow_capacity.simps [simp del]

definition VEC_GROW :: "(nat \<Rightarrow> 'a) \<Rightarrow> 'a vec \<Rightarrow> nat \<Rightarrow> 'a vec" where
  "VEC_GROW junk v nelems =
     (if capacity v < used v + nelems
      then let c = grow_capacity (capacity v) (used v + nelems)
           in v\<lparr> capacity := c, elem := vec_realloc junk (elem v) c \<rparr>
      else v)"

definition VEC_APPEND_MANY :: "(nat \<Rightarrow> 'a) \<Rightarrow> 'a vec \<Rightarrow> 'a list \<Rightarrow> 'a vec" where
  "VEC_APPEND_MANY junk v elems =
     (let v = (if capacity v < used v + length elems then VEC_GROW junk v (length elems) else v)
      in v\<lparr> elem := overwrite (elem v) (used v) elems, used := used v + length elems \<rparr>)"

definition VEC_INSERT_MANY :: "(nat \<Rightarrow> 'a) \<Rightarrow> 'a vec \<Rightarrow> nat \<Rightarrow> 'a list \<Rightarrow> 'a vec" where
  "VEC_INSERT_MANY junk v i elems =
     (let n = length elems;
          v = (if capacity v < used v + n then VEC_GROW junk v n else v);
          v = (if i \<noteq> used v
               then v\<lparr> elem := overwrite (elem v) (i + n) (take (used v - i) (drop i (elem v))) \<rparr> else v)
      in v\<lparr> elem := overwrite (elem v) i elems, used := used v + n \<rparr>)"

definition VEC_DELETE :: "'a vec \<Rightarrow> nat \<Rightarrow> 'a vec" where
  "VEC_DELETE v i =
     (let u = used v - 1
      in v\<lparr> used := u, elem := overwrite (elem v) i (take (u - i) (drop (i + 1) (elem v))) \<rparr>)"

definition VEC_APPEND :: "(nat \<Rightarrow> 'a) \<Rightarrow> 'a vec \<Rightarrow> 'a \<Rightarrow> 'a vec" where
  "VEC_APPEND junk v e = VEC_APPEND_MANY junk v [e]"

definition VEC_INSERT :: "(nat \<Rightarrow> 'a) \<Rightarrow> 'a vec \<Rightarrow> nat \<Rightarrow> 'a \<Rightarrow> 'a vec" where
  "VEC_INSERT junk v i e = VEC_INSERT_MANY junk v i [e]"

section \<open>Invariant and abstraction\<close>

definition vec_ok :: "'a vec \<Rightarrow> bool" where
  "vec_ok v \<longleftrightarrow> used v \<le> capacity v \<and> length (elem v) = capacity v"

definition vec_list :: "'a vec \<Rightarrow> 'a list" where
  "vec_list v = take (used v) (elem v)"

lemma grow_capacity_enough: "n \<le> grow_capacity c n \<and> c < grow_capacity c n"
proof (induction c n rule: grow_capacity.induct)
  case (1 c n)
  then show ?case
    using next_capacity_greater [of c] by (subst (1 2) grow_capacity.simps) (auto simp: Let_def intro: less_trans)
qed

lemma length_overwrite [simp]: "i + length ys \<le> length xs \<Longrightarrow> length (overwrite xs i ys) = length xs"
  by (simp add: overwrite_def)

lemma take_overwrite [simp]:
  assumes "i + length ys \<le> length xs"
  shows "take (i + length ys) (overwrite xs i ys) = take i xs @ ys" "n \<le> i \<Longrightarrow> take n (overwrite xs i ys) = take n xs"
proof -
  have "length (take i xs @ ys) = i + length ys" using assms by simp
  then have "take (i + length ys) ((take i xs @ ys) @ drop (i + length ys) xs) = take i xs @ ys" by (metis append_eq_conv_conj)
  then show "take (i + length ys) (overwrite xs i ys) = take i xs @ ys" by (simp add: overwrite_def)
  have "i \<le> length xs" using assms by linarith
  then show "n \<le> i \<Longrightarrow> take n (overwrite xs i ys) = take n xs" by (simp add: overwrite_def min_def)
qed

lemma grow_ok:
  assumes "vec_ok v"
  shows "vec_ok (VEC_GROW junk v n) \<and> used (VEC_GROW junk v n) = used v \<and> used v + n \<le> capacity (VEC_GROW junk v n) \<and>
    take (used v) (elem (VEC_GROW junk v n)) = take (used v) (elem v)"
proof (cases "capacity v < used v + n")
  case True
  then show ?thesis
    using assms grow_capacity_enough [of "used v + n" "capacity v"]
    by (auto simp: VEC_GROW_def vec_ok_def vec_realloc_def Let_def min_def)
qed (use assms in \<open>simp add: VEC_GROW_def\<close>)

lemma append_many_ok:
  assumes "vec_ok v"
  shows "vec_ok (VEC_APPEND_MANY junk v xs) \<and> vec_list (VEC_APPEND_MANY junk v xs) = vec_list v @ xs"
proof -
  define w where "w = (if capacity v < used v + length xs then VEC_GROW junk v (length xs) else v)"
  have w: "vec_ok w" "used w = used v" "used v + length xs \<le> capacity w" "take (used v) (elem w) = take (used v) (elem v)"
    using grow_ok [OF assms, of junk "length xs"] assms by (auto simp: w_def)
  then have "used w + length xs \<le> length (elem w)" by (simp add: vec_ok_def)
  then show ?thesis
    unfolding VEC_APPEND_MANY_def Let_def w_def [symmetric] using w by (simp add: vec_ok_def vec_list_def)
qed

lemma insert_many_ok:
  assumes v: "vec_ok v" and i: "i \<le> used v"
  shows "vec_ok (VEC_INSERT_MANY junk v i xs) \<and>
    vec_list (VEC_INSERT_MANY junk v i xs) = take i (vec_list v) @ xs @ drop i (vec_list v)"
proof -
  define w where "w = (if capacity v < used v + length xs then VEC_GROW junk v (length xs) else v)"
  have w: "vec_ok w" "used w = used v" "used v + length xs \<le> capacity w" "take (used v) (elem w) = take (used v) (elem v)"
    using grow_ok [OF v, of junk "length xs"] v by (auto simp: w_def)
  define tl where "tl = take (used v - i) (drop i (elem w))"
  have len: "used v + length xs \<le> length (elem w)" using w by (simp add: vec_ok_def)
  then have ltl: "length tl = used v - i" by (simp add: tl_def)
  have tl: "tl = drop i (vec_list v)" using w(4) [symmetric] i by (simp add: tl_def vec_list_def drop_take)
  define e where "e = (if i \<noteq> used v then overwrite (elem w) (i + length xs) tl else elem w)"
  have e: "length e = length (elem w)" "take i e = take i (vec_list v)"
    "take (used v - i) (drop (i + length xs) e) = drop i (vec_list v)"
  proof -
    show "length e = length (elem w)" using len i ltl by (simp add: e_def)
    have "take i (elem w) = take i (vec_list v)" using w(4) i by (metis min.absorb1 take_take vec_list_def)
    then show "take i e = take i (vec_list v)" using len i ltl by (cases "i = used v") (simp_all add: e_def)
    show "take (used v - i) (drop (i + length xs) e) = drop i (vec_list v)"
    proof (cases "i = used v")
      case False
      then show ?thesis using len i ltl by (simp add: e_def overwrite_def tl)
    qed (simp add: vec_list_def)
  qed
  have r: "VEC_INSERT_MANY junk v i xs = w\<lparr>elem := overwrite e i xs, used := used w + length xs\<rparr>"
    using w(2) by (simp add: VEC_INSERT_MANY_def Let_def w_def [symmetric] e_def tl_def)
  have "take (used v + length xs) (overwrite e i xs) = take i e @ xs @ take (used v - i) (drop (i + length xs) e)"
    using e(1) len i by (simp add: overwrite_def)
  then show ?thesis using r e w len i by (simp add: vec_ok_def vec_list_def)
qed

lemma delete_ok:
  assumes v: "vec_ok v" and i: "i < used v"
  shows "vec_ok (VEC_DELETE v i) \<and> vec_list (VEC_DELETE v i) = take i (vec_list v) @ drop (i + 1) (vec_list v)"
proof -
  let ?t = "take (used v - 1 - i) (drop (i + 1) (elem v))"
  have len: "used v \<le> length (elem v)" using v by (simp add: vec_ok_def)
  have lt: "length ?t = used v - 1 - i" using len i by simp
  have "take (used v - 1) (overwrite (elem v) i ?t) = take i (elem v) @ ?t"
    using take_overwrite(1) [of i ?t "elem v"] len i lt by simp
  moreover have "?t = drop (i + 1) (vec_list v)" using i by (simp add: vec_list_def drop_take)
  moreover have "take i (elem v) = take i (vec_list v)" using i by (simp add: vec_list_def min_def)
  ultimately have "vec_list (VEC_DELETE v i) = take i (vec_list v) @ drop (i + 1) (vec_list v)"
    by (simp add: VEC_DELETE_def Let_def vec_list_def [of "v\<lparr>used := _, elem := _\<rparr>"] del: One_nat_def)
  moreover have "length (overwrite (elem v) i ?t) = length (elem v)" using len i lt by (intro length_overwrite) simp
  moreover have "used v - 1 \<le> capacity v" using v unfolding vec_ok_def by linarith
  ultimately show ?thesis using v i by (simp add: VEC_DELETE_def Let_def vec_ok_def)
qed

lemma grow_vec_ok:
  assumes "vec_ok v"
  shows "vec_ok (VEC_GROW junk v n) \<and> vec_list (VEC_GROW junk v n) = vec_list v \<and> used v + n \<le> capacity (VEC_GROW junk v n)"
  using grow_ok [OF assms, of junk n] by (simp add: vec_list_def)

lemma free_vec_ok:
  assumes "vec_ok v"
  shows "vec_ok (VEC_FREE v) \<and> vec_list (VEC_FREE v) = [] \<and> capacity (VEC_FREE v) = 0 \<and> elem (VEC_FREE v) = []"
  using assms by (auto simp: VEC_FREE_def vec_ok_def vec_list_def)

text \<open>C39: The growable array implements a list: appending, inserting and deleting do it to the list of the
  used elements, growing ends, keeps the elements and makes room for as many more as asked for, freeing gives the
  buffer back and leaves the empty list, and the buffer always has room for what is used.\<close>

theorem vec_refines_list:
  assumes "vec_ok v" "i \<le> used v" "j < used v"
  shows "vec_ok (VEC_APPEND_MANY junk v xs) \<and> vec_list (VEC_APPEND_MANY junk v xs) = vec_list v @ xs \<and>
    vec_ok (VEC_INSERT_MANY junk v i xs) \<and>
    vec_list (VEC_INSERT_MANY junk v i xs) = take i (vec_list v) @ xs @ drop i (vec_list v) \<and>
    vec_ok (VEC_DELETE v j) \<and> vec_list (VEC_DELETE v j) = take j (vec_list v) @ drop (j + 1) (vec_list v) \<and>
    vec_ok (VEC_GROW junk v n) \<and> vec_list (VEC_GROW junk v n) = vec_list v \<and> used v + n \<le> capacity (VEC_GROW junk v n) \<and>
    vec_ok (VEC_FREE v) \<and> vec_list (VEC_FREE v) = [] \<and> capacity (VEC_FREE v) = 0 \<and> elem (VEC_FREE v) = []"
  using append_many_ok [OF assms(1)] insert_many_ok [OF assms(1,2)] delete_ok [OF assms(1,3)] grow_vec_ok [OF assms(1)] free_vec_ok [OF assms(1)]
  by simp

theorem vec_refines_list_witness:
  "vec_list (VEC_INSERT_MANY (\<lambda>_. 0) \<lparr> used = 2, capacity = 2, elem = [1, 2 :: nat] \<rparr> 1 [7, 8, 9]) = [1, 7, 8, 9, 2]"
  using vec_refines_list [of "\<lparr> used = 2, capacity = 2, elem = [1, 2 :: nat] \<rparr>" 1 0 "\<lambda>_. 0" "[7, 8, 9]"]
  by (simp add: vec_ok_def vec_list_def)

end
