(* ===== verification/DList.thy ===== *)
theory DList
  imports Prelude
begin

text \<open>
  The intrusive doubly linked list template (\<^verbatim>\<open>src/native/generic/list.h\<close>). An address stands for a link
  (\<^verbatim>\<open>LIST_LINK\<close>), which is also the element that contains it (\<^verbatim>\<open>CHI_OUTER\<close> is a fixed offset); a list is the
  address of its head link, which closes the circle. The memory holds the two pointers of each link and the
  length of each list (kept only by the instances with \<^verbatim>\<open>LIST_LENGTH\<close>). \<open>None\<close> stands for a null result. Poisoning
  is off in the modelled build.
\<close>

record links =
  nxt :: "nat \<Rightarrow> nat"
  prv :: "nat \<Rightarrow> nat"
  len :: "nat \<Rightarrow> nat"

definition set_next :: "nat \<Rightarrow> nat \<Rightarrow> links \<Rightarrow> links" where
  "set_next a b s = s\<lparr> nxt := (nxt s)(a := b) \<rparr>"

definition set_prev :: "nat \<Rightarrow> nat \<Rightarrow> links \<Rightarrow> links" where
  "set_prev a b s = s\<lparr> prv := (prv s)(a := b) \<rparr>"

definition set_len :: "nat \<Rightarrow> nat \<Rightarrow> links \<Rightarrow> links" where
  "set_len l n s = s\<lparr> len := (len s)(l := n) \<rparr>"

definition LIST_INIT :: "nat \<Rightarrow> links \<Rightarrow> links" where
  "LIST_INIT l s = set_len l 0 (set_next l l (set_prev l l s))"

definition LIST_NULL :: "nat \<Rightarrow> links \<Rightarrow> bool" where
  "LIST_NULL l s \<longleftrightarrow> l = nxt s l"

text \<open>The instances with a length test it instead.\<close>

definition LIST_NULL_LENGTH :: "nat \<Rightarrow> links \<Rightarrow> bool" where
  "LIST_NULL_LENGTH l s \<longleftrightarrow> len s l = 0"

definition LIST_HEAD :: "nat \<Rightarrow> links \<Rightarrow> nat option" where
  "LIST_HEAD l s = (if LIST_NULL l s then None else Some (nxt s l))"

definition LIST_PREV :: "nat \<Rightarrow> nat \<Rightarrow> links \<Rightarrow> nat option" where
  "LIST_PREV l e s = (if prv s e = l then None else Some (prv s e))"

definition LIST_NEXT :: "nat \<Rightarrow> nat \<Rightarrow> links \<Rightarrow> nat option" where
  "LIST_NEXT l e s = (if nxt s e = l then None else Some (nxt s e))"

definition LIST_LINK_AFTER :: "nat \<Rightarrow> nat \<Rightarrow> nat \<Rightarrow> links \<Rightarrow> links" where
  "LIST_LINK_AFTER l a b s =
     (let s1 = set_prev b a s;
          s2 = set_next b (nxt s1 a) s1;
          s3 = set_prev (nxt s2 a) b s2;
          s4 = set_next a b s3
      in set_len l (len s4 l + 1) s4)"

definition LIST_LINK_BEFORE :: "nat \<Rightarrow> nat \<Rightarrow> nat \<Rightarrow> links \<Rightarrow> links" where
  "LIST_LINK_BEFORE l a b s =
     (let s1 = set_next b a s;
          s2 = set_prev b (prv s1 a) s1;
          s3 = set_next (prv s2 a) b s2;
          s4 = set_prev a b s3
      in set_len l (len s4 l + 1) s4)"

definition LIST_INSERT_AFTER where "LIST_INSERT_AFTER l a b = LIST_LINK_AFTER l a b"
definition LIST_INSERT_BEFORE where "LIST_INSERT_BEFORE l a b = LIST_LINK_BEFORE l a b"
definition LIST_PREPEND where "LIST_PREPEND l e = LIST_LINK_AFTER l l e"
definition LIST_APPEND where "LIST_APPEND l e = LIST_LINK_BEFORE l l e"

definition LIST_DELETE :: "nat \<Rightarrow> nat \<Rightarrow> links \<Rightarrow> links" where
  "LIST_DELETE l k s =
     (let s1 = set_prev (nxt s k) (prv s k) s;
          s2 = set_next (prv s1 k) (nxt s1 k) s1
      in set_len l (len s2 l - 1) s2)"

definition LIST_POP :: "nat \<Rightarrow> links \<Rightarrow> nat \<times> links" where
  "LIST_POP l s = (let e = nxt s l in (e, LIST_DELETE l e s))"

definition LIST_JOIN :: "nat \<Rightarrow> nat \<Rightarrow> links \<Rightarrow> links" where
  "LIST_JOIN a b s =
     (if \<not> LIST_NULL b s then
        let s1 = set_prev (nxt s b) (prv s a) s;
            s2 = set_next (prv s1 b) a s1;
            s3 = set_next (prv s2 a) (nxt s2 b) s2;
            s4 = set_prev a (prv s3 b) s3;
            s5 = set_len a (len s4 a + len s4 b) s4
        in LIST_INIT b s5
      else s)"

section \<open>Segments\<close>

text \<open>From \<open>p\<close> over the links \<open>xs\<close> to \<open>q\<close>, in both directions.\<close>

fun seg :: "links \<Rightarrow> nat \<Rightarrow> nat list \<Rightarrow> nat \<Rightarrow> bool" where
  "seg s p [] q \<longleftrightarrow> nxt s p = q \<and> prv s q = p"
| "seg s p (x # xs) q \<longleftrightarrow> nxt s p = x \<and> prv s x = p \<and> seg s x xs q"

definition dlist :: "links \<Rightarrow> nat \<Rightarrow> nat list \<Rightarrow> bool" where
  "dlist s l xs \<longleftrightarrow> seg s l xs l \<and> distinct (l # xs) \<and> len s l = length xs"

lemma seg_append: "seg s p (xs @ y # ys) q \<longleftrightarrow> seg s p xs y \<and> seg s y ys q"
  by (induction xs arbitrary: p) auto

lemma set_simps [simp]:
  "nxt (set_next a b s) = (nxt s)(a := b)" "prv (set_next a b s) = prv s" "len (set_next a b s) = len s"
  "nxt (set_prev a b s) = nxt s" "prv (set_prev a b s) = (prv s)(a := b)" "len (set_prev a b s) = len s"
  "nxt (set_len a n s) = nxt s" "prv (set_len a n s) = prv s" "len (set_len a n s) = (len s)(a := n)"
  by (simp_all add: set_next_def set_prev_def set_len_def)

text \<open>A segment does not see changes elsewhere.\<close>

lemma seg_frame:
  "(\<forall>x \<in> insert p (set xs). nxt t x = nxt s x) \<Longrightarrow> (\<forall>x \<in> insert q (set xs). prv t x = prv s x) \<Longrightarrow>
     seg t p xs q = seg s p xs q"
  by (induction xs arbitrary: p) auto

lemma seg_next: "seg s p xs q \<Longrightarrow> nxt s p = (case xs of [] \<Rightarrow> q | x # _ \<Rightarrow> x)"
  by (cases xs) auto

lemma seg_prev: "seg s p xs q \<Longrightarrow> prv s q = (if xs = [] then p else last xs)"
  by (induction xs arbitrary: p) auto

lemma seg_set_len [simp]: "seg (set_len a n s) p xs q = seg s p xs q"
  by (rule seg_frame) simp_all

text \<open>A circle may be read from any of its links.\<close>

lemma seg_rotate: "seg s x (xs @ y # ys) x \<longleftrightarrow> seg s y (ys @ x # xs) y"
  by (auto simp: seg_append)

lemma link_after_circle:
  assumes s: "seg s a zs a" and d: "distinct (a # zs)" and b: "b \<notin> set (a # zs)"
  shows "seg (LIST_LINK_AFTER l a b s) a (b # zs) a"
proof -
  let ?t = "LIST_LINK_AFTER l a b s"
  have n: "nxt ?t x = (if x = a then b else if x = b then nxt s a else nxt s x)"
    and p: "prv ?t x = (if x = nxt s a then b else if x = b then a else prv s x)" for x
    using b by (auto simp: LIST_LINK_AFTER_def Let_def)
  show ?thesis
  proof (cases zs)
    case Nil
    then show ?thesis using s b by (auto simp: n p)
  next
    case (Cons z zs')
    then have "seg ?t z zs' a = seg s z zs' a" using s d b by (intro seg_frame) (auto simp: n p)
    then show ?thesis using s d b Cons by (auto simp: n p)
  qed
qed

lemma link_before_after:
  assumes "nxt s (prv s a) = a" "b \<noteq> a" "b \<noteq> prv s a"
  shows "LIST_LINK_BEFORE l a b s = LIST_LINK_AFTER l (prv s a) b s"
  using assms
  by (auto simp: LIST_LINK_BEFORE_def LIST_LINK_AFTER_def Let_def set_next_def set_prev_def set_len_def fun_eq_iff)

lemma link_before_circle:
  assumes s: "seg s a zs a" and d: "distinct (a # zs)" and b: "b \<notin> set (a # zs)"
  shows "seg (LIST_LINK_BEFORE l a b s) a (zs @ [b]) a"
proof (cases zs rule: rev_cases)
  case Nil
  then have "LIST_LINK_BEFORE l a b s = LIST_LINK_AFTER l a b s"
    using s b link_before_after [of s a b l] by auto
  then show ?thesis using link_after_circle [OF s d b] Nil by simp
next
  case (snoc zs' z)
  have e: "seg s a (zs' @ [z]) a" using s snoc by simp
  have p: "prv s a = z" "nxt s z = a" using e by (simp_all add: seg_append)
  have "seg s z (a # zs') z" using e seg_rotate [of s a zs' z "[]"] by simp
  then have "seg (LIST_LINK_AFTER l z b s) z (b # a # zs') z"
    by (rule link_after_circle) (use d b snoc in auto)
  then have "seg (LIST_LINK_AFTER l z b s) a (zs' @ z # [b]) a"
    using seg_rotate [of _ a zs' z "[b]"] by simp
  moreover have "LIST_LINK_BEFORE l a b s = LIST_LINK_AFTER l z b s"
    using p b snoc link_before_after [of s a b l] by auto
  ultimately show ?thesis using snoc by simp
qed

lemma delete_circle:
  assumes s: "seg s k (z # zs) k" and d: "distinct (k # z # zs)"
  shows "seg (LIST_DELETE l k s) z zs z"
proof -
  let ?t = "LIST_DELETE l k s"
  let ?p = "if zs = [] then z else last zs"
  have k: "nxt s k = z" "prv s k = ?p" "prv s z = k" using s seg_prev [OF s] by auto
  have m: "?p \<in> set (z # zs)" by simp
  have n: "nxt ?t x = (if x = ?p then z else nxt s x)" and p: "prv ?t x = (if x = z then ?p else prv s x)" for x
    using d k m by (auto simp: LIST_DELETE_def Let_def)
  show ?thesis
  proof (cases zs rule: rev_cases)
    case Nil
    then show ?thesis by (simp add: n p)
  next
    case (snoc ys y)
    have "seg s z ys y" using s snoc by (simp add: seg_append)
    moreover have "seg ?t z ys y = seg s z ys y" using d snoc by (intro seg_frame) (auto simp: n p)
    ultimately show ?thesis using snoc by (simp add: seg_append n p)
  qed
qed

section \<open>The operations on lists\<close>

lemma dlist_init: "dlist (LIST_INIT l s) l []"
  by (simp add: dlist_def LIST_INIT_def)

lemma dlist_null: "dlist s l xs \<Longrightarrow> LIST_NULL l s \<longleftrightarrow> xs = []" "dlist s l xs \<Longrightarrow> LIST_NULL_LENGTH l s \<longleftrightarrow> xs = []"
  by (cases xs; auto simp: dlist_def LIST_NULL_def LIST_NULL_LENGTH_def)+

lemma dlist_head: "dlist s l xs \<Longrightarrow> LIST_HEAD l s = (case xs of [] \<Rightarrow> None | x # _ \<Rightarrow> Some x)"
  by (cases xs; auto simp: dlist_def LIST_HEAD_def LIST_NULL_def)

lemma len_link [simp]:
  "len (LIST_LINK_AFTER l a b s) = (len s)(l := len s l + 1)" "len (LIST_LINK_BEFORE l a b s) = (len s)(l := len s l + 1)"
  "len (LIST_DELETE l k s) = (len s)(l := len s l - 1)"
  by (simp_all add: LIST_LINK_AFTER_def LIST_LINK_BEFORE_def LIST_DELETE_def Let_def)

lemma dlist_next_prev:
  assumes "dlist s l (ps @ e # qs)"
  shows "LIST_NEXT l e s = (case qs of [] \<Rightarrow> None | q # _ \<Rightarrow> Some q)"
    "LIST_PREV l e s = (if ps = [] then None else Some (last ps))"
proof -
  have s: "seg s l ps e" "seg s e qs l" "distinct (l # ps @ e # qs)" using assms by (simp_all add: dlist_def seg_append)
  show "LIST_NEXT l e s = (case qs of [] \<Rightarrow> None | q # _ \<Rightarrow> Some q)"
    using seg_next [OF s(2)] s(3) by (auto simp: LIST_NEXT_def split: list.splits)
  have "ps \<noteq> [] \<Longrightarrow> last ps \<noteq> l" using s(3) by auto
  then show "LIST_PREV l e s = (if ps = [] then None else Some (last ps))"
    using seg_prev [OF s(1)] by (auto simp: LIST_PREV_def)
qed

lemma dlist_prepend:
  assumes "dlist s l xs" "b \<notin> set (l # xs)"
  shows "dlist (LIST_PREPEND l b s) l (b # xs)"
  using assms link_after_circle [of s l xs b l] by (auto simp: dlist_def LIST_PREPEND_def)

lemma dlist_append:
  assumes "dlist s l xs" "b \<notin> set (l # xs)"
  shows "dlist (LIST_APPEND l b s) l (xs @ [b])"
  using assms link_before_circle [of s l xs b l] by (auto simp: dlist_def LIST_APPEND_def)

lemma dlist_insert_after:
  assumes s: "dlist s l (ps @ a # qs)" and b: "b \<notin> set (l # ps @ a # qs)"
  shows "dlist (LIST_INSERT_AFTER l a b s) l (ps @ a # b # qs)"
proof -
  have "seg s a (qs @ l # ps) a" using s by (simp add: dlist_def seg_rotate)
  then have "seg (LIST_LINK_AFTER l a b s) a (b # qs @ l # ps) a"
    by (rule link_after_circle) (use s b in \<open>auto simp: dlist_def\<close>)
  then have "seg (LIST_LINK_AFTER l a b s) l (ps @ a # b # qs) l" using seg_rotate [of _ l ps a "b # qs"] by simp
  then show ?thesis using s b by (simp add: dlist_def LIST_INSERT_AFTER_def)
qed

lemma dlist_insert_before:
  assumes s: "dlist s l (ps @ a # qs)" and b: "b \<notin> set (l # ps @ a # qs)"
  shows "dlist (LIST_INSERT_BEFORE l a b s) l (ps @ b # a # qs)"
proof -
  have "seg s a (qs @ l # ps) a" using s by (simp add: dlist_def seg_rotate)
  then have "seg (LIST_LINK_BEFORE l a b s) a ((qs @ l # ps) @ [b]) a"
    by (rule link_before_circle) (use s b in \<open>auto simp: dlist_def\<close>)
  then have "seg (LIST_LINK_BEFORE l a b s) l ((ps @ [b]) @ a # qs) l"
    using seg_rotate [of _ l "ps @ [b]" a qs] by simp
  then show ?thesis using s b by (simp add: dlist_def LIST_INSERT_BEFORE_def)
qed

lemma dlist_delete:
  assumes s: "dlist s l (ps @ k # qs)"
  shows "dlist (LIST_DELETE l k s) l (ps @ qs)"
proof -
  have c: "seg s k (qs @ l # ps) k" using s by (simp add: dlist_def seg_rotate)
  have "seg (LIST_DELETE l k s) l (ps @ qs) l"
  proof (cases qs)
    case Nil
    then show ?thesis using delete_circle [of s k l ps l] c s by (auto simp: dlist_def)
  next
    case (Cons q qs')
    then have "seg (LIST_DELETE l k s) q (qs' @ l # ps) q"
      using delete_circle [of s k q "qs' @ l # ps" l] c s by (auto simp: dlist_def)
    then show ?thesis using Cons seg_rotate [of _ l ps q qs'] by simp
  qed
  then show ?thesis using s by (simp add: dlist_def)
qed

lemma dlist_pop:
  assumes "dlist s l (x # xs)"
  shows "fst (LIST_POP l s) = x \<and> dlist (snd (LIST_POP l s)) l xs"
proof -
  have "nxt s l = x" using assms by (simp add: dlist_def)
  then show ?thesis using dlist_delete [of s l "[]" x xs] assms by (simp add: LIST_POP_def)
qed

lemma dlist_join:
  assumes a: "dlist s a xs" and b: "dlist s b ys" and d: "set (a # xs) \<inter> set (b # ys) = {}"
  shows "dlist (LIST_JOIN a b s) a (xs @ ys) \<and> dlist (LIST_JOIN a b s) b []"
proof (cases ys)
  case Nil
  then show ?thesis using a b dlist_null(1) [OF b] by (simp add: LIST_JOIN_def)
next
  case (Cons y ys')
  let ?t = "LIST_JOIN a b s"
  let ?la = "if xs = [] then a else last xs" and ?lb = "last (y # ys')"
  have sa: "seg s a xs a" and sb: "nxt s b = y" "prv s y = b" "seg s y ys' b"
    using a b Cons by (simp_all add: dlist_def)
  have pa: "prv s a = ?la" by (rule seg_prev [OF sa])
  have pb: "prv s b = ?lb" using seg_prev [OF sb(3)] by simp
  have m: "?la \<in> set (a # xs)" "?lb \<in> set (y # ys')" by simp_all
  have nn: "\<not> LIST_NULL b s" using dlist_null(1) [OF b] Cons by simp
  have dj: "u \<noteq> v" if "u \<in> set (a # xs)" "v \<in> set (b # ys)" for u v using d that by blast
  have ne: "y \<noteq> a" "?la \<noteq> b" "b \<noteq> a" "?lb \<noteq> ?la"
    using dj [of a y] dj [of ?la b] dj [of a b] dj [of ?la ?lb] m Cons by (auto simp del: last.simps)
  have "b \<notin> set (y # ys')" using b Cons by (simp add: dlist_def)
  then have nb: "?lb \<noteq> b" "y \<noteq> b" using m(2) by (metis, simp)
  have n: "nxt ?t x = (if x = b then b else if x = ?la then y else if x = ?lb then a else nxt s x)"
    and p: "prv ?t x = (if x = b then b else if x = a then ?lb else if x = y then ?la else prv s x)"
    and ln: "len ?t = (len s)(a := len s a + len s b, b := 0)" for x
    using nn ne nb pa pb sb(1) by (simp_all add: LIST_JOIN_def Let_def LIST_INIT_def)
  have front: "seg ?t a xs y"
  proof (cases xs rule: rev_cases)
    case Nil
    then show ?thesis using ne nb n p by simp
  next
    case (snoc us u)
    have "seg ?t a us u = seg s a us u"
      using a d snoc m(2) Cons ne nb by (intro seg_frame) (auto simp: n p dlist_def)
    then show ?thesis using snoc sa ne nb n p by (simp add: seg_append)
  qed
  have rear: "seg ?t y ys' a"
  proof (cases ys' rule: rev_cases)
    case Nil
    then show ?thesis using ne nb n p by simp
  next
    case (snoc us u)
    have "seg ?t y us u = seg s y us u"
      using b d snoc m(1) Cons ne nb by (intro seg_frame) (auto simp: n p dlist_def)
    then show ?thesis using snoc sb(3) ne nb n p by (simp add: seg_append)
  qed
  have "seg ?t a (xs @ ys) a" using front rear Cons by (simp add: seg_append)
  moreover have "seg ?t b [] b" using n p by simp
  ultimately show ?thesis using a b d ne(3) ln by (auto simp: dlist_def)
qed

text \<open>A list that shares no link with the one an operation works on is not touched.\<close>

lemma dlist_frame:
  assumes "dlist s l xs" "\<forall>x \<in> set (l # xs). nxt t x = nxt s x \<and> prv t x = prv s x" "len t l = len s l"
  shows "dlist t l xs"
  using assms seg_frame [of l xs t s l] by (auto simp: dlist_def)

section \<open>Lists as values\<close>

text \<open>Components that use the lists are modelled on the sequences of elements; these are the operations that
  the lemmas above show the links to implement.\<close>

definition list_prev :: "'a list \<Rightarrow> 'a \<Rightarrow> 'a option" where
  "list_prev xs e = (let ps = takeWhile (\<lambda>x. x \<noteq> e) xs in if ps = [] then None else Some (last ps))"

definition list_next :: "'a list \<Rightarrow> 'a \<Rightarrow> 'a option" where
  "list_next xs e = (case tl (dropWhile (\<lambda>x. x \<noteq> e) xs) of [] \<Rightarrow> None | q # _ \<Rightarrow> Some q)"

definition list_insert_after :: "'a \<Rightarrow> 'a \<Rightarrow> 'a list \<Rightarrow> 'a list" where
  "list_insert_after a b xs = takeWhile (\<lambda>x. x \<noteq> a) xs @ a # b # tl (dropWhile (\<lambda>x. x \<noteq> a) xs)"

definition list_insert_before :: "'a \<Rightarrow> 'a \<Rightarrow> 'a list \<Rightarrow> 'a list" where
  "list_insert_before a b xs = takeWhile (\<lambda>x. x \<noteq> a) xs @ b # dropWhile (\<lambda>x. x \<noteq> a) xs"

lemma takeWhile_neq [simp]:
  "e \<notin> set ps \<Longrightarrow> takeWhile (\<lambda>x. x \<noteq> e) (ps @ e # qs) = ps"
  "e \<notin> set ps \<Longrightarrow> dropWhile (\<lambda>x. x \<noteq> e) (ps @ e # qs) = e # qs"
  by (induction ps) auto

lemma list_view:
  assumes "e \<notin> set ps"
  shows "list_prev (ps @ e # qs) e = (if ps = [] then None else Some (last ps))"
    "list_next (ps @ e # qs) e = (case qs of [] \<Rightarrow> None | q # _ \<Rightarrow> Some q)"
    "list_insert_after e b (ps @ e # qs) = ps @ e # b # qs"
    "list_insert_before e b (ps @ e # qs) = ps @ b # e # qs"
    "remove1 e (ps @ e # qs) = ps @ qs"
  using assms
  by (simp_all add: list_prev_def list_next_def list_insert_after_def list_insert_before_def remove1_append)

text \<open>C38: The circular doubly linked list implements a sequence: each operation on the links acts on the
  list of elements, in both directions and with the right length, and two joined lists are concatenated.\<close>

theorem dlist_refines_list:
  assumes "dlist s l (ps @ e # qs)" "dlist s m zs" "b \<notin> set (l # ps @ e # qs)"
    "set (l # ps @ e # qs) \<inter> set (m # zs) = {}"
  shows "LIST_HEAD l s = Some (hd (ps @ [e])) \<and> LIST_NEXT l e s = (case qs of [] \<Rightarrow> None | q # _ \<Rightarrow> Some q) \<and>
    LIST_PREV l e s = (if ps = [] then None else Some (last ps)) \<and>
    dlist (LIST_PREPEND l b s) l (b # ps @ e # qs) \<and> dlist (LIST_APPEND l b s) l (ps @ e # qs @ [b]) \<and>
    dlist (LIST_INSERT_AFTER l e b s) l (ps @ e # b # qs) \<and> dlist (LIST_INSERT_BEFORE l e b s) l (ps @ b # e # qs) \<and>
    dlist (LIST_DELETE l e s) l (ps @ qs) \<and> fst (LIST_POP l s) = hd (ps @ [e]) \<and>
    dlist (snd (LIST_POP l s)) l (tl (ps @ e # qs)) \<and>
    dlist (LIST_JOIN l m s) l (ps @ e # qs @ zs) \<and> dlist (LIST_JOIN l m s) m []"
proof -
  obtain x xs where x: "ps @ e # qs = x # xs" by (cases ps) auto
  then have hd: "hd (ps @ [e]) = x" "tl (ps @ e # qs) = xs" by (cases ps; auto)+
  have pop: "fst (LIST_POP l s) = x" "dlist (snd (LIST_POP l s)) l xs"
    using dlist_pop [of s l x xs] assms(1) x by simp_all
  show ?thesis
    using dlist_head [OF assms(1)] dlist_next_prev [OF assms(1)] dlist_prepend [OF assms(1,3)]
      dlist_append [OF assms(1,3)] dlist_insert_after [OF assms(1,3)] dlist_insert_before [OF assms(1,3)]
      dlist_delete [OF assms(1)] pop dlist_join [OF assms(1,2,4)]
    unfolding hd by (simp add: x flip: append_Cons append_assoc)
qed

definition two_rings :: links where
  "two_rings = LIST_APPEND 1 6 (LIST_APPEND 1 5 (LIST_APPEND 0 3 (LIST_INIT 0 (LIST_INIT 1 \<lparr> nxt = id, prv = id, len = id \<rparr>))))"

lemma two_rings: "dlist two_rings 0 [3]" "dlist two_rings 1 [5, 6]"
  by (simp_all add: two_rings_def dlist_def LIST_APPEND_def LIST_LINK_BEFORE_def LIST_INIT_def Let_def)

theorem dlist_refines_list_witness: "dlist (LIST_JOIN 0 1 two_rings) 0 [3, 5, 6]"
  using dlist_refines_list [of two_rings 0 "[]" 3 "[]" 1 "[5, 6]" 9] two_rings by simp

end
