(* ===== verification/Pool.thy ===== *)
theory Pool
  imports Prelude
begin

text \<open>
  Pools of equally sized objects (\<^verbatim>\<open>src/native/pool.h\<close>). A pool owns the unused end \<open>pnext .. pend\<close> of the last
  region it was given and a list of free objects, which the code links through the objects themselves.
  Addresses are naturals; a result of type option is None for a null pointer.
\<close>

record chi_pool =
  pobject :: nat
  pnext :: nat
  pend :: nat
  pfree :: "nat list"

definition chiPoolInit :: "nat \<Rightarrow> chi_pool" where
  "chiPoolInit object = \<lparr> pobject = object, pnext = 0, pend = 0, pfree = [] \<rparr>"

definition chiPoolAlloc :: "chi_pool \<Rightarrow> nat \<times> chi_pool" where
  "chiPoolAlloc p = (pnext p, p\<lparr> pnext := pnext p + pobject p \<rparr>)"

definition chiPoolGetFree :: "chi_pool \<Rightarrow> nat \<times> chi_pool" where
  "chiPoolGetFree p = (hd (pfree p), p\<lparr> pfree := tl (pfree p) \<rparr>)"

definition chiPoolPut :: "chi_pool \<Rightarrow> nat \<Rightarrow> chi_pool" where
  "chiPoolPut p obj = p\<lparr> pfree := obj # pfree p \<rparr>"

text \<open>The loop of \<^verbatim>\<open>chiPoolGrow\<close> turns what is left of the old region into free objects; with objects of size
  zero it would not end.\<close>

partial_function (option) pool_drain :: "chi_pool \<Rightarrow> chi_pool option" where
  "pool_drain p =
     (if pnext p + pobject p \<le> pend p
      then (case chiPoolAlloc p of (obj, q) \<Rightarrow> pool_drain (chiPoolPut q obj))
      else Some p)"

definition chiPoolGrow :: "chi_pool \<Rightarrow> nat \<Rightarrow> nat \<Rightarrow> chi_pool option" where
  "chiPoolGrow p start sz =
     map_option (\<lambda>q. q\<lparr> pnext := start, pend := start + sz \<rparr>) (pool_drain p)"

definition chiPoolTryGet :: "chi_pool \<Rightarrow> nat option \<times> chi_pool" where
  "chiPoolTryGet p =
     (if pfree p \<noteq> [] then (case chiPoolGetFree p of (obj, q) \<Rightarrow> (Some obj, q))
      else if pnext p + pobject p \<le> pend p then (case chiPoolAlloc p of (obj, q) \<Rightarrow> (Some obj, q))
      else (None, p))"

definition chiPoolGet :: "chi_pool \<Rightarrow> nat \<times> chi_pool" where
  "chiPoolGet p = (if pfree p \<noteq> [] then chiPoolGetFree p else chiPoolAlloc p)"

text \<open>\<^verbatim>\<open>chiPoolAvail\<close> walks \<open>n\<close> steps along the free list and asks whether an object is left, so it wants one
  free object more than it needs.\<close>

definition chiPoolAvail :: "chi_pool \<Rightarrow> nat \<Rightarrow> bool" where
  "chiPoolAvail p n =
     (let avail = (pend p - pnext p) div pobject p
      in if n \<le> avail then True else drop (n - avail) (pfree p) \<noteq> [])"

section \<open>Objects of a pool\<close>

text \<open>Two objects of size \<open>n\<close> do not overlap.\<close>

definition apart :: "nat \<Rightarrow> nat \<Rightarrow> nat \<Rightarrow> bool" where
  "apart n a b \<longleftrightarrow> a + n \<le> b \<or> b + n \<le> a"

definition pool_room :: "chi_pool \<Rightarrow> nat" where
  "pool_room p = (pend p - pnext p) div pobject p"

definition pool_fresh :: "chi_pool \<Rightarrow> nat set" where
  "pool_fresh p = (\<lambda>k. pnext p + k * pobject p) ` {..<pool_room p}"

text \<open>The objects the pool can still hand out.\<close>

definition pool_set :: "chi_pool \<Rightarrow> nat set" where
  "pool_set p = set (pfree p) \<union> pool_fresh p"

definition pool_ok :: "chi_pool \<Rightarrow> bool" where
  "pool_ok p \<longleftrightarrow> 0 < pobject p \<and> pnext p \<le> pend p \<and> distinct (pfree p) \<and>
     (\<forall>x \<in> set (pfree p). \<forall>y \<in> set (pfree p). x \<noteq> y \<longrightarrow> apart (pobject p) x y) \<and>
     (\<forall>x \<in> set (pfree p). x + pobject p \<le> pnext p \<or> pend p \<le> x)"

lemma apart_sym: "apart n a b \<longleftrightarrow> apart n b a"
  by (auto simp: apart_def)

lemma pool_init_ok: "0 < n \<Longrightarrow> pool_ok (chiPoolInit n) \<and> pool_set (chiPoolInit n) = {}"
  by (simp add: pool_ok_def chiPoolInit_def pool_set_def pool_fresh_def pool_room_def)

lemma room_iff: "0 < pobject p \<Longrightarrow> pnext p \<le> pend p \<Longrightarrow> pnext p + pobject p \<le> pend p \<longleftrightarrow> 0 < pool_room p"
  by (auto simp: pool_room_def div_greater_zero_iff)

lemma room_fits:
  assumes "0 < pobject p" "pnext p \<le> pend p" "k < pool_room p"
  shows "pnext p + k * pobject p + pobject p \<le> pend p"
proof -
  have "(k + 1) * pobject p \<le> pool_room p * pobject p" using assms(3) by (intro mult_le_mono1) simp
  also have "\<dots> \<le> pend p - pnext p" by (simp add: pool_room_def)
  finally show ?thesis using assms(2) by simp
qed

lemma pool_set_apart:
  assumes ok: "pool_ok p" and xy: "x \<in> pool_set p" "y \<in> pool_set p" "x \<noteq> y"
  shows "apart (pobject p) x y"
proof -
  have fresh: "pnext p \<le> z \<and> z + pobject p \<le> pend p" if "z \<in> pool_fresh p" for z
    using that room_fits [of p] ok by (auto simp: pool_fresh_def pool_ok_def)
  have mixed: "apart (pobject p) u v" if "u \<in> set (pfree p)" "v \<in> pool_fresh p" for u v
    using fresh [OF that(2)] that(1) ok by (fastforce simp: pool_ok_def apart_def)
  have both: "apart (pobject p) u v" if uv: "u \<in> pool_fresh p" "v \<in> pool_fresh p" "u \<noteq> v" for u v
  proof -
    obtain i j where ij: "u = pnext p + i * pobject p" "v = pnext p + j * pobject p"
      using uv by (auto simp: pool_fresh_def)
    have step: "a * pobject p + pobject p \<le> b * pobject p" if "a < b" for a b
      using mult_le_mono1 [of "Suc a" b "pobject p"] that by simp
    show ?thesis using ij uv(3) step [of i j] step [of j i] by (cases i j rule: linorder_cases) (auto simp: apart_def)
  qed
  show ?thesis
    using xy mixed both ok apart_sym [of "pobject p"] unfolding pool_set_def pool_ok_def by (metis Un_iff)
qed

lemma pool_alloc_ok:
  assumes ok: "pool_ok p" and room: "0 < pool_room p"
  shows "pool_ok (snd (chiPoolAlloc p)) \<and> fst (chiPoolAlloc p) \<in> pool_fresh p \<and> pool_room p = Suc (pool_room (snd (chiPoolAlloc p))) \<and>
    pool_fresh (snd (chiPoolAlloc p)) = pool_fresh p - {fst (chiPoolAlloc p)}"
proof -
  let ?q = "snd (chiPoolAlloc p)"
  have fit: "pnext p + pobject p \<le> pend p" using ok room room_iff [of p] by (simp add: pool_ok_def)
  have pos: "0 < pobject p" using ok by (simp add: pool_ok_def)
  have r: "pool_room p = Suc (pool_room ?q)"
  proof -
    have "pend p - pnext p = pobject p + (pend p - (pnext p + pobject p))" using fit by simp
    then have "pool_room p = (pobject p + (pend p - (pnext p + pobject p))) div pobject p"
      unfolding pool_room_def by (rule arg_cong)
    also have "\<dots> = Suc ((pend p - (pnext p + pobject p)) div pobject p)" using pos by simp
    finally show ?thesis unfolding pool_room_def [of ?q] by (simp add: chiPoolAlloc_def)
  qed
  have "pool_fresh p = insert (pnext p) (pool_fresh ?q)" "pnext p \<notin> pool_fresh ?q"
    using pos unfolding pool_fresh_def r by (auto simp: chiPoolAlloc_def lessThan_Suc_eq_insert_0 image_image algebra_simps)
  then show ?thesis using ok r fit by (auto simp: chiPoolAlloc_def pool_ok_def)
qed

text \<open>Getting an object takes one the pool owns, and only that one.\<close>

lemma pool_get_ok:
  assumes ok: "pool_ok p" and ne: "pool_set p \<noteq> {}"
  shows "pool_ok (snd (chiPoolGet p)) \<and> fst (chiPoolGet p) \<in> pool_set p \<and>
    pool_set (snd (chiPoolGet p)) = pool_set p - {fst (chiPoolGet p)}"
proof (cases "pfree p")
  case Nil
  then have "0 < pool_room p" using ne by (auto simp: pool_set_def pool_fresh_def)
  then show ?thesis using pool_alloc_ok [OF ok] Nil by (auto simp: chiPoolGet_def pool_set_def chiPoolAlloc_def)
next
  case (Cons x xs)
  have q: "chiPoolGet p = (x, p\<lparr>pfree := xs\<rparr>)" using Cons by (simp add: chiPoolGet_def chiPoolGetFree_def)
  have f: "pool_fresh (p\<lparr>pfree := xs\<rparr>) = pool_fresh p" by (simp add: pool_fresh_def pool_room_def)
  have "x \<notin> pool_fresh p"
  proof
    assume "x \<in> pool_fresh p"
    then obtain k where "x = pnext p + k * pobject p" "k < pool_room p" by (auto simp: pool_fresh_def)
    then have "pnext p \<le> x" "x + pobject p \<le> pend p" using room_fits [of p k] ok by (simp_all add: pool_ok_def)
    moreover have "x + pobject p \<le> pnext p \<or> pend p \<le> x" "0 < pobject p" using ok Cons by (auto simp: pool_ok_def)
    ultimately show False by linarith
  qed
  then show ?thesis using ok Cons by (auto simp: q f pool_set_def pool_ok_def)
qed

lemma pool_put_ok:
  assumes ok: "pool_ok p" and x: "\<forall>y \<in> set (pfree p). apart (pobject p) x y" "x + pobject p \<le> pnext p \<or> pend p \<le> x"
  shows "pool_ok (chiPoolPut p x) \<and> pool_set (chiPoolPut p x) = insert x (pool_set p)"
proof -
  have "x \<notin> set (pfree p)" using ok x by (fastforce simp: pool_ok_def apart_def)
  then show ?thesis
    using ok x by (auto simp: pool_ok_def chiPoolPut_def pool_set_def pool_fresh_def pool_room_def apart_def)
qed

text \<open>An object that is apart from all the pool owns and from the rest of its region may be put.\<close>

definition pool_outside :: "chi_pool \<Rightarrow> nat \<Rightarrow> bool" where
  "pool_outside p x \<longleftrightarrow> (\<forall>y \<in> set (pfree p). apart (pobject p) x y) \<and> (x + pobject p \<le> pnext p \<or> pend p \<le> x)"

lemma pool_drain_ok:
  assumes "pool_ok p"
  shows "\<exists>q. pool_drain p = Some q \<and> pool_ok q \<and> pool_set q = pool_set p \<and> pool_room q = 0 \<and>
    pobject q = pobject p \<and> set (pfree q) = pool_set p"
  using assms
proof (induction "pool_room p" arbitrary: p)
  case 0
  then have "\<not> pnext p + pobject p \<le> pend p" using room_iff [of p] by (simp add: pool_ok_def)
  then show ?case
    using 0 by (subst pool_drain.simps) (simp add: pool_set_def pool_fresh_def)
next
  case (Suc n)
  let ?x = "fst (chiPoolAlloc p)" and ?q = "snd (chiPoolAlloc p)"
  have room: "0 < pool_room p" using Suc.hyps(2) by simp
  note A = pool_alloc_ok [OF Suc.prems room]
  have fit: "pnext p + pobject p \<le> pend p" using room room_iff [of p] Suc.prems by (simp add: pool_ok_def)
  have put: "pool_ok (chiPoolPut ?q ?x) \<and> pool_set (chiPoolPut ?q ?x) = insert ?x (pool_set ?q)"
  proof (rule pool_put_ok)
    show "\<forall>y\<in>set (pfree ?q). apart (pobject ?q) ?x y"
      using Suc.prems fit by (fastforce simp: chiPoolAlloc_def pool_ok_def apart_def)
    show "?x + pobject ?q \<le> pnext ?q \<or> pend ?q \<le> ?x" by (simp add: chiPoolAlloc_def)
  qed (use A in simp)
  have set: "pool_set (chiPoolPut ?q ?x) = pool_set p"
    using put A by (auto simp: pool_set_def chiPoolAlloc_def)
  have "n = pool_room (chiPoolPut ?q ?x)" using A Suc.hyps(2) by (simp add: pool_room_def chiPoolPut_def)
  from Suc.hyps(1) [OF this] put set fit show ?case
    by (subst pool_drain.simps) (auto simp: chiPoolAlloc_def chiPoolPut_def)
qed

text \<open>Growing: the old objects stay available, those of the new region are added.\<close>

lemma pool_grow_ok:
  assumes ok: "pool_ok p" and new: "\<forall>x \<in> pool_set p. x + pobject p \<le> start \<or> start + sz \<le> x"
  shows "\<exists>q. chiPoolGrow p start sz = Some q \<and> pool_ok q \<and> pobject q = pobject p \<and>
    pool_set q = pool_set p \<union> (\<lambda>k. start + k * pobject p) ` {..<sz div pobject p}"
proof -
  obtain q where q: "pool_drain p = Some q" "pool_ok q" "pobject q = pobject p" "set (pfree q) = pool_set p"
    using pool_drain_ok [OF ok] by blast
  let ?r = "q\<lparr>pnext := start, pend := start + sz\<rparr>"
  have "pool_ok ?r" using q new by (auto simp: pool_ok_def)
  moreover have "pool_set ?r = pool_set p \<union> (\<lambda>k. start + k * pobject p) ` {..<sz div pobject p}"
    using q by (simp add: pool_set_def pool_fresh_def pool_room_def)
  ultimately show ?thesis using q by (auto simp: chiPoolGrow_def)
qed

text \<open>What \<^verbatim>\<open>chiPoolAvail\<close> promises.\<close>

lemma finite_pool_set [simp]: "finite (pool_set p)"
  by (simp add: pool_set_def pool_fresh_def)

lemma card_pool_set:
  assumes ok: "pool_ok p"
  shows "card (pool_set p) = length (pfree p) + pool_room p"
proof -
  have "inj_on (\<lambda>k. pnext p + k * pobject p) {..<pool_room p}"
    using ok by (auto simp: inj_on_def pool_ok_def)
  then have "card (pool_fresh p) = pool_room p" by (simp add: pool_fresh_def card_image)
  moreover have "set (pfree p) \<inter> pool_fresh p = {}"
  proof -
    have False if "x \<in> set (pfree p)" "k < pool_room p" "x = pnext p + k * pobject p" for x k
    proof -
      have "x + pobject p \<le> pend p" using that(2,3) room_fits [of p k] ok by (simp add: pool_ok_def)
      moreover have "x + pobject p \<le> pnext p \<or> pend p \<le> x" "0 < pobject p" using that(1) ok by (auto simp: pool_ok_def)
      ultimately show False using that(3) by linarith
    qed
    then show ?thesis by (auto simp: pool_fresh_def)
  qed
  ultimately show ?thesis
    using ok by (simp add: pool_set_def card_Un_disjoint pool_fresh_def distinct_card pool_ok_def)
qed

lemma pool_avail_card:
  assumes "pool_ok p" "chiPoolAvail p n"
  shows "n \<le> card (pool_set p)"
  using assms card_pool_set [OF assms(1)]
  by (auto simp: chiPoolAvail_def pool_room_def Let_def split: if_splits)

text \<open>What the two operations that hand out objects have in common.\<close>

lemma try_get_eq:
  assumes "pool_ok p"
  shows "chiPoolTryGet p = (if pool_set p = {} then (None, p) else (Some (fst (chiPoolGet p)), snd (chiPoolGet p)))"
proof (cases "pfree p")
  case Nil
  have "pnext p + pobject p \<le> pend p \<longleftrightarrow> pool_set p \<noteq> {}"
    using room_iff [of p] assms Nil by (auto simp: pool_ok_def pool_set_def pool_fresh_def)
  then show ?thesis using Nil by (simp add: chiPoolTryGet_def chiPoolGet_def case_prod_beta)
next
  case (Cons x xs)
  then show ?thesis by (simp add: chiPoolTryGet_def chiPoolGet_def pool_set_def case_prod_beta)
qed

section \<open>The interface of a pool\<close>

lemma outside_apart:
  assumes ok: "pool_ok p" and x: "pool_outside p x" and y: "y \<in> pool_set p"
  shows "apart (pobject p) x y"
proof (cases "y \<in> set (pfree p)")
  case False
  then obtain k where "y = pnext p + k * pobject p" "k < pool_room p" using y by (auto simp: pool_set_def pool_fresh_def)
  then have "pnext p \<le> y" "y + pobject p \<le> pend p" using room_fits [of p k] ok by (simp_all add: pool_ok_def)
  then show ?thesis using x by (auto simp: pool_outside_def apart_def)
qed (use x in \<open>simp add: pool_outside_def\<close>)

lemma outside_notin: "pool_ok p \<Longrightarrow> pool_outside p x \<Longrightarrow> x \<notin> pool_set p"
  using outside_apart [of p x x] by (auto simp: apart_def pool_ok_def)

lemma pool_get_outside:
  assumes ok: "pool_ok p" and ne: "pool_set p \<noteq> {}"
  shows "pool_outside (snd (chiPoolGet p)) (fst (chiPoolGet p))" "pool_outside p x \<Longrightarrow> pool_outside (snd (chiPoolGet p)) x"
    "pobject (snd (chiPoolGet p)) = pobject p"
proof -
  show "pobject (snd (chiPoolGet p)) = pobject p" by (simp add: chiPoolGet_def chiPoolGetFree_def chiPoolAlloc_def)
  show "pool_outside p x \<Longrightarrow> pool_outside (snd (chiPoolGet p)) x"
    by (cases "pfree p") (auto simp: pool_outside_def chiPoolGet_def chiPoolGetFree_def chiPoolAlloc_def)
  show "pool_outside (snd (chiPoolGet p)) (fst (chiPoolGet p))"
  proof (cases "pfree p")
    case Nil
    then show ?thesis by (simp add: pool_outside_def chiPoolGet_def chiPoolAlloc_def)
  next
    case (Cons y ys)
    then show ?thesis using ok by (auto simp: pool_outside_def chiPoolGet_def chiPoolGetFree_def pool_ok_def)
  qed
qed

lemma pool_put_outside:
  "apart (pobject p) x s \<Longrightarrow> pool_outside p x \<Longrightarrow> pool_outside (chiPoolPut p s) x" "pobject (chiPoolPut p s) = pobject p"
  by (auto simp: pool_outside_def chiPoolPut_def)

lemma pool_grow_outside:
  assumes ok: "pool_ok p" and grow: "chiPoolGrow p start sz = Some q" and x: "pool_outside p x"
    and new: "x + pobject p \<le> start \<or> start + sz \<le> x"
  shows "pool_outside q x"
proof -
  obtain r where r: "pool_drain p = Some r" "pobject r = pobject p" "set (pfree r) = pool_set p"
    using pool_drain_ok [OF ok] by blast
  have q: "q = r\<lparr>pnext := start, pend := start + sz\<rparr>" using grow r(1) by (simp add: chiPoolGrow_def)
  show ?thesis using outside_apart [OF ok x] new r(2,3) unfolding q pool_outside_def by simp
qed

locale object_pool =
  fixes get :: "'p \<Rightarrow> 'h \<times> 'p" and put :: "'p \<Rightarrow> 'h \<Rightarrow> 'p" and avail :: "'p \<Rightarrow> nat \<Rightarrow> bool"
    and ok :: "'p \<Rightarrow> bool" and objects :: "'p \<Rightarrow> 'h set" and outside :: "'p \<Rightarrow> 'h \<Rightarrow> bool"
  assumes get_ok: "ok p \<Longrightarrow> objects p \<noteq> {} \<Longrightarrow>
      ok (snd (get p)) \<and> fst (get p) \<in> objects p \<and> objects (snd (get p)) = objects p - {fst (get p)}"
    and get_outside: "ok p \<Longrightarrow> objects p \<noteq> {} \<Longrightarrow> outside (snd (get p)) (fst (get p))"
    and put_ok: "ok p \<Longrightarrow> outside p x \<Longrightarrow> ok (put p x) \<and> objects (put p x) = insert x (objects p)"
    and avail_objects: "ok p \<Longrightarrow> avail p n \<Longrightarrow> finite (objects p) \<and> n \<le> card (objects p)"
    and outside_objects: "ok p \<Longrightarrow> outside p x \<Longrightarrow> x \<notin> objects p"
begin

text \<open>A successful check for \<open>n + 1\<close> objects allows a get and leaves \<open>n\<close>.\<close>

lemma get_avail:
  assumes "ok p" "Suc n \<le> card (objects p)"
  shows "ok (snd (get p)) \<and> n \<le> card (objects (snd (get p)))"
proof -
  have ne: "objects p \<noteq> {}" using assms(2) by auto
  have "finite (objects p)" using assms(2) card.infinite by fastforce
  then show ?thesis using get_ok [OF assms(1) ne] assms(2) by (simp add: card_Diff_singleton)
qed

lemma get_twice:
  assumes p: "ok p" "avail p 2"
  defines "q \<equiv> snd (get p)"
  shows "fst (get p) \<in> objects p \<and> fst (get q) \<in> objects p \<and> fst (get q) \<noteq> fst (get p) \<and> ok (snd (get q))"
proof -
  have c: "finite (objects p)" "2 \<le> card (objects p)" using avail_objects [OF p] by simp_all
  then have ne: "objects p \<noteq> {}" by auto
  have q: "ok q" "1 \<le> card (objects q)" using get_avail [OF p(1), of 1] c(2) by (simp_all add: q_def)
  then have "objects q \<noteq> {}" by auto
  then show ?thesis using get_ok [OF p(1) ne] get_ok [OF q(1)] by (auto simp: q_def)
qed

lemma put_get: "ok p \<Longrightarrow> outside p x \<Longrightarrow> fst (get (put p x)) \<in> insert x (objects p)"
  using put_ok [of p x] get_ok [of "put p x"] by auto

end

interpretation pool: object_pool chiPoolGet chiPoolPut chiPoolAvail pool_ok pool_set pool_outside
proof
  show "pool_ok (chiPoolPut p x) \<and> pool_set (chiPoolPut p x) = insert x (pool_set p)" if "pool_ok p" "pool_outside p x" for p x
    using pool_put_ok [OF that(1)] that(2) by (auto simp: pool_outside_def)
qed (simp_all add: pool_get_ok pool_get_outside pool_avail_card outside_notin)

text \<open>C37: A pool hands out disjoint objects. Trying to get one fails, and leaves the pool alone, exactly if the pool owns none;
  otherwise it does what a get does: it returns an object the pool owned, which does not overlap any that is left, and the pool keeps exactly the others,
  until the object is put back. A successful check promises as many objects as it asks for. Growing ends and adds
  exactly the objects of the new region.\<close>

theorem pool_hands_out_disjoint:
  assumes "pool_ok p" "\<forall>x \<in> pool_set p. x + pobject p \<le> start \<or> start + sz \<le> x"
  shows "(chiPoolAvail p n \<longrightarrow> n \<le> card (pool_set p)) \<and>
    (case chiPoolTryGet p of
       (None, q) \<Rightarrow> pool_set p = {} \<and> q = p
     | (Some x, q) \<Rightarrow> chiPoolGet p = (x, q) \<and> x \<in> pool_set p \<and> pool_ok q \<and> pool_set q = pool_set p - {x} \<and>
         (\<forall>y \<in> pool_set q. apart (pobject p) x y) \<and> pool_ok (chiPoolPut q x) \<and> pool_set (chiPoolPut q x) = pool_set p) \<and>
    (\<exists>r. chiPoolGrow p start sz = Some r \<and> pool_ok r \<and>
       pool_set r = pool_set p \<union> (\<lambda>k. start + k * pobject p) ` {..<sz div pobject p})"
proof (intro conjI)
  show "chiPoolAvail p n \<longrightarrow> n \<le> card (pool_set p)" using pool.avail_objects [OF assms(1)] by blast
  show "\<exists>r. chiPoolGrow p start sz = Some r \<and> pool_ok r \<and>
       pool_set r = pool_set p \<union> (\<lambda>k. start + k * pobject p) ` {..<sz div pobject p}"
    using pool_grow_ok [OF assms] by blast
  show "case chiPoolTryGet p of
       (None, q) \<Rightarrow> pool_set p = {} \<and> q = p
     | (Some x, q) \<Rightarrow> chiPoolGet p = (x, q) \<and> x \<in> pool_set p \<and> pool_ok q \<and> pool_set q = pool_set p - {x} \<and>
         (\<forall>y \<in> pool_set q. apart (pobject p) x y) \<and> pool_ok (chiPoolPut q x) \<and> pool_set (chiPoolPut q x) = pool_set p"
  proof (cases "pool_set p = {}")
    case False
    note g = pool.get_ok [OF assms(1) False]
    note put = pool.put_ok [OF _ pool.get_outside [OF assms(1) False]]
    show ?thesis unfolding try_get_eq [OF assms(1)]
      using False g put pool_set_apart [OF assms(1), of "fst (chiPoolGet p)"] by (auto simp: insert_absorb)
  qed (simp add: try_get_eq [OF assms(1)])
qed

theorem pool_hands_out_disjoint_witness:
  "chiPoolAvail \<lparr> pobject = 16, pnext = 100, pend = 132, pfree = [50] \<rparr> 2 \<and>
   (case chiPoolTryGet \<lparr> pobject = 16, pnext = 100, pend = 132, pfree = [50] \<rparr> of
      (None, q) \<Rightarrow> False | (Some x, q) \<Rightarrow> x = 50 \<and> apart 16 x 100 \<and> 116 \<in> pool_set q) \<and>
   (\<exists>r. chiPoolGrow \<lparr> pobject = 16, pnext = 100, pend = 132, pfree = [50] \<rparr> 200 64 = Some r \<and> 248 \<in> pool_set r)"
proof -
  let ?p = "\<lparr> pobject = 16, pnext = 100, pend = 132, pfree = [50] \<rparr>"
  have s: "pool_set ?p = {50, 100, 116}"
    by (auto simp: pool_set_def pool_fresh_def pool_room_def lessThan_Suc numeral_2_eq_2)
  have t: "chiPoolTryGet ?p = (Some 50, ?p\<lparr> pfree := [] \<rparr>)" by (simp add: chiPoolTryGet_def chiPoolGetFree_def)
  have a: "chiPoolAvail ?p 2" by (simp add: chiPoolAvail_def)
  have i: "(248 :: nat) \<in> (\<lambda>k. 200 + k * 16) ` {..<64 div 16}" by (rule image_eqI [of _ _ 3]) simp_all
  have "\<forall>x \<in> pool_set ?p. x + pobject ?p \<le> 200 \<or> 200 + 64 \<le> x" by (simp add: s)
  from pool_hands_out_disjoint [OF _ this, of 2] show ?thesis
    using a i by (auto simp: t s pool_ok_def)
qed

end
