(* ===== verification/Chunk.thy ===== *)
theory Chunk
  imports Chili Numfmt DList Pool
begin

text \<open>
  The chunk allocator (\<^verbatim>\<open>src/native/chunk.c\<close>) in the build with a fixed arena and an unmap task. A chunk is named by
  the address of its handle; the lists through the handles (one over all chunks by address, one for the free
  chunks of each size class, one for the chunks that wait to be unmapped) are sequences of handles, which
  theory DList shows the links to implement. What the operating system answers is an argument: \<open>commit\<close> says
  whether memory can be committed, \<open>region\<close> is the page given for more handles, \<open>now\<close> is the clock.
\<close>

definition CHI_CHUNK_MIN_SHIFT :: nat where "CHI_CHUNK_MIN_SHIFT = 12"
definition CHI_CHUNK_MAX_SHIFT :: nat where "CHI_CHUNK_MAX_SHIFT = 37"
definition CHI_CHUNK_MIN_SIZE :: nat where "CHI_CHUNK_MIN_SIZE = 2 ^ 12"
definition CHI_CHUNK_MAX :: nat where "CHI_CHUNK_MAX = CHI_CHUNK_MAX_SHIFT - CHI_CHUNK_MIN_SHIFT"

record chunk =
  cstart :: nat
  csize :: nat
  cused :: bool
  ctimeout :: u64

record virt_alloc =
  chunks :: "nat \<Rightarrow> chunk"
  sizeList :: "nat \<Rightarrow> nat list"
  addrList :: "nat list"
  handlePool :: chi_pool
  smallPages :: bool

definition chiChunkSizeValid :: "nat \<Rightarrow> bool" where
  "chiChunkSizeValid n \<longleftrightarrow> n \<ge> CHI_CHUNK_MIN_SIZE \<and> n \<le> CHI_CHUNK_MAX_SIZE \<and> n AND (CHI_CHUNK_MIN_SIZE - 1) = 0"

definition chunkAlignValid :: "nat \<Rightarrow> bool" where
  "chunkAlignValid al \<longleftrightarrow>
     al = 0 \<or> chiIsPow2 (of_nat al) \<and> al \<ge> CHI_CHUNK_MIN_SIZE \<and> al \<le> CHI_CHUNK_MAX_SIZE"

definition chunkAligned :: "nat \<Rightarrow> nat \<Rightarrow> bool" where
  "chunkAligned start al \<longleftrightarrow> (if al = 0 then True else start AND (al - 1) = 0)"

text \<open>Writing fields of a chunk, and \<^verbatim>\<open>chunkInit\<close>.\<close>

definition upd :: "nat \<Rightarrow> (chunk \<Rightarrow> chunk) \<Rightarrow> virt_alloc \<Rightarrow> virt_alloc" where
  "upd c f va = va\<lparr> chunks := (chunks va)(c := f (chunks va c)) \<rparr>"

definition chunkInit :: "nat \<Rightarrow> nat \<Rightarrow> nat \<Rightarrow> virt_alloc \<Rightarrow> virt_alloc" where
  "chunkInit c start sz va =
     upd c (\<lambda>_. \<lparr> cstart = start, csize = sz, cused = False, ctimeout = 0 \<rparr>) va"

definition chunkClassSmaller :: "nat \<Rightarrow> nat" where
  "chunkClassSmaller sz = chiLog2Floor (of_nat sz) - CHI_CHUNK_MIN_SHIFT"

definition chunkClassLarger :: "nat \<Rightarrow> nat" where
  "chunkClassLarger sz =
     (let cls = chunkClassSmaller sz in if 2 ^ (cls + CHI_CHUNK_MIN_SHIFT) < sz then cls + 1 else cls)"

text \<open>Deleting a chunk from the size list it is linked into.\<close>

definition unlink :: "nat \<Rightarrow> virt_alloc \<Rightarrow> virt_alloc" where
  "unlink c va = va\<lparr> sizeList := (\<lambda>i. remove1 c (sizeList va i)) \<rparr>"

definition vaCoalesce :: "nat \<Rightarrow> nat \<Rightarrow> virt_alloc \<Rightarrow> virt_alloc" where
  "vaCoalesce c s va =
     (let va = va\<lparr> addrList := remove1 s (addrList va) \<rparr>;
          va = upd c (\<lambda>k. k\<lparr> csize := csize k + csize (chunks va s) \<rparr>) va
      in va\<lparr> handlePool := chiPoolPut (handlePool va) s \<rparr>)"

definition vaMergeBefore :: "nat \<Rightarrow> virt_alloc \<Rightarrow> nat \<times> virt_alloc" where
  "vaMergeBefore c va =
     (case list_prev (addrList va) c of
        Some before \<Rightarrow> if \<not> cused (chunks va before) then (before, vaCoalesce before c (unlink before va)) else (c, va)
      | None \<Rightarrow> (c, va))"

definition vaMergeAfter :: "nat \<Rightarrow> virt_alloc \<Rightarrow> virt_alloc" where
  "vaMergeAfter c va =
     (case list_next (addrList va) c of
        Some after \<Rightarrow> if \<not> cused (chunks va after) then vaCoalesce c after (unlink after va) else va
      | None \<Rightarrow> va)"

definition vaListFree :: "nat \<Rightarrow> virt_alloc \<Rightarrow> virt_alloc" where
  "vaListFree c va =
     (let cls = chunkClassSmaller (csize (chunks va c))
      in va\<lparr> sizeList := (sizeList va)(cls := sizeList va cls @ [c]) \<rparr>)"

definition vaInsertFree :: "nat \<Rightarrow> virt_alloc \<Rightarrow> virt_alloc" where
  "vaInsertFree c va =
     (let va = upd c (\<lambda>k. k\<lparr> cused := False \<rparr>) va;
          (c, va) = vaMergeBefore c va;
          va = vaMergeAfter c va
      in vaListFree c va)"

text \<open>\<^verbatim>\<open>vaFreeChunk\<close> decommits the memory of the chunk, which the model does not see.\<close>

definition vaFreeChunk :: "nat \<Rightarrow> virt_alloc \<Rightarrow> virt_alloc" where
  "vaFreeChunk c va = vaInsertFree c va"

definition vaGetHandle :: "nat \<Rightarrow> nat \<Rightarrow> virt_alloc \<Rightarrow> nat \<times> virt_alloc" where
  "vaGetHandle start sz va =
     (let (c, p) = chiPoolGet (handlePool va) in (c, chunkInit c start sz (va\<lparr> handlePool := p \<rparr>)))"

text \<open>The arena: one free chunk, whose handle \<open>arena\<close> is part of the allocator.\<close>

definition vaSetupArena :: "nat \<Rightarrow> nat \<Rightarrow> nat \<Rightarrow> virt_alloc \<Rightarrow> virt_alloc" where
  "vaSetupArena arena arenaStart arenaSize va =
     (let va = va\<lparr> addrList := [], sizeList := (\<lambda>_. []) \<rparr>;
          va = chunkInit arena arenaStart arenaSize va;
          cls = chunkClassSmaller arenaSize;
          va = va\<lparr> sizeList := (sizeList va)(cls := sizeList va cls @ [arena]) \<rparr>
      in va\<lparr> addrList := addrList va @ [arena] \<rparr>)"

definition sizeof_ChiChunk :: nat where
  "sizeof_ChiChunk = 64"

definition vaSetup :: "nat \<Rightarrow> nat \<Rightarrow> nat \<Rightarrow> bool \<Rightarrow> virt_alloc" where
  "vaSetup arena arenaStart arenaSize small =
     vaSetupArena arena arenaStart arenaSize
       \<lparr> chunks = (\<lambda>_. \<lparr> cstart = 0, csize = 0, cused = False, ctimeout = 0 \<rparr>), sizeList = (\<lambda>_. []), addrList = [],
         handlePool = chiPoolInit sizeof_ChiChunk, smallPages = small \<rparr>"

text \<open>The first class from \<open>cls\<close> on with a free chunk.\<close>

function find_class :: "(nat \<Rightarrow> nat list) \<Rightarrow> nat \<Rightarrow> nat" where
  "find_class l cls = (if cls \<le> CHI_CHUNK_MAX \<and> l cls = [] then find_class l (cls + 1) else cls)"
  by pat_completeness auto
termination by (relation "measure (\<lambda>(l, cls). Suc CHI_CHUNK_MAX - cls)") auto

declare find_class.simps [simp del]

definition vaFindSize :: "nat \<Rightarrow> virt_alloc \<Rightarrow> nat option \<times> virt_alloc" where
  "vaFindSize sz va =
     (let cls = find_class (sizeList va) (chunkClassLarger sz)
      in if cls = CHI_CHUNK_MAX + 1 then (None, va)
         else let c = hd (sizeList va cls); va = va\<lparr> sizeList := (sizeList va)(cls := tl (sizeList va cls)) \<rparr>
              in (Some c, upd c (\<lambda>k. k\<lparr> cused := True \<rparr>) va))"

definition vaSplitBegin :: "nat \<Rightarrow> nat \<Rightarrow> virt_alloc \<Rightarrow> nat option \<times> virt_alloc" where
  "vaSplitBegin c al va =
     (if \<not> chunkAligned (cstart (chunks va c)) al then
        let oldStart = cstart (chunks va c);
            newStart = unat (CHI_ALIGNUP (of_nat oldStart) (of_nat al));
            (before, va) = vaGetHandle oldStart (newStart - oldStart) va;
            va = upd c (\<lambda>k. k\<lparr> cstart := newStart, csize := csize k - csize (chunks va before) \<rparr>) va;
            va = upd before (\<lambda>k. k\<lparr> cused := True \<rparr>) va;
            va = va\<lparr> addrList := list_insert_before c before (addrList va) \<rparr>
        in (Some before, va)
      else (None, va))"

definition vaSplitEnd :: "nat \<Rightarrow> nat \<Rightarrow> virt_alloc \<Rightarrow> nat option \<times> virt_alloc" where
  "vaSplitEnd c sz va =
     (if csize (chunks va c) \<noteq> sz then
        let (after, va) = vaGetHandle (cstart (chunks va c) + sz) (csize (chunks va c) - sz) va;
            va = upd c (\<lambda>k. k\<lparr> csize := csize k - csize (chunks va after) \<rparr>) va;
            va = upd after (\<lambda>k. k\<lparr> cused := True \<rparr>) va;
            va = va\<lparr> addrList := list_insert_after c after (addrList va) \<rparr>
        in (Some after, va)
      else (None, va))"

definition vaSplit :: "nat \<Rightarrow> nat \<Rightarrow> nat \<Rightarrow> virt_alloc \<Rightarrow> nat option \<times> nat option \<times> virt_alloc" where
  "vaSplit c sz al va =
     (let (before, va) = vaSplitBegin c al va; (after, va) = vaSplitEnd c sz va in (before, after, va))"

definition vaReserveHandles :: "nat option \<Rightarrow> virt_alloc \<Rightarrow> bool \<times> virt_alloc" where
  "vaReserveHandles region va =
     (case region of None \<Rightarrow> (False, va)
      | Some start \<Rightarrow>
          (case chiPoolGrow (handlePool va) start CHI_CHUNK_MIN_SIZE of
             Some p \<Rightarrow> (True, va\<lparr> handlePool := p \<rparr>)
           | None \<Rightarrow> (False, va)))"

definition vaNeedHandles :: "nat option \<Rightarrow> nat \<Rightarrow> virt_alloc \<Rightarrow> bool \<times> virt_alloc" where
  "vaNeedHandles region needed va =
     (if chiPoolAvail (handlePool va) needed then (True, va) else vaReserveHandles region va)"

definition vaInsertFreeOpt :: "nat option \<Rightarrow> virt_alloc \<Rightarrow> virt_alloc" where
  "vaInsertFreeOpt c va = (case c of None \<Rightarrow> va | Some c \<Rightarrow> vaInsertFree c va)"

definition vaFind :: "nat option \<Rightarrow> nat \<Rightarrow> nat \<Rightarrow> virt_alloc \<Rightarrow> nat option \<times> virt_alloc" where
  "vaFind region sz al va =
     (let (ok, va) = vaNeedHandles region 2 va in
      if \<not> ok then (None, va)
      else
        (case vaFindSize (sz + al) va of
           (None, va) \<Rightarrow> (None, va)
         | (Some c, va) \<Rightarrow>
             let (before, after, va) = vaSplit c sz al va;
                 va = vaInsertFreeOpt before va;
                 va = vaInsertFreeOpt after va
             in (Some c, va)))"

definition vaAllocHuge :: "nat \<Rightarrow> virt_alloc \<Rightarrow> bool" where
  "vaAllocHuge sz va \<longleftrightarrow> sz \<ge> 2 * 2 ^ 20 \<and> \<not> smallPages va"

definition vaNewChunk ::
  "(nat \<Rightarrow> nat \<Rightarrow> bool \<Rightarrow> bool) \<Rightarrow> nat option \<Rightarrow> nat \<Rightarrow> nat \<Rightarrow> virt_alloc \<Rightarrow> nat option \<times> virt_alloc" where
  "vaNewChunk commit region sz al va =
     (case vaFind region sz al va of
        (None, va) \<Rightarrow> (None, va)
      | (Some c, va) \<Rightarrow>
          if \<not> commit (cstart (chunks va c)) (csize (chunks va c)) (vaAllocHuge (csize (chunks va c)) va)
          then (None, vaInsertFree c va) else (Some c, va))"

section \<open>The unmap allocator\<close>

record unmap_alloc =
  uva :: virt_alloc
  ulist :: "nat list"
  utask :: bool
  utimeout :: u64

text \<open>Take a recently freed chunk of the right size and alignment, the first one in the list.\<close>

definition uaReuse :: "nat \<Rightarrow> nat \<Rightarrow> unmap_alloc \<Rightarrow> nat option \<times> unmap_alloc" where
  "uaReuse sz al ua =
     (case find (\<lambda>c. csize (chunks (uva ua) c) = sz \<and> chunkAligned (cstart (chunks (uva ua) c)) al) (ulist ua) of
        Some c \<Rightarrow> (Some c, ua\<lparr> ulist := remove1 c (ulist ua) \<rparr>)
      | None \<Rightarrow> (None, ua))"

text \<open>One look of \<^verbatim>\<open>uaPopWait\<close> at the list; None: it goes on waiting.\<close>

definition uaPopWait :: "u64 \<Rightarrow> unmap_alloc \<Rightarrow> nat option \<times> unmap_alloc" where
  "uaPopWait now ua =
     (case ulist ua of
        c # cs \<Rightarrow> if ctimeout (chunks (uva ua) c) < now then (Some c, ua\<lparr> ulist := cs \<rparr>) else (None, ua)
      | [] \<Rightarrow> (None, ua))"

definition uaPopNowait :: "unmap_alloc \<Rightarrow> nat option \<times> unmap_alloc" where
  "uaPopNowait ua = (case ulist ua of [] \<Rightarrow> (None, ua) | c # cs \<Rightarrow> (Some c, ua\<lparr> ulist := cs \<rparr>))"

definition uaFreeNow :: "nat \<Rightarrow> unmap_alloc \<Rightarrow> unmap_alloc" where
  "uaFreeNow c ua = ua\<lparr> uva := vaFreeChunk c (uva ua) \<rparr>"

text \<open>The loop leaves with \<open>chunk\<close> null, so the result is always False.\<close>

function uaFreeEmergency :: "unmap_alloc \<Rightarrow> bool \<times> unmap_alloc" where
  "uaFreeEmergency ua =
     (case uaPopNowait ua of
        (Some c, ua') \<Rightarrow> uaFreeEmergency (uaFreeNow c ua')
      | (None, ua') \<Rightarrow> (False, ua'))"
  by pat_completeness auto
termination
  by (relation "measure (\<lambda>ua. length (ulist ua))") (auto simp: uaPopNowait_def uaFreeNow_def split: list.splits)

declare uaFreeEmergency.simps [simp del]

text \<open>\<open>create\<close> tells whether the task can be created when there is none.\<close>

definition uaFreeDelayed :: "bool \<Rightarrow> u64 \<Rightarrow> nat \<Rightarrow> unmap_alloc \<Rightarrow> bool \<times> unmap_alloc" where
  "uaFreeDelayed create now c ua =
     (let ua = ua\<lparr> uva := upd c (\<lambda>k. k\<lparr> ctimeout := now + utimeout ua \<rparr>) (uva ua) \<rparr>;
          ua = ua\<lparr> ulist := ulist ua @ [c] \<rparr>
      in if ctimeout (chunks (uva ua) (hd (ulist ua))) < now
         then if utask ua then (True, ua) else if create then (True, ua\<lparr> utask := True \<rparr>) else (False, ua)
         else (True, ua))"

definition uaFreeChunk :: "bool \<Rightarrow> u64 \<Rightarrow> nat \<Rightarrow> unmap_alloc \<Rightarrow> unmap_alloc" where
  "uaFreeChunk create now c ua =
     (case uaFreeDelayed create now c ua of (True, ua) \<Rightarrow> ua | (False, ua) \<Rightarrow> snd (uaFreeEmergency ua))"

definition uaSetup :: "virt_alloc \<Rightarrow> u64 \<Rightarrow> unmap_alloc" where
  "uaSetup va timeout = \<lparr> uva = va, ulist = [], utask = False, utimeout = timeout \<rparr>"

text \<open>The loop of \<^verbatim>\<open>uaNewChunk\<close> would go round again after an emergency free that reports success.\<close>

partial_function (option) uaNewChunk ::
  "(nat \<Rightarrow> nat \<Rightarrow> bool \<Rightarrow> bool) \<Rightarrow> nat option \<Rightarrow> nat \<Rightarrow> nat \<Rightarrow> unmap_alloc \<Rightarrow> (nat option \<times> unmap_alloc) option" where
  "uaNewChunk commit region sz al ua =
     (case uaReuse sz al ua of
        (Some c, ua) \<Rightarrow> Some (Some c, ua)
      | (None, ua) \<Rightarrow>
          (case vaNewChunk commit region sz al (uva ua) of
             (Some c, va) \<Rightarrow> Some (Some c, ua\<lparr> uva := va \<rparr>)
           | (None, va) \<Rightarrow>
               (case uaFreeEmergency (ua\<lparr> uva := va \<rparr>) of
                  (again, ua) \<Rightarrow> if \<not> again then Some (None, ua) else uaNewChunk commit region sz al ua)))"

section \<open>Size classes\<close>

lemma class_bounds:
  assumes "CHI_CHUNK_MIN_SIZE \<le> sz" "sz < 2 ^ 64"
  shows "2 ^ (chunkClassSmaller sz + 12) \<le> sz" "sz < 2 ^ (chunkClassSmaller sz + 13)"
proof -
  let ?x = "of_nat sz :: u64"
  have u: "unat ?x = sz" using assms(2) by (simp add: unat_of_nat take_bit_nat_eq_self)
  have "4096 \<le> sz" using assms(1) by (simp add: CHI_CHUNK_MIN_SIZE_def)
  then have "?x \<noteq> 0" using u by (metis unat_0 not_numeral_le_zero)
  then have b: "2 ^ chiLog2Floor ?x \<le> sz \<and> sz < 2 ^ (chiLog2Floor ?x + 1)" using chiLog2Floor_bounds [of ?x] u by simp
  have "12 \<le> chiLog2Floor ?x"
  proof (rule ccontr)
    assume "\<not> 12 \<le> chiLog2Floor ?x"
    then have "(2 :: nat) ^ (chiLog2Floor ?x + 1) \<le> 2 ^ 12" by (intro power_increasing) auto
    then show False using b \<open>4096 \<le> sz\<close> by simp
  qed
  then have "chunkClassSmaller sz + 12 = chiLog2Floor ?x" by (simp add: chunkClassSmaller_def CHI_CHUNK_MIN_SHIFT_def)
  moreover from this have "chunkClassSmaller sz + 13 = chiLog2Floor ?x + 1" by simp
  ultimately show "2 ^ (chunkClassSmaller sz + 12) \<le> sz" "sz < 2 ^ (chunkClassSmaller sz + 13)" using b by (simp_all only:)
qed

lemma class_larger_bound:
  assumes "CHI_CHUNK_MIN_SIZE \<le> sz" "sz < 2 ^ 64"
  shows "sz \<le> 2 ^ (chunkClassLarger sz + 12)"
proof (cases "2 ^ (chunkClassSmaller sz + 12) < sz")
  case True
  then have "chunkClassLarger sz + 12 = chunkClassSmaller sz + 13"
    by (simp add: chunkClassLarger_def Let_def CHI_CHUNK_MIN_SHIFT_def)
  then show ?thesis using class_bounds(2) [OF assms] by (simp only:)
qed (simp add: chunkClassLarger_def Let_def CHI_CHUNK_MIN_SHIFT_def)

lemma class_max: "CHI_CHUNK_MIN_SIZE \<le> sz \<Longrightarrow> sz \<le> CHI_CHUNK_MAX_SIZE \<Longrightarrow> chunkClassSmaller sz \<le> CHI_CHUNK_MAX"
proof (rule ccontr)
  assume s: "CHI_CHUNK_MIN_SIZE \<le> sz" "sz \<le> CHI_CHUNK_MAX_SIZE" and "\<not> chunkClassSmaller sz \<le> CHI_CHUNK_MAX"
  then have "(2 :: nat) ^ 38 \<le> 2 ^ (chunkClassSmaller sz + 12)"
    by (intro power_increasing) (simp_all add: CHI_CHUNK_MAX_def CHI_CHUNK_MAX_SHIFT_def CHI_CHUNK_MIN_SHIFT_def)
  then show False using class_bounds(1) [of sz] s by (simp add: CHI_CHUNK_MAX_SIZE_def)
qed

section \<open>Invariant\<close>

text \<open>The chunks tile the arena from \<open>a\<close> to \<open>b\<close> in the order of the address list.\<close>

fun tiled :: "(nat \<Rightarrow> chunk) \<Rightarrow> nat \<Rightarrow> nat list \<Rightarrow> nat \<Rightarrow> bool" where
  "tiled ch a [] b \<longleftrightarrow> a = b"
| "tiled ch a (x # xs) b \<longleftrightarrow> cstart (ch x) = a \<and> 0 < csize (ch x) \<and> tiled ch (a + csize (ch x)) xs b"

lemma tiled_append: "tiled ch a (xs @ ys) b \<longleftrightarrow> (\<exists>m. tiled ch a xs m \<and> tiled ch m ys b)"
  by (induction xs arbitrary: a) auto

lemma tiled_cong:
  "(\<forall>x \<in> set xs. cstart (ch' x) = cstart (ch x) \<and> csize (ch' x) = csize (ch x)) \<Longrightarrow> tiled ch' a xs b = tiled ch a xs b"
  by (induction xs arbitrary: a) auto

lemma tiled_upd [simp]: "c \<notin> set xs \<Longrightarrow> tiled (ch(c := k)) a xs b = tiled ch a xs b"
  by (rule tiled_cong) auto

lemma tiled_mono: "tiled ch a xs b \<Longrightarrow> a \<le> b"
  by (induction xs arbitrary: a) fastforce+

definition handles_ok :: "virt_alloc \<Rightarrow> bool" where
  "handles_ok va \<longleftrightarrow> pool_ok (handlePool va) \<and> pobject (handlePool va) = sizeof_ChiChunk \<and>
     (\<forall>c \<in> set (addrList va). pool_outside (handlePool va) c) \<and>
     (\<forall>c \<in> set (addrList va). \<forall>d \<in> set (addrList va). c \<noteq> d \<longrightarrow> apart sizeof_ChiChunk c d)"

text \<open>Every free chunk, apart from those in \<open>limbo\<close>, is in the list of its size class.\<close>

definition sizes_ok :: "nat set \<Rightarrow> virt_alloc \<Rightarrow> bool" where
  "sizes_ok limbo va \<longleftrightarrow> (\<forall>i. distinct (sizeList va i) \<and>
     set (sizeList va i) = {c \<in> set (addrList va) - limbo. \<not> cused (chunks va c) \<and> chunkClassSmaller (csize (chunks va c)) = i})"

definition arena_ok :: "nat \<Rightarrow> nat \<Rightarrow> virt_alloc \<Rightarrow> bool" where
  "arena_ok lo hi va \<longleftrightarrow> tiled (chunks va) lo (addrList va) hi \<and> distinct (addrList va) \<and>
     CHI_CHUNK_MIN_SIZE dvd lo \<and> hi \<le> lo + CHI_CHUNK_MAX_SIZE \<and> hi < 2 ^ 62 \<and>
     (\<forall>c \<in> set (addrList va). CHI_CHUNK_MIN_SIZE dvd csize (chunks va c))"

definition va_wf :: "nat \<Rightarrow> nat \<Rightarrow> nat set \<Rightarrow> virt_alloc \<Rightarrow> bool" where
  "va_wf lo hi limbo va \<longleftrightarrow> arena_ok lo hi va \<and> sizes_ok limbo va \<and> handles_ok va"

abbreviation no_two_free :: "virt_alloc \<Rightarrow> nat list \<Rightarrow> bool" where
  "no_two_free va \<equiv> successively (\<lambda>x y. cused (chunks va x) \<or> cused (chunks va y))"

text \<open>The invariant of the allocator between two calls.\<close>

definition va_inv :: "nat \<Rightarrow> nat \<Rightarrow> virt_alloc \<Rightarrow> bool" where
  "va_inv lo hi va \<longleftrightarrow> va_wf lo hi {} va \<and> no_two_free va (addrList va)"

text \<open>What the clients see: the memory of the chunks in use.\<close>

definition live :: "virt_alloc \<Rightarrow> nat \<Rightarrow> (nat \<times> nat) option" where
  "live va c = (if c \<in> set (addrList va) \<and> cused (chunks va c) then Some (cstart (chunks va c), csize (chunks va c)) else None)"

lemma no_two_free_cong:
  "(\<forall>x \<in> set xs. cused (chunks va' x) = cused (chunks va x)) \<Longrightarrow> no_two_free va' xs = no_two_free va xs"
  by (intro successively_cong) auto

lemma upd_simps [simp]:
  "chunks (upd c f va) = (chunks va)(c := f (chunks va c))" "sizeList (upd c f va) = sizeList va"
  "addrList (upd c f va) = addrList va" "handlePool (upd c f va) = handlePool va"
  by (simp_all add: upd_def)

lemma unlink_simps [simp]:
  "chunks (unlink c va) = chunks va" "sizeList (unlink c va) = (\<lambda>i. remove1 c (sizeList va i))"
  "addrList (unlink c va) = addrList va" "handlePool (unlink c va) = handlePool va"
  by (simp_all add: unlink_def)

lemma coalesce_simps [simp]:
  "chunks (vaCoalesce c s va) = (chunks va)(c := (chunks va c)\<lparr>csize := csize (chunks va c) + csize (chunks va s)\<rparr>)"
  "sizeList (vaCoalesce c s va) = sizeList va" "addrList (vaCoalesce c s va) = remove1 s (addrList va)"
  "handlePool (vaCoalesce c s va) = chiPoolPut (handlePool va) s"
  by (simp_all add: vaCoalesce_def Let_def)

lemma list_free_simps [simp]:
  "chunks (vaListFree c va) = chunks va" "addrList (vaListFree c va) = addrList va" "handlePool (vaListFree c va) = handlePool va"
  by (simp_all add: vaListFree_def Let_def)

section \<open>Freeing\<close>

lemma mark_free_wf:
  assumes "va_wf lo hi {} va" "c \<in> set (addrList va)" "cused (chunks va c)"
  shows "va_wf lo hi {c} (upd c (\<lambda>k. k\<lparr>cused := False\<rparr>) va)"
proof -
  have "tiled (chunks (upd c (\<lambda>k. k\<lparr>cused := False\<rparr>) va)) lo (addrList va) hi = tiled (chunks va) lo (addrList va) hi"
    by (rule tiled_cong) simp
  then show ?thesis using assms by (auto simp: va_wf_def arena_ok_def sizes_ok_def handles_ok_def)
qed

lemma unlink_wf:
  assumes "va_wf lo hi L va"
  shows "va_wf lo hi (insert b L) (unlink b va)"
  using assms by (auto simp: va_wf_def arena_ok_def sizes_ok_def handles_ok_def set_remove1_eq)

lemma coalesce_wf:
  assumes wf: "va_wf lo hi L va" and al: "addrList va = ps @ b # c # qs" and bc: "b \<in> L" "c \<in> L"
  shows "va_wf lo hi (L - {c}) (vaCoalesce b c va)" "addrList (vaCoalesce b c va) = ps @ b # qs"
proof -
  let ?va = "vaCoalesce b c va"
  have d: "distinct (ps @ b # c # qs)" using wf al by (simp add: va_wf_def arena_ok_def)
  show al': "addrList ?va = ps @ b # qs" using d by (simp add: al remove1_append)
  have old: "tiled (chunks va) lo (ps @ b # c # qs) hi" using wf al by (simp add: va_wf_def arena_ok_def)
  have "tiled (chunks ?va) lo (ps @ b # qs) hi"
    using old d by (auto simp: tiled_append add.assoc)
  then have arena: "arena_ok lo hi ?va"
    using wf d al' by (auto simp: va_wf_def arena_ok_def al)
  have sizes: "sizes_ok (L - {c}) ?va"
    using wf bc d unfolding va_wf_def sizes_ok_def al' by (auto simp: al)
  have "handles_ok ?va"
  proof -
    have h: "pool_ok (handlePool va)" "pobject (handlePool va) = sizeof_ChiChunk" "pool_outside (handlePool va) c"
      "\<forall>x \<in> set (ps @ b # qs). pool_outside (handlePool va) x \<and> apart sizeof_ChiChunk x c"
      "\<forall>x \<in> set (ps @ b # qs). \<forall>y \<in> set (ps @ b # qs). x \<noteq> y \<longrightarrow> apart sizeof_ChiChunk x y"
      using wf d unfolding va_wf_def handles_ok_def al by auto
    have p: "pool_ok (chiPoolPut (handlePool va) c)" using pool.put_ok [OF h(1,3)] by blast
    have o: "\<forall>x \<in> set (ps @ b # qs). pool_outside (chiPoolPut (handlePool va) c) x"
      using h(2,4) by (auto intro!: pool_put_outside)
    show ?thesis unfolding handles_ok_def al' coalesce_simps(4) using p o h(2,5) pool_put_outside(2) by simp
  qed
  with arena sizes show "va_wf lo hi (L - {c}) ?va" by (simp add: va_wf_def)
qed

lemma list_free_wf:
  assumes "va_wf lo hi {c} va" "c \<in> set (addrList va)" "\<not> cused (chunks va c)"
  shows "va_wf lo hi {} (vaListFree c va)"
proof -
  let ?k = "chunkClassSmaller (csize (chunks va c))"
  have "distinct (sizeList (vaListFree c va) i) \<and> set (sizeList (vaListFree c va) i) =
      {x \<in> set (addrList va). \<not> cused (chunks va x) \<and> chunkClassSmaller (csize (chunks va x)) = i}" for i
  proof -
    have "distinct (sizeList va i) \<and> set (sizeList va i) =
      {x \<in> set (addrList va) - {c}. \<not> cused (chunks va x) \<and> chunkClassSmaller (csize (chunks va x)) = i}"
      using assms(1) by (simp add: va_wf_def sizes_ok_def)
    then show ?thesis using assms(2,3) by (auto simp: vaListFree_def Let_def)
  qed
  then show ?thesis using assms(1) by (simp add: va_wf_def arena_ok_def sizes_ok_def handles_ok_def)
qed

text \<open>What a step may change: only chunks that are not in use.\<close>

lemma merge_before:
  assumes wf: "va_wf lo hi {c} va" and al: "addrList va = ps @ c # qs" and c: "\<not> cused (chunks va c)"
    and ps: "no_two_free va ps"
  shows "\<exists>d va' ps'. vaMergeBefore c va = (d, va') \<and> va_wf lo hi {d} va' \<and> addrList va' = ps' @ d # qs \<and>
    \<not> cused (chunks va' d) \<and> no_two_free va' (ps' @ [d]) \<and> (\<forall>x. x \<noteq> d \<longrightarrow> chunks va' x = chunks va x) \<and> live va' = live va"
proof -
  have dist: "distinct (ps @ c # qs)" using wf al by (simp add: va_wf_def arena_ok_def)
  have pv: "list_prev (addrList va) c = (if ps = [] then None else Some (last ps))"
    using dist by (simp add: al list_view)
  show ?thesis
  proof (cases "ps = [] \<or> cused (chunks va (last ps))")
    case True
    then have "vaMergeBefore c va = (c, va)" by (auto simp: vaMergeBefore_def pv)
    moreover have "no_two_free va (ps @ [c])" using True ps by (auto simp: successively_append_iff)
    ultimately show ?thesis using wf al c by (intro exI [of _ c] exI [of _ va] exI [of _ ps]) simp
  next
    case False
    then obtain us b where b: "ps = us @ [b]" "\<not> cused (chunks va b)" by (cases ps rule: rev_cases) auto
    let ?va = "vaCoalesce b c (unlink b va)"
    have m: "vaMergeBefore c va = (b, ?va)" using b by (simp add: vaMergeBefore_def pv)
    have "va_wf lo hi {b, c} (unlink b va)" using unlink_wf [OF wf, of b] by simp
    then have w: "va_wf lo hi ({b, c} - {c}) ?va" "addrList ?va = us @ b # qs"
      using coalesce_wf [of lo hi "{b, c}" "unlink b va" us b c qs] al b(1) by simp_all
    have bc: "{b, c} - {c} = {b}" using dist b(1) by auto
    have fr: "\<forall>x. x \<noteq> b \<longrightarrow> chunks ?va x = chunks va x" by simp
    have "no_two_free ?va (us @ [b])"
      using ps b(1) dist by (auto simp: successively_append_iff successively_conv_sorted_wrt elim!: successively_mono)
    moreover have "live ?va = live va"
    proof
      show "live ?va x = live va x" for x
        using b c dist by (auto simp: live_def w(2) al)
    qed
    ultimately show ?thesis
      using w b(2) m fr unfolding bc by (intro exI [of _ b] exI [of _ ?va] exI [of _ us]) simp
  qed
qed

lemma merge_after:
  assumes wf: "va_wf lo hi {c} va" and al: "addrList va = ps @ c # qs" and c: "\<not> cused (chunks va c)"
    and ps: "no_two_free va (ps @ [c])" and qs: "no_two_free va qs"
  shows "\<exists>va' qs'. vaMergeAfter c va = va' \<and> va_wf lo hi {c} va' \<and> addrList va' = ps @ c # qs' \<and>
    \<not> cused (chunks va' c) \<and> no_two_free va' (addrList va') \<and> (\<forall>x. x \<noteq> c \<longrightarrow> chunks va' x = chunks va x) \<and> live va' = live va"
proof -
  have dist: "distinct (ps @ c # qs)" using wf al by (simp add: va_wf_def arena_ok_def)
  have nx: "list_next (addrList va) c = (case qs of [] \<Rightarrow> None | q # _ \<Rightarrow> Some q)"
    using dist by (simp add: al list_view)
  show ?thesis
  proof (cases "qs = [] \<or> cused (chunks va (hd qs))")
    case True
    then have "vaMergeAfter c va = va" by (cases qs) (auto simp: vaMergeAfter_def nx)
    moreover have "no_two_free va (ps @ c # qs)" using True ps qs by (cases qs) (auto simp: successively_append_iff)
    ultimately show ?thesis using wf al c by (intro exI [of _ va] exI [of _ qs]) simp
  next
    case False
    then obtain a rs where a: "qs = a # rs" "\<not> cused (chunks va a)" by (cases qs) auto
    let ?va = "vaCoalesce c a (unlink a va)"
    have m: "vaMergeAfter c va = ?va" using a by (simp add: vaMergeAfter_def nx)
    have "va_wf lo hi {c, a} (unlink a va)" using unlink_wf [OF wf, of a] by (simp add: insert_commute)
    then have w: "va_wf lo hi ({c, a} - {a}) ?va" "addrList ?va = ps @ c # rs"
      using coalesce_wf [of lo hi "{c, a}" "unlink a va" ps c a rs] al a(1) by simp_all
    have ca: "{c, a} - {a} = {c}" using dist a(1) by auto
    have "no_two_free va (ps @ c # rs)"
      using ps qs a by (cases rs) (auto simp: successively_append_iff)
    moreover have "cused (chunks ?va x) = cused (chunks va x)" for x by simp
    ultimately have "no_two_free ?va (ps @ c # rs)" by (simp only:)
    moreover have "live ?va = live va"
    proof
      show "live ?va x = live va x" for x
        using a c dist by (auto simp: live_def w(2) al)
    qed
    ultimately show ?thesis
      using w c m unfolding ca by (intro exI [of _ ?va] exI [of _ rs]) simp
  qed
qed

text \<open>Freeing a chunk in use: the invariant holds again, the chunk is not live any more, and the memory and
  handles of all other chunks in use stay.\<close>

lemma insert_free_ok:
  assumes inv: "va_inv lo hi va" and c: "c \<in> set (addrList va)" "cused (chunks va c)"
  shows "va_inv lo hi (vaInsertFree c va)" "live (vaInsertFree c va) = (live va)(c := None)"
    "set (addrList (vaInsertFree c va)) \<subseteq> set (addrList va)" "\<not> cused (chunks (vaInsertFree c va) c)"
proof -
  let ?v0 = "upd c (\<lambda>k. k\<lparr>cused := False\<rparr>) va"
  have wf: "va_wf lo hi {} va" and ntf: "no_two_free va (addrList va)" using inv by (simp_all add: va_inv_def)
  obtain ps qs where al: "addrList va = ps @ c # qs" using c(1) by (meson split_list)
  have dist: "distinct (ps @ c # qs)" using wf al by (simp add: va_wf_def arena_ok_def)
  have sub: "no_two_free ?v0 ps" "no_two_free ?v0 qs"
  proof -
    have "no_two_free va ps" "no_two_free va qs"
      using ntf by (auto simp: al successively_append_iff successively_Cons)
    then show "no_two_free ?v0 ps" "no_two_free ?v0 qs"
      using dist by (auto elim!: successively_mono)
  qed
  have l0: "live ?v0 = (live va)(c := None)" by (auto simp: live_def)
  obtain d v1 ps' where v1: "vaMergeBefore c ?v0 = (d, v1)" "va_wf lo hi {d} v1" "addrList v1 = ps' @ d # qs"
    "\<not> cused (chunks v1 d)" "no_two_free v1 (ps' @ [d])" "\<forall>x. x \<noteq> d \<longrightarrow> chunks v1 x = chunks ?v0 x" "live v1 = live ?v0"
    using merge_before [of lo hi c ?v0 ps qs, OF mark_free_wf [OF wf c]] al sub by auto
  have "no_two_free v1 qs"
  proof -
    have "d \<notin> set qs" using v1(2,3) by (simp add: va_wf_def arena_ok_def)
    then show ?thesis using sub(2) v1(6) by (auto elim!: successively_mono)
  qed
  then obtain v2 qs' where v2: "vaMergeAfter d v1 = v2" "va_wf lo hi {d} v2" "addrList v2 = ps' @ d # qs'"
    "\<not> cused (chunks v2 d)" "no_two_free v2 (addrList v2)" "\<forall>x. x \<noteq> d \<longrightarrow> chunks v2 x = chunks v1 x" "live v2 = live v1"
    using merge_after [of lo hi d v1 ps' qs] v1 by auto
  have r: "vaInsertFree c va = vaListFree d v2" by (simp add: vaInsertFree_def Let_def v1(1) v2(1))
  have w: "va_wf lo hi {} (vaListFree d v2)" by (rule list_free_wf [OF v2(2)]) (use v2 in auto)
  show "va_inv lo hi (vaInsertFree c va)" using w v2(5) by (simp add: r va_inv_def)
  have "live (vaListFree d v2) = live v2" by (simp add: live_def fun_eq_iff)
  then show "live (vaInsertFree c va) = (live va)(c := None)" using v1(7) v2(7) l0 by (simp add: r)
  show "\<not> cused (chunks (vaInsertFree c va) c)" 
  proof -
    have "chunks (vaInsertFree c va) = chunks v2" by (simp add: r)
    then show ?thesis using v1(6) v2(4,6) by (cases "c = d") simp_all
  qed
  have m1: "set (addrList (vaCoalesce x y (unlink z v))) \<subseteq> set (addrList v)" for x y z v by (simp add: set_remove1_subset)
  have "set (addrList v2) \<subseteq> set (addrList v1)"
    using m1 unfolding v2(1) [symmetric] vaMergeAfter_def by (auto split: option.splits if_splits)
  moreover have "set (addrList v1) \<subseteq> set (addrList va)"
    using m1 [of _ _ _ ?v0] v1(1) unfolding vaMergeBefore_def by (fastforce split: option.splits if_splits)
  ultimately show "set (addrList (vaInsertFree c va)) \<subseteq> set (addrList va)" by (auto simp: r)
qed

section \<open>Alignment\<close>

lemma unat_push: "unat (push_bit k w) = unat w * 2 ^ k mod 2 ^ 64" for w :: u64
  unfolding unsigned_push_bit_eq by (simp add: take_bit_eq_mod push_bit_eq_mult)

lemma alignup_ceil:
  assumes "i + 2 ^ k < 2 ^ 63"
  shows "unat (CHI_ALIGNUP (of_nat i) (of_nat (2 ^ k))) = CHI_CEIL i (2 ^ k)"
proof -
  let ?x = "of_nat (i + 2 ^ k - 1) :: u64"
  have k: "k < 63" using assms power_less_imp_less_exp [of "2 :: nat" k 63] by simp
  have "(of_nat i + of_nat (2 ^ k) - 1 :: u64) = of_nat (i + 2 ^ k - 1)" 
  proof -
    have "1 \<le> i + 2 ^ k" by (simp add: Suc_leI)
    then have "of_nat (i + 2 ^ k - 1) = (of_nat (i + 2 ^ k) - of_nat 1 :: u64)" by (rule of_nat_diff)
    then show ?thesis by simp
  qed
  moreover have "NOT (of_nat (2 ^ k) - 1 :: u64) = NOT (mask k)" by (simp add: mask_eq_exp_minus_1)
  ultimately have "CHI_ALIGNUP (of_nat i) (of_nat (2 ^ k)) = ?x AND NOT (mask k)"
    by (simp only: CHI_ALIGNUP_def CHI_ALIGNMASK_def)
  also have "\<dots> = push_bit k (drop_bit k ?x)"
    by (rule bit_eqI) (auto simp: bit_and_iff bit_not_iff bit_mask_iff bit_push_bit_iff bit_drop_bit_eq)
  finally have e: "CHI_ALIGNUP (of_nat i) (of_nat (2 ^ k)) = push_bit k (drop_bit k ?x)" .
  have ux: "unat ?x = i + 2 ^ k - 1" using assms by (simp add: unat_of_nat take_bit_nat_eq_self)
  have "unat (push_bit k (drop_bit k ?x)) = (unat ?x div 2 ^ k) * 2 ^ k mod 2 ^ 64"
    using unat_push [of k "drop_bit k ?x"] unfolding unat_drop_bit by (simp only: drop_bit_eq_div)
  also have "(unat ?x div 2 ^ k) * 2 ^ k \<le> unat ?x" by (rule div_times_less_eq_dividend)
  then have "(unat ?x div 2 ^ k) * 2 ^ k mod 2 ^ 64 = (unat ?x div 2 ^ k) * 2 ^ k"
  proof (intro mod_less)
    have "(2 :: nat) ^ 63 < 2 ^ 64" by simp
    then show "unat ?x div 2 ^ k * 2 ^ k < 2 ^ 64"
      using assms ux div_times_less_eq_dividend [of "unat ?x" "2 ^ k"] by linarith
  qed
  finally show ?thesis unfolding e ux CHI_CEIL_def CHI_DIV_CEIL_def .
qed

lemma aligned_dvd: "chunkAligned i (2 ^ k) \<longleftrightarrow> 2 ^ k dvd i"
proof -
  have "i AND (2 ^ k - 1) = take_bit k i" by (simp add: take_bit_eq_mask mask_eq_exp_minus_1)
  then show ?thesis by (simp add: chunkAligned_def take_bit_eq_mod mod_eq_0_iff_dvd)
qed

text \<open>A valid alignment is zero or a power of two of at least a page.\<close>

lemma align_cases:
  assumes "chunkAlignValid al"
  shows "al = 0 \<or> (\<exists>k. al = 2 ^ k \<and> 12 \<le> k \<and> k \<le> 37)"
proof (cases "al = 0")
  case False
  then have v: "chiIsPow2 (of_nat al)" "CHI_CHUNK_MIN_SIZE \<le> al" "al \<le> CHI_CHUNK_MAX_SIZE"
    using assms by (simp_all add: chunkAlignValid_def)
  then have "unat (of_nat al :: u64) = al" by (simp add: unat_of_nat take_bit_nat_eq_self CHI_CHUNK_MAX_SIZE_def)
  then obtain k where k: "al = 2 ^ k" using v(1) chiIsPow2_iff by metis
  moreover have "12 \<le> k" "k \<le> 37"
    using v(2,3) k power_increasing_iff [of "2 :: nat" 12 k] power_increasing_iff [of "2 :: nat" k 37]
    by (simp_all add: CHI_CHUNK_MIN_SIZE_def CHI_CHUNK_MAX_SIZE_def)
  ultimately show ?thesis by blast
qed simp

lemma tiled_dvd:
  "tiled ch a xs b \<Longrightarrow> d dvd a \<Longrightarrow> \<forall>x \<in> set xs. d dvd csize (ch x) \<Longrightarrow> \<forall>x \<in> set xs. d dvd cstart (ch x)"
  by (induction xs arbitrary: a) auto

lemma tiled_within:
  "tiled ch a xs b \<Longrightarrow> x \<in> set xs \<Longrightarrow> a \<le> cstart (ch x) \<and> cstart (ch x) + csize (ch x) \<le> b \<and> 0 < csize (ch x)"
proof (induction xs arbitrary: a)
  case (Cons y ys)
  show ?case
  proof (cases "x = y")
    case True
    then show ?thesis using Cons.prems(1) tiled_mono by fastforce
  next
    case False
    then show ?thesis using Cons.IH [of "a + csize (ch y)"] Cons.prems by auto
  qed
qed simp

lemma tiled_disjoint:
  assumes "tiled ch a xs b" "distinct xs" "x \<in> set xs" "y \<in> set xs" "x \<noteq> y"
  shows "cstart (ch x) + csize (ch x) \<le> cstart (ch y) \<or> cstart (ch y) + csize (ch y) \<le> cstart (ch x)"
  using assms
proof (induction xs arbitrary: a)
  case (Cons z zs)
  then have z: "cstart (ch z) = a" "tiled ch (a + csize (ch z)) zs b" by simp_all
  then show ?case
    using Cons tiled_within [OF z(2), of x] tiled_within [OF z(2), of y] by (cases "x = z"; cases "y = z") auto
qed simp

section \<open>Handles and splitting\<close>

lemma get_handle:
  assumes h: "handles_ok va" "pool_set (handlePool va) \<noteq> {}" and g: "vaGetHandle start sz va = (c, va')"
  shows "c \<notin> set (addrList va)" "addrList va' = addrList va" "sizeList va' = sizeList va"
    "chunks va' = (chunks va)(c := \<lparr>cstart = start, csize = sz, cused = False, ctimeout = 0\<rparr>)"
    "card (pool_set (handlePool va)) = Suc (card (pool_set (handlePool va')))"
    "pool_ok (handlePool va')" "pobject (handlePool va') = sizeof_ChiChunk"
    "\<forall>x \<in> insert c (set (addrList va)). pool_outside (handlePool va') x"
    "\<forall>x \<in> set (addrList va). apart sizeof_ChiChunk x c"
proof -
  let ?p = "handlePool va"
  have ok: "pool_ok ?p" "pobject ?p = sizeof_ChiChunk" "\<forall>x \<in> set (addrList va). pool_outside ?p x"
    using h(1) by (simp_all add: handles_ok_def)
  have c: "c = fst (chiPoolGet ?p)" "handlePool va' = snd (chiPoolGet ?p)"
    using g by (auto simp: vaGetHandle_def chunkInit_def split: prod.splits)
  note G = pool.get_ok [OF ok(1) h(2)]
  show "addrList va' = addrList va" "sizeList va' = sizeList va"
    "chunks va' = (chunks va)(c := \<lparr>cstart = start, csize = sz, cused = False, ctimeout = 0\<rparr>)"
    using g by (auto simp: vaGetHandle_def chunkInit_def split: prod.splits)
  show "pool_ok (handlePool va')" "pobject (handlePool va') = sizeof_ChiChunk"
    using G pool_get_outside(3) [OF ok(1) h(2)] ok(2) by (simp_all add: c)
  show "\<forall>x \<in> insert c (set (addrList va)). pool_outside (handlePool va') x"
    using pool_get_outside(1,2) [OF ok(1) h(2)] ok(3) by (auto simp: c)
  show "\<forall>x \<in> set (addrList va). apart sizeof_ChiChunk x c"
    using outside_apart [OF ok(1)] G ok(2,3) by (auto simp: c(1))
  show "c \<notin> set (addrList va)" using G ok outside_notin by (auto simp: c(1))
  have "0 < card (pool_set ?p)" using h(2) by (simp add: card_gt_0_iff)
  then show "card (pool_set ?p) = Suc (card (pool_set (handlePool va')))"
    using G by (simp add: c card_Diff_singleton)
qed

text \<open>Splitting a used chunk: the part that is cut off becomes a used chunk of its own.\<close>

lemma split_sizes_ok:
  assumes "sizes_ok {} va" "cused (chunks va c)" "a \<notin> set (addrList va)"
    and "set (addrList va') = insert a (set (addrList va))" "sizeList va' = sizeList va"
    and "\<forall>x. x \<noteq> a \<longrightarrow> x \<noteq> c \<longrightarrow> chunks va' x = chunks va x" "cused (chunks va' c)" "cused (chunks va' a)"
  shows "sizes_ok {} va'"
proof -
  have "{x \<in> set (addrList va'). \<not> cused (chunks va' x) \<and> chunkClassSmaller (csize (chunks va' x)) = i} =
      {x \<in> set (addrList va). \<not> cused (chunks va x) \<and> chunkClassSmaller (csize (chunks va x)) = i}" for i
  proof (rule Collect_cong)
    show "(x \<in> set (addrList va') \<and> \<not> cused (chunks va' x) \<and> chunkClassSmaller (csize (chunks va' x)) = i) \<longleftrightarrow>
        (x \<in> set (addrList va) \<and> \<not> cused (chunks va x) \<and> chunkClassSmaller (csize (chunks va x)) = i)" for x
      using assms by (cases "x = a"; cases "x = c") simp_all
  qed
  then show ?thesis using assms(1,5) by (simp add: sizes_ok_def)
qed

lemma split_handles_ok:
  assumes h: "handles_ok va" "pool_set (handlePool va) \<noteq> {}" and g: "vaGetHandle start sz va = (a, w)"
    and va': "handlePool va' = handlePool w" "set (addrList va') = insert a (set (addrList va))"
  shows "handles_ok va'"
  using h(1) get_handle(6-9) [OF h g] apart_sym unfolding handles_ok_def va' by auto

lemma split_end_ok:
  assumes wf: "va_wf lo hi {} va" and ntf: "no_two_free va (addrList va)" and c: "c \<in> set (addrList va)" "cused (chunks va c)"
    and sz: "0 < sz" "sz \<le> csize (chunks va c)" "CHI_CHUNK_MIN_SIZE dvd sz" and hp: "pool_set (handlePool va) \<noteq> {}"
    and r: "vaSplitEnd c sz va = (after, va')"
  shows "va_wf lo hi {} va'" "no_two_free va' (addrList va')" "c \<in> set (addrList va')" "cused (chunks va' c)"
    "csize (chunks va' c) = sz" "cstart (chunks va' c) = cstart (chunks va c)"
    "case after of None \<Rightarrow> live va' = live va | Some a \<Rightarrow> a \<notin> set (addrList va) \<and> a \<in> set (addrList va') \<and> cused (chunks va' a) \<and>
       (live va')(a := None) = (live va)(c \<mapsto> (cstart (chunks va c), sz))"
    "\<forall>x \<in> set (addrList va). x \<in> set (addrList va') \<and> (x \<noteq> c \<longrightarrow> chunks va' x = chunks va x)"
proof -
  have concl: "va_wf lo hi {} va' \<and> no_two_free va' (addrList va') \<and> c \<in> set (addrList va') \<and> cused (chunks va' c) \<and>
    csize (chunks va' c) = sz \<and> cstart (chunks va' c) = cstart (chunks va c) \<and>
    (case after of None \<Rightarrow> live va' = live va | Some a \<Rightarrow> a \<notin> set (addrList va) \<and> a \<in> set (addrList va') \<and> cused (chunks va' a) \<and>
       (live va')(a := None) = (live va)(c \<mapsto> (cstart (chunks va c), sz))) \<and>
    (\<forall>x \<in> set (addrList va). x \<in> set (addrList va') \<and> (x \<noteq> c \<longrightarrow> chunks va' x = chunks va x))"
  proof (cases "csize (chunks va c) = sz")
    case True
    then show ?thesis using r wf ntf c by (simp add: vaSplitEnd_def)
  next
    case False
    obtain ps qs where al: "addrList va = ps @ c # qs" using c(1) by (meson split_list)
    obtain a w where g: "vaGetHandle (cstart (chunks va c) + sz) (csize (chunks va c) - sz) va = (a, w)" by fastforce
    have h: "handles_ok va" using wf by (simp add: va_wf_def)
    note G = get_handle [OF h hp g]
    have ac: "a \<noteq> c" using G(1) c(1) by auto
    have dist: "distinct (ps @ c # qs)" using wf al by (simp add: va_wf_def arena_ok_def)
    define rest where "rest = csize (chunks va c) - sz"
    have ch: "chunks va' = (chunks va)(a := \<lparr>cstart = cstart (chunks va c) + sz, csize = rest, cused = True, ctimeout = 0\<rparr>,
        c := (chunks va c)\<lparr>csize := sz\<rparr>)"
      and al': "addrList va' = ps @ c # a # qs" and sl: "sizeList va' = sizeList va" and hp': "handlePool va' = handlePool w"
      and af: "after = Some a"
    proof -
      have cw: "chunks w c = chunks va c" "csize (chunks w a) = rest" using ac by (simp_all add: G(4) rest_def)
      have e: "after = Some a" "va' = upd a (\<lambda>k. k\<lparr>cused := True\<rparr>) (upd c (\<lambda>k. k\<lparr>csize := csize k - rest\<rparr>) w)
          \<lparr>addrList := list_insert_after c a (addrList w)\<rparr>"
        using r False by (simp_all add: vaSplitEnd_def Let_def g cw)
      have "csize (chunks va c) - rest = sz" using sz(2) by (simp add: rest_def)
      then show "chunks va' = (chunks va)(a := \<lparr>cstart = cstart (chunks va c) + sz, csize = rest, cused = True, ctimeout = 0\<rparr>,
          c := (chunks va c)\<lparr>csize := sz\<rparr>)"
        using ac by (simp add: e(2) cw G(4) rest_def fun_upd_twist)
      show "addrList va' = ps @ c # a # qs" using dist by (simp add: e(2) G(2) al list_view)
      show "sizeList va' = sizeList va" "handlePool va' = handlePool w" "after = Some a" by (simp_all add: e G(3))
    qed
    have rest: "0 < rest" "sz + rest = csize (chunks va c)" using sz(2) False by (simp_all add: rest_def)
    have aq: "a \<notin> set ps" "a \<notin> set qs" using G(1) al by simp_all
    have arena: "arena_ok lo hi va'"
    proof -
      have "tiled (chunks va) lo (ps @ c # qs) hi" "\<forall>x \<in> set (addrList va). CHI_CHUNK_MIN_SIZE dvd csize (chunks va x)"
        using wf al by (simp_all add: va_wf_def arena_ok_def)
      then have "tiled (chunks va') lo (ps @ c # a # qs) hi"
        using dist aq ac rest sz(1) by (auto simp: ch tiled_append add.assoc)
      moreover have "CHI_CHUNK_MIN_SIZE dvd rest"
        using wf c(1) sz(3) unfolding rest_def va_wf_def arena_ok_def by (intro dvd_diff_nat) auto
      ultimately show ?thesis
        using wf dist aq ac sz(3) by (auto simp: va_wf_def arena_ok_def ch al al')
    qed
    have sizes: "sizes_ok {} va'"
      by (rule split_sizes_ok [of va c a]) (use wf c G(1) al al' sl ch ac in \<open>auto simp: va_wf_def\<close>)
    have handles: "handles_ok va'"
      by (rule split_handles_ok [OF h hp g hp']) (simp add: al al' insert_commute)
    have used: "cused (chunks va' x) = cused (chunks va x)" if "x \<noteq> a" for x using that c(2) by (auto simp: ch)
    have "no_two_free va' (ps @ c # a # qs)"
    proof -
      have n: "no_two_free va' (ps @ c # qs)"
      proof -
        have "cused (chunks va' x) = cused (chunks va x)" if "x \<in> set (ps @ c # qs)" for x
          by (rule used) (use that aq ac in auto)
        then show ?thesis using ntf no_two_free_cong [of "ps @ c # qs" va' va] al by simp
      qed
      have u: "cused (chunks va' c)" "cused (chunks va' a)" using c(2) ac by (simp_all add: ch)
      show ?thesis using n u by (cases qs) (auto simp: successively_append_iff)
    qed
    moreover have "(live va')(a := None) = (live va)(c \<mapsto> (cstart (chunks va c), sz))"
    proof
      show "((live va')(a := None)) x = ((live va)(c \<mapsto> (cstart (chunks va c), sz))) x" for x
        using c(2) ac G(1) by (auto simp: live_def ch al al')
    qed
    ultimately show ?thesis
      using arena sizes handles c ac G(1) al al' by (auto simp: va_wf_def af ch)
  qed
  then show "va_wf lo hi {} va'" "no_two_free va' (addrList va')" "c \<in> set (addrList va')" "cused (chunks va' c)"
    "csize (chunks va' c) = sz" "cstart (chunks va' c) = cstart (chunks va c)"
    "case after of None \<Rightarrow> live va' = live va | Some a \<Rightarrow> a \<notin> set (addrList va) \<and> a \<in> set (addrList va') \<and> cused (chunks va' a) \<and>
       (live va')(a := None) = (live va)(c \<mapsto> (cstart (chunks va c), sz))"
    "\<forall>x \<in> set (addrList va). x \<in> set (addrList va') \<and> (x \<noteq> c \<longrightarrow> chunks va' x = chunks va x)"
    by blast+
qed

lemma split_begin_ok:
  assumes wf: "va_wf lo hi {} va" and ntf: "no_two_free va (addrList va)" and c: "c \<in> set (addrList va)" "cused (chunks va c)"
    and al: "chunkAlignValid al" and big: "al < csize (chunks va c)" and hp: "pool_set (handlePool va) \<noteq> {}"
    and r: "vaSplitBegin c al va = (before, va')"
  shows "va_wf lo hi {} va' \<and> no_two_free va' (addrList va') \<and> c \<in> set (addrList va') \<and> cused (chunks va' c) \<and>
    chunkAligned (cstart (chunks va' c)) al \<and> csize (chunks va c) - al \<le> csize (chunks va' c) \<and>
    card (pool_set (handlePool va)) \<le> Suc (card (pool_set (handlePool va'))) \<and>
    (case before of None \<Rightarrow> live va' = live va | Some a \<Rightarrow> a \<notin> set (addrList va) \<and> a \<in> set (addrList va') \<and> cused (chunks va' a) \<and>
       (live va')(a := None) = (live va)(c \<mapsto> (cstart (chunks va' c), csize (chunks va' c)))) \<and>
    (\<forall>x \<in> set (addrList va). x \<in> set (addrList va') \<and> (x \<noteq> c \<longrightarrow> chunks va' x = chunks va x))"
proof (cases "chunkAligned (cstart (chunks va c)) al")
  case True
  then show ?thesis using r wf ntf c by (simp add: vaSplitBegin_def)
next
  case False
  let ?old = "cstart (chunks va c)" and ?n = "csize (chunks va c)"
  have "al \<noteq> 0" using False by (metis chunkAligned_def)
  then obtain k where k: "al = 2 ^ k" "12 \<le> k" using align_cases [OF al] by blast
  have arena: "tiled (chunks va) lo (addrList va) hi" "CHI_CHUNK_MIN_SIZE dvd lo" "hi < 2 ^ 62"
    "\<forall>x \<in> set (addrList va). CHI_CHUNK_MIN_SIZE dvd csize (chunks va x)"
    using wf by (simp_all add: va_wf_def arena_ok_def)
  have within: "?old + ?n \<le> hi" using tiled_within [OF arena(1) c(1)] by simp
  have page: "CHI_CHUNK_MIN_SIZE dvd ?old" "CHI_CHUNK_MIN_SIZE dvd al"
    using tiled_dvd [OF arena(1,2,4)] c(1) k le_imp_power_dvd [OF k(2), of "2 :: nat"] by (simp_all add: CHI_CHUNK_MIN_SIZE_def)
  define new where "new = CHI_CEIL ?old al"
  have "?old + 2 ^ k < 2 ^ 63" using within big arena(3) k(1) by simp
  then have nw: "unat (CHI_ALIGNUP (of_nat ?old) (of_nat al)) = new" using alignup_ceil k(1) by (simp add: new_def)
  have b: "?old \<le> new" "new < ?old + al" "al dvd new" using CHI_CEIL_bounds [of al ?old] k(1) by (simp_all add: new_def)
  have "?old \<noteq> new" using False b(3) k(1) by (auto simp: aligned_dvd)
  define cut where "cut = new - ?old"
  have cut: "0 < cut" "cut < al" "?old + cut = new" "CHI_CHUNK_MIN_SIZE dvd cut"
    using b \<open>?old \<noteq> new\<close> page unfolding cut_def by (auto intro!: dvd_diff_nat dvd_trans [OF _ b(3)])
  obtain ps qs where ad: "addrList va = ps @ c # qs" using c(1) by (meson split_list)
  have dist: "distinct (ps @ c # qs)" using wf ad by (simp add: va_wf_def arena_ok_def)
  obtain a w where g: "vaGetHandle ?old cut va = (a, w)" by fastforce
  have h: "handles_ok va" using wf by (simp add: va_wf_def)
  note G = get_handle [OF h hp g]
  have ac: "a \<noteq> c" using G(1) c(1) by auto
  have aq: "a \<notin> set ps" "a \<notin> set qs" using G(1) ad by simp_all
  have ch: "chunks va' = (chunks va)(a := \<lparr>cstart = ?old, csize = cut, cused = True, ctimeout = 0\<rparr>,
      c := (chunks va c)\<lparr>cstart := new, csize := ?n - cut\<rparr>)"
    and ad': "addrList va' = ps @ a # c # qs" and sl: "sizeList va' = sizeList va" and hp': "handlePool va' = handlePool w"
    and bf: "before = Some a"
  proof -
    have cw: "chunks w c = chunks va c" "csize (chunks w a) = cut" using ac by (simp_all add: G(4))
    have e: "before = Some a" "va' = upd a (\<lambda>k. k\<lparr>cused := True\<rparr>) (upd c (\<lambda>k. k\<lparr>cstart := new, csize := csize k - cut\<rparr>) w)
        \<lparr>addrList := list_insert_before c a (addrList w)\<rparr>"
      using r False by (simp_all add: vaSplitBegin_def Let_def nw cut_def [symmetric] g cw)
    show "chunks va' = (chunks va)(a := \<lparr>cstart = ?old, csize = cut, cused = True, ctimeout = 0\<rparr>,
        c := (chunks va c)\<lparr>cstart := new, csize := ?n - cut\<rparr>)"
      using ac by (simp add: e(2) cw G(4) fun_upd_twist)
    show "addrList va' = ps @ a # c # qs" using dist by (simp add: e(2) G(2) ad list_view)
    show "sizeList va' = sizeList va" "handlePool va' = handlePool w" "before = Some a" by (simp_all add: e G(3))
  qed
  have arena': "arena_ok lo hi va'"
  proof -
    have "tiled (chunks va') lo (ps @ a # c # qs) hi"
      using arena(1) dist aq ac cut big by (auto simp: ch ad tiled_append)
    moreover have "CHI_CHUNK_MIN_SIZE dvd ?n - cut" using arena(4) c(1) cut(4) by (intro dvd_diff_nat) auto
    ultimately show ?thesis using wf dist aq ac cut(4) by (auto simp: va_wf_def arena_ok_def ch ad ad')
  qed
  have sizes: "sizes_ok {} va'"
    by (rule split_sizes_ok [of va c a]) (use wf c G(1) ad ad' sl ch ac in \<open>auto simp: va_wf_def\<close>)
  have handles: "handles_ok va'"
    by (rule split_handles_ok [OF h hp g hp']) (simp add: ad ad')
  have "no_two_free va' (ps @ a # c # qs)"
  proof -
    have used: "cused (chunks va' x) = cused (chunks va x)" if "x \<noteq> a" for x using that c(2) by (auto simp: ch)
    have "cused (chunks va' x) = cused (chunks va x)" if "x \<in> set (ps @ c # qs)" for x
      by (rule used) (use that aq ac in auto)
    then have n: "no_two_free va' (ps @ c # qs)" using ntf no_two_free_cong [of "ps @ c # qs" va' va] ad by simp
    have u: "cused (chunks va' c)" "cused (chunks va' a)" using c(2) ac by (simp_all add: ch)
    show ?thesis using n u by (auto simp: successively_append_iff)
  qed
  moreover have "(live va')(a := None) = (live va)(c \<mapsto> (cstart (chunks va' c), csize (chunks va' c)))"
  proof
    show "((live va')(a := None)) x = ((live va)(c \<mapsto> (cstart (chunks va' c), csize (chunks va' c)))) x" for x
      using c(2) ac G(1) by (auto simp: live_def ch ad ad')
  qed
  moreover have "chunkAligned new al" using b(3) k(1) by (simp add: aligned_dvd)
  ultimately show ?thesis
    using arena' sizes handles c ac G(1,5) ad ad' hp' cut(2) by (auto simp: va_wf_def bf ch)
qed

section \<open>Finding\<close>

lemma find_class_ok:
  assumes "k \<le> Suc CHI_CHUNK_MAX"
  shows "k \<le> find_class l k \<and> find_class l k \<le> Suc CHI_CHUNK_MAX \<and> (find_class l k \<le> CHI_CHUNK_MAX \<longrightarrow> l (find_class l k) \<noteq> []) \<and>
    (\<forall>i. k \<le> i \<longrightarrow> i < find_class l k \<longrightarrow> l i = [])"
  using assms
proof (induction l k rule: find_class.induct)
  case (1 l k)
  show ?case
  proof (cases "k \<le> CHI_CHUNK_MAX \<and> l k = []")
    case True
    then have e: "find_class l k = find_class l (k + 1)" by (subst find_class.simps) simp
    have "i = k \<or> k + 1 \<le> i" if "k \<le> i" for i using that by linarith
    moreover have "l k = []" using True by blast
    moreover have "k + 1 \<le> Suc CHI_CHUNK_MAX" using True by simp
    ultimately show ?thesis using 1(1) [OF True] unfolding e by (metis Suc_eq_plus1 Suc_leD)
  next
    case False
    then have e: "find_class l k = k" using find_class.simps [of l k] by (simp only: if_False)
    have "k \<le> CHI_CHUNK_MAX \<longrightarrow> l k \<noteq> []" using False by blast
    then show ?thesis using 1(2) unfolding e by (metis le_refl not_le)
  qed
qed

lemma class_larger_max:
  assumes "CHI_CHUNK_MIN_SIZE \<le> sz" "sz \<le> 2 * CHI_CHUNK_MAX_SIZE"
  shows "chunkClassLarger sz \<le> Suc CHI_CHUNK_MAX"
proof -
  have lt: "sz < 2 ^ 64" using assms(2) by (simp add: CHI_CHUNK_MAX_SIZE_def)
  have m: "CHI_CHUNK_MAX = 25" by (simp add: CHI_CHUNK_MAX_def CHI_CHUNK_MAX_SHIFT_def CHI_CHUNK_MIN_SHIFT_def)
  show ?thesis
  proof (rule ccontr)
    assume n: "\<not> chunkClassLarger sz \<le> Suc CHI_CHUNK_MAX"
    then have "26 \<le> chunkClassSmaller sz" by (auto simp: chunkClassLarger_def Let_def m split: if_splits)
    then have "(2 :: nat) ^ 38 \<le> 2 ^ (chunkClassSmaller sz + 12)" by (intro power_increasing) simp_all
    then have "sz = 2 ^ 38" "chunkClassSmaller sz = 26"
      using class_bounds(1) [OF assms(1) lt] assms(2) power_inject_exp [of "2 :: nat" "chunkClassSmaller sz + 12" 38]
      by (simp_all add: CHI_CHUNK_MAX_SIZE_def)
    then show False using n by (simp add: chunkClassLarger_def Let_def m CHI_CHUNK_MIN_SHIFT_def)
  qed
qed

lemma find_size_ok:
  assumes inv: "va_inv lo hi va" and sz: "CHI_CHUNK_MIN_SIZE \<le> sz" "sz \<le> 2 * CHI_CHUNK_MAX_SIZE"
    and r: "vaFindSize sz va = (res, va')"
  shows "case res of None \<Rightarrow> va' = va \<and> (\<forall>x \<in> set (addrList va). \<not> cused (chunks va x) \<longrightarrow> chunkClassSmaller (csize (chunks va x)) < chunkClassLarger sz)
    | Some c \<Rightarrow> va_wf lo hi {} va' \<and> no_two_free va' (addrList va') \<and> c \<in> set (addrList va') \<and> addrList va' = addrList va \<and>
        cused (chunks va' c) \<and> \<not> cused (chunks va c) \<and> sz \<le> csize (chunks va' c) \<and> handlePool va' = handlePool va \<and>
        live va' = (live va)(c \<mapsto> (cstart (chunks va' c), csize (chunks va' c))) \<and> (\<forall>x. x \<noteq> c \<longrightarrow> chunks va' x = chunks va x)"
proof -
  let ?k = "find_class (sizeList va) (chunkClassLarger sz)"
  note F = find_class_ok [OF class_larger_max [OF sz], of "sizeList va"]
  have wf: "va_wf lo hi {} va" and ntf: "no_two_free va (addrList va)" using inv by (simp_all add: va_inv_def)
  have lists: "distinct (sizeList va i)"
    "set (sizeList va i) = {c \<in> set (addrList va). \<not> cused (chunks va c) \<and> chunkClassSmaller (csize (chunks va c)) = i}" for i
    using wf by (simp_all add: va_wf_def sizes_ok_def)
  have sized: "CHI_CHUNK_MIN_SIZE \<le> csize (chunks va x) \<and> csize (chunks va x) < 2 ^ 64 \<and> chunkClassSmaller (csize (chunks va x)) \<le> CHI_CHUNK_MAX"
    if x: "x \<in> set (addrList va)" for x
  proof -
    have a: "tiled (chunks va) lo (addrList va) hi" "hi \<le> lo + CHI_CHUNK_MAX_SIZE" "CHI_CHUNK_MIN_SIZE dvd csize (chunks va x)"
      using wf x by (simp_all add: va_wf_def arena_ok_def)
    have "lo \<le> cstart (chunks va x)" "cstart (chunks va x) + csize (chunks va x) \<le> hi" "0 < csize (chunks va x)"
      using tiled_within [OF a(1) x] by simp_all
    then have "csize (chunks va x) \<le> CHI_CHUNK_MAX_SIZE" using a(2) by linarith
    moreover have "CHI_CHUNK_MIN_SIZE \<le> csize (chunks va x)" using a(3) \<open>0 < csize (chunks va x)\<close> by (rule dvd_imp_le)
    ultimately show ?thesis using class_max by (simp add: CHI_CHUNK_MAX_SIZE_def)
  qed
  show ?thesis
  proof (cases "?k = CHI_CHUNK_MAX + 1")
    case True
    have "chunkClassSmaller (csize (chunks va x)) < chunkClassLarger sz"
      if x: "x \<in> set (addrList va)" "\<not> cused (chunks va x)" for x
    proof (rule ccontr)
      assume "\<not> chunkClassSmaller (csize (chunks va x)) < chunkClassLarger sz"
      then have "sizeList va (chunkClassSmaller (csize (chunks va x))) = []" using F True sized [OF x(1)] by simp
      then show False using lists(2) [of "chunkClassSmaller (csize (chunks va x))"] x by auto
    qed
    then show ?thesis using r True by (auto simp: vaFindSize_def Let_def)
  next
    case False
    then have "?k \<le> CHI_CHUNK_MAX" using F by simp
    then have ne: "sizeList va ?k \<noteq> []" using F by simp
    define c where "c = hd (sizeList va ?k)"
    obtain cs where cs: "sizeList va ?k = c # cs" using ne unfolding c_def by (cases "sizeList va ?k") auto
    have rr: "res = Some c" "va' = upd c (\<lambda>k. k\<lparr>cused := True\<rparr>) (va\<lparr>sizeList := (sizeList va)(?k := cs)\<rparr>)"
      using r False cs by (auto simp: vaFindSize_def Let_def)
    have c: "c \<in> set (addrList va)" "\<not> cused (chunks va c)" "chunkClassSmaller (csize (chunks va c)) = ?k" "c \<notin> set cs"
      using lists [of ?k] cs by auto
    have "sz \<le> 2 ^ (chunkClassLarger sz + 12)"
      using class_larger_bound sz by (simp add: CHI_CHUNK_MAX_SIZE_def)
    also have "(2 :: nat) ^ (chunkClassLarger sz + 12) \<le> 2 ^ (?k + 12)" using F by (intro power_increasing) auto
    also have "\<dots> \<le> csize (chunks va c)" using class_bounds(1) [of "csize (chunks va c)"] sized [OF c(1)] c(3) by simp
    finally have big: "sz \<le> csize (chunks va c)" .
    have ch: "chunks va' = (chunks va)(c := (chunks va c)\<lparr>cused := True\<rparr>)" and o: "addrList va' = addrList va" "handlePool va' = handlePool va"
      and sl: "sizeList va' = (sizeList va)(?k := cs)" by (simp_all add: rr(2))
    have "sizes_ok {} va'"
      unfolding sizes_ok_def
    proof
      fix i
      have "set (sizeList va' i) = set (sizeList va i) - {c}"
        using lists [of ?k] lists(2) [of i] cs c(3,4) by (cases "i = ?k") (auto simp: sl)
      then show "distinct (sizeList va' i) \<and> set (sizeList va' i) =
          {x \<in> set (addrList va') - {}. \<not> cused (chunks va' x) \<and> chunkClassSmaller (csize (chunks va' x)) = i}"
        using lists [of i] cs lists(1) [of ?k] by (auto simp: sl ch o)
    qed
    moreover have "arena_ok lo hi va'"
    proof -
      have "tiled (chunks va') lo (addrList va) hi = tiled (chunks va) lo (addrList va) hi"
        by (rule tiled_cong) (simp add: ch)
      then show ?thesis using wf by (auto simp: va_wf_def arena_ok_def ch o)
    qed
    moreover have "handles_ok va'" using wf by (simp add: va_wf_def handles_ok_def o)
    moreover have "no_two_free va' (addrList va')" using ntf unfolding o by (rule successively_mono) (auto simp: ch)
    moreover have "live va' = (live va)(c \<mapsto> (cstart (chunks va' c), csize (chunks va' c)))"
      using c(1) by (auto simp: live_def ch o fun_eq_iff)
    ultimately show ?thesis using c big by (simp add: rr(1) va_wf_def o) (simp add: ch)
  qed
qed

text \<open>The page the system gives for more handles overlaps no handle.\<close>

definition region_ok :: "virt_alloc \<Rightarrow> nat option \<Rightarrow> bool" where
  "region_ok va region \<longleftrightarrow> (\<forall>start x. region = Some start \<longrightarrow> x \<in> set (addrList va) \<union> pool_set (handlePool va) \<longrightarrow>
     x + sizeof_ChiChunk \<le> start \<or> start + CHI_CHUNK_MIN_SIZE \<le> x)"

lemma need_handles_ok:
  assumes inv: "va_inv lo hi va" and reg: "region_ok va region" and r: "vaNeedHandles region 2 va = (ok, va')"
  shows "va_inv lo hi va' \<and> live va' = live va \<and> (ok \<longrightarrow> 2 \<le> card (pool_set (handlePool va')))"
proof -
  have h: "handles_ok va" using inv by (simp add: va_inv_def va_wf_def)
  then have p: "pool_ok (handlePool va)" "pobject (handlePool va) = sizeof_ChiChunk" by (simp_all add: handles_ok_def)
  show ?thesis
  proof (cases "chiPoolAvail (handlePool va) 2 \<or> region = None")
    case True
    then show ?thesis using r inv pool_avail_card [OF p(1)] by (auto simp: vaNeedHandles_def vaReserveHandles_def split: if_splits)
  next
    case False
    then obtain start where st: "region = Some start" by auto
    then have new: "\<forall>x \<in> pool_set (handlePool va). x + pobject (handlePool va) \<le> start \<or> start + CHI_CHUNK_MIN_SIZE \<le> x"
      "\<forall>x \<in> set (addrList va). x + pobject (handlePool va) \<le> start \<or> start + CHI_CHUNK_MIN_SIZE \<le> x"
      using reg by (simp_all add: region_ok_def p(2))
    obtain q where q: "chiPoolGrow (handlePool va) start CHI_CHUNK_MIN_SIZE = Some q" "pool_ok q" "pobject q = sizeof_ChiChunk"
      "pool_set q = pool_set (handlePool va) \<union> (\<lambda>k. start + k * sizeof_ChiChunk) ` {..<CHI_CHUNK_MIN_SIZE div sizeof_ChiChunk}"
      using pool_grow_ok [OF p(1) new(1)] p(2) by auto
    have va': "va' = va\<lparr>handlePool := q\<rparr>" "ok" using r False st q(1) by (auto simp: vaNeedHandles_def vaReserveHandles_def)
    have "handles_ok va'"
      using h q(2,3) pool_grow_outside [OF p(1) q(1)] new(2) by (auto simp: handles_ok_def va')
    then have "va_inv lo hi va'" using inv by (simp add: va_inv_def va_wf_def arena_ok_def sizes_ok_def va')
    moreover have "live va' = live va" by (simp add: live_def va' fun_eq_iff)
    moreover have "{start, start + sizeof_ChiChunk} \<subseteq> pool_set q"
      unfolding q(4) by (auto simp: CHI_CHUNK_MIN_SIZE_def sizeof_ChiChunk_def image_iff intro: bexI [of _ 0] bexI [of _ 1])
    then have "card {start, start + sizeof_ChiChunk} \<le> card (pool_set q)" by (intro card_mono) simp_all
    then have "2 \<le> card (pool_set q)" by (simp add: sizeof_ChiChunk_def)
    ultimately show ?thesis by (simp add: va')
  qed
qed

lemma insert_free_opt_ok:
  assumes inv: "va_inv lo hi va" and c: "\<And>a. c = Some a \<Longrightarrow> live va a \<noteq> None"
  shows "va_inv lo hi (vaInsertFreeOpt c va) \<and> live (vaInsertFreeOpt c va) = (case c of None \<Rightarrow> live va | Some a \<Rightarrow> (live va)(a := None))"
proof (cases c)
  case (Some a)
  then have "a \<in> set (addrList va)" "cused (chunks va a)" using c by (auto simp: live_def split: if_splits)
  then show ?thesis using insert_free_ok [OF inv] Some by (simp add: vaInsertFreeOpt_def)
qed (use inv in \<open>simp add: vaInsertFreeOpt_def\<close>)

definition request_ok :: "nat \<Rightarrow> nat \<Rightarrow> bool" where
  "request_ok sz al \<longleftrightarrow> chiChunkSizeValid sz \<and> chunkAlignValid al \<and> al \<le> sz"

lemma request_bounds:
  assumes "request_ok sz al"
  shows "CHI_CHUNK_MIN_SIZE \<le> sz" "sz \<le> CHI_CHUNK_MAX_SIZE" "al \<le> CHI_CHUNK_MAX_SIZE" "CHI_CHUNK_MIN_SIZE dvd sz"
proof -
  have "sz AND (2 ^ 12 - 1) = take_bit 12 sz" by (simp add: take_bit_eq_mask mask_eq_exp_minus_1)
  then have "sz AND (CHI_CHUNK_MIN_SIZE - 1) = sz mod CHI_CHUNK_MIN_SIZE"
    by (simp add: CHI_CHUNK_MIN_SIZE_def take_bit_eq_mod)
  then show "CHI_CHUNK_MIN_SIZE \<le> sz" "sz \<le> CHI_CHUNK_MAX_SIZE" "al \<le> CHI_CHUNK_MAX_SIZE" "CHI_CHUNK_MIN_SIZE dvd sz"
    using assms by (auto simp: request_ok_def chiChunkSizeValid_def mod_eq_0_iff_dvd)
qed

lemma split_ok:
  assumes wf: "va_wf lo hi {} va" and ntf: "no_two_free va (addrList va)" and c: "c \<in> set (addrList va)" "cused (chunks va c)"
    and rq: "request_ok sz al" and big: "sz + al \<le> csize (chunks va c)" and hp: "2 \<le> card (pool_set (handlePool va))"
    and sp: "vaSplit c sz al va = (before, after, w)"
  shows "\<exists>s. va_inv lo hi (vaInsertFreeOpt after (vaInsertFreeOpt before w)) \<and> chunkAligned s al \<and>
    live (vaInsertFreeOpt after (vaInsertFreeOpt before w)) = (live va)(c \<mapsto> (s, sz))"
proof -
  note B = request_bounds [OF rq]
  have pos: "0 < sz" using B(1) by (simp add: CHI_CHUNK_MIN_SIZE_def)
  obtain v where v: "vaSplitBegin c al va = (before, v)" "vaSplitEnd c sz v = (after, w)"
    using sp by (auto simp: vaSplit_def split: prod.splits)
  have hp1: "pool_set (handlePool va) \<noteq> {}" using hp by auto
  have lt: "al < csize (chunks va c)" "chunkAlignValid al" using big pos rq by (simp_all add: request_ok_def)
  note S1 = split_begin_ok [OF wf ntf c lt(2,1) hp1 v(1)]
  let ?s = "cstart (chunks v c)"
  have V: "va_wf lo hi {} v" "no_two_free v (addrList v)" "c \<in> set (addrList v)" "cused (chunks v c)" "chunkAligned ?s al"
    "case before of None \<Rightarrow> live v = live va | Some a \<Rightarrow> a \<notin> set (addrList va) \<and> a \<in> set (addrList v) \<and> cused (chunks v a) \<and>
       (live v)(a := None) = (live va)(c \<mapsto> (?s, csize (chunks v c)))"
    "csize (chunks va c) - al \<le> csize (chunks v c)" "card (pool_set (handlePool va)) \<le> Suc (card (pool_set (handlePool v)))"
    using S1 by (simp_all only:)
  have hp2: "pool_set (handlePool v) \<noteq> {}" using V(8) hp by auto
  have "sz \<le> csize (chunks v c)" using V(7) big by linarith
  note S2 = split_end_ok [OF V(1-4) pos this B(4) hp2 v(2)]
  have bc: "a \<noteq> c \<and> a \<in> set (addrList w) \<and> cused (chunks w a)" if "before = Some a" for a
  proof -
    have "a \<notin> set (addrList va)" "a \<in> set (addrList v)" "cused (chunks v a)" using V(6) that by simp_all
    then show ?thesis using S2(8) c(1) by metis
  qed
  have ac: "a \<noteq> c \<and> a \<notin> set (addrList v) \<and> a \<in> set (addrList w) \<and> cused (chunks w a)" if "after = Some a" for a
    using S2(7) V(3) that by auto
  have ab: "a \<noteq> b" if "after = Some a" "before = Some b" for a b
    using ac [OF that(1)] V(6) that(2) by auto
  have inv: "va_inv lo hi w" using S2(1,2) by (simp add: va_inv_def)
  let ?w1 = "vaInsertFreeOpt before w"
  have W1: "va_inv lo hi ?w1" "live ?w1 = (case before of None \<Rightarrow> live w | Some a \<Rightarrow> (live w)(a := None))"
    using insert_free_opt_ok [OF inv, of before] bc by (auto simp: live_def)
  have "after = Some a \<Longrightarrow> live ?w1 a \<noteq> None" for a
    using ab [of a] ac [of a] unfolding W1(2) by (cases before) (simp_all add: live_def)
  then have W2: "va_inv lo hi (vaInsertFreeOpt after ?w1)"
    "live (vaInsertFreeOpt after ?w1) = (case after of None \<Rightarrow> live ?w1 | Some a \<Rightarrow> (live ?w1)(a := None))"
    using insert_free_opt_ok [OF W1(1), of after] by blast+
  have "live (vaInsertFreeOpt after ?w1) = (live va)(c \<mapsto> (?s, sz))"
  proof -
    have ls: "live v c = Some (?s, csize (chunks v c))" using V(3,4) by (simp add: live_def)
    have la: "(case after of None \<Rightarrow> live w | Some a \<Rightarrow> (live w)(a := None)) = (live v)(c \<mapsto> (?s, sz))"
    proof (cases after)
      case None
      have "live w c = Some (?s, sz)" using S2(3-6) by (simp add: live_def)
      moreover have "live w = live v" using S2(7) None by simp
      ultimately show ?thesis using None by (simp add: fun_upd_idem)
    qed (use S2(7) in simp)
    show ?thesis
    proof (cases before)
      case None
      then have "live ?w1 = live w" "live v = live va" using V(6) W1(2) by simp_all
      then show ?thesis using la unfolding W2(2) by (simp only:)
    next
      case (Some b)
      have "(case after of None \<Rightarrow> (live w)(b := None) | Some a \<Rightarrow> ((live w)(b := None))(a := None)) =
          (case after of None \<Rightarrow> live w | Some a \<Rightarrow> (live w)(a := None))(b := None)"
        by (cases after) (auto simp: fun_eq_iff)
      also have "\<dots> = ((live v)(b := None))(c \<mapsto> (?s, sz))" using bc [OF Some] unfolding la by (auto simp: fun_eq_iff)
      also have "\<dots> = (live va)(c \<mapsto> (?s, sz))" using V(6) Some by simp
      finally have "(case after of None \<Rightarrow> (live w)(b := None) | Some a \<Rightarrow> ((live w)(b := None))(a := None)) = (live va)(c \<mapsto> (?s, sz))" .
      moreover have "live ?w1 = (live w)(b := None)" using W1(2) Some by simp
      ultimately show ?thesis unfolding W2(2) by (simp only:)
    qed
  qed
  then show ?thesis using W2(1) V(5) by blast
qed

lemma find_ok:
  assumes inv: "va_inv lo hi va" and rq: "request_ok sz al" and reg: "region_ok va region"
    and r: "vaFind region sz al va = (res, va')"
  shows "va_inv lo hi va' \<and> (case res of None \<Rightarrow> live va' = live va
    | Some c \<Rightarrow> live va c = None \<and> (\<exists>s. chunkAligned s al \<and> live va' = (live va)(c \<mapsto> (s, sz))))"
proof -
  obtain ok v where n: "vaNeedHandles region 2 va = (ok, v)" by fastforce
  note N = need_handles_ok [OF inv reg n]
  show ?thesis
  proof (cases ok)
    case False
    then show ?thesis using r n N by (auto simp: vaFind_def)
  next
    case True
    obtain f w where f: "vaFindSize (sz + al) v = (f, w)" by fastforce
    have b: "CHI_CHUNK_MIN_SIZE \<le> sz + al" "sz + al \<le> 2 * CHI_CHUNK_MAX_SIZE" using request_bounds [OF rq] by simp_all
    have vi: "va_inv lo hi v" using N by blast
    note F = find_size_ok [OF vi b f]
    show ?thesis
    proof (cases f)
      case None
      then have "w = v" using F by simp
      then show ?thesis using r n N True f None by (auto simp: vaFind_def)
    next
      case (Some c)
      obtain before after u where sp: "vaSplit c sz al w = (before, after, u)" by (cases "vaSplit c sz al w") auto
      have W: "va_wf lo hi {} w" "no_two_free w (addrList w)" "c \<in> set (addrList w)" "cused (chunks w c)"
        "sz + al \<le> csize (chunks w c)" "\<not> cused (chunks v c)"
        "live w = (live v)(c \<mapsto> (cstart (chunks w c), csize (chunks w c)))" "handlePool w = handlePool v"
        using F unfolding Some option.case by blast+
      have hp: "2 \<le> card (pool_set (handlePool w))" using W(8) N True by simp
      obtain s where s: "va_inv lo hi (vaInsertFreeOpt after (vaInsertFreeOpt before u))" "chunkAligned s al"
        "live (vaInsertFreeOpt after (vaInsertFreeOpt before u)) = (live w)(c \<mapsto> (s, sz))"
        using split_ok [OF W(1-4) rq W(5) hp sp] by blast
      have rr: "res = Some c" "va' = vaInsertFreeOpt after (vaInsertFreeOpt before u)"
        using r n True f Some sp by (auto simp: vaFind_def Let_def)
      have "live va c = None" using W(6) N by (metis live_def)
      moreover have "live va' = (live va)(c \<mapsto> (s, sz))" using s(3) W(7) N by (simp add: rr(2))
      ultimately show ?thesis using s(1,2) rr by auto
    qed
  qed
qed

lemma new_chunk_ok:
  assumes inv: "va_inv lo hi va" and rq: "request_ok sz al" and reg: "region_ok va region"
    and r: "vaNewChunk commit region sz al va = (res, va')"
  shows "va_inv lo hi va' \<and> (case res of None \<Rightarrow> live va' = live va
    | Some c \<Rightarrow> live va c = None \<and> (\<exists>s. chunkAligned s al \<and> live va' = (live va)(c \<mapsto> (s, sz))))"
proof -
  obtain f v where f: "vaFind region sz al va = (f, v)" by fastforce
  note F = find_ok [OF inv rq reg f]
  show ?thesis
  proof (cases f)
    case None
    then show ?thesis using r f F by (simp add: vaNewChunk_def)
  next
    case (Some c)
    then obtain s where l: "live va c = None" "live v = (live va)(c \<mapsto> (s, sz))" "chunkAligned s al" using F by auto
    have "va_inv lo hi v" using F by blast
    moreover have "c \<in> set (addrList v)" "cused (chunks v c)"
      using fun_cong [OF l(2), of c] by (auto simp: live_def split: if_splits)
    ultimately have I: "va_inv lo hi (vaInsertFree c v)" "live (vaInsertFree c v) = (live v)(c := None)"
      using insert_free_ok by blast+
    have "live (vaInsertFree c v) = live va" unfolding I(2) l(2) using l(1) by (simp add: fun_upd_idem)
    then show ?thesis using r f Some I F by (auto simp: vaNewChunk_def split: if_splits)
  qed
qed

lemma free_chunk_ok:
  assumes inv: "va_inv lo hi va" and c: "live va c \<noteq> None"
  shows "va_inv lo hi (vaFreeChunk c va) \<and> live (vaFreeChunk c va) = (live va)(c := None)"
proof -
  have "c \<in> set (addrList va)" "cused (chunks va c)" using c by (simp_all add: live_def split: if_splits)
  then show ?thesis using insert_free_ok [OF inv] by (simp add: vaFreeChunk_def)
qed

lemma setup_ok:
  assumes "CHI_CHUNK_MIN_SIZE dvd lo" "CHI_CHUNK_MIN_SIZE dvd n" "0 < n" "n \<le> CHI_CHUNK_MAX_SIZE" "lo + n < 2 ^ 62"
  shows "va_inv lo (lo + n) (vaSetup arena lo n small) \<and> live (vaSetup arena lo n small) = (\<lambda>_. None)"
  using assms pool_init_ok [of sizeof_ChiChunk]
  by (auto simp: vaSetup_def vaSetupArena_def chunkInit_def upd_def Let_def va_inv_def va_wf_def arena_ok_def sizes_ok_def
      handles_ok_def live_def sizeof_ChiChunk_def chiPoolInit_def pool_outside_def)

text \<open>When nothing is in use the arena is one free chunk again.\<close>

lemma all_free_coalesced:
  assumes inv: "va_inv lo hi va" and l: "live va = (\<lambda>_. None)" and ne: "lo < hi"
  shows "\<exists>c. addrList va = [c] \<and> cstart (chunks va c) = lo \<and> csize (chunks va c) = hi - lo"
proof -
  have t: "tiled (chunks va) lo (addrList va) hi" and n: "no_two_free va (addrList va)"
    using inv by (simp_all add: va_inv_def va_wf_def arena_ok_def)
  have free: "\<not> cused (chunks va x)" if "x \<in> set (addrList va)" for x
    using fun_cong [OF l, of x] that by (simp add: live_def split: if_splits)
  show ?thesis
  proof (cases "addrList va")
    case Nil
    then show ?thesis using t ne by simp
  next
    case (Cons c cs)
    then have "cs = []" using n free by (cases cs) auto
    then show ?thesis using t Cons by auto
  qed
qed

text \<open>Chunks in use do not overlap and lie in the arena.\<close>

lemma live_disjoint:
  assumes "va_inv lo hi va" "live va c = Some (s, n)"
  shows "lo \<le> s \<and> s + n \<le> hi \<and> 0 < n \<and> (\<forall>d t k. live va d = Some (t, k) \<longrightarrow> d \<noteq> c \<longrightarrow> s + n \<le> t \<or> t + k \<le> s)"
proof -
  have t: "tiled (chunks va) lo (addrList va) hi" "distinct (addrList va)" using assms(1) by (simp_all add: va_inv_def va_wf_def arena_ok_def)
  have L: "d \<in> set (addrList va) \<and> t = cstart (chunks va d) \<and> k = csize (chunks va d)" if "live va d = Some (t, k)" for d t k
    using that by (auto simp: live_def split: if_splits)
  show ?thesis using L [OF assms(2)] tiled_within [OF t(1)] tiled_disjoint [OF t] L by metis
qed

section \<open>The unmap allocator, sequentially\<close>

definition ua_inv :: "nat \<Rightarrow> nat \<Rightarrow> unmap_alloc \<Rightarrow> bool" where
  "ua_inv lo hi ua \<longleftrightarrow> va_inv lo hi (uva ua) \<and> distinct (ulist ua) \<and> set (ulist ua) \<subseteq> dom (live (uva ua))"

text \<open>The chunks the clients hold: those in use that do not wait to be unmapped.\<close>

definition ua_held :: "unmap_alloc \<Rightarrow> nat \<Rightarrow> (nat \<times> nat) option" where
  "ua_held ua c = (if c \<in> set (ulist ua) then None else live (uva ua) c)"

lemma free_now_ok:
  assumes "va_inv lo hi (uva ua)" "distinct (c # ulist ua)" "set (c # ulist ua) \<subseteq> dom (live (uva ua))"
  shows "ua_inv lo hi (uaFreeNow c ua)" "ulist (uaFreeNow c ua) = ulist ua" "ua_held (uaFreeNow c ua) = (ua_held ua)(c := None)"
proof -
  have "live (uva ua) c \<noteq> None" using assms(3) by auto
  note F = free_chunk_ok [OF assms(1) this]
  show "ulist (uaFreeNow c ua) = ulist ua" by (simp add: uaFreeNow_def)
  show "ua_inv lo hi (uaFreeNow c ua)" using F assms by (auto simp: ua_inv_def uaFreeNow_def)
  show "ua_held (uaFreeNow c ua) = (ua_held ua)(c := None)"
    using F by (auto simp: ua_held_def uaFreeNow_def fun_eq_iff)
qed

lemma emergency_ok:
  assumes "ua_inv lo hi ua"
  shows "fst (uaFreeEmergency ua) = False \<and> ua_inv lo hi (snd (uaFreeEmergency ua)) \<and> ulist (snd (uaFreeEmergency ua)) = [] \<and>
    ua_held (snd (uaFreeEmergency ua)) = ua_held ua"
  using assms
proof (induction ua rule: uaFreeEmergency.induct)
  case (1 ua)
  show ?case
  proof (cases "ulist ua")
    case Nil
    then show ?thesis using 1(2) by (subst (1 2 3 4) uaFreeEmergency.simps) (simp add: uaPopNowait_def)
  next
    case (Cons c cs)
    let ?u = "ua\<lparr>ulist := cs\<rparr>"
    have pop: "uaPopNowait ua = (Some c, ?u)" using Cons by (simp add: uaPopNowait_def)
    have pre: "va_inv lo hi (uva ?u)" "distinct (c # ulist ?u)" "set (c # ulist ?u) \<subseteq> dom (live (uva ?u))"
      using 1(2) Cons by (simp_all add: ua_inv_def)
    note F = free_now_ok [OF pre]
    have e: "uaFreeEmergency ua = uaFreeEmergency (uaFreeNow c ?u)" by (subst uaFreeEmergency.simps) (simp add: pop)
    have "ua_held (uaFreeNow c ?u) = ua_held ua"
      unfolding F(3) using 1(2) Cons by (auto simp: ua_held_def ua_inv_def fun_eq_iff)
    then show ?thesis using 1(1) [OF pop [symmetric] refl F(1)] unfolding e by simp
  qed
qed

lemma reuse_ok:
  assumes inv: "ua_inv lo hi ua" and r: "uaReuse sz al ua = (res, ua')"
  shows "ua_inv lo hi ua' \<and> (case res of None \<Rightarrow> ua' = ua
    | Some c \<Rightarrow> ua_held ua c = None \<and> (\<exists>s. chunkAligned s al \<and> ua_held ua' = (ua_held ua)(c \<mapsto> (s, sz))))"
proof (cases "find (\<lambda>c. csize (chunks (uva ua) c) = sz \<and> chunkAligned (cstart (chunks (uva ua) c)) al) (ulist ua)")
  case None
  then show ?thesis using r inv by (auto simp: uaReuse_def)
next
  case (Some c)
  then have c: "c \<in> set (ulist ua)" "csize (chunks (uva ua) c) = sz" "chunkAligned (cstart (chunks (uva ua) c)) al"
    by (auto simp: find_Some_iff)
  then have l: "live (uva ua) c = Some (cstart (chunks (uva ua) c), sz)"
    using inv by (auto simp: ua_inv_def live_def split: if_splits)
  have rr: "res = Some c" "ua' = ua\<lparr>ulist := remove1 c (ulist ua)\<rparr>" using r Some by (auto simp: uaReuse_def)
  have "ua_held ua' = (ua_held ua)(c \<mapsto> (cstart (chunks (uva ua) c), sz))"
    using inv c l by (auto simp: rr(2) ua_held_def ua_inv_def fun_eq_iff)
  moreover have "ua_inv lo hi ua'"
    using inv set_remove1_subset [of c "ulist ua"] by (auto simp: rr(2) ua_inv_def)
  ultimately show ?thesis using c by (auto simp: rr(1) ua_held_def)
qed

text \<open>\<^verbatim>\<open>uaNewChunk\<close> ends: an emergency free never makes it try again.\<close>

lemma ua_new_ok:
  assumes inv: "ua_inv lo hi ua" and rq: "request_ok sz al" and reg: "region_ok (uva ua) region"
  shows "\<exists>res ua'. uaNewChunk commit region sz al ua = Some (res, ua') \<and> ua_inv lo hi ua' \<and>
    (case res of None \<Rightarrow> ua_held ua' = ua_held ua \<and> ulist ua' = []
     | Some c \<Rightarrow> ua_held ua c = None \<and> (\<exists>s. chunkAligned s al \<and> ua_held ua' = (ua_held ua)(c \<mapsto> (s, sz))))"
proof -
  obtain f u where f: "uaReuse sz al ua = (f, u)" by fastforce
  note R = reuse_ok [OF inv f]
  show ?thesis
  proof (cases f)
    case (Some c)
    then show ?thesis using f R by (subst uaNewChunk.simps) auto
  next
    case None
    then have u: "u = ua" using R by simp
    obtain g v where g: "vaNewChunk commit region sz al (uva ua) = (g, v)" by fastforce
    have vi: "va_inv lo hi (uva ua)" using inv by (simp add: ua_inv_def)
    note N = new_chunk_ok [OF vi rq reg g]
    show ?thesis
    proof (cases g)
      case (Some c)
      then obtain s where s: "live (uva ua) c = None" "chunkAligned s al" "live v = (live (uva ua))(c \<mapsto> (s, sz))" "va_inv lo hi v"
        using N by auto
      have "c \<notin> set (ulist ua)" using inv s(1) by (auto simp: ua_inv_def)
      then have "ua_held (ua\<lparr>uva := v\<rparr>) = (ua_held ua)(c \<mapsto> (s, sz))" "ua_held ua c = None"
        using s by (auto simp: ua_held_def fun_eq_iff)
      moreover have "ua_inv lo hi (ua\<lparr>uva := v\<rparr>)" using inv s by (auto simp: ua_inv_def)
      ultimately show ?thesis using f None u g Some s(2) by (subst uaNewChunk.simps) auto
    next
      case g0: None
      have i: "ua_inv lo hi (ua\<lparr>uva := v\<rparr>)" using inv N g0 by (auto simp: ua_inv_def)
      obtain again w where e: "uaFreeEmergency (ua\<lparr>uva := v\<rparr>) = (again, w)" by fastforce
      have "ua_held (ua\<lparr>uva := v\<rparr>) = ua_held ua" using N g0 by (simp add: ua_held_def fun_eq_iff)
      then show ?thesis using emergency_ok [OF i] f None u g g0 by (subst uaNewChunk.simps) (auto simp: e)
    qed
  qed
qed

lemma ua_delayed_ok:
  assumes inv: "ua_inv lo hi ua" and c: "ua_held ua c \<noteq> None"
  shows "ua_inv lo hi (snd (uaFreeDelayed create now c ua)) \<and>
    ua_held (snd (uaFreeDelayed create now c ua)) = (ua_held ua)(c := None)"
proof -
  define v where "v = upd c (\<lambda>k. k\<lparr>ctimeout := now + utimeout ua\<rparr>) (uva ua)"
  define u where "u = ua\<lparr>uva := v, ulist := ulist ua @ [c]\<rparr>"
  have n: "c \<notin> set (ulist ua)" "live (uva ua) c \<noteq> None" using c by (auto simp: ua_held_def split: if_splits)
  have t: "tiled (chunks v) lo (addrList v) hi = tiled (chunks (uva ua)) lo (addrList (uva ua)) hi"
    unfolding v_def upd_simps by (rule tiled_cong) simp
  have "no_two_free v (addrList v) = no_two_free (uva ua) (addrList v)"
    by (rule no_two_free_cong) (simp add: v_def)
  then have vi: "va_inv lo hi v"
    using inv t by (auto simp: ua_inv_def va_inv_def va_wf_def arena_ok_def sizes_ok_def handles_ok_def v_def)
  have l: "live v = live (uva ua)" by (auto simp: live_def v_def fun_eq_iff)
  have ui: "ua_inv lo hi u" using inv vi n l by (auto simp: ua_inv_def u_def)
  have h: "ua_held u = (ua_held ua)(c := None)" using l by (auto simp: ua_held_def u_def fun_eq_iff)
  have t: "ua_inv lo hi (u\<lparr>utask := True\<rparr>)" "ua_held (u\<lparr>utask := True\<rparr>) = ua_held u"
    using ui by (simp_all add: ua_inv_def ua_held_def fun_eq_iff)
  have d: "uaFreeDelayed create now c ua =
    (if ctimeout (chunks (uva u) (hd (ulist u))) < now then if utask u then (True, u) else if create then (True, u\<lparr>utask := True\<rparr>) else (False, u)
     else (True, u))"
    by (simp add: uaFreeDelayed_def Let_def u_def v_def)
  show ?thesis unfolding d using ui h t by simp
qed

lemma ua_free_ok:
  assumes inv: "ua_inv lo hi ua" and c: "ua_held ua c \<noteq> None"
  shows "ua_inv lo hi (uaFreeChunk create now c ua) \<and> ua_held (uaFreeChunk create now c ua) = (ua_held ua)(c := None)"
  using ua_delayed_ok [OF assms, of create now] emergency_ok [of lo hi "snd (uaFreeDelayed create now c ua)"]
  by (auto simp: uaFreeChunk_def split: prod.splits bool.splits)

section \<open>Several threads\<close>

text \<open>The allocator with the threads that use it. A step is one section under its mutex. Between the sections a
  chunk belongs to one party: it is \<open>pending\<close> while its memory is committed, \<open>owned\<close> by a client, waiting in
  the list, or in \<open>transit\<close> while the unmap task or an emergency free decommits it.\<close>

record ua_threads =
  ua :: unmap_alloc
  pending :: "nat set"
  owned :: "nat set"
  transit :: "nat set"

inductive ua_step :: "ua_threads \<Rightarrow> ua_threads \<Rightarrow> bool" where
  reuse: "uaReuse sz al (ua s) = (Some c, u) \<Longrightarrow> ua_step s (s\<lparr>ua := u, owned := insert c (owned s)\<rparr>)"
| find_chunk: "request_ok sz al \<Longrightarrow> region_ok (uva (ua s)) region \<Longrightarrow> vaFind region sz al (uva (ua s)) = (Some c, v) \<Longrightarrow>
    ua_step s (s\<lparr>ua := (ua s)\<lparr>uva := v\<rparr>, pending := insert c (pending s)\<rparr>)"
| find_none: "request_ok sz al \<Longrightarrow> region_ok (uva (ua s)) region \<Longrightarrow> vaFind region sz al (uva (ua s)) = (None, v) \<Longrightarrow>
    ua_step s (s\<lparr>ua := (ua s)\<lparr>uva := v\<rparr>\<rparr>)"
| committed: "c \<in> pending s \<Longrightarrow> ua_step s (s\<lparr>pending := pending s - {c}, owned := insert c (owned s)\<rparr>)"
| commit_failed: "c \<in> pending s \<Longrightarrow>
    ua_step s (s\<lparr>ua := (ua s)\<lparr>uva := vaInsertFree c (uva (ua s))\<rparr>, pending := pending s - {c}\<rparr>)"
| free_delayed: "c \<in> owned s \<Longrightarrow> uaFreeDelayed create now c (ua s) = (b, u) \<Longrightarrow> ua_step s (s\<lparr>ua := u, owned := owned s - {c}\<rparr>)"
| pop_wait: "uaPopWait now (ua s) = (Some c, u) \<Longrightarrow> ua_step s (s\<lparr>ua := u, transit := insert c (transit s)\<rparr>)"
| pop_nowait: "uaPopNowait (ua s) = (Some c, u) \<Longrightarrow> ua_step s (s\<lparr>ua := u, transit := insert c (transit s)\<rparr>)"
| unmapped: "c \<in> transit s \<Longrightarrow>
    ua_step s (s\<lparr>ua := (ua s)\<lparr>uva := vaFreeChunk c (uva (ua s))\<rparr>, transit := transit s - {c}\<rparr>)"

definition ua_start :: "unmap_alloc \<Rightarrow> ua_threads" where
  "ua_start u = \<lparr> ua = u, pending = {}, owned = {}, transit = {} \<rparr>"

text \<open>Every chunk in use belongs to exactly one party.\<close>

definition parties_ok :: "ua_threads \<Rightarrow> bool" where
  "parties_ok s \<longleftrightarrow> distinct (ulist (ua s)) \<and> set (ulist (ua s)) \<inter> (pending s \<union> owned s \<union> transit s) = {} \<and>
     pending s \<inter> (owned s \<union> transit s) = {} \<and> owned s \<inter> transit s = {} \<and>
     dom (live (uva (ua s))) = set (ulist (ua s)) \<union> pending s \<union> owned s \<union> transit s"

lemma free_delayed_ok:
  assumes "va_inv lo hi (uva u)" "uaFreeDelayed create now c u = (b, w)"
  shows "va_inv lo hi (uva w) \<and> live (uva w) = live (uva u) \<and> ulist w = ulist u @ [c]"
proof -
  define v where "v = upd c (\<lambda>k. k\<lparr>ctimeout := now + utimeout u\<rparr>) (uva u)"
  have t: "tiled (chunks v) lo (addrList v) hi = tiled (chunks (uva u)) lo (addrList (uva u)) hi"
    unfolding v_def upd_simps by (rule tiled_cong) simp
  have "no_two_free v (addrList v) = no_two_free (uva u) (addrList v)"
    by (rule no_two_free_cong) (simp add: v_def)
  then have "va_inv lo hi v"
    using assms(1) t by (auto simp: va_inv_def va_wf_def arena_ok_def sizes_ok_def handles_ok_def v_def)
  moreover have "live v = live (uva u)" by (auto simp: live_def v_def fun_eq_iff)
  moreover have "uva w = v \<and> ulist w = ulist u @ [c]"
    using assms(2) by (auto simp: uaFreeDelayed_def Let_def v_def split: if_splits)
  ultimately show ?thesis by simp
qed

lemma pop_ok:
  assumes ok: "parties_ok s" and c: "ulist (ua s) = c # ulist u" and u: "u = (ua s)\<lparr>ulist := ulist u\<rparr>"
  shows "uva u = uva (ua s) \<and> parties_ok (s\<lparr>ua := u, transit := insert c (transit s)\<rparr>)"
proof -
  have v: "uva u = uva (ua s)" by (subst u) simp
  have d: "dom (live (uva (ua s))) = insert c (set (ulist u) \<union> pending s \<union> owned s \<union> transit s)"
    using ok c by (simp add: parties_ok_def)
  show ?thesis using ok c by (simp only: parties_ok_def v d) (auto simp: v d)
qed

lemma ua_step_inv:
  assumes step: "ua_step s t" and inv: "va_inv lo hi (uva (ua s))" and ok: "parties_ok s"
  shows "va_inv lo hi (uva (ua t)) \<and> parties_ok t"
  using step
proof (cases rule: ua_step.cases)
  case (reuse sz al c u)
  then have c: "c \<in> set (ulist (ua s))" "u = (ua s)\<lparr>ulist := remove1 c (ulist (ua s))\<rparr>"
    by (auto simp: uaReuse_def find_Some_iff split: option.splits)
  then show ?thesis using reuse inv ok by (auto simp: parties_ok_def)
next
  case (find_chunk sz al region c v)
  then obtain n where "va_inv lo hi v" "live (uva (ua s)) c = None" "live v = (live (uva (ua s)))(c \<mapsto> n)"
    using find_ok [OF inv, of sz al region] by auto
  then show ?thesis using find_chunk(1,2) ok by (auto simp: parties_ok_def)
next
  case (find_none sz al region v)
  then show ?thesis using find_ok [OF inv, of sz al region] ok by (auto simp: parties_ok_def)
next
  case (committed c)
  then show ?thesis using inv ok by (auto simp: parties_ok_def)
next
  case (commit_failed c)
  then have "live (uva (ua s)) c \<noteq> None" using ok by (auto simp: parties_ok_def)
  then show ?thesis using free_chunk_ok [OF inv, of c] commit_failed ok by (auto simp: parties_ok_def vaFreeChunk_def)
next
  case (free_delayed c create now b u)
  then show ?thesis using free_delayed_ok [OF inv, of create now c b u] ok by (auto simp: parties_ok_def)
next
  case (pop_wait now c u)
  then have u: "ulist (ua s) = c # ulist u" "u = (ua s)\<lparr>ulist := ulist u\<rparr>"
    by (auto simp: uaPopWait_def split: list.splits if_splits)
  then show ?thesis using pop_ok [OF ok u] pop_wait(1) inv by simp
next
  case (pop_nowait c u)
  then have u: "ulist (ua s) = c # ulist u" "u = (ua s)\<lparr>ulist := ulist u\<rparr>"
    by (auto simp: uaPopNowait_def split: list.splits)
  then show ?thesis using pop_ok [OF ok u] pop_nowait(1) inv by simp
next
  case (unmapped c)
  then have "live (uva (ua s)) c \<noteq> None" using ok by (auto simp: parties_ok_def)
  then show ?thesis using free_chunk_ok [OF inv, of c] unmapped ok by (auto simp: parties_ok_def)
qed

lemma reachable_inv:
  assumes "ua_step\<^sup>*\<^sup>* (ua_start u) s" "ua_inv lo hi u" "live (uva u) = (\<lambda>_. None)"
  shows "va_inv lo hi (uva (ua s)) \<and> parties_ok s"
  using assms(1)
proof (induction rule: rtranclp_induct)
  case base
  then show ?case using assms(2,3) by (auto simp: ua_start_def ua_inv_def parties_ok_def dom_def)
next
  case (step s t)
  then show ?case using ua_step_inv by blast
qed

text \<open>C13: An allocation of a chunk ends, with one attempt to find memory; it fails with the chunks of the
  clients unchanged, or returns a chunk of the requested size and alignment inside the arena that
  overlaps no chunk a client holds.\<close>

theorem chunk_allocation:
  assumes "ua_inv lo hi u" "request_ok sz al" "region_ok (uva u) region"
  shows "\<exists>res w. uaNewChunk commit region sz al u = Some (res, w) \<and> ua_inv lo hi w \<and>
    (case res of None \<Rightarrow> ua_held w = ua_held u
     | Some c \<Rightarrow> ua_held u c = None \<and> (\<exists>s. chunkAligned s al \<and> lo \<le> s \<and> s + sz \<le> hi \<and> ua_held w = (ua_held u)(c \<mapsto> (s, sz)) \<and>
         (\<forall>d t k. ua_held u d = Some (t, k) \<longrightarrow> s + sz \<le> t \<or> t + k \<le> s)))"
proof -
  obtain res w where r: "uaNewChunk commit region sz al u = Some (res, w)" "ua_inv lo hi w"
    "case res of None \<Rightarrow> ua_held w = ua_held u \<and> ulist w = []
     | Some c \<Rightarrow> ua_held u c = None \<and> (\<exists>s. chunkAligned s al \<and> ua_held w = (ua_held u)(c \<mapsto> (s, sz)))"
    using ua_new_ok [OF assms] by blast
  have vi: "va_inv lo hi (uva w)" using r(2) by (simp add: ua_inv_def)
  have lv: "live (uva w) d = Some x" if "ua_held w d = Some x" for d x
    using that by (auto simp: ua_held_def split: if_splits)
  show ?thesis
  proof (cases res)
    case (Some c)
    then obtain s where s: "ua_held u c = None" "chunkAligned s al" "ua_held w = (ua_held u)(c \<mapsto> (s, sz))" using r(3) by auto
    have "live (uva w) c = Some (s, sz)" by (rule lv) (simp add: s(3))
    note D = live_disjoint [OF vi this]
    have "s + sz \<le> t \<or> t + k \<le> s" if "ua_held u d = Some (t, k)" for d t k
    proof -
      have "d \<noteq> c" using that s(1) by auto
      then show ?thesis using D lv [of d "(t, k)"] that s(3) by auto
    qed
    then show ?thesis using r(1,2) Some s D by auto
  qed (use r in auto)
qed

definition arena_example :: unmap_alloc where
  "arena_example = uaSetup (vaSetup 7 (2 ^ 37) (2 ^ 20) False) 1000"

definition full_example :: unmap_alloc where
  "full_example = uaSetup (upd 7 (\<lambda>k. k\<lparr> cused := True \<rparr>) ((vaSetup 7 (2 ^ 37) (2 ^ 20) False)\<lparr> sizeList := (\<lambda>_. []) \<rparr>)) 1000"

lemma arena_example_ok: "ua_inv (2 ^ 37) (2 ^ 37 + 2 ^ 20) arena_example" "region_ok (uva arena_example) (Some (2 ^ 20))"
  "ua_held arena_example = (\<lambda>_. None)"
proof -
  have "va_inv (2 ^ 37) (2 ^ 37 + 2 ^ 20) (vaSetup 7 (2 ^ 37) (2 ^ 20) False) \<and> live (vaSetup 7 (2 ^ 37) (2 ^ 20) False) = (\<lambda>_. None)"
    by (rule setup_ok) (simp_all add: CHI_CHUNK_MIN_SIZE_def CHI_CHUNK_MAX_SIZE_def)
  then show "ua_inv (2 ^ 37) (2 ^ 37 + 2 ^ 20) arena_example" "ua_held arena_example = (\<lambda>_. None)"
    by (auto simp: arena_example_def ua_inv_def uaSetup_def ua_held_def fun_eq_iff)
  show "region_ok (uva arena_example) (Some (2 ^ 20))"
    by (simp add: arena_example_def uaSetup_def vaSetup_def vaSetupArena_def chunkInit_def upd_def Let_def region_ok_def
        pool_init_ok sizeof_ChiChunk_def)
qed

lemma full_example_ok: "ua_inv (2 ^ 37) (2 ^ 37 + 2 ^ 20) full_example" "ua_held full_example = [7 \<mapsto> (2 ^ 37, 2 ^ 20)]"
  using pool_init_ok [of sizeof_ChiChunk]
  by (auto simp: full_example_def uaSetup_def vaSetup_def vaSetupArena_def chunkInit_def upd_def Let_def va_inv_def va_wf_def
      arena_ok_def sizes_ok_def handles_ok_def live_def sizeof_ChiChunk_def chiPoolInit_def pool_outside_def ua_inv_def
      ua_held_def fun_eq_iff CHI_CHUNK_MIN_SIZE_def CHI_CHUNK_MAX_SIZE_def)

lemma request_example: "request_ok 8192 4096"
  unfolding request_ok_def chiChunkSizeValid_def chunkAlignValid_def CHI_CHUNK_MIN_SIZE_def CHI_CHUNK_MAX_SIZE_def
  by (simp add: chiIsPow2_def)

theorem chunk_allocation_witness:
  "\<exists>res w. uaNewChunk (\<lambda>_ _ _. True) (Some (2 ^ 20)) 8192 4096 arena_example = Some (res, w) \<and>
     ua_inv (2 ^ 37) (2 ^ 37 + 2 ^ 20) w \<and> (\<forall>c s k. ua_held w c = Some (s, k) \<longrightarrow> k = 8192)"
proof -
  obtain res w where "uaNewChunk (\<lambda>_ _ _. True) (Some (2 ^ 20)) 8192 4096 arena_example = Some (res, w)"
    "ua_inv (2 ^ 37) (2 ^ 37 + 2 ^ 20) w" "case res of None \<Rightarrow> ua_held w = ua_held arena_example
      | Some c \<Rightarrow> ua_held arena_example c = None \<and> (\<exists>s. chunkAligned s 4096 \<and> 2 ^ 37 \<le> s \<and> s + 8192 \<le> 2 ^ 37 + 2 ^ 20 \<and>
          ua_held w = (ua_held arena_example)(c \<mapsto> (s, 8192)) \<and>
          (\<forall>d t k. ua_held arena_example d = Some (t, k) \<longrightarrow> s + 8192 \<le> t \<or> t + k \<le> s))"
    using chunk_allocation [OF arena_example_ok(1) request_example arena_example_ok(2), of "\<lambda>_ _ _. True"] by blast
  then show ?thesis by (auto simp: arena_example_ok(3) split: option.splits if_splits)
qed

text \<open>C15: Freed memory comes back whole: a chunk that is freed is not held any more, and when no chunk is held,
  releasing those that wait leaves the arena as one free chunk.\<close>

theorem chunk_free_coalesces:
  assumes "ua_inv lo hi u" "ua_held u c \<noteq> None" "lo < hi"
  shows "let w = uaFreeChunk create now c u; x = uva (snd (uaFreeEmergency w))
    in ua_inv lo hi w \<and> ua_held w = (ua_held u)(c := None) \<and>
       (ua_held w = (\<lambda>_. None) \<longrightarrow> (\<exists>d. addrList x = [d] \<and> \<not> cused (chunks x d) \<and> cstart (chunks x d) = lo \<and> csize (chunks x d) = hi - lo))"
proof -
  let ?w = "uaFreeChunk create now c u" and ?e = "snd (uaFreeEmergency (uaFreeChunk create now c u))"
  have w: "ua_inv lo hi ?w" "ua_held ?w = (ua_held u)(c := None)" using ua_free_ok [OF assms(1,2)] by blast+
  have e: "ua_inv lo hi ?e" "ulist ?e = []" "ua_held ?e = ua_held ?w" using emergency_ok [OF w(1)] by blast+
  have "\<exists>d. addrList (uva ?e) = [d] \<and> \<not> cused (chunks (uva ?e) d) \<and> cstart (chunks (uva ?e) d) = lo \<and> csize (chunks (uva ?e) d) = hi - lo"
    if "ua_held ?w = (\<lambda>_. None)"
  proof -
    have l: "live (uva ?e) = (\<lambda>_. None)" using e(2,3) that by (auto simp: ua_held_def fun_eq_iff split: if_splits)
    have i: "va_inv lo hi (uva ?e)" using e(1) by (simp add: ua_inv_def)
    obtain d where "addrList (uva ?e) = [d]" "cstart (chunks (uva ?e) d) = lo \<and> csize (chunks (uva ?e) d) = hi - lo"
      using all_free_coalesced [OF i l assms(3)] by blast
    then show ?thesis using fun_cong [OF l, of d] by (auto simp: live_def split: if_splits)
  qed
  then show ?thesis using w by (simp add: Let_def)
qed

theorem chunk_free_coalesces_witness:
  "let w = uaFreeChunk True 5000 7 full_example; x = uva (snd (uaFreeEmergency w))
   in ua_held full_example 7 = Some (2 ^ 37, 2 ^ 20) \<and> ua_held w = (\<lambda>_. None) \<and> (\<exists>d. addrList x = [d] \<and> \<not> cused (chunks x d))"
  using chunk_free_coalesces [OF full_example_ok(1), of 7 True 5000] by (auto simp: full_example_ok(2) Let_def)

text \<open>C14: However the sections of the threads interleave, a chunk has one owner, and two chunks in use, whether
  held, being committed, waiting or being unmapped, occupy disjoint memory of the arena.\<close>

theorem chunk_threads_safe:
  assumes "ua_step\<^sup>*\<^sup>* (ua_start (uaSetup (vaSetup arena lo n small) timeout)) s"
    and "CHI_CHUNK_MIN_SIZE dvd lo" "CHI_CHUNK_MIN_SIZE dvd n" "0 < n" "n \<le> CHI_CHUNK_MAX_SIZE" "lo + n < 2 ^ 62"
  shows "parties_ok s \<and> (\<forall>c a k. live (uva (ua s)) c = Some (a, k) \<longrightarrow> lo \<le> a \<and> a + k \<le> lo + n \<and> 0 < k \<and>
    (\<forall>d b j. live (uva (ua s)) d = Some (b, j) \<longrightarrow> d \<noteq> c \<longrightarrow> a + k \<le> b \<or> b + j \<le> a))"
proof -
  have "va_inv lo (lo + n) (uva (ua s)) \<and> parties_ok s"
    by (rule reachable_inv [OF assms(1)]) (use setup_ok [OF assms(2-6)] in \<open>simp_all add: uaSetup_def ua_inv_def\<close>)
  then show ?thesis using live_disjoint by blast
qed

theorem chunk_threads_safe_witness:
  "\<exists>s. ua_step\<^sup>*\<^sup>* (ua_start (uaSetup (vaSetup 7 (2 ^ 37) (2 ^ 20) False) 1000)) s \<and> parties_ok s \<and>
     (\<forall>c a k. live (uva (ua s)) c = Some (a, k) \<longrightarrow> 2 ^ 37 \<le> a \<and> a + k \<le> 2 ^ 37 + 2 ^ 20)"
proof -
  let ?s = "ua_start (uaSetup (vaSetup 7 (2 ^ 37) (2 ^ 20) False) 1000)"
  have r: "ua_step\<^sup>*\<^sup>* ?s ?s" by simp
  then show ?thesis using chunk_threads_safe [OF r] by (auto simp: CHI_CHUNK_MIN_SIZE_def CHI_CHUNK_MAX_SIZE_def)
qed

end
