(* ===== verification/Processor.thy ===== *)
theory Processor
  imports Prelude
begin

text \<open>
  Processors (\<^verbatim>\<open>src/native/processor.c\<close>): requests from any thread, the service loop, and the secondary worker
  that serves a processor while its primary worker is in protected code. The functions are the critical sections of
  the code; the boolean results say that a condition variable is signalled. The last part puts the primary worker,
  the secondary worker and the threads that make requests together as a step relation in which the
  mutex of the secondary worker is held across the sections of a request, and a signal wakes one sleeping worker.
  A processor is followed up to its end in the service loop: \<^verbatim>\<open>chiProcessorStop\<close>, which ends a processor from managed
  code, and \<^verbatim>\<open>waitProcessors\<close>, with which the main processor waits for the others, are not steps of the relation.
\<close>

datatype ChiProcessorRequest = REQUEST_TIMERINTERRUPT | REQUEST_EXIT | REQUEST_DUMP | REQUEST_USERINTERRUPT
  | REQUEST_NOTIFYINTERRUPT | REQUEST_PROMOTE | REQUEST_SCAVENGE | REQUEST_HANDSHAKE

datatype ChiSecondaryStatus = SECONDARY_INACTIVE | SECONDARY_ACTIVE | SECONDARY_RUN | SECONDARY_STOP

record processor =
  pwid :: u32
  t_interrupt :: bool
  t_exit :: bool
  t_dump :: bool
  t_timer :: bool
  t_user :: bool
  t_notify :: bool
  t_scavenge :: bool
  t_promote :: bool
  hl_zero :: bool
  suspend_timeout :: u64
  status :: ChiSecondaryStatus

section \<open>Requests\<close>

definition interruptProcessor :: "processor \<Rightarrow> processor" where
  "interruptProcessor p = p\<lparr> t_interrupt := True, hl_zero := True \<rparr>"

text \<open>The switch of \<^verbatim>\<open>chiProcessorRequest\<close>; None: the request is dropped.\<close>

definition requestTrigger :: "ChiProcessorRequest \<Rightarrow> processor \<Rightarrow> processor option" where
  "requestTrigger r p =
     (case r of
        REQUEST_TIMERINTERRUPT \<Rightarrow>
          if status p \<noteq> SECONDARY_INACTIVE then None
          else Some (if t_timer p then p else p\<lparr> t_timer := True \<rparr>)
      | REQUEST_EXIT \<Rightarrow> Some (p\<lparr> t_exit := True \<rparr>)
      | REQUEST_DUMP \<Rightarrow> Some (p\<lparr> t_dump := True \<rparr>)
      | REQUEST_USERINTERRUPT \<Rightarrow> Some (p\<lparr> t_user := True \<rparr>)
      | REQUEST_NOTIFYINTERRUPT \<Rightarrow> Some (p\<lparr> t_notify := True \<rparr>)
      | REQUEST_PROMOTE \<Rightarrow> Some (p\<lparr> t_promote := True, t_scavenge := True \<rparr>)
      | REQUEST_SCAVENGE \<Rightarrow> Some (p\<lparr> t_scavenge := True \<rparr>)
      | REQUEST_HANDSHAKE \<Rightarrow> Some p)"

text \<open>A suspended processor is woken: the result says whether \<^verbatim>\<open>suspend.cond\<close> is signalled.\<close>

definition requestWake :: "ChiProcessorRequest \<Rightarrow> processor \<Rightarrow> processor \<times> bool" where
  "requestWake r p =
     (if r \<in> {REQUEST_USERINTERRUPT, REQUEST_NOTIFYINTERRUPT, REQUEST_EXIT} \<and> suspend_timeout p \<noteq> 0
      then (p\<lparr> suspend_timeout := 0 \<rparr>, True) else (p, False))"

text \<open>The processor after the request, and whether \<^verbatim>\<open>suspend.cond\<close> and the condition of the secondary worker
  are signalled.\<close>

definition chiProcessorRequest :: "ChiProcessorRequest \<Rightarrow> processor \<Rightarrow> processor \<times> bool \<times> bool" where
  "chiProcessorRequest r p =
     (case requestTrigger r p of
        None \<Rightarrow> (p, False, False)
      | Some p \<Rightarrow> (let p = interruptProcessor p; (p, wake) = requestWake r p in (p, wake, status p = SECONDARY_ACTIVE)))"

definition chiProcessorMain :: "processor \<Rightarrow> bool" where
  "chiProcessorMain p \<longleftrightarrow> pwid p = 0"

definition chiProcessorRequestAll :: "ChiProcessorRequest \<Rightarrow> processor list \<Rightarrow> processor list" where
  "chiProcessorRequestAll r ps = map (\<lambda>p. fst (chiProcessorRequest r p)) ps"

fun chiProcessorRequestMain :: "ChiProcessorRequest \<Rightarrow> processor list \<Rightarrow> processor list" where
  "chiProcessorRequestMain r [] = []"
| "chiProcessorRequestMain r (p # ps) =
     (if chiProcessorMain p then fst (chiProcessorRequest r p) # ps else p # chiProcessorRequestMain r ps)"

definition chiProcessorNotify :: "processor \<Rightarrow> processor \<times> bool \<times> bool" where
  "chiProcessorNotify p = chiProcessorRequest REQUEST_NOTIFYINTERRUPT p"

definition chiProcessorSuspend :: "u64 \<Rightarrow> processor \<Rightarrow> processor" where
  "chiProcessorSuspend ms p = p\<lparr> suspend_timeout := ms \<rparr>"

section \<open>The secondary worker\<close>

datatype secondary_decision = Secondary_break | Secondary_wait | Secondary_serve processor

text \<open>The section at the head of the loop of \<^verbatim>\<open>secondaryRun\<close>.\<close>

definition secondaryHead :: "processor \<Rightarrow> secondary_decision" where
  "secondaryHead p =
     (if status p = SECONDARY_STOP then Secondary_break
      else if status p = SECONDARY_INACTIVE \<or> status p = SECONDARY_ACTIVE \<and> \<not> t_interrupt p then Secondary_wait
      else Secondary_serve (p\<lparr> status := SECONDARY_RUN \<rparr>))"

text \<open>The section at its end; the condition is signalled when the result says so.\<close>

definition secondaryTail :: "processor \<Rightarrow> processor \<times> bool" where
  "secondaryTail p = (if \<not> t_interrupt p then (p\<lparr> status := SECONDARY_ACTIVE \<rparr>, True) else (p, False))"

definition secondaryStop :: "processor \<Rightarrow> processor \<times> bool" where
  "secondaryStop p = (p\<lparr> status := SECONDARY_STOP \<rparr>, True)"

definition secondaryActivate :: "processor \<Rightarrow> processor \<times> bool" where
  "secondaryActivate p = (p\<lparr> status := SECONDARY_ACTIVE \<rparr>, t_interrupt p)"

text \<open>One look of \<^verbatim>\<open>secondaryDeactivate\<close> at the status; None: it waits.\<close>

definition secondaryDeactivate :: "processor \<Rightarrow> processor option" where
  "secondaryDeactivate p = (if status p \<noteq> SECONDARY_ACTIVE then None else Some (p\<lparr> status := SECONDARY_INACTIVE \<rparr>))"

definition chiProtectBegin :: "processor \<Rightarrow> processor \<times> bool" where
  "chiProtectBegin p = secondaryActivate p"

text \<open>What \<^verbatim>\<open>chiProcessorProtectEnd\<close> does after the deactivation.\<close>

definition protectEndRaise :: "processor \<Rightarrow> processor" where
  "protectEndRaise p = (if t_exit p \<or> t_user p then p\<lparr> t_interrupt := True \<rparr> else p)"

section \<open>Service\<close>

definition serviceExit :: "bool \<Rightarrow> processor \<Rightarrow> bool" where
  "serviceExit primary p \<longleftrightarrow> primary \<and> t_exit p"

definition serviceDump :: "processor \<Rightarrow> processor" where
  "serviceDump p = (if t_dump p then p\<lparr> t_dump := False \<rparr> else p)"

text \<open>The loop head of \<^verbatim>\<open>chiProcessorService\<close>; None: the loop ends.\<close>

definition serviceHead :: "processor \<Rightarrow> processor option" where
  "serviceHead p = (if t_interrupt p then Some (p\<lparr> t_interrupt := False \<rparr>) else None)"

text \<open>The collector's part of an iteration, for the triggers: a scavenge takes a promote request with it and clears its
  trigger when it has finished (\<^verbatim>\<open>chiGCSlice\<close>). The argument says that a snapshot is due.\<close>

definition sliceBegin :: "bool \<Rightarrow> processor \<Rightarrow> processor option" where
  "sliceBegin snapshot p =
     (if t_scavenge p \<or> snapshot then Some (if t_promote p then p\<lparr> t_promote := False \<rparr> else p) else None)"

definition sliceEnd :: "processor \<Rightarrow> processor" where
  "sliceEnd p = p\<lparr> t_scavenge := False \<rparr>"

text \<open>The interrupt a restored thread receives first (\<^verbatim>\<open>chiRestoreCont\<close> in \<^verbatim>\<open>src/native/runtime.c\<close>).\<close>

datatype entry_point = EP_USERINTERRUPT | EP_NOTIFYINTERRUPT | EP_TIMERINTERRUPT

definition restoreInterrupt :: "bool \<Rightarrow> processor \<Rightarrow> entry_point option \<times> processor" where
  "restoreInterrupt interruptible p =
     (if \<not> interruptible then (None, p)
      else if t_user p then (Some EP_USERINTERRUPT, p\<lparr> t_user := False \<rparr>)
      else if t_notify p then (Some EP_NOTIFYINTERRUPT, p\<lparr> t_notify := False \<rparr>)
      else if t_timer p then (Some EP_TIMERINTERRUPT, p\<lparr> t_timer := False \<rparr>)
      else (None, p))"

section \<open>The workers and the requesters together\<close>

text \<open>Where a worker is in \<^verbatim>\<open>chiProcessorService\<close>.\<close>

datatype service_pc = V_Loop | V_Slice | V_Scavenge | V_Dump | V_Exit

text \<open>The primary worker: managed code, service, protected code, the wait for the secondary worker, the
  raise that follows it, and the shutdown.\<close>

datatype primary_pc = P_Run | P_Service service_pc | P_Protected | P_Deactivate | P_Sleep | P_Raise
  | P_Stop | P_Join | P_Gone

datatype secondary_pc = S_Head | S_Sleep | S_Service service_pc | S_Tail | S_Done

text \<open>A request in progress: the thread that makes it holds the mutex of the secondary worker. The flag says that
  \<open>interruptProcessor\<close> is done.\<close>

record workers =
  proc :: processor
  primary :: primary_pc
  secondary :: secondary_pc
  request :: "(ChiProcessorRequest \<times> bool) option"

text \<open>A signal wakes one sleeper; the flag prefers the primary worker.\<close>

definition wake_one :: "bool \<Rightarrow> workers \<Rightarrow> workers" where
  "wake_one first w =
     (if primary w = P_Sleep \<and> (first \<or> secondary w \<noteq> S_Sleep) then w\<lparr> primary := P_Deactivate \<rparr>
      else if secondary w = S_Sleep then w\<lparr> secondary := S_Head \<rparr>
      else w)"

definition signal_if :: "bool \<Rightarrow> bool \<Rightarrow> workers \<Rightarrow> workers" where
  "signal_if sig first w = (if sig then wake_one first w else w)"

text \<open>One step of the service loop: the processor and where the loop goes on; None: it ends.\<close>

inductive service_step :: "service_pc \<Rightarrow> processor \<Rightarrow> service_pc option \<Rightarrow> processor \<Rightarrow> bool" where
  loop: "serviceHead p = Some q \<Longrightarrow> service_step V_Loop p (Some V_Slice) q"
| leave: "serviceHead p = None \<Longrightarrow> service_step V_Loop p None p"
| slice: "sliceBegin snapshot p = Some q \<Longrightarrow> service_step V_Slice p (Some V_Scavenge) q"
| no_slice: "sliceBegin snapshot p = None \<Longrightarrow> service_step V_Slice p (Some V_Dump) p"
| scavenge: "service_step V_Scavenge p (Some V_Dump) (sliceEnd p)"
| dump: "service_step V_Dump p (Some V_Exit) (serviceDump p)"
| again: "\<not> t_exit p \<Longrightarrow> service_step V_Exit p (Some V_Loop) p"

text \<open>The steps of the two workers, and those of other threads.\<close>

inductive worker_step :: "workers \<Rightarrow> workers \<Rightarrow> bool" where
  enter_service: "primary w = P_Run \<Longrightarrow> t_interrupt (proc w) \<Longrightarrow> worker_step w (w\<lparr>primary := P_Service V_Loop\<rparr>)"
| primary_service: "primary w = P_Service v \<Longrightarrow> service_step v (proc w) (Some v') q \<Longrightarrow>
    worker_step w (w\<lparr>proc := q, primary := P_Service v'\<rparr>)"
| primary_leave: "primary w = P_Service v \<Longrightarrow> service_step v (proc w) None q \<Longrightarrow> worker_step w (w\<lparr>proc := q, primary := P_Run\<rparr>)"
| primary_exit: "primary w = P_Service V_Exit \<Longrightarrow> serviceExit True (proc w) \<Longrightarrow> worker_step w (w\<lparr>primary := P_Stop\<rparr>)"
| deactivate: "primary w = P_Deactivate \<Longrightarrow> request w = None \<Longrightarrow> secondaryDeactivate (proc w) = Some q \<Longrightarrow>
    worker_step w (w\<lparr>proc := q, primary := P_Raise\<rparr>)"
| primary_wait: "primary w = P_Deactivate \<Longrightarrow> request w = None \<Longrightarrow> secondaryDeactivate (proc w) = None \<Longrightarrow>
    worker_step w (w\<lparr>primary := P_Sleep\<rparr>)"
| raise: "primary w = P_Raise \<Longrightarrow> worker_step w (w\<lparr>proc := protectEndRaise (proc w), primary := P_Run\<rparr>)"
| stop: "primary w = P_Stop \<Longrightarrow> request w = None \<Longrightarrow> secondaryStop (proc w) = (q, sig) \<Longrightarrow>
    worker_step w (signal_if sig first (w\<lparr>proc := q, primary := P_Join\<rparr>))"
| join: "primary w = P_Join \<Longrightarrow> secondary w = S_Done \<Longrightarrow> worker_step w (w\<lparr>primary := P_Gone\<rparr>)"
| head_break: "secondary w = S_Head \<Longrightarrow> request w = None \<Longrightarrow> secondaryHead (proc w) = Secondary_break \<Longrightarrow>
    worker_step w (w\<lparr>secondary := S_Done\<rparr>)"
| head_wait: "secondary w = S_Head \<Longrightarrow> request w = None \<Longrightarrow> secondaryHead (proc w) = Secondary_wait \<Longrightarrow>
    worker_step w (w\<lparr>secondary := S_Sleep\<rparr>)"
| head_serve: "secondary w = S_Head \<Longrightarrow> request w = None \<Longrightarrow> secondaryHead (proc w) = Secondary_serve q \<Longrightarrow>
    worker_step w (w\<lparr>proc := q, secondary := S_Service V_Loop\<rparr>)"
| secondary_service: "secondary w = S_Service v \<Longrightarrow> service_step v (proc w) (Some v') q \<Longrightarrow>
    worker_step w (w\<lparr>proc := q, secondary := S_Service v'\<rparr>)"
| secondary_exit: "secondary w = S_Service V_Exit \<Longrightarrow> \<not> serviceExit False (proc w) \<Longrightarrow>
    worker_step w (w\<lparr>secondary := S_Service V_Loop\<rparr>)"
| secondary_leave: "secondary w = S_Service v \<Longrightarrow> service_step v (proc w) None q \<Longrightarrow>
    worker_step w (w\<lparr>proc := q, secondary := S_Tail\<rparr>)"
| tail: "secondary w = S_Tail \<Longrightarrow> request w = None \<Longrightarrow> secondaryTail (proc w) = (q, sig) \<Longrightarrow>
    worker_step w (signal_if sig first (w\<lparr>proc := q, secondary := S_Head\<rparr>))"
| request_interrupt: "request w = Some (r, False) \<Longrightarrow>
    worker_step w (w\<lparr>proc := interruptProcessor (proc w), request := Some (r, True)\<rparr>)"
| request_end: "request w = Some (r, True) \<Longrightarrow> requestWake r (proc w) = (q, wake) \<Longrightarrow>
    worker_step w (signal_if (status q = SECONDARY_ACTIVE) first (w\<lparr>proc := q, request := None\<rparr>))"

inductive outside_step :: "workers \<Rightarrow> workers \<Rightarrow> bool" where
  request_begin: "request w = None \<Longrightarrow> requestTrigger r (proc w) = Some q \<Longrightarrow>
    outside_step w (w\<lparr>proc := q, request := Some (r, False)\<rparr>)"
| protect_begin: "primary w = P_Run \<Longrightarrow> request w = None \<Longrightarrow> chiProtectBegin (proc w) = (q, sig) \<Longrightarrow>
    outside_step w (signal_if sig first (w\<lparr>proc := q, primary := P_Protected\<rparr>))"
| protect_end: "primary w = P_Protected \<Longrightarrow> outside_step w (w\<lparr>primary := P_Deactivate\<rparr>)"
| suspend: "primary w = P_Run \<Longrightarrow> outside_step w (w\<lparr>proc := chiProcessorSuspend ms (proc w)\<rparr>)"
| restore: "primary w = P_Run \<Longrightarrow> restoreInterrupt b (proc w) = (ep, q) \<Longrightarrow> outside_step w (w\<lparr>proc := q\<rparr>)"
| spurious_primary: "primary w = P_Sleep \<Longrightarrow> outside_step w (w\<lparr>primary := P_Deactivate\<rparr>)"
| spurious_secondary: "secondary w = S_Sleep \<Longrightarrow> outside_step w (w\<lparr>secondary := S_Head\<rparr>)"

definition any_step :: "workers \<Rightarrow> workers \<Rightarrow> bool" where
  "any_step w w' \<longleftrightarrow> worker_step w w' \<or> outside_step w w'"

definition workers_start :: "u32 \<Rightarrow> workers" where
  "workers_start wid =
     \<lparr> proc = \<lparr> pwid = wid, t_interrupt = False, t_exit = False, t_dump = False, t_timer = False, t_user = False,
        t_notify = False, t_scavenge = False, t_promote = False, hl_zero = False, suspend_timeout = 0,
        status = SECONDARY_INACTIVE \<rparr>,
       primary = P_Run, secondary = S_Head, request = None \<rparr>"

section \<open>The invariant of the workers\<close>

fun primary_status :: "primary_pc \<Rightarrow> ChiSecondaryStatus set" where
  "primary_status P_Protected = {SECONDARY_ACTIVE, SECONDARY_RUN}"
| "primary_status P_Deactivate = {SECONDARY_ACTIVE, SECONDARY_RUN}"
| "primary_status P_Sleep = {SECONDARY_RUN}"
| "primary_status P_Join = {SECONDARY_STOP}"
| "primary_status P_Gone = {SECONDARY_STOP}"
| "primary_status _ = {SECONDARY_INACTIVE}"

fun secondary_status :: "secondary_pc \<Rightarrow> ChiSecondaryStatus set" where
  "secondary_status S_Head = UNIV"
| "secondary_status S_Sleep = {SECONDARY_INACTIVE, SECONDARY_ACTIVE}"
| "secondary_status S_Done = {SECONDARY_STOP}"
| "secondary_status _ = {SECONDARY_RUN}"

text \<open>The status of the secondary worker fits both workers; an interrupt is pending when it goes round with status
  RUN, and when it sleeps in an active processor only until the request that raised the interrupt signals.\<close>

definition workers_ok :: "workers \<Rightarrow> bool" where
  "workers_ok w \<longleftrightarrow>
     status (proc w) \<in> primary_status (primary w) \<and> status (proc w) \<in> secondary_status (secondary w) \<and>
     (secondary w = S_Head \<longrightarrow> status (proc w) = SECONDARY_RUN \<longrightarrow> t_interrupt (proc w)) \<and>
     (secondary w = S_Sleep \<longrightarrow> status (proc w) = SECONDARY_ACTIVE \<longrightarrow> t_interrupt (proc w) \<longrightarrow>
        (\<exists>r. request w = Some (r, True)))"

lemmas section_defs = interruptProcessor_def requestWake_def secondaryHead_def secondaryTail_def secondaryStop_def
  secondaryActivate_def secondaryDeactivate_def chiProtectBegin_def protectEndRaise_def serviceExit_def serviceDump_def
  serviceHead_def sliceBegin_def sliceEnd_def restoreInterrupt_def chiProcessorSuspend_def

inductive_cases service_stepE: "service_step v p v' q"
inductive_simps service_leave: "service_step v p None q"

lemma service_keeps:
  "service_step v p v' q \<Longrightarrow> status q = status p \<and> (t_interrupt q \<longrightarrow> t_interrupt p) \<and> pwid q = pwid p \<and> t_exit q = t_exit p"
  by (erule service_stepE) (auto simp: section_defs split: if_splits)

lemma request_keeps: "requestTrigger r p = Some q \<Longrightarrow> status q = status p \<and> t_interrupt q = t_interrupt p"
  by (auto simp: requestTrigger_def split: ChiProcessorRequest.splits if_splits)

lemma wake_one_sections [simp]: "proc (wake_one b w) = proc w" "request (wake_one b w) = request w"
  by (auto simp: wake_one_def)

lemma signal_if_sections [simp]: "proc (signal_if s b w) = proc w" "request (signal_if s b w) = request w"
  by (auto simp: signal_if_def)

lemma wake_one_ok:
  assumes "status (proc w) \<in> primary_status (primary w) \<or> primary w = P_Sleep \<and> status (proc w) = SECONDARY_ACTIVE"
    and "status (proc w) \<in> secondary_status (secondary w) \<or> secondary w = S_Sleep \<and> status (proc w) \<noteq> SECONDARY_RUN"
    and "secondary w = S_Head \<longrightarrow> status (proc w) = SECONDARY_RUN \<longrightarrow> t_interrupt (proc w)"
    and "primary w \<noteq> P_Sleep \<or> secondary w \<noteq> S_Sleep"
  shows "workers_ok (wake_one b w)"
  using assms by (auto simp: workers_ok_def wake_one_def)

lemma worker_step_ok:
  assumes step: "worker_step w w'" and ok: "workers_ok w"
  shows "workers_ok w'"
  using step
proof (cases rule: worker_step.cases)
  case (primary_service v v' q)
  then show ?thesis using ok service_keeps [OF primary_service(3)] by (auto simp: workers_ok_def)
next
  case (primary_leave v q)
  then show ?thesis using ok by (auto simp: workers_ok_def service_leave section_defs split: if_splits)
next
  case (deactivate q)
  then show ?thesis using ok by (cases "secondary w") (auto simp: workers_ok_def section_defs split: if_splits)
next
  case (head_serve q)
  then show ?thesis using ok
    by (cases "status (proc w)"; cases "primary w") (auto simp: workers_ok_def section_defs split: if_splits)
next
  case (stop q sig first)
  have "workers_ok (wake_one first (w\<lparr>proc := q, primary := P_Join\<rparr>))"
    using stop ok by (intro wake_one_ok; cases "secondary w") (auto simp: workers_ok_def section_defs)
  then show ?thesis using stop by (auto simp: section_defs signal_if_def)
next
  case (secondary_service v v' q)
  then show ?thesis using ok service_keeps [OF secondary_service(3)] by (auto simp: workers_ok_def)
next
  case (secondary_leave v q)
  then show ?thesis using ok by (auto simp: workers_ok_def service_leave section_defs split: if_splits)
next
  case (tail q sig first)
  show ?thesis
  proof (cases "t_interrupt (proc w)")
    case False
    then have "workers_ok (wake_one first (w\<lparr>proc := q, secondary := S_Head\<rparr>))"
      using tail ok by (intro wake_one_ok; cases "primary w") (auto simp: workers_ok_def section_defs)
    then show ?thesis using tail False by (auto simp: section_defs signal_if_def)
  qed (use tail ok in \<open>auto simp: section_defs signal_if_def workers_ok_def\<close>)
next
  case (request_end r q wake first)
  have q: "status q = status (proc w)" "t_interrupt q = t_interrupt (proc w)"
    using request_end by (auto simp: section_defs split: if_splits)
  show ?thesis
  proof (cases "status q = SECONDARY_ACTIVE")
    case True
    then have "workers_ok (wake_one first (w\<lparr>proc := q, request := None\<rparr>))"
      using request_end ok q by (intro wake_one_ok) (auto simp: workers_ok_def)
    then show ?thesis using request_end True by (simp add: signal_if_def)
  qed (use request_end ok q in \<open>auto simp: signal_if_def workers_ok_def\<close>)
qed (use ok in \<open>auto simp: workers_ok_def section_defs split: if_splits\<close>)

lemma outside_step_ok:
  assumes step: "outside_step w w'" and ok: "workers_ok w"
  shows "workers_ok w'"
  using step
proof (cases rule: outside_step.cases)
  case (request_begin r q)
  then show ?thesis using ok request_keeps [OF request_begin(3)] by (auto simp: workers_ok_def)
next
  case (protect_begin q sig first)
  show ?thesis
  proof (cases "t_interrupt (proc w)")
    case True
    then have "workers_ok (wake_one first (w\<lparr>proc := q, primary := P_Protected\<rparr>))"
      using protect_begin ok by (intro wake_one_ok; cases "secondary w") (auto simp: workers_ok_def section_defs)
    then show ?thesis using protect_begin True by (simp add: section_defs signal_if_def)
  qed (use protect_begin ok in \<open>cases "secondary w"; auto simp: signal_if_def workers_ok_def section_defs\<close>)
qed (use ok in \<open>auto simp: workers_ok_def section_defs split: if_splits\<close>)

lemma workers_reachable_ok:
  assumes "any_step\<^sup>*\<^sup>* (workers_start wid) w"
  shows "workers_ok w"
  using assms
proof (induction rule: rtranclp_induct)
  case base
  then show ?case by (simp add: workers_ok_def workers_start_def)
next
  case (step w w')
  then show ?case using worker_step_ok outside_step_ok by (auto simp: any_step_def)
qed

section \<open>Requests are not lost\<close>

text \<open>A worker is in the part \<open>V\<close> of an iteration of the service loop.\<close>

definition serving :: "service_pc set \<Rightarrow> workers \<Rightarrow> bool" where
  "serving V w \<longleftrightarrow> (\<exists>v \<in> V. primary w = P_Service v \<or> secondary w = S_Service v)"

text \<open>The interrupt that makes a worker look at the triggers is raised, or will be by a request in progress.\<close>

definition will_look :: "workers \<Rightarrow> bool" where
  "will_look w \<longleftrightarrow> t_interrupt (proc w) \<or> (\<exists>r. request w = Some (r, False))"

definition exit_kept :: "workers \<Rightarrow> bool" where
  "exit_kept w \<longleftrightarrow> (t_exit (proc w) \<longrightarrow> will_look w \<or> primary w \<notin> {P_Run, P_Service V_Loop})"

text \<open>A trigger \<open>t\<close> that the service loop handles in its part \<open>V\<close>: no other section writes it, and an iteration does
  not leave the part without clearing it.\<close>

locale served_trigger =
  fixes t :: "processor \<Rightarrow> bool" and V :: "service_pc set"
  assumes service: "service_step v p v' q \<Longrightarrow> t q \<Longrightarrow> t p \<and> ((\<exists>x \<in> V. v' = Some x) \<or> t_interrupt q = t_interrupt p \<and> v \<notin> V)"
    and last: "V_Exit \<notin> V"
    and status [simp]: "t (p\<lparr>status := s\<rparr>) = t p"
    and suspended [simp]: "t (p\<lparr>suspend_timeout := n\<rparr>) = t p"
    and interrupted [simp]: "t (p\<lparr>t_interrupt := i\<rparr>) = t p" "t (p\<lparr>hl_zero := i\<rparr>) = t p"
    and taken [simp]: "t (p\<lparr>t_user := i\<rparr>) = t p" "t (p\<lparr>t_notify := i\<rparr>) = t p" "t (p\<lparr>t_timer := i\<rparr>) = t p"
begin

definition kept :: "workers \<Rightarrow> bool" where
  "kept w \<longleftrightarrow> (t (proc w) \<longrightarrow> will_look w \<or> serving V w)"

lemma wake_one_kept: "kept w \<Longrightarrow> kept (signal_if s b w)"
  by (auto simp: kept_def wake_one_def signal_if_def will_look_def serving_def)

lemma worker_step_kept:
  assumes step: "worker_step w w'" and ok: "kept w"
  shows "kept w'"
  using step
proof (cases rule: worker_step.cases)
  case (primary_service v v' q)
  then show ?thesis using service [OF primary_service(3)] ok by (auto simp: kept_def will_look_def serving_def)
next
  case (primary_leave v q)
  then show ?thesis using service [OF primary_leave(3)] ok by (auto simp: kept_def will_look_def serving_def)
next
  case (primary_exit)
  then show ?thesis using last ok by (auto simp: kept_def will_look_def serving_def)
next
  case (stop q sig first)
  have "kept (w\<lparr>proc := q, primary := P_Join\<rparr>)" using stop ok
    by (auto simp: kept_def will_look_def serving_def section_defs)
  then show ?thesis using stop wake_one_kept by blast
next
  case (secondary_service v v' q)
  then show ?thesis using service [OF secondary_service(3)] ok by (auto simp: kept_def will_look_def serving_def)
next
  case (secondary_leave v q)
  then show ?thesis using service [OF secondary_leave(3)] ok by (auto simp: kept_def will_look_def serving_def)
next
  case (tail q sig first)
  have "kept (w\<lparr>proc := q, secondary := S_Head\<rparr>)" using tail ok
    by (auto simp: kept_def will_look_def serving_def section_defs split: if_splits)
  then show ?thesis using tail wake_one_kept by blast
next
  case (request_end r q wake first)
  have "kept (w\<lparr>proc := q, request := None\<rparr>)" using request_end ok
    by (auto simp: kept_def will_look_def serving_def section_defs split: if_splits)
  then show ?thesis using request_end wake_one_kept by blast
qed (use ok last in \<open>auto simp: kept_def will_look_def serving_def section_defs split: if_splits\<close>)

lemma outside_step_kept:
  assumes step: "outside_step w w'" and ok: "kept w"
  shows "kept w'"
  using step
proof (cases rule: outside_step.cases)
  case (protect_begin q sig first)
  have "kept (w\<lparr>proc := q, primary := P_Protected\<rparr>)" using protect_begin ok
    by (auto simp: kept_def will_look_def serving_def section_defs)
  then show ?thesis using protect_begin wake_one_kept by blast
qed (use ok in \<open>auto simp: kept_def will_look_def serving_def section_defs split: if_splits\<close>)

lemma reachable_kept:
  assumes "any_step\<^sup>*\<^sup>* (workers_start wid) w" "\<not> t (proc (workers_start wid))"
  shows "t (proc w) \<longrightarrow> will_look w \<or> serving V w"
  using assms(1)
proof -
  have "kept w" using assms(1)
  proof (induction rule: rtranclp_induct)
    case base
    then show ?case using assms(2) by (simp add: kept_def)
  next
    case (step w w')
    then show ?case unfolding any_step_def using worker_step_kept outside_step_kept by blast
  qed
  then show ?thesis by (simp add: kept_def)
qed

end

interpretation dump: served_trigger t_dump "{V_Slice, V_Scavenge, V_Dump}"
  by unfold_locales (auto elim!: service_stepE simp: section_defs split: if_splits)

interpretation scavenge: served_trigger t_scavenge "{V_Slice, V_Scavenge}"
  by unfold_locales (auto elim!: service_stepE simp: section_defs split: if_splits)

lemma exit_kept_signal: "exit_kept w \<Longrightarrow> exit_kept (signal_if s b w)"
  by (auto simp: exit_kept_def will_look_def wake_one_def signal_if_def)

lemma exit_step_kept:
  assumes step: "any_step w w'" and ok: "exit_kept w" and ws: "workers_ok w"
  shows "exit_kept w'"
proof -
  have "exit_kept w'" if "worker_step w w'"
    using that
  proof (cases rule: worker_step.cases)
    case (primary_service v v' q)
    then show ?thesis using ok by (auto elim!: service_stepE simp: exit_kept_def will_look_def section_defs split: if_splits)
  next
    case (stop q sig first)
    have "exit_kept (w\<lparr>proc := q, primary := P_Join\<rparr>)" using stop ok by (auto simp: exit_kept_def)
    then show ?thesis using stop exit_kept_signal by blast
  next
    case (secondary_service v v' q)
    then have "primary w \<notin> {P_Run, P_Service V_Loop}" using ws by (auto simp: workers_ok_def)
    then show ?thesis using secondary_service by (simp add: exit_kept_def)
  next
    case (tail q sig first)
    have "exit_kept (w\<lparr>proc := q, secondary := S_Head\<rparr>)" using tail ok
      by (auto simp: exit_kept_def will_look_def section_defs split: if_splits)
    then show ?thesis using tail exit_kept_signal by blast
  next
    case (request_end r q wake first)
    have "exit_kept (w\<lparr>proc := q, request := None\<rparr>)" using request_end ok
      by (auto simp: exit_kept_def will_look_def section_defs split: if_splits)
    then show ?thesis using request_end exit_kept_signal by blast
  qed (use ok in \<open>auto simp: exit_kept_def will_look_def section_defs service_leave split: if_splits\<close>)
  moreover have "exit_kept w'" if "outside_step w w'"
    using that
  proof (cases rule: outside_step.cases)
    case (protect_begin q sig first)
    have "exit_kept (w\<lparr>proc := q, primary := P_Protected\<rparr>)" using protect_begin ok by (auto simp: exit_kept_def)
    then show ?thesis using protect_begin exit_kept_signal by blast
  qed (use ok in \<open>auto simp: exit_kept_def will_look_def section_defs split: if_splits\<close>)
  ultimately show ?thesis using step by (auto simp: any_step_def)
qed

lemma exit_reachable_kept: "any_step\<^sup>*\<^sup>* (workers_start wid) w \<Longrightarrow> exit_kept w"
proof (induction rule: rtranclp_induct)
  case base
  then show ?case by (simp add: exit_kept_def workers_start_def)
qed (use exit_step_kept workers_reachable_ok in blast)

section \<open>The workers come to rest\<close>

fun service_weight :: "bool \<Rightarrow> service_pc \<Rightarrow> nat" where
  "service_weight i V_Slice = 16"
| "service_weight i V_Scavenge = 15"
| "service_weight i V_Dump = 14"
| "service_weight i V_Exit = 13"
| "service_weight i V_Loop = (if i then 5 else 12)"

fun primary_weight :: "bool \<Rightarrow> primary_pc \<Rightarrow> nat" where
  "primary_weight i (P_Service v) = service_weight i v"
| "primary_weight i P_Run = 11"
| "primary_weight i P_Protected = 45"
| "primary_weight i P_Deactivate = 44"
| "primary_weight i P_Sleep = 43"
| "primary_weight i P_Raise = 42"
| "primary_weight i P_Stop = 8"
| "primary_weight i P_Join = 1"
| "primary_weight i P_Gone = 0"

fun secondary_weight :: "bool \<Rightarrow> secondary_pc \<Rightarrow> nat" where
  "secondary_weight i (S_Service v) = service_weight i v"
| "secondary_weight i S_Tail = 11"
| "secondary_weight i S_Head = 6"
| "secondary_weight i S_Sleep = 1"
| "secondary_weight i S_Done = 0"

definition request_weight :: "(ChiProcessorRequest \<times> bool) option \<Rightarrow> nat" where
  "request_weight r = (case r of None \<Rightarrow> 0 | Some (_, True) \<Rightarrow> 7 | Some (_, False) \<Rightarrow> 40)"

definition weight :: "workers \<Rightarrow> nat" where
  "weight w = (let i = t_interrupt (proc w) in
     primary_weight i (primary w) + secondary_weight i (secondary w) + request_weight (request w) + (if i then 30 else 0))"

lemma weight_bound: "weight w \<le> 131"
proof -
  have v: "service_weight i v \<le> 16" for i v by (cases v) auto
  have "primary_weight i p \<le> 45" for i p using v by (cases p) (auto intro: le_trans [OF v])
  moreover have "secondary_weight i q \<le> 16" for i q using v by (cases q) auto
  moreover have "request_weight r \<le> 40" for r by (auto simp: request_weight_def split: option.splits bool.splits)
  ultimately have "primary_weight i p + secondary_weight i q + request_weight r + (if i then 30 else 0) \<le> 45 + 16 + 40 + 30" for i p q r
    by (intro add_mono) auto
  then show ?thesis by (simp add: weight_def Let_def)
qed

lemma service_step_weight:
  "service_step v p (Some v') q \<Longrightarrow>
     service_weight (t_interrupt q) v' + (if t_interrupt q then 30 else 0) < service_weight (t_interrupt p) v + (if t_interrupt p then 30 else 0) \<and>
     (t_interrupt q \<longrightarrow> t_interrupt p)"
  by (erule service_stepE) (auto simp: section_defs split: if_splits)

lemma service_weight_mono: "service_weight True v \<le> service_weight False v"
  by (cases v) auto

lemma primary_weight_mono: "primary_weight True x \<le> primary_weight False x"
  using service_weight_mono by (cases x) auto

lemma secondary_weight_mono: "secondary_weight True x \<le> secondary_weight False x"
  using service_weight_mono by (cases x) auto

lemma signal_weight: "weight (signal_if s b w) \<le> weight w + 5"
  by (auto simp: signal_if_def wake_one_def weight_def Let_def)

lemma primary_alone: "workers_ok w \<Longrightarrow> primary w = P_Service v \<Longrightarrow> secondary w \<in> {S_Head, S_Sleep}"
  by (cases "secondary w") (auto simp: workers_ok_def)

lemma secondary_alone: "workers_ok w \<Longrightarrow> secondary w \<in> {S_Service v, S_Tail} \<Longrightarrow> primary w \<in> {P_Protected, P_Deactivate, P_Sleep}"
  by (cases "primary w") (auto simp: workers_ok_def)

lemma raised_weight:
  "weight (w\<lparr>proc := (proc w)\<lparr>t_interrupt := True, hl_zero := h\<rparr>\<rparr>) \<le> weight w + 30"
  using primary_weight_mono [of "primary w"] secondary_weight_mono [of "secondary w"]
  by (cases "t_interrupt (proc w)") (auto simp: weight_def Let_def)

lemma worker_step_weight:
  assumes step: "worker_step w w'" and ok: "workers_ok w"
  shows "weight w' < weight w"
  using step
proof (cases rule: worker_step.cases)
  case (primary_service v v' q)
  then show ?thesis using service_step_weight [OF primary_service(3)] primary_alone [OF ok primary_service(2)]
    by (auto simp: weight_def Let_def)
next
  case (primary_leave v q)
  then show ?thesis by (auto simp: weight_def Let_def service_leave section_defs split: if_splits)
next
  case (stop q sig first)
  have "weight (w\<lparr>proc := q, primary := P_Join\<rparr>) + 5 < weight w" using stop by (auto simp: weight_def Let_def section_defs)
  then show ?thesis using signal_weight [of sig first "w\<lparr>proc := q, primary := P_Join\<rparr>"] stop by simp
next
  case (raise)
  then show ?thesis using secondary_weight_mono [of "secondary w"]
    by (auto simp: weight_def Let_def section_defs)
next
  case (secondary_service v v' q)
  then show ?thesis using service_step_weight [OF secondary_service(3)] secondary_alone [OF ok, of v]
    by (auto simp: weight_def Let_def)
next
  case (head_serve q)
  then have "t_interrupt (proc w)" using ok by (auto simp: workers_ok_def section_defs split: if_splits) (cases "status (proc w)"; auto)
  then show ?thesis using head_serve by (auto simp: weight_def Let_def section_defs split: if_splits)
next
  case (secondary_leave v q)
  then show ?thesis by (auto simp: weight_def Let_def service_leave section_defs split: if_splits)
next
  case (tail q sig first)
  show ?thesis
  proof (cases "t_interrupt (proc w)")
    case False
    then have "wake_one first (w\<lparr>proc := q, secondary := S_Head\<rparr>) \<in>
      {w\<lparr>proc := q, secondary := S_Head\<rparr>, w\<lparr>proc := q, secondary := S_Head, primary := P_Deactivate\<rparr>}"
      by (auto simp: wake_one_def)
    then show ?thesis using tail False by (auto simp: weight_def Let_def section_defs signal_if_def wake_one_def)
  qed (use tail in \<open>auto simp: weight_def Let_def section_defs signal_if_def\<close>)
next
  case (request_interrupt r)
  let ?w = "w\<lparr>proc := interruptProcessor (proc w)\<rparr>"
  have "weight ?w \<le> weight w + 30" using raised_weight [where w = w and h = True] by (simp add: interruptProcessor_def)
  moreover have "weight w' + 33 = weight ?w"
    using request_interrupt by (simp add: weight_def Let_def request_weight_def interruptProcessor_def)
  ultimately show ?thesis by simp
next
  case (request_end r q wake first)
  have "weight (w\<lparr>proc := q, request := None\<rparr>) + 7 = weight w"
    using request_end by (auto simp: weight_def Let_def section_defs request_weight_def split: if_splits)
  then show ?thesis using signal_weight [of "status q = SECONDARY_ACTIVE" first "w\<lparr>proc := q, request := None\<rparr>"] request_end by simp
qed (auto simp: weight_def Let_def section_defs split: if_splits)

lemma service_progress: "(\<exists>v' q. service_step v p v' q) \<or> v = V_Exit \<and> t_exit p"
proof (cases v)
  case V_Loop
  then show ?thesis using service_step.loop service_step.leave by (cases "serviceHead p") blast+
next
  case V_Slice
  then show ?thesis using service_step.slice service_step.no_slice by (cases "sliceBegin False p") blast+
qed (use service_step.intros in blast)+

lemma request_progress: "request w \<noteq> None \<Longrightarrow> \<exists>w'. worker_step w w'"
proof -
  assume "request w \<noteq> None"
  then obtain r b where r: "request w = Some (r, b)" by auto
  obtain q wake where q: "requestWake r (proc w) = (q, wake)" by fastforce
  show ?thesis
  proof (cases b)
    case True
    then have "request w = Some (r, True)" using r by simp
    then show ?thesis using worker_step.request_end q by blast
  next
    case False
    then have "request w = Some (r, False)" using r by simp
    then show ?thesis using worker_step.request_interrupt by blast
  qed
qed

lemma secondary_progress:
  assumes "request w = None" "secondary w \<notin> {S_Sleep, S_Done}"
  shows "\<exists>w'. worker_step w w'"
proof (cases "secondary w")
  case S_Head
  then show ?thesis using worker_step.head_break worker_step.head_wait worker_step.head_serve assms(1)
    by (cases "secondaryHead (proc w)") blast+
next
  case (S_Service v)
  then show ?thesis
    using service_progress [of v "proc w"] worker_step.secondary_service worker_step.secondary_leave worker_step.secondary_exit
    by (metis (full_types) not_Some_eq serviceExit_def)
next
  case S_Tail
  then show ?thesis using worker_step.tail assms(1) by (metis surj_pair)
qed (use assms in auto)

lemma primary_progress:
  assumes "workers_ok w" "request w = None" "secondary w \<in> {S_Sleep, S_Done}" "primary w \<notin> {P_Run, P_Protected, P_Gone}"
  shows "\<exists>w'. worker_step w w'"
proof (cases "primary w")
  case (P_Service v)
  then show ?thesis
    using service_progress [of v "proc w"] worker_step.primary_service worker_step.primary_leave worker_step.primary_exit
    by (metis (full_types) not_Some_eq serviceExit_def)
next
  case P_Deactivate
  then show ?thesis using worker_step.deactivate worker_step.primary_wait assms(2) by (cases "secondaryDeactivate (proc w)") blast+
next
  case P_Sleep
  then show ?thesis using assms(1,3) by (auto simp: workers_ok_def)
next
  case P_Raise
  then show ?thesis using worker_step.raise by blast
next
  case P_Stop
  then show ?thesis using worker_step.stop assms(2) by (metis surj_pair)
next
  case P_Join
  then have "secondary w = S_Done" using assms(1,3) by (auto simp: workers_ok_def)
  then show ?thesis using worker_step.join P_Join by blast
qed (use assms(4) in auto)

lemma at_rest:
  assumes r: "any_step\<^sup>*\<^sup>* (workers_start wid) w" and stuck: "\<nexists>w'. worker_step w w'"
  shows "request w = None \<and> primary w \<in> {P_Run, P_Protected, P_Gone} \<and> secondary w \<in> {S_Sleep, S_Done} \<and>
    (primary w \<noteq> P_Gone \<longrightarrow> \<not> t_interrupt (proc w))"
proof -
  have ok: "workers_ok w" using workers_reachable_ok [OF r] .
  have rq: "request w = None" using request_progress stuck by blast
  have sc: "secondary w \<in> {S_Sleep, S_Done}" using secondary_progress [OF rq] stuck by blast
  have pr: "primary w \<in> {P_Run, P_Protected, P_Gone}" using primary_progress [OF ok rq sc] stuck by blast
  have "\<not> t_interrupt (proc w)" if "primary w \<noteq> P_Gone"
  proof (cases "primary w = P_Run")
    case True
    then show ?thesis using worker_step.enter_service stuck by blast
  next
    case False
    then show ?thesis using that pr sc ok rq by (auto simp: workers_ok_def)
  qed
  then show ?thesis using rq sc pr by blast
qed

lemma any_step_one: "any_step a b \<Longrightarrow> any_step\<^sup>*\<^sup>* a b"
  by (rule r_into_rtranclp)

lemma any_step_next: "any_step\<^sup>*\<^sup>* a b \<Longrightarrow> any_step b c \<Longrightarrow> any_step\<^sup>*\<^sup>* a c"
  by (rule rtranclp.rtrancl_into_rtrancl)

lemma worker_steps_weight:
  "(worker_step ^^ n) w w' \<Longrightarrow> workers_ok w \<Longrightarrow> weight w' + n \<le> weight w \<and> workers_ok w'"
proof (induction n arbitrary: w')
  case (Suc n)
  then obtain v where v: "(worker_step ^^ n) w v" "worker_step v w'" by auto
  then show ?case using Suc worker_step_weight [OF v(2)] worker_step_ok [OF v(2)] by fastforce
qed auto

text \<open>C10: However requests, service, protected code and wake-ups interleave, the secondary worker serves a processor
  only while its primary worker is in protected code or waits to return from it, so that the two never run on
  the processor together; and no wake-up is lost: the primary worker never sleeps while the secondary worker sleeps,
  and the secondary worker does not sleep beside a pending interrupt unless the request that raised it
  is about to signal.\<close>

theorem workers_exclusive:
  assumes "any_step\<^sup>*\<^sup>* (workers_start wid) w"
  shows "(\<forall>v. secondary w = S_Service v \<longrightarrow> primary w \<in> {P_Protected, P_Deactivate, P_Sleep} \<and> status (proc w) = SECONDARY_RUN) \<and>
    (primary w = P_Sleep \<longrightarrow> secondary w \<notin> {S_Sleep, S_Done}) \<and>
    (secondary w = S_Sleep \<longrightarrow> primary w = P_Protected \<longrightarrow> t_interrupt (proc w) \<longrightarrow> (\<exists>r. request w = Some (r, True)))"
proof -
  have ok: "workers_ok w" using workers_reachable_ok [OF assms] .
  have "primary w \<in> {P_Protected, P_Deactivate, P_Sleep} \<and> status (proc w) = SECONDARY_RUN" if "secondary w = S_Service v" for v
    using secondary_alone [OF ok, of v] ok that by (auto simp: workers_ok_def)
  moreover have "secondary w \<notin> {S_Sleep, S_Done}" if "primary w = P_Sleep"
    using ok that by (auto simp: workers_ok_def)
  ultimately show ?thesis using ok by (auto simp: workers_ok_def)
qed

theorem workers_exclusive_witness:
  "\<exists>w v. any_step\<^sup>*\<^sup>* (workers_start 0) w \<and> secondary w = S_Service v \<and> primary w \<in> {P_Protected, P_Deactivate, P_Sleep}"
proof -
  let ?p = "proc (workers_start 0)"
  let ?w1 = "(workers_start 0)\<lparr>proc := ?p, request := Some (REQUEST_HANDSHAKE, False)\<rparr>"
  let ?w2 = "?w1\<lparr>proc := interruptProcessor ?p, request := Some (REQUEST_HANDSHAKE, True)\<rparr>"
  let ?w3 = "?w2\<lparr>request := None\<rparr>"
  let ?w4 = "?w3\<lparr>proc := (interruptProcessor ?p)\<lparr>status := SECONDARY_ACTIVE\<rparr>, primary := P_Protected\<rparr>"
  let ?w5 = "?w4\<lparr>proc := (interruptProcessor ?p)\<lparr>status := SECONDARY_RUN\<rparr>, secondary := S_Service V_Loop\<rparr>"
  note e = any_step_def
  have s1: "any_step (workers_start 0) ?w1"
    unfolding e using outside_step.request_begin [of "workers_start 0" REQUEST_HANDSHAKE ?p] by (simp add: requestTrigger_def workers_start_def)
  have s2: "any_step ?w1 ?w2"
    unfolding e using worker_step.request_interrupt [of ?w1 REQUEST_HANDSHAKE] by simp
  have s3: "any_step ?w2 ?w3"
    unfolding e using worker_step.request_end [of ?w2 REQUEST_HANDSHAKE "proc ?w2" False False]
    by (simp add: requestWake_def signal_if_def workers_start_def interruptProcessor_def)
  have s4: "any_step ?w3 ?w4"
    unfolding e using outside_step.protect_begin [of ?w3 "proc ?w4" True False]
    by (simp add: section_defs signal_if_def wake_one_def workers_start_def)
  have s5: "any_step ?w4 ?w5"
    unfolding e using worker_step.head_serve [of ?w4 "proc ?w5"] by (simp add: section_defs workers_start_def)
  have r: "any_step\<^sup>*\<^sup>* (workers_start 0) ?w5"
    by (rule any_step_next [OF any_step_next [OF any_step_next [OF any_step_next [OF any_step_one [OF s1] s2] s3] s4] s5])
  have "secondary ?w5 = S_Service V_Loop" by simp
  then show ?thesis using workers_exclusive [OF r] r by blast
qed

text \<open>Only the part of the service that serves a request takes its trigger away.\<close>

lemma service_takes:
  "service_step v p v' q \<Longrightarrow> (t_dump p \<and> \<not> t_dump q \<longrightarrow> v = V_Dump) \<and> (t_scavenge p \<and> \<not> t_scavenge q \<longrightarrow> v = V_Scavenge) \<and>
    (t_promote p \<and> \<not> t_promote q \<longrightarrow> v = V_Slice \<and> v' = Some V_Scavenge) \<and>
    t_exit q = t_exit p \<and> t_user q = t_user p \<and> t_notify q = t_notify p \<and> t_timer q = t_timer p"
  by (erule service_stepE) (auto simp: section_defs split: if_splits)

lemma request_adds:
  "requestTrigger r p = Some q \<Longrightarrow> (t_dump p \<longrightarrow> t_dump q) \<and> (t_scavenge p \<longrightarrow> t_scavenge q) \<and> (t_exit p \<longrightarrow> t_exit q) \<and>
    (t_promote p \<longrightarrow> t_promote q) \<and> (t_user p \<longrightarrow> t_user q) \<and> (t_notify p \<longrightarrow> t_notify q) \<and> (t_timer p \<longrightarrow> t_timer q)"
  by (auto simp: requestTrigger_def split: ChiProcessorRequest.splits if_splits)

lemma worker_takes:
  "worker_step w w' \<Longrightarrow> (t_dump (proc w) \<and> \<not> t_dump (proc w') \<longrightarrow> serving {V_Dump} w) \<and>
    (t_scavenge (proc w) \<and> \<not> t_scavenge (proc w') \<longrightarrow> serving {V_Scavenge} w) \<and>
    (t_promote (proc w) \<and> \<not> t_promote (proc w') \<longrightarrow> serving {V_Slice} w \<and> serving {V_Scavenge} w') \<and>
    (t_exit (proc w) \<longrightarrow> t_exit (proc w')) \<and>
    t_user (proc w') = t_user (proc w) \<and> t_notify (proc w') = t_notify (proc w) \<and> t_timer (proc w') = t_timer (proc w)"
  by (cases rule: worker_step.cases) (auto simp: serving_def section_defs dest: service_takes split: if_splits)

text \<open>The triggers of managed code are taken by delivering them.\<close>

definition undelivered :: "processor \<Rightarrow> processor \<Rightarrow> bool" where
  "undelivered p q \<longleftrightarrow> (t_user p \<longrightarrow> t_user q) \<and> (t_notify p \<longrightarrow> t_notify q) \<and> (t_timer p \<longrightarrow> t_timer q)"

lemma outside_takes:
  "outside_step w w' \<Longrightarrow> (t_dump (proc w) \<longrightarrow> t_dump (proc w')) \<and> (t_scavenge (proc w) \<longrightarrow> t_scavenge (proc w')) \<and>
    (t_promote (proc w) \<longrightarrow> t_promote (proc w')) \<and> (t_exit (proc w) \<longrightarrow> t_exit (proc w')) \<and>
    (undelivered (proc w) (proc w') \<or> primary w = P_Run \<and> (\<exists>ep. restoreInterrupt True (proc w) = (Some ep, proc w')))"
  by (cases rule: outside_step.cases) (auto simp: undelivered_def section_defs dest: request_adds split: if_splits)



text \<open>A promotion is not among them. The scavenge clears its trigger when it ends, but takes the promote
  trigger when it begins: one that is requested in between waits for a later scavenge, although its interrupt
  has been served. In the run below both workers end with a promotion pending and nobody is going to look.\<close>

lemma request_moves:
  assumes a: "any_step\<^sup>*\<^sup>* a w" "request w = None" and q: "requestTrigger r (proc w) = Some q"
    and s: "suspend_timeout q = 0" "status q \<noteq> SECONDARY_ACTIVE"
  shows "any_step\<^sup>*\<^sup>* a (w\<lparr>proc := interruptProcessor q, request := None\<rparr>)"
proof -
  let ?w1 = "w\<lparr>proc := q, request := Some (r, False)\<rparr>"
  let ?w2 = "?w1\<lparr>proc := interruptProcessor q, request := Some (r, True)\<rparr>"
  have "any_step w ?w1" unfolding any_step_def using outside_step.request_begin [of w r q] a(2) q by blast
  moreover have "any_step ?w1 ?w2" unfolding any_step_def using worker_step.request_interrupt [of ?w1 r] by simp
  moreover have "any_step ?w2 (?w2\<lparr>proc := interruptProcessor q, request := None\<rparr>)"
    unfolding any_step_def using worker_step.request_end [of ?w2 r "interruptProcessor q" False False] s
    by (simp add: requestWake_def interruptProcessor_def signal_if_def)
  ultimately have "any_step\<^sup>*\<^sup>* a (?w2\<lparr>proc := interruptProcessor q, request := None\<rparr>)" using a(1) any_step_next by blast
  then show ?thesis by simp
qed

inductive_simps service_next: "service_step v p (Some v') q"

lemma late_promote_waits:
  "\<exists>w. any_step\<^sup>*\<^sup>* (workers_start wid) w \<and> t_promote (proc w) \<and> \<not> will_look w \<and> primary w = P_Run \<and> secondary w = S_Head"
proof -
  let ?s = "workers_start wid"
  let ?p = "proc ?s"
  let ?i = "\<lambda>i. ?p\<lparr>t_interrupt := i, hl_zero := True\<rparr>"
  define pos where "pos v q \<longleftrightarrow> any_step\<^sup>*\<^sup>* ?s (?s\<lparr>proc := q, primary := P_Service v, request := None\<rparr>)" for v q
  note defs = workers_start_def requestTrigger_def section_defs
  have move: "pos v' q" if r: "pos v p" and v: "service_step v p (Some v') q" for v v' p q
  proof -
    let ?w = "?s\<lparr>proc := p, primary := P_Service v, request := None\<rparr>"
    have "any_step ?w (?w\<lparr>proc := q, primary := P_Service v'\<rparr>)"
      unfolding any_step_def using v by (intro disjI1 worker_step.primary_service) simp_all
    moreover have "?w\<lparr>proc := q, primary := P_Service v'\<rparr> = ?s\<lparr>proc := q, primary := P_Service v', request := None\<rparr>"
      by (rule workers.equality) simp_all
    ultimately show ?thesis using any_step_next [OF r [unfolded pos_def]] by (simp only: pos_def)
  qed
  have "any_step\<^sup>*\<^sup>* ?s (?s\<lparr>proc := interruptProcessor (?p\<lparr>t_scavenge := True\<rparr>), request := None\<rparr>)"
    by (rule request_moves [where r = REQUEST_SCAVENGE]) (simp_all add: defs)
  then have "pos V_Loop ((?i True)\<lparr>t_scavenge := True\<rparr>)"
    using any_step_next worker_step.enter_service [of "?s\<lparr>proc := interruptProcessor (?p\<lparr>t_scavenge := True\<rparr>), request := None\<rparr>"]
    by (simp add: any_step_def defs pos_def)
  then have "pos V_Slice ((?i False)\<lparr>t_scavenge := True\<rparr>)" by (rule move) (simp add: service_next defs)
  then have "pos V_Scavenge ((?i False)\<lparr>t_scavenge := True\<rparr>)" by (rule move) (simp add: service_next defs)
  then have "pos V_Scavenge ((?i True)\<lparr>t_scavenge := True, t_promote := True\<rparr>)"
    using request_moves [where r = REQUEST_PROMOTE and w = "?s\<lparr>proc := (?i False)\<lparr>t_scavenge := True\<rparr>, primary := P_Service V_Scavenge, request := None\<rparr>" and a = ?s]
    by (simp add: defs pos_def)
  then have "pos V_Dump ((?i True)\<lparr>t_promote := True\<rparr>)" by (rule move) (simp add: service_next defs)
  then have "pos V_Exit ((?i True)\<lparr>t_promote := True\<rparr>)" by (rule move) (simp add: service_next defs)
  then have "pos V_Loop ((?i True)\<lparr>t_promote := True\<rparr>)" by (rule move) (simp add: service_next defs)
  then have "pos V_Slice ((?i False)\<lparr>t_promote := True\<rparr>)" by (rule move) (simp add: service_next defs)
  then have "pos V_Dump ((?i False)\<lparr>t_promote := True\<rparr>)" by (rule move) (simp add: service_next defs exI [of _ False])
  then have "pos V_Exit ((?i False)\<lparr>t_promote := True\<rparr>)" by (rule move) (simp add: service_next defs)
  then have "pos V_Loop ((?i False)\<lparr>t_promote := True\<rparr>)" by (rule move) (simp add: service_next defs)
  then have "any_step\<^sup>*\<^sup>* ?s (?s\<lparr>proc := (?i False)\<lparr>t_promote := True\<rparr>, primary := P_Run, request := None\<rparr>)"
    using any_step_next worker_step.primary_leave [of "?s\<lparr>proc := (?i False)\<lparr>t_promote := True\<rparr>, primary := P_Service V_Loop, request := None\<rparr>" V_Loop "(?i False)\<lparr>t_promote := True\<rparr>"]
    by (simp add: any_step_def defs service_leave pos_def)
  then show ?thesis by (intro exI conjI, assumption) (simp_all add: defs will_look_def)
qed

text \<open>C12: Once no new request, protected call or spurious wake-up comes from outside, the workers come to rest within
  131 steps: every request in progress has ended, the primary worker is back in managed code, still in protected
  code, or gone, it never stays waiting for the secondary worker, dumps and scavenges that were requested are done,
  and an exit that was requested has happened unless the processor is still in protected code.\<close>

theorem workers_come_to_rest:
  assumes "any_step\<^sup>*\<^sup>* (workers_start wid) w" "(worker_step ^^ n) w w'"
  shows "n \<le> 131 \<and> ((\<nexists>w''. worker_step w' w'') \<longrightarrow>
    request w' = None \<and> secondary w' \<in> {S_Sleep, S_Done} \<and> primary w' \<in> {P_Run, P_Protected, P_Gone} \<and>
    (primary w' \<noteq> P_Gone \<longrightarrow> \<not> t_dump (proc w') \<and> \<not> t_scavenge (proc w')) \<and>
    (t_exit (proc w') \<longrightarrow> primary w' \<in> {P_Protected, P_Gone}))"
proof -
  have "any_step\<^sup>*\<^sup>* w w'"
    using relpowp_imp_rtranclp [OF assms(2)] mono_rtranclp [of worker_step any_step] by (simp add: any_step_def)
  then have r: "any_step\<^sup>*\<^sup>* (workers_start wid) w'" using assms(1) by simp
  have "n \<le> 131" using worker_steps_weight [OF assms(2) workers_reachable_ok [OF assms(1)]] weight_bound [of w] by simp
  moreover have "\<not> t_dump (proc w') \<and> \<not> t_scavenge (proc w')" if "\<nexists>w''. worker_step w' w''" "primary w' \<noteq> P_Gone"
    using at_rest [OF r that(1)] that(2) dump.reachable_kept [OF r] scavenge.reachable_kept [OF r]
    by (auto simp: will_look_def serving_def workers_start_def)
  moreover have "primary w' \<in> {P_Protected, P_Gone}" if "\<nexists>w''. worker_step w' w''" "t_exit (proc w')"
    using at_rest [OF r that(1)] that(2) exit_reachable_kept [OF r] by (auto simp: exit_kept_def will_look_def)
  ultimately show ?thesis using at_rest [OF r] by blast
qed

theorem workers_come_to_rest_witness:
  "worker_step ((workers_start 0)) ((workers_start 0)\<lparr>secondary := S_Sleep\<rparr>) \<and> (1::nat) \<le> 131"
proof -
  have s: "worker_step (workers_start 0) ((workers_start 0)\<lparr>secondary := S_Sleep\<rparr>)"
    by (rule worker_step.head_wait) (simp_all add: workers_start_def secondaryHead_def)
  then have "(worker_step ^^ 1) (workers_start 0) ((workers_start 0)\<lparr>secondary := S_Sleep\<rparr>)" unfolding relpowp_1 .
  then show ?thesis using workers_come_to_rest [OF rtranclp.rtrancl_refl] s by blast
qed

end
