(* ===== verification/RtMem.thy ===== *)
theory RtMem
  imports Chunk Processor
begin

text \<open>
  The memory callouts of the runtime (\<^verbatim>\<open>src/native/setup.c\<close>): chunks for the block managers and for the heap,
  with the count of the bytes in use, the overflow limit and the trigger of the collector (\<^verbatim>\<open>chiGCTrigger\<close>
  of \<^verbatim>\<open>src/native/gc.c\<close>). A function that may call \<^verbatim>\<open>chiErr\<close> returns an outcome: \<open>Dies\<close> stands for the end of the
  process, \<open>Diverges\<close> for a call that would not return. What the system does during a call is an argument: whether
  memory can be committed and the region for chunk handles when a chunk is taken, whether
  the unmap task can be created and the time when it is freed.
\<close>

datatype 'a outcome = Returns 'a | Dies | Diverges

type_synonym take_env = "(nat \<Rightarrow> nat \<Rightarrow> bool \<Rightarrow> bool) \<times> nat option"
type_synonym free_env = "bool \<times> u64"

record rt_mem =
  chunkAlloc :: unmap_alloc
  heapTotalSize :: u64
  heapOverflowLimit :: u64
  heapOverflow :: bool
  gcModeNone :: bool
  gcTriggered :: bool
  procs :: "processor list"

definition chiGCTrigger :: "rt_mem \<Rightarrow> rt_mem" where
  "chiGCTrigger rt =
     (if gcModeNone rt then rt
      else if \<not> gcTriggered rt
      then rt\<lparr> gcTriggered := True, procs := chiProcessorRequestMain REQUEST_HANDSHAKE (procs rt) \<rparr>
      else rt)"

definition heapGrow :: "u64 \<Rightarrow> rt_mem \<Rightarrow> rt_mem" where
  "heapGrow sz rt =
     (let heapSize = heapTotalSize rt + sz; rt = rt\<lparr> heapTotalSize := heapSize \<rparr>
      in if heapSize > heapOverflowLimit rt then chiGCTrigger (rt\<lparr> heapOverflow := True \<rparr>) else rt)"

definition heapShrink :: "u64 \<Rightarrow> rt_mem \<Rightarrow> rt_mem" where
  "heapShrink sz rt = rt\<lparr> heapTotalSize := heapTotalSize rt - sz \<rparr>"

definition chiChunkNew :: "take_env \<Rightarrow> nat \<Rightarrow> nat \<Rightarrow> rt_mem \<Rightarrow> (nat option \<times> rt_mem) outcome" where
  "chiChunkNew e sz al rt =
     (case uaNewChunk (fst e) (snd e) sz al (chunkAlloc rt) of
        None \<Rightarrow> Diverges
      | Some (c, u) \<Rightarrow> Returns (c, rt\<lparr> chunkAlloc := u \<rparr>))"

definition chiChunkFree :: "free_env \<Rightarrow> nat \<Rightarrow> rt_mem \<Rightarrow> rt_mem" where
  "chiChunkFree e c rt = rt\<lparr> chunkAlloc := uaFreeChunk (fst e) (snd e) c (chunkAlloc rt) \<rparr>"

definition chunk_size :: "rt_mem \<Rightarrow> nat \<Rightarrow> nat" where
  "chunk_size rt c = csize (chunks (uva (chunkAlloc rt)) c)"

definition chunk_start :: "rt_mem \<Rightarrow> nat \<Rightarrow> nat" where
  "chunk_start rt c = cstart (chunks (uva (chunkAlloc rt)) c)"

definition chiBlockManagerChunkNew :: "take_env \<Rightarrow> nat \<Rightarrow> nat \<Rightarrow> rt_mem \<Rightarrow> (nat \<times> rt_mem) outcome" where
  "chiBlockManagerChunkNew e sz al rt =
     (case chiChunkNew e sz al rt of
        Returns (Some c, rt) \<Rightarrow> Returns (c, heapGrow (of_nat sz) rt)
      | Returns (None, rt) \<Rightarrow> Dies
      | Dies \<Rightarrow> Dies | Diverges \<Rightarrow> Diverges)"

definition chiBlockManagerChunkFree :: "free_env \<Rightarrow> nat \<Rightarrow> rt_mem \<Rightarrow> rt_mem" where
  "chiBlockManagerChunkFree e c rt = chiChunkFree e c (heapShrink (of_nat (chunk_size rt c)) rt)"

text \<open>The argument \<open>mayfail\<close> stands for the flag \<^verbatim>\<open>CHI_NEW_TRY\<close>.\<close>

definition chiHeapChunkNew :: "take_env \<Rightarrow> nat \<Rightarrow> bool \<Rightarrow> rt_mem \<Rightarrow> (nat option \<times> rt_mem) outcome" where
  "chiHeapChunkNew e sz mayfail rt =
     (if mayfail \<and> heapTotalSize rt + of_nat sz > heapOverflowLimit rt then Returns (None, rt)
      else
        (case chiChunkNew e sz 0 rt of
           Returns (Some c, rt) \<Rightarrow> Returns (Some c, heapGrow (of_nat sz) rt)
         | Returns (None, rt) \<Rightarrow> if mayfail then Returns (None, rt) else Dies
         | Dies \<Rightarrow> Dies | Diverges \<Rightarrow> Diverges))"

definition chiHeapChunkFree :: "free_env \<Rightarrow> nat \<Rightarrow> rt_mem \<Rightarrow> rt_mem" where
  "chiHeapChunkFree e c rt = chiChunkFree e c (heapShrink (of_nat (chunk_size rt c)) rt)"

definition chiHeapLimitReached :: "rt_mem \<Rightarrow> rt_mem" where
  "chiHeapLimitReached rt = chiGCTrigger rt"

section \<open>The count of the bytes in use\<close>

abbreviation held :: "rt_mem \<Rightarrow> nat \<Rightarrow> (nat \<times> nat) option" where
  "held rt \<equiv> ua_held (chunkAlloc rt)"

definition held_total :: "(nat \<Rightarrow> (nat \<times> nat) option) \<Rightarrow> nat" where
  "held_total h = (\<Sum>c \<in> dom h. snd (the (h c)))"

definition rt_inv :: "nat \<Rightarrow> nat \<Rightarrow> rt_mem \<Rightarrow> bool" where
  "rt_inv lo hi rt \<longleftrightarrow> ua_inv lo hi (chunkAlloc rt) \<and> unat (heapTotalSize rt) = held_total (held rt)"

lemma held_total_insert: "finite (dom h) \<Longrightarrow> h c = None \<Longrightarrow> held_total (h(c \<mapsto> (s, n))) = held_total h + n"
  unfolding held_total_def by (subst dom_fun_upd) (auto intro!: sum.cong simp: domIff)

lemma held_total_remove:
  assumes "finite (dom h)" "h c = Some (s, n)"
  shows "held_total (h(c := None)) + n = held_total h"
proof -
  have "held_total h = held_total ((h(c := None))(c \<mapsto> (s, n)))" using assms(2) by (simp add: fun_upd_idem)
  then show ?thesis using held_total_insert [of "h(c := None)" c s n] assms(1) by simp
qed

lemma tiled_total: "tiled ch a xs b \<Longrightarrow> a + sum_list (map (\<lambda>c. csize (ch c)) xs) = b"
  by (induction xs arbitrary: a) fastforce+

lemma held_chunk:
  assumes "held rt c = Some (s, n)"
  shows "s = chunk_start rt c \<and> n = chunk_size rt c \<and> c \<in> set (addrList (uva (chunkAlloc rt)))"
  using assms by (auto simp: ua_held_def live_def chunk_start_def chunk_size_def split: if_splits)

lemma held_finite: "finite (dom (held rt))"
  by (rule finite_subset [of _ "set (addrList (uva (chunkAlloc rt)))"]) (use held_chunk in auto)

lemma held_total_bound:
  assumes "ua_inv lo hi (chunkAlloc rt)"
  shows "held_total (held rt) \<le> hi - lo"
proof -
  let ?l = "addrList (uva (chunkAlloc rt))" and ?f = "\<lambda>c. csize (chunks (uva (chunkAlloc rt)) c)"
  have t: "tiled (chunks (uva (chunkAlloc rt))) lo ?l hi" "distinct ?l"
    using assms by (simp_all add: ua_inv_def va_inv_def va_wf_def arena_ok_def)
  have "held_total (held rt) = (\<Sum>c \<in> dom (held rt). ?f c)"
    unfolding held_total_def by (rule sum.cong) (use held_chunk in \<open>auto simp: chunk_size_def\<close>)
  also have "\<dots> \<le> (\<Sum>c \<in> set ?l. ?f c)" by (rule sum_mono2) (use held_chunk in auto)
  also have "\<dots> = sum_list (map ?f ?l)" using t(2) by (simp add: sum_list_distinct_conv_sum_set)
  finally show ?thesis using tiled_total [OF t(1)] by simp
qed

lemma arena_bound: "ua_inv lo hi u \<Longrightarrow> hi < 2 ^ 62"
  by (simp add: ua_inv_def va_inv_def va_wf_def arena_ok_def)

lemma gc_trigger_memory [simp]: "chunkAlloc (chiGCTrigger rt) = chunkAlloc rt" "heapTotalSize (chiGCTrigger rt) = heapTotalSize rt"
  by (simp_all add: chiGCTrigger_def)

lemma grow_memory [simp]: "chunkAlloc (heapGrow n rt) = chunkAlloc rt" "heapTotalSize (heapGrow n rt) = heapTotalSize rt + n"
  by (simp_all add: heapGrow_def Let_def)

lemma shrink_memory [simp]: "chunkAlloc (heapShrink n rt) = chunkAlloc rt" "heapTotalSize (heapShrink n rt) = heapTotalSize rt - n"
  by (simp_all add: heapShrink_def)

lemma held_fun_free:
  assumes "rt_inv lo hi rt" "held rt c \<noteq> None"
  shows "rt_inv lo hi (chiBlockManagerChunkFree e c rt)" "held (chiBlockManagerChunkFree e c rt) = (held rt)(c := None)"
proof -
  obtain s n where h: "held rt c = Some (s, n)" using assms(2) by auto
  have F: "ua_inv lo hi (uaFreeChunk (fst e) (snd e) c (chunkAlloc rt))"
    "ua_held (uaFreeChunk (fst e) (snd e) c (chunkAlloc rt)) = (held rt)(c := None)"
    using ua_free_ok [of lo hi "chunkAlloc rt" c] assms by (auto simp: rt_inv_def)
  have t: "held_total ((held rt)(c := None)) + n = unat (heapTotalSize rt)"
    using held_total_remove [OF held_finite h] assms(1) by (simp add: rt_inv_def)
  then have "n < 18446744073709551616" using unat_u64_lt [of "heapTotalSize rt"] by linarith
  then have "unat (of_nat n :: u64) = n" by (simp add: unat_of_nat)
  then have "unat (heapTotalSize rt - of_nat n) = held_total ((held rt)(c := None))"
    using t by (subst unat_sub) (auto simp: word_le_nat_alt)
  moreover have "n = chunk_size rt c" using held_chunk [OF h] by simp
  ultimately show "rt_inv lo hi (chiBlockManagerChunkFree e c rt)" "held (chiBlockManagerChunkFree e c rt) = (held rt)(c := None)"
    using F by (simp_all add: rt_inv_def chiBlockManagerChunkFree_def chiChunkFree_def)
qed

lemma grow_held:
  assumes "ua_inv lo hi u" "ua_held u = (held rt)(c \<mapsto> (s, n))" "held rt c = None" "rt_inv lo hi rt"
  shows "rt_inv lo hi (heapGrow (of_nat n) (rt\<lparr> chunkAlloc := u \<rparr>))"
proof -
  have t: "held_total (ua_held u) = unat (heapTotalSize rt) + n"
    using held_total_insert [OF held_finite assms(3)] assms(2,4) by (simp add: rt_inv_def)
  moreover have "held_total (ua_held u) < 2 ^ 62"
    using held_total_bound [of lo hi "rt\<lparr> chunkAlloc := u \<rparr>"] arena_bound [OF assms(1)] assms(1) by simp
  ultimately have "unat (heapTotalSize rt + of_nat n) = unat (heapTotalSize rt) + n"
    by (simp add: unat_word_ariths unat_of_nat take_bit_nat_eq_self)
  then show ?thesis using assms(1) t by (simp add: rt_inv_def)
qed

lemma chunk_new_ok:
  assumes inv: "rt_inv lo hi rt" and rq: "request_ok sz al" and reg: "region_ok (uva (chunkAlloc rt)) (snd e)"
  obtains res u where "chiChunkNew e sz al rt = Returns (res, rt\<lparr> chunkAlloc := u \<rparr>)" "ua_inv lo hi u"
    "case res of None \<Rightarrow> ua_held u = held rt
      | Some c \<Rightarrow> held rt c = None \<and> (\<exists>s. chunkAligned s al \<and> ua_held u = (held rt)(c \<mapsto> (s, sz)))"
proof -
  have "ua_inv lo hi (chunkAlloc rt)" using inv by (simp add: rt_inv_def)
  from ua_new_ok [OF this rq reg, of "fst e"] that show ?thesis by (fastforce simp: chiChunkNew_def split: option.splits)
qed

section \<open>The source of chunks\<close>

text \<open>What the block managers and the heap rely on: a chunk that is returned was not in use, has the size asked for, is
  aligned and lies apart from all others, and a chunk that is freed is not in use any more.\<close>

locale chunk_source =
  fixes acquire :: "'e \<Rightarrow> nat \<Rightarrow> nat \<Rightarrow> 's \<Rightarrow> (nat \<times> 's) outcome" and give :: "'f \<Rightarrow> nat \<Rightarrow> 's \<Rightarrow> 's"
    and start :: "'s \<Rightarrow> nat \<Rightarrow> nat" and used :: "'s \<Rightarrow> nat \<Rightarrow> (nat \<times> nat) option" and ok :: "'s \<Rightarrow> bool"
    and valid :: "nat \<Rightarrow> nat \<Rightarrow> bool" and ready :: "'e \<Rightarrow> 's \<Rightarrow> bool"
  assumes acquire_ok: "ok s \<Longrightarrow> valid sz al \<Longrightarrow> ready e s \<Longrightarrow> acquire e sz al s = Dies \<or>
      (\<exists>c t a. acquire e sz al s = Returns (c, t) \<and> ok t \<and> used s c = None \<and> used t = (used s)(c \<mapsto> (a, sz)) \<and> al dvd a \<and> 0 < a)"
    and give_ok: "ok s \<Longrightarrow> used s c \<noteq> None \<Longrightarrow> ok (give f c s) \<and> used (give f c s) = (used s)(c := None)"
    and start_used: "used s c = Some (a, n) \<Longrightarrow> start s c = a"
    and used_apart: "ok s \<Longrightarrow> used s c = Some (a, n) \<Longrightarrow> used s d = Some (b, k) \<Longrightarrow> c \<noteq> d \<Longrightarrow> a + n \<le> b \<or> b + k \<le> a"

definition rt_ok :: "nat \<Rightarrow> nat \<Rightarrow> rt_mem \<Rightarrow> bool" where
  "rt_ok lo hi rt \<longleftrightarrow> 0 < lo \<and> rt_inv lo hi rt"

definition rt_ready :: "take_env \<Rightarrow> rt_mem \<Rightarrow> bool" where
  "rt_ready e rt \<longleftrightarrow> region_ok (uva (chunkAlloc rt)) (snd e)"

lemma held_apart:
  assumes "rt_inv lo hi rt" "held rt c = Some (s, n)"
  shows "lo \<le> s \<and> s + n \<le> hi \<and> 0 < n \<and> (\<forall>d t k. held rt d = Some (t, k) \<longrightarrow> d \<noteq> c \<longrightarrow> s + n \<le> t \<or> t + k \<le> s)"
proof -
  have lv: "live (uva (chunkAlloc rt)) d = Some x" if "held rt d = Some x" for d x
    using that by (auto simp: ua_held_def split: if_splits)
  have "va_inv lo hi (uva (chunkAlloc rt))" using assms(1) by (simp add: rt_inv_def ua_inv_def)
  from live_disjoint [OF this lv [OF assms(2)]] show ?thesis using lv by metis
qed

lemma start_aligned_dvd:
  assumes "chunkAlignValid al" "chunkAligned s al" "0 < al"
  shows "al dvd s"
proof -
  have "chiIsPow2 (of_nat al :: u64)" "al \<le> 2 ^ 37" using assms(1,3) by (auto simp: chunkAlignValid_def CHI_CHUNK_MAX_SIZE_def)
  moreover from this(2) have "unat (of_nat al :: u64) = al" by (simp add: unat_of_nat)
  ultimately obtain k where k: "al = 2 ^ k" using assms(3) by (auto simp: chiIsPow2_iff)
  have "s AND (2 ^ k - 1) = take_bit k s" by (simp add: take_bit_eq_mask mask_eq_exp_minus_1)
  then show ?thesis using assms(2,3) k by (simp add: chunkAligned_def take_bit_eq_0_iff)
qed

lemma heap_free_is_block_free: "chiHeapChunkFree = chiBlockManagerChunkFree"
  by (intro ext) (simp add: chiHeapChunkFree_def chiBlockManagerChunkFree_def)

lemma block_chunk_new:
  assumes ok: "rt_ok lo hi rt" and rq: "request_ok sz al" and al: "0 < al" and rd: "rt_ready e rt"
  shows "chiBlockManagerChunkNew e sz al rt = Dies \<or>
    (\<exists>c t a. chiBlockManagerChunkNew e sz al rt = Returns (c, t) \<and> rt_ok lo hi t \<and> held rt c = None \<and>
       held t = (held rt)(c \<mapsto> (a, sz)) \<and> al dvd a \<and> 0 < a)"
proof -
  have inv: "rt_inv lo hi rt" "0 < lo" using ok by (simp_all add: rt_ok_def)
  obtain res u where r: "chiChunkNew e sz al rt = Returns (res, rt\<lparr>chunkAlloc := u\<rparr>)" "ua_inv lo hi u"
    "case res of None \<Rightarrow> ua_held u = held rt
     | Some c \<Rightarrow> held rt c = None \<and> (\<exists>s. chunkAligned s al \<and> ua_held u = (held rt)(c \<mapsto> (s, sz)))"
    using chunk_new_ok [OF inv(1) rq, of e] rd by (auto simp: rt_ready_def)
  show ?thesis
  proof (cases res)
    case (Some c)
    then obtain a where a: "held rt c = None" "chunkAligned a al" "ua_held u = (held rt)(c \<mapsto> (a, sz))" using r(3) by auto
    let ?t = "heapGrow (of_nat sz) (rt\<lparr>chunkAlloc := u\<rparr>)"
    have t: "rt_inv lo hi ?t" by (rule grow_held [OF r(2) a(3,1) inv(1)])
    have h: "held ?t = (held rt)(c \<mapsto> (a, sz))" using a(3) by simp
    then have "lo \<le> a" using held_apart [OF t, of c a sz] by simp
    moreover have "al dvd a" by (rule start_aligned_dvd [OF _ a(2) al]) (use rq in \<open>simp add: request_ok_def\<close>)
    ultimately show ?thesis using r(1) Some a(1) t h inv(2) by (auto simp: chiBlockManagerChunkNew_def rt_ok_def)
  qed (use r in \<open>simp add: chiBlockManagerChunkNew_def\<close>)
qed

interpretation block_source: chunk_source chiBlockManagerChunkNew chiBlockManagerChunkFree chunk_start held
  "rt_ok lo hi" "\<lambda>sz al. request_ok sz al \<and> 0 < al" rt_ready for lo hi
proof
  show "chunk_start s c = a" if "held s c = Some (a, n)" for s c a n using held_chunk [OF that] by simp
  show "a + n \<le> b \<or> b + k \<le> a" if "rt_ok lo hi s" "held s c = Some (a, n)" "held s d = Some (b, k)" "c \<noteq> d" for s c a n d b k
    using held_apart [of lo hi s c a n] that by (auto simp: rt_ok_def)
  show "rt_ok lo hi (chiBlockManagerChunkFree f c s) \<and> held (chiBlockManagerChunkFree f c s) = (held s)(c := None)"
    if "rt_ok lo hi s" "held s c \<noteq> None" for s f c
    using held_fun_free [of lo hi s c f] that by (simp add: rt_ok_def)
qed (use block_chunk_new in blast)

text \<open>Freeing a chunk makes no new handles, so a region that is good for handles stays good.\<close>

definition handles :: "virt_alloc \<Rightarrow> nat set" where
  "handles va = set (addrList va) \<union> pool_set (handlePool va)"

lemma coalesce_handles: "y \<in> set (addrList va) \<Longrightarrow> handles (vaCoalesce x y (unlink z va)) \<subseteq> handles va"
  using set_remove1_subset [of y "addrList va"]
  by (auto simp: handles_def pool_set_def chiPoolPut_def pool_fresh_def pool_room_def)

lemma list_link_member: "list_prev xs c = Some b \<Longrightarrow> b \<in> set xs" "list_next xs c = Some b \<Longrightarrow> b \<in> set xs"
proof -
  show "b \<in> set xs" if "list_prev xs c = Some b"
    using that last_in_set [of "takeWhile (\<lambda>x. x \<noteq> c) xs"] set_takeWhileD [of b "\<lambda>x. x \<noteq> c" xs]
    by (auto simp: list_prev_def Let_def split: if_splits)
  show "b \<in> set xs" if "list_next xs c = Some b"
  proof -
    have "b \<in> set (dropWhile (\<lambda>x. x \<noteq> c) xs)"
      using that by (cases "dropWhile (\<lambda>x. x \<noteq> c) xs") (auto simp: list_next_def split: list.splits)
    then show ?thesis by (rule set_dropWhileD)
  qed
qed

lemma merge_handles:
  "c \<in> set (addrList va) \<Longrightarrow> handles (snd (vaMergeBefore c va)) \<subseteq> handles va" "handles (vaMergeAfter c va) \<subseteq> handles va"
  by (auto simp: vaMergeBefore_def vaMergeAfter_def split: option.splits if_splits
      dest: list_link_member(2) intro: subsetD [OF coalesce_handles])

lemma free_handles:
  assumes "va_inv lo hi va" "live va c \<noteq> None"
  shows "handles (vaFreeChunk c va) \<subseteq> handles va"
proof -
  let ?v = "upd c (\<lambda>k. k\<lparr>cused := False\<rparr>) va"
  have c: "c \<in> set (addrList ?v)" using assms(2) by (simp add: live_def split: if_splits)
  obtain d w where b: "vaMergeBefore c ?v = (d, w)" by fastforce
  have "handles w \<subseteq> handles ?v" using merge_handles(1) [OF c] b by simp
  moreover have "handles (vaMergeAfter d w) \<subseteq> handles w"
    by (rule merge_handles(2))
  moreover have "handles ?v = handles va" by (simp add: handles_def)
  moreover have "handles (vaListFree d (vaMergeAfter d w)) = handles (vaMergeAfter d w)" by (simp add: handles_def)
  ultimately show ?thesis by (auto simp: vaFreeChunk_def vaInsertFree_def Let_def b)
qed

lemma emergency_handles:
  assumes "ua_inv lo hi u"
  shows "handles (uva (snd (uaFreeEmergency u))) \<subseteq> handles (uva u)"
  using assms
proof (induction u rule: uaFreeEmergency.induct)
  case (1 u)
  show ?case
  proof (cases "ulist u")
    case Nil
    then show ?thesis by (subst uaFreeEmergency.simps) (simp add: uaPopNowait_def)
  next
    case (Cons c cs)
    let ?u = "u\<lparr>ulist := cs\<rparr>"
    have pop: "uaPopNowait u = (Some c, ?u)" using Cons by (simp add: uaPopNowait_def)
    have pre: "va_inv lo hi (uva ?u)" "distinct (c # ulist ?u)" "set (c # ulist ?u) \<subseteq> dom (live (uva ?u))"
      using 1(2) Cons by (simp_all add: ua_inv_def)
    have e: "uaFreeEmergency u = uaFreeEmergency (uaFreeNow c ?u)" by (subst uaFreeEmergency.simps) (simp add: pop)
    have "handles (uva (uaFreeNow c ?u)) \<subseteq> handles (uva u)"
      using free_handles [OF pre(1), of c] pre(3) by (auto simp: uaFreeNow_def)
    then show ?thesis using 1(1) [OF pop [symmetric] refl free_now_ok(1) [OF pre]] unfolding e by blast
  qed
qed

lemma chunk_free_ready:
  assumes "rt_ok lo hi rt" "held rt c \<noteq> None" "rt_ready e rt"
  shows "rt_ready e (chiBlockManagerChunkFree f c rt)"
proof -
  let ?u = "chunkAlloc rt"
  have inv: "ua_inv lo hi ?u" using assms(1) by (simp add: rt_ok_def rt_inv_def)
  obtain b w where d: "uaFreeDelayed (fst f) (snd f) c ?u = (b, w)" by fastforce
  have w: "handles (uva w) = handles (uva ?u)"
    using d by (auto simp: uaFreeDelayed_def Let_def handles_def split: if_splits)
  have "handles (uva (uaFreeChunk (fst f) (snd f) c ?u)) \<subseteq> handles (uva ?u)"
  proof (cases b)
    case False
    then have "ua_inv lo hi w" using ua_delayed_ok [OF inv assms(2), of "fst f" "snd f"] d by simp
    from emergency_handles [OF this] show ?thesis using w d False by (simp add: uaFreeChunk_def)
  qed (use w d in \<open>simp add: uaFreeChunk_def\<close>)
  then show ?thesis using assms(3)
    by (auto simp: rt_ready_def region_ok_def handles_def chiBlockManagerChunkFree_def chiChunkFree_def)
qed

lemma heap_chunk_new:
  assumes ok: "rt_ok lo hi rt" and rq: "request_ok sz 0" and rd: "rt_ready e rt"
  shows "case chiHeapChunkNew e sz mayfail rt of
      Diverges \<Rightarrow> False
    | Dies \<Rightarrow> \<not> mayfail
    | Returns (None, t) \<Rightarrow> mayfail \<and> rt_ok lo hi t \<and> held t = held rt
    | Returns (Some c, t) \<Rightarrow> rt_ok lo hi t \<and> held rt c = None \<and> (\<exists>a. held t = (held rt)(c \<mapsto> (a, sz)) \<and> lo \<le> a) \<and>
        heapTotalSize t = heapTotalSize rt + of_nat sz \<and> (mayfail \<longrightarrow> heapTotalSize t \<le> heapOverflowLimit rt) \<and>
        (heapTotalSize t > heapOverflowLimit rt \<longrightarrow> heapOverflow t \<and> (gcModeNone t \<or> gcTriggered t))"
proof -
  have inv: "rt_inv lo hi rt" "0 < lo" using ok by (simp_all add: rt_ok_def)
  show ?thesis
  proof (cases "mayfail \<and> heapTotalSize rt + of_nat sz > heapOverflowLimit rt")
    case True
    then show ?thesis using ok by (simp add: chiHeapChunkNew_def)
  next
    case False
    obtain res u where r: "chiChunkNew e sz 0 rt = Returns (res, rt\<lparr>chunkAlloc := u\<rparr>)" "ua_inv lo hi u"
      "case res of None \<Rightarrow> ua_held u = held rt
       | Some c \<Rightarrow> held rt c = None \<and> (\<exists>s. chunkAligned s 0 \<and> ua_held u = (held rt)(c \<mapsto> (s, sz)))"
      using chunk_new_ok [OF inv(1) rq, of e] rd by (auto simp: rt_ready_def)
    show ?thesis
    proof (cases res)
      case None
      then show ?thesis using False r inv by (cases "mayfail") (auto simp: chiHeapChunkNew_def rt_ok_def rt_inv_def)
    next
      case (Some c)
      then obtain a where a: "held rt c = None" "ua_held u = (held rt)(c \<mapsto> (a, sz))" using r(3) by auto
      let ?t = "heapGrow (of_nat sz) (rt\<lparr>chunkAlloc := u\<rparr>)"
      have t: "rt_inv lo hi ?t" by (rule grow_held [OF r(2) a(2,1) inv(1)])
      have h: "held ?t = (held rt)(c \<mapsto> (a, sz))" using a(2) by simp
      then have l: "lo \<le> a" using held_apart [OF t, of c a sz] by simp
      have f: "heapTotalSize ?t > heapOverflowLimit rt \<longrightarrow> heapOverflow ?t \<and> (gcModeNone ?t \<or> gcTriggered ?t)"
        by (simp add: heapGrow_def chiGCTrigger_def Let_def)
      have e: "chiHeapChunkNew e sz mayfail rt = Returns (Some c, ?t)" using False r(1) Some by (auto simp: chiHeapChunkNew_def)
      show ?thesis unfolding e using False t h l f a(1) inv(2) by (auto simp: rt_ok_def not_less)
    qed
  qed
qed

definition rt_example :: rt_mem where
  "rt_example = \<lparr> chunkAlloc = arena_example, heapTotalSize = 0, heapOverflowLimit = 4096, heapOverflow = False,
     gcModeNone = False, gcTriggered = False, procs = [] \<rparr>"

lemma rt_example_ok: "rt_ok (2 ^ 37) (2 ^ 37 + 2 ^ 20) rt_example" "rt_ready (e, Some (2 ^ 20)) rt_example"
  using arena_example_ok by (simp_all add: rt_ok_def rt_inv_def rt_example_def held_total_def rt_ready_def)

lemma request_example_0: "request_ok 8192 0"
  unfolding request_ok_def chiChunkSizeValid_def chunkAlignValid_def CHI_CHUNK_MIN_SIZE_def CHI_CHUNK_MAX_SIZE_def by simp

text \<open>C16: The runtime accounts for its memory: a chunk for the heap is taken or the process ends, a request that may
  fail never ends the process and never goes over the limit, the counter always equals the bytes of the
  chunks held, it cannot wrap, going over the limit raises the overflow flag and triggers the collector, and
  freeing a chunk takes its size off the counter.\<close>

theorem heap_accounting:
  assumes "rt_ok lo hi rt" "request_ok sz 0" "rt_ready e rt"
  shows "(case chiHeapChunkNew e sz mayfail rt of
      Diverges \<Rightarrow> False
    | Dies \<Rightarrow> \<not> mayfail
    | Returns (None, t) \<Rightarrow> mayfail \<and> rt_ok lo hi t \<and> held t = held rt
    | Returns (Some c, t) \<Rightarrow> rt_ok lo hi t \<and> held rt c = None \<and> (\<exists>a. held t = (held rt)(c \<mapsto> (a, sz)) \<and> lo \<le> a) \<and>
        unat (heapTotalSize t) = unat (heapTotalSize rt) + sz \<and> (mayfail \<longrightarrow> heapTotalSize t \<le> heapOverflowLimit rt) \<and>
        (heapTotalSize t > heapOverflowLimit rt \<longrightarrow> heapOverflow t \<and> (gcModeNone t \<or> gcTriggered t))) \<and>
    (\<forall>c a n. held rt c = Some (a, n) \<longrightarrow> (let t = chiHeapChunkFree f c rt in
       rt_ok lo hi t \<and> held t = (held rt)(c := None) \<and> unat (heapTotalSize t) + n = unat (heapTotalSize rt)))"
proof -
  have grow: "unat (heapTotalSize t) = unat (heapTotalSize rt) + sz"
    if "rt_ok lo hi t" "held t = (held rt)(c \<mapsto> (a, sz))" "held rt c = None" for t c a
    using that assms(1) held_total_insert [OF held_finite that(3)] by (simp add: rt_ok_def rt_inv_def)
  have shrink: "rt_ok lo hi (chiHeapChunkFree f c rt) \<and> held (chiHeapChunkFree f c rt) = (held rt)(c := None) \<and>
      unat (heapTotalSize (chiHeapChunkFree f c rt)) + n = unat (heapTotalSize rt)" if "held rt c = Some (a, n)" for c a n
    using held_fun_free [of lo hi rt c f] held_total_remove [OF held_finite that] assms(1) that
    by (simp add: rt_ok_def rt_inv_def heap_free_is_block_free)
  note N = heap_chunk_new [OF assms, of mayfail]
  have "case chiHeapChunkNew e sz mayfail rt of
      Diverges \<Rightarrow> False
    | Dies \<Rightarrow> \<not> mayfail
    | Returns (None, t) \<Rightarrow> mayfail \<and> rt_ok lo hi t \<and> held t = held rt
    | Returns (Some c, t) \<Rightarrow> rt_ok lo hi t \<and> held rt c = None \<and> (\<exists>a. held t = (held rt)(c \<mapsto> (a, sz)) \<and> lo \<le> a) \<and>
        unat (heapTotalSize t) = unat (heapTotalSize rt) + sz \<and> (mayfail \<longrightarrow> heapTotalSize t \<le> heapOverflowLimit rt) \<and>
        (heapTotalSize t > heapOverflowLimit rt \<longrightarrow> heapOverflow t \<and> (gcModeNone t \<or> gcTriggered t))"
  proof (cases "chiHeapChunkNew e sz mayfail rt")
    case (Returns x)
    obtain r t where x: "x = (r, t)" by fastforce
    show ?thesis
    proof (cases r)
      case None
      then show ?thesis using N unfolding Returns x None by simp
    next
      case (Some c)
      have n: "rt_ok lo hi t \<and> held rt c = None \<and> (\<exists>a. held t = (held rt)(c \<mapsto> (a, sz)) \<and> lo \<le> a) \<and>
          heapTotalSize t = heapTotalSize rt + of_nat sz \<and> (mayfail \<longrightarrow> heapTotalSize t \<le> heapOverflowLimit rt) \<and>
          (heapTotalSize t > heapOverflowLimit rt \<longrightarrow> heapOverflow t \<and> (gcModeNone t \<or> gcTriggered t))"
        using N [unfolded Returns x Some outcome.case prod.case option.case] .
      then have "unat (heapTotalSize t) = unat (heapTotalSize rt) + sz" using grow by blast
      then show ?thesis using n unfolding Returns x Some outcome.case prod.case option.case by blast
    qed
  qed (use N in simp_all)
  then show ?thesis using shrink by (auto simp: Let_def)
qed

theorem heap_accounting_witness:
  "\<exists>t. chiHeapChunkNew (\<lambda>_ _ _. True, Some (2 ^ 20)) 8192 True rt_example = Returns (None, t) \<and> rt_ok (2 ^ 37) (2 ^ 37 + 2 ^ 20) t"
proof -
  have "chiHeapChunkNew (\<lambda>_ _ _. True, Some (2 ^ 20)) 8192 True rt_example = Returns (None, rt_example)"
    by (simp add: chiHeapChunkNew_def rt_example_def)
  then show ?thesis
    using heap_accounting [OF rt_example_ok(1) request_example_0 rt_example_ok(2), of True "\<lambda>_ _ _. True"] by simp
qed

end
