(* ===== verification/BlockMan.thy ===== *)
theory BlockMan
  imports RtMem "HOL-Library.Multiset"
begin

text \<open>
  The block manager (\<^verbatim>\<open>src/native/blockman.c\<close>, \<^verbatim>\<open>src/native/block.h\<close>): equally sized, aligned blocks carved out of
  chunks. The chunks come from a source that is an argument of the operations: the call that takes a chunk, the one that
  gives it back, and the start address of a chunk. A block is its address, the free list and the list of chunks
  are list values (\<^verbatim>\<open>DList\<close> shows that the linked lists implement them), a null pointer is 0. The operations of the
  code hold the manager's mutex when it is shared; each function is one such section.
\<close>

record block_manager =
  freeList :: "nat list"
  blocksCount :: nat
  blockSize :: nat
  bmChunkSize :: nat
  blockMask :: u64
  nextBlock :: nat
  chunkEnd :: nat
  chunkList :: "nat list"
  shared :: bool
  allocHookEnabled :: bool

definition chiBlock :: "block_manager \<Rightarrow> nat \<Rightarrow> nat" where
  "chiBlock bm p = unat (of_nat p AND blockMask bm)"

definition freshBlock ::
  "('e \<Rightarrow> nat \<Rightarrow> nat \<Rightarrow> 's \<Rightarrow> (nat \<times> 's) outcome) \<Rightarrow> ('s \<Rightarrow> nat \<Rightarrow> nat) \<Rightarrow> 'e \<Rightarrow> block_manager \<Rightarrow> 's \<Rightarrow>
   (nat \<times> block_manager \<times> 's) outcome" where
  "freshBlock acquire start e bm s =
     (let blockStart = nextBlock bm; blockEnd = blockStart + blockSize bm
      in if blockStart \<noteq> 0 \<and> blockEnd \<le> chunkEnd bm
         then Returns (blockStart, bm\<lparr> nextBlock := (if blockEnd = chunkEnd bm then 0 else blockEnd),
                blocksCount := blocksCount bm + 1 \<rparr>, s)
         else
           (case acquire e (bmChunkSize bm) (max CHI_CHUNK_MIN_SIZE (blockSize bm)) s of
              Returns (r, s) \<Rightarrow>
                Returns (start s r, bm\<lparr> chunkEnd := start s r + bmChunkSize bm, nextBlock := start s r + blockSize bm,
                  chunkList := chunkList bm @ [r], blocksCount := blocksCount bm + 1 \<rparr>, s)
            | Dies \<Rightarrow> Dies | Diverges \<Rightarrow> Diverges))"

fun free_chunks :: "('f \<Rightarrow> nat \<Rightarrow> 's \<Rightarrow> 's) \<Rightarrow> (nat \<Rightarrow> 'f) \<Rightarrow> nat list \<Rightarrow> 's \<Rightarrow> 's" where
  "free_chunks give f [] s = s"
| "free_chunks give f (c # cs) s = free_chunks give f cs (give (f c) c s)"

definition freeChunkList :: "('f \<Rightarrow> nat \<Rightarrow> 's \<Rightarrow> 's) \<Rightarrow> (nat \<Rightarrow> 'f) \<Rightarrow> block_manager \<Rightarrow> 's \<Rightarrow> block_manager \<times> 's" where
  "freeChunkList give f bm s =
     (if blocksCount bm = length (freeList bm)
      then (bm\<lparr> chunkList := [], freeList := [], nextBlock := 0, chunkEnd := 0, blocksCount := 0 \<rparr>,
            free_chunks give f (chunkList bm) s)
      else (bm, s))"

definition chiBlockManagerSetup :: "nat \<Rightarrow> nat \<Rightarrow> bool \<Rightarrow> block_manager" where
  "chiBlockManagerSetup bs cs sh =
     \<lparr> freeList = [], blocksCount = 0, blockSize = bs, bmChunkSize = cs, blockMask = CHI_ALIGNMASK (of_nat bs),
       nextBlock = 0, chunkEnd = 0, chunkList = [], shared = sh, allocHookEnabled = False \<rparr>"

definition chiBlockManagerDestroy :: "('f \<Rightarrow> nat \<Rightarrow> 's \<Rightarrow> 's) \<Rightarrow> (nat \<Rightarrow> 'f) \<Rightarrow> block_manager \<Rightarrow> 's \<Rightarrow> block_manager \<times> 's" where
  "chiBlockManagerDestroy give f bm s = freeChunkList give f bm s"

text \<open>The hook is the callout \<^verbatim>\<open>chiBlockManagerAllocHook\<close>.\<close>

definition chiBlockManagerAlloc ::
  "('e \<Rightarrow> nat \<Rightarrow> nat \<Rightarrow> 's \<Rightarrow> (nat \<times> 's) outcome) \<Rightarrow> ('s \<Rightarrow> nat \<Rightarrow> nat) \<Rightarrow> ('s \<Rightarrow> 's) \<Rightarrow> 'e \<Rightarrow> block_manager \<Rightarrow> 's \<Rightarrow>
   (nat \<times> block_manager \<times> 's) outcome" where
  "chiBlockManagerAlloc acquire start hook e bm s =
     (case (if freeList bm = [] then freshBlock acquire start e bm s
            else Returns (hd (freeList bm), bm\<lparr> freeList := tl (freeList bm) \<rparr>, s)) of
        Returns (b, bm, s) \<Rightarrow> Returns (b, bm, if allocHookEnabled bm then hook s else s)
      | Dies \<Rightarrow> Dies | Diverges \<Rightarrow> Diverges)"

definition chiBlockManagerFreeList ::
  "('f \<Rightarrow> nat \<Rightarrow> 's \<Rightarrow> 's) \<Rightarrow> (nat \<Rightarrow> 'f) \<Rightarrow> block_manager \<Rightarrow> nat list \<Rightarrow> 's \<Rightarrow> block_manager \<times> 's" where
  "chiBlockManagerFreeList give f bm l s =
     (if l = [] then (bm, s) else freeChunkList give f (bm\<lparr> freeList := freeList bm @ l \<rparr>) s)"

definition chiBlockManagerFree ::
  "('f \<Rightarrow> nat \<Rightarrow> 's \<Rightarrow> 's) \<Rightarrow> (nat \<Rightarrow> 'f) \<Rightarrow> block_manager \<Rightarrow> nat \<Rightarrow> 's \<Rightarrow> block_manager \<times> 's" where
  "chiBlockManagerFree give f bm b s = freeChunkList give f (bm\<lparr> freeList := b # freeList bm \<rparr>) s"

section \<open>The blocks of a manager\<close>

definition tiles :: "nat \<Rightarrow> nat \<Rightarrow> nat \<Rightarrow> nat set" where
  "tiles a n bs = {a + i * bs |i. a + i * bs + bs \<le> a + n}"

definition fresh :: "block_manager \<Rightarrow> nat set" where
  "fresh bm = (if nextBlock bm = 0 then {} else tiles (nextBlock bm) (chunkEnd bm - nextBlock bm) (blockSize bm))"

lemma tiles_finite: "0 < bs \<Longrightarrow> finite (tiles a n bs)"
proof (rule finite_subset)
  assume "0 < bs"
  then have "i \<le> i * bs" for i by simp
  then show "tiles a n bs \<subseteq> {..a + n}" by (auto simp: tiles_def intro: trans_le_add1)
qed simp

lemma tiles_within: "x \<in> tiles a n bs \<Longrightarrow> a \<le> x \<and> x + bs \<le> a + n \<and> (bs dvd a \<longrightarrow> bs dvd x)"
  by (auto simp: tiles_def)

lemma tilesE:
  assumes "x \<in> tiles a n bs"
  obtains i where "x = a + i * bs" "a + i * bs + bs \<le> a + n"
  using assms unfolding tiles_def by blast

lemma tiles_first: "bs \<le> n \<Longrightarrow> tiles a n bs = insert a (tiles (a + bs) (n - bs) bs)"
proof -
  assume n: "bs \<le> n"
  have "x \<in> insert a (tiles (a + bs) (n - bs) bs)" if t: "x \<in> tiles a n bs" for x
  proof -
    obtain i where i: "x = a + i * bs" "a + i * bs + bs \<le> a + n" using t by (rule tilesE)
    show ?thesis
    proof (cases i)
      case (Suc j)
      then have "x = a + bs + j * bs \<and> a + bs + j * bs + bs \<le> a + bs + (n - bs)" using i n by simp
      then show ?thesis unfolding tiles_def by blast
    qed (use i in simp)
  qed
  moreover have "x \<in> tiles a n bs" if t: "x \<in> tiles (a + bs) (n - bs) bs" for x
  proof -
    obtain i where "x = a + bs + i * bs" "a + bs + i * bs + bs \<le> a + bs + (n - bs)" using t by (rule tilesE)
    then have "x = a + Suc i * bs \<and> a + Suc i * bs + bs \<le> a + n" using n by simp
    then show ?thesis unfolding tiles_def by blast
  qed
  moreover have "a \<in> tiles a n bs" using n unfolding tiles_def by (intro CollectI exI [of _ 0]) simp
  ultimately show ?thesis by blast
qed

lemma tiles_empty: "n < bs \<Longrightarrow> tiles a n bs = {}"
  by (auto simp: tiles_def)

lemma tiles_first_notin: "0 < bs \<Longrightarrow> a \<notin> tiles (a + bs) n bs"
  by (auto simp: tiles_def)

text \<open>The blocks the manager has carved so far are the tiles of its chunks without the rest of the last one; those
  that are not in the free list are in use.\<close>

definition carved :: "('s \<Rightarrow> nat \<Rightarrow> nat) \<Rightarrow> 's \<Rightarrow> block_manager \<Rightarrow> nat set" where
  "carved start s bm = (\<Union>c \<in> set (chunkList bm). tiles (start s c) (bmChunkSize bm) (blockSize bm)) - fresh bm"

definition blocks_used :: "('s \<Rightarrow> nat \<Rightarrow> nat) \<Rightarrow> 's \<Rightarrow> block_manager \<Rightarrow> nat set" where
  "blocks_used start s bm = carved start s bm - set (freeList bm)"

definition sizes_valid :: "(nat \<Rightarrow> nat \<Rightarrow> bool) \<Rightarrow> block_manager \<Rightarrow> bool" where
  "sizes_valid valid bm \<longleftrightarrow> 0 < blockSize bm \<and> blockSize bm \<le> bmChunkSize bm \<and>
     blockSize bm dvd max CHI_CHUNK_MIN_SIZE (blockSize bm) \<and> valid (bmChunkSize bm) (max CHI_CHUNK_MIN_SIZE (blockSize bm))"

text \<open>The invariant of a block manager over the source.\<close>

definition bm_inv ::
  "('s \<Rightarrow> nat \<Rightarrow> (nat \<times> nat) option) \<Rightarrow> ('s \<Rightarrow> nat \<Rightarrow> nat) \<Rightarrow> ('s \<Rightarrow> bool) \<Rightarrow> (nat \<Rightarrow> nat \<Rightarrow> bool) \<Rightarrow> block_manager \<Rightarrow> 's \<Rightarrow> bool" where
  "bm_inv used start ok valid bm s \<longleftrightarrow> sizes_valid valid bm \<and> ok s \<and> distinct (chunkList bm) \<and>
     (\<forall>c \<in> set (chunkList bm). \<exists>a. used s c = Some (a, bmChunkSize bm) \<and> blockSize bm dvd a) \<and>
     (nextBlock bm \<noteq> 0 \<longrightarrow> (\<exists>c \<in> set (chunkList bm). \<exists>k. start s c + k * blockSize bm = nextBlock bm \<and>
        nextBlock bm \<le> chunkEnd bm \<and> chunkEnd bm = start s c + bmChunkSize bm)) \<and>
     blocksCount bm = card (carved start s bm) \<and> distinct (freeList bm) \<and> set (freeList bm) \<subseteq> carved start s bm"

context chunk_source
begin

abbreviation bm_ok :: "block_manager \<Rightarrow> 's \<Rightarrow> bool" where
  "bm_ok \<equiv> bm_inv used start ok valid"

lemmas bm_ok_def = bm_inv_def [of used start ok valid]

lemma chunk_tiles:
  assumes "bm_ok bm s" "c \<in> set (chunkList bm)"
  obtains a where "used s c = Some (a, bmChunkSize bm)" "start s c = a" "blockSize bm dvd a"
  using assms start_used by (fastforce simp: bm_ok_def)

lemma carved_finite: "bm_ok bm s \<Longrightarrow> finite (carved start s bm)"
  by (auto simp: carved_def bm_ok_def sizes_valid_def intro!: tiles_finite)

text \<open>Carving the next block of the current chunk.\<close>

lemma fresh_next:
  assumes ok: "bm_ok bm s" and n: "nextBlock bm \<noteq> 0" "nextBlock bm + blockSize bm \<le> chunkEnd bm"
  defines "bm' \<equiv> bm\<lparr> nextBlock := (if nextBlock bm + blockSize bm = chunkEnd bm then 0 else nextBlock bm + blockSize bm),
                blocksCount := blocksCount bm + 1 \<rparr>"
  shows "nextBlock bm \<in> fresh bm \<and> fresh bm' = fresh bm - {nextBlock bm}"
proof -
  let ?n = "nextBlock bm" and ?b = "blockSize bm" and ?r = "chunkEnd bm - nextBlock bm"
  have b: "0 < ?b" using ok by (simp add: bm_ok_def sizes_valid_def)
  have "fresh bm = insert ?n (tiles (?n + ?b) (?r - ?b) ?b)"
    using n by (simp add: fresh_def tiles_first)
  moreover have "?n \<notin> tiles (?n + ?b) (?r - ?b) ?b" by (rule tiles_first_notin [OF b])
  moreover have "fresh bm' = tiles (?n + ?b) (?r - ?b) ?b"
  proof (cases "?n + ?b = chunkEnd bm")
    case True
    then have "?r - ?b = 0" by simp
    then show ?thesis using True b tiles_empty [of 0 ?b] by (simp add: fresh_def bm'_def)
  qed (use n(1) in \<open>simp add: fresh_def bm'_def\<close>)
  ultimately show ?thesis by auto
qed

lemma fresh_within_chunks:
  assumes ok: "bm_ok bm s"
  shows "fresh bm \<subseteq> (\<Union>c \<in> set (chunkList bm). tiles (start s c) (bmChunkSize bm) (blockSize bm))"
proof
  fix x assume x: "x \<in> fresh bm"
  then have n: "nextBlock bm \<noteq> 0" by (auto simp: fresh_def split: if_splits)
  then obtain c k where c: "c \<in> set (chunkList bm)" "start s c + k * blockSize bm = nextBlock bm"
    "nextBlock bm \<le> chunkEnd bm" "chunkEnd bm = start s c + bmChunkSize bm"
    using ok by (auto simp: bm_ok_def)
  obtain i where i: "x = nextBlock bm + i * blockSize bm" "x + blockSize bm \<le> chunkEnd bm"
    using x n c(3) by (auto simp: fresh_def tiles_def)
  have "x = start s c + (k + i) * blockSize bm" using c(2) i(1) by (simp add: algebra_simps)
  moreover have "start s c + (k + i) * blockSize bm + blockSize bm \<le> start s c + bmChunkSize bm" using calculation i(2) c(4) by simp
  ultimately have "x \<in> tiles (start s c) (bmChunkSize bm) (blockSize bm)" unfolding tiles_def by blast
  then show "x \<in> (\<Union>c \<in> set (chunkList bm). tiles (start s c) (bmChunkSize bm) (blockSize bm))" using c(1) by blast
qed

lemma carve_next:
  assumes ok: "bm_ok bm s" and n: "nextBlock bm \<noteq> 0" "nextBlock bm + blockSize bm \<le> chunkEnd bm"
  defines "bm' \<equiv> bm\<lparr> nextBlock := (if nextBlock bm + blockSize bm = chunkEnd bm then 0 else nextBlock bm + blockSize bm),
                blocksCount := blocksCount bm + 1 \<rparr>"
  shows "bm_ok bm' s \<and> carved start s bm' = insert (nextBlock bm) (carved start s bm) \<and> nextBlock bm \<notin> carved start s bm"
proof -
  let ?n = "nextBlock bm" and ?b = "blockSize bm"
  note F = fresh_next [OF ok n, folded bm'_def]
  have "?n \<in> (\<Union>c \<in> set (chunkList bm). tiles (start s c) (bmChunkSize bm) ?b)" using fresh_within_chunks [OF ok] F by blast
  then have c: "carved start s bm' = insert ?n (carved start s bm)" "?n \<notin> carved start s bm"
    using F by (auto simp: carved_def bm'_def)
  then have k: "blocksCount bm' = card (carved start s bm')"
    using carved_finite [OF ok] ok by (simp add: bm'_def bm_ok_def)
  have "\<exists>c \<in> set (chunkList bm'). \<exists>k. start s c + k * ?b = nextBlock bm' \<and> nextBlock bm' \<le> chunkEnd bm' \<and>
      chunkEnd bm' = start s c + bmChunkSize bm'" if "nextBlock bm' \<noteq> 0"
  proof -
    obtain c k where k: "c \<in> set (chunkList bm)" "start s c + k * ?b = ?n" "chunkEnd bm = start s c + bmChunkSize bm"
      using ok n(1) by (auto simp: bm_ok_def)
    then have "start s c + Suc k * ?b = ?n + ?b" by simp
    moreover have "nextBlock bm' = ?n + ?b" using that by (auto simp: bm'_def split: if_splits)
    ultimately have "start s c + Suc k * ?b = nextBlock bm' \<and> nextBlock bm' \<le> chunkEnd bm' \<and> chunkEnd bm' = start s c + bmChunkSize bm'"
      using k(3) n(2) by (simp add: bm'_def)
    moreover have "c \<in> set (chunkList bm')" using k(1) by (simp add: bm'_def)
    ultimately show ?thesis by blast
  qed
  moreover have "blockSize bm' = ?b" "chunkList bm' = chunkList bm" "bmChunkSize bm' = bmChunkSize bm" "freeList bm' = freeList bm"
    by (simp_all add: bm'_def)
  ultimately have "bm_ok bm' s" using ok c k by (auto simp: bm_ok_def sizes_valid_def)
  then show ?thesis using c by blast
qed

text \<open>Starting a new chunk.\<close>

lemma tiles_apart: "0 < b \<Longrightarrow> a + n \<le> a' \<or> a' + n' \<le> a \<Longrightarrow> x \<in> tiles a n b \<Longrightarrow> x \<notin> tiles a' n' b"
  by (auto dest!: tiles_within)

lemma carve_chunk:
  assumes ok: "bm_ok bm s" and n: "\<not> (nextBlock bm \<noteq> 0 \<and> nextBlock bm + blockSize bm \<le> chunkEnd bm)"
    and t: "ok t" "used s r = None" "used t = (used s)(r \<mapsto> (a, bmChunkSize bm))" "blockSize bm dvd a" "0 < a"
  defines "bm' \<equiv> bm\<lparr> chunkEnd := a + bmChunkSize bm, nextBlock := a + blockSize bm,
                  chunkList := chunkList bm @ [r], blocksCount := blocksCount bm + 1 \<rparr>"
  shows "bm_ok bm' t \<and> carved start t bm' = insert a (carved start s bm) \<and> a \<notin> carved start s bm"
proof -
  let ?b = "blockSize bm" and ?n = "bmChunkSize bm"
  have sz: "0 < ?b" "?b \<le> ?n" using ok by (simp_all add: bm_ok_def sizes_valid_def)
  have sr: "start t r = a" using t(3) by (intro start_used [where n = ?n]) simp
  have old: "start t c = start s c \<and> c \<noteq> r \<and> (\<exists>b. used t c = Some (b, ?n) \<and> ?b dvd b) \<and>
      (start s c + ?n \<le> a \<or> a + ?n \<le> start s c)" if "c \<in> set (chunkList bm)" for c
  proof -
    obtain b where b: "used s c = Some (b, ?n)" "start s c = b" "?b dvd b" using chunk_tiles [OF ok] \<open>c \<in> set (chunkList bm)\<close> by metis
    then have "c \<noteq> r" using t(2) by auto
    then have u: "used t c = Some (b, ?n)" using b(1) t(3) by simp
    then have "start t c = b" by (rule start_used)
    moreover have "used t r = Some (a, ?n)" using t(3) by simp
    then have "b + ?n \<le> a \<or> a + ?n \<le> b" by (rule used_apart [OF t(1) u]) (rule \<open>c \<noteq> r\<close>)
    ultimately show ?thesis using b u \<open>c \<noteq> r\<close> by auto
  qed
  have "chunkEnd bm - nextBlock bm < ?b" if "nextBlock bm \<noteq> 0" using n that sz(1) by auto
  then have "fresh bm = {}" by (simp add: fresh_def tiles_empty)
  then have cs: "carved start s bm = (\<Union>c \<in> set (chunkList bm). tiles (start s c) ?n ?b)" by (simp add: carved_def)
  have fr: "fresh bm' = tiles (a + ?b) (?n - ?b) ?b" using t(5) by (simp add: bm'_def fresh_def)
  have tr: "tiles (start t r) ?n ?b = insert a (fresh bm')" using tiles_first [OF sz(2), of a] by (simp only: fr sr)
  have "(\<Union>c \<in> set (chunkList bm'). tiles (start t c) ?n ?b) =
      (\<Union>c \<in> set (chunkList bm). tiles (start s c) ?n ?b) \<union> tiles (start t r) ?n ?b"
    using old by (auto simp: bm'_def)
  then have "(\<Union>c \<in> set (chunkList bm'). tiles (start t c) ?n ?b) = carved start s bm \<union> insert a (fresh bm')"
    by (simp only: cs tr)
  moreover have "x \<notin> insert a (fresh bm')" if "x \<in> carved start s bm" for x
    using that old tiles_apart [OF sz(1)] unfolding cs fr tiles_first [OF sz(2), of a, symmetric] by blast
  moreover have "a \<notin> fresh bm'" using tiles_first_notin [OF sz(1)] by (simp add: fr)
  ultimately have c: "carved start t bm' = insert a (carved start s bm)" "a \<notin> carved start s bm"
    by (auto simp: carved_def bm'_def)
  have "blocksCount bm' = card (carved start t bm')"
    using ok carved_finite [OF ok] c by (simp add: bm'_def bm_ok_def)
  moreover have "distinct (chunkList bm')" using ok old by (auto simp: bm'_def bm_ok_def)
  moreover have "\<exists>k. start t r + k * ?b = nextBlock bm'" by (rule exI [of _ 1]) (simp add: sr bm'_def)
  then have "\<exists>c \<in> set (chunkList bm'). \<exists>k. start t c + k * ?b = nextBlock bm' \<and> nextBlock bm' \<le> chunkEnd bm' \<and>
      chunkEnd bm' = start t c + bmChunkSize bm'"
    using sz(2) sr by (auto simp: bm'_def)
  moreover have "sizes_valid valid bm'" using ok by (simp add: bm'_def bm_ok_def sizes_valid_def)
  moreover have "\<exists>x. used t r = Some (x, ?n) \<and> ?b dvd x" using t(3,4) by simp
  then have "\<forall>c \<in> set (chunkList bm'). \<exists>x. used t c = Some (x, ?n) \<and> ?b dvd x"
    using old by (auto simp: bm'_def)
  moreover have "distinct (freeList bm') \<and> set (freeList bm') \<subseteq> carved start t bm'"
    using ok c by (auto simp: bm'_def bm_ok_def)
  ultimately have "bm_ok bm' t" using t(1) by (simp add: bm_ok_def bm'_def)
  then show ?thesis using c by blast
qed

lemma aligned_tile:
  assumes "bm_ok bm s" "x \<in> carved start s bm"
  shows "blockSize bm dvd x \<and> (\<exists>c \<in> set (chunkList bm). start s c \<le> x \<and> x + blockSize bm \<le> start s c + bmChunkSize bm)"
proof -
  obtain c where c: "c \<in> set (chunkList bm)" "x \<in> tiles (start s c) (bmChunkSize bm) (blockSize bm)"
    using assms(2) by (auto simp: carved_def)
  then show ?thesis using chunk_tiles [OF assms(1) c(1)] tiles_within [OF c(2)] by metis
qed

lemma fresh_block_ok:
  assumes ok: "bm_ok bm s" and rd: "ready e s"
  shows "freshBlock acquire start e bm s = Dies \<or> (\<exists>b bm' t. freshBlock acquire start e bm s = Returns (b, bm', t) \<and> bm_ok bm' t \<and>
    b \<notin> carved start s bm \<and> carved start t bm' = insert b (carved start s bm) \<and> freeList bm' = freeList bm \<and>
    blockSize bm' = blockSize bm \<and> allocHookEnabled bm' = allocHookEnabled bm \<and>
    (\<forall>c. used s c \<noteq> None \<longrightarrow> used t c = used s c))"
proof (cases "nextBlock bm \<noteq> 0 \<and> nextBlock bm + blockSize bm \<le> chunkEnd bm")
  case True
  then have "nextBlock bm \<noteq> 0" "nextBlock bm + blockSize bm \<le> chunkEnd bm" by blast+
  from carve_next [OF ok this] show ?thesis using True by (auto simp: freshBlock_def Let_def)
next
  case False
  let ?al = "max CHI_CHUNK_MIN_SIZE (blockSize bm)"
  have v: "valid (bmChunkSize bm) ?al" "blockSize bm dvd ?al" "ok s" using ok by (simp_all add: bm_ok_def sizes_valid_def)
  note T = acquire_ok [OF v(3,1) rd]
  show ?thesis
  proof (cases "acquire e (bmChunkSize bm) ?al s = Dies")
    case True
    then show ?thesis using False by (auto simp: freshBlock_def Let_def)
  next
    case nd: False
    then obtain r t a where t: "acquire e (bmChunkSize bm) ?al s = Returns (r, t)" "ok t" "used s r = None"
      "used t = (used s)(r \<mapsto> (a, bmChunkSize bm))" "?al dvd a" "0 < a"
      using T by blast
    have d: "blockSize bm dvd a" using dvd_trans [OF v(2) t(5)] .
    have "start t r = a" using t(4) by (intro start_used [where n = "bmChunkSize bm"]) simp
    then have "freshBlock acquire start e bm s = Returns (a, bm\<lparr> chunkEnd := a + bmChunkSize bm, nextBlock := a + blockSize bm,
                  chunkList := chunkList bm @ [r], blocksCount := blocksCount bm + 1 \<rparr>, t)"
      using False t(1) by (auto simp: freshBlock_def Let_def)
    moreover have "\<forall>c. used s c \<noteq> None \<longrightarrow> used t c = used s c" using t(3,4) by auto
    ultimately show ?thesis using carve_chunk [OF ok False t(2,3,4) d t(6)] by auto
  qed
qed

lemma bm_frame:
  assumes "bm_ok bm s" "ok t" "\<forall>c \<in> set (chunkList bm). used t c = used s c"
  shows "bm_ok bm t \<and> carved start t bm = carved start s bm"
proof -
  have st: "start t c = start s c" if "c \<in> set (chunkList bm)" for c
    using chunk_tiles [OF assms(1) that] assms(3) that start_used by metis
  then have "carved start t bm = carved start s bm" by (simp add: carved_def)
  then show ?thesis using assms st unfolding bm_ok_def by metis
qed

lemma balloc_ok:
  assumes ok: "bm_ok bm s" and rd: "ready e s" and hook: "\<forall>s. ok s \<longrightarrow> ok (hook s) \<and> used (hook s) = used s"
  shows "chiBlockManagerAlloc acquire start hook e bm s = Dies \<or>
    (\<exists>b bm' t. chiBlockManagerAlloc acquire start hook e bm s = Returns (b, bm', t) \<and> bm_ok bm' t \<and>
      b \<notin> blocks_used start s bm \<and> blocks_used start t bm' = insert b (blocks_used start s bm) \<and>
      blockSize bm' = blockSize bm \<and> (\<forall>c. used s c \<noteq> None \<longrightarrow> used t c = used s c))"
proof -
  have H: "\<exists>t'. (if allocHookEnabled bm' then hook t else t) = t' \<and> bm_ok bm' t' \<and> carved start t' bm' = carved start t bm' \<and> used t' = used t"
    if "bm_ok bm' t" for bm' t
  proof -
    have "ok t" using that unfolding bm_ok_def by blast
    then have "ok (if allocHookEnabled bm' then hook t else t) \<and> used (if allocHookEnabled bm' then hook t else t) = used t"
      using hook by simp
    then show ?thesis using bm_frame [OF that] by metis
  qed
  show ?thesis
  proof (cases "freeList bm")
    case Nil
    show ?thesis
    proof (cases "freshBlock acquire start e bm s = Dies")
      case False
      then obtain b bm' t where f: "freshBlock acquire start e bm s = Returns (b, bm', t)" "bm_ok bm' t"
        "b \<notin> carved start s bm" "carved start t bm' = insert b (carved start s bm)" "freeList bm' = freeList bm"
        "blockSize bm' = blockSize bm" "\<forall>c. used s c \<noteq> None \<longrightarrow> used t c = used s c"
        using fresh_block_ok [OF ok rd] by blast
      then show ?thesis using H [OF f(2)] Nil by (auto simp: chiBlockManagerAlloc_def blocks_used_def)
    qed (simp add: chiBlockManagerAlloc_def Nil)
  next
    case (Cons b bs)
    let ?bm = "bm\<lparr> freeList := bs \<rparr>"
    have c: "carved start s ?bm = carved start s bm" by (simp add: carved_def fresh_def)
    have k: "bm_ok ?bm s" using ok Cons c by (auto simp: bm_inv_def sizes_valid_def)
    have "b \<in> carved start s bm" "b \<notin> set bs" using ok Cons by (auto simp: bm_inv_def)
    then show ?thesis using H [OF k] Cons c by (auto simp: chiBlockManagerAlloc_def blocks_used_def)
  qed
qed

lemma free_chunks_ok:
  "ok s \<Longrightarrow> distinct cs \<Longrightarrow> \<forall>c \<in> set cs. used s c \<noteq> None \<Longrightarrow>
     ok (free_chunks give f cs s) \<and> used (free_chunks give f cs s) = (\<lambda>c. if c \<in> set cs then None else used s c)"
proof (induction cs arbitrary: s)
  case (Cons c cs)
  have "used s c \<noteq> None" using Cons.prems(3) by simp
  note G = give_ok [OF Cons.prems(1) this, of "f c"]
  have "\<forall>d \<in> set cs. used (give (f c) c s) d \<noteq> None" using Cons.prems(2,3) G by auto
  then show ?case using Cons.IH [of "give (f c) c s"] Cons.prems(2) G by (auto simp: fun_eq_iff)
qed simp

lemma free_list_ok:
  assumes ok: "bm_ok bm s" and l: "l \<noteq> []" "distinct l" "set l \<subseteq> blocks_used start s bm" and fl: "mset fl = mset (freeList bm) + mset l"
    and r: "freeChunkList give f (bm\<lparr> freeList := fl \<rparr>) s = (bm', t)"
  shows "bm_ok bm' t \<and> blocks_used start t bm' = blocks_used start s bm - set l \<and> blockSize bm' = blockSize bm \<and>
    (\<forall>c. c \<notin> set (chunkList bm) \<longrightarrow> used t c = used s c) \<and>
    (blocks_used start s bm = set l \<longrightarrow> chunkList bm' = [] \<and> (\<forall>c \<in> set (chunkList bm). used t c = None)) \<and>
    (blocks_used start s bm \<noteq> set l \<longrightarrow> t = s)"
proof -
  let ?bm = "bm\<lparr> freeList := fl \<rparr>"
  have c: "carved start s ?bm = carved start s bm" by (simp add: carved_def fresh_def)
  have sf: "set fl = set (freeList bm) \<union> set l" using fl by (metis set_mset_mset set_mset_union)
  have "length fl = length (freeList bm) + length l" using fl by (metis size_mset size_union)
  moreover have dj: "set (freeList bm) \<inter> set l = {}" using l(3) by (auto simp: blocks_used_def)
  ultimately have d: "distinct fl"
    using ok l(2) sf by (intro card_distinct) (simp add: card_Un_disjoint distinct_card bm_inv_def)
  have k: "bm_ok ?bm s" using ok c d sf l(3) by (auto simp: bm_inv_def sizes_valid_def blocks_used_def)
  have u: "blocks_used start s ?bm = blocks_used start s bm - set l" using sf c by (auto simp: blocks_used_def)
  have all: "blocksCount ?bm = length (freeList ?bm) \<longleftrightarrow> blocks_used start s bm = set l"
  proof -
    have "length fl = card (set fl)" "set fl \<subseteq> carved start s bm" using d k c by (auto simp: distinct_card bm_inv_def)
    moreover have "blocksCount ?bm = card (carved start s bm)" using k c by (simp add: bm_inv_def)
    ultimately have "blocksCount ?bm = length (freeList ?bm) \<longleftrightarrow> set fl = carved start s bm"
      using card_subset_eq [OF carved_finite [OF ok]] by (metis block_manager.select_convs(1) block_manager.update_convs(1) block_manager.surjective)
    also have "\<dots> \<longleftrightarrow> blocks_used start s bm = set l"
      using sf dj l(3) ok by (auto simp: blocks_used_def bm_inv_def)
    finally show ?thesis .
  qed
  show ?thesis
  proof (cases "blocks_used start s bm = set l")
    case True
    have h: "\<forall>c \<in> set (chunkList bm). used s c \<noteq> None" using ok by (auto simp: bm_inv_def)
    have "ok s" "distinct (chunkList bm)" using ok by (simp_all add: bm_inv_def)
    note F = free_chunks_ok [OF this h, of f]
    have r': "bm' = ?bm\<lparr> chunkList := [], freeList := [], nextBlock := 0, chunkEnd := 0, blocksCount := 0 \<rparr>"
      "t = free_chunks give f (chunkList bm) s"
      using r True all by (auto simp: freeChunkList_def)
    have e: "carved start t bm' = {}" by (simp add: carved_def r')
    then have "bm_ok bm' t" using ok F by (auto simp: bm_inv_def sizes_valid_def r')
    moreover have "blocks_used start t bm' = {}" using e by (simp add: blocks_used_def)
    ultimately show ?thesis using True F r' by simp
  next
    case False
    then have "bm' = ?bm" "t = s" using r all by (auto simp: freeChunkList_def)
    then show ?thesis using k u False by simp
  qed
qed

lemma blocks_apart:
  assumes ok: "bm_ok bm s" and "x \<in> carved start s bm" "y \<in> carved start s bm" "x \<noteq> y"
  shows "x + blockSize bm \<le> y \<or> y + blockSize bm \<le> x"
proof -
  obtain i j where "x = blockSize bm * i" "y = blockSize bm * j"
    using aligned_tile [OF ok assms(2)] aligned_tile [OF ok assms(3)] by (auto elim!: dvdE)
  moreover from this assms(4) have "Suc i \<le> j \<or> Suc j \<le> i" by (metis Suc_leI linorder_neqE_nat)
  ultimately show ?thesis using mult_le_mono2 [of "Suc i" j "blockSize bm"] mult_le_mono2 [of "Suc j" i "blockSize bm"]
    by (auto simp: algebra_simps)
qed

end

section \<open>Block managers of the runtime\<close>

definition block_inv :: "nat \<Rightarrow> nat \<Rightarrow> block_manager \<Rightarrow> rt_mem \<Rightarrow> bool" where
  "block_inv lo hi = bm_inv held chunk_start (rt_ok lo hi) (\<lambda>sz al. request_ok sz al \<and> 0 < al)"

definition hook_ok :: "nat \<Rightarrow> nat \<Rightarrow> (rt_mem \<Rightarrow> rt_mem) \<Rightarrow> bool" where
  "hook_ok lo hi hook \<longleftrightarrow> (\<forall>rt. rt_ok lo hi rt \<longrightarrow> rt_ok lo hi (hook rt) \<and> held (hook rt) = held rt)"

abbreviation rt_blocks_used :: "rt_mem \<Rightarrow> block_manager \<Rightarrow> nat set" where
  "rt_blocks_used \<equiv> blocks_used chunk_start"

definition rt_block_alloc :: "(rt_mem \<Rightarrow> rt_mem) \<Rightarrow> take_env \<Rightarrow> block_manager \<Rightarrow> rt_mem \<Rightarrow> (nat \<times> block_manager \<times> rt_mem) outcome" where
  "rt_block_alloc = chiBlockManagerAlloc chiBlockManagerChunkNew chunk_start"

definition rt_block_free :: "(nat \<Rightarrow> free_env) \<Rightarrow> block_manager \<Rightarrow> nat \<Rightarrow> rt_mem \<Rightarrow> block_manager \<times> rt_mem" where
  "rt_block_free = chiBlockManagerFree chiBlockManagerChunkFree"

definition rt_block_free_list :: "(nat \<Rightarrow> free_env) \<Rightarrow> block_manager \<Rightarrow> nat list \<Rightarrow> rt_mem \<Rightarrow> block_manager \<times> rt_mem" where
  "rt_block_free_list = chiBlockManagerFreeList chiBlockManagerChunkFree"

lemma block_setup_inv:
  assumes "rt_ok lo hi rt" "0 < bs" "bs \<le> cs" "bs dvd max CHI_CHUNK_MIN_SIZE bs" "request_ok cs (max CHI_CHUNK_MIN_SIZE bs)"
  shows "block_inv lo hi (chiBlockManagerSetup bs cs sh) rt \<and> rt_blocks_used rt (chiBlockManagerSetup bs cs sh) = {}"
  using assms by (simp add: block_inv_def bm_inv_def sizes_valid_def chiBlockManagerSetup_def carved_def blocks_used_def fresh_def
      CHI_CHUNK_MIN_SIZE_def)

lemma block_alloc_inv:
  assumes "block_inv lo hi bm rt" "rt_ready e rt" "hook_ok lo hi hook"
  shows "rt_block_alloc hook e bm rt = Dies \<or> (\<exists>b bm' t. rt_block_alloc hook e bm rt = Returns (b, bm', t) \<and> block_inv lo hi bm' t \<and>
    b \<notin> rt_blocks_used rt bm \<and> rt_blocks_used t bm' = insert b (rt_blocks_used rt bm) \<and> blockSize bm' = blockSize bm \<and>
    (\<forall>c. held rt c \<noteq> None \<longrightarrow> held t c = held rt c))"
  using block_source.balloc_ok [of lo hi bm rt e hook] assms unfolding block_inv_def rt_block_alloc_def hook_ok_def by blast

lemma block_free_list_inv:
  assumes "block_inv lo hi bm rt" "distinct l" "set l \<subseteq> rt_blocks_used rt bm" "rt_block_free_list f bm l rt = (bm', t)"
  shows "block_inv lo hi bm' t \<and> rt_blocks_used t bm' = rt_blocks_used rt bm - set l \<and> blockSize bm' = blockSize bm \<and>
    (\<forall>c. c \<notin> set (chunkList bm) \<longrightarrow> held t c = held rt c) \<and>
    (l \<noteq> [] \<longrightarrow> rt_blocks_used rt bm = set l \<longrightarrow> chunkList bm' = [] \<and> (\<forall>c \<in> set (chunkList bm). held t c = None))"
proof (cases "l = []")
  case False
  then have r: "freeChunkList chiBlockManagerChunkFree f (bm\<lparr> freeList := freeList bm @ l \<rparr>) rt = (bm', t)"
    using assms(4) by (simp add: rt_block_free_list_def chiBlockManagerFreeList_def)
  show ?thesis
    using block_source.free_list_ok [of lo hi bm rt l "freeList bm @ l" f bm' t] False assms(1-3) r
    unfolding block_inv_def by auto
qed (use assms in \<open>auto simp: rt_block_free_list_def chiBlockManagerFreeList_def\<close>)

lemma block_free_inv:
  assumes "block_inv lo hi bm rt" "b \<in> rt_blocks_used rt bm" "rt_block_free f bm b rt = (bm', t)"
  shows "block_inv lo hi bm' t \<and> rt_blocks_used t bm' = rt_blocks_used rt bm - {b} \<and> blockSize bm' = blockSize bm \<and>
    (\<forall>c. c \<notin> set (chunkList bm) \<longrightarrow> held t c = held rt c) \<and>
    (rt_blocks_used rt bm = {b} \<longrightarrow> chunkList bm' = [] \<and> (\<forall>c \<in> set (chunkList bm). held t c = None))"
  using block_source.free_list_ok [of lo hi bm rt "[b]" "b # freeList bm" f bm' t] assms
  unfolding block_inv_def rt_block_free_def chiBlockManagerFree_def by auto

lemma block_used_place:
  assumes "block_inv lo hi bm rt" "b \<in> rt_blocks_used rt bm"
  shows "blockSize bm dvd b \<and> lo \<le> b \<and> b + blockSize bm \<le> hi \<and>
    (\<forall>x \<in> rt_blocks_used rt bm. x \<noteq> b \<longrightarrow> b + blockSize bm \<le> x \<or> x + blockSize bm \<le> b)"
proof -
  have ok: "bm_inv held chunk_start (rt_ok lo hi) (\<lambda>sz al. request_ok sz al \<and> 0 < al) bm rt" using assms(1) by (simp add: block_inv_def)
  have b: "b \<in> carved chunk_start rt bm" using assms(2) by (simp add: blocks_used_def)
  obtain c where c: "blockSize bm dvd b" "c \<in> set (chunkList bm)" "chunk_start rt c \<le> b"
    "b + blockSize bm \<le> chunk_start rt c + bmChunkSize bm"
    using block_source.aligned_tile [OF ok b] by blast
  obtain a where a: "held rt c = Some (a, bmChunkSize bm)" "chunk_start rt c = a"
    using block_source.chunk_tiles [OF ok c(2)] by blast
  have "lo \<le> a \<and> a + bmChunkSize bm \<le> hi"
    using held_apart [of lo hi rt c] a(1) ok by (auto simp: bm_inv_def rt_ok_def)
  then have "lo \<le> b \<and> b + blockSize bm \<le> hi" using c(3,4) a(2) by simp
  then show ?thesis using c(1) block_source.blocks_apart [OF ok b] by (auto simp: blocks_used_def)
qed

text \<open>The mask of a manager finds the block an address belongs to.\<close>

lemma unat_floor_mask: "unat ((x :: u64) AND NOT (mask k)) = (unat x div 2 ^ k) * 2 ^ k"
proof -
  have "x AND NOT (mask k) = push_bit k (drop_bit k x)"
    by (rule bit_eqI) (auto simp: bit_and_iff bit_not_iff bit_mask_iff bit_push_bit_iff bit_drop_bit_eq)
  moreover have "unat (push_bit k (drop_bit k x)) = (unat x div 2 ^ k) * 2 ^ k mod 2 ^ 64"
    using unat_push [of k "drop_bit k x"] unfolding unat_drop_bit by (simp only: drop_bit_eq_div)
  moreover have "(unat x div 2 ^ k) * 2 ^ k < 2 ^ 64"
    by (rule le_less_trans [OF div_times_less_eq_dividend]) simp
  ultimately show ?thesis by simp
qed

lemma block_of_address:
  assumes "blockSize bm = 2 ^ k" "blockMask bm = CHI_ALIGNMASK (of_nat (blockSize bm))" "blockSize bm dvd b" "b \<le> p" "p < b + blockSize bm"
    "b + blockSize bm < 2 ^ 64"
  shows "chiBlock bm p = b"
proof -
  have m: "blockMask bm = NOT (mask k)" using assms(1,2) by (simp add: CHI_ALIGNMASK_def mask_eq_exp_minus_1)
  have "unat (word_of_nat p :: u64) = p" using assms(5,6) by (simp add: unat_of_nat)
  then have e: "chiBlock bm p = (p div 2 ^ k) * 2 ^ k" by (simp add: chiBlock_def m unat_floor_mask)
  obtain i where i: "b = i * 2 ^ k" using assms(1,3) by (auto elim!: dvdE)
  have "p div 2 ^ k = i" by (rule div_nat_eqI) (use i assms(1,4,5) in \<open>simp_all add: algebra_simps\<close>)
  then show ?thesis using e i by simp
qed

text \<open>C17: A block manager over the chunk allocator hands out blocks that are not in use, aligned to the block size,
  inside the arena and apart from all other blocks in use, and the mask of the manager leads from any address in
  a block to the block; a block that is freed is not in use any more, alone or in a list, and when
  the last block in use is freed the manager gives back all its chunks.\<close>

theorem blocks_safe:
  assumes "block_inv lo hi bm rt" "rt_ready e rt" "hook_ok lo hi hook"
  shows "(case rt_block_alloc hook e bm rt of Diverges \<Rightarrow> False | Dies \<Rightarrow> True
    | Returns (b, bm', t) \<Rightarrow> block_inv lo hi bm' t \<and> b \<notin> rt_blocks_used rt bm \<and> rt_blocks_used t bm' = insert b (rt_blocks_used rt bm) \<and>
        blockSize bm dvd b \<and> lo \<le> b \<and> b + blockSize bm \<le> hi \<and>
        (\<forall>x \<in> rt_blocks_used rt bm. b + blockSize bm \<le> x \<or> x + blockSize bm \<le> b)) \<and>
    (\<forall>l. l \<noteq> [] \<longrightarrow> distinct l \<longrightarrow> set l \<subseteq> rt_blocks_used rt bm \<longrightarrow> (case rt_block_free_list f bm l rt of (bm', t) \<Rightarrow>
        block_inv lo hi bm' t \<and> rt_blocks_used t bm' = rt_blocks_used rt bm - set l \<and>
        (rt_blocks_used rt bm = set l \<longrightarrow> (\<forall>c \<in> set (chunkList bm). held t c = None)))) \<and>
    (\<forall>b \<in> rt_blocks_used rt bm. (\<forall>k p. blockSize bm = 2 ^ k \<longrightarrow> blockMask bm = CHI_ALIGNMASK (of_nat (blockSize bm)) \<longrightarrow>
        b \<le> p \<longrightarrow> p < b + blockSize bm \<longrightarrow> chiBlock bm p = b) \<and>
      (case rt_block_free f bm b rt of (bm', t) \<Rightarrow>
        block_inv lo hi bm' t \<and> rt_blocks_used t bm' = rt_blocks_used rt bm - {b} \<and>
        (rt_blocks_used rt bm = {b} \<longrightarrow> (\<forall>c \<in> set (chunkList bm). held t c = None))))"
proof (intro conjI allI impI ballI)
  show "case rt_block_alloc hook e bm rt of Diverges \<Rightarrow> False | Dies \<Rightarrow> True
    | Returns (b, bm', t) \<Rightarrow> block_inv lo hi bm' t \<and> b \<notin> rt_blocks_used rt bm \<and> rt_blocks_used t bm' = insert b (rt_blocks_used rt bm) \<and>
        blockSize bm dvd b \<and> lo \<le> b \<and> b + blockSize bm \<le> hi \<and>
        (\<forall>x \<in> rt_blocks_used rt bm. b + blockSize bm \<le> x \<or> x + blockSize bm \<le> b)"
  proof (cases "rt_block_alloc hook e bm rt = Dies")
    case False
    then obtain b bm' t where r: "rt_block_alloc hook e bm rt = Returns (b, bm', t)" "block_inv lo hi bm' t"
      "b \<notin> rt_blocks_used rt bm" "rt_blocks_used t bm' = insert b (rt_blocks_used rt bm)" "blockSize bm' = blockSize bm"
      using block_alloc_inv [OF assms] by blast
    have "b \<in> rt_blocks_used t bm'" using r(4) by simp
    from block_used_place [OF r(2) this] show ?thesis using r by auto
  qed simp
next
  fix l :: "nat list" assume "l \<noteq> []" "distinct l" "set l \<subseteq> rt_blocks_used rt bm"
  then show "case rt_block_free_list f bm l rt of (bm', t) \<Rightarrow>
        block_inv lo hi bm' t \<and> rt_blocks_used t bm' = rt_blocks_used rt bm - set l \<and>
        (rt_blocks_used rt bm = set l \<longrightarrow> (\<forall>c \<in> set (chunkList bm). held t c = None))"
    using block_free_list_inv [OF assms(1)] by (cases "rt_block_free_list f bm l rt") auto
next
  fix b k p assume b: "b \<in> rt_blocks_used rt bm" and m: "blockSize bm = 2 ^ k" "blockMask bm = CHI_ALIGNMASK (of_nat (blockSize bm))"
    "b \<le> p" "p < b + blockSize bm"
  have p: "blockSize bm dvd b" "b + blockSize bm \<le> hi" using block_used_place [OF assms(1) b] by blast+
  have "hi < 2 ^ 62" using assms(1) arena_bound by (auto simp: block_inv_def bm_inv_def rt_ok_def rt_inv_def)
  then have "b + blockSize bm < 2 ^ 64" using p(2) by simp
  then show "chiBlock bm p = b" by (rule block_of_address [OF m(1,2) p(1) m(3,4)])
next
  fix b assume "b \<in> rt_blocks_used rt bm"
  then show "case rt_block_free f bm b rt of (bm', t) \<Rightarrow>
        block_inv lo hi bm' t \<and> rt_blocks_used t bm' = rt_blocks_used rt bm - {b} \<and>
        (rt_blocks_used rt bm = {b} \<longrightarrow> (\<forall>c \<in> set (chunkList bm). held t c = None))"
    using block_free_inv [OF assms(1)] by (cases "rt_block_free f bm b rt") auto
qed

lemma block_request_example: "request_ok 16384 4096"
  unfolding request_ok_def chiChunkSizeValid_def chunkAlignValid_def CHI_CHUNK_MIN_SIZE_def CHI_CHUNK_MAX_SIZE_def
  by (simp add: chiIsPow2_def)

lemma block_example_inv: "block_inv (2 ^ 37) (2 ^ 37 + 2 ^ 20) (chiBlockManagerSetup 4096 16384 False) rt_example"
proof -
  have "request_ok 16384 (max CHI_CHUNK_MIN_SIZE 4096)" using block_request_example by (simp add: CHI_CHUNK_MIN_SIZE_def)
  then show ?thesis using block_setup_inv [OF rt_example_ok(1), of 4096 16384 False] by (simp add: CHI_CHUNK_MIN_SIZE_def)
qed

theorem blocks_safe_witness:
  "case rt_block_alloc id (\<lambda>_ _ _. True, Some (2 ^ 20)) (chiBlockManagerSetup 4096 16384 False) rt_example of
     Diverges \<Rightarrow> False | Dies \<Rightarrow> True | Returns (b, bm', t) \<Rightarrow> 4096 dvd b \<and> 2 ^ 37 \<le> b \<and> rt_blocks_used t bm' = {b}"
proof -
  have h: "hook_ok (2 ^ 37) (2 ^ 37 + 2 ^ 20) id" by (simp add: hook_ok_def)
  have u: "rt_blocks_used rt_example (chiBlockManagerSetup 4096 16384 False) = {}" "blockSize (chiBlockManagerSetup 4096 16384 False) = 4096"
    by (simp_all add: chiBlockManagerSetup_def blocks_used_def carved_def)
  show ?thesis
    using blocks_safe [OF block_example_inv rt_example_ok(2) h, of "\<lambda>_ _ _. True"]
    by (auto simp: u split: outcome.splits prod.splits)
qed

end
