(* ===== verification/BlockAlloc.thy ===== *)
theory BlockAlloc
  imports BlockMan
begin

text \<open>
  Bump allocation in blocks (\<^verbatim>\<open>src/native/blockalloc.h\<close> and the end of \<^verbatim>\<open>src/native/blockman.c\<close>). Every block starts with
  a header of 40 bytes and the forwarding bits, one for each word of the block; objects are allocated behind them.
  The fields of a block's header are maps from block addresses; addresses are in bytes, sizes of objects in words.
  The layout is that of the 64-bit build without poisoning.
\<close>

definition CHI_WORDBITS :: nat where "CHI_WORDBITS = 64"

record block_mem =
  alloc_base :: "nat \<Rightarrow> nat"
  alloc_end :: "nat \<Rightarrow> nat"
  alloc_ptr :: "nat \<Rightarrow> nat"
  forward :: "nat \<Rightarrow> nat \<Rightarrow> u64"

record block_alloc =
  manager :: block_manager
  usedList :: "nat list"
  current :: nat

text \<open>The offset of the forwarding bits in a block.\<close>

definition offsetof_forward :: nat where "offsetof_forward = 40"

definition chiBlockAllocBase :: "nat \<Rightarrow> nat \<Rightarrow> nat" where
  "chiBlockAllocBase b bs = b + offsetof_forward + bs div (CHI_WORDSIZE * CHI_WORDBITS) * CHI_WORDSIZE"

text \<open>What \<^verbatim>\<open>chiBlockAllocTake\<close> does to the new block.\<close>

definition initAlloc :: "nat \<Rightarrow> nat \<Rightarrow> block_mem \<Rightarrow> block_mem" where
  "initAlloc bs b m =
     m\<lparr> alloc_base := (alloc_base m)(b := chiBlockAllocBase b bs),
        alloc_ptr := (alloc_ptr m)(b := chiBlockAllocBase b bs),
        alloc_end := (alloc_end m)(b := b + bs div CHI_WORDSIZE * CHI_WORDSIZE),
        forward := (forward m)(b := (\<lambda>i. if i < (chiBlockAllocBase b bs - (b + offsetof_forward)) div CHI_WORDSIZE
                                         then 0 else forward m b i)) \<rparr>"

type_synonym 's block_state = "block_alloc \<times> block_mem \<times> 's"

definition chiBlockAllocTake ::
  "('e \<Rightarrow> nat \<Rightarrow> nat \<Rightarrow> 's \<Rightarrow> (nat \<times> 's) outcome) \<Rightarrow> ('s \<Rightarrow> nat \<Rightarrow> nat) \<Rightarrow> ('s \<Rightarrow> 's) \<Rightarrow> 'e \<Rightarrow> 's block_state \<Rightarrow>
   (nat \<times> 's block_state) outcome" where
  "chiBlockAllocTake acquire start hook e =
     (\<lambda>(ba, m, s).
       (case chiBlockManagerAlloc acquire start hook e (manager ba) s of
          Returns (b, bm, s) \<Rightarrow>
            Returns (b, ba\<lparr> manager := bm, usedList := usedList ba @ [b] \<rparr>, initAlloc (blockSize bm) b m, s)
        | Dies \<Rightarrow> Dies | Diverges \<Rightarrow> Diverges))"

definition chiBlockAllocFresh ::
  "('e \<Rightarrow> nat \<Rightarrow> nat \<Rightarrow> 's \<Rightarrow> (nat \<times> 's) outcome) \<Rightarrow> ('s \<Rightarrow> nat \<Rightarrow> nat) \<Rightarrow> ('s \<Rightarrow> 's) \<Rightarrow> 'e \<Rightarrow> 's block_state \<Rightarrow>
   (nat \<times> 's block_state) outcome" where
  "chiBlockAllocFresh acquire start hook e st =
     (case chiBlockAllocTake acquire start hook e st of
        Returns (b, ba, m, s) \<Rightarrow> Returns (b, ba\<lparr> current := b \<rparr>, m, s)
      | Dies \<Rightarrow> Dies | Diverges \<Rightarrow> Diverges)"

definition chiBlockAllocSetup ::
  "('e \<Rightarrow> nat \<Rightarrow> nat \<Rightarrow> 's \<Rightarrow> (nat \<times> 's) outcome) \<Rightarrow> ('s \<Rightarrow> nat \<Rightarrow> nat) \<Rightarrow> ('s \<Rightarrow> 's) \<Rightarrow> 'e \<Rightarrow> block_manager \<Rightarrow> block_mem \<Rightarrow> 's \<Rightarrow>
   (nat \<times> 's block_state) outcome" where
  "chiBlockAllocSetup acquire start hook e bm m s =
     chiBlockAllocFresh acquire start hook e (\<lparr> manager = bm, usedList = [], current = 0 \<rparr>, m, s)"

definition chiBlockAllocDestroy :: "('f \<Rightarrow> nat \<Rightarrow> 's \<Rightarrow> 's) \<Rightarrow> (nat \<Rightarrow> 'f) \<Rightarrow> 's block_state \<Rightarrow> block_manager \<times> 's" where
  "chiBlockAllocDestroy give f = (\<lambda>(ba, m, s). chiBlockManagerFreeList give f (manager ba) (usedList ba) s)"

definition chiBlockAllocNew ::
  "('e \<Rightarrow> nat \<Rightarrow> nat \<Rightarrow> 's \<Rightarrow> (nat \<times> 's) outcome) \<Rightarrow> ('s \<Rightarrow> nat \<Rightarrow> nat) \<Rightarrow> ('s \<Rightarrow> 's) \<Rightarrow> 'e \<Rightarrow> nat \<Rightarrow> 's block_state \<Rightarrow>
   (nat \<times> 's block_state) outcome" where
  "chiBlockAllocNew acquire start hook e n st =
     (let (ba, m, s) = st; b = current ba in
      case (if alloc_ptr m b + CHI_WORDSIZE * n > alloc_end m b then chiBlockAllocFresh acquire start hook e st
            else Returns (b, st)) of
        Returns (b, ba, m, s) \<Rightarrow>
          Returns (alloc_ptr m b, ba, m\<lparr> alloc_ptr := (alloc_ptr m)(b := alloc_ptr m b + CHI_WORDSIZE * n) \<rparr>, s)
      | Dies \<Rightarrow> Dies | Diverges \<Rightarrow> Diverges)"

text \<open>The forwarding bits.\<close>

definition chiBitGet :: "(nat \<Rightarrow> u64) \<Rightarrow> nat \<Rightarrow> bool" where
  "chiBitGet bits n = bit (bits (n div 64)) (n mod 64)"

definition chiBitSet :: "(nat \<Rightarrow> u64) \<Rightarrow> nat \<Rightarrow> bool \<Rightarrow> bool \<times> (nat \<Rightarrow> u64)" where
  "chiBitSet bits n x =
     (let s = n mod 64; old = bits (n div 64)
      in (drop_bit s old AND 1 \<noteq> 0,
          bits(n div 64 := (old AND NOT (push_bit s 1)) OR push_bit s (if x then 1 else 0))))"

definition chiBlockAllocIndex :: "nat \<Rightarrow> nat \<Rightarrow> nat" where
  "chiBlockAllocIndex b p = (p - b) div CHI_WORDSIZE"

definition chiBlockAllocSetForward :: "nat \<Rightarrow> nat \<Rightarrow> block_mem \<Rightarrow> bool \<times> block_mem" where
  "chiBlockAllocSetForward b p m =
     (let (old, bits) = chiBitSet (forward m b) (chiBlockAllocIndex b p) True
      in (\<not> old, m\<lparr> forward := (forward m)(b := bits) \<rparr>))"

definition chiBlockAllocBlock :: "nat \<Rightarrow> u64 \<Rightarrow> nat" where
  "chiBlockAllocBlock p msk = unat (of_nat p AND msk)"

definition chiBlockAllocSetForwardMasked :: "nat \<Rightarrow> u64 \<Rightarrow> block_mem \<Rightarrow> bool \<times> block_mem" where
  "chiBlockAllocSetForwardMasked p msk m = chiBlockAllocSetForward (chiBlockAllocBlock p msk) p m"

section \<open>Forwarding bits\<close>

lemma bit_set_get:
  "fst (chiBitSet bits n x) = chiBitGet bits n \<and> chiBitGet (snd (chiBitSet bits n x)) k = (if k = n then x else chiBitGet bits k)"
proof -
  have "drop_bit s w AND 1 \<noteq> 0 \<longleftrightarrow> bit w s" for s and w :: u64
    by (simp add: and_one_eq mod_2_eq_odd bit_iff_odd_drop_bit)
  moreover have "k div 64 = n div 64 \<Longrightarrow> k mod 64 = n mod 64 \<longleftrightarrow> k = n" by (metis div_mult_mod_eq)
  moreover have "k mod 64 < 64" "n mod 64 < 64" by simp_all
  ultimately show ?thesis
    by (auto simp: chiBitSet_def chiBitGet_def Let_def bit_or_iff bit_and_iff bit_not_iff bit_push_bit_iff bit_1_iff bit_exp_iff)
qed

section \<open>Objects of an allocator\<close>

text \<open>The words allocated in the blocks of an allocator, as byte ranges from the base of a block to its pointer.\<close>

definition allocated :: "nat list \<Rightarrow> block_mem \<Rightarrow> nat set" where
  "allocated bs m = (\<Union>b \<in> set bs. {alloc_base m b ..< alloc_ptr m b})"

text \<open>The header of a block in use is that of a block with size \<open>bs\<close>, and there is room for the largest object in a fresh one.\<close>

definition header_ok :: "nat \<Rightarrow> block_mem \<Rightarrow> nat \<Rightarrow> bool" where
  "header_ok bs m b \<longleftrightarrow> alloc_base m b = chiBlockAllocBase b bs \<and> alloc_end m b = b + bs \<and>
     alloc_base m b \<le> alloc_ptr m b \<and> alloc_ptr m b \<le> alloc_end m b \<and> 8 dvd alloc_ptr m b"

definition block_size_ok :: "nat \<Rightarrow> bool" where
  "block_size_ok bs \<longleftrightarrow> 512 dvd bs \<and> 4096 \<le> bs"

definition alloc_inv :: "nat \<Rightarrow> nat \<Rightarrow> rt_mem block_state \<Rightarrow> bool" where
  "alloc_inv lo hi = (\<lambda>(ba, m, s). block_inv lo hi (manager ba) s \<and> block_size_ok (blockSize (manager ba)) \<and>
     distinct (usedList ba) \<and> set (usedList ba) \<subseteq> rt_blocks_used s (manager ba) \<and> current ba \<in> set (usedList ba) \<and>
     (\<forall>b \<in> set (usedList ba). header_ok (blockSize (manager ba)) m b))"

lemma base_room:
  assumes "block_size_ok bs" "n \<le> CHI_MAX_UNPINNED"
  shows "chiBlockAllocBase b bs + CHI_WORDSIZE * n \<le> b + bs" "b + offsetof_forward \<le> chiBlockAllocBase b bs"
    "(chiBlockAllocBase b bs - (b + offsetof_forward)) div CHI_WORDSIZE = bs div 512"
proof -
  obtain k where k: "bs = 512 * k" "8 \<le> k" using assms(1) by (auto simp: block_size_ok_def elim!: dvdE)
  then show "chiBlockAllocBase b bs + CHI_WORDSIZE * n \<le> b + bs" "b + offsetof_forward \<le> chiBlockAllocBase b bs"
    "(chiBlockAllocBase b bs - (b + offsetof_forward)) div CHI_WORDSIZE = bs div 512"
    using assms(2) by (simp_all add: chiBlockAllocBase_def CHI_WORDSIZE_def CHI_WORDBITS_def offsetof_forward_def CHI_MAX_UNPINNED_def)
qed

lemma init_header:
  assumes "block_size_ok bs" "bs dvd b"
  shows "header_ok bs (initAlloc bs b m) b \<and> alloc_ptr (initAlloc bs b m) b = chiBlockAllocBase b bs \<and>
    (\<forall>x. x \<noteq> b \<longrightarrow> header_ok bs (initAlloc bs b m) x = header_ok bs m x \<and> alloc_base (initAlloc bs b m) x = alloc_base m x \<and>
      alloc_ptr (initAlloc bs b m) x = alloc_ptr m x)"
proof -
  have "512 dvd bs" using assms(1) by (simp add: block_size_ok_def)
  then have d: "8 dvd bs" using dvd_trans [of 8 512 bs] by simp
  then have "8 dvd b" using assms(2) dvd_trans by blast
  then have "8 dvd chiBlockAllocBase b bs"
    by (simp add: chiBlockAllocBase_def offsetof_forward_def CHI_WORDSIZE_def)
  moreover have "bs div 8 * 8 = bs" using d by simp
  moreover have "chiBlockAllocBase b bs \<le> b + bs" using base_room(1) [OF assms(1), of 0 b] by simp
  ultimately show ?thesis by (auto simp: header_ok_def initAlloc_def CHI_WORDSIZE_def)
qed

lemma fresh_block:
  assumes inv: "alloc_inv lo hi (ba, m, s)" and rd: "rt_ready e s" and hook: "hook_ok lo hi hook"
  shows "chiBlockAllocFresh chiBlockManagerChunkNew chunk_start hook e (ba, m, s) = Dies \<or>
    (\<exists>b ba' m' t. chiBlockAllocFresh chiBlockManagerChunkNew chunk_start hook e (ba, m, s) = Returns (b, ba', m', t) \<and>
      alloc_inv lo hi (ba', m', t) \<and> current ba' = b \<and> b \<notin> set (usedList ba) \<and> usedList ba' = usedList ba @ [b] \<and>
      blockSize (manager ba') = blockSize (manager ba) \<and> allocated (usedList ba') m' = allocated (usedList ba) m \<and>
      alloc_ptr m' b = chiBlockAllocBase b (blockSize (manager ba)))"
proof -
  let ?bs = "blockSize (manager ba)"
  have I: "block_inv lo hi (manager ba) s" "block_size_ok ?bs" "distinct (usedList ba)" "set (usedList ba) \<subseteq> rt_blocks_used s (manager ba)"
    "\<forall>b \<in> set (usedList ba). header_ok ?bs m b"
    using inv by (simp_all add: alloc_inv_def)
  show ?thesis
  proof (cases "rt_block_alloc hook e (manager ba) s = Dies")
    case True
    then show ?thesis by (simp add: chiBlockAllocFresh_def chiBlockAllocTake_def rt_block_alloc_def)
  next
    case False
    then obtain b bm t where r: "rt_block_alloc hook e (manager ba) s = Returns (b, bm, t)" "block_inv lo hi bm t"
      "b \<notin> rt_blocks_used s (manager ba)" "rt_blocks_used t bm = insert b (rt_blocks_used s (manager ba))" "blockSize bm = ?bs"
      using block_alloc_inv [OF I(1) rd hook] by blast
    let ?ba = "ba\<lparr> manager := bm, usedList := usedList ba @ [b], current := b \<rparr>" and ?m = "initAlloc ?bs b m"
    have f: "chiBlockAllocFresh chiBlockManagerChunkNew chunk_start hook e (ba, m, s) = Returns (b, ?ba, ?m, t)"
      using r(1,5) by (simp add: chiBlockAllocFresh_def chiBlockAllocTake_def rt_block_alloc_def)
    have nb: "b \<notin> set (usedList ba)" using I(4) r(3) by blast
    have "?bs dvd b" using block_used_place [OF r(2), of b] r(4,5) by simp
    note H = init_header [OF I(2) this, of m]
    have a: "allocated (usedList ba @ [b]) ?m = allocated (usedList ba) m"
    proof -
      have "x \<noteq> b" if "x \<in> set (usedList ba)" for x using that nb by auto
      then have "allocated (usedList ba) ?m = allocated (usedList ba) m" using H by (simp add: allocated_def)
      then show ?thesis using H by (auto simp: allocated_def header_ok_def)
    qed
    have "\<forall>x \<in> set (usedList ?ba). header_ok ?bs ?m x" using H I(5) nb by auto
    then have "alloc_inv lo hi (?ba, ?m, t)" using r I nb by (auto simp: alloc_inv_def)
    then show ?thesis using f nb a H r(5) by auto
  qed
qed

lemma allocated_bump:
  assumes "b \<in> set bs" "alloc_base m b \<le> alloc_ptr m b"
  shows "allocated bs (m\<lparr> alloc_ptr := (alloc_ptr m)(b := alloc_ptr m b + k) \<rparr>) =
    allocated bs m \<union> {alloc_ptr m b ..< alloc_ptr m b + k}"
proof -
  have "{alloc_base m c ..< (if c = b then alloc_ptr m b + k else alloc_ptr m c)} =
      {alloc_base m c ..< alloc_ptr m c} \<union> (if c = b then {alloc_ptr m b ..< alloc_ptr m b + k} else {})" for c
    using assms(2) by auto
  then have "allocated bs (m\<lparr> alloc_ptr := (alloc_ptr m)(b := alloc_ptr m b + k) \<rparr>) =
      (\<Union>c \<in> set bs. {alloc_base m c ..< alloc_ptr m c} \<union> (if c = b then {alloc_ptr m b ..< alloc_ptr m b + k} else {}))"
    by (simp add: allocated_def fun_upd_def)
  also have "\<dots> = allocated bs m \<union> {alloc_ptr m b ..< alloc_ptr m b + k}" using assms(1) by (auto simp: allocated_def split: if_splits)
  finally show ?thesis .
qed

lemma bump:
  assumes inv: "alloc_inv lo hi (ba, m, s)" and room: "alloc_ptr m (current ba) + CHI_WORDSIZE * n \<le> alloc_end m (current ba)"
  defines "p \<equiv> alloc_ptr m (current ba)"
  defines "m' \<equiv> m\<lparr> alloc_ptr := (alloc_ptr m)(current ba := p + CHI_WORDSIZE * n) \<rparr>"
  shows "alloc_inv lo hi (ba, m', s) \<and> 8 dvd p \<and> alloc_base m (current ba) \<le> p \<and> p + CHI_WORDSIZE * n \<le> current ba + blockSize (manager ba) \<and>
    allocated (usedList ba) m' = allocated (usedList ba) m \<union> {p ..< p + CHI_WORDSIZE * n} \<and>
    allocated (usedList ba) m \<inter> {p ..< p + CHI_WORDSIZE * n} = {}"
proof -
  let ?b = "current ba" and ?bs = "blockSize (manager ba)"
  have I: "block_inv lo hi (manager ba) s" "set (usedList ba) \<subseteq> rt_blocks_used s (manager ba)" "?b \<in> set (usedList ba)"
    "\<forall>b \<in> set (usedList ba). header_ok ?bs m b" "block_size_ok ?bs"
    using inv by (simp_all add: alloc_inv_def)
  have h: "header_ok ?bs m ?b" using I(3,4) by blast
  then have e: "alloc_base m ?b \<le> p" "p + CHI_WORDSIZE * n \<le> ?b + ?bs" "8 dvd p" using room by (simp_all add: header_ok_def p_def)
  have "\<forall>b \<in> set (usedList ba). header_ok ?bs m' b"
    using I(4) e room by (auto simp: m'_def header_ok_def CHI_WORDSIZE_def p_def)
  then have "alloc_inv lo hi (ba, m', s)" using inv by (simp add: alloc_inv_def)
  moreover have "allocated (usedList ba) m' = allocated (usedList ba) m \<union> {p ..< p + CHI_WORDSIZE * n}"
    unfolding m'_def p_def by (rule allocated_bump [OF I(3)]) (use e(1) in \<open>simp add: p_def\<close>)
  moreover have "x \<notin> {p ..< p + CHI_WORDSIZE * n}" if x: "x \<in> allocated (usedList ba) m" for x
  proof -
    obtain b where b: "b \<in> set (usedList ba)" "alloc_base m b \<le> x" "x < alloc_ptr m b" using x by (auto simp: allocated_def)
    show ?thesis
    proof (cases "b = ?b")
      case False
      have "header_ok ?bs m b" using I(4) b(1) by blast
      then have "b \<le> x" "x < b + ?bs" using b base_room(2) [OF I(5), of 0 b] by (auto simp: header_ok_def)
      moreover have "b + ?bs \<le> ?b \<or> ?b + ?bs \<le> b"
        using block_used_place [OF I(1), of b] b(1) I(2,3) False by (metis subsetD)
      moreover have "?b \<le> p" using e(1) h base_room(2) [OF I(5), of 0 ?b] by (auto simp: header_ok_def)
      ultimately show ?thesis using e(2) by auto
    qed (use b in \<open>simp add: p_def\<close>)
  qed
  ultimately show ?thesis using e by blast
qed

text \<open>The allocator of the runtime.\<close>

definition rt_alloc_new :: "(rt_mem \<Rightarrow> rt_mem) \<Rightarrow> take_env \<Rightarrow> nat \<Rightarrow> rt_mem block_state \<Rightarrow> (nat \<times> rt_mem block_state) outcome" where
  "rt_alloc_new = chiBlockAllocNew chiBlockManagerChunkNew chunk_start"

lemma alloc_new:
  assumes inv: "alloc_inv lo hi (ba, m, s)" and rd: "rt_ready e s" and hook: "hook_ok lo hi hook" and n: "n \<le> CHI_MAX_UNPINNED"
  shows "rt_alloc_new hook e n (ba, m, s) = Dies \<or>
    (\<exists>p ba' m' t. rt_alloc_new hook e n (ba, m, s) = Returns (p, ba', m', t) \<and> alloc_inv lo hi (ba', m', t) \<and> 8 dvd p \<and>
      (\<exists>b \<in> rt_blocks_used t (manager ba'). chiBlockAllocBase b (blockSize (manager ba)) \<le> p \<and> p + CHI_WORDSIZE * n \<le> b + blockSize (manager ba)) \<and>
      allocated (usedList ba) m \<inter> {p ..< p + CHI_WORDSIZE * n} = {} \<and>
      allocated (usedList ba') m' = allocated (usedList ba) m \<union> {p ..< p + CHI_WORDSIZE * n})"
proof (cases "alloc_ptr m (current ba) + CHI_WORDSIZE * n > alloc_end m (current ba)")
  case False
  then have r: "alloc_ptr m (current ba) + CHI_WORDSIZE * n \<le> alloc_end m (current ba)" by simp
  have "current ba \<in> rt_blocks_used s (manager ba)" "alloc_base m (current ba) = chiBlockAllocBase (current ba) (blockSize (manager ba))"
    using inv by (auto simp: alloc_inv_def header_ok_def)
  then show ?thesis using bump [OF inv r] False by (auto simp: rt_alloc_new_def chiBlockAllocNew_def)
next
  case True
  show ?thesis
  proof (cases "chiBlockAllocFresh chiBlockManagerChunkNew chunk_start hook e (ba, m, s) = Dies")
    case False
    then obtain b ba' m' t where f: "chiBlockAllocFresh chiBlockManagerChunkNew chunk_start hook e (ba, m, s) = Returns (b, ba', m', t)"
      "alloc_inv lo hi (ba', m', t)" "current ba' = b" "usedList ba' = usedList ba @ [b]" "blockSize (manager ba') = blockSize (manager ba)"
      "allocated (usedList ba') m' = allocated (usedList ba) m" "alloc_ptr m' b = chiBlockAllocBase b (blockSize (manager ba))"
      using fresh_block [OF inv rd hook] by blast
    let ?bs = "blockSize (manager ba)"
    have "block_size_ok ?bs" "alloc_end m' b = b + ?bs" "b \<in> rt_blocks_used t (manager ba')"
      using f(2-5) by (auto simp: alloc_inv_def header_ok_def)
    moreover from this f(3,7) base_room(1) n have "alloc_ptr m' (current ba') + CHI_WORDSIZE * n \<le> alloc_end m' (current ba')" by simp
    ultimately show ?thesis
      using bump [OF f(2)] f True by (auto simp: rt_alloc_new_def chiBlockAllocNew_def)
  qed (use True in \<open>simp add: rt_alloc_new_def chiBlockAllocNew_def\<close>)
qed

text \<open>The forwarding bit of an object lies in front of the objects of its block, and the first to set it is told so.\<close>

lemma set_forward:
  assumes b: "b + offsetof_forward \<le> p" "p < b + bs" "8 dvd p" "8 dvd b" and bs: "block_size_ok bs"
  shows "chiBlockAllocIndex b p div 64 < bs div 512 \<and>
    (case chiBlockAllocSetForward b p m of (first, m') \<Rightarrow>
       first = (\<not> chiBitGet (forward m b) (chiBlockAllocIndex b p)) \<and> fst (chiBlockAllocSetForward b p m') = False \<and>
       (\<forall>q. 8 dvd q \<longrightarrow> b \<le> q \<longrightarrow> q \<noteq> p \<longrightarrow> chiBitGet (forward m' b) (chiBlockAllocIndex b q) = chiBitGet (forward m b) (chiBlockAllocIndex b q)) \<and>
       (\<forall>c. c \<noteq> b \<longrightarrow> forward m' c = forward m c))"
proof -
  obtain k where k: "bs = 512 * k" using bs by (auto simp: block_size_ok_def elim!: dvdE)
  have "(p - b) div 8 < 64 * k" using b(1,2) k by (simp add: offsetof_forward_def div_less_iff_less_mult)
  then have "chiBlockAllocIndex b p div 64 < bs div 512"
    using k by (simp add: chiBlockAllocIndex_def CHI_WORDSIZE_def div_less_iff_less_mult)
  moreover have "chiBlockAllocIndex b q = chiBlockAllocIndex b p \<longleftrightarrow> q = p" if "8 dvd q" "b \<le> q" for q
  proof -
    have "8 dvd q - b" "8 dvd p - b" using that b by (simp_all add: dvd_diff_nat)
    then show ?thesis using that b(1) by (auto simp: chiBlockAllocIndex_def CHI_WORDSIZE_def offsetof_forward_def elim!: dvdE)
  qed
  ultimately show ?thesis
    using bit_set_get [of "forward m b" "chiBlockAllocIndex b p" True]
      bit_set_get [of "snd (chiBitSet (forward m b) (chiBlockAllocIndex b p) True)" "chiBlockAllocIndex b p" True]
    by (auto simp: chiBlockAllocSetForward_def Let_def split: prod.splits)
qed

definition rt_full :: rt_mem where
  "rt_full = rt_example\<lparr> chunkAlloc := full_example, heapTotalSize := 2 ^ 20 \<rparr>"

definition ba_example :: block_alloc where
  "ba_example = \<lparr> manager = (chiBlockManagerSetup 4096 (2 ^ 20) False)\<lparr> chunkList := [7], nextBlock := 2 ^ 37 + 4096,
     chunkEnd := 2 ^ 37 + 2 ^ 20, blocksCount := 1 \<rparr>, usedList = [2 ^ 37], current = 2 ^ 37 \<rparr>"

definition mem_example :: block_mem where
  "mem_example = initAlloc 4096 (2 ^ 37) \<lparr> alloc_base = (\<lambda>_. 0), alloc_end = (\<lambda>_. 0), alloc_ptr = (\<lambda>_. 0), forward = (\<lambda>_ _. 0) \<rparr>"

lemma rt_full_ok: "rt_ok (2 ^ 37) (2 ^ 37 + 2 ^ 20) rt_full" "rt_ready (e, Some (2 ^ 20)) rt_full"
proof -
  show "rt_ok (2 ^ 37) (2 ^ 37 + 2 ^ 20) rt_full"
    using full_example_ok by (simp add: rt_ok_def rt_inv_def rt_full_def held_total_def)
  show "rt_ready (e, Some (2 ^ 20)) rt_full"
    by (simp add: rt_ready_def rt_full_def full_example_def uaSetup_def vaSetup_def vaSetupArena_def chunkInit_def upd_def Let_def
        region_ok_def pool_init_ok sizeof_ChiChunk_def)
qed

lemma ba_example_ok: "alloc_inv (2 ^ 37) (2 ^ 37 + 2 ^ 20) (ba_example, mem_example, rt_full)"
proof -
  let ?bm = "manager ba_example"
  have h: "held rt_full = [7 \<mapsto> (2 ^ 37, 2 ^ 20)]" using full_example_ok(2) by (simp add: rt_full_def)
  have st: "chunk_start rt_full 7 = 2 ^ 37" using held_chunk [of rt_full 7] h by simp
  have bm: "chunkList ?bm = [7]" "blockSize ?bm = 4096" "bmChunkSize ?bm = 2 ^ 20" "nextBlock ?bm = 2 ^ 37 + 4096"
    "chunkEnd ?bm = 2 ^ 37 + 2 ^ 20" "blocksCount ?bm = 1" "freeList ?bm = []" "usedList ba_example = [2 ^ 37]" "current ba_example = 2 ^ 37"
    by (simp_all add: ba_example_def chiBlockManagerSetup_def)
  have "fresh ?bm = tiles (2 ^ 37 + 4096) (2 ^ 20 - 4096) 4096" by (simp add: fresh_def bm)
  moreover have "tiles (2 ^ 37) (2 ^ 20) 4096 = insert (2 ^ 37) (tiles (2 ^ 37 + 4096) (2 ^ 20 - 4096) 4096)" by (rule tiles_first) simp
  moreover have "(2 ^ 37 :: nat) \<notin> tiles (2 ^ 37 + 4096) (2 ^ 20 - 4096) 4096" by (rule tiles_first_notin) simp
  ultimately have c: "carved chunk_start rt_full ?bm = {2 ^ 37}" by (auto simp: carved_def bm st)
  have rq: "request_ok (2 ^ 20) 4096"
    unfolding request_ok_def chiChunkSizeValid_def chunkAlignValid_def CHI_CHUNK_MIN_SIZE_def CHI_CHUNK_MAX_SIZE_def
    by (simp add: chiIsPow2_def)
  have "\<exists>k::nat. 2 ^ 37 + k * 4096 = 2 ^ 37 + 4096" by (rule exI [of _ 1]) simp
  then have "block_inv (2 ^ 37) (2 ^ 37 + 2 ^ 20) ?bm rt_full"
    using rt_full_ok(1) rq by (simp add: block_inv_def bm_inv_def sizes_valid_def bm c st h CHI_CHUNK_MIN_SIZE_def)
  moreover have "header_ok 4096 mem_example (2 ^ 37)"
    using init_header [of 4096 "2 ^ 37"] by (simp add: mem_example_def block_size_ok_def)
  moreover have "rt_blocks_used rt_full ?bm = {2 ^ 37}" by (simp add: blocks_used_def c bm)
  ultimately show ?thesis by (simp add: alloc_inv_def bm block_size_ok_def)
qed

text \<open>C18: Bump allocation never fails but by the end of the process: it returns a word-aligned object of the size asked for,
  behind the forwarding bits of a block in use, apart from everything allocated in the blocks of the
  allocator before, and adds exactly this object; the forwarding bit of an object lies in its block, the first to set it is told so, and no
  bit of another object changes.\<close>

theorem bump_allocation:
  assumes "alloc_inv lo hi (ba, m, s)" "rt_ready e s" "hook_ok lo hi hook" "n \<le> CHI_MAX_UNPINNED"
  shows "(case rt_alloc_new hook e n (ba, m, s) of Diverges \<Rightarrow> False | Dies \<Rightarrow> True
    | Returns (p, ba', m', t) \<Rightarrow> alloc_inv lo hi (ba', m', t) \<and> 8 dvd p \<and>
      (\<exists>b \<in> rt_blocks_used t (manager ba'). chiBlockAllocBase b (blockSize (manager ba)) \<le> p \<and> p + CHI_WORDSIZE * n \<le> b + blockSize (manager ba)) \<and>
      allocated (usedList ba) m \<inter> {p ..< p + CHI_WORDSIZE * n} = {} \<and>
      allocated (usedList ba') m' = allocated (usedList ba) m \<union> {p ..< p + CHI_WORDSIZE * n}) \<and>
    (\<forall>b \<in> set (usedList ba). \<forall>p. 8 dvd p \<longrightarrow> alloc_base m b \<le> p \<longrightarrow> p < alloc_end m b \<longrightarrow>
      chiBlockAllocIndex b p div 64 < blockSize (manager ba) div 512 \<and>
      (case chiBlockAllocSetForward b p m of (first, m') \<Rightarrow>
         first = (\<not> chiBitGet (forward m b) (chiBlockAllocIndex b p)) \<and> fst (chiBlockAllocSetForward b p m') = False \<and>
         (\<forall>q. 8 dvd q \<longrightarrow> b \<le> q \<longrightarrow> q \<noteq> p \<longrightarrow> chiBitGet (forward m' b) (chiBlockAllocIndex b q) = chiBitGet (forward m b) (chiBlockAllocIndex b q)) \<and>
         (\<forall>c. c \<noteq> b \<longrightarrow> forward m' c = forward m c)))"
proof (intro conjI ballI allI impI)
  show "case rt_alloc_new hook e n (ba, m, s) of Diverges \<Rightarrow> False | Dies \<Rightarrow> True
    | Returns (p, ba', m', t) \<Rightarrow> alloc_inv lo hi (ba', m', t) \<and> 8 dvd p \<and>
      (\<exists>b \<in> rt_blocks_used t (manager ba'). chiBlockAllocBase b (blockSize (manager ba)) \<le> p \<and> p + CHI_WORDSIZE * n \<le> b + blockSize (manager ba)) \<and>
      allocated (usedList ba) m \<inter> {p ..< p + CHI_WORDSIZE * n} = {} \<and>
      allocated (usedList ba') m' = allocated (usedList ba) m \<union> {p ..< p + CHI_WORDSIZE * n}"
    using alloc_new [OF assms] by (elim disjE exE conjE) (simp, simp)
next
  fix b p assume b: "b \<in> set (usedList ba)" and p: "8 dvd p" "alloc_base m b \<le> p" "p < alloc_end m b"
  let ?bs = "blockSize (manager ba)"
  have bs: "block_size_ok ?bs" and h: "header_ok ?bs m b" and u: "block_inv lo hi (manager ba) s" "b \<in> rt_blocks_used s (manager ba)"
    using assms(1) b by (auto simp: alloc_inv_def)
  have "512 dvd ?bs" using bs by (simp add: block_size_ok_def)
  then have "8 dvd ?bs" using dvd_trans [of 8 512 ?bs] by simp
  then have d: "8 dvd b" using block_used_place [OF u] dvd_trans by blast
  have "b + offsetof_forward \<le> p" "p < b + ?bs" using h p base_room(2) [OF bs, of 0 b] by (simp_all add: header_ok_def)
  note F = set_forward [OF this p(1) d bs, of m]
  then show "chiBlockAllocIndex b p div 64 < ?bs div 512" by blast
  show "case chiBlockAllocSetForward b p m of (first, m') \<Rightarrow>
         first = (\<not> chiBitGet (forward m b) (chiBlockAllocIndex b p)) \<and> fst (chiBlockAllocSetForward b p m') = False \<and>
         (\<forall>q. 8 dvd q \<longrightarrow> b \<le> q \<longrightarrow> q \<noteq> p \<longrightarrow> chiBitGet (forward m' b) (chiBlockAllocIndex b q) = chiBitGet (forward m b) (chiBlockAllocIndex b q)) \<and>
         (\<forall>c. c \<noteq> b \<longrightarrow> forward m' c = forward m c)" by (rule conjunct2 [OF F])
qed

theorem bump_allocation_witness:
  "\<exists>ba m t. rt_alloc_new id (\<lambda>_ _ _. True, Some (2 ^ 20)) 3 (ba_example, mem_example, rt_full) = Returns (2 ^ 37 + 104, ba, m, t) \<and>
     alloc_inv (2 ^ 37) (2 ^ 37 + 2 ^ 20) (ba, m, t)"
proof -
  have h: "hook_ok (2 ^ 37) (2 ^ 37 + 2 ^ 20) id" by (simp add: hook_ok_def)
  have n: "(3 :: nat) \<le> CHI_MAX_UNPINNED" by (simp add: CHI_MAX_UNPINNED_def)
  have c: "current ba_example = 2 ^ 37" "alloc_ptr mem_example (2 ^ 37) = 2 ^ 37 + 104" "alloc_end mem_example (2 ^ 37) = 2 ^ 37 + 4096"
    by (simp_all add: ba_example_def mem_example_def initAlloc_def chiBlockAllocBase_def offsetof_forward_def CHI_WORDSIZE_def CHI_WORDBITS_def)
  have "\<exists>m. rt_alloc_new id (\<lambda>_ _ _. True, Some (2 ^ 20)) 3 (ba_example, mem_example, rt_full) = Returns (2 ^ 37 + 104, ba_example, m, rt_full)"
    by (simp add: rt_alloc_new_def chiBlockAllocNew_def c [simplified] CHI_WORDSIZE_def)
  then show ?thesis using bump_allocation [OF ba_example_ok rt_full_ok(2) h n, of "\<lambda>_ _ _. True"] by auto
qed

end
