(* ===== verification/BlockVec.thy ===== *)
theory BlockVec
  imports BlockAlloc
begin

text \<open>
  Vectors in blocks (\<^verbatim>\<open>src/native/generic/blockvec.h\<close>), the stacks of the collector: lists of blocks of which the first
  holds the top of the stack. The elements of a block lie between its base, 32 bytes into the block, and its pointer; memory maps
  the address of a slot to the element stored there, \<open>sz\<close> is the size of an element. The two operations
  of the block manager are arguments. The gray vectors of \<^verbatim>\<open>src/native/grayvec.h\<close> add a flag to an object vector.
\<close>

record 'a vec_mem =
  vptr :: "nat \<Rightarrow> nat"
  vend :: "nat \<Rightarrow> nat"
  vslot :: "nat \<Rightarrow> 'a"

text \<open>The offset of \<^verbatim>\<open>vec.base\<close> in a block.\<close>

definition vbase :: "nat \<Rightarrow> nat" where
  "vbase b = b + 32"

definition VEC_NULL :: "nat \<Rightarrow> 'a vec_mem \<Rightarrow> nat list \<Rightarrow> bool" where
  "VEC_NULL sz m v \<longleftrightarrow> vptr m (hd v) < vbase (hd v) + sz"

text \<open>The state of the operations: the memory, the manager and its source of chunks.\<close>

type_synonym ('a, 'm, 's) vec_state = "'a vec_mem \<times> 'm \<times> 's"

definition VEC_GROW ::
  "('m \<Rightarrow> 's \<Rightarrow> (nat \<times> 'm \<times> 's) outcome) \<Rightarrow> ('m \<Rightarrow> nat) \<Rightarrow> nat \<Rightarrow> nat list \<Rightarrow> ('a, 'm, 's) vec_state \<Rightarrow>
   (nat list \<times> ('a, 'm, 's) vec_state) outcome" where
  "VEC_GROW balloc bsize sz v =
     (\<lambda>(m, bm, s).
       (case balloc bm s of
          Returns (b, bm, s) \<Rightarrow>
            Returns (b # v, m\<lparr> vptr := (vptr m)(b := CHI_CEIL (vbase b) sz),
                               vend := (vend m)(b := b + CHI_FLOOR (bsize bm) sz) \<rparr>, bm, s)
        | Dies \<Rightarrow> Dies | Diverges \<Rightarrow> Diverges))"

definition VEC_INIT ::
  "('m \<Rightarrow> 's \<Rightarrow> (nat \<times> 'm \<times> 's) outcome) \<Rightarrow> ('m \<Rightarrow> nat) \<Rightarrow> nat \<Rightarrow> ('a, 'm, 's) vec_state \<Rightarrow>
   (nat list \<times> ('a, 'm, 's) vec_state) outcome" where
  "VEC_INIT balloc bsize sz = VEC_GROW balloc bsize sz []"

definition VEC_FROM :: "nat list \<Rightarrow> nat list" where
  "VEC_FROM src = [] @ src"

definition VEC_FREE :: "('m \<Rightarrow> nat list \<Rightarrow> 's \<Rightarrow> 'm \<times> 's) \<Rightarrow> nat list \<Rightarrow> 'm \<times> 's \<Rightarrow> 'm \<times> 's" where
  "VEC_FREE bfreelist v = (\<lambda>(bm, s). bfreelist bm v s)"

definition VEC_PUSH ::
  "('m \<Rightarrow> 's \<Rightarrow> (nat \<times> 'm \<times> 's) outcome) \<Rightarrow> ('m \<Rightarrow> nat) \<Rightarrow> nat \<Rightarrow> nat list \<Rightarrow> 'a \<Rightarrow> ('a, 'm, 's) vec_state \<Rightarrow>
   (nat list \<times> ('a, 'm, 's) vec_state) outcome" where
  "VEC_PUSH balloc bsize sz v x st =
     (case (if vptr (fst st) (hd v) = vend (fst st) (hd v) then VEC_GROW balloc bsize sz v st else Returns (v, st)) of
        Returns (v, m, bm, s) \<Rightarrow>
          Returns (v, m\<lparr> vslot := (vslot m)(vptr m (hd v) := x), vptr := (vptr m)(hd v := vptr m (hd v) + sz) \<rparr>, bm, s)
      | Dies \<Rightarrow> Dies | Diverges \<Rightarrow> Diverges)"

text \<open>None: the vector is empty.\<close>

definition VEC_POP ::
  "('m \<Rightarrow> nat \<Rightarrow> 's \<Rightarrow> 'm \<times> 's) \<Rightarrow> nat \<Rightarrow> nat list \<Rightarrow> ('a, 'm, 's) vec_state \<Rightarrow> ('a \<times> nat list \<times> ('a, 'm, 's) vec_state) option" where
  "VEC_POP bfree sz v =
     (\<lambda>(m, bm, s).
       let b = hd v in
       if vptr m b < vbase b + 2 * sz
       then
         if VEC_NULL sz m v then None
         else
           let m = m\<lparr> vptr := (vptr m)(b := vptr m b - sz) \<rparr>; x = vslot m (vptr m b)
           in if length v \<noteq> 1
              then (case bfree bm b s of (bm, s) \<Rightarrow> Some (x, remove1 b v, m, bm, s))
              else Some (x, v, m, bm, s)
       else
         let m = m\<lparr> vptr := (vptr m)(b := vptr m b - sz) \<rparr>
         in Some (vslot m (vptr m b), v, m, bm, s))"

text \<open>The results are the vectors \<open>dst\<close> and \<open>src\<close>.\<close>

definition VEC_JOIN ::
  "('m \<Rightarrow> 's \<Rightarrow> (nat \<times> 'm \<times> 's) outcome) \<Rightarrow> ('m \<Rightarrow> nat) \<Rightarrow> nat \<Rightarrow> nat list \<Rightarrow> nat list \<Rightarrow> ('a, 'm, 's) vec_state \<Rightarrow>
   (nat list \<times> nat list \<times> ('a, 'm, 's) vec_state) outcome" where
  "VEC_JOIN balloc bsize sz dst src st =
     (if VEC_NULL sz (fst st) src then Returns (dst, src, st)
      else if VEC_NULL sz (fst st) dst then
        (let b = hd dst; dst = tl dst; dst = dst @ src; src = [] @ [b] in Returns (dst, src, st))
      else
        (case VEC_INIT balloc bsize sz st of
           Returns (src', st) \<Rightarrow> Returns (dst @ src, src', st)
         | Dies \<Rightarrow> Dies | Diverges \<Rightarrow> Diverges))"

definition VEC_TRANSFER ::
  "('m \<Rightarrow> 's \<Rightarrow> (nat \<times> 'm \<times> 's) outcome) \<Rightarrow> ('m \<Rightarrow> nat \<Rightarrow> 's \<Rightarrow> 'm \<times> 's) \<Rightarrow> ('m \<Rightarrow> nat) \<Rightarrow> nat \<Rightarrow> nat list \<Rightarrow> nat list \<Rightarrow>
   ('a, 'm, 's) vec_state \<Rightarrow> (nat list \<times> nat list \<times> ('a, 'm, 's) vec_state) outcome" where
  "VEC_TRANSFER balloc bfree bsize sz dst src =
     (\<lambda>(m, bm, s).
       let (dst, bm, s) = (if VEC_NULL sz m dst then (tl dst, bfree bm (hd dst) s) else (dst, bm, s));
           dst = dst @ [hd src]; src = tl src
       in if src = []
          then (case VEC_INIT balloc bsize sz (m, bm, s) of
                  Returns (src, st) \<Rightarrow> Returns (dst, src, st)
                | Dies \<Rightarrow> Dies | Diverges \<Rightarrow> Diverges)
          else Returns (dst, src, m, bm, s))"

text \<open>Iteration: a position is a block and the address of a slot.\<close>

definition vec_begin :: "nat \<Rightarrow> 'a vec_mem \<Rightarrow> nat list \<Rightarrow> (nat \<times> nat) option" where
  "vec_begin sz m v = (if VEC_NULL sz m v then None else Some (hd v, vptr m (hd v) - sz))"

definition vec_next :: "nat \<Rightarrow> 'a vec_mem \<Rightarrow> nat list \<Rightarrow> nat \<times> nat \<Rightarrow> (nat \<times> nat) option" where
  "vec_next sz m v pos =
     (case pos of (b, p) \<Rightarrow>
        if p \<ge> vbase b + sz then Some (b, p - sz)
        else (case list_next v b of None \<Rightarrow> None | Some b \<Rightarrow> Some (b, vptr m b - sz)))"

text \<open>Gray vectors (\<^verbatim>\<open>src/native/grayvec.h\<close>): an object vector and the flag that other threads read.\<close>

record gray_vec =
  gvec :: "nat list"
  gnull :: bool

definition chiGrayVecInit ::
  "('m \<Rightarrow> 's \<Rightarrow> (nat \<times> 'm \<times> 's) outcome) \<Rightarrow> ('m \<Rightarrow> nat) \<Rightarrow> nat \<Rightarrow> ('a, 'm, 's) vec_state \<Rightarrow>
   (gray_vec \<times> ('a, 'm, 's) vec_state) outcome" where
  "chiGrayVecInit balloc bsize sz st =
     (case VEC_INIT balloc bsize sz st of
        Returns (v, st) \<Rightarrow> Returns (\<lparr> gvec = v, gnull = True \<rparr>, st)
      | Dies \<Rightarrow> Dies | Diverges \<Rightarrow> Diverges)"

definition chiGrayVecUpdateNull :: "nat \<Rightarrow> 'a vec_mem \<Rightarrow> gray_vec \<Rightarrow> gray_vec" where
  "chiGrayVecUpdateNull sz m g = g\<lparr> gnull := VEC_NULL sz m (gvec g) \<rparr>"

definition chiGrayVecJoin ::
  "('m \<Rightarrow> 's \<Rightarrow> (nat \<times> 'm \<times> 's) outcome) \<Rightarrow> ('m \<Rightarrow> nat) \<Rightarrow> nat \<Rightarrow> gray_vec \<Rightarrow> gray_vec \<Rightarrow> ('a, 'm, 's) vec_state \<Rightarrow>
   (gray_vec \<times> gray_vec \<times> ('a, 'm, 's) vec_state) outcome" where
  "chiGrayVecJoin balloc bsize sz dst src st =
     (let dst = dst\<lparr> gnull := False \<rparr>
      in case VEC_JOIN balloc bsize sz (gvec dst) (gvec src) st of
           Returns (d, s, m, st) \<Rightarrow>
             (let dst = chiGrayVecUpdateNull sz m (dst\<lparr> gvec := d \<rparr>); src = src\<lparr> gvec := s, gnull := True \<rparr>
              in Returns (dst, src, m, st))
         | Dies \<Rightarrow> Dies | Diverges \<Rightarrow> Diverges)"

definition chiGrayVecNull :: "gray_vec \<Rightarrow> bool" where
  "chiGrayVecNull g = gnull g"

definition chiGrayVecTransfer ::
  "('m \<Rightarrow> 's \<Rightarrow> (nat \<times> 'm \<times> 's) outcome) \<Rightarrow> ('m \<Rightarrow> nat \<Rightarrow> 's \<Rightarrow> 'm \<times> 's) \<Rightarrow> ('m \<Rightarrow> nat) \<Rightarrow> nat \<Rightarrow> gray_vec \<Rightarrow> gray_vec \<Rightarrow>
   ('a, 'm, 's) vec_state \<Rightarrow> (gray_vec \<times> gray_vec \<times> ('a, 'm, 's) vec_state) outcome" where
  "chiGrayVecTransfer balloc bfree bsize sz dst src st =
     (let dst = dst\<lparr> gnull := False \<rparr>
      in case VEC_TRANSFER balloc bfree bsize sz (gvec dst) (gvec src) st of
           Returns (d, s, m, st) \<Rightarrow>
             Returns (dst\<lparr> gvec := d \<rparr>, chiGrayVecUpdateNull sz m (src\<lparr> gvec := s \<rparr>), m, st)
         | Dies \<Rightarrow> Dies | Diverges \<Rightarrow> Diverges)"

section \<open>Contents\<close>

definition slots :: "nat \<Rightarrow> 'a vec_mem \<Rightarrow> nat \<Rightarrow> 'a list" where
  "slots sz m b = rev (map (\<lambda>i. vslot m (vbase b + i * sz)) [0 ..< (vptr m b - vbase b) div sz])"

definition contents :: "nat \<Rightarrow> 'a vec_mem \<Rightarrow> nat list \<Rightarrow> 'a list" where
  "contents sz m v = concat (map (slots sz m) v)"

definition vblock_ok :: "nat \<Rightarrow> nat \<Rightarrow> 'a vec_mem \<Rightarrow> nat \<Rightarrow> bool" where
  "vblock_ok sz bs m b \<longleftrightarrow> vbase b \<le> vptr m b \<and> vptr m b \<le> vend m b \<and> vend m b = b + bs \<and> sz dvd vptr m b - vbase b"

text \<open>The blocks of a vector are different blocks, and none is empty unless it is the only one.\<close>

definition vec_ok :: "nat \<Rightarrow> nat \<Rightarrow> 'a vec_mem \<Rightarrow> nat list \<Rightarrow> bool" where
  "vec_ok sz bs m v \<longleftrightarrow> v \<noteq> [] \<and> distinct v \<and> (\<forall>b \<in> set v. vblock_ok sz bs m b) \<and>
     (length v > 1 \<longrightarrow> (\<forall>b \<in> set v. vbase b < vptr m b))"

definition elem_size_ok :: "nat \<Rightarrow> nat \<Rightarrow> bool" where
  "elem_size_ok sz bs \<longleftrightarrow> 0 < sz \<and> sz dvd 32 \<and> sz dvd bs \<and> 32 + sz \<le> bs"

lemma contents_Cons [simp]: "contents sz m (b # v) = slots sz m b @ contents sz m v"
  by (simp add: contents_def)

lemma contents_Nil [simp]: "contents sz m [] = []"
  by (simp add: contents_def)

lemma contents_append [simp]: "contents sz m (v @ w) = contents sz m v @ contents sz m w"
  by (simp add: contents_def)

lemma slots_empty: "vblock_ok sz bs m b \<Longrightarrow> 0 < sz \<Longrightarrow> slots sz m b = [] \<longleftrightarrow> vptr m b = vbase b"
  by (auto simp: slots_def vblock_ok_def div_eq_0_iff elim!: dvdE)

lemma vec_null_iff: "vec_ok sz bs m v \<Longrightarrow> 0 < sz \<Longrightarrow> VEC_NULL sz m v \<longleftrightarrow> contents sz m v = []"
proof -
  assume ok: "vec_ok sz bs m v" and sz: "0 < sz"
  obtain b w where v: "v = b # w" using ok by (cases v) (auto simp: vec_ok_def)
  have b: "vblock_ok sz bs m b" using ok v by (simp add: vec_ok_def)
  then have "vptr m b - vbase b < sz \<longleftrightarrow> vptr m b - vbase b = 0"
    using sz by (auto simp: vblock_ok_def dest!: dvd_imp_le)
  then have "VEC_NULL sz m v \<longleftrightarrow> vptr m b = vbase b" using b v sz by (auto simp: VEC_NULL_def vblock_ok_def)
  moreover have "w = []" if "vptr m b = vbase b" using ok v that by (cases w) (auto simp: vec_ok_def)
  ultimately show ?thesis using slots_empty [OF b sz] v by auto
qed

lemma slots_cong:
  "vptr m' b = vptr m b \<Longrightarrow> (\<forall>a. vbase b \<le> a \<longrightarrow> a < vptr m b \<longrightarrow> vslot m' a = vslot m a) \<Longrightarrow> 0 < sz \<Longrightarrow>
     vbase b \<le> vptr m b \<Longrightarrow> slots sz m' b = slots sz m b"
proof -
  assume p: "vptr m' b = vptr m b" and s: "\<forall>a. vbase b \<le> a \<longrightarrow> a < vptr m b \<longrightarrow> vslot m' a = vslot m a" and sz: "0 < sz"
    and le: "vbase b \<le> vptr m b"
  have "vbase b + i * sz < vptr m b" if "i < (vptr m b - vbase b) div sz" for i
  proof -
    have "Suc i * sz \<le> (vptr m b - vbase b) div sz * sz" using that by (intro mult_le_mono1) simp
    also have "\<dots> \<le> vptr m b - vbase b" by simp
    finally show ?thesis using le sz by simp
  qed
  then show ?thesis using s by (auto simp: slots_def p intro!: map_cong)
qed

lemma contents_cong: "\<forall>c \<in> set w. slots sz m' c = slots sz m c \<Longrightarrow> contents sz m' w = contents sz m w"
  by (induction w) auto

lemma vec_ok_cong:
  "\<forall>c \<in> set w. vblock_ok sz bs m' c = vblock_ok sz bs m c \<and> vptr m' c = vptr m c \<Longrightarrow> vec_ok sz bs m' w = vec_ok sz bs m w"
  by (auto simp: vec_ok_def)

section \<open>The vectors implement stacks\<close>

lemma slots_Suc:
  assumes "vptr m b = vbase b + Suc k * sz" "0 < sz"
  shows "slots sz m b = vslot m (vbase b + k * sz) # slots sz (m\<lparr> vptr := (vptr m)(b := vbase b + k * sz) \<rparr>) b"
proof -
  have "(vptr m b - vbase b) div sz = Suc k" using assms by simp
  then show ?thesis using assms(2) by (simp add: slots_def)
qed

definition store :: "nat \<Rightarrow> nat \<Rightarrow> 'a \<Rightarrow> 'a vec_mem \<Rightarrow> 'a vec_mem" where
  "store sz b x m = m\<lparr> vslot := (vslot m)(vptr m b := x), vptr := (vptr m)(b := vptr m b + sz) \<rparr>"

lemma store_slots:
  assumes "vblock_ok sz bs m b" "0 < sz"
  shows "slots sz (store sz b x m) b = x # slots sz m b"
proof -
  obtain k where k: "vptr m b = vbase b + k * sz"
  proof -
    obtain k where "vptr m b - vbase b = sz * k" using assms(1) by (auto simp: vblock_ok_def)
    moreover have "vbase b \<le> vptr m b" using assms(1) by (simp add: vblock_ok_def)
    ultimately have "vptr m b = vbase b + sz * k" by linarith
    then show ?thesis using that [of k] by (simp add: mult.commute)
  qed
  let ?s = "store sz b x m"
  have "vptr ?s b = vbase b + Suc k * sz" by (simp add: store_def k)
  from slots_Suc [OF this assms(2)] have "slots sz ?s b = x # slots sz (?s\<lparr> vptr := (vptr ?s)(b := vbase b + k * sz) \<rparr>) b"
    by (simp add: store_def k)
  also have "slots sz (?s\<lparr> vptr := (vptr ?s)(b := vbase b + k * sz) \<rparr>) b = slots sz m b"
    by (rule slots_cong) (use assms in \<open>auto simp: store_def k\<close>)
  finally show ?thesis .
qed

lemma store_other:
  assumes "vblock_ok sz bs m c" "0 < sz" "c \<noteq> b" "b + bs \<le> c \<or> c + bs \<le> b" "vblock_ok sz bs m b" "vptr m b < vend m b"
  shows "slots sz (store sz b x m) c = slots sz m c"
  by (rule slots_cong) (use assms in \<open>auto simp: store_def vblock_ok_def vbase_def\<close>)

lemma store_block: "vblock_ok sz bs m b \<Longrightarrow> 0 < sz \<Longrightarrow> sz dvd bs \<Longrightarrow> sz dvd 32 \<Longrightarrow> vptr m b < vend m b \<Longrightarrow> vblock_ok sz bs (store sz b x m) b"
proof -
  assume b: "vblock_ok sz bs m b" "0 < sz" "sz dvd bs" "sz dvd 32" "vptr m b < vend m b"
  have le: "32 \<le> bs" using b(1) by (simp add: vblock_ok_def vbase_def)
  have e: "vend m b = b + bs" "vbase b \<le> vptr m b" "sz dvd vptr m b - vbase b" using b(1) by (simp_all add: vblock_ok_def)
  have "sz dvd (vend m b - vbase b) - (vptr m b - vbase b)"
    using b(3,4) e(3) by (auto simp: e(1) vbase_def intro!: dvd_diff_nat)
  then have "sz dvd vend m b - vptr m b" using e(2) b(5) by simp
  then have "sz \<le> vend m b - vptr m b" using b(5) by (intro dvd_imp_le) auto
  moreover have "vptr m b + sz - vbase b = (vptr m b - vbase b) + sz" using e(2) by simp
  then have "sz dvd vptr m b + sz - vbase b" using e(3) by simp
  ultimately show ?thesis using b(1,5) by (auto simp: vblock_ok_def store_def)
qed

lemma nonempty_blocks:
  assumes "vec_ok sz bs m v" "0 < sz" "contents sz m v \<noteq> []"
  shows "\<forall>b \<in> set v. vbase b < vptr m b"
proof (cases "length v > 1")
  case False
  then obtain b where v: "v = [b]" using assms(1) by (cases v; cases "tl v") (auto simp: vec_ok_def)
  then have "vblock_ok sz bs m b" using assms(1) by (simp add: vec_ok_def)
  then show ?thesis using slots_empty [OF _ assms(2), of bs m b] assms(3) v by (auto simp: vblock_ok_def)
qed (use assms(1) in \<open>simp add: vec_ok_def\<close>)

text \<open>A group of vectors over one manager: all are well formed and share no block.\<close>

definition vec_group ::
  "('m \<Rightarrow> 's \<Rightarrow> bool) \<Rightarrow> ('s \<Rightarrow> 'm \<Rightarrow> nat set) \<Rightarrow> ('m \<Rightarrow> nat) \<Rightarrow> nat \<Rightarrow> nat list list \<Rightarrow> ('a, 'm, 's) vec_state \<Rightarrow> bool" where
  "vec_group good used bsize sz vs = (\<lambda>(m, bm, s). good bm s \<and> elem_size_ok sz (bsize bm) \<and> distinct (concat vs) \<and>
     set (concat vs) \<subseteq> used s bm \<and> (\<forall>v \<in> set vs. vec_ok sz (bsize bm) m v))"

text \<open>What the vectors need of a block manager.\<close>

locale block_provider =
  fixes balloc :: "'m \<Rightarrow> 's \<Rightarrow> (nat \<times> 'm \<times> 's) outcome" and bfree :: "'m \<Rightarrow> nat \<Rightarrow> 's \<Rightarrow> 'm \<times> 's"
    and inv :: "'m \<Rightarrow> 's \<Rightarrow> bool" and used :: "'s \<Rightarrow> 'm \<Rightarrow> nat set" and bsize :: "'m \<Rightarrow> nat" and ready :: "'s \<Rightarrow> bool"
  assumes alloc_law: "inv bm s \<Longrightarrow> ready s \<Longrightarrow> balloc bm s = Dies \<or> (\<exists>b bm' t. balloc bm s = Returns (b, bm', t) \<and> inv bm' t \<and>
      b \<notin> used s bm \<and> used t bm' = insert b (used s bm) \<and> bsize bm' = bsize bm)"
    and free_law: "inv bm s \<Longrightarrow> b \<in> used s bm \<Longrightarrow> bfree bm b s = (bm', t) \<Longrightarrow>
      inv bm' t \<and> used t bm' = used s bm - {b} \<and> bsize bm' = bsize bm \<and> (ready s \<longrightarrow> ready t)"
    and place_law: "inv bm s \<Longrightarrow> b \<in> used s bm \<Longrightarrow> bsize bm dvd b \<and>
      (\<forall>x \<in> used s bm. x \<noteq> b \<longrightarrow> b + bsize bm \<le> x \<or> x + bsize bm \<le> b)"
begin

abbreviation group_ok :: "nat \<Rightarrow> nat list list \<Rightarrow> ('a, 'm, 's) vec_state \<Rightarrow> bool" where
  "group_ok \<equiv> vec_group inv used bsize"

lemmas group_ok_def = vec_group_def [of inv used bsize]

lemma base_aligned: "elem_size_ok sz bs \<Longrightarrow> bs dvd b \<Longrightarrow> CHI_CEIL (vbase b) sz = vbase b \<and> CHI_FLOOR bs sz = bs"
proof -
  assume e: "elem_size_ok sz bs" and b: "bs dvd b"
  have "sz dvd b" using e b dvd_trans by (auto simp: elem_size_ok_def)
  then have "sz dvd vbase b" using e by (simp add: vbase_def elem_size_ok_def)
  then obtain k where k: "vbase b = sz * k" by blast
  obtain j where "bs = sz * j" using e by (auto simp: elem_size_ok_def elim!: dvdE)
  then show ?thesis using k e by (auto simp: CHI_CEIL_def CHI_DIV_CEIL_def CHI_FLOOR_def elem_size_ok_def div_nat_eqI algebra_simps)
qed

lemma vgrow_ok:
  assumes g: "elem_size_ok sz (bsize bm)" "inv bm s" "ready s"
  shows "VEC_GROW balloc bsize sz v (m, bm, s) = Dies \<or> (\<exists>b bm' t. VEC_GROW balloc bsize sz v (m, bm, s) =
    Returns (b # v, m\<lparr> vptr := (vptr m)(b := vbase b), vend := (vend m)(b := b + bsize bm) \<rparr>, bm', t) \<and>
    inv bm' t \<and> b \<notin> used s bm \<and> used t bm' = insert b (used s bm) \<and> bsize bm' = bsize bm)"
proof (cases "balloc bm s = Dies")
  case False
  then obtain b bm' t where r: "balloc bm s = Returns (b, bm', t)" "inv bm' t" "b \<notin> used s bm" "used t bm' = insert b (used s bm)"
    "bsize bm' = bsize bm" using alloc_law [OF g(2,3)] by blast
  have "bsize bm dvd b" using place_law [OF r(2), of b] r(4,5) by simp
  then have "CHI_CEIL (vbase b) sz = vbase b" "CHI_FLOOR (bsize bm) sz = bsize bm" using base_aligned [OF g(1)] by blast+
  then show ?thesis using r by (simp add: VEC_GROW_def)
qed (simp add: VEC_GROW_def)

lemma init_ok:
  assumes g: "group_ok sz vs (m, bm, s)" "ready s"
  shows "VEC_INIT balloc bsize sz (m, bm, s) = Dies \<or> (\<exists>v m' bm' t. VEC_INIT balloc bsize sz (m, bm, s) = Returns (v, m', bm', t) \<and>
    group_ok sz (v # vs) (m', bm', t) \<and> contents sz m' v = [] \<and> (\<forall>w \<in> set vs. contents sz m' w = contents sz m w))"
proof -
  have e: "elem_size_ok sz (bsize bm)" "inv bm s" using g(1) by (simp_all add: group_ok_def)
  show ?thesis
  proof (cases "VEC_INIT balloc bsize sz (m, bm, s) = Dies")
    case False
    then obtain b bm' t where r: "VEC_INIT balloc bsize sz (m, bm, s) =
        Returns ([b], m\<lparr> vptr := (vptr m)(b := vbase b), vend := (vend m)(b := b + bsize bm) \<rparr>, bm', t)"
      "inv bm' t" "b \<notin> used s bm" "used t bm' = insert b (used s bm)" "bsize bm' = bsize bm"
      using vgrow_ok [OF e g(2), of "[]" m] by (auto simp: VEC_INIT_def)
    let ?m = "m\<lparr> vptr := (vptr m)(b := vbase b), vend := (vend m)(b := b + bsize bm) \<rparr>"
    have nb: "b \<notin> set (concat vs)" using g(1) r(3) by (auto simp: group_ok_def)
    have "vec_ok sz (bsize bm) ?m w = vec_ok sz (bsize bm) m w \<and> contents sz ?m w = contents sz m w" if "w \<in> set vs" for w
    proof -
      have "x \<noteq> b" if "x \<in> set w" for x using that \<open>w \<in> set vs\<close> nb by auto
      then show ?thesis by (auto simp: vec_ok_def vblock_ok_def contents_def slots_def intro!: arg_cong [of _ _ concat] map_cong)
    qed
    moreover have "vec_ok sz (bsize bm) ?m [b]" using e(1) by (simp add: vec_ok_def vblock_ok_def vbase_def elem_size_ok_def)
    moreover have "contents sz ?m [b] = []" by (simp add: slots_def)
    ultimately show ?thesis using g(1) r nb by (auto simp: group_ok_def)
  qed simp
qed

lemma group_parts:
  assumes "group_ok sz (v # vs) (m, bm, s)"
  shows "vec_ok sz (bsize bm) m v" "group_ok sz vs (m, bm, s)" "inv bm s" "elem_size_ok sz (bsize bm)" "v \<noteq> []"
    "set v \<subseteq> used s bm" "distinct v" "\<And>w. w \<in> set vs \<Longrightarrow> set w \<inter> set v = {}" "\<And>w. w \<in> set vs \<Longrightarrow> vec_ok sz (bsize bm) m w"
    "\<And>w. w \<in> set vs \<Longrightarrow> set w \<subseteq> used s bm"
proof -
  have A: "inv bm s" "elem_size_ok sz (bsize bm)" "distinct v" "distinct (concat vs)" "set v \<inter> set (concat vs) = {}"
    "set v \<subseteq> used s bm" "set (concat vs) \<subseteq> used s bm" "vec_ok sz (bsize bm) m v" "\<forall>w \<in> set vs. vec_ok sz (bsize bm) m w"
    using assms by (simp_all add: group_ok_def)
  then show "vec_ok sz (bsize bm) m v" "group_ok sz vs (m, bm, s)" "inv bm s" "elem_size_ok sz (bsize bm)" "v \<noteq> []"
    "set v \<subseteq> used s bm" "distinct v" by (simp_all add: group_ok_def vec_ok_def)
  fix w assume w: "w \<in> set vs"
  then have "set w \<subseteq> set (concat vs)" by auto
  then show "set w \<inter> set v = {}" "set w \<subseteq> used s bm" using A(5,7) by blast+
  show "vec_ok sz (bsize bm) m w" using A(9) w by blast
qed

text \<open>Storing in a block of the first vector leaves the other blocks alone.\<close>

lemma store_contents:
  assumes g: "inv bm s" "elem_size_ok sz (bsize bm)" "b \<in> used s bm" "vblock_ok sz (bsize bm) m b" "vptr m b < vend m b"
    and w: "set w \<subseteq> used s bm" "b \<notin> set w" "\<forall>c \<in> set w. vblock_ok sz (bsize bm) m c"
  shows "contents sz (store sz b x m) w = contents sz m w"
proof -
  have sz: "0 < sz" using g(2) by (simp add: elem_size_ok_def)
  have "slots sz (store sz b x m) c = slots sz m c" if c: "c \<in> set w" for c
  proof -
    have "c \<noteq> b" using c w(2) by auto
    moreover from this have "b + bsize bm \<le> c \<or> c + bsize bm \<le> b" using place_law [OF g(1,3)] c w(1) by blast
    moreover have "vblock_ok sz (bsize bm) m c" using w(3) c by blast
    ultimately show ?thesis by (intro store_other [OF _ sz _ _ g(4,5)])
  qed
  then show ?thesis by (intro contents_cong) blast
qed

lemma store_vec:
  assumes g: "group_ok sz (v # vs) (m, bm, s)" and room: "vptr m (hd v) < vend m (hd v)"
  shows "group_ok sz (v # vs) (store sz (hd v) x m, bm, s) \<and> contents sz (store sz (hd v) x m) v = x # contents sz m v \<and>
    (\<forall>w \<in> set vs. contents sz (store sz (hd v) x m) w = contents sz m w)"
proof -
  note P = group_parts [OF g]
  obtain b u where v: "v = b # u" using P(5) by (cases v) auto
  let ?m = "store sz b x m" and ?bs = "bsize bm"
  have e: "0 < sz" "sz dvd ?bs" "sz dvd 32" using P(4) by (auto simp: elem_size_ok_def)
  have b: "vblock_ok sz ?bs m b" "b \<in> used s bm" "vptr m b < vend m b" using P(1,6) v room by (auto simp: vec_ok_def)
  have u: "b \<notin> set u" "set u \<subseteq> used s bm" "\<forall>c \<in> set u. vblock_ok sz ?bs m c" using P(1,6,7) v by (auto simp: vec_ok_def)
  note S = store_contents [OF P(3,4) b(2,1,3)]
  have cu: "contents sz ?m u = contents sz m u" by (rule S [OF u(2,1,3)])
  have o: "vblock_ok sz ?bs ?m c = vblock_ok sz ?bs m c \<and> vptr ?m c = vptr m c" if "c \<noteq> b" for c
    using that by (simp add: vblock_ok_def store_def)
  have "vec_ok sz ?bs ?m v"
  proof -
    have "vbase b < vptr ?m b" using b(1) e(1) by (simp add: store_def vblock_ok_def)
    moreover have "vblock_ok sz ?bs ?m b" by (rule store_block [OF b(1) e b(3)])
    moreover have "\<forall>c \<in> set u. c \<noteq> b" using u(1) by auto
    then have "\<forall>c \<in> set u. vblock_ok sz ?bs ?m c = vblock_ok sz ?bs m c \<and> vptr ?m c = vptr m c" using o by blast
    ultimately show ?thesis using P(1) u(1) by (auto simp: vec_ok_def v)
  qed
  moreover have W: "vec_ok sz ?bs ?m w \<and> contents sz ?m w = contents sz m w" if w: "w \<in> set vs" for w
  proof -
    have n: "b \<notin> set w" using P(8) [OF w] v by auto
    then have "\<forall>c \<in> set w. c \<noteq> b" by auto
    then have "vec_ok sz ?bs ?m w = vec_ok sz ?bs m w" using o by (intro vec_ok_cong) blast
    then have "vec_ok sz ?bs ?m w" using P(9) [OF w] by blast
    then show ?thesis using S [OF P(10) [OF w] n] P(9) [OF w] by (auto simp: vec_ok_def)
  qed
  ultimately have "group_ok sz (v # vs) (?m, bm, s)" using g by (auto simp: group_ok_def)
  then show ?thesis using W store_slots [OF b(1) e(1), of x] cu by (simp add: v)
qed

lemma push_ok:
  assumes g: "group_ok sz (v # vs) (m, bm, s)" and rd: "ready s"
  shows "VEC_PUSH balloc bsize sz v x (m, bm, s) = Dies \<or>
    (\<exists>v' m' bm' t. VEC_PUSH balloc bsize sz v x (m, bm, s) = Returns (v', m', bm', t) \<and> group_ok sz (v' # vs) (m', bm', t) \<and>
      contents sz m' v' = x # contents sz m v \<and> (\<forall>w \<in> set vs. contents sz m' w = contents sz m w))"
proof -
  note P = group_parts [OF g]
  let ?bs = "bsize bm"
  have hd: "vblock_ok sz ?bs m (hd v)" using P(1,5) by (cases v) (auto simp: vec_ok_def)
  have st: "VEC_PUSH balloc bsize sz v x (m, bm, s) =
    (case (if vptr m (hd v) = vend m (hd v) then VEC_GROW balloc bsize sz v (m, bm, s) else Returns (v, m, bm, s)) of
        Returns (v, m, bm, s) \<Rightarrow> Returns (v, store sz (hd v) x m, bm, s) | Dies \<Rightarrow> Dies | Diverges \<Rightarrow> Diverges)"
    unfolding VEC_PUSH_def store_def by simp
  show ?thesis
  proof (cases "vptr m (hd v) = vend m (hd v)")
    case False
    then have "vptr m (hd v) < vend m (hd v)" using hd by (simp add: vblock_ok_def)
    from store_vec [OF g this, of x] show ?thesis using False st by auto
  next
    case True
    show ?thesis
    proof (cases "VEC_GROW balloc bsize sz v (m, bm, s) = Dies")
      case False
      then obtain b bm' t where r: "VEC_GROW balloc bsize sz v (m, bm, s) =
          Returns (b # v, m\<lparr> vptr := (vptr m)(b := vbase b), vend := (vend m)(b := b + ?bs) \<rparr>, bm', t)"
        "inv bm' t" "b \<notin> used s bm" "used t bm' = insert b (used s bm)" "bsize bm' = ?bs"
        using vgrow_ok [OF P(4,3) rd, of v m] by blast
      let ?m = "m\<lparr> vptr := (vptr m)(b := vbase b), vend := (vend m)(b := b + ?bs) \<rparr>"
      have sz: "0 < sz" "32 + sz \<le> ?bs" using P(4) by (auto simp: elem_size_ok_def)
      have old: "vblock_ok sz ?bs ?m c = vblock_ok sz ?bs m c \<and> vptr ?m c = vptr m c" if "c \<noteq> b" for c
        using that by (simp add: vblock_ok_def)
      have same: "contents sz ?m w = contents sz m w \<and> vec_ok sz ?bs ?m w" if w: "set w \<subseteq> used s bm" "vec_ok sz ?bs m w" for w
      proof -
        have nb: "\<forall>c \<in> set w. c \<noteq> b" using w(1) r(3) by auto
        then have "contents sz ?m w = contents sz m w" by (intro contents_cong) (simp add: slots_def)
        moreover have "vec_ok sz ?bs ?m w = vec_ok sz ?bs m w" using nb old by (intro vec_ok_cong) blast
        ultimately show ?thesis using w(2) by blast
      qed
      have bb: "vblock_ok sz ?bs ?m b" "vptr ?m b < vend ?m b" using sz by (simp_all add: vblock_ok_def vbase_def)
      have nb: "b \<notin> set v" "vend m (hd v) = hd v + ?bs" using P(6) r(3) hd by (auto simp: vblock_ok_def)
      have full: "vbase (hd v) < vptr m (hd v)" using True hd sz by (simp add: vblock_ok_def vbase_def)
      have ne: "vbase c < vptr m c" if "c \<in> set v" for c
        using P(1) full that by (cases v; cases "tl v") (auto simp: vec_ok_def)
      let ?s = "store sz b x ?m"
      note S = store_contents [OF r(2), unfolded r(5), OF P(4) _ bb]
      have ub: "b \<in> used t bm'" using r(4) by simp
      have keep: "contents sz ?s w = contents sz m w \<and> vec_ok sz ?bs ?s w" if w: "set w \<subseteq> used s bm" "vec_ok sz ?bs m w" for w
      proof -
        have n: "b \<notin> set w" "set w \<subseteq> used t bm'" using w(1) r(3,4) by auto
        have "vec_ok sz ?bs ?m w" using same [OF w] by blast
        then have "contents sz ?s w = contents sz ?m w" using S [OF ub n(2,1)] by (auto simp: vec_ok_def)
        moreover have "\<forall>c \<in> set w. c \<noteq> b" using n by auto
        then have "vec_ok sz ?bs ?s w = vec_ok sz ?bs m w" by (intro vec_ok_cong) (simp add: vblock_ok_def store_def)
        then have "vec_ok sz ?bs ?s w" using w(2) by blast
        ultimately show ?thesis using same [OF w] by simp
      qed
      have "vblock_ok sz ?bs ?s b" by (rule store_block [OF bb(1)]) (use P(4) bb(2) in \<open>auto simp: elem_size_ok_def\<close>)
      moreover have "vbase b < vptr ?s b" using sz by (simp add: store_def)
      moreover have "vblock_ok sz ?bs ?s c \<and> vbase c < vptr ?s c" if c: "c \<in> set v" for c
      proof -
        have "c \<noteq> b" "vblock_ok sz ?bs m c" using c nb P(1) by (auto simp: vec_ok_def)
        then show ?thesis using ne [OF c] by (simp add: vblock_ok_def store_def)
      qed
      ultimately have "vec_ok sz ?bs ?s (b # v)" using nb P(7) by (auto simp: vec_ok_def)
      then have "group_ok sz ((b # v) # vs) (?s, bm', t)"
        using g r P keep by (auto simp: group_ok_def)
      moreover have "contents sz ?s (b # v) = x # contents sz m v"
        using store_slots [OF bb(1) sz(1), of x] keep [OF P(6,1)] by (simp add: slots_def [of sz ?m])
      ultimately show ?thesis using st True r(1) P keep by auto
    qed (use st True in simp)
  qed
qed

lemma block_pops:
  assumes "vblock_ok sz bs m b" "0 < sz" "vbase b < vptr m b"
  defines "m' \<equiv> m\<lparr> vptr := (vptr m)(b := vptr m b - sz) \<rparr>"
  shows "slots sz m b = vslot m (vptr m b - sz) # slots sz m' b" "vblock_ok sz bs m' b"
    "vptr m b < vbase b + 2 * sz \<longleftrightarrow> vptr m' b = vbase b"
proof -
  obtain k where k: "vptr m b - vbase b = sz * k" using assms(1) by (auto simp: vblock_ok_def)
  then have "k \<noteq> 0" using assms(3) by (cases k) auto
  then obtain j where "k = Suc j" by (cases k) auto
  then have p: "vptr m b = vbase b + Suc j * sz" using k assms(3) by (simp add: mult.commute)
  have q: "vptr m b - sz = vbase b + j * sz" using p by simp
  show "slots sz m b = vslot m (vptr m b - sz) # slots sz m' b"
    using slots_Suc [OF p assms(2)] by (simp add: q m'_def)
  show "vblock_ok sz bs m' b" using assms(1) p by (auto simp: vblock_ok_def m'_def)
  show "vptr m b < vbase b + 2 * sz \<longleftrightarrow> vptr m' b = vbase b" using p assms(2) by (cases j) (auto simp: m'_def)
qed

lemma vpop_ok:
  assumes g: "group_ok sz (v # vs) (m, bm, s)"
  shows "case VEC_POP bfree sz v (m, bm, s) of None \<Rightarrow> contents sz m v = []
    | Some (x, v', m', bm', t) \<Rightarrow> contents sz m v = x # contents sz m' v' \<and> group_ok sz (v' # vs) (m', bm', t) \<and>
        (\<forall>w \<in> set vs. contents sz m' w = contents sz m w) \<and> (ready s \<longrightarrow> ready t)"
proof -
  note P = group_parts [OF g]
  let ?bs = "bsize bm"
  have sz: "0 < sz" using P(4) by (simp add: elem_size_ok_def)
  obtain b u where v: "v = b # u" using P(5) by (cases v) auto
  have b: "vblock_ok sz ?bs m b" using P(1) v by (simp add: vec_ok_def)
  note N = vec_null_iff [OF P(1) sz]
  show ?thesis
  proof (cases "contents sz m v = []")
    case True
    then have "VEC_NULL sz m v" using N by blast
    then have "VEC_POP bfree sz v (m, bm, s) = None" using v by (simp add: VEC_POP_def VEC_NULL_def)
    then show ?thesis using True by simp
  next
    case False
    have full: "\<forall>c \<in> set v. vbase c < vptr m c" by (rule nonempty_blocks [OF P(1) sz False])
    let ?m = "m\<lparr> vptr := (vptr m)(b := vptr m b - sz) \<rparr>" and ?x = "vslot m (vptr m b - sz)"
    have B: "slots sz m b = ?x # slots sz ?m b" "vblock_ok sz ?bs ?m b" "vptr m b < vbase b + 2 * sz \<longleftrightarrow> vptr ?m b = vbase b"
      using block_pops [OF b sz] full v by simp_all
    have same: "contents sz ?m w = contents sz m w \<and> vec_ok sz ?bs ?m w = vec_ok sz ?bs m w" if "b \<notin> set w" for w
    proof -
      have "\<forall>c \<in> set w. c \<noteq> b" using that by auto
      then show ?thesis by (intro conjI contents_cong vec_ok_cong) (simp_all add: slots_def vblock_ok_def)
    qed
    have bu: "b \<notin> set u" "distinct u" using P(7) v by auto
    have c: "contents sz m v = ?x # contents sz ?m v" using B(1) same [OF bu(1)] v by simp
    have W: "b \<notin> set w" if "w \<in> set vs" for w using P(8) [OF that] v by auto
    have O: "vec_ok sz ?bs ?m w \<and> contents sz ?m w = contents sz m w" if "w \<in> set vs" for w
      using same [OF W [OF that]] P(9) [OF that] by blast
    show ?thesis
    proof (cases "vptr m b < vbase b + 2 * sz \<and> length v \<noteq> 1")
      case True
      obtain bm' t where f: "bfree bm b s = (bm', t)" by fastforce
      have "b \<in> used s bm" using P(6) v by simp
      note F = free_law [OF P(3) this f]
      have e: "slots sz ?m b = []" using slots_empty [OF B(2) sz] B(3) True by blast
      have r: "VEC_POP bfree sz v (m, bm, s) = Some (?x, u, ?m, bm', t)"
        using True N False v f by (simp add: VEC_POP_def Let_def)
      have "vec_ok sz ?bs m u" using P(1) True v by (auto simp: vec_ok_def)
      then have "vec_ok sz ?bs ?m u" using same [OF bu(1)] by blast
      moreover have "set (concat vs) \<subseteq> used s bm - {b}" using g W by (auto simp: group_ok_def)
      moreover have "set u \<subseteq> used s bm - {b}" using P(6) v bu by auto
      moreover have "distinct (concat (u # vs))" using g v by (simp add: group_ok_def)
      ultimately have "group_ok sz (u # vs) (?m, bm', t)" using F P(4) O by (simp add: group_ok_def)
      then show ?thesis using r c e v O F by simp
    next
      case False
      have r: "VEC_POP bfree sz v (m, bm, s) = Some (?x, v, ?m, bm, s)"
      proof -
        have "\<not> VEC_NULL sz m v" using N \<open>contents sz m v \<noteq> []\<close> by blast
        then show ?thesis using False by (auto simp: VEC_POP_def Let_def v VEC_NULL_def)
      qed
      have "vec_ok sz ?bs ?m v"
      proof (cases "length v > 1")
        case True
        then have "vbase b < vptr ?m b" using False B(2,3) by (auto simp: vblock_ok_def)
        moreover have "vec_ok sz ?bs m u" using P(1) True v by (cases u) (auto simp: vec_ok_def)
        then have "vec_ok sz ?bs ?m u" using same [OF bu(1)] by blast
        moreover have "\<forall>c \<in> set u. vbase c < vptr ?m c" using full v bu(1) by auto
        ultimately show ?thesis using B(2) bu v by (auto simp: vec_ok_def)
      next
        case False
        then have "v = [b]" using v by simp
        then show ?thesis using B(2) by (simp add: vec_ok_def)
      qed
      then have "group_ok sz (v # vs) (?m, bm, s)" using g O by (simp add: group_ok_def)
      then show ?thesis using r c O by simp
    qed
  qed
qed

lemma join_ok:
  assumes g: "group_ok sz (dst # src # vs) (m, bm, s)" and rd: "ready s"
  shows "VEC_JOIN balloc bsize sz dst src (m, bm, s) = Dies \<or>
    (\<exists>dst' src' m' bm' t. VEC_JOIN balloc bsize sz dst src (m, bm, s) = Returns (dst', src', m', bm', t) \<and>
      group_ok sz (dst' # src' # vs) (m', bm', t) \<and> contents sz m' dst' = contents sz m dst @ contents sz m src \<and>
      contents sz m' src' = [] \<and> (\<forall>w \<in> set vs. contents sz m' w = contents sz m w))"
proof -
  note P = group_parts [OF g]
  have sz: "0 < sz" using P(4) by (simp add: elem_size_ok_def)
  have src: "vec_ok sz (bsize bm) m src" using P(9) by simp
  note N = vec_null_iff [OF P(1) sz] vec_null_iff [OF src sz]
  consider "contents sz m src = []" | "contents sz m src \<noteq> []" "contents sz m dst = []"
    | "contents sz m src \<noteq> []" "contents sz m dst \<noteq> []" by blast
  then show ?thesis
  proof cases
    case 1
    then show ?thesis using g N by (simp add: VEC_JOIN_def)
  next
    case 2
    obtain b where b: "dst = [b]"
      using P(1,5) 2(2) slots_empty [OF _ sz] by (cases dst; cases "tl dst") (fastforce simp: vec_ok_def)+
    then have "VEC_JOIN balloc bsize sz dst src (m, bm, s) = Returns (src, dst, m, bm, s)" using 2 N by (simp add: VEC_JOIN_def)
    moreover have "group_ok sz (src # dst # vs) (m, bm, s)" using g by (auto simp: group_ok_def)
    ultimately show ?thesis using 2 by simp
  next
    case 3
    show ?thesis
    proof (cases "VEC_INIT balloc bsize sz (m, bm, s) = Dies")
      case False
      then obtain v m' bm' t where r: "VEC_INIT balloc bsize sz (m, bm, s) = Returns (v, m', bm', t)"
        "group_ok sz (v # dst # src # vs) (m', bm', t)" "contents sz m' v = []"
        "\<forall>w \<in> set (dst # src # vs). contents sz m' w = contents sz m w"
        using init_ok [OF g rd] by blast
      have ok: "vec_ok sz (bsize bm') m' dst" "vec_ok sz (bsize bm') m' src" "distinct (dst @ src)"
        using r(2) by (auto simp: group_ok_def)
      have "\<forall>b \<in> set dst. vbase b < vptr m' b" "\<forall>b \<in> set src. vbase b < vptr m' b"
        using nonempty_blocks [OF ok(1) sz] nonempty_blocks [OF ok(2) sz] 3 r(4) by simp_all
      then have "vec_ok sz (bsize bm') m' (dst @ src)" using ok by (auto simp: vec_ok_def)
      then have "group_ok sz ((dst @ src) # v # vs) (m', bm', t)" using r(2) by (auto simp: group_ok_def)
      moreover have "VEC_JOIN balloc bsize sz dst src (m, bm, s) = Returns (dst @ src, v, m', bm', t)"
        using 3 N r(1) by (simp add: VEC_JOIN_def)
      ultimately show ?thesis using r(3,4) by simp
    qed (use 3 N in \<open>simp add: VEC_JOIN_def\<close>)
  qed
qed

lemma transfer_ok:
  assumes g: "group_ok sz (dst # src # vs) (m, bm, s)" and rd: "ready s" and ne: "contents sz m src \<noteq> []"
  shows "VEC_TRANSFER balloc bfree bsize sz dst src (m, bm, s) = Dies \<or>
    (\<exists>dst' src' m' bm' t. VEC_TRANSFER balloc bfree bsize sz dst src (m, bm, s) = Returns (dst', src', m', bm', t) \<and>
      group_ok sz (dst' # src' # vs) (m', bm', t) \<and> contents sz m' dst' = contents sz m dst @ slots sz m (hd src) \<and>
      slots sz m (hd src) \<noteq> [] \<and> slots sz m (hd src) @ contents sz m' src' = contents sz m src \<and>
      (\<forall>w \<in> set vs. contents sz m' w = contents sz m w))"
proof -
  note P = group_parts [OF g]
  let ?bs = "bsize bm"
  have sz: "0 < sz" using P(4) by (simp add: elem_size_ok_def)
  have src: "vec_ok sz ?bs m src" using P(9) by simp
  obtain c u where u: "src = c # u" using src by (cases src) (auto simp: vec_ok_def)
  have full: "\<forall>b \<in> set src. vbase b < vptr m b" by (rule nonempty_blocks [OF src sz ne])
  have c: "vblock_ok sz ?bs m c" "vbase c < vptr m c" using src full u by (auto simp: vec_ok_def)
  have sc: "slots sz m c \<noteq> []" using slots_empty [OF c(1) sz] c(2) by simp
  obtain d bm1 t1 where d: "(if VEC_NULL sz m dst then (tl dst, bfree bm (hd dst) s) else (dst, bm, s)) = (d, bm1, t1)"
    by (metis surj_pair)
  have D: "inv bm1 t1 \<and> bsize bm1 = ?bs \<and> ready t1 \<and> contents sz m d = contents sz m dst \<and> distinct (concat (d # src # vs)) \<and>
      set (concat (d # src # vs)) \<subseteq> used t1 bm1 \<and> (\<forall>b \<in> set d. vblock_ok sz ?bs m b \<and> vbase b < vptr m b)"
  proof (cases "contents sz m dst = []")
    case True
    obtain b where b: "dst = [b]"
      using P(1,5) True slots_empty [OF _ sz] by (cases dst; cases "tl dst") (fastforce simp: vec_ok_def)+
    have f: "bfree bm b s = (bm1, t1)" "d = []" using d True vec_null_iff [OF P(1) sz] b by auto
    have "b \<in> used s bm" using P(6) b by simp
    from free_law [OF P(3) this f(1)] show ?thesis using f g b True rd by (auto simp: group_ok_def)
  next
    case False
    then have "d = dst" "bm1 = bm" "t1 = s" using d vec_null_iff [OF P(1) sz] by auto
    then show ?thesis using nonempty_blocks [OF P(1) sz False] g rd by (auto simp: group_ok_def vec_ok_def)
  qed
  have dc: "vec_ok sz ?bs m (d @ [c])" "distinct ((d @ [c]) @ u)"
    using D c u by (auto simp: vec_ok_def)
  have vs: "\<forall>w \<in> set vs. vec_ok sz ?bs m w" using P(9) by simp
  have step: "VEC_TRANSFER balloc bfree bsize sz dst src (m, bm, s) =
      (if u = [] then (case VEC_INIT balloc bsize sz (m, bm1, t1) of
                  Returns (src, st) \<Rightarrow> Returns (d @ [c], src, st) | Dies \<Rightarrow> Dies | Diverges \<Rightarrow> Diverges)
       else Returns (d @ [c], u, m, bm1, t1))"
    by (simp add: VEC_TRANSFER_def d u)
  show ?thesis
  proof (cases "u = []")
    case False
    then have "vec_ok sz ?bs m u" using src u by (auto simp: vec_ok_def)
    then have "group_ok sz ((d @ [c]) # u # vs) (m, bm1, t1)" using D dc vs P(4) u by (auto simp: group_ok_def)
    then show ?thesis using step False D sc u by simp
  next
    case True
    have "group_ok sz ((d @ [c]) # vs) (m, bm1, t1)" using D dc vs P(4) u by (auto simp: group_ok_def)
    note I = init_ok [OF this]
    show ?thesis
    proof (cases "VEC_INIT balloc bsize sz (m, bm1, t1) = Dies")
      case False
      then obtain v m' bm' t where r: "VEC_INIT balloc bsize sz (m, bm1, t1) = Returns (v, m', bm', t)"
        "group_ok sz (v # (d @ [c]) # vs) (m', bm', t)" "contents sz m' v = []"
        "\<forall>w \<in> set ((d @ [c]) # vs). contents sz m' w = contents sz m w"
        using I D by blast
      have "group_ok sz ((d @ [c]) # v # vs) (m', bm', t)" using r(2) by (auto simp: group_ok_def)
      then show ?thesis using step True r D sc u by simp
    qed (use step True in simp)
  qed
qed

end

text \<open>Walking a vector from \<open>vec_begin\<close> with \<open>vec_next\<close> visits the contents in order.\<close>

fun walk :: "nat \<Rightarrow> nat \<Rightarrow> 'a vec_mem \<Rightarrow> nat list \<Rightarrow> (nat \<times> nat) option \<Rightarrow> 'a list" where
  "walk 0 sz m v pos = []"
| "walk (Suc n) sz m v pos = (case pos of None \<Rightarrow> [] | Some (b, p) \<Rightarrow> vslot m p # walk n sz m v (vec_next sz m v (b, p)))"

lemma walk_block:
  assumes "0 < sz"
  shows "walk (Suc k + n) sz m v (Some (b, vbase b + k * sz)) =
    rev (map (\<lambda>i. vslot m (vbase b + i * sz)) [0 ..< Suc k]) @
    walk n sz m v (case list_next v b of None \<Rightarrow> None | Some b \<Rightarrow> Some (b, vptr m b - sz))"
proof (induction k)
  case 0
  then show ?case using assms by (simp add: vec_next_def)
next
  case (Suc k)
  have "vec_next sz m v (b, vbase b + Suc k * sz) = Some (b, vbase b + k * sz)"
    by (simp add: vec_next_def)
  then show ?case using Suc by simp
qed

lemma walk_first:
  assumes "0 < sz" "vblock_ok sz bs m b" "vbase b < vptr m b" "length (slots sz m b) \<le> n"
  shows "walk n sz m v (Some (b, vptr m b - sz)) =
    slots sz m b @ walk (n - length (slots sz m b)) sz m v (case list_next v b of None \<Rightarrow> None | Some b \<Rightarrow> Some (b, vptr m b - sz))"
proof -
  obtain k where k: "vptr m b - vbase b = sz * k" using assms(2) by (auto simp: vblock_ok_def)
  then have "k \<noteq> 0" using assms(3) by (cases k) auto
  then obtain j where "k = Suc j" by (cases k) auto
  then have j: "vptr m b - vbase b = Suc j * sz" using k by (simp add: mult.commute)
  have "vptr m b - sz = vbase b + j * sz" using j assms(3) by simp
  moreover have s: "slots sz m b = rev (map (\<lambda>i. vslot m (vbase b + i * sz)) [0 ..< Suc j])"
    using assms(1) by (simp only: slots_def j) simp
  moreover have "Suc j + (n - length (slots sz m b)) = n" using assms(4) s by simp
  ultimately show ?thesis using walk_block [OF assms(1), of j "n - length (slots sz m b)" m v b] by simp
qed

lemma walk_blocks:
  assumes "0 < sz" "\<forall>b \<in> set (b # w). vblock_ok sz bs m b \<and> vbase b < vptr m b" "distinct (u @ b # w)"
    "length (contents sz m (b # w)) \<le> n"
  shows "walk n sz m (u @ b # w) (Some (b, vptr m b - sz)) = contents sz m (b # w)"
  using assms(2-4)
proof (induction w arbitrary: b u n)
  case Nil
  have "list_next (u @ [b]) b = None" using list_view(2) [of b u "[]"] Nil.prems(2) by simp
  then show ?case using walk_first [OF assms(1), of bs m b n] Nil.prems by (cases "n - length (slots sz m b)") simp_all
next
  case (Cons c w)
  have "list_next (u @ b # c # w) b = Some c" using list_view(2) [of b u "c # w"] Cons.prems(2) by simp
  moreover have "walk (n - length (slots sz m b)) sz m ((u @ [b]) @ c # w) (Some (c, vptr m c - sz)) = contents sz m (c # w)"
    by (rule Cons.IH) (use Cons.prems in auto)
  ultimately show ?case using walk_first [OF assms(1), of bs m b n] Cons.prems by simp
qed

lemma walk_vec:
  assumes "vec_ok sz bs m v" "0 < sz" "length (contents sz m v) \<le> n"
  shows "walk n sz m v (vec_begin sz m v) = contents sz m v"
proof (cases "contents sz m v = []")
  case True
  then show ?thesis using vec_null_iff [OF assms(1,2)] by (cases n) (simp_all add: vec_begin_def)
next
  case False
  obtain b w where v: "v = b # w" using assms(1) by (cases v) (auto simp: vec_ok_def)
  have "\<forall>b \<in> set v. vblock_ok sz bs m b \<and> vbase b < vptr m b" "distinct v"
    using nonempty_blocks [OF assms(1,2) False] assms(1) by (auto simp: vec_ok_def)
  then have w: "walk n sz m v (Some (b, vptr m b - sz)) = contents sz m v"
    using walk_blocks [OF assms(2), of b w bs m "[]" n] assms(3) v by simp
  have "\<not> VEC_NULL sz m v" using False vec_null_iff [OF assms(1,2)] by simp
  then have "vec_begin sz m v = Some (b, vptr m b - sz)" using v by (simp add: vec_begin_def)
  then show ?thesis using w by simp
qed

section \<open>Vectors over the block managers of the runtime\<close>

lemma free_chunks_ready:
  "rt_ok lo hi rt \<Longrightarrow> rt_ready e rt \<Longrightarrow> distinct cs \<Longrightarrow> \<forall>c \<in> set cs. held rt c \<noteq> None \<Longrightarrow>
     rt_ready e (free_chunks chiBlockManagerChunkFree f cs rt)"
proof (induction cs arbitrary: rt)
  case (Cons c cs)
  have c: "held rt c \<noteq> None" using Cons.prems(4) by simp
  let ?t = "chiBlockManagerChunkFree (f c) c rt"
  have t: "rt_ok lo hi ?t" "held ?t = (held rt)(c := None)"
    using held_fun_free [of lo hi rt c "f c"] Cons.prems(1) c by (simp_all add: rt_ok_def)
  have "\<forall>d \<in> set cs. held ?t d \<noteq> None" unfolding t(2) using Cons.prems(3,4) by auto
  then show ?case
    using Cons.IH [OF t(1) chunk_free_ready [OF Cons.prems(1) c Cons.prems(2), of "f c"]] Cons.prems(3) by simp
qed simp

lemma block_free_ready:
  assumes "block_inv lo hi bm rt" "rt_block_free f bm b rt = (bm', t)" "rt_ready e rt"
  shows "rt_ready e t"
proof -
  have "rt_ok lo hi rt" "distinct (chunkList bm)" "\<forall>c \<in> set (chunkList bm). held rt c \<noteq> None"
    using assms(1) by (auto simp: block_inv_def bm_inv_def)
  from free_chunks_ready [OF this(1) assms(3) this(2,3), of f] show ?thesis
    using assms(2,3) by (auto simp: rt_block_free_def chiBlockManagerFree_def freeChunkList_def split: if_splits)
qed

interpretation block_vecs: block_provider "rt_block_alloc hook e" "rt_block_free f" "block_inv lo hi" rt_blocks_used blockSize
  "\<lambda>rt. rt_ready e rt \<and> hook_ok lo hi hook" for hook e f lo hi
proof
  show "rt_block_alloc hook e bm s = Dies \<or> (\<exists>b bm' t. rt_block_alloc hook e bm s = Returns (b, bm', t) \<and> block_inv lo hi bm' t \<and>
      b \<notin> rt_blocks_used s bm \<and> rt_blocks_used t bm' = insert b (rt_blocks_used s bm) \<and> blockSize bm' = blockSize bm)"
    if "block_inv lo hi bm s" "rt_ready e s \<and> hook_ok lo hi hook" for bm s
    using block_alloc_inv [OF that(1), of e hook] that(2) by blast
  show "block_inv lo hi bm' t \<and> rt_blocks_used t bm' = rt_blocks_used s bm - {b} \<and> blockSize bm' = blockSize bm \<and>
      (rt_ready e s \<and> hook_ok lo hi hook \<longrightarrow> rt_ready e t \<and> hook_ok lo hi hook)"
    if "block_inv lo hi bm s" "b \<in> rt_blocks_used s bm" "rt_block_free f bm b s = (bm', t)" for bm s b bm' t
    using block_free_inv [OF that] block_free_ready [OF that(1,3)] by blast
  show "blockSize bm dvd b \<and> (\<forall>x \<in> rt_blocks_used s bm. x \<noteq> b \<longrightarrow> b + blockSize bm \<le> x \<or> x + blockSize bm \<le> b)"
    if "block_inv lo hi bm s" "b \<in> rt_blocks_used s bm" for bm s b
    using block_used_place [OF that] by blast
qed

abbreviation rt_vecs :: "nat \<Rightarrow> nat \<Rightarrow> nat \<Rightarrow> nat list list \<Rightarrow> ('a, block_manager, rt_mem) vec_state \<Rightarrow> bool" where
  "rt_vecs lo hi \<equiv> vec_group (block_inv lo hi) rt_blocks_used blockSize"

text \<open>C19: The vectors of the collector are stacks, whatever the manager does: pushing returns or the process ends, and it adds the
  element on top; popping gives back the top element, and nothing only if the vector is empty; joining puts one stack on
  top of the other and leaves the source empty; transferring moves the topmost block of elements below the
  destination; the flags of gray vectors tell after a join which is empty; all other vectors of the manager keep their contents, no
  block belongs to two vectors, and iteration visits the elements from the top.\<close>

theorem block_vec_is_stack:
  assumes "rt_vecs lo hi sz (v # u # vs) (m, bm, rt)" "rt_ready e rt" "hook_ok lo hi hook"
  shows "(case VEC_PUSH (rt_block_alloc hook e) blockSize sz v x (m, bm, rt) of Diverges \<Rightarrow> False | Dies \<Rightarrow> True
      | Returns (v', m', bm', t) \<Rightarrow> rt_vecs lo hi sz (v' # u # vs) (m', bm', t) \<and> contents sz m' v' = x # contents sz m v \<and>
          (\<forall>w \<in> set (u # vs). contents sz m' w = contents sz m w)) \<and>
    (case VEC_POP (rt_block_free f) sz v (m, bm, rt) of None \<Rightarrow> contents sz m v = []
      | Some (y, v', m', bm', t) \<Rightarrow> rt_vecs lo hi sz (v' # u # vs) (m', bm', t) \<and> contents sz m v = y # contents sz m' v' \<and>
          (\<forall>w \<in> set (u # vs). contents sz m' w = contents sz m w)) \<and>
    (case VEC_JOIN (rt_block_alloc hook e) blockSize sz v u (m, bm, rt) of Diverges \<Rightarrow> False | Dies \<Rightarrow> True
      | Returns (v', u', m', bm', t) \<Rightarrow> rt_vecs lo hi sz (v' # u' # vs) (m', bm', t) \<and>
          contents sz m' v' = contents sz m v @ contents sz m u \<and> VEC_NULL sz m' u' \<and>
          (\<forall>w \<in> set vs. contents sz m' w = contents sz m w)) \<and>
    (contents sz m u \<noteq> [] \<longrightarrow>
      (case VEC_TRANSFER (rt_block_alloc hook e) (rt_block_free f) blockSize sz v u (m, bm, rt) of Diverges \<Rightarrow> False | Dies \<Rightarrow> True
      | Returns (v', u', m', bm', t) \<Rightarrow> rt_vecs lo hi sz (v' # u' # vs) (m', bm', t) \<and>
          (\<exists>xs. xs \<noteq> [] \<and> contents sz m u = xs @ contents sz m' u' \<and> contents sz m' v' = contents sz m v @ xs) \<and>
          (\<forall>w \<in> set vs. contents sz m' w = contents sz m w))) \<and>
    walk (length (contents sz m v)) sz m v (vec_begin sz m v) = contents sz m v \<and>
    (VEC_NULL sz m v \<longleftrightarrow> contents sz m v = []) \<and>
    (case chiGrayVecJoin (rt_block_alloc hook e) blockSize sz (g\<lparr> gvec := v \<rparr>) (h\<lparr> gvec := u \<rparr>) (m, bm, rt) of
        Diverges \<Rightarrow> False | Dies \<Rightarrow> True
      | Returns (g', h', m', bm', t) \<Rightarrow> chiGrayVecNull g' = (contents sz m v = [] \<and> contents sz m u = []) \<and>
          chiGrayVecNull h' = VEC_NULL sz m' (gvec h'))"
proof (intro conjI impI)
  note grp = assms(1) and r = conjI [OF assms(2,3)]
  note P = block_vecs.group_parts [OF grp]
  have sz: "0 < sz" using P(4) by (simp add: elem_size_ok_def)
  show "walk (length (contents sz m v)) sz m v (vec_begin sz m v) = contents sz m v" by (rule walk_vec [OF P(1) sz]) simp
  show "VEC_NULL sz m v \<longleftrightarrow> contents sz m v = []" by (rule vec_null_iff [OF P(1) sz])
  show "case VEC_PUSH (rt_block_alloc hook e) blockSize sz v x (m, bm, rt) of Diverges \<Rightarrow> False | Dies \<Rightarrow> True
      | Returns (v', m', bm', t) \<Rightarrow> rt_vecs lo hi sz (v' # u # vs) (m', bm', t) \<and> contents sz m' v' = x # contents sz m v \<and>
          (\<forall>w \<in> set (u # vs). contents sz m' w = contents sz m w)"
    using block_vecs.push_ok [OF grp r, of x] by auto
  show "case VEC_POP (rt_block_free f) sz v (m, bm, rt) of None \<Rightarrow> contents sz m v = []
      | Some (y, v', m', bm', t) \<Rightarrow> rt_vecs lo hi sz (v' # u # vs) (m', bm', t) \<and> contents sz m v = y # contents sz m' v' \<and>
          (\<forall>w \<in> set (u # vs). contents sz m' w = contents sz m w)"
    using block_vecs.vpop_ok [OF grp, where f = f] by (auto split: option.splits)
  show "case VEC_JOIN (rt_block_alloc hook e) blockSize sz v u (m, bm, rt) of Diverges \<Rightarrow> False | Dies \<Rightarrow> True
      | Returns (v', u', m', bm', t) \<Rightarrow> rt_vecs lo hi sz (v' # u' # vs) (m', bm', t) \<and>
          contents sz m' v' = contents sz m v @ contents sz m u \<and> VEC_NULL sz m' u' \<and>
          (\<forall>w \<in> set vs. contents sz m' w = contents sz m w)" (is ?join)
    "case chiGrayVecJoin (rt_block_alloc hook e) blockSize sz (g\<lparr> gvec := v \<rparr>) (h\<lparr> gvec := u \<rparr>) (m, bm, rt) of
        Diverges \<Rightarrow> False | Dies \<Rightarrow> True
      | Returns (g', h', m', bm', t) \<Rightarrow> chiGrayVecNull g' = (contents sz m v = [] \<and> contents sz m u = []) \<and>
          chiGrayVecNull h' = VEC_NULL sz m' (gvec h')" (is ?gray) for g h
  proof -
    have "?join \<and> ?gray"
    proof (cases "VEC_JOIN (rt_block_alloc hook e) blockSize sz v u (m, bm, rt) = Dies")
      case False
      then obtain v' u' m' bm' t where j: "VEC_JOIN (rt_block_alloc hook e) blockSize sz v u (m, bm, rt) = Returns (v', u', m', bm', t)"
        "rt_vecs lo hi sz (v' # u' # vs) (m', bm', t)" "contents sz m' v' = contents sz m v @ contents sz m u"
        "contents sz m' u' = []" "\<forall>w \<in> set vs. contents sz m' w = contents sz m w"
        using block_vecs.join_ok [OF grp r] by blast
      have "vec_ok sz (blockSize bm') m' u'" "vec_ok sz (blockSize bm') m' v'" using block_vecs.group_parts(1,9) [OF j(2)] by simp_all
      then have "VEC_NULL sz m' u'" "VEC_NULL sz m' v' \<longleftrightarrow> contents sz m v = [] \<and> contents sz m u = []"
        using vec_null_iff sz j(3,4) by fastforce+
      then show ?thesis using j by (simp add: chiGrayVecJoin_def chiGrayVecUpdateNull_def chiGrayVecNull_def)
    qed (simp add: chiGrayVecJoin_def)
    then show ?join ?gray by simp_all
  qed
  assume ne: "contents sz m u \<noteq> []"
  show "case VEC_TRANSFER (rt_block_alloc hook e) (rt_block_free f) blockSize sz v u (m, bm, rt) of Diverges \<Rightarrow> False | Dies \<Rightarrow> True
      | Returns (v', u', m', bm', t) \<Rightarrow> rt_vecs lo hi sz (v' # u' # vs) (m', bm', t) \<and>
          (\<exists>xs. xs \<noteq> [] \<and> contents sz m u = xs @ contents sz m' u' \<and> contents sz m' v' = contents sz m v @ xs) \<and>
          (\<forall>w \<in> set vs. contents sz m' w = contents sz m w)"
    using block_vecs.transfer_ok [OF grp r ne, where f = f] by fastforce
qed

definition bv_example :: block_manager where
  "bv_example = (manager ba_example)\<lparr> nextBlock := 2 ^ 37 + 8192, blocksCount := 2 \<rparr>"

definition vec_mem_example :: "nat vec_mem" where
  "vec_mem_example = \<lparr> vptr = (\<lambda>b. vbase b + (if b = 2 ^ 37 then 8 else 0)), vend = (\<lambda>b. b + 4096), vslot = (\<lambda>_. 3) \<rparr>"

lemma bv_example_ok: "rt_vecs (2 ^ 37) (2 ^ 37 + 2 ^ 20) 8 [[2 ^ 37], [2 ^ 37 + 4096]] (vec_mem_example, bv_example, rt_full)"
proof -
  let ?bm = bv_example and ?a = "2 ^ 37 :: nat"
  have h: "held rt_full = [7 \<mapsto> (?a, 2 ^ 20)]" using full_example_ok(2) by (simp add: rt_full_def)
  have st: "chunk_start rt_full 7 = ?a" using held_chunk [of rt_full 7] h by simp
  have bm: "chunkList ?bm = [7]" "blockSize ?bm = 4096" "bmChunkSize ?bm = 2 ^ 20" "nextBlock ?bm = ?a + 8192"
    "chunkEnd ?bm = ?a + 2 ^ 20" "blocksCount ?bm = 2" "freeList ?bm = []"
    by (simp_all add: bv_example_def ba_example_def chiBlockManagerSetup_def)
  have "fresh ?bm = tiles (?a + 8192) (2 ^ 20 - 8192) 4096" by (simp add: fresh_def bm)
  moreover have "tiles ?a (2 ^ 20) 4096 = insert ?a (insert (?a + 4096) (tiles (?a + 8192) (2 ^ 20 - 8192) 4096))"
    using tiles_first [of 4096 "2 ^ 20" ?a] tiles_first [of 4096 "2 ^ 20 - 4096" "?a + 4096"] by simp
  moreover have "x \<notin> tiles (?a + 8192) (2 ^ 20 - 8192) 4096" if "x < ?a + 8192" for x
    using tiles_within [of x "?a + 8192" "2 ^ 20 - 8192" 4096] that by auto
  ultimately have c: "carved chunk_start rt_full ?bm = {?a, ?a + 4096}" by (auto simp: carved_def bm st)
  have rq: "request_ok (2 ^ 20) 4096"
    unfolding request_ok_def chiChunkSizeValid_def chunkAlignValid_def CHI_CHUNK_MIN_SIZE_def CHI_CHUNK_MAX_SIZE_def
    by (simp add: chiIsPow2_def)
  have "\<exists>k::nat. ?a + k * 4096 = ?a + 8192" by (rule exI [of _ 2]) simp
  then have "block_inv ?a (?a + 2 ^ 20) ?bm rt_full"
    using rt_full_ok(1) rq by (simp add: block_inv_def bm_inv_def sizes_valid_def bm c st h CHI_CHUNK_MIN_SIZE_def)
  moreover have "rt_blocks_used rt_full ?bm = {?a, ?a + 4096}" by (simp add: blocks_used_def c bm)
  moreover have "vec_ok 8 4096 vec_mem_example [?a]" "vec_ok 8 4096 vec_mem_example [?a + 4096]"
    by (simp_all add: vec_ok_def vblock_ok_def vec_mem_example_def vbase_def)
  ultimately show ?thesis by (simp add: vec_group_def bm elem_size_ok_def)
qed

theorem block_vec_is_stack_witness:
  "(case VEC_POP (rt_block_free (\<lambda>_. (True, 0))) 8 [2 ^ 37] (vec_mem_example, bv_example, rt_full) of None \<Rightarrow> False
    | Some (y, v', m', bm', t) \<Rightarrow> y = 3 \<and> contents 8 m' v' = [] \<and>
        rt_vecs (2 ^ 37) (2 ^ 37 + 2 ^ 20) 8 [v', [2 ^ 37 + 4096]] (m', bm', t))"
proof -
  have h: "hook_ok (2 ^ 37) (2 ^ 37 + 2 ^ 20) id" by (simp add: hook_ok_def)
  have "contents 8 vec_mem_example [2 ^ 37] = [3]" by (simp add: slots_def vec_mem_example_def)
  then have c: "contents 8 vec_mem_example [2 ^ 37] = [3]" .
  show ?thesis
    using block_vec_is_stack [where f = "\<lambda>_. (True, 0)", OF bv_example_ok rt_full_ok(2) h, THEN conjunct2, THEN conjunct1]
    unfolding c by (auto split: option.splits)
qed

end
