(* ===== verification/Mark.thy ===== *)
theory Mark
  imports Chili
begin

text \<open>
  Marking (\<^verbatim>\<open>src/native/mark.c\<close>), the colors of a collection cycle (\<^verbatim>\<open>src/native/gc.c\<close>), the mark barrier
  (\<^verbatim>\<open>src/native/localgc.h\<close>, \<^verbatim>\<open>src/native/barrier.h\<close>) and the activation of stacks (\<^verbatim>\<open>src/native/stack.c\<close>). The major heap maps
  the address of an object header to the object, references are the words of the theory Chili, the gray
  vector is the list of its elements, top first, and the timer is the sequence of answers the flag of the timeout gives.
  The loops that replace a reference to a collapsible thunk run with fuel 2, which is enough because
  what a thunk collapses to is not a thunk.
\<close>

section \<open>Objects and colors\<close>

record gc_object =
  ocolor :: u8
  olock :: bool
  oshared :: bool
  odirty :: bool
  payload :: "u64 list"

datatype ChiBarrier = BARRIER_NONE | BARRIER_SYNC | BARRIER_ASYNC

record ChiMarkState =
  white :: u8
  gray :: u8
  black :: u8
  barrier :: ChiBarrier

definition CHI_COLOR_USED :: u8 where "CHI_COLOR_USED = 1"
definition CHI_COLOR_SHADED :: u8 where "CHI_COLOR_SHADED = 2"
definition CHI_COLOR_EPOCH :: u8 where "CHI_COLOR_EPOCH = 4"

definition markStateInit :: ChiMarkState where
  "markStateInit = \<lparr> white = CHI_COLOR_USED, gray = CHI_COLOR_SHADED OR CHI_COLOR_USED,
     black = CHI_COLOR_EPOCH + CHI_COLOR_USED, barrier = BARRIER_NONE \<rparr>"

definition markStateEpoch :: "ChiMarkState \<Rightarrow> ChiMarkState" where
  "markStateEpoch s = s\<lparr> black := black s + CHI_COLOR_EPOCH, gray := gray s + CHI_COLOR_EPOCH, white := white s + CHI_COLOR_EPOCH \<rparr>"

definition chiObjectGarbage :: "ChiMarkState \<Rightarrow> gc_object \<Rightarrow> bool" where
  "chiObjectGarbage s obj \<longleftrightarrow>
     (let c = ocolor obj in c AND NOT CHI_COLOR_SHADED \<noteq> white s \<and> c \<noteq> black s)"

definition chiColorUsed :: "u8 \<Rightarrow> bool" where
  "chiColorUsed c \<longleftrightarrow> c AND CHI_COLOR_USED \<noteq> 0"

type_synonym objects = "nat \<Rightarrow> gc_object"

definition chiObjectSetColor :: "nat \<Rightarrow> u8 \<Rightarrow> objects \<Rightarrow> objects" where
  "chiObjectSetColor a c h = h(a := (h a)\<lparr> ocolor := c \<rparr>)"

definition chiObjectTryLock :: "nat \<Rightarrow> objects \<Rightarrow> bool \<times> objects" where
  "chiObjectTryLock a h = (\<not> olock (h a), h(a := (h a)\<lparr> olock := True \<rparr>))"

definition chiObjectUnlock :: "nat \<Rightarrow> objects \<Rightarrow> objects" where
  "chiObjectUnlock a h = h(a := (h a)\<lparr> olock := False \<rparr>)"

section \<open>The marker\<close>

record mark_state =
  mobjs :: objects
  mgray :: "u64 list"
  mtick :: nat

text \<open>Whether the flag of the timeout is set is up to the timer.\<close>

definition chiTimeoutTick :: "(nat \<Rightarrow> bool) \<Rightarrow> mark_state \<Rightarrow> bool \<times> mark_state" where
  "chiTimeoutTick timer st = (timer (mtick st), st\<lparr> mtick := mtick st + 1 \<rparr>)"

definition setColor :: "nat \<Rightarrow> u8 \<Rightarrow> mark_state \<Rightarrow> mark_state" where
  "setColor a c st = st\<lparr> mobjs := chiObjectSetColor a c (mobjs st) \<rparr>"

definition setField :: "nat \<Rightarrow> nat \<Rightarrow> u64 \<Rightarrow> mark_state \<Rightarrow> mark_state" where
  "setField a i v st = st\<lparr> mobjs := (mobjs st)(a := (mobjs st a)\<lparr> payload := (payload (mobjs st a))[i := v] \<rparr>) \<rparr>"

definition pushGray :: "u64 \<Rightarrow> mark_state \<Rightarrow> mark_state" where
  "pushGray c st = st\<lparr> mgray := c # mgray st \<rparr>"

text \<open>The flags: whether to recurse and whether to collapse.\<close>

datatype MarkFlags = MARK_DEFAULT | MARK_RECURSE | MARK_RECURSE_COLLAPSE

definition thunkCollapsible :: "u64 list \<Rightarrow> u64 option" where
  "thunkCollapsible p = (if chiRefType (p ! 1) CHI_THUNK then None else Some (p ! 1))"

text \<open>The result is the value to collapse to, if any. \<open>scan\<close> scans at the next smaller depth.\<close>

definition doMark ::
  "ChiMarkState \<Rightarrow> (nat \<Rightarrow> bool) \<Rightarrow> nat \<Rightarrow> (u64 \<Rightarrow> mark_state \<Rightarrow> mark_state) \<Rightarrow> MarkFlags \<Rightarrow> u64 \<Rightarrow> mark_state \<Rightarrow>
   u64 option \<times> mark_state" where
  "doMark ms timer depth scan flags c st =
     (if \<not> chiRefMajor c then (None, st)
      else
        let type = chiType c; obj = chiObjectUnchecked c
        in if chiRaw type then (None, setColor obj (black ms) st)
           else
             let color = ocolor (mobjs st obj);
                 st = (if color = white ms
                       then
                         let st = setColor obj (gray ms) st
                         in if flags \<noteq> MARK_DEFAULT \<and> depth > 0
                            then (case chiTimeoutTick timer st of (True, st) \<Rightarrow> scan c st | (False, st) \<Rightarrow> pushGray c st)
                            else pushGray c st
                       else st)
             in if flags = MARK_RECURSE_COLLAPSE \<and> type = CHI_THUNK
                then (thunkCollapsible (payload (mobjs st obj)), st)
                else (None, st))"

fun mark_loop :: "nat \<Rightarrow> (u64 \<Rightarrow> mark_state \<Rightarrow> u64 option \<times> mark_state) \<Rightarrow> bool \<Rightarrow> nat \<Rightarrow> nat \<Rightarrow> mark_state \<Rightarrow> mark_state" where
  "mark_loop 0 dm atomic a i st = st"
| "mark_loop (Suc n) dm atomic a i st =
     (let c = payload (mobjs st a) ! i
      in case dm c st of
           (None, st) \<Rightarrow> st
         | (Some collapsed, st) \<Rightarrow>
             if atomic \<and> payload (mobjs st a) ! i \<noteq> c then st
             else mark_loop n dm atomic a i (setField a i collapsed st))"

definition markAtomic :: "(u64 \<Rightarrow> mark_state \<Rightarrow> u64 option \<times> mark_state) \<Rightarrow> nat \<Rightarrow> nat \<Rightarrow> mark_state \<Rightarrow> mark_state" where
  "markAtomic dm a i st = mark_loop 2 dm True a i st"

definition mark :: "(u64 \<Rightarrow> mark_state \<Rightarrow> u64 option \<times> mark_state) \<Rightarrow> nat \<Rightarrow> nat \<Rightarrow> mark_state \<Rightarrow> mark_state" where
  "mark dm a i st = mark_loop 2 dm False a i st"

text \<open>The slots of a stack in use: the first word of the payload is the stack pointer, the slots follow it.\<close>

definition stack_slots :: "nat \<Rightarrow> u64 list \<Rightarrow> nat list" where
  "stack_slots a p = [1 ..< 1 + (unat (p ! 0) - (a + 2 * CHI_WORDSIZE)) div CHI_WORDSIZE]"

definition alreadyBlack :: "ChiMarkState \<Rightarrow> nat \<Rightarrow> mark_state \<Rightarrow> bool \<times> mark_state" where
  "alreadyBlack ms a st = (if ocolor (mobjs st a) = black ms then (True, st) else (False, setColor a (black ms) st))"

definition scanStack :: "ChiMarkState \<Rightarrow> (MarkFlags \<Rightarrow> u64 \<Rightarrow> mark_state \<Rightarrow> u64 option \<times> mark_state) \<Rightarrow> nat \<Rightarrow> mark_state \<Rightarrow> mark_state" where
  "scanStack ms dm a st =
     (case chiObjectTryLock a (mobjs st) of
        (False, h) \<Rightarrow> st\<lparr> mobjs := h \<rparr>
      | (True, h) \<Rightarrow>
          let st = st\<lparr> mobjs := h \<rparr>;
              st = (if ocolor (mobjs st a) \<noteq> black ms
                    then
                      let st = setColor a (black ms) st
                      in fold (mark (dm MARK_DEFAULT) a) (stack_slots a (payload (mobjs st a))) st
                    else st)
          in st\<lparr> mobjs := chiObjectUnlock a (mobjs st) \<rparr>)"

definition scanThread :: "ChiMarkState \<Rightarrow> (MarkFlags \<Rightarrow> u64 \<Rightarrow> mark_state \<Rightarrow> u64 option \<times> mark_state) \<Rightarrow> nat \<Rightarrow> mark_state \<Rightarrow> mark_state" where
  "scanThread ms dm a st =
     (case alreadyBlack ms a st of
        (True, st) \<Rightarrow> st
      | (False, st) \<Rightarrow> markAtomic (dm MARK_RECURSE) a 2 (markAtomic (dm MARK_RECURSE) a 1 st))"

definition scanThunk :: "ChiMarkState \<Rightarrow> (MarkFlags \<Rightarrow> u64 \<Rightarrow> mark_state \<Rightarrow> u64 option \<times> mark_state) \<Rightarrow> nat \<Rightarrow> mark_state \<Rightarrow> mark_state" where
  "scanThunk ms dm a st =
     (case alreadyBlack ms a st of
        (True, st) \<Rightarrow> st
      | (False, st) \<Rightarrow>
          let st = markAtomic (dm MARK_RECURSE_COLLAPSE) a 1 st
          in fold (mark (dm MARK_RECURSE_COLLAPSE) a) [2 ..< length (payload (mobjs st a))] st)"

definition scanStringBuilder :: "ChiMarkState \<Rightarrow> (MarkFlags \<Rightarrow> u64 \<Rightarrow> mark_state \<Rightarrow> u64 option \<times> mark_state) \<Rightarrow> nat \<Rightarrow> mark_state \<Rightarrow> mark_state" where
  "scanStringBuilder ms dm a st =
     (case alreadyBlack ms a st of
        (True, st) \<Rightarrow> st
      | (False, st) \<Rightarrow> markAtomic (dm MARK_RECURSE) a 2 st)"

definition scanArray :: "ChiMarkState \<Rightarrow> (MarkFlags \<Rightarrow> u64 \<Rightarrow> mark_state \<Rightarrow> u64 option \<times> mark_state) \<Rightarrow> nat \<Rightarrow> mark_state \<Rightarrow> mark_state" where
  "scanArray ms dm a st =
     (case alreadyBlack ms a st of
        (True, st) \<Rightarrow> st
      | (False, st) \<Rightarrow> fold (markAtomic (dm MARK_RECURSE_COLLAPSE) a) [0 ..< length (payload (mobjs st a))] st)"

definition scanImmutableObject :: "ChiMarkState \<Rightarrow> (MarkFlags \<Rightarrow> u64 \<Rightarrow> mark_state \<Rightarrow> u64 option \<times> mark_state) \<Rightarrow> nat \<Rightarrow> mark_state \<Rightarrow> mark_state" where
  "scanImmutableObject ms dm a st =
     (case alreadyBlack ms a st of
        (True, st) \<Rightarrow> st
      | (False, st) \<Rightarrow> fold (mark (dm MARK_RECURSE_COLLAPSE) a) [0 ..< length (payload (mobjs st a))] st)"

text \<open>The types after the stack are a bug in the code; here they are left alone.\<close>

definition scanObject :: "ChiMarkState \<Rightarrow> (MarkFlags \<Rightarrow> u64 \<Rightarrow> mark_state \<Rightarrow> u64 option \<times> mark_state) \<Rightarrow> u64 \<Rightarrow> mark_state \<Rightarrow> mark_state" where
  "scanObject ms dm c st =
     (let obj = chiObjectUnchecked c; t = chiType c
      in if t = CHI_ARRAY_SMALL \<or> t = CHI_ARRAY_LARGE then scanArray ms dm obj st
         else if t = CHI_THUNK then scanThunk ms dm obj st
         else if t = CHI_STRINGBUILDER then scanStringBuilder ms dm obj st
         else if t = CHI_THREAD then scanThread ms dm obj st
         else if t = CHI_STACK then scanStack ms dm obj st
         else if t \<le> CHI_LAST_IMMUTABLE then scanImmutableObject ms dm obj st
         else st)"

fun scan :: "ChiMarkState \<Rightarrow> (nat \<Rightarrow> bool) \<Rightarrow> nat \<Rightarrow> u64 \<Rightarrow> mark_state \<Rightarrow> mark_state" where
  "scan ms timer 0 c st = scanObject ms (doMark ms timer 0 (\<lambda>_ st. st)) c st"
| "scan ms timer (Suc depth) c st = scanObject ms (doMark ms timer (Suc depth) (scan ms timer depth)) c st"

text \<open>The slice ends when the timer fires or the vector is empty.\<close>

partial_function (option) mark_slice :: "ChiMarkState \<Rightarrow> (nat \<Rightarrow> bool) \<Rightarrow> nat \<Rightarrow> mark_state \<Rightarrow> mark_state option" where
  "mark_slice ms timer depth st =
     (case chiTimeoutTick timer st of
        (go, st) \<Rightarrow>
          if \<not> go then Some st
          else
            (case mgray st of
               [] \<Rightarrow> Some st
             | c # g \<Rightarrow> mark_slice ms timer depth (scan ms timer depth c (st\<lparr> mgray := g \<rparr>))))"

definition chiMarkSlice :: "(nat \<Rightarrow> bool) \<Rightarrow> u64 list \<times> bool \<Rightarrow> nat \<Rightarrow> ChiMarkState \<Rightarrow> objects \<Rightarrow> ((u64 list \<times> bool) \<times> objects) option" where
  "chiMarkSlice timer g depth ms h =
     map_option (\<lambda>st. ((mgray st, mgray st = []), mobjs st)) (mark_slice ms timer depth \<lparr> mobjs = h, mgray = fst g, mtick = 0 \<rparr>)"

section \<open>The graph of the objects\<close>

text \<open>\<open>ty\<close> gives the type of the object at an address; references agree with it and are not poisoned.\<close>

definition scanned :: "nat \<Rightarrow> nat \<Rightarrow> u64 list \<Rightarrow> nat list" where
  "scanned t a p =
     (if t = CHI_ARRAY_SMALL \<or> t = CHI_ARRAY_LARGE then [0 ..< length p]
      else if t = CHI_THUNK then 1 # [2 ..< length p]
      else if t = CHI_STRINGBUILDER then [2]
      else if t = CHI_THREAD then [1, 2]
      else if t = CHI_STACK then stack_slots a p
      else if t \<le> CHI_LAST_IMMUTABLE then [0 ..< length p]
      else [])"

definition target :: "u64 \<Rightarrow> nat set" where
  "target c = (if chiRefMajor c then {chiObjectUnchecked c} else {})"

definition refs :: "(nat \<Rightarrow> nat) \<Rightarrow> objects \<Rightarrow> nat \<Rightarrow> nat set" where
  "refs ty h a = (\<Union>i \<in> set (scanned (ty a) a (payload (h a))). target (payload (h a) ! i))"

definition edge :: "(nat \<Rightarrow> nat) \<Rightarrow> objects \<Rightarrow> nat \<Rightarrow> nat \<Rightarrow> bool" where
  "edge ty h a b \<longleftrightarrow> b \<in> refs ty h a"

definition typed :: "(nat \<Rightarrow> nat) \<Rightarrow> u64 \<Rightarrow> bool" where
  "typed ty c \<longleftrightarrow> (chiRefMajor c \<longrightarrow> ty (chiObjectUnchecked c) = chiType c \<and> chiType c \<noteq> CHI_POISON_TAG)"

definition object_ok :: "(nat \<Rightarrow> nat) \<Rightarrow> nat \<Rightarrow> gc_object \<Rightarrow> bool" where
  "object_ok ty a b \<longleftrightarrow> (\<forall>i \<in> set (scanned (ty a) a (payload b)). i < length (payload b) \<and> typed ty (payload b ! i))"

definition heap_ok :: "(nat \<Rightarrow> nat) \<Rightarrow> objects \<Rightarrow> bool" where
  "heap_ok ty h \<longleftrightarrow> (\<forall>a. object_ok ty a (h a))"

definition colors_ok :: "ChiMarkState \<Rightarrow> bool" where
  "colors_ok ms \<longleftrightarrow> white ms \<noteq> gray ms \<and> white ms \<noteq> black ms \<and> gray ms \<noteq> black ms"

definition locks_ok :: "ChiMarkState \<Rightarrow> objects \<Rightarrow> bool" where
  "locks_ok ms h \<longleftrightarrow> (\<forall>a. olock (h a) \<longrightarrow> ocolor (h a) = black ms)"

definition gray_ref :: "ChiMarkState \<Rightarrow> (nat \<Rightarrow> nat) \<Rightarrow> u64 \<Rightarrow> mark_state \<Rightarrow> bool" where
  "gray_ref ms ty c st \<longleftrightarrow> chiRefMajor c \<and> \<not> chiRaw (chiType c) \<and> typed ty c \<and> ocolor (mobjs st (chiObjectUnchecked c)) \<noteq> white ms"

text \<open>All gray objects are in the vector, but for those in \<open>X\<close>, and no white object is.\<close>

definition gray_ok :: "ChiMarkState \<Rightarrow> (nat \<Rightarrow> nat) \<Rightarrow> nat set \<Rightarrow> mark_state \<Rightarrow> bool" where
  "gray_ok ms ty X st \<longleftrightarrow> (\<forall>c \<in> set (mgray st). gray_ref ms ty c st) \<and>
     (\<forall>a. ocolor (mobjs st a) = gray ms \<longrightarrow> a \<in> X \<or> a \<in> chiObjectUnchecked ` set (mgray st))"

text \<open>A white object is due if a path of white objects leads to it from a gray object or from \<open>S\<close>.\<close>

inductive due :: "ChiMarkState \<Rightarrow> (nat \<Rightarrow> nat) \<Rightarrow> nat set \<Rightarrow> objects \<Rightarrow> nat \<Rightarrow> bool" for ms ty S h where
  start: "a \<in> S \<Longrightarrow> ocolor (h a) = white ms \<Longrightarrow> due ms ty S h a"
| from_gray: "ocolor (h g) = gray ms \<Longrightarrow> edge ty h g a \<Longrightarrow> ocolor (h a) = white ms \<Longrightarrow> due ms ty S h a"
| step: "due ms ty S h b \<Longrightarrow> edge ty h b a \<Longrightarrow> ocolor (h a) = white ms \<Longrightarrow> due ms ty S h a"

definition covered :: "ChiMarkState \<Rightarrow> (nat \<Rightarrow> nat) \<Rightarrow> nat set \<Rightarrow> nat set \<Rightarrow> objects \<Rightarrow> bool" where
  "covered ms ty L S h \<longleftrightarrow> (\<forall>a \<in> L. ocolor (h a) = white ms \<longrightarrow> due ms ty S h a)"

lemma due_white: "due ms ty S h a \<Longrightarrow> ocolor (h a) = white ms"
  by (cases rule: due.cases) auto

lemma due_mono: "due ms ty S h a \<Longrightarrow> S \<subseteq> T \<Longrightarrow> due ms ty T h a"
  by (induction rule: due.induct) (auto intro: due.intros)

lemma covered_mono: "covered ms ty L S h \<Longrightarrow> S \<subseteq> T \<Longrightarrow> covered ms ty L T h"
  by (auto simp: covered_def intro: due_mono)

text \<open>What a step may do to the white paths.\<close>

lemma due_transfer:
  assumes w: "\<And>a. ocolor (h' a) = white ms \<Longrightarrow> ocolor (h a) = white ms"
    and s: "\<And>a. a \<in> S \<Longrightarrow> ocolor (h' a) = white ms \<Longrightarrow> due ms ty S' h' a"
    and g: "\<And>b a. ocolor (h b) = gray ms \<or> ocolor (h b) = white ms \<and> ocolor (h' b) \<noteq> white ms \<Longrightarrow> edge ty h b a \<Longrightarrow>
      ocolor (h' a) = white ms \<Longrightarrow> due ms ty S' h' a"
    and e: "\<And>b a. ocolor (h' b) = white ms \<Longrightarrow> edge ty h b a \<Longrightarrow> ocolor (h' a) = white ms \<Longrightarrow> due ms ty S' h' b \<Longrightarrow> due ms ty S' h' a"
    and "due ms ty S h a" "ocolor (h' a) = white ms"
  shows "due ms ty S' h' a"
  using assms(5,6)
proof (induction rule: due.induct)
  case (step b a)
  show ?case
  proof (cases "ocolor (h' b) = white ms")
    case True
    then show ?thesis using e [OF True step.hyps(2) step.prems] step.IH by blast
  next
    case False
    then show ?thesis using g [OF _ step.hyps(2) step.prems] due_white [OF step.hyps(1)] by blast
  qed
qed (use s g in blast)+

lemma covered_transfer:
  assumes "covered ms ty L S h" "\<And>a. ocolor (h' a) = white ms \<Longrightarrow> ocolor (h a) = white ms"
    and "\<And>a. a \<in> S \<Longrightarrow> ocolor (h' a) = white ms \<Longrightarrow> due ms ty S' h' a"
    and "\<And>b a. ocolor (h b) = gray ms \<or> ocolor (h b) = white ms \<and> ocolor (h' b) \<noteq> white ms \<Longrightarrow> edge ty h b a \<Longrightarrow>
      ocolor (h' a) = white ms \<Longrightarrow> due ms ty S' h' a"
    and "\<And>b a. ocolor (h' b) = white ms \<Longrightarrow> edge ty h b a \<Longrightarrow> ocolor (h' a) = white ms \<Longrightarrow> due ms ty S' h' b \<Longrightarrow> due ms ty S' h' a"
  shows "covered ms ty L S' h'"
  unfolding covered_def
proof (intro ballI impI)
  fix a assume a: "a \<in> L" "ocolor (h' a) = white ms"
  then have "due ms ty S h a" using assms(1,2) by (simp add: covered_def)
  from due_transfer [where h = h and h' = h' and ms = ms and ty = ty and S = S and S' = S', OF assms(2-5) this a(2)]
  show "due ms ty S' h' a" .
qed

section \<open>The primitive steps of the marker\<close>

text \<open>What marking never does: it never whitens, touches black objects outside \<open>A\<close> or locks, and leads nowhere new.\<close>

definition keeps :: "ChiMarkState \<Rightarrow> (nat \<Rightarrow> nat) \<Rightarrow> nat set \<Rightarrow> objects \<Rightarrow> objects \<Rightarrow> bool" where
  "keeps ms ty A h h' \<longleftrightarrow> (\<forall>a. ocolor (h' a) = white ms \<longrightarrow> ocolor (h a) = white ms) \<and>
     (\<forall>a. ocolor (h a) = black ms \<longrightarrow> ocolor (h' a) = black ms) \<and>
     (\<forall>a. ocolor (h a) = black ms \<longrightarrow> a \<notin> A \<longrightarrow> h' a = h a) \<and>
     (\<forall>a. olock (h' a) = olock (h a) \<and> length (payload (h' a)) = length (payload (h a))) \<and>
     (\<forall>a. ocolor (h' a) = ocolor (h a) \<or> ocolor (h' a) = gray ms \<or> ocolor (h' a) = black ms) \<and>
     (heap_ok ty h \<longrightarrow> heap_ok ty h' \<and> (\<forall>a b. edge ty h' a b \<longrightarrow> (edge ty h)\<^sup>+\<^sup>+ a b))"

lemma keepsD:
  assumes "keeps ms ty A h h'"
  shows "\<And>a. ocolor (h' a) = white ms \<Longrightarrow> ocolor (h a) = white ms" "\<And>a. ocolor (h a) = black ms \<Longrightarrow> ocolor (h' a) = black ms"
    "\<And>a. ocolor (h a) = black ms \<Longrightarrow> a \<notin> A \<Longrightarrow> h' a = h a" "\<And>a. olock (h' a) = olock (h a)"
    "\<And>a. length (payload (h' a)) = length (payload (h a))" "heap_ok ty h \<Longrightarrow> heap_ok ty h'"
    "\<And>a b. heap_ok ty h \<Longrightarrow> edge ty h' a b \<Longrightarrow> (edge ty h)\<^sup>+\<^sup>+ a b"
    "\<And>a. ocolor (h' a) = ocolor (h a) \<or> ocolor (h' a) = gray ms \<or> ocolor (h' a) = black ms"
  using assms unfolding keeps_def by blast+

lemma keeps_refl: "keeps ms ty A h h"
  by (auto simp: keeps_def)

lemma edge_path:
  assumes "\<And>a b. edge ty h' a b \<Longrightarrow> (edge ty h)\<^sup>+\<^sup>+ a b" "(edge ty h')\<^sup>+\<^sup>+ a b"
  shows "(edge ty h)\<^sup>+\<^sup>+ a b"
  using assms(2) by (induction rule: tranclp_induct) (auto intro: assms(1) tranclp_trans)

lemma keeps_trans:
  assumes "keeps ms ty A h h'" "keeps ms ty A h' h''"
  shows "keeps ms ty A h h''"
proof -
  have "heap_ok ty h'' \<and> (\<forall>a b. edge ty h'' a b \<longrightarrow> (edge ty h)\<^sup>+\<^sup>+ a b)" if h: "heap_ok ty h"
  proof -
    have h': "heap_ok ty h'" using keepsD(6) [OF assms(1) h] .
    have "(edge ty h)\<^sup>+\<^sup>+ a b" if "edge ty h'' a b" for a b
      by (rule edge_path [where h' = h']) (use keepsD(7) [OF assms(1) h] keepsD(7) [OF assms(2) h' that] in blast)+
    then show ?thesis using keepsD(6) [OF assms(2) h'] by blast
  qed
  moreover have "\<forall>a. ocolor (h a) = black ms \<longrightarrow> a \<notin> A \<longrightarrow> h'' a = h a"
    using keepsD(2,3) [OF assms(1)] keepsD(3) [OF assms(2)] by auto
  moreover have "\<forall>a. ocolor (h'' a) = white ms \<longrightarrow> ocolor (h a) = white ms"
    using keepsD(1) [OF assms(1)] keepsD(1) [OF assms(2)] by blast
  moreover have "\<forall>a. ocolor (h a) = black ms \<longrightarrow> ocolor (h'' a) = black ms"
    using keepsD(2) [OF assms(1)] keepsD(2) [OF assms(2)] by blast
  moreover have "\<forall>a. olock (h'' a) = olock (h a) \<and> length (payload (h'' a)) = length (payload (h a))"
    using keepsD(4,5) [OF assms(1)] keepsD(4,5) [OF assms(2)] by simp
  moreover have "\<forall>a. ocolor (h'' a) = ocolor (h a) \<or> ocolor (h'' a) = gray ms \<or> ocolor (h'' a) = black ms"
    using keepsD(8) [OF assms(1)] keepsD(8) [OF assms(2)] by metis
  ultimately show ?thesis unfolding keeps_def by blast
qed

lemma keeps_mono: "keeps ms ty A h h' \<Longrightarrow> A \<subseteq> B \<Longrightarrow> keeps ms ty B h h'"
  unfolding keeps_def by blast

lemma keeps_locks: "keeps ms ty A h h' \<Longrightarrow> locks_ok ms h \<Longrightarrow> locks_ok ms h'"
  using keepsD(2,4) unfolding locks_ok_def by blast

lemma setColor_simps [simp]:
  "mobjs (setColor a c st) = (mobjs st)(a := (mobjs st a)\<lparr>ocolor := c\<rparr>)" "mgray (setColor a c st) = mgray st"
  by (simp_all add: setColor_def chiObjectSetColor_def)

lemma setField_simps [simp]:
  "mobjs (setField a i v st) = (mobjs st)(a := (mobjs st a)\<lparr>payload := (payload (mobjs st a))[i := v]\<rparr>)"
  "mgray (setField a i v st) = mgray st"
  by (simp_all add: setField_def)

lemma pushGray_simps [simp]: "mobjs (pushGray c st) = mobjs st" "mgray (pushGray c st) = c # mgray st"
  by (simp_all add: pushGray_def)

lemma color_heap [simp]: "heap_ok ty (h(a := (h a)\<lparr>ocolor := c\<rparr>)) = heap_ok ty h" "edge ty (h(a := (h a)\<lparr>ocolor := c\<rparr>)) = edge ty h"
proof -
  show "edge ty (h(a := (h a)\<lparr>ocolor := c\<rparr>)) = edge ty h" by (intro ext) (simp add: edge_def refs_def)
  have "object_ok ty a ((h a)\<lparr>ocolor := c\<rparr>) = object_ok ty a (h a)" by (simp add: object_ok_def)
  then show "heap_ok ty (h(a := (h a)\<lparr>ocolor := c\<rparr>)) = heap_ok ty h" by (auto simp: heap_ok_def)
qed

lemma keeps_color:
  "ocolor (h a) \<noteq> black ms \<or> c = black ms \<Longrightarrow> c = gray ms \<or> c = black ms \<Longrightarrow> c \<noteq> white ms \<Longrightarrow> keeps ms ty A h (h(a := (h a)\<lparr>ocolor := c\<rparr>))"
  by (auto simp: keeps_def intro: tranclp.r_into_trancl)

text \<open>Graying: \<open>a\<close> is not due any more, what it refers to is due from it.\<close>

lemma covered_gray:
  assumes "covered ms ty L (insert a S) h" "colors_ok ms"
  shows "covered ms ty L S (h(a := (h a)\<lparr>ocolor := gray ms\<rparr>))"
  by (rule covered_transfer [OF assms(1)])
    (use assms(2) in \<open>auto simp: colors_ok_def intro: due.intros split: if_splits\<close>)

text \<open>Blackening: what it refers to becomes due.\<close>

lemma covered_black:
  assumes "covered ms ty L S h" "colors_ok ms"
  shows "covered ms ty L (S \<union> refs ty h a) (h(a := (h a)\<lparr>ocolor := black ms\<rparr>))"
  by (rule covered_transfer [OF assms(1)])
    (use assms(2) in \<open>auto simp: colors_ok_def edge_def [symmetric] intro: due.intros split: if_splits\<close>)

lemma scanned_update: "i \<in> set (scanned t a p) \<Longrightarrow> scanned t a (p[i := v]) = scanned t a p"
  by (auto simp: scanned_def stack_slots_def split: if_splits)

lemma object_update:
  assumes "i \<in> set (scanned (ty a) a (payload b))" "typed ty v" "object_ok ty a b"
  shows "object_ok ty a (b\<lparr>payload := (payload b)[i := v]\<rparr>)"
  using assms by (auto simp: object_ok_def scanned_update nth_list_update)

lemma refs_update:
  assumes "i \<in> set (scanned (ty a) a (payload (h a)))"
  shows "refs ty (h(a := (h a)\<lparr>payload := (payload (h a))[i := v]\<rparr>)) a \<subseteq> target v \<union> refs ty h a"
proof -
  have "(payload (h a))[i := v] ! j = v \<or> (payload (h a))[i := v] ! j = payload (h a) ! j" for j
    by (cases "j = i"; cases "i < length (payload (h a))") (simp_all add: not_less list_update_beyond)
  then have j: "target ((payload (h a))[i := v] ! j) \<subseteq> target v \<union> target (payload (h a) ! j)" for j
    by (metis Un_upper1 Un_upper2)
  show ?thesis
  proof
    fix b assume "b \<in> refs ty (h(a := (h a)\<lparr>payload := (payload (h a))[i := v]\<rparr>)) a"
    then have "b \<in> (\<Union>j \<in> set (scanned (ty a) a (payload (h a))). target ((payload (h a))[i := v] ! j))"
      by (simp add: refs_def scanned_update [OF assms])
    then show "b \<in> target v \<union> refs ty h a" using j by (auto simp: refs_def)
  qed
qed

lemma refs_other: "b \<noteq> a \<Longrightarrow> refs ty (h(a := x)) b = refs ty h b"
  by (simp add: refs_def)

lemma keeps_field:
  assumes i: "i \<in> set (scanned (ty a) a (payload (h a)))" and v: "typed ty v" "\<forall>b \<in> target v. (edge ty h)\<^sup>+\<^sup>+ a b"
    and a: "ocolor (h a) = black ms" "a \<in> A"
  shows "keeps ms ty A h (h(a := (h a)\<lparr>payload := (payload (h a))[i := v]\<rparr>))" (is "keeps ms ty A h ?h")
proof -
  have "heap_ok ty ?h" if "heap_ok ty h"
    using that object_update [where ty = ty and a = a and b = "h a", OF i v(1)] by (auto simp: heap_ok_def)
  moreover have "(edge ty h)\<^sup>+\<^sup>+ c b" if e: "edge ty ?h c b" for c b
  proof (cases "c = a")
    case True
    then have "b \<in> target v \<or> edge ty h a b" using e refs_update [where ty = ty and h = h, OF i, of v] by (auto simp: edge_def)
    then show ?thesis using v(2) True by (auto intro: tranclp.r_into_trancl)
  next
    case False
    then show ?thesis using e by (auto simp: edge_def refs_other intro: tranclp.r_into_trancl)
  qed
  ultimately show ?thesis using a unfolding keeps_def by simp
qed

lemma covered_field:
  assumes "covered ms ty L S h" "colors_ok ms" "ocolor (h a) = black ms" "ocolor b = black ms"
  shows "covered ms ty L S (h(a := b))"
  by (rule covered_transfer [OF assms(1)])
    (use assms(2-4) in \<open>auto simp: colors_ok_def edge_def refs_other intro: due.intros(1) due.intros(2,3) [unfolded edge_def] split: if_splits\<close>)

section \<open>Marking preserves what is due\<close>

text \<open>\<open>T\<close> is what the step takes care of: it is due before and not after.\<close>

definition marks :: "ChiMarkState \<Rightarrow> (nat \<Rightarrow> nat) \<Rightarrow> nat set \<Rightarrow> nat set \<Rightarrow> mark_state \<Rightarrow> mark_state \<Rightarrow> bool" where
  "marks ms ty A T st st' \<longleftrightarrow> keeps ms ty A (mobjs st) (mobjs st') \<and>
     (\<forall>L S. covered ms ty L (T \<union> S) (mobjs st) \<longrightarrow> covered ms ty L S (mobjs st')) \<and>
     (\<forall>X. gray_ok ms ty X st \<longrightarrow> gray_ok ms ty X st')"

definition scans :: "ChiMarkState \<Rightarrow> (nat \<Rightarrow> nat) \<Rightarrow> nat \<Rightarrow> mark_state \<Rightarrow> mark_state \<Rightarrow> bool" where
  "scans ms ty a st st' \<longleftrightarrow> keeps ms ty {} (mobjs st) (mobjs st') \<and>
     (\<forall>L S. covered ms ty L S (mobjs st) \<longrightarrow> covered ms ty L S (mobjs st')) \<and>
     (\<forall>X. gray_ok ms ty (insert a X) st \<longrightarrow> gray_ok ms ty X st')"

definition mark_ok :: "ChiMarkState \<Rightarrow> (nat \<Rightarrow> nat) \<Rightarrow> mark_state \<Rightarrow> bool" where
  "mark_ok ms ty st \<longleftrightarrow> colors_ok ms \<and> heap_ok ty (mobjs st) \<and> locks_ok ms (mobjs st)"

definition scanner_ok :: "ChiMarkState \<Rightarrow> (nat \<Rightarrow> nat) \<Rightarrow> (u64 \<Rightarrow> mark_state \<Rightarrow> mark_state) \<Rightarrow> bool" where
  "scanner_ok ms ty f \<longleftrightarrow> (\<forall>c st. mark_ok ms ty st \<longrightarrow> gray_ref ms ty c st \<longrightarrow> scans ms ty (chiObjectUnchecked c) st (f c st))"

lemma marks_refl: "marks ms ty A {} st st"
  by (simp add: marks_def keeps_refl)

lemma marks_trans:
  assumes "marks ms ty A T st st'" "marks ms ty A U st' st''"
  shows "marks ms ty A (T \<union> U) st st''"
  using assms keeps_trans unfolding marks_def by (metis Un_assoc)

lemma marks_mono: "marks ms ty A T st st' \<Longrightarrow> A \<subseteq> B \<Longrightarrow> marks ms ty B T st st'"
  using keeps_mono unfolding marks_def by blast

lemma marks_ok: "marks ms ty A T st st' \<Longrightarrow> mark_ok ms ty st \<Longrightarrow> mark_ok ms ty st'"
  using keeps_locks keepsD(6) unfolding marks_def mark_ok_def by metis

lemma mobjs_tick [simp]: "mobjs (st\<lparr>mtick := n\<rparr>) = mobjs st" "gray_ok ms ty X (st\<lparr>mtick := n\<rparr>) = gray_ok ms ty X st"
  by (simp_all add: gray_ok_def gray_ref_def)

lemma target_raw: "chiRaw (ty a) \<Longrightarrow> refs ty h a = {}"
  by (auto simp: refs_def scanned_def chiRaw_def CHI_FIRST_RAW_def CHI_POISON_TAG_def CHI_STACK_def CHI_THREAD_def CHI_LAST_MUTABLE_def
      CHI_THUNK_def CHI_ARRAY_LARGE_def CHI_ARRAY_SMALL_def CHI_STRINGBUILDER_def CHI_FIRST_MUTABLE_def)

lemma gray_push:
  assumes "gray_ok ms ty (insert (chiObjectUnchecked c) X) st" "gray_ref ms ty c st"
  shows "gray_ok ms ty X (pushGray c st)"
  using assms by (auto simp: gray_ok_def gray_ref_def)

lemma gray_color:
  assumes "gray_ok ms ty X st" "x = gray ms \<longrightarrow> a \<in> Y" "X \<subseteq> Y" "x \<noteq> white ms"
  shows "gray_ok ms ty Y (setColor a x st)"
  using assms by (auto simp: gray_ok_def gray_ref_def split: if_splits)

lemma mark_white:
  assumes ok: "mark_ok ms ty st" and c: "chiRefMajor c" "\<not> chiRaw (chiType c)" "typed ty c"
    and sc: "depth > 0 \<Longrightarrow> scanner_ok ms ty f"
    and wh: "ocolor (mobjs st (chiObjectUnchecked c)) = white ms"
  defines "st1 \<equiv> setColor (chiObjectUnchecked c) (gray ms) st"
  shows "marks ms ty {} (target c) st
    (if r \<and> depth > 0 then (case chiTimeoutTick timer st1 of (True, st) \<Rightarrow> f c st | (False, st) \<Rightarrow> pushGray c st) else pushGray c st1)"
proof -
  let ?a = "chiObjectUnchecked c"
  have cok: "colors_ok ms" using ok by (simp add: mark_ok_def)
  have k: "keeps ms ty {} (mobjs st) (mobjs st1)"
    unfolding st1_def setColor_simps by (rule keeps_color) (use wh cok in \<open>auto simp: colors_ok_def\<close>)
  have cv: "covered ms ty L S (mobjs st1)" if "covered ms ty L (target c \<union> S) (mobjs st)" for L S
    using covered_gray [OF _ cok, where a = ?a] that c(1) by (simp add: st1_def target_def)
  have g: "gray_ok ms ty (insert ?a X) st1" if "gray_ok ms ty X st" for X
    unfolding st1_def by (rule gray_color [OF that]) (use cok in \<open>auto simp: colors_ok_def\<close>)
  have push: "marks ms ty {} (target c) st (pushGray c (st1\<lparr>mtick := n\<rparr>))" "marks ms ty {} (target c) st (pushGray c st1)" for n
  proof -
    have r: "gray_ref ms ty c st1" "gray_ref ms ty c (st1\<lparr>mtick := n\<rparr>)"
      using c cok by (auto simp: gray_ref_def st1_def colors_ok_def)
    show "marks ms ty {} (target c) st (pushGray c st1)"
      unfolding marks_def using k cv gray_push [OF g r(1)] by simp
    show "marks ms ty {} (target c) st (pushGray c (st1\<lparr>mtick := n\<rparr>))"
      unfolding marks_def using k cv gray_push [OF _ r(2)] g by simp
  qed
  show ?thesis
  proof (cases "r \<and> depth > 0 \<and> timer (mtick st1)")
    case True
    let ?s = "st1\<lparr>mtick := mtick st1 + 1\<rparr>"
    have "mark_ok ms ty ?s" using ok k keeps_locks keepsD(6) by (fastforce simp: mark_ok_def)
    moreover have "gray_ref ms ty c ?s" using c cok by (auto simp: gray_ref_def st1_def colors_ok_def)
    ultimately have S: "scans ms ty ?a ?s (f c ?s)" using sc True unfolding scanner_ok_def by blast
    have "keeps ms ty {} (mobjs st) (mobjs (f c ?s))" using keeps_trans [OF k] S unfolding scans_def by simp
    moreover have "covered ms ty L S' (mobjs (f c ?s))" if "covered ms ty L (target c \<union> S') (mobjs st)" for L S'
      using S cv [OF that] unfolding scans_def by simp
    moreover have "gray_ok ms ty X (f c ?s)" if "gray_ok ms ty X st" for X using S g [OF that] unfolding scans_def by simp
    ultimately have "marks ms ty {} (target c) st (f c ?s)" unfolding marks_def by blast
    then show ?thesis using True by (simp add: chiTimeoutTick_def)
  next
    case False
    then show ?thesis using push by (auto simp: chiTimeoutTick_def)
  qed
qed

lemma marks_already:
  assumes "colors_ok ms" "ocolor (mobjs st (chiObjectUnchecked c)) \<noteq> white ms"
  shows "marks ms ty {} (target c) st st"
proof -
  have "covered ms ty L S (mobjs st)" if "covered ms ty L (target c \<union> S) (mobjs st)" for L S
    by (rule covered_transfer [OF that]) (use assms in \<open>auto simp: target_def intro: due.intros split: if_splits\<close>)
  then show ?thesis by (simp add: marks_def keeps_refl)
qed

lemma marks_raw:
  assumes ok: "colors_ok ms" and c: "chiRefMajor c" "chiRaw (chiType c)" "typed ty c"
  shows "marks ms ty {} (target c) st (setColor (chiObjectUnchecked c) (black ms) st)"
proof -
  let ?a = "chiObjectUnchecked c"
  have "refs ty h ?a = {}" for h by (rule target_raw) (use c in \<open>simp add: typed_def\<close>)
  then have e: "\<not> edge ty h ?a b" for h b by (simp add: edge_def)
  have "covered ms ty L S ((mobjs st)(?a := (mobjs st ?a)\<lparr>ocolor := black ms\<rparr>))"
    if "covered ms ty L (target c \<union> S) (mobjs st)" for L S
    by (rule covered_transfer [OF that])
      (use ok e c(1) in \<open>auto simp: colors_ok_def target_def intro: due.intros split: if_splits\<close>)
  moreover have "keeps ms ty {} (mobjs st) ((mobjs st)(?a := (mobjs st ?a)\<lparr>ocolor := black ms\<rparr>))" (is "keeps _ _ _ ?h ?h'")
  proof -
    have "heap_ok ty ?h' = heap_ok ty ?h" "edge ty ?h' = edge ty ?h" by (rule color_heap)+
    then show ?thesis using ok by (auto simp: keeps_def colors_ok_def intro: tranclp.r_into_trancl)
  qed
  moreover have "gray_ok ms ty X (setColor ?a (black ms) st)" if "gray_ok ms ty X st" for X
    by (rule gray_color [OF that]) (use ok in \<open>auto simp: colors_ok_def\<close>)
  ultimately show ?thesis by (simp add: marks_def)
qed

lemma thunk_refType: "chiRefMajor v \<Longrightarrow> chiType v = CHI_THUNK \<Longrightarrow> chiRefType v CHI_THUNK"
  by (subst refType_iff) (simp_all add: refMajor_iff chili_types)

lemma doMark_ok:
  assumes ok: "mark_ok ms ty st" and c: "typed ty c" and sc: "depth > 0 \<Longrightarrow> scanner_ok ms ty f"
    and r: "doMark ms timer depth f flags c st = (res, st')"
  shows "marks ms ty {} (target c) st st'"
    "res = Some v \<Longrightarrow> typed ty v \<and> \<not> chiRefType v CHI_THUNK \<and> chiRefMajor c \<and> chiType c = CHI_THUNK \<and>
      (\<forall>b \<in> target v. edge ty (mobjs st') (chiObjectUnchecked c) b)"
proof -
  let ?a = "chiObjectUnchecked c"
  let ?s = "if ocolor (mobjs st ?a) = white ms then
      (if flags \<noteq> MARK_DEFAULT \<and> depth > 0
       then (case chiTimeoutTick timer (setColor ?a (gray ms) st) of (True, st) \<Rightarrow> f c st | (False, st) \<Rightarrow> pushGray c st)
       else pushGray c (setColor ?a (gray ms) st)) else st"
  have cok: "colors_ok ms" using ok by (simp add: mark_ok_def)
  have norm: "marks ms ty {} (target c) st ?s" if "chiRefMajor c" "\<not> chiRaw (chiType c)"
    using mark_white [where r = "flags \<noteq> MARK_DEFAULT" and timer = timer and depth = depth, OF ok that c sc] marks_already [OF cok] by simp
  have D: "(res, st') =
      (if \<not> chiRefMajor c then (None, st)
       else if chiRaw (chiType c) then (None, setColor ?a (black ms) st)
       else if flags = MARK_RECURSE_COLLAPSE \<and> chiType c = CHI_THUNK then (thunkCollapsible (payload (mobjs ?s ?a)), ?s)
       else (None, ?s))"
    using r unfolding doMark_def Let_def by simp
  show m: "marks ms ty {} (target c) st st'"
  proof (cases "chiRefMajor c")
    case False
    then show ?thesis using D marks_refl by (simp add: target_def)
  next
    case True
    then show ?thesis using D norm marks_raw [OF cok True _ c] by (cases "chiRaw (chiType c)") (auto split: if_splits)
  qed
  assume "res = Some v"
  then have v: "chiRefMajor c" "chiType c = CHI_THUNK" "thunkCollapsible (payload (mobjs st' ?a)) = Some v"
    using D by (auto split: if_splits)
  have h': "heap_ok ty (mobjs st')" using marks_ok [OF m ok] by (simp add: mark_ok_def)
  have t: "ty ?a = CHI_THUNK" using c v(1,2) by (simp add: typed_def)
  have i: "1 \<in> set (scanned (ty ?a) ?a (payload (mobjs st' ?a)))"
    unfolding t by (simp add: scanned_def CHI_ARRAY_SMALL_def CHI_ARRAY_LARGE_def CHI_THUNK_def)
  have vv: "v = payload (mobjs st' ?a) ! 1" "\<not> chiRefType v CHI_THUNK" using v(3) by (auto simp: thunkCollapsible_def split: if_splits)
  have "typed ty v" using h' i vv(1) by (auto simp: heap_ok_def object_ok_def)
  moreover have "edge ty (mobjs st') ?a b" if "b \<in> target v" for b using that i vv(1) by (auto simp: edge_def refs_def)
  ultimately show "typed ty v \<and> \<not> chiRefType v CHI_THUNK \<and> chiRefMajor c \<and> chiType c = CHI_THUNK \<and>
      (\<forall>b \<in> target v. edge ty (mobjs st') ?a b)" using v vv(2) by blast
qed

text \<open>The step of a slot, whatever the marking: what the scan of an object is made of.\<close>

definition marker_ok :: "ChiMarkState \<Rightarrow> (nat \<Rightarrow> nat) \<Rightarrow> (u64 \<Rightarrow> mark_state \<Rightarrow> u64 option \<times> mark_state) \<Rightarrow> bool" where
  "marker_ok ms ty dm \<longleftrightarrow> (\<forall>c st res st'. mark_ok ms ty st \<longrightarrow> typed ty c \<longrightarrow> dm c st = (res, st') \<longrightarrow>
     marks ms ty {} (target c) st st' \<and>
     (\<forall>v. res = Some v \<longrightarrow> typed ty v \<and> \<not> chiRefType v CHI_THUNK \<and> chiRefMajor c \<and> chiType c = CHI_THUNK \<and>
       (\<forall>b \<in> target v. edge ty (mobjs st') (chiObjectUnchecked c) b)))"

lemma doMark_marker: "(depth > 0 \<Longrightarrow> scanner_ok ms ty f) \<Longrightarrow> marker_ok ms ty (doMark ms timer depth f flags)"
  unfolding marker_ok_def by (blast dest: doMark_ok)

lemma marks_field:
  assumes ok: "mark_ok ms ty st" and i: "i \<in> set (scanned (ty a) a (payload (mobjs st a)))" and b: "ocolor (mobjs st a) = black ms"
    and v: "typed ty v" "\<forall>b \<in> target v. (edge ty (mobjs st))\<^sup>+\<^sup>+ a b"
  shows "marks ms ty {a} {} st (setField a i v st)"
proof -
  have "gray_ok ms ty X (setField a i v st)" if "gray_ok ms ty X st" for X
    using that by (auto simp: gray_ok_def gray_ref_def split: if_splits)
  moreover have "covered ms ty L S (mobjs (setField a i v st))" if "covered ms ty L S (mobjs st)" for L S
    unfolding setField_simps by (rule covered_field [OF that]) (use ok b in \<open>simp_all add: mark_ok_def\<close>)
  ultimately show ?thesis
    using keeps_field [where ty = ty and h = "mobjs st" and A = "{a}", OF i v b] by (simp add: marks_def)
qed

lemma mark_loop_ok:
  fixes atomic
  assumes D: "marker_ok ms ty dm" and ok: "mark_ok ms ty st" and i: "i \<in> set (scanned (ty a) a (payload (mobjs st a)))"
    and b: "ocolor (mobjs st a) = black ms"
  defines "st' \<equiv> mark_loop 2 dm atomic a i st"
  shows "marks ms ty {a} (target (payload (mobjs st a) ! i)) st st'"
    "\<forall>j. j \<noteq> i \<longrightarrow> payload (mobjs st' a) ! j = payload (mobjs st a) ! j"
    "scanned (ty a) a (payload (mobjs st' a)) = scanned (ty a) a (payload (mobjs st a))" "ocolor (mobjs st' a) = black ms"
proof -
  let ?c = "payload (mobjs st a) ! i"
  have il: "i < length (payload (mobjs st a))" "typed ty ?c" using ok i by (auto simp: mark_ok_def heap_ok_def object_ok_def)
  obtain r1 st1 where 1: "dm ?c st = (r1, st1)" by fastforce
  note d1 = D [unfolded marker_ok_def, rule_format, OF ok il(2) 1]
  have m1: "marks ms ty {} (target ?c) st st1" using d1 by blast
  have ok1: "mark_ok ms ty st1" by (rule marks_ok [OF m1 ok])
  have a1: "mobjs st1 a = mobjs st a" using m1 b keepsD(3) unfolding marks_def by blast
  have m1a: "marks ms ty {a} (target ?c) st st1" by (rule marks_mono [OF m1]) simp
  have "marks ms ty {a} (target ?c) st st' \<and> (\<forall>j. j \<noteq> i \<longrightarrow> payload (mobjs st' a) ! j = payload (mobjs st a) ! j) \<and>
    scanned (ty a) a (payload (mobjs st' a)) = scanned (ty a) a (payload (mobjs st a)) \<and> ocolor (mobjs st' a) = black ms"
  proof (cases r1)
    case None
    then have "st' = st1" by (simp add: st'_def numeral_2_eq_2 1)
    then show ?thesis using m1a a1 b by simp
  next
    case (Some v)
    have v: "typed ty v" "\<not> chiRefType v CHI_THUNK" "chiRefMajor ?c" "\<forall>b \<in> target v. edge ty (mobjs st1) (chiObjectUnchecked ?c) b"
      using d1 Some by blast+
    let ?s = "setField a i v st1"
    have s1: "marks ms ty {a} {} st1 ?s"
    proof (rule marks_field [OF ok1])
      have "edge ty (mobjs st1) a (chiObjectUnchecked ?c)" using i v(3) a1 by (auto simp: edge_def refs_def target_def)
      then show "\<forall>b \<in> target v. (edge ty (mobjs st1))\<^sup>+\<^sup>+ a b" using v(4) by (meson tranclp.intros)
    qed (use i a1 b v in simp_all)
    obtain r2 st2 where 2: "dm v ?s = (r2, st2)" by fastforce
    have ok2: "mark_ok ms ty ?s" by (rule marks_ok [OF s1 ok1])
    note d2 = D [unfolded marker_ok_def, rule_format, OF ok2 v(1) 2]
    have m2: "marks ms ty {} (target v) ?s st2" using d2 by blast
    have "r2 = None" using d2 v(2) thunk_refType by (cases r2) blast+
    then have s': "st' = st2" using il(1) by (simp add: st'_def numeral_2_eq_2 1 Some a1 2)
    have a2: "mobjs st2 a = mobjs ?s a" using m2 b a1 keepsD(3) [of ms ty "{}" "mobjs ?s" "mobjs st2" a] unfolding marks_def by simp
    have cv: "covered ms ty L S (mobjs st2)" if "covered ms ty L (target ?c \<union> S) (mobjs st)" for L S
    proof -
      have "covered ms ty L S (mobjs st1)" using m1 that unfolding marks_def by blast
      then have "covered ms ty L S (mobjs ?s)" using s1 unfolding marks_def by simp
      then have "covered ms ty L (target v \<union> S) (mobjs ?s)" by (rule covered_mono) simp
      then show ?thesis using m2 unfolding marks_def by blast
    qed
    have "marks ms ty {a} (target ?c \<union> {} \<union> target v) st st2"
      using marks_trans [OF marks_trans [OF m1a s1] marks_mono [OF m2, of "{a}"]] by simp
    then have "marks ms ty {a} (target ?c) st st2" using cv unfolding marks_def by blast
    moreover have "payload (mobjs st2 a) = (payload (mobjs st a))[i := v]" "ocolor (mobjs st2 a) = black ms" using a2 a1 b by simp_all
    ultimately show ?thesis using s' i by (simp add: scanned_update)
  qed
  then show "marks ms ty {a} (target (payload (mobjs st a) ! i)) st st'"
    "\<forall>j. j \<noteq> i \<longrightarrow> payload (mobjs st' a) ! j = payload (mobjs st a) ! j"
    "scanned (ty a) a (payload (mobjs st' a)) = scanned (ty a) a (payload (mobjs st a))" "ocolor (mobjs st' a) = black ms" by blast+
qed

text \<open>Marking a list of slots takes care of what they refer to.\<close>

definition slots_target :: "nat list \<Rightarrow> u64 list \<Rightarrow> nat set" where
  "slots_target sl p = (\<Union>i \<in> set sl. target (p ! i))"

lemma mark_slots_ok:
  fixes atomic
  assumes D: "\<And>i. marker_ok ms ty (dm i)"
    and ok: "mark_ok ms ty st" and i: "set sl \<subseteq> set (scanned (ty a) a (payload (mobjs st a)))" "distinct sl"
    and b: "ocolor (mobjs st a) = black ms"
  defines "st' \<equiv> fold (\<lambda>i. mark_loop 2 (dm i) (atomic i) a i) sl st"
  shows "marks ms ty {a} (slots_target sl (payload (mobjs st a))) st st' \<and> ocolor (mobjs st' a) = black ms \<and>
    scanned (ty a) a (payload (mobjs st' a)) = scanned (ty a) a (payload (mobjs st a)) \<and>
    (\<forall>j. j \<notin> set sl \<longrightarrow> payload (mobjs st' a) ! j = payload (mobjs st a) ! j)"
  using ok i b unfolding st'_def
proof (induction sl arbitrary: st)
  case (Cons i js)
  let ?st1 = "mark_loop 2 (dm i) (atomic i) a i st"
  have i: "i \<in> set (scanned (ty a) a (payload (mobjs st a)))" using Cons.prems(2) by simp
  note M = mark_loop_ok [where dm = "dm i" and atomic = "atomic i", OF D Cons.prems(1) i Cons.prems(4)]
  have ok1: "mark_ok ms ty ?st1" by (rule marks_ok [OF M(1) Cons.prems(1)])
  have "slots_target js (payload (mobjs ?st1 a)) = slots_target js (payload (mobjs st a))"
    using M(2) Cons.prems(3) unfolding slots_target_def by (intro SUP_cong refl) (metis distinct.simps(2))
  moreover have "set js \<subseteq> set (scanned (ty a) a (payload (mobjs ?st1 a)))" "distinct js" using Cons.prems(2,3) M(3) by auto
  note IH = Cons.IH [OF ok1 this M(4)]
  ultimately show ?case
    using marks_trans [OF M(1)] IH M(2,3) by (auto simp: slots_target_def)
qed (simp add: slots_target_def marks_refl)

section \<open>Scanning an object\<close>

lemma scans_black:
  assumes "colors_ok ms" "ocolor (mobjs st a) = black ms"
  shows "scans ms ty a st st"
  using assms by (auto simp: scans_def keeps_refl gray_ok_def colors_ok_def)

lemma blacken:
  assumes "mark_ok ms ty st" "ocolor (mobjs st a) \<noteq> white ms" "ocolor (mobjs st a) \<noteq> black ms"
  defines "st1 \<equiv> setColor a (black ms) st"
  shows "mark_ok ms ty st1" "keeps ms ty {} (mobjs st) (mobjs st1)" "ocolor (mobjs st1 a) = black ms"
    "gray_ok ms ty (insert a X) st \<Longrightarrow> gray_ok ms ty X st1"
    "covered ms ty L S (mobjs st) \<Longrightarrow> covered ms ty L (refs ty (mobjs st) a \<union> S) (mobjs st1)"
proof -
  have c: "colors_ok ms" using assms(1) by (simp add: mark_ok_def)
  show k: "keeps ms ty {} (mobjs st) (mobjs st1)"
    unfolding st1_def setColor_simps by (rule keeps_color) (use c in \<open>auto simp: colors_ok_def\<close>)
  show "mark_ok ms ty st1" using assms(1) keeps_locks [OF k] keepsD(6) [OF k] by (simp add: mark_ok_def)
  show "ocolor (mobjs st1 a) = black ms" by (simp add: st1_def)
  show "gray_ok ms ty X st1" if "gray_ok ms ty (insert a X) st"
    using that c by (auto simp: gray_ok_def gray_ref_def st1_def colors_ok_def split: if_splits)
  show "covered ms ty L (refs ty (mobjs st) a \<union> S) (mobjs st1)" if "covered ms ty L S (mobjs st)"
    using covered_black [OF that c, of a] by (simp add: st1_def Un_commute)
qed

lemma keeps_close:
  assumes "keeps ms ty {a} h h'" "ocolor (h a) \<noteq> black ms"
  shows "keeps ms ty {} h h'"
proof -
  have "\<forall>b. ocolor (h b) = black ms \<longrightarrow> b \<notin> {} \<longrightarrow> h' b = h b" using keepsD(3) [OF assms(1)] assms(2) by (metis singletonD)
  then show ?thesis using assms(1) unfolding keeps_def by blast
qed

lemma scan_slots:
  fixes atomic
  assumes ok: "mark_ok ms ty st" and a: "ocolor (mobjs st a) \<noteq> white ms" "ocolor (mobjs st a) \<noteq> black ms"
    and D: "\<And>i. marker_ok ms ty (dm i)" and i: "set sl = set (scanned (ty a) a (payload (mobjs st a)))" "distinct sl"
  shows "scans ms ty a st (fold (\<lambda>i. mark_loop 2 (dm i) (atomic i) a i) sl (setColor a (black ms) st))"
proof -
  let ?st1 = "setColor a (black ms) st"
  let ?st' = "fold (\<lambda>i. mark_loop 2 (dm i) (atomic i) a i) sl ?st1"
  note B = blacken [OF ok a]
  have p: "payload (mobjs ?st1 a) = payload (mobjs st a)" by simp
  have s: "set sl \<subseteq> set (scanned (ty a) a (payload (mobjs ?st1 a)))" unfolding p i(1) by simp
  have M: "marks ms ty {a} (refs ty (mobjs st) a) ?st1 ?st'"
    using mark_slots_ok [where atomic = atomic, OF D B(1) s i(2) B(3)] i(1) unfolding p
    by (simp add: slots_target_def refs_def)
  have "keeps ms ty {a} (mobjs st) (mobjs ?st1)" by (rule keeps_mono [OF B(2)]) simp
  then have "keeps ms ty {a} (mobjs st) (mobjs ?st')" using M keeps_trans unfolding marks_def by blast
  then have "keeps ms ty {} (mobjs st) (mobjs ?st')" by (rule keeps_close) (rule a(2))
  then show ?thesis using M B(4,5) unfolding scans_def marks_def by blast
qed

lemma lock_heap [simp]:
  "heap_ok ty (h(a := (h a)\<lparr>olock := b\<rparr>)) = heap_ok ty h" "edge ty (h(a := (h a)\<lparr>olock := b\<rparr>)) = edge ty h"
proof -
  show "edge ty (h(a := (h a)\<lparr>olock := b\<rparr>)) = edge ty h" by (intro ext) (simp add: edge_def refs_def)
  have "object_ok ty a ((h a)\<lparr>olock := b\<rparr>) = object_ok ty a (h a)" by (simp add: object_ok_def)
  then show "heap_ok ty (h(a := (h a)\<lparr>olock := b\<rparr>)) = heap_ok ty h" by (auto simp: heap_ok_def)
qed

lemma locks_lock: "locks_ok ms h \<Longrightarrow> ocolor (h a) = black ms \<Longrightarrow> locks_ok ms (h(a := (h a)\<lparr>olock := b\<rparr>))"
  by (simp add: locks_ok_def)

lemma mark_ok_lock:
  "mark_ok ms ty st \<Longrightarrow> ocolor (mobjs st a) = black ms \<Longrightarrow> mark_ok ms ty (st\<lparr>mobjs := (mobjs st)(a := (mobjs st a)\<lparr>olock := b\<rparr>)\<rparr>)"
  by (simp add: mark_ok_def locks_lock)

lemma covered_lock: "covered ms ty L S h \<Longrightarrow> covered ms ty L S (h(a := (h a)\<lparr>olock := b\<rparr>))"
  by (erule covered_transfer) (auto intro: due.intros split: if_splits)

lemma keeps_unlock:
  assumes "keeps ms ty {a} (h(a := (h a)\<lparr>olock := True\<rparr>)) h'" "\<not> olock (h a)"
  shows "keeps ms ty {a} h (h'(a := (h' a)\<lparr>olock := False\<rparr>))"
proof -
  let ?h = "h(a := (h a)\<lparr>olock := True\<rparr>)" and ?h' = "h'(a := (h' a)\<lparr>olock := False\<rparr>)"
  note K = keepsD [OF assms(1)]
  have he: "heap_ok ty ?h = heap_ok ty h" "heap_ok ty ?h' = heap_ok ty h'" "edge ty ?h = edge ty h" "edge ty ?h' = edge ty h'"
    by (rule lock_heap)+
  show ?thesis
    unfolding keeps_def he
  proof (intro conjI allI impI)
    fix b
    show "ocolor (h b) = white ms" if "ocolor (?h' b) = white ms" using K(1) [of b] that by (simp split: if_splits)
    show "ocolor (?h' b) = black ms" if "ocolor (h b) = black ms" using K(2) [of b] that by (cases "b = a") simp_all
    show "?h' b = h b" if "ocolor (h b) = black ms" "b \<notin> {a}" using K(3) [of b] that by simp
    show "olock (?h' b) = olock (h b)" using K(4) [of b] assms(2) by simp
    show "length (payload (?h' b)) = length (payload (h b))" using K(5) [of b] by (simp split: if_splits)
    show "ocolor (?h' b) = ocolor (h b) \<or> ocolor (?h' b) = gray ms \<or> ocolor (?h' b) = black ms"
      using K(8) [of b] by (cases "b = a") simp_all
  next
    assume "heap_ok ty h"
    then show "heap_ok ty h'" using K(6) he(1) by simp
  next
    fix b c assume "heap_ok ty h" "edge ty h' b c"
    then show "(edge ty h)\<^sup>+\<^sup>+ b c" using K(7) unfolding he by blast
  qed
qed

lemma stack_slots_distinct: "distinct (stack_slots a p)"
  by (simp add: stack_slots_def)

lemma scanStack_ok:
  assumes ok: "mark_ok ms ty st" and a: "ocolor (mobjs st a) \<noteq> white ms" "ty a = CHI_STACK" and D: "\<And>fl. marker_ok ms ty (dm fl)"
  shows "scans ms ty a st (scanStack ms dm a st)"
proof -
  have c: "colors_ok ms" using ok by (simp add: mark_ok_def)
  have relock: "(mobjs st)(a := (mobjs st a)\<lparr>olock := b\<rparr>) = mobjs st" if "olock (mobjs st a) = b" for b
    by (rule fun_upd_idem) (cases "mobjs st a", use that in simp)
  have t: "scanned (ty a) a p = stack_slots a p" for p
    unfolding a(2) by (simp add: scanned_def chili_types)
  show ?thesis
  proof (cases "olock (mobjs st a)")
    case True
    then have "ocolor (mobjs st a) = black ms" using ok by (auto simp: mark_ok_def locks_ok_def)
    moreover have "scanStack ms dm a st = st" using True relock [OF refl] by (simp add: scanStack_def chiObjectTryLock_def)
    ultimately show ?thesis using scans_black [OF c] by simp
  next
    case False
    show ?thesis
    proof (cases "ocolor (mobjs st a) = black ms")
      case True
      then have "scanStack ms dm a st = st" using False relock [of False]
        by (simp add: scanStack_def chiObjectTryLock_def chiObjectUnlock_def)
      then show ?thesis using scans_black [OF c True] by simp
    next
      case nb: False
      let ?st1 = "setColor a (black ms) st"
      let ?lk = "\<lambda>st b. st\<lparr>mobjs := (mobjs st)(a := (mobjs st a)\<lparr>olock := b\<rparr>)\<rparr>"
      let ?sl = "stack_slots a (payload (mobjs st a))"
      let ?st2 = "fold (\<lambda>i. mark_loop 2 (dm MARK_DEFAULT) False a i) ?sl (?lk ?st1 True)"
      note B = blacken [OF ok a(1) nb]
      have comm: "setColor a (black ms) (?lk st True) = ?lk ?st1 True"
        by (cases "mobjs st a") (simp add: setColor_def chiObjectSetColor_def)
      have e: "scanStack ms dm a st = ?lk ?st2 False"
        using False nb comm unfolding scanStack_def chiObjectTryLock_def chiObjectUnlock_def Let_def mark_def by simp
      have "mark_ok ms ty (?lk ?st1 True)"
        by (rule mark_ok_lock) (rule B(1), rule B(3))
      moreover have "set ?sl \<subseteq> set (scanned (ty a) a (payload (mobjs (?lk ?st1 True) a)))" by (simp add: t)
      moreover have "ocolor (mobjs (?lk ?st1 True) a) = black ms" by simp
      ultimately have "marks ms ty {a} (slots_target ?sl (payload (mobjs (?lk ?st1 True) a))) (?lk ?st1 True) ?st2"
        using mark_slots_ok [where dm = "\<lambda>_. dm MARK_DEFAULT" and atomic = "\<lambda>_. False" and a = a and sl = ?sl, OF D] stack_slots_distinct
        by blast
      then have M: "marks ms ty {a} (refs ty (mobjs st) a) (?lk ?st1 True) ?st2" by (simp add: slots_target_def refs_def t)
      have "keeps ms ty {a} (mobjs ?st1) (mobjs (?lk ?st2 False))"
        using keeps_unlock [of ms ty a "mobjs ?st1" "mobjs ?st2"] M False unfolding marks_def by simp
      then have "keeps ms ty {a} (mobjs st) (mobjs (?lk ?st2 False))" using keeps_trans keeps_mono [OF B(2)] by blast
      then have "keeps ms ty {} (mobjs st) (mobjs (?lk ?st2 False))" by (rule keeps_close) (rule nb)
      moreover have "covered ms ty L S (mobjs (?lk ?st2 False))" if "covered ms ty L S (mobjs st)" for L S
      proof -
        have "covered ms ty L (refs ty (mobjs st) a \<union> S) (mobjs (?lk ?st1 True))" using covered_lock [OF B(5) [OF that], of a True] by simp
        then have "covered ms ty L S (mobjs ?st2)" using M unfolding marks_def by blast
        from covered_lock [OF this, of a False] show ?thesis by simp
      qed
      moreover have "gray_ok ms ty X (?lk ?st2 False)" if "gray_ok ms ty (insert a X) st" for X
      proof -
        have "gray_ok ms ty X (?lk ?st1 True)" using B(4) [OF that] by (auto simp: gray_ok_def gray_ref_def split: if_splits)
        then have "gray_ok ms ty X ?st2" using M unfolding marks_def by blast
        then show ?thesis by (auto simp: gray_ok_def gray_ref_def split: if_splits)
      qed
      ultimately show ?thesis unfolding e scans_def by blast
    qed
  qed
qed

lemma mark_loops: "markAtomic dm a = mark_loop 2 dm True a" "mark dm a = mark_loop 2 dm False a"
  by (intro ext, simp add: markAtomic_def mark_def)+

lemma scanObject_ok:
  assumes ok: "mark_ok ms ty st" and c: "gray_ref ms ty c st" and D: "\<And>fl. marker_ok ms ty (dm fl)"
  shows "scans ms ty (chiObjectUnchecked c) st (scanObject ms dm c st)"
proof -
  let ?a = "chiObjectUnchecked c" and ?p = "payload (mobjs st (chiObjectUnchecked c))"
  have w: "ocolor (mobjs st ?a) \<noteq> white ms" and t: "ty ?a = chiType c" using c by (auto simp: gray_ref_def typed_def)
  have cok: "colors_ok ms" using ok by (simp add: mark_ok_def)
  have ln: "length (payload (mobjs (setColor ?a (black ms) st) ?a)) = length ?p" by simp
  show ?thesis
  proof (cases "chiType c = CHI_STACK")
    case True
    then show ?thesis using scanStack_ok [OF ok w _ D] t by (simp add: scanObject_def chili_types)
  next
    case ns: False
    show ?thesis
    proof (cases "ocolor (mobjs st ?a) = black ms")
      case True
      then have "alreadyBlack ms ?a st = (True, st)" by (simp add: alreadyBlack_def)
      then have "scanObject ms dm c st = st"
        using ns by (simp add: scanObject_def scanArray_def scanThunk_def scanStringBuilder_def scanThread_def scanImmutableObject_def Let_def)
      then show ?thesis using scans_black [OF cok True] by simp
    next
      case nb: False
      then have ab: "alreadyBlack ms ?a st = (False, setColor ?a (black ms) st)" by (simp add: alreadyBlack_def)
      let ?st1 = "setColor ?a (black ms) st" and ?C = "dm MARK_RECURSE_COLLAPSE" and ?R = "dm MARK_RECURSE"
      have S: "scans ms ty ?a st (fold (\<lambda>i. mark_loop 2 (dm fl) (ato i) ?a i) sl ?st1)"
        if "set sl = set (scanned (ty ?a) ?a ?p)" "distinct sl" for fl ato sl
        by (rule scan_slots [where dm = "\<lambda>_. dm fl" and atomic = ato, OF ok w nb D that])
      consider "chiType c = CHI_ARRAY_SMALL \<or> chiType c = CHI_ARRAY_LARGE" | "chiType c = CHI_THUNK" | "chiType c = CHI_STRINGBUILDER"
        | "chiType c = CHI_THREAD" | "chiType c \<le> CHI_LAST_IMMUTABLE"
      proof -
        have "chiType c \<le> CHI_POISON_TAG" "chiType c \<noteq> CHI_POISON_TAG" using c by (auto simp: gray_ref_def typed_def chiRaw_def CHI_FIRST_RAW_def)
        then have "chiType c \<le> 489 \<or> chiType c = 490 \<or> chiType c = 491 \<or> chiType c = 492 \<or> chiType c = 493 \<or> chiType c = 494"
          using ns by (simp add: chili_types) arith
        then show ?thesis using that by (auto simp: chili_types)
      qed
      then show ?thesis
      proof cases
        case 1
        then have "scanObject ms dm c st = fold (mark_loop 2 ?C True ?a) [0 ..< length ?p] ?st1"
          by (simp add: scanObject_def scanArray_def ab ln mark_loops Let_def)
        moreover have "set [0 ..< length ?p] = set (scanned (ty ?a) ?a ?p)" using 1 t by (auto simp: scanned_def)
        ultimately show ?thesis using S [of "[0 ..< length ?p]" MARK_RECURSE_COLLAPSE "\<lambda>_. True"] by simp
      next
        case 2
        let ?st2 = "mark_loop 2 ?C True ?a 1 ?st1"
        have p: "set (1 # [2 ..< length ?p]) = set (scanned (ty ?a) ?a ?p)" using 2 t by (simp add: scanned_def chili_types)
        have "length (payload (mobjs ?st2 ?a)) = length ?p"
        proof -
          have "1 \<in> set (1 # [2 ..< length ?p])" by simp
          then have "1 \<in> set (scanned (ty ?a) ?a (payload (mobjs ?st1 ?a)))" unfolding p by simp
          from mark_loop_ok(1) [where dm = ?C and atomic = True, OF D blacken(1) [OF ok w nb] this blacken(3) [OF ok w nb]]
          have "keeps ms ty {?a} (mobjs ?st1) (mobjs ?st2)" unfolding marks_def by blast
          from keepsD(5) [OF this, of ?a] ln show ?thesis by simp
        qed
        then have "scanObject ms dm c st = fold (mark_loop 2 ?C False ?a) [2 ..< length ?p] ?st2"
          using 2 by (simp add: scanObject_def scanThunk_def ab mark_loops Let_def chili_types)
        also have "\<dots> = fold (\<lambda>i. mark_loop 2 ?C (i = 1) ?a i) [2 ..< length ?p] ?st2" by (rule fold_cong) auto
        also have "\<dots> = fold (\<lambda>i. mark_loop 2 ?C (i = 1) ?a i) (1 # [2 ..< length ?p]) ?st1" by simp
        finally show ?thesis using S [of "1 # [2 ..< length ?p]" MARK_RECURSE_COLLAPSE "\<lambda>i. i = 1"] p by simp
      next
        case 3
        then have "scanObject ms dm c st = fold (mark_loop 2 ?R True ?a) [2] ?st1"
          by (simp add: scanObject_def scanStringBuilder_def ab mark_loops Let_def chili_types)
        moreover have "set [2] = set (scanned (ty ?a) ?a ?p)" using 3 t by (simp add: scanned_def chili_types)
        ultimately show ?thesis using S [of "[2]" MARK_RECURSE "\<lambda>_. True"] by simp
      next
        case 4
        then have "scanObject ms dm c st = fold (mark_loop 2 ?R True ?a) [1, 2] ?st1"
          by (simp add: scanObject_def scanThread_def ab mark_loops Let_def chili_types)
        moreover have "set [1, 2] = set (scanned (ty ?a) ?a ?p)" using 4 t by (simp add: scanned_def chili_types)
        ultimately show ?thesis using S [of "[1, 2]" MARK_RECURSE "\<lambda>_. True"] by simp
      next
        case 5
        then have "scanObject ms dm c st = fold (mark_loop 2 ?C False ?a) [0 ..< length ?p] ?st1"
          by (simp add: scanObject_def scanImmutableObject_def ab ln mark_loops Let_def chili_types)
        moreover have "set [0 ..< length ?p] = set (scanned (ty ?a) ?a ?p)" using 5 t by (auto simp: scanned_def chili_types)
        ultimately show ?thesis using S [of "[0 ..< length ?p]" MARK_RECURSE_COLLAPSE "\<lambda>_. False"] by simp
      qed
    qed
  qed
qed

lemma scan_ok: "scanner_ok ms ty (scan ms timer depth)"
proof (induction depth)
  case 0
  then show ?case using scanObject_ok doMark_marker unfolding scanner_ok_def by simp
next
  case (Suc depth)
  then show ?case using scanObject_ok doMark_marker unfolding scanner_ok_def scan.simps by blast
qed

section \<open>Marking ends\<close>

text \<open>Every element pushed takes a white object, so the white objects and the vector together do not grow.\<close>

definition shrinks :: "ChiMarkState \<Rightarrow> mark_state \<Rightarrow> mark_state \<Rightarrow> bool" where
  "shrinks ms st st' \<longleftrightarrow> {a. ocolor (mobjs st' a) = white ms} \<subseteq> {a. ocolor (mobjs st a) = white ms} \<and>
     (finite {a. ocolor (mobjs st a) = white ms} \<longrightarrow>
       card {a. ocolor (mobjs st' a) = white ms} + length (mgray st') \<le> card {a. ocolor (mobjs st a) = white ms} + length (mgray st))"

lemma shrinks_refl: "shrinks ms st st"
  by (simp add: shrinks_def)

lemma shrinks_trans: "shrinks ms st st' \<Longrightarrow> shrinks ms st' st'' \<Longrightarrow> shrinks ms st st''"
  unfolding shrinks_def by (meson finite_subset le_trans subset_trans)

lemma shrinks_color: "colors_ok ms \<Longrightarrow> c = gray ms \<or> c = black ms \<Longrightarrow> shrinks ms st (setColor a c st)"
  by (auto simp: shrinks_def colors_ok_def intro: card_mono)

lemma shrinks_field: "shrinks ms st (setField a i v st)"
proof -
  have "{b. ocolor (mobjs (setField a i v st) b) = white ms} = {b. ocolor (mobjs st b) = white ms}" by auto
  then show ?thesis unfolding shrinks_def by simp
qed

lemma shrinks_white:
  assumes "colors_ok ms" "ocolor (mobjs st a) = white ms"
  shows "finite {b. ocolor (mobjs st b) = white ms} \<Longrightarrow>
    Suc (card {b. ocolor (mobjs (setColor a (gray ms) st) b) = white ms}) = card {b. ocolor (mobjs st b) = white ms}"
proof -
  assume f: "finite {b. ocolor (mobjs st b) = white ms}"
  have "{b. ocolor (mobjs (setColor a (gray ms) st) b) = white ms} = {b. ocolor (mobjs st b) = white ms} - {a}"
    using assms(1) by (auto simp: colors_ok_def)
  moreover have "a \<in> {b. ocolor (mobjs st b) = white ms}" using assms(2) by simp
  ultimately show ?thesis using card_Suc_Diff1 [OF f] by simp
qed

lemma doMark_shrinks:
  assumes c: "colors_ok ms" and f: "\<And>c st. depth > 0 \<Longrightarrow> shrinks ms st (f c st)" and r: "doMark ms timer depth f flags c st = (res, st')"
  shows "shrinks ms st st'"
proof -
  let ?a = "chiObjectUnchecked c"
  let ?st1 = "setColor ?a (gray ms) st"
  have g: "shrinks ms st ?st1" by (rule shrinks_color [OF c]) simp
  have push: "shrinks ms st (pushGray c st')" if "ocolor (mobjs st ?a) = white ms" "mobjs st' = mobjs ?st1" "mgray st' = mgray ?st1" for st'
    using that shrinks_white [OF c that(1)] g unfolding shrinks_def pushGray_simps that(2,3) by auto
  have tick: "shrinks ms st (f c (?st1\<lparr>mtick := n\<rparr>))" if "depth > 0" for n
    by (rule shrinks_trans [OF _ f [OF that]]) (use g in \<open>simp add: shrinks_def\<close>)
  have norm: "shrinks ms st (if ocolor (mobjs st ?a) = white ms then
      (if flags \<noteq> MARK_DEFAULT \<and> depth > 0
       then (case chiTimeoutTick timer ?st1 of (True, st) \<Rightarrow> f c st | (False, st) \<Rightarrow> pushGray c st)
       else pushGray c ?st1) else st)"
    using push tick by (auto simp: chiTimeoutTick_def shrinks_refl split: bool.splits)
  have "shrinks ms st (setColor ?a (black ms) st)" by (rule shrinks_color [OF c]) simp
  then show ?thesis using r norm unfolding doMark_def Let_def by (auto simp: shrinks_refl split: if_splits)
qed

lemma loop_shrinks:
  assumes "\<And>c st res st'. dm c st = (res, st') \<Longrightarrow> shrinks ms st st'"
  shows "shrinks ms st (mark_loop n dm atomic a i st)"
proof (induction n arbitrary: st)
  case (Suc n)
  obtain r st1 where 1: "dm (payload (mobjs st a) ! i) st = (r, st1)" by fastforce
  note s1 = assms [OF 1]
  have "shrinks ms st (mark_loop n dm atomic a i (setField a i v st1))" for v
    by (rule shrinks_trans [OF shrinks_trans [OF s1 shrinks_field] Suc])
  then show ?case using s1 1 by (cases r) auto
qed (simp add: shrinks_refl)

lemma fold_shrinks: "(\<And>i st. shrinks ms st (f i st)) \<Longrightarrow> shrinks ms st (fold f sl st)"
  by (induction sl arbitrary: st) (auto intro: shrinks_refl shrinks_trans)

lemma lock_shrinks: "shrinks ms st (st\<lparr>mobjs := (mobjs st)(a := (mobjs st a)\<lparr>olock := b\<rparr>)\<rparr>)"
proof -
  have "{c. ocolor (((mobjs st)(a := (mobjs st a)\<lparr>olock := b\<rparr>)) c) = white ms} = {c. ocolor (mobjs st c) = white ms}" by auto
  then show ?thesis unfolding shrinks_def mark_state.simps by simp
qed

lemma scanObject_shrinks:
  assumes c: "colors_ok ms" and dm: "\<And>fl c st res st'. dm fl c st = (res, st') \<Longrightarrow> shrinks ms st st'"
  shows "shrinks ms st (scanObject ms dm c st)"
proof -
  let ?a = "chiObjectUnchecked c"
  have L: "shrinks ms st (mark_loop 2 (dm fl) atomic a i st)" for fl atomic a i st by (rule loop_shrinks) (rule dm)
  have B: "shrinks ms st (setColor ?a (black ms) st)" for st by (rule shrinks_color [OF c]) simp
  have F: "shrinks ms st (fold (mark_loop 2 (dm fl) atomic ?a) sl (setColor ?a (black ms) st))" for fl atomic sl st
    by (rule shrinks_trans [OF B fold_shrinks]) (rule L)
  have "shrinks ms st (scanStack ms dm ?a st)"
  proof -
    let ?lk = "\<lambda>st b. st\<lparr>mobjs := (mobjs st)(?a := (mobjs st ?a)\<lparr>olock := b\<rparr>)\<rparr>"
    have "shrinks ms st (?lk st' b)" if "shrinks ms st st'" for st' b by (rule shrinks_trans [OF that lock_shrinks])
    moreover have "shrinks ms st (fold (mark_loop 2 (dm fl) atomic ?a) sl (setColor ?a (black ms) (?lk st True)))" for fl atomic sl
      by (rule shrinks_trans [OF lock_shrinks F])
    ultimately show ?thesis using lock_shrinks
      by (auto simp: scanStack_def chiObjectTryLock_def chiObjectUnlock_def Let_def mark_loops split: bool.splits)
  qed
  moreover have "shrinks ms st (mark_loop 2 (dm fl) t ?a j (mark_loop 2 (dm fl) t ?a i (setColor ?a (black ms) st)))" for fl t i j
    by (rule shrinks_trans [OF shrinks_trans [OF B L] L])
  moreover have "shrinks ms st (mark_loop 2 (dm fl) t ?a i (setColor ?a (black ms) st))" for fl t i
    by (rule shrinks_trans [OF B L])
  moreover have "shrinks ms st (fold (mark_loop 2 (dm fl) t ?a) sl (mark_loop 2 (dm fl) u ?a i (setColor ?a (black ms) st)))" for fl t u i sl
    by (rule shrinks_trans [OF shrinks_trans [OF B L] fold_shrinks]) (rule L)
  ultimately show ?thesis using F
    by (simp add: scanObject_def scanArray_def scanThunk_def scanStringBuilder_def scanThread_def scanImmutableObject_def
        alreadyBlack_def mark_loops Let_def shrinks_refl)
qed

lemma scan_shrinks: "colors_ok ms \<Longrightarrow> shrinks ms st (scan ms timer depth c st)"
proof (induction depth arbitrary: c st)
  case 0
  have "shrinks ms st st'" if "doMark ms timer 0 (\<lambda>_ st. st) fl c st = (res, st')" for fl c st res st'
    by (rule doMark_shrinks [OF 0 _ that]) simp
  then show ?case unfolding scan.simps by (rule scanObject_shrinks [OF 0])
next
  case (Suc depth)
  have "shrinks ms st st'" if "doMark ms timer (Suc depth) (scan ms timer depth) fl c st = (res, st')" for fl c st res st'
    by (rule doMark_shrinks [OF Suc.prems _ that]) (rule Suc.IH [OF Suc.prems])
  then show ?case unfolding scan.simps by (rule scanObject_shrinks [OF Suc.prems])
qed

lemma mark_slice_step:
  "mark_slice ms timer depth st =
     (if \<not> timer (mtick st) then Some (st\<lparr>mtick := mtick st + 1\<rparr>)
      else (case mgray st of [] \<Rightarrow> Some (st\<lparr>mtick := mtick st + 1\<rparr>)
            | c # g \<Rightarrow> mark_slice ms timer depth (scan ms timer depth c (st\<lparr>mtick := mtick st + 1, mgray := g\<rparr>))))"
  by (subst mark_slice.simps) (simp add: chiTimeoutTick_def split: list.split)

text \<open>A slice ends and all it does keeps the invariants of the marker; it stops early only if the timer fires.\<close>

definition sliced :: "ChiMarkState \<Rightarrow> (nat \<Rightarrow> nat) \<Rightarrow> nat set \<Rightarrow> mark_state \<Rightarrow> mark_state \<Rightarrow> bool" where
  "sliced ms ty X st st' \<longleftrightarrow> keeps ms ty {} (mobjs st) (mobjs st') \<and> mark_ok ms ty st' \<and> gray_ok ms ty X st' \<and>
     (\<forall>L S. covered ms ty L S (mobjs st) \<longrightarrow> covered ms ty L S (mobjs st'))"

lemma sliced_trans: "sliced ms ty X st st' \<Longrightarrow> sliced ms ty X st' st'' \<Longrightarrow> sliced ms ty X st st''"
  unfolding sliced_def using keeps_trans by blast

lemma scan_sliced:
  assumes "mark_ok ms ty st" "gray_ok ms ty X st" "mgray st = c # g"
  shows "sliced ms ty X st (scan ms timer depth c (st\<lparr>mtick := n, mgray := g\<rparr>))"
proof -
  let ?s = "st\<lparr>mtick := n, mgray := g\<rparr>"
  have ok: "mark_ok ms ty ?s" using assms(1) by (simp add: mark_ok_def)
  have c: "gray_ref ms ty c ?s" using assms(2,3) by (simp add: gray_ok_def gray_ref_def)
  have g: "gray_ok ms ty (insert (chiObjectUnchecked c) X) ?s" using assms(2,3) by (auto simp: gray_ok_def gray_ref_def)
  have S: "scans ms ty (chiObjectUnchecked c) ?s (scan ms timer depth c ?s)" using scan_ok ok c unfolding scanner_ok_def by blast
  then have k: "keeps ms ty {} (mobjs st) (mobjs (scan ms timer depth c ?s))" by (simp add: scans_def)
  have "mark_ok ms ty (scan ms timer depth c ?s)"
    using assms(1) keeps_locks [OF k] keepsD(6) [OF k] by (simp add: mark_ok_def)
  then show ?thesis using S g k unfolding sliced_def scans_def by simp
qed

lemma mark_slice_ok:
  assumes "mark_ok ms ty st" "gray_ok ms ty X st" "finite {a. ocolor (mobjs st a) = white ms}"
  shows "\<exists>st'. mark_slice ms timer depth st = Some st' \<and> sliced ms ty X st st' \<and> (mgray st' = [] \<or> (\<exists>n. \<not> timer n))"
  using assms
proof (induction "card {a. ocolor (mobjs st a) = white ms} + length (mgray st)" arbitrary: st rule: less_induct)
  case less
  have r: "sliced ms ty X st (st\<lparr>mtick := n\<rparr>)" for n
    using less.prems(1,2) by (simp add: sliced_def keeps_refl mark_ok_def)
  show ?case
  proof (cases "timer (mtick st)")
    case False
    then show ?thesis using r by (subst mark_slice_step) auto
  next
    case True
    show ?thesis
    proof (cases "mgray st")
      case Nil
      then show ?thesis using r by (subst mark_slice_step) simp
    next
      case (Cons c g)
      let ?s = "st\<lparr>mtick := mtick st + 1, mgray := g\<rparr>"
      let ?t = "scan ms timer depth c ?s"
      have S: "shrinks ms ?s ?t" by (rule scan_shrinks) (use less.prems(1) in \<open>simp add: mark_ok_def\<close>)
      have M: "sliced ms ty X st ?t" by (rule scan_sliced [OF less.prems(1,2) Cons])
      have w: "{a. ocolor (mobjs ?s a) = white ms} = {a. ocolor (mobjs st a) = white ms}" by simp
      have f: "finite {a. ocolor (mobjs ?t a) = white ms}" using S less.prems(3) finite_subset unfolding shrinks_def w by blast
      have "card {a. ocolor (mobjs ?t a) = white ms} + length (mgray ?t) < card {a. ocolor (mobjs st a) = white ms} + length (mgray st)"
        using S less.prems(3) Cons unfolding shrinks_def w by simp
      from less.hyps [OF this _ _ f] obtain st' where "mark_slice ms timer depth ?t = Some st'" "sliced ms ty X ?t st'"
        "mgray st' = [] \<or> (\<exists>n. \<not> timer n)" using M unfolding sliced_def by blast
      then show ?thesis using Cons True sliced_trans [OF M] by (subst mark_slice_step) simp
    qed
  qed
qed

section \<open>The colors of a cycle\<close>

definition cycle_colors :: "ChiMarkState \<Rightarrow> bool" where
  "cycle_colors ms \<longleftrightarrow> gray ms = white ms + 2 \<and> black ms = white ms + 4 \<and> unat (white ms) mod 4 = 1"

lemma cycle_init: "cycle_colors markStateInit"
  by (simp add: cycle_colors_def markStateInit_def CHI_COLOR_USED_def CHI_COLOR_SHADED_def CHI_COLOR_EPOCH_def)

lemma cycle_epoch: "cycle_colors ms \<Longrightarrow> cycle_colors (markStateEpoch ms)"
proof -
  assume c: "cycle_colors ms"
  have "unat (white ms + 4) mod 4 = (unat (white ms) + 4) mod 256 mod 4" by (simp add: unat_word_ariths)
  also have "\<dots> = (unat (white ms) + 4) mod 4" by (rule mod_mod_cancel) simp
  finally show ?thesis using c by (simp add: cycle_colors_def markStateEpoch_def CHI_COLOR_EPOCH_def)
qed

lemma cycle_distinct: "cycle_colors ms \<Longrightarrow> colors_ok ms"
  by (simp add: cycle_colors_def colors_ok_def)

lemma clear_shaded: "unat (w :: u8) mod 4 = 1 \<Longrightarrow> w AND NOT 2 = w \<and> (w + 2) AND NOT 2 = w"
proof -
  assume w: "unat w mod 4 = 1"
  have "bit w 1 = bit (unat w) 1" by (simp add: bit_unsigned_iff)
  moreover have "even (unat w div 2)" using w by presburger
  ultimately have b: "\<not> bit w 1" by (simp add: bit_iff_odd)
  have 2: "bit (2 :: u8) n \<longleftrightarrow> n = 1" for n
  proof -
    have "bit ((2 :: u8) ^ 1) n \<longleftrightarrow> n = 1" unfolding bit_exp_iff by auto
    then show ?thesis by simp
  qed
  have "w + 2 = w OR 2"
  proof (rule disjunctive_add)
    fix n show "\<not> bit w n \<or> \<not> bit (2 :: u8) n" using b unfolding 2 by (cases "n = 1") blast+
  qed
  moreover have "w AND NOT 2 = w"
  proof (rule bit_eqI)
    fix n assume "possible_bit TYPE(u8) n"
    then show "bit (w AND NOT 2) n \<longleftrightarrow> bit w n" unfolding bit_and_iff bit_not_iff 2 using b by (cases "n = 1") blast+
  qed
  moreover have "(w OR 2) AND NOT 2 = w"
  proof (rule bit_eqI)
    fix n assume "possible_bit TYPE(u8) n"
    then show "bit ((w OR 2) AND NOT 2) n \<longleftrightarrow> bit w n"
      unfolding bit_and_iff bit_or_iff bit_not_iff 2 using b by (cases "n = 1") blast+
  qed
  ultimately show ?thesis by simp
qed

text \<open>After the epoch of the collector has changed exactly the black objects are not garbage.\<close>

lemma garbage_after_cycle:
  assumes "cycle_colors ms" "ocolor obj \<in> {white ms, gray ms, black ms}"
  shows "\<not> chiObjectGarbage ms obj" "chiObjectGarbage (markStateEpoch ms) obj \<longleftrightarrow> ocolor obj \<noteq> black ms"
proof -
  have w: "unat (white ms) mod 4 = 1" "gray ms = white ms + 2" "black ms = white ms + 4" using assms(1) by (simp_all add: cycle_colors_def)
  have b: "unat (white ms + 4) mod 4 = 1" using cycle_epoch [OF assms(1)] by (simp add: cycle_colors_def markStateEpoch_def CHI_COLOR_EPOCH_def)
  note C = clear_shaded [OF w(1)] clear_shaded [OF b]
  show "\<not> chiObjectGarbage ms obj" using assms(2) w C by (auto simp: chiObjectGarbage_def CHI_COLOR_SHADED_def Let_def)
  show "chiObjectGarbage (markStateEpoch ms) obj \<longleftrightarrow> ocolor obj \<noteq> black ms"
    using assms(2) w C by (auto simp: chiObjectGarbage_def CHI_COLOR_SHADED_def markStateEpoch_def CHI_COLOR_EPOCH_def Let_def)
qed

section \<open>Marking\<close>

definition mark_start :: "u64 list \<times> bool \<Rightarrow> objects \<Rightarrow> mark_state" where
  "mark_start g h = \<lparr> mobjs = h, mgray = fst g, mtick = 0 \<rparr>"

lemma chiMarkSlice_ok:
  assumes ms: "cycle_colors ms" and h: "heap_ok ty h" "locks_ok ms h" and g: "gray_ok ms ty {} (mark_start g h)"
    and f: "finite {a. ocolor (h a) = white ms}"
  obtains st where "chiMarkSlice timer g depth ms h = Some ((mgray st, mgray st = []), mobjs st)"
    "sliced ms ty {} (mark_start g h) st" "mgray st = [] \<or> (\<exists>n. \<not> timer n)"
proof -
  have ok: "mark_ok ms ty (mark_start g h)" using h cycle_distinct [OF ms] by (simp add: mark_ok_def mark_start_def)
  have "finite {a. ocolor (mobjs (mark_start g h) a) = white ms}" using f by (simp add: mark_start_def)
  from mark_slice_ok [OF ok g this] show thesis using that unfolding chiMarkSlice_def mark_start_def by auto
qed

text \<open>Without gray objects nothing is due.\<close>

lemma due_empty: "due ms ty {} h a \<Longrightarrow> \<exists>g. ocolor (h g) = gray ms"
  by (induction rule: due.induct) auto

lemma gray_empty: "gray_ok ms ty {} st \<Longrightarrow> mgray st = [] \<Longrightarrow> ocolor (mobjs st g) \<noteq> gray ms"
  by (auto simp: gray_ok_def)

lemma keeps_cycle_colors:
  "keeps ms ty A h h' \<Longrightarrow> ocolor (h a) \<in> {white ms, gray ms, black ms} \<Longrightarrow> ocolor (h' a) \<in> {white ms, gray ms, black ms}"
  unfolding keeps_def by (metis insert_iff)

lemma live_black:
  assumes "sliced ms ty {} (mark_start g h) st" "mgray st = []" "covered ms ty L {} h" "a \<in> L"
    "ocolor (h a) \<in> {white ms, gray ms, black ms}"
  shows "ocolor (mobjs st a) = black ms"
proof -
  have s: "keeps ms ty {} h (mobjs st)" "gray_ok ms ty {} st" "covered ms ty L {} (mobjs st)"
    using assms(1,3) by (simp_all add: sliced_def mark_start_def)
  have ng: "ocolor (mobjs st g) \<noteq> gray ms" for g by (rule gray_empty [OF s(2) assms(2)])
  moreover have "ocolor (mobjs st a) \<noteq> white ms" using s(3) assms(4) due_empty ng unfolding covered_def by metis
  ultimately show ?thesis using keeps_cycle_colors [OF s(1) assms(5)] by blast
qed

text \<open>C1: A slice of the marker always returns, also for cyclic graphs, whatever the timer does and whatever
  objects it scans recursively. It reports that the vector of gray objects is empty exactly if it is. If the timer
  never fires, then the vector is empty, and then every object of \<open>L\<close> that was black, gray, or reachable from a
  gray object on a path of white objects is black, hence not garbage for the sweeper of the next epoch. The heap
  may hold any objects that are well typed and where a locked stack, which belongs to a mutator, is black.\<close>

theorem marking_ends:
  assumes "cycle_colors ms" "heap_ok ty h" "locks_ok ms h" "gray_ok ms ty {} (mark_start g h)"
    and "finite {a. ocolor (h a) = white ms}"
    and "covered ms ty L {} h" "\<forall>a \<in> L. ocolor (h a) \<in> {white ms, gray ms, black ms}"
  shows "\<exists>g' null h'. chiMarkSlice timer g depth ms h = Some ((g', null), h') \<and> (null \<longleftrightarrow> g' = []) \<and>
    ((\<forall>n. timer n) \<longrightarrow> null) \<and>
    (null \<longrightarrow> (\<forall>a \<in> L. ocolor (h' a) = black ms \<and> \<not> chiObjectGarbage (markStateEpoch ms) (h' a)))"
proof -
  obtain st where st: "chiMarkSlice timer g depth ms h = Some ((mgray st, mgray st = []), mobjs st)"
    "sliced ms ty {} (mark_start g h) st" "mgray st = [] \<or> (\<exists>n. \<not> timer n)"
    by (rule chiMarkSlice_ok [OF assms(1-5)])
  have "ocolor (mobjs st a) = black ms \<and> \<not> chiObjectGarbage (markStateEpoch ms) (mobjs st a)" if "mgray st = []" "a \<in> L" for a
  proof -
    have "ocolor (mobjs st a) = black ms" using live_black [OF st(2) that(1) assms(6) that(2)] assms(7) that(2) by blast
    then show ?thesis using garbage_after_cycle(2) [OF assms(1)] by simp
  qed
  then show ?thesis using st(1,3) by blast
qed

text \<open>C2: Marking keeps the heap well typed: the types of the references in the scanned fields agree with the types
  of the objects they refer to, although references to evaluated thunks are replaced while it runs. It does not add
  fields or change the locks, leaves black objects alone, never whitens an object, and where the new graph has an edge the old
  one has a path. The gray vector holds references to objects that are scanned and not white, and every gray object
  is in it. All this holds however early the timer stops the slice, so that the next slice goes on.\<close>

theorem marking_keeps_types:
  assumes "cycle_colors ms" "heap_ok ty h" "locks_ok ms h" "gray_ok ms ty {} (mark_start g h)"
    and "finite {a. ocolor (h a) = white ms}" and "chiMarkSlice timer g depth ms h = Some (g', h')"
  shows "heap_ok ty h' \<and> locks_ok ms h' \<and> gray_ok ms ty {} (mark_start g' h') \<and>
    (\<forall>a. length (payload (h' a)) = length (payload (h a)) \<and> olock (h' a) = olock (h a)) \<and>
    (\<forall>a. ocolor (h a) = black ms \<longrightarrow> h' a = h a) \<and>
    (\<forall>a. ocolor (h' a) = white ms \<longrightarrow> ocolor (h a) = white ms) \<and>
    (\<forall>a b. edge ty h' a b \<longrightarrow> (edge ty h)\<^sup>+\<^sup>+ a b) \<and>
    (\<forall>L. covered ms ty L {} h \<longrightarrow> covered ms ty L {} h')"
proof -
  obtain st where st: "chiMarkSlice timer g depth ms h = Some ((mgray st, mgray st = []), mobjs st)"
    "sliced ms ty {} (mark_start g h) st" by (rule chiMarkSlice_ok [OF assms(1-5)])
  have [simp]: "h' = mobjs st" "fst g' = mgray st" using st(1) assms(6) by simp_all
  have s: "keeps ms ty {} h (mobjs st)" "gray_ok ms ty {} st" "mark_ok ms ty st" "\<forall>L S. covered ms ty L S h \<longrightarrow> covered ms ty L S (mobjs st)"
    using st(2) by (simp_all add: sliced_def mark_start_def)
  have "gray_ok ms ty {} (mark_start g' h')" using s(2) by (simp add: gray_ok_def gray_ref_def mark_start_def)
  moreover have "heap_ok ty h'" "locks_ok ms h'" using s(3) by (simp_all add: mark_ok_def)
  moreover have "\<forall>L. covered ms ty L {} h \<longrightarrow> covered ms ty L {} h'" using s(4) by simp
  moreover have "(\<forall>a. length (payload (h' a)) = length (payload (h a)) \<and> olock (h' a) = olock (h a)) \<and>
    (\<forall>a. ocolor (h a) = black ms \<longrightarrow> h' a = h a) \<and> (\<forall>a. ocolor (h' a) = white ms \<longrightarrow> ocolor (h a) = white ms) \<and>
    (\<forall>a b. edge ty h' a b \<longrightarrow> (edge ty h)\<^sup>+\<^sup>+ a b)"
    using s(1) assms(2) unfolding keeps_def \<open>h' = mobjs st\<close> by blast
  ultimately show ?thesis by blast
qed

text \<open>An example: a gray object with a reference to a white one, which refers back to it, and a white object that nothing refers to.\<close>

definition ex_ref :: "nat \<Rightarrow> u64" where
  "ex_ref n = chiWrap (CHI_CHUNK_START + 16 * n + 8) 1 0 CHI_GEN_MAJOR"

definition ex_object :: "u8 \<Rightarrow> u64 list \<Rightarrow> gc_object" where
  "ex_object c p = \<lparr> ocolor = c, olock = False, oshared = False, odirty = False, payload = p \<rparr>"

definition ex_objects :: objects where
  "ex_objects = (\<lambda>a. if a = CHI_CHUNK_START then ex_object (gray markStateInit) [ex_ref 1]
     else if a = CHI_CHUNK_START + 16 then ex_object (white markStateInit) [ex_ref 0]
     else if a = CHI_CHUNK_START + 32 then ex_object (white markStateInit) []
     else ex_object (black markStateInit) [])"

lemma ex_ref_ok:
  assumes "n < 8"
  shows "chiRefMajor (ex_ref n)" "chiType (ex_ref n) = 0" "chiObjectUnchecked (ex_ref n) = CHI_CHUNK_START + 16 * n"
proof -
  have w: "wrap_ok (CHI_CHUNK_START + 16 * n + 8) 1 0 CHI_GEN_MAJOR"
    using assms by (simp add: wrap_ok_def CHI_CHUNK_START_def CHI_CHUNK_MAX_SIZE_def)
  show "chiRefMajor (ex_ref n)" using wrap_ref [OF w] wrap_gen [OF w] by (simp add: ex_ref_def refMajor_iff)
  show "chiType (ex_ref n) = 0" using wrap_type [OF w] by (simp add: ex_ref_def)
  show "chiObjectUnchecked (ex_ref n) = CHI_CHUNK_START + 16 * n"
    using wrap_ptr [OF w] by (simp add: ex_ref_def chiObjectUnchecked_def CHI_WORDSIZE_def)
qed

lemma ex_colors: "white markStateInit = 1" "gray markStateInit = 3" "black markStateInit = 5"
  by (simp_all add: markStateInit_def CHI_COLOR_USED_def CHI_COLOR_SHADED_def CHI_COLOR_EPOCH_def)

lemma ex_objects_ok:
  "heap_ok (\<lambda>_. 0) ex_objects" "locks_ok markStateInit ex_objects" "finite {a. ocolor (ex_objects a) = white markStateInit}"
  "gray_ok markStateInit (\<lambda>_. 0) {} (mark_start ([ex_ref 0], False) ex_objects)"
  "covered markStateInit (\<lambda>_. 0) {CHI_CHUNK_START, CHI_CHUNK_START + 16} {} ex_objects"
  "\<forall>a \<in> {CHI_CHUNK_START, CHI_CHUNK_START + 16}. ocolor (ex_objects a) \<in> {white markStateInit, gray markStateInit, black markStateInit}"
proof -
  note E = ex_objects_def ex_object_def ex_colors
  have S: "scanned 0 a p = [0 ..< length p]" for a p by (simp add: scanned_def chili_types)
  have T: "typed (\<lambda>_. 0) (ex_ref n)" if "n < 8" for n using ex_ref_ok [OF that] by (simp add: typed_def chili_types)
  show "heap_ok (\<lambda>_. 0) ex_objects" using T [of 0] T [of 1] by (simp add: heap_ok_def object_ok_def S E)
  show "locks_ok markStateInit ex_objects" by (simp add: locks_ok_def E)
  have "{a. ocolor (ex_objects a) = white markStateInit} \<subseteq> {CHI_CHUNK_START + 16, CHI_CHUNK_START + 32}" by (auto simp: E)
  then show "finite {a. ocolor (ex_objects a) = white markStateInit}" using finite_subset by blast
  show "gray_ok markStateInit (\<lambda>_. 0) {} (mark_start ([ex_ref 0], False) ex_objects)"
    using ex_ref_ok [of 0] T [of 0] by (simp add: gray_ok_def gray_ref_def mark_start_def E chiRaw_def chili_types)
  have "edge (\<lambda>_. 0) ex_objects CHI_CHUNK_START (CHI_CHUNK_START + 16)"
    using ex_ref_ok [of 1] by (simp add: edge_def refs_def S target_def E)
  then show "covered markStateInit (\<lambda>_. 0) {CHI_CHUNK_START, CHI_CHUNK_START + 16} {} ex_objects"
    unfolding covered_def using due.from_gray [of ex_objects CHI_CHUNK_START markStateInit] by (auto simp: E)
  show "\<forall>a \<in> {CHI_CHUNK_START, CHI_CHUNK_START + 16}. ocolor (ex_objects a) \<in> {white markStateInit, gray markStateInit, black markStateInit}"
    by (simp add: E)
qed

theorem marking_ends_witness:
  "\<exists>g' h'. chiMarkSlice (\<lambda>_. True) ([ex_ref 0], False) 30 markStateInit ex_objects = Some ((g', True), h') \<and>
    ocolor (h' (CHI_CHUNK_START + 16)) = 5"
  using marking_ends [OF cycle_init ex_objects_ok(1,2,4,3,5,6), of "\<lambda>_. True" 30] ex_colors by auto

theorem marking_keeps_types_witness:
  "\<exists>g' h'. chiMarkSlice (\<lambda>_. True) ([ex_ref 0], False) 30 markStateInit ex_objects = Some (g', h') \<and> heap_ok (\<lambda>_. 0) h'"
proof -
  have "\<exists>g' h'. chiMarkSlice (\<lambda>_. True) ([ex_ref 0], False) 30 markStateInit ex_objects = Some (g', h')"
    by (rule chiMarkSlice_ok [OF cycle_init ex_objects_ok(1,2,4,3), of "\<lambda>_. True" 30]) blast
  then show ?thesis using marking_keeps_types [OF cycle_init ex_objects_ok(1,2,4,3)] by blast
qed

end
