(* ===== verification/GC.thy ===== *)
theory GC
  imports Mark Processor
begin

text \<open>
  The cycle of the collector (\<^verbatim>\<open>src/native/gc.c\<close>): the global phase, the handshakes that bring the processors
  to it one phase at a time, the concurrent workers, the roots and the mark barrier (\<^verbatim>\<open>src/native/localgc.h\<close>), and how a
  new processor takes over the state of its parent (\<^verbatim>\<open>src/native/processor.c\<close>). Gray vectors are stacks,
  as the theory BlockVec shows. What the scavenger does to the objects and the gray vector of a processor, what the
  sweeper and the acquisition of unswept memory do to the heap, and the timers are arguments, so that
  all results hold for every behaviour of them. The step relation interleaves the critical sections; it takes the reads of
  \<open>markDone\<close> at one moment. The code reads them one after the other while processors and workers go on, and so it may end
  marking although a worker has just taken gray objects; the results do not hold for such a run.
\<close>

datatype ChiGCPhase = GC_IDLE | GC_SYNC1 | GC_SYNC2 | GC_ASYNC

datatype GCWorkerStatus = WORKER_WAIT | WORKER_EPOCH | WORKER_RUN | WORKER_STOP

text \<open>Where a processor is in \<open>chiGCSlice\<close>: outside, after the switch with the flag that a snapshot is due, or before
  it shares its gray objects.\<close>

datatype slice_pos = Slice_out | Slice_work bool | Slice_share

record gc_proc =
  gproc :: processor
  lgray :: "u64 list"
  lphase :: ChiGCPhase
  lmark :: ChiMarkState
  allocColor :: u8
  plocal :: u64
  pthread :: u64
  ppos :: slice_pos

text \<open>\<open>wrun\<close>: the worker is between \<open>gcWorkerSync\<close> and the end of its slice.\<close>

record gc_worker =
  wgray :: "u64 list"
  wstatus :: GCWorkerStatus
  wmark :: ChiMarkState
  wrun :: bool

record 's gc_state =
  gphase :: ChiGCPhase
  gtrigger :: bool
  sweepNeeded :: bool
  ggray :: "u64 list"
  groot :: "u64 list"
  gstarted :: bool
  gworkers :: "gc_worker list"
  gprocs :: "gc_proc list"
  gobjs :: objects
  gheap :: 's

text \<open>The options of the collector.\<close>

record gc_option =
  opt_worker :: nat
  opt_scanDepth :: nat
  opt_aging :: nat
  opt_slice :: bool

text \<open>What happens outside: the number of tasks that can be created, the scavenger, the sweeper, the acquisition of memory to
  sweep, the answer of the timer before marking and its answers while marking.\<close>

record 's gc_env =
  env_tasks :: nat
  env_scavenge :: "nat \<Rightarrow> bool \<Rightarrow> ChiMarkState \<Rightarrow> u64 list \<times> objects \<times> 's \<Rightarrow> u64 list \<times> objects \<times> 's"
  env_sweep :: "ChiMarkState \<Rightarrow> objects \<times> 's \<Rightarrow> bool \<times> objects \<times> 's"
  env_acquire :: "'s \<Rightarrow> 's"
  env_tick :: bool
  env_timer :: "nat \<Rightarrow> bool"

section \<open>The mark barrier\<close>

definition chiMarkNormal :: "ChiMarkState \<Rightarrow> u64 \<Rightarrow> u64 list \<times> objects \<Rightarrow> u64 list \<times> objects" where
  "chiMarkNormal ms c s =
     (case s of (g, h) \<Rightarrow>
        let obj = chiObjectUnchecked c
        in if white ms = ocolor (h obj) then (c # g, chiObjectSetColor obj (gray ms) h) else (g, h))"

definition chiMarkRaw :: "ChiMarkState \<Rightarrow> u64 \<Rightarrow> u64 list \<times> objects \<Rightarrow> u64 list \<times> objects" where
  "chiMarkRaw ms c s = (case s of (g, h) \<Rightarrow> (g, chiObjectSetColor (chiObjectUnchecked c) (black ms) h))"

definition chiMarkRef :: "ChiMarkState \<Rightarrow> u64 \<Rightarrow> u64 list \<times> objects \<Rightarrow> u64 list \<times> objects" where
  "chiMarkRef ms c s = (if chiRaw (chiType c) then chiMarkRaw ms c s else chiMarkNormal ms c s)"

definition chiMark :: "ChiMarkState \<Rightarrow> u64 \<Rightarrow> u64 list \<times> objects \<Rightarrow> u64 list \<times> objects" where
  "chiMark ms c s = (if chiRefMajor c then chiMarkRef ms c s else s)"

definition chiMarkBarrier :: "ChiMarkState \<Rightarrow> u64 \<Rightarrow> u64 \<Rightarrow> u64 list \<times> objects \<Rightarrow> u64 list \<times> objects" where
  "chiMarkBarrier ms old val s =
     (let s = chiMark ms old s in if barrier ms = BARRIER_SYNC then chiMark ms val s else s)"

section \<open>Workers\<close>

definition on_proc :: "nat \<Rightarrow> (gc_proc \<Rightarrow> gc_proc) \<Rightarrow> 's gc_state \<Rightarrow> 's gc_state" where
  "on_proc i f st = st\<lparr> gprocs := (gprocs st)[i := f (gprocs st ! i)] \<rparr>"

definition on_worker :: "nat \<Rightarrow> (gc_worker \<Rightarrow> gc_worker) \<Rightarrow> 's gc_state \<Rightarrow> 's gc_state" where
  "on_worker k f st = st\<lparr> gworkers := (gworkers st)[k := f (gworkers st ! k)] \<rparr>"

text \<open>One pass of \<open>gcWorkerSync\<close>; None: the worker waits. A transfer takes the elements of the topmost block, whose
  number is \<open>n\<close>.\<close>

definition gcWorkerSync :: "nat \<Rightarrow> nat \<Rightarrow> 's gc_state \<Rightarrow> bool option \<times> 's gc_state" where
  "gcWorkerSync n k st =
     (let w = gworkers st ! k
      in if wstatus w = WORKER_WAIT then (None, st)
         else if wstatus w = WORKER_STOP then (Some False, st)
         else
           let w = (if wstatus w = WORKER_EPOCH then w\<lparr> wmark := markStateEpoch (wmark w), wstatus := WORKER_RUN \<rparr> else w)
           in if sweepNeeded st then (Some True, on_worker k (\<lambda>_. w) st)
              else if ggray st \<noteq> []
              then (Some True, on_worker k (\<lambda>_. w\<lparr> wgray := wgray w @ take n (ggray st) \<rparr>) (st\<lparr> ggray := drop n (ggray st) \<rparr>))
              else (None, on_worker k (\<lambda>_. w\<lparr> wstatus := WORKER_WAIT \<rparr>) st))"

text \<open>Workers are created once. Those whose task cannot be created are left out, and so are all after them.\<close>

definition gcWorkerStart :: "gc_option \<Rightarrow> 's gc_env \<Rightarrow> ChiMarkState \<Rightarrow> 's gc_state \<Rightarrow> 's gc_state" where
  "gcWorkerStart opt env ms st =
     (if gstarted st \<or> opt_worker opt = 0 then st
      else st\<lparr> gstarted := True,
        gworkers := replicate (min (opt_worker opt) (env_tasks env))
          \<lparr> wgray = [], wstatus = WORKER_WAIT, wmark = ms, wrun = False \<rparr> \<rparr>)"

definition gcWorkerStop :: "gc_worker list \<Rightarrow> gc_worker list" where
  "gcWorkerStop ws = map (\<lambda>w. w\<lparr> wstatus := WORKER_STOP \<rparr>) ws"

definition gcWorkerNotify :: "GCWorkerStatus \<Rightarrow> gc_worker list \<Rightarrow> gc_worker list" where
  "gcWorkerNotify s ws = map (\<lambda>w. if wstatus w = WORKER_WAIT then w\<lparr> wstatus := s \<rparr> else w) ws"

definition gcWorkerEpochAck :: "gc_worker list \<Rightarrow> bool" where
  "gcWorkerEpochAck ws \<longleftrightarrow> list_all (\<lambda>w. wstatus w \<noteq> WORKER_EPOCH) ws"

definition gcWorkerGrayNull :: "gc_worker list \<Rightarrow> bool" where
  "gcWorkerGrayNull ws \<longleftrightarrow> list_all (\<lambda>w. wstatus w = WORKER_WAIT \<and> wgray w = []) ws"

section \<open>Slices of work\<close>

definition markSlice ::
  "gc_option \<Rightarrow> 's gc_env \<Rightarrow> u64 list \<Rightarrow> ChiMarkState \<Rightarrow> 's gc_state \<Rightarrow> (u64 list \<times> 's gc_state) option" where
  "markSlice opt env g ms st =
     map_option (\<lambda>((g, _), h). (g, st\<lparr> gobjs := h \<rparr>))
       (chiMarkSlice (env_timer env) (g, g = []) (opt_scanDepth opt) ms (gobjs st))"

definition sweepSlice :: "'s gc_env \<Rightarrow> ChiMarkState \<Rightarrow> 's gc_state \<Rightarrow> 's gc_state" where
  "sweepSlice env ms st =
     (case env_sweep env ms (gobjs st, gheap st) of
        (needed, h, s) \<Rightarrow> st\<lparr> sweepNeeded := needed, gobjs := h, gheap := s \<rparr>)"

definition gcSlice ::
  "gc_option \<Rightarrow> 's gc_env \<Rightarrow> u64 list \<Rightarrow> ChiMarkState \<Rightarrow> 's gc_state \<Rightarrow> (u64 list \<times> 's gc_state) option" where
  "gcSlice opt env g ms st =
     (let st = (if sweepNeeded st then sweepSlice env ms st else st)
      in if env_tick env \<and> gphase st = GC_ASYNC \<and> g \<noteq> [] then markSlice opt env g ms st else Some (g, st))"

definition gcIncSlice :: "gc_option \<Rightarrow> 's gc_env \<Rightarrow> nat \<Rightarrow> 's gc_state \<Rightarrow> 's gc_state option" where
  "gcIncSlice opt env i st =
     (let p = gprocs st ! i;
          st = (if chiProcessorMain (gproc p)
                then on_proc i (\<lambda>p. p\<lparr> lgray := lgray p @ ggray st \<rparr>) (st\<lparr> ggray := [] \<rparr>) else st);
          p = gprocs st ! i
      in map_option (\<lambda>(g, st). on_proc i (\<lambda>p. p\<lparr> lgray := g \<rparr>) st) (gcSlice opt env (lgray p) (lmark p) st))"

section \<open>Roots\<close>

definition chiGCRoot :: "u64 \<Rightarrow> 's gc_state \<Rightarrow> 's gc_state" where
  "chiGCRoot c st = st\<lparr> groot := groot st @ [c] \<rparr>"

definition chiGCUnroot :: "u64 \<Rightarrow> 's gc_state \<Rightarrow> 's gc_state" where
  "chiGCUnroot c st = st\<lparr> groot := remove1 c (groot st) \<rparr>"

definition markRoots :: "nat \<Rightarrow> 's gc_state \<Rightarrow> 's gc_state" where
  "markRoots i st =
     (let p = gprocs st ! i; ms = lmark p;
          s = (lgray p, gobjs st);
          s = (if chiProcessorMain (gproc p) then fold (chiMarkRef ms) (groot st) s else s);
          s = chiMark ms (plocal p) s;
          s = chiMarkNormal ms (pthread p) s
      in on_proc i (\<lambda>p. p\<lparr> lgray := fst s \<rparr>) (st\<lparr> gobjs := snd s \<rparr>))"

section \<open>The phases\<close>

definition gcLocalPhase :: "ChiGCPhase \<Rightarrow> gc_proc \<Rightarrow> gc_proc" where
  "gcLocalPhase ph p = p\<lparr> lphase := ph \<rparr>"

definition gcGlobalPhase :: "ChiGCPhase \<Rightarrow> 's gc_state \<Rightarrow> 's gc_state" where
  "gcGlobalPhase ph st = st\<lparr> gphase := ph \<rparr>"

definition gcPollRequest :: "nat \<Rightarrow> ChiGCPhase \<Rightarrow> nat \<Rightarrow> gc_proc \<Rightarrow> gc_proc" where
  "gcPollRequest i ph j p =
     (if lphase p \<noteq> ph \<and> j \<noteq> i then p\<lparr> gproc := fst (chiProcessorRequest REQUEST_HANDSHAKE (gproc p)) \<rparr> else p)"

definition gcPoll :: "nat \<Rightarrow> ChiGCPhase \<Rightarrow> 's gc_state \<Rightarrow> bool \<times> 's gc_state" where
  "gcPoll i ph st =
     (list_all (\<lambda>p. lphase p = ph) (gprocs st),
      st\<lparr> gprocs := map2 (gcPollRequest i ph) [0 ..< length (gprocs st)] (gprocs st) \<rparr>)"

definition gcGlobalTransition :: "nat \<Rightarrow> ChiGCPhase \<Rightarrow> ChiGCPhase \<Rightarrow> 's gc_state \<Rightarrow> bool \<times> 's gc_state" where
  "gcGlobalTransition i from to st =
     (case gcPoll i from st of (True, st) \<Rightarrow> (True, gcGlobalPhase to st) | (False, st) \<Rightarrow> (False, st))"

definition gcLocalTransition :: "ChiGCPhase \<Rightarrow> ChiGCPhase \<Rightarrow> gc_proc \<Rightarrow> bool \<times> gc_proc" where
  "gcLocalTransition from to p = (if lphase p = from then (True, gcLocalPhase to p) else (False, p))"

definition markDone :: "'s gc_state \<Rightarrow> bool" where
  "markDone st \<longleftrightarrow> list_all (\<lambda>p. lgray p = []) (gprocs st) \<and> gcWorkerGrayNull (gworkers st) \<and> ggray st = []"

text \<open>The end of marking: memory is handed to the sweepers, and the workers are told to change their colors.\<close>

definition gcMarkEnd :: "'s gc_env \<Rightarrow> 's gc_state \<Rightarrow> 's gc_state" where
  "gcMarkEnd env st =
     st\<lparr> gheap := env_acquire env (gheap st), sweepNeeded := True, gtrigger := False,
         gworkers := gcWorkerNotify WORKER_EPOCH (gworkers st) \<rparr>"

definition chiGCControl :: "gc_option \<Rightarrow> 's gc_env \<Rightarrow> nat \<Rightarrow> 's gc_state \<Rightarrow> 's gc_state" where
  "chiGCControl opt env i st =
     (case gphase st of
        GC_IDLE \<Rightarrow> if gtrigger st \<and> gcWorkerEpochAck (gworkers st) then snd (gcGlobalTransition i GC_IDLE GC_SYNC1 st) else st
      | GC_SYNC1 \<Rightarrow> snd (gcGlobalTransition i GC_SYNC1 GC_SYNC2 st)
      | GC_SYNC2 \<Rightarrow>
          (case gcGlobalTransition i GC_SYNC2 GC_ASYNC st of
             (True, st) \<Rightarrow> gcWorkerStart opt env (lmark (gprocs st ! i)) st
           | (False, st) \<Rightarrow> st)
      | GC_ASYNC \<Rightarrow>
          if markDone st
          then (case gcGlobalTransition i GC_ASYNC GC_IDLE st of (True, st) \<Rightarrow> gcMarkEnd env st | (False, st) \<Rightarrow> st)
          else st)"

text \<open>The three parts of \<open>chiGCSlice\<close>: the switch, which says whether a snapshot is due, the work, and sharing.\<close>

definition gcSliceSwitch :: "nat \<Rightarrow> 's gc_state \<Rightarrow> bool \<times> 's gc_state" where
  "gcSliceSwitch i st =
     (let p = gprocs st ! i
      in case gphase st of
           GC_SYNC1 \<Rightarrow>
             (case gcLocalTransition GC_IDLE GC_SYNC1 p of
                (True, p) \<Rightarrow> (False, on_proc i (\<lambda>_. p\<lparr> lmark := (lmark p)\<lparr> barrier := BARRIER_SYNC \<rparr> \<rparr>) st)
              | (False, p) \<Rightarrow> (False, st))
         | GC_SYNC2 \<Rightarrow> (False, on_proc i (\<lambda>_. snd (gcLocalTransition GC_SYNC1 GC_SYNC2 p)) st)
         | GC_ASYNC \<Rightarrow>
             if lphase p = GC_SYNC2
             then
               let p = p\<lparr> allocColor := black (lmark p) \<rparr>;
                   p = p\<lparr> lmark := (lmark p)\<lparr> barrier := BARRIER_ASYNC \<rparr> \<rparr>
               in (True, markRoots i (on_proc i (\<lambda>_. p) st))
             else (False, st)
         | GC_IDLE \<Rightarrow>
             (case gcLocalTransition GC_ASYNC GC_IDLE p of
                (True, p) \<Rightarrow> (False, on_proc i (\<lambda>_. p\<lparr> lmark := markStateEpoch ((lmark p)\<lparr> barrier := BARRIER_NONE \<rparr>) \<rparr>) st)
              | (False, p) \<Rightarrow> (False, st)))"

definition scavenger :: "'s gc_env \<Rightarrow> nat \<Rightarrow> nat \<Rightarrow> bool \<Rightarrow> 's gc_state \<Rightarrow> 's gc_state" where
  "scavenger env i aging snapshot st =
     (let p = gprocs st ! i
      in case env_scavenge env aging snapshot (lmark p) (lgray p, gobjs st, gheap st) of
           (g, h, s) \<Rightarrow> on_proc i (\<lambda>p. p\<lparr> lgray := g \<rparr>) (st\<lparr> gobjs := h, gheap := s \<rparr>))"

definition gcSliceWork :: "gc_option \<Rightarrow> 's gc_env \<Rightarrow> bool \<Rightarrow> nat \<Rightarrow> 's gc_state \<Rightarrow> 's gc_state option" where
  "gcSliceWork opt env snapshot i st =
     (case sliceBegin snapshot (gproc (gprocs st ! i)) of
        None \<Rightarrow> Some st
      | Some q \<Rightarrow>
          let aging = (if t_promote (gproc (gprocs st ! i)) then 0 else opt_aging opt);
              st = on_proc i (\<lambda>p. p\<lparr> gproc := q \<rparr>) st;
              st = scavenger env i aging snapshot st;
              st = on_proc i (\<lambda>p. p\<lparr> gproc := sliceEnd (gproc p) \<rparr>) st;
              st = (if snapshot then on_proc i (gcLocalPhase GC_ASYNC) st else st)
          in if opt_slice opt then gcIncSlice opt env i st else Some st)"

definition gcSliceShare :: "nat \<Rightarrow> 's gc_state \<Rightarrow> 's gc_state" where
  "gcSliceShare i st =
     (let p = gprocs st ! i
      in if lgray p \<noteq> []
         then on_proc i (\<lambda>p. p\<lparr> lgray := [] \<rparr>) (st\<lparr> ggray := ggray st @ lgray p, gworkers := gcWorkerNotify WORKER_RUN (gworkers st) \<rparr>)
         else st)"

definition chiGCSlice :: "gc_option \<Rightarrow> 's gc_env \<Rightarrow> nat \<Rightarrow> 's gc_state \<Rightarrow> 's gc_state option" where
  "chiGCSlice opt env i st =
     (case gcSliceSwitch i st of (snapshot, st) \<Rightarrow> map_option (gcSliceShare i) (gcSliceWork opt env snapshot i st))"

section \<open>Processors come and go\<close>

definition chiLocalGCSetup :: "gc_proc \<Rightarrow> gc_proc" where
  "chiLocalGCSetup p = p\<lparr> lgray := [], lmark := markStateInit \<rparr>"

definition chiLocalGCDestroy :: "nat \<Rightarrow> 's gc_state \<Rightarrow> 's gc_state" where
  "chiLocalGCDestroy i st = on_proc i (\<lambda>p. p\<lparr> lgray := [] \<rparr>) (st\<lparr> ggray := ggray st @ lgray (gprocs st ! i) \<rparr>)"

text \<open>The argument of a new processor holds the state of the processor that starts it.\<close>

definition inheritGCState :: "gc_proc \<Rightarrow> gc_proc \<Rightarrow> gc_proc" where
  "inheritGCState arg p = p\<lparr> lphase := lphase arg, lmark := lmark arg, allocColor := allocColor arg \<rparr>"

definition chiGCSetup :: "'s \<Rightarrow> objects \<Rightarrow> 's gc_state" where
  "chiGCSetup s h = \<lparr> gphase = GC_IDLE, gtrigger = False, sweepNeeded = False, ggray = [], groot = [], gstarted = False,
     gworkers = [], gprocs = [], gobjs = h, gheap = s \<rparr>"

definition new_gc_proc :: "processor \<Rightarrow> u64 \<Rightarrow> gc_proc" where
  "new_gc_proc q t = chiLocalGCSetup \<lparr> gproc = q, lgray = [], lphase = GC_IDLE, lmark = markStateInit,
     allocColor = white markStateInit, plocal = 0, pthread = t, ppos = Slice_out \<rparr>"

section \<open>All steps together\<close>

text \<open>Every step may meet another environment. The mutator steps of a processor are between its slices: the write
  barrier, and any change of objects, roots and requests; only processor steps with an index of a processor are meant.\<close>

inductive gc_step :: "gc_option \<Rightarrow> 's gc_state \<Rightarrow> 's gc_state \<Rightarrow> bool" for opt where
  control: "i < length (gprocs st) \<Longrightarrow> chiProcessorMain (gproc (gprocs st ! i)) \<Longrightarrow> ppos (gprocs st ! i) = Slice_out \<Longrightarrow>
    gc_step opt st (chiGCControl opt env i st)"
| switch: "i < length (gprocs st) \<Longrightarrow> ppos (gprocs st ! i) = Slice_out \<Longrightarrow> gcSliceSwitch i st = (snapshot, st') \<Longrightarrow>
    gc_step opt st (on_proc i (\<lambda>p. p\<lparr>ppos := Slice_work snapshot\<rparr>) st')"
| work: "i < length (gprocs st) \<Longrightarrow> ppos (gprocs st ! i) = Slice_work snapshot \<Longrightarrow> gcSliceWork opt env snapshot i st = Some st' \<Longrightarrow>
    gc_step opt st (on_proc i (\<lambda>p. p\<lparr>ppos := Slice_share\<rparr>) st')"
| share: "i < length (gprocs st) \<Longrightarrow> ppos (gprocs st ! i) = Slice_share \<Longrightarrow>
    gc_step opt st (on_proc i (\<lambda>p. p\<lparr>ppos := Slice_out\<rparr>) (gcSliceShare i st))"
| sync: "k < length (gworkers st) \<Longrightarrow> \<not> wrun (gworkers st ! k) \<Longrightarrow> 0 < n \<Longrightarrow> gcWorkerSync n k st = (res, st') \<Longrightarrow>
    gc_step opt st (on_worker k (\<lambda>w. w\<lparr>wrun := (res = Some True)\<rparr>) st')"
| slice: "k < length (gworkers st) \<Longrightarrow> wrun (gworkers st ! k) \<Longrightarrow>
    gcSlice opt env (wgray (gworkers st ! k)) (wmark (gworkers st ! k)) st = Some (g, st') \<Longrightarrow>
    gc_step opt st (on_worker k (\<lambda>w. w\<lparr>wgray := g, wrun := False\<rparr>) st')"
| field_write: "i < length (gprocs st) \<Longrightarrow> ppos (gprocs st ! i) = Slice_out \<Longrightarrow> barrier (lmark (gprocs st ! i)) \<noteq> BARRIER_NONE \<Longrightarrow>
    chiMarkBarrier (lmark (gprocs st ! i)) old val (lgray (gprocs st ! i), gobjs st) = (g, h) \<Longrightarrow>
    gc_step opt st (on_proc i (\<lambda>p. p\<lparr>lgray := g\<rparr>) (st\<lparr>gobjs := h\<rparr>))"
| mutate: "i < length (gprocs st) \<Longrightarrow> ppos (gprocs st ! i) = Slice_out \<Longrightarrow>
    gc_step opt st (on_proc i (\<lambda>p. p\<lparr>plocal := c, pthread := t\<rparr>) (st\<lparr>gobjs := h, gheap := s\<rparr>))"
| request: "i < length (gprocs st) \<Longrightarrow> pwid q = pwid (gproc (gprocs st ! i)) \<Longrightarrow> gc_step opt st (on_proc i (\<lambda>p. p\<lparr>gproc := q\<rparr>) st)"
| trigger: "gc_step opt st (st\<lparr>gtrigger := True\<rparr>)"
| root: "gc_step opt st (chiGCRoot c st)"
| unroot: "gc_step opt st (chiGCUnroot c st)"
| start: "i < length (gprocs st) \<Longrightarrow> ppos (gprocs st ! i) = Slice_out \<Longrightarrow>
    gc_step opt st (st\<lparr>gprocs := gprocs st @ [inheritGCState (gprocs st ! i) (new_gc_proc q t)]\<rparr>)"
| finish: "i < length (gprocs st) \<Longrightarrow> ppos (gprocs st ! i) = Slice_out \<Longrightarrow> \<not> chiProcessorMain (gproc (gprocs st ! i)) \<Longrightarrow>
    chiLocalGCDestroy i st = st' \<Longrightarrow> gc_step opt st (st'\<lparr>gprocs := take i (gprocs st') @ drop (Suc i) (gprocs st')\<rparr>)"

definition gc_start :: "'s \<Rightarrow> objects \<Rightarrow> processor \<Rightarrow> u64 \<Rightarrow> 's gc_state" where
  "gc_start s h q t = (chiGCSetup s h)\<lparr> gprocs := [new_gc_proc q t] \<rparr>"

section \<open>The invariant of the phases\<close>

definition cycle :: "nat \<Rightarrow> ChiMarkState" where
  "cycle k = (markStateEpoch ^^ k) markStateInit"

lemma cycle_Suc: "cycle (Suc k) = markStateEpoch (cycle k)"
  by (simp add: cycle_def)

lemma cycle_0: "cycle 0 = markStateInit"
  by (simp add: cycle_def)

lemma cycle_is_cycle: "cycle_colors (cycle k)"
  by (induction k) (simp_all add: cycle_0 cycle_Suc cycle_init cycle_epoch)

lemma cycle_barrier [simp]: "barrier (cycle k) = BARRIER_NONE"
  by (induction k) (simp_all add: cycle_0 cycle_Suc markStateInit_def markStateEpoch_def)

lemma cycle_white: "white (cycle (Suc k)) = black (cycle k)"
  using cycle_is_cycle [of k] by (simp add: cycle_Suc markStateEpoch_def CHI_COLOR_EPOCH_def cycle_colors_def)

lemma epoch_barrier: "markStateEpoch ((cycle k)\<lparr>barrier := b\<rparr>) = (cycle (Suc k))\<lparr>barrier := b\<rparr>"
  by (simp add: cycle_Suc markStateEpoch_def)

lemma cycle_no_barrier: "(cycle k)\<lparr>barrier := BARRIER_NONE\<rparr> = cycle k"
  by (metis ChiMarkState.surjective ChiMarkState.update_convs(4) cycle_barrier)

text \<open>The colors and the barrier of a processor: before, during and after the handshakes of a cycle.\<close>

definition calm :: "nat \<Rightarrow> gc_proc \<Rightarrow> bool" where
  "calm k p \<longleftrightarrow> lmark p = (cycle k)\<lparr>barrier := BARRIER_NONE\<rparr> \<and> allocColor p = white (cycle k)"

definition synced :: "nat \<Rightarrow> gc_proc \<Rightarrow> bool" where
  "synced k p \<longleftrightarrow> lmark p = (cycle k)\<lparr>barrier := BARRIER_SYNC\<rparr> \<and> allocColor p = white (cycle k)"

definition marking :: "nat \<Rightarrow> gc_proc \<Rightarrow> bool" where
  "marking k p \<longleftrightarrow> lmark p = (cycle k)\<lparr>barrier := BARRIER_ASYNC\<rparr> \<and> allocColor p = black (cycle k)"

definition proc_ok :: "nat \<Rightarrow> ChiGCPhase \<Rightarrow> gc_proc \<Rightarrow> bool" where
  "proc_ok k ph p \<longleftrightarrow>
     (if ppos p = Slice_work True then ph = GC_ASYNC \<and> lphase p = GC_SYNC2 \<and> marking k p
      else case ph of
        GC_IDLE \<Rightarrow> lphase p = GC_IDLE \<and> calm k p \<or> lphase p = GC_ASYNC \<and> (\<exists>j. k = Suc j \<and> marking j p)
      | GC_SYNC1 \<Rightarrow> lphase p = GC_IDLE \<and> calm k p \<or> lphase p = GC_SYNC1 \<and> synced k p
      | GC_SYNC2 \<Rightarrow> (lphase p = GC_SYNC1 \<or> lphase p = GC_SYNC2) \<and> synced k p
      | GC_ASYNC \<Rightarrow> lphase p = GC_SYNC2 \<and> synced k p \<or> lphase p = GC_ASYNC \<and> marking k p)"

definition of_cycle :: "nat \<Rightarrow> ChiMarkState \<Rightarrow> bool" where
  "of_cycle k ms \<longleftrightarrow> (\<exists>b. ms = (cycle k)\<lparr>barrier := b\<rparr>)"

lemma of_cycle_epoch: "of_cycle j ms \<Longrightarrow> of_cycle (Suc j) (markStateEpoch ms)"
  by (auto simp: of_cycle_def epoch_barrier)

definition worker_ok :: "nat \<Rightarrow> ChiGCPhase \<Rightarrow> gc_worker \<Rightarrow> bool" where
  "worker_ok k ph w \<longleftrightarrow> wstatus w \<noteq> WORKER_STOP \<and> (wstatus w = WORKER_WAIT \<longrightarrow> \<not> wrun w) \<and>
     (if wstatus w = WORKER_EPOCH then ph = GC_IDLE \<and> \<not> wrun w \<and> (\<exists>j. k = Suc j \<and> of_cycle j (wmark w))
      else of_cycle k (wmark w))"

definition phases_ok :: "nat \<Rightarrow> 's gc_state \<Rightarrow> bool" where
  "phases_ok k st \<longleftrightarrow> (\<forall>p \<in> set (gprocs st). proc_ok k (gphase st) p) \<and> (\<forall>w \<in> set (gworkers st). worker_ok k (gphase st) w)"

text \<open>What the invariant looks at.\<close>

lemma on_proc_simps [simp]:
  "gphase (on_proc i f st) = gphase st" "gworkers (on_proc i f st) = gworkers st" "gstarted (on_proc i f st) = gstarted st"
  "sweepNeeded (on_proc i f st) = sweepNeeded st" "ggray (on_proc i f st) = ggray st" "gobjs (on_proc i f st) = gobjs st"
  "gprocs (on_proc i f st) = (gprocs st)[i := f (gprocs st ! i)]"
  by (simp_all add: on_proc_def)

lemma on_worker_simps [simp]:
  "gphase (on_worker i f st) = gphase st" "gprocs (on_worker i f st) = gprocs st"
  "gworkers (on_worker i f st) = (gworkers st)[i := f (gworkers st ! i)]"
  by (simp_all add: on_worker_def)

lemma phases_on_proc:
  assumes "phases_ok k st" "i < length (gprocs st) \<Longrightarrow> proc_ok k (gphase st) (f (gprocs st ! i))"
  shows "phases_ok k (on_proc i f st)"
  using assms by (cases "i < length (gprocs st)") (auto simp: phases_ok_def list_update_beyond dest: set_update_subset_insert [THEN subsetD])

lemma phases_on_worker:
  assumes "phases_ok k st" "i < length (gworkers st) \<Longrightarrow> worker_ok k (gphase st) (f (gworkers st ! i))"
  shows "phases_ok k (on_worker i f st)"
  using assms by (cases "i < length (gworkers st)") (auto simp: phases_ok_def list_update_beyond dest: set_update_subset_insert [THEN subsetD])

lemma phases_proc: "phases_ok k st \<Longrightarrow> i < length (gprocs st) \<Longrightarrow> proc_ok k (gphase st) (gprocs st ! i)"
  by (simp add: phases_ok_def)

lemma phases_worker: "phases_ok k st \<Longrightarrow> i < length (gworkers st) \<Longrightarrow> worker_ok k (gphase st) (gworkers st ! i)"
  by (simp add: phases_ok_def)

lemma phases_same:
  "gphase st' = gphase st \<Longrightarrow> gprocs st' = gprocs st \<Longrightarrow> gworkers st' = gworkers st \<Longrightarrow> phases_ok k st' = phases_ok k st"
  by (simp add: phases_ok_def)

lemma notify_run_ok: "\<forall>w \<in> set ws. worker_ok k ph w \<Longrightarrow> \<forall>w \<in> set (gcWorkerNotify WORKER_RUN ws). worker_ok k ph w"
  by (auto simp: gcWorkerNotify_def worker_ok_def)

section \<open>Every step keeps the phases in step\<close>

definition next_phase :: "ChiGCPhase \<Rightarrow> ChiGCPhase" where
  "next_phase ph = (case ph of GC_IDLE \<Rightarrow> GC_SYNC1 | GC_SYNC1 \<Rightarrow> GC_SYNC2 | GC_SYNC2 \<Rightarrow> GC_ASYNC | GC_ASYNC \<Rightarrow> GC_IDLE)"

definition next_cycle :: "ChiGCPhase \<Rightarrow> nat \<Rightarrow> nat" where
  "next_cycle ph k = (if ph = GC_ASYNC then Suc k else k)"

lemma proc_parts [simp]:
  "proc_ok k ph (p\<lparr>gproc := q\<rparr>) = proc_ok k ph p" "proc_ok k ph (p\<lparr>lgray := g\<rparr>) = proc_ok k ph p"
  "proc_ok k ph (p\<lparr>plocal := c\<rparr>) = proc_ok k ph p" "proc_ok k ph (p\<lparr>pthread := c\<rparr>) = proc_ok k ph p"
  "worker_ok k ph (w\<lparr>wgray := g\<rparr>) = worker_ok k ph w"
  by (simp_all add: proc_ok_def calm_def synced_def marking_def worker_ok_def cong: ChiGCPhase.case_cong)

lemma proc_advance: "proc_ok k ph p \<Longrightarrow> lphase p = ph \<Longrightarrow> proc_ok (next_cycle ph k) (next_phase ph) p"
  by (cases ph) (auto simp: proc_ok_def next_phase_def next_cycle_def split: if_splits)

lemma poll_request_ok: "proc_ok k ph' (gcPollRequest i ph j p) = proc_ok k ph' p" "lphase (gcPollRequest i ph j p) = lphase p"
  "lmark (gcPollRequest i ph j p) = lmark p"
  by (simp_all add: gcPollRequest_def)

lemma poll_procs:
  assumes "gcPoll i ph st = (b, st')"
  shows "gphase st' = gphase st" "gworkers st' = gworkers st" "length (gprocs st') = length (gprocs st)"
    "j < length (gprocs st) \<Longrightarrow> gprocs st' ! j = gcPollRequest i ph j (gprocs st ! j)"
    "b \<longleftrightarrow> (\<forall>p \<in> set (gprocs st). lphase p = ph)"
  using assms by (auto simp: gcPoll_def list_all_iff)

lemma poll_ok:
  assumes "gcPoll i ph st = (b, st')" "phases_ok k st"
  shows "phases_ok k st'"
  using assms(2) poll_procs [OF assms(1)] poll_request_ok unfolding phases_ok_def all_set_conv_all_nth by simp

lemma transition_ok:
  assumes r: "gcGlobalTransition i ph (next_phase ph) st = (b, st')" and ok: "phases_ok k st" "gphase st = ph"
    and w: "\<forall>w \<in> set (gworkers st). worker_ok (next_cycle ph k) (next_phase ph) (f w)"
  shows "if b then phases_ok (next_cycle ph k) (st'\<lparr>gworkers := map f (gworkers st)\<rparr>) \<and> gphase st' = next_phase ph \<and> gworkers st' = gworkers st \<and>
      length (gprocs st') = length (gprocs st) \<and> (\<forall>p \<in> set (gprocs st'). lphase p = ph)
    else phases_ok k st'"
proof -
  obtain b' u where u: "gcPoll i ph st = (b', u)" by fastforce
  note P = poll_procs [OF u] and O = poll_ok [OF u ok(1)]
  show ?thesis
  proof (cases b')
    case False
    then show ?thesis using r u O by (simp add: gcGlobalTransition_def)
  next
    case True
    have e: "b" "st' = gcGlobalPhase (next_phase ph) u" using r u True by (simp_all add: gcGlobalTransition_def)
    have l: "\<forall>p \<in> set (gprocs u). lphase p = ph" using P(3-5) True poll_request_ok(2) unfolding all_set_conv_all_nth by simp
    then have "\<forall>p \<in> set (gprocs u). proc_ok (next_cycle ph k) (next_phase ph) p"
      using O proc_advance P(1) ok(2) unfolding phases_ok_def by metis
    then show ?thesis using e w l P(2,3) by (simp add: gcGlobalPhase_def phases_ok_def)
  qed
qed

lemma worker_no_epoch:
  "worker_ok k ph w \<Longrightarrow> wstatus w \<noteq> WORKER_EPOCH \<Longrightarrow> worker_ok k ph' w"
  by (simp add: worker_ok_def)

lemma worker_epoch_idle: "worker_ok k ph w \<Longrightarrow> wstatus w = WORKER_EPOCH \<Longrightarrow> ph = GC_IDLE"
  by (simp add: worker_ok_def)

lemma worker_to_epoch: "worker_ok k ph w \<Longrightarrow> wstatus w = WORKER_WAIT \<Longrightarrow> worker_ok (Suc k) GC_IDLE (w\<lparr>wstatus := WORKER_EPOCH\<rparr>)"
  by (simp add: worker_ok_def)

lemma same_workers: "st\<lparr>gworkers := map (\<lambda>w. w) (gworkers st)\<rparr> = st"
  by simp

lemma start_workers_ok:
  assumes "phases_ok k st" "gphase st = GC_ASYNC" "of_cycle k ms"
  shows "phases_ok k (gcWorkerStart opt env ms st)"
  using assms by (auto simp: gcWorkerStart_def phases_ok_def worker_ok_def)

text \<open>Work on the objects and the heap does not matter for the phases.\<close>

definition phases_eq :: "'s gc_state \<Rightarrow> 's gc_state \<Rightarrow> bool" where
  "phases_eq st st' \<longleftrightarrow> gphase st' = gphase st \<and> gprocs st' = gprocs st \<and> gworkers st' = gworkers st"

lemma phases_eqD: "phases_eq st st' \<Longrightarrow> phases_ok k st' = phases_ok k st"
  by (simp add: phases_eq_def phases_ok_def)

lemma control_ok:
  assumes ok: "phases_ok k st" and i: "i < length (gprocs st)"
  shows "\<exists>k. phases_ok k (chiGCControl opt env i st)"
proof -
  have w: "\<forall>w \<in> set (gworkers st). worker_ok k (gphase st) w" using ok by (simp add: phases_ok_def)
  have advance: "phases_ok k' st'" if r: "gcGlobalTransition i ph (next_phase ph) st = (b, st')" "gphase st = ph" "ph \<noteq> GC_ASYNC"
      "\<forall>w \<in> set (gworkers st). wstatus w \<noteq> WORKER_EPOCH" "k' = k" for ph b st' k'
  proof -
    have "\<forall>w \<in> set (gworkers st). worker_ok (next_cycle ph k) (next_phase ph) w"
      using w worker_no_epoch r(2-4) by (metis next_cycle_def)
    from transition_ok [OF r(1) ok r(2), of "\<lambda>w. w"] this show ?thesis using r(3,5) by (cases b) (auto simp: next_cycle_def phases_ok_def)
  qed
  have ne: "gphase st \<noteq> GC_IDLE \<Longrightarrow> \<forall>w \<in> set (gworkers st). wstatus w \<noteq> WORKER_EPOCH" using w worker_epoch_idle by blast
  show ?thesis
  proof (cases "gphase st")
    case GC_IDLE
    show ?thesis
    proof (cases "gtrigger st \<and> gcWorkerEpochAck (gworkers st)")
      case True
      then have "\<forall>w \<in> set (gworkers st). wstatus w \<noteq> WORKER_EPOCH" by (simp add: gcWorkerEpochAck_def list_all_iff)
      then show ?thesis using advance [of GC_IDLE _ _ k] GC_IDLE True
        by (cases "gcGlobalTransition i GC_IDLE GC_SYNC1 st") (auto simp: chiGCControl_def next_phase_def)
    qed (use ok GC_IDLE in \<open>auto simp: chiGCControl_def\<close>)
  next
    case GC_SYNC1
    then show ?thesis using advance [of GC_SYNC1 _ _ k] ne
      by (cases "gcGlobalTransition i GC_SYNC1 GC_SYNC2 st") (auto simp: chiGCControl_def next_phase_def)
  next
    case GC_SYNC2
    obtain b st' where r: "gcGlobalTransition i GC_SYNC2 (next_phase GC_SYNC2) st = (b, st')" by fastforce
    have n: "next_phase GC_SYNC2 = GC_ASYNC" by (simp add: next_phase_def)
    have a: "phases_ok k st'" using advance [OF r] GC_SYNC2 ne by simp
    have "\<forall>w \<in> set (gworkers st). worker_ok (next_cycle GC_SYNC2 k) (next_phase GC_SYNC2) ((\<lambda>w. w) w)"
      using w worker_no_epoch ne GC_SYNC2 by (metis ChiGCPhase.distinct(11) ChiGCPhase.distinct(3) next_cycle_def)
    note T = transition_ok [OF r ok GC_SYNC2 this]
    show ?thesis
    proof (cases b)
      case True
      then have "gprocs st' ! i \<in> set (gprocs st')" "gphase st' = GC_ASYNC" "\<forall>p \<in> set (gprocs st'). lphase p = GC_SYNC2"
        using T i n by simp_all
      then have l: "proc_ok k GC_ASYNC (gprocs st' ! i)" "lphase (gprocs st' ! i) = GC_SYNC2" "gphase st' = GC_ASYNC"
        using a by (auto simp: phases_ok_def)
      have "of_cycle k (lmark (gprocs st' ! i))"
        using l(1,2) unfolding of_cycle_def by (auto simp: proc_ok_def synced_def marking_def split: if_splits)
      then have "phases_ok k (gcWorkerStart opt env (lmark (gprocs st' ! i)) st')" using start_workers_ok [OF a l(3)] by blast
      then show ?thesis using r True GC_SYNC2 n by (auto simp: chiGCControl_def)
    qed (use a r GC_SYNC2 n in \<open>auto simp: chiGCControl_def\<close>)
  next
    case GC_ASYNC
    show ?thesis
    proof (cases "markDone st")
      case True
      obtain b st' where r: "gcGlobalTransition i GC_ASYNC (next_phase GC_ASYNC) st = (b, st')" by fastforce
      let ?f = "\<lambda>w. if wstatus w = WORKER_WAIT then w\<lparr>wstatus := WORKER_EPOCH\<rparr> else w"
      have n: "next_phase GC_ASYNC = GC_IDLE" "next_cycle GC_ASYNC k = Suc k" by (simp_all add: next_phase_def next_cycle_def)
      have "\<forall>w \<in> set (gworkers st). wstatus w = WORKER_WAIT" using True by (simp add: markDone_def gcWorkerGrayNull_def list_all_iff)
      then have "\<forall>w \<in> set (gworkers st). worker_ok (next_cycle GC_ASYNC k) (next_phase GC_ASYNC) (?f w)"
        using w worker_to_epoch n by auto
      note T = transition_ok [OF r ok GC_ASYNC this]
      show ?thesis
      proof (cases b)
        case b: True
        have "chiGCControl opt env i st = gcMarkEnd env st'" using r True b GC_ASYNC n by (simp add: chiGCControl_def)
        moreover have "phases_ok (Suc k) (gcMarkEnd env st')"
        proof -
          have t: "phases_ok (Suc k) (st'\<lparr>gworkers := map ?f (gworkers st)\<rparr>)" "gworkers st' = gworkers st"
            using T b unfolding n by simp_all
          show ?thesis by (rule phases_eqD [THEN iffD1, OF _ t(1)]) (simp add: phases_eq_def gcMarkEnd_def gcWorkerNotify_def t(2))
        qed
        ultimately show ?thesis by auto
      next
        case False
        then show ?thesis using T r True GC_ASYNC n by (auto simp: chiGCControl_def)
      qed
    qed (use ok GC_ASYNC in \<open>auto simp: chiGCControl_def\<close>)
  qed
qed

lemma gc_slice_eq: "gcSlice opt env g ms st = Some (g', st') \<Longrightarrow> phases_eq st st'"
  by (auto simp: gcSlice_def markSlice_def sweepSlice_def phases_eq_def Let_def split: if_splits prod.splits)

lemma phases_replace:
  assumes "phases_ok k st" "gprocs st' = (gprocs st)[i := q]" "proc_ok k (gphase st) q"
    and "gphase st' = gphase st" "gworkers st' = gworkers st"
  shows "phases_ok k st'"
  using assms(1,3) unfolding phases_ok_def assms(2,4,5) by (blast dest: set_update_subset_insert [THEN subsetD])

lemma inc_slice_procs:
  assumes "gcIncSlice opt env i st = Some st'"
  shows "gphase st' = gphase st \<and> gworkers st' = gworkers st \<and> (\<exists>g. gprocs st' = (gprocs st)[i := (gprocs st ! i)\<lparr>lgray := g\<rparr>])"
proof -
  let ?u = "if chiProcessorMain (gproc (gprocs st ! i))
    then on_proc i (\<lambda>p. p\<lparr>lgray := lgray p @ ggray st\<rparr>) (st\<lparr>ggray := []\<rparr>) else st"
  obtain g v where v: "gcSlice opt env (lgray (gprocs ?u ! i)) (lmark (gprocs ?u ! i)) ?u = Some (g, v)" "st' = on_proc i (\<lambda>p. p\<lparr>lgray := g\<rparr>) v"
    using assms by (auto simp: gcIncSlice_def Let_def)
  have "phases_eq ?u v" by (rule gc_slice_eq [OF v(1)])
  then show ?thesis unfolding v(2)
    by (cases "i < length (gprocs st)") (auto simp: phases_eq_def list_update_beyond split: if_splits)
qed

lemma mark_roots_procs: "gphase (markRoots i st) = gphase st \<and> gworkers (markRoots i st) = gworkers st \<and>
    (\<exists>g. gprocs (markRoots i st) = (gprocs st)[i := (gprocs st ! i)\<lparr>lgray := g\<rparr>])"
  by (auto simp: markRoots_def Let_def)

lemma switch_procs:
  assumes p: "proc_ok k (gphase st) (gprocs st ! i)" and i: "i < length (gprocs st)" "ppos (gprocs st ! i) = Slice_out"
    and r: "gcSliceSwitch i st = (snapshot, st')"
  shows "\<exists>q. proc_ok k (gphase st) (q\<lparr>ppos := Slice_work snapshot\<rparr>) \<and> gphase st' = gphase st \<and> gworkers st' = gworkers st \<and>
    gprocs st' = (gprocs st)[i := q]"
proof (cases "gphase st")
  case GC_IDLE
  let ?p = "gprocs st ! i"
  let ?q = "if lphase ?p = GC_ASYNC then ?p\<lparr>lphase := GC_IDLE, lmark := markStateEpoch ((lmark ?p)\<lparr>barrier := BARRIER_NONE\<rparr>)\<rparr> else ?p"
  have "proc_ok k (gphase st) (?q\<lparr>ppos := Slice_work False\<rparr>)"
    using p i GC_IDLE by (auto simp: proc_ok_def calm_def marking_def epoch_barrier cycle_white)
  then show ?thesis using r GC_IDLE by (intro exI [of _ ?q]) (auto simp: gcSliceSwitch_def gcLocalTransition_def gcLocalPhase_def Let_def split: if_splits)
next
  case GC_SYNC1
  let ?p = "gprocs st ! i"
  let ?q = "if lphase ?p = GC_IDLE then ?p\<lparr>lphase := GC_SYNC1, lmark := (lmark ?p)\<lparr>barrier := BARRIER_SYNC\<rparr>\<rparr> else ?p"
  have "proc_ok k (gphase st) (?q\<lparr>ppos := Slice_work False\<rparr>)"
    using p i GC_SYNC1 by (auto simp: proc_ok_def calm_def synced_def)
  then show ?thesis using r GC_SYNC1 by (intro exI [of _ ?q]) (auto simp: gcSliceSwitch_def gcLocalTransition_def gcLocalPhase_def Let_def split: if_splits)
next
  case GC_SYNC2
  let ?p = "gprocs st ! i"
  let ?q = "if lphase ?p = GC_SYNC1 then ?p\<lparr>lphase := GC_SYNC2\<rparr> else ?p"
  have "proc_ok k (gphase st) (?q\<lparr>ppos := Slice_work False\<rparr>)"
    using p i GC_SYNC2 by (auto simp: proc_ok_def synced_def)
  then show ?thesis using r GC_SYNC2 by (intro exI [of _ ?q]) (auto simp: gcSliceSwitch_def gcLocalTransition_def gcLocalPhase_def Let_def split: if_splits)
next
  case GC_ASYNC
  let ?p = "gprocs st ! i"
  show ?thesis
  proof (cases "lphase ?p = GC_SYNC2")
    case True
    let ?q = "?p\<lparr>allocColor := black (lmark ?p), lmark := (lmark ?p)\<lparr>barrier := BARRIER_ASYNC\<rparr>\<rparr>"
    have e: "snapshot" "st' = markRoots i (on_proc i (\<lambda>_. ?q) st)" using r GC_ASYNC True by (simp_all add: gcSliceSwitch_def Let_def)
    have q: "proc_ok k (gphase st) (?q\<lparr>lgray := g, ppos := Slice_work True\<rparr>)" for g
      using p i GC_ASYNC True by (auto simp: proc_ok_def synced_def marking_def)
    obtain g where "gprocs st' = (gprocs st)[i := ?q\<lparr>lgray := g\<rparr>]" "gphase st' = gphase st" "gworkers st' = gworkers st"
      using mark_roots_procs [of i "on_proc i (\<lambda>_. ?q) st"] i(1) unfolding e(2) by auto
    then show ?thesis using e(1) q [of g] by (intro exI [of _ "?q\<lparr>lgray := g\<rparr>"]) simp
  next
    case False
    then have "proc_ok k (gphase st) (?p\<lparr>ppos := Slice_work False\<rparr>)" using p i GC_ASYNC by (auto simp: proc_ok_def marking_def)
    then show ?thesis using r GC_ASYNC False by (intro exI [of _ ?p]) (auto simp: gcSliceSwitch_def Let_def)
  qed
qed

lemma switch_ok:
  assumes ok: "phases_ok k st" and i: "i < length (gprocs st)" "ppos (gprocs st ! i) = Slice_out"
    and r: "gcSliceSwitch i st = (snapshot, st')"
  shows "phases_ok k (on_proc i (\<lambda>p. p\<lparr>ppos := Slice_work snapshot\<rparr>) st')"
proof -
  obtain q where q: "proc_ok k (gphase st) (q\<lparr>ppos := Slice_work snapshot\<rparr>)" "gphase st' = gphase st" "gworkers st' = gworkers st"
    "gprocs st' = (gprocs st)[i := q]"
    using switch_procs [OF phases_proc [OF ok i(1)] i r] by blast
  show ?thesis by (rule phases_replace [OF ok _ q(1), of _ i]) (use q i(1) in simp_all)
qed

lemma proc_share:
  assumes "proc_ok k ph p" "ppos p = Slice_work b"
  shows "proc_ok k ph (((if b then gcLocalPhase GC_ASYNC else (\<lambda>p. p)) p)\<lparr>ppos := Slice_share\<rparr>)"
  using assms by (cases b; cases ph) (auto simp: proc_ok_def calm_def synced_def marking_def gcLocalPhase_def)

lemma slice_gray:
  "((if b then gcLocalPhase ph else (\<lambda>p. p)) (p\<lparr>lgray := g, gproc := q\<rparr>))\<lparr>lgray := g'\<rparr> =
   (if b then gcLocalPhase ph else (\<lambda>p. p)) (p\<lparr>lgray := g', gproc := q\<rparr>)"
  by (cases p) (simp add: gcLocalPhase_def)

lemma work_ok:
  assumes ok: "phases_ok k st" and i: "i < length (gprocs st)" "ppos (gprocs st ! i) = Slice_work snapshot"
    and r: "gcSliceWork opt env snapshot i st = Some st'"
  shows "phases_ok k (on_proc i (\<lambda>p. p\<lparr>ppos := Slice_share\<rparr>) st')"
proof -
  let ?p = "gprocs st ! i" and ?ph = "if snapshot then gcLocalPhase GC_ASYNC else (\<lambda>p. p)"
  have p: "proc_ok k (gphase st) ?p" using phases_proc [OF ok i(1)] .
  obtain g q where q: "gprocs st' = (gprocs st)[i := ?ph (?p\<lparr>lgray := g, gproc := q\<rparr>)]" "gphase st' = gphase st" "gworkers st' = gworkers st"
  proof (cases "sliceBegin snapshot (gproc ?p)")
    case None
    then have "\<not> snapshot" "st' = st" using r by (auto simp: gcSliceWork_def sliceBegin_def split: if_splits)
    then show thesis using that [of "gproc ?p" "lgray ?p"] by simp
  next
    case (Some q)
    let ?a = "if t_promote (gproc ?p) then 0 else opt_aging opt"
    let ?st0 = "on_proc i (\<lambda>p. p\<lparr>gproc := q\<rparr>) st"
    define st2 where "st2 = on_proc i (\<lambda>p. p\<lparr>gproc := sliceEnd (gproc p)\<rparr>) (scavenger env i ?a snapshot ?st0)"
    let ?st3 = "if snapshot then on_proc i (gcLocalPhase GC_ASYNC) st2 else st2"
    obtain g h s where sc: "env_scavenge env ?a snapshot (lmark ?p) (lgray ?p, gobjs st, gheap ?st0) = (g, h, s)"
      using prod_cases3 by blast
    have e2: "gphase st2 = gphase st" "gworkers st2 = gworkers st" "gprocs st2 = (gprocs st)[i := ?p\<lparr>lgray := g, gproc := sliceEnd q\<rparr>]"
      using sc i(1) by (simp_all add: scavenger_def st2_def)
    have e: "gphase ?st3 = gphase st" "gworkers ?st3 = gworkers st" "gprocs ?st3 = (gprocs st)[i := ?ph (?p\<lparr>lgray := g, gproc := sliceEnd q\<rparr>)]"
      using e2 i(1) by (cases snapshot; simp)+
    have u: "if opt_slice opt then gcIncSlice opt env i ?st3 = Some st' else ?st3 = st'"
      using r Some unfolding gcSliceWork_def Let_def st2_def by (simp split: if_splits)
    show thesis
    proof (cases "opt_slice opt")
      case True
      then obtain g' where "gphase st' = gphase ?st3" "gworkers st' = gworkers ?st3" "gprocs st' = (gprocs ?st3)[i := (gprocs ?st3 ! i)\<lparr>lgray := g'\<rparr>]"
        using inc_slice_procs [of opt env i ?st3 st'] u by auto
      then have "gprocs st' = (gprocs st)[i := ?ph (?p\<lparr>lgray := g', gproc := sliceEnd q\<rparr>)]" "gphase st' = gphase st" "gworkers st' = gworkers st"
        unfolding e using i(1) by (simp_all add: slice_gray)
      then show thesis using that by blast
    next
      case False
      then show thesis using that e u by auto
    qed
  qed
  have "proc_ok k (gphase st) ((?ph (?p\<lparr>lgray := g, gproc := q\<rparr>))\<lparr>ppos := Slice_share\<rparr>)"
    by (rule proc_share) (use p i(2) in simp_all)
  then show ?thesis using q i(1) by (intro phases_replace [OF ok, of _ i]) simp_all
qed

lemma share_ok:
  assumes ok: "phases_ok k st" and i: "i < length (gprocs st)" "ppos (gprocs st ! i) = Slice_share"
  shows "phases_ok k (on_proc i (\<lambda>p. p\<lparr>ppos := Slice_out\<rparr>) (gcSliceShare i st))"
proof -
  let ?n = "gcWorkerNotify WORKER_RUN (gworkers st)"
  have p: "proc_ok k (gphase st) ((gprocs st ! i)\<lparr>ppos := Slice_out\<rparr>)"
    using phases_proc [OF ok i(1)] i(2) by (simp add: proc_ok_def calm_def synced_def marking_def cong: ChiGCPhase.case_cong)
  then have q: "proc_ok k (gphase st) ((gprocs st ! i)\<lparr>lgray := [], ppos := Slice_out\<rparr>)"
    by (simp add: proc_ok_def calm_def synced_def marking_def cong: ChiGCPhase.case_cong)
  have n: "phases_ok k (st\<lparr>ggray := g, gworkers := ?n\<rparr>)" for g
    using ok notify_run_ok [of "gworkers st" k "gphase st"] by (simp add: phases_ok_def)
  show ?thesis
  proof (cases "lgray (gprocs st ! i) = []")
    case True
    then show ?thesis using phases_on_proc [OF ok, of i] p by (simp add: gcSliceShare_def)
  next
    case False
    show ?thesis
    proof (rule phases_replace [OF n [of "ggray st @ lgray (gprocs st ! i)"], of _ i "(gprocs st ! i)\<lparr>lgray := [], ppos := Slice_out\<rparr>"])
      show "proc_ok k (gphase (st\<lparr>ggray := ggray st @ lgray (gprocs st ! i), gworkers := ?n\<rparr>)) ((gprocs st ! i)\<lparr>lgray := [], ppos := Slice_out\<rparr>)"
        using q by simp
    qed (use False i(1) in \<open>simp_all add: gcSliceShare_def\<close>)
  qed
qed

lemma sync_ok:
  assumes ok: "phases_ok k st" and i: "i < length (gworkers st)" "\<not> wrun (gworkers st ! i)"
    and r: "gcWorkerSync n i st = (res, st')"
  shows "phases_ok k (on_worker i (\<lambda>w. w\<lparr>wrun := (res = Some True)\<rparr>) st')"
proof -
  let ?w = "gworkers st ! i"
  let ?v = "if wstatus ?w = WORKER_EPOCH then ?w\<lparr>wmark := markStateEpoch (wmark ?w), wstatus := WORKER_RUN\<rparr> else ?w"
  have w: "worker_ok k (gphase st) ?w" using phases_worker [OF ok i(1)] .
  have v: "worker_ok k (gphase st) (?v\<lparr>wrun := True\<rparr>)" "worker_ok k (gphase st) (?v\<lparr>wstatus := WORKER_WAIT, wrun := False\<rparr>)"
    if "wstatus ?w \<noteq> WORKER_WAIT"
    using w that by (auto simp: worker_ok_def of_cycle_epoch)
  obtain u g where u: "worker_ok k (gphase st) (u\<lparr>wgray := g, wrun := (res = Some True)\<rparr>)"
    "gworkers st' = (gworkers st)[i := u\<lparr>wgray := g\<rparr>]" "gphase st' = gphase st" "gprocs st' = gprocs st"
  proof (cases "wstatus ?w = WORKER_WAIT \<or> wstatus ?w = WORKER_STOP")
    case True
    then have "res \<noteq> Some True" "st' = st" using r by (auto simp: gcWorkerSync_def split: if_splits)
    moreover have "?w\<lparr>wgray := wgray ?w, wrun := False\<rparr> = ?w" "?w\<lparr>wgray := wgray ?w\<rparr> = ?w" using i(2) by simp_all
    ultimately show thesis using that [of "wgray ?w" ?w] w by simp
  next
    case False
    then consider "res = Some True" "gworkers st' = (gworkers st)[i := ?v\<lparr>wgray := wgray ?v\<rparr>]" "gphase st' = gphase st" "gprocs st' = gprocs st"
      | "res = Some True" "gworkers st' = (gworkers st)[i := ?v\<lparr>wgray := wgray ?w @ take n (ggray st)\<rparr>]" "gphase st' = gphase st" "gprocs st' = gprocs st"
      | "res = None" "gworkers st' = (gworkers st)[i := ?v\<lparr>wstatus := WORKER_WAIT, wgray := wgray ?w\<rparr>]" "gphase st' = gphase st" "gprocs st' = gprocs st"
      using r by (auto simp: gcWorkerSync_def Let_def split: if_splits)
    then show thesis
    proof cases
      case 1
      then show thesis using that [of "wgray ?v" ?v] v(1) False by simp
    next
      case 2
      have "worker_ok k (gphase st) (?v\<lparr>wgray := g, wrun := True\<rparr>)" for g using v(1) False by (auto simp: worker_ok_def)
      then show thesis using that [of _ ?v] 2 by simp
    next
      case 3
      have "worker_ok k (gphase st) (?v\<lparr>wstatus := WORKER_WAIT, wgray := g, wrun := False\<rparr>)" for g using v(2) False by (auto simp: worker_ok_def)
      then show thesis using that [of _ "?v\<lparr>wstatus := WORKER_WAIT\<rparr>"] 3 by simp
    qed
  qed
  then show ?thesis using ok i(1) unfolding phases_ok_def by (auto dest: set_update_subset_insert [THEN subsetD])
qed

lemma worker_rest: "worker_ok k ph w \<Longrightarrow> worker_ok k ph (w\<lparr>wgray := g, wrun := False\<rparr>)"
  by (simp add: worker_ok_def)

lemma worker_slice_ok:
  assumes ok: "phases_ok k st" and i: "i < length (gworkers st)" and r: "gcSlice opt env g ms st = Some (g', st')"
  shows "phases_ok k (on_worker i (\<lambda>w. w\<lparr>wgray := g', wrun := False\<rparr>) st')"
proof -
  have e: "phases_eq st st'" by (rule gc_slice_eq [OF r])
  then have "phases_ok k st'" using phases_eqD ok by blast
  moreover have "worker_ok k (gphase st') ((gworkers st' ! i)\<lparr>wgray := g', wrun := False\<rparr>)"
    by (rule worker_rest) (use phases_worker [OF calculation, of i] e i in \<open>simp add: phases_eq_def\<close>)
  ultimately show ?thesis by (rule phases_on_worker)
qed

lemma inherit_ok: "proc_ok k ph p \<Longrightarrow> ppos p = Slice_out \<Longrightarrow> proc_ok k ph (inheritGCState p (new_gc_proc q t))"
  by (simp add: proc_ok_def calm_def synced_def marking_def inheritGCState_def new_gc_proc_def chiLocalGCSetup_def cong: ChiGCPhase.case_cong)

lemma gc_step_ok: "gc_step opt st st' \<Longrightarrow> phases_ok k st \<Longrightarrow> \<exists>k. phases_ok k st'"
proof (induction rule: gc_step.induct)
  case (control i st env)
  then show ?case using control_ok by blast
next
  case (switch i st snapshot st')
  then show ?case using switch_ok by blast
next
  case (work i st snapshot env st')
  then show ?case using work_ok by blast
next
  case (share i st)
  then show ?case using share_ok by blast
next
  case (sync j st n res st')
  then show ?case using sync_ok by blast
next
  case (slice j st env g st')
  then show ?case using worker_slice_ok by blast
next
  case (field_write i st old val g h)
  let ?p = "(gprocs st ! i)\<lparr>lgray := g\<rparr>"
  have "proc_ok k (gphase st) ?p" using field_write phases_proc by simp
  then show ?case by (intro exI [of _ k] phases_replace [OF field_write.prems, of _ i ?p]) simp_all
next
  case (mutate i st t c h x)
  let ?p = "(gprocs st ! i)\<lparr>plocal := c, pthread := t\<rparr>"
  have "proc_ok k (gphase st) ?p" using mutate phases_proc by simp
  then show ?case by (intro exI [of _ k] phases_replace [OF mutate.prems, of _ i ?p]) simp_all
next
  case (request i st q)
  let ?p = "(gprocs st ! i)\<lparr>gproc := q\<rparr>"
  have "proc_ok k (gphase st) ?p" using request phases_proc by simp
  then show ?case by (intro exI [of _ k] phases_replace [OF request.prems, of _ i ?p]) simp_all
next
  case (start i st q t)
  then have "proc_ok k (gphase st) (inheritGCState (gprocs st ! i) (new_gc_proc q t))" using inherit_ok phases_proc by blast
  then show ?case using start by (auto simp: phases_ok_def)
next
  case (finish i st st')
  then have e: "gphase st' = gphase st" "gworkers st' = gworkers st" "gprocs st' = (gprocs st)[i := (gprocs st ! i)\<lparr>lgray := []\<rparr>]"
    by (auto simp: chiLocalGCDestroy_def)
  have "phases_ok k st'" by (rule phases_replace [OF finish.prems e(3) _ e(1,2)]) (use finish in \<open>simp add: phases_proc\<close>)
  then show ?case by (auto simp: phases_ok_def dest: in_set_takeD in_set_dropD)
qed (auto simp: phases_ok_def chiGCRoot_def chiGCUnroot_def)

lemma gc_start_ok: "phases_ok 0 (gc_start s h q t)"
  by (simp add: phases_ok_def gc_start_def chiGCSetup_def new_gc_proc_def chiLocalGCSetup_def proc_ok_def calm_def cycle_0
      markStateInit_def)

lemma gc_reachable_ok: "(gc_step opt)\<^sup>*\<^sup>* (gc_start s h q t) st \<Longrightarrow> \<exists>k. phases_ok k st"
proof (induction rule: rtranclp_induct)
  case base
  show ?case by (rule exI [of _ 0]) (rule gc_start_ok)
next
  case (step st st')
  then show ?case using gc_step_ok by blast
qed

section \<open>Properties of the cycle\<close>

text \<open>The colors in use: those of the processors, and those of the workers that are in a slice.\<close>

definition colors_in_use :: "'s gc_state \<Rightarrow> ChiMarkState set" where
  "colors_in_use st = lmark ` set (gprocs st) \<union> wmark ` {w \<in> set (gworkers st). wrun w}"

definition same_colors :: "ChiMarkState \<Rightarrow> ChiMarkState \<Rightarrow> bool" where
  "same_colors a b \<longleftrightarrow> white a = white b \<and> gray a = gray b \<and> black a = black b"

lemma proc_colors:
  assumes "proc_ok k ph p"
  shows "if ph = GC_IDLE then allocColor p = white (cycle k) \<and> (of_cycle k (lmark p) \<or> (\<exists>j. k = Suc j \<and> of_cycle j (lmark p)))
    else allocColor p \<in> {white (cycle k), black (cycle k)} \<and> of_cycle k (lmark p)"
  using assms by (cases ph) (auto simp: proc_ok_def calm_def synced_def marking_def of_cycle_def cycle_white split: if_splits)

lemma used_colors:
  assumes "phases_ok k st" "ms \<in> colors_in_use st"
  shows "of_cycle k ms \<or> gphase st = GC_IDLE \<and> (\<exists>j. k = Suc j \<and> of_cycle j ms)"
proof -
  have "of_cycle k (wmark w)" if "w \<in> set (gworkers st)" "wrun w" for w
    using assms(1) that by (auto simp: phases_ok_def worker_ok_def split: if_splits)
  moreover have "of_cycle k (lmark p) \<or> gphase st = GC_IDLE \<and> (\<exists>j. k = Suc j \<and> of_cycle j (lmark p))" if "p \<in> set (gprocs st)" for p
    using proc_colors [of k "gphase st" p] assms(1) that by (auto simp: phases_ok_def split: if_splits)
  ultimately show ?thesis using assms(2) unfolding colors_in_use_def by blast
qed

lemma alloc_not_garbage:
  assumes "phases_ok k st" "ms \<in> colors_in_use st" "p \<in> set (gprocs st)" "ocolor obj = allocColor p"
  shows "\<not> chiObjectGarbage ms obj"
proof -
  have p: "proc_ok k (gphase st) p" using assms(1,3) by (simp add: phases_ok_def)
  have C: "cycle_colors ((cycle j)\<lparr>barrier := b\<rparr>)" for j b using cycle_is_cycle [of j] by (simp add: cycle_colors_def)
  have "ocolor obj \<in> {white ms, gray ms, black ms}"
    using used_colors [OF assms(1,2)] proc_colors [OF p] assms(4) by (auto simp: of_cycle_def cycle_white split: if_splits)
  moreover have "cycle_colors ms" using used_colors [OF assms(1,2)] C unfolding of_cycle_def by blast
  ultimately show ?thesis using garbage_after_cycle(1) by blast
qed

text \<open>C4: The handshakes of a cycle: whatever processors, workers and mutators do and however their steps interleave,
  each processor is in the global phase or in the one before it. Its barrier is off exactly while it is idle, no
  processor has its barrier off while objects are marked, and what it allocates is white until it takes its snapshot
  and black from then on.\<close>

theorem phases_in_step:
  assumes "(gc_step opt)\<^sup>*\<^sup>* (gc_start s h q t) st" "p \<in> set (gprocs st)"
  shows "(lphase p = gphase st \<or> next_phase (lphase p) = gphase st) \<and>
    (barrier (lmark p) = BARRIER_NONE \<longleftrightarrow> lphase p = GC_IDLE) \<and>
    (gphase st = GC_ASYNC \<longrightarrow> barrier (lmark p) \<noteq> BARRIER_NONE) \<and>
    (lphase p = GC_ASYNC \<longrightarrow> barrier (lmark p) = BARRIER_ASYNC) \<and>
    allocColor p = (if barrier (lmark p) = BARRIER_ASYNC then black (lmark p) else white (lmark p))"
proof -
  obtain k where "phases_ok k st" using gc_reachable_ok [OF assms(1)] by blast
  then have "proc_ok k (gphase st) p" using assms(2) by (simp add: phases_ok_def)
  then show ?thesis
    by (cases "gphase st") (auto simp: proc_ok_def calm_def synced_def marking_def next_phase_def split: if_splits)
qed


text \<open>One run of the switch by every processor, in any state of a handshake.\<close>

definition switch_all :: "'s gc_state \<Rightarrow> 's gc_state" where
  "switch_all st = fold (\<lambda>i st. snd (gcSliceSwitch i st)) [0 ..< length (gprocs st)] st"

lemma switch_one:
  assumes "proc_ok k (gphase st) (gprocs st ! i)" "gphase st \<noteq> GC_ASYNC" "i < length (gprocs st)"
  shows "gphase (snd (gcSliceSwitch i st)) = gphase st \<and> gworkers (snd (gcSliceSwitch i st)) = gworkers st \<and>
    gtrigger (snd (gcSliceSwitch i st)) = gtrigger st \<and>
    (\<exists>p. gprocs (snd (gcSliceSwitch i st)) = (gprocs st)[i := p] \<and> lphase p = gphase st)"
proof -
  have "lphase (gprocs st ! i) = gphase st \<or> next_phase (lphase (gprocs st ! i)) = gphase st"
    using assms(1,2) by (cases "gphase st") (auto simp: proc_ok_def next_phase_def split: if_splits)
  then show ?thesis using assms(2,3)
    by (cases "gphase st"; cases "lphase (gprocs st ! i)")
      (auto simp: gcSliceSwitch_def gcLocalTransition_def gcLocalPhase_def next_phase_def on_proc_def Let_def
        intro: exI [of _ "gprocs st ! i"])
qed

lemma switch_some:
  assumes "phases_ok k st" "gphase st \<noteq> GC_ASYNC" "n \<le> length (gprocs st)"
  shows "\<exists>st'. fold (\<lambda>i st. snd (gcSliceSwitch i st)) [0 ..< n] st = st' \<and> gphase st' = gphase st \<and> gworkers st' = gworkers st \<and>
    gtrigger st' = gtrigger st \<and> length (gprocs st') = length (gprocs st) \<and>
    (\<forall>i < n. lphase (gprocs st' ! i) = gphase st) \<and> (\<forall>i. n \<le> i \<longrightarrow> i < length (gprocs st) \<longrightarrow> gprocs st' ! i = gprocs st ! i)"
  using assms(3)
proof (induction n)
  case (Suc n)
  then obtain u where u: "fold (\<lambda>i st. snd (gcSliceSwitch i st)) [0 ..< n] st = u" "gphase u = gphase st" "gworkers u = gworkers st"
    "gtrigger u = gtrigger st" "length (gprocs u) = length (gprocs st)" "\<forall>i < n. lphase (gprocs u ! i) = gphase st"
    "\<forall>i. n \<le> i \<longrightarrow> i < length (gprocs st) \<longrightarrow> gprocs u ! i = gprocs st ! i" by auto
  let ?p = "gprocs st ! n"
  have p: "proc_ok k (gphase u) ?p" "gprocs u ! n = ?p" "n < length (gprocs u)" using phases_proc [OF assms(1)] Suc.prems u by simp_all
  have "gphase (snd (gcSliceSwitch n u)) = gphase u \<and> gworkers (snd (gcSliceSwitch n u)) = gworkers u \<and>
    gtrigger (snd (gcSliceSwitch n u)) = gtrigger u \<and>
    (\<exists>p. gprocs (snd (gcSliceSwitch n u)) = (gprocs u)[n := p] \<and> lphase p = gphase u)"
    by (rule switch_one) (use p u(2) assms(2) in simp_all)
  then show ?case using u p(3) by (auto simp: less_Suc_eq)
qed simp

lemma switched_phases:
  assumes "phases_ok k st" "gphase st \<noteq> GC_ASYNC"
  shows "gphase (switch_all st) = gphase st" "gworkers (switch_all st) = gworkers st" "gtrigger (switch_all st) = gtrigger st"
    "\<forall>p \<in> set (gprocs (switch_all st)). lphase p = gphase st"
  using switch_some [OF assms order_refl] unfolding switch_all_def all_set_conv_all_nth by auto

lemma global_transition:
  "gcGlobalTransition i ph ph' st = (list_all (\<lambda>p. lphase p = ph) (gprocs st),
     (if list_all (\<lambda>p. lphase p = ph) (gprocs st) then gcGlobalPhase ph' else (\<lambda>st. st)) (snd (gcPoll i ph st)))"
  by (simp add: gcGlobalTransition_def gcPoll_def)

lemma start_workers_phase [simp]: "gphase (gcWorkerStart opt env ms st) = gphase st" "gprocs (gcWorkerStart opt env ms st) = gprocs st"
  by (simp_all add: gcWorkerStart_def)

lemma control_advances:
  assumes "gphase st \<noteq> GC_ASYNC" "gphase st = GC_IDLE \<longrightarrow> gtrigger st \<and> gcWorkerEpochAck (gworkers st)"
  shows "if \<forall>p \<in> set (gprocs st). lphase p = gphase st then gphase (chiGCControl opt env i st) = next_phase (gphase st)
    else gphase (chiGCControl opt env i st) = gphase st \<and>
      (\<forall>j < length (gprocs st). j \<noteq> i \<longrightarrow> lphase (gprocs st ! j) \<noteq> gphase st \<longrightarrow>
        t_interrupt (gproc (gprocs (chiGCControl opt env i st) ! j)))"
proof -
  have r: "t_interrupt (fst (chiProcessorRequest REQUEST_HANDSHAKE q))" for q
    by (auto simp: chiProcessorRequest_def requestTrigger_def interruptProcessor_def requestWake_def Let_def split: prod.splits)
  have P: "t_interrupt (gproc (gprocs (snd (gcPoll i ph st)) ! j))"
    if "j < length (gprocs st)" "j \<noteq> i" "lphase (gprocs st ! j) \<noteq> ph" for j ph
    using that r by (simp add: gcPoll_def gcPollRequest_def)
  have g: "gphase (snd (gcPoll i ph st)) = gphase st" for ph by (simp add: gcPoll_def)
  show ?thesis using assms P g
    by (cases "gphase st") (auto simp: chiGCControl_def global_transition next_phase_def gcGlobalPhase_def list_all_iff
        split: bool.splits)
qed


section \<open>A concrete run\<close>

definition ex_option :: gc_option where
  "ex_option = \<lparr> opt_worker = 1, opt_scanDepth = 30, opt_aging = 2, opt_slice = True \<rparr>"

definition ex_env :: "'s gc_env" where
  "ex_env = \<lparr> env_tasks = 1, env_scavenge = (\<lambda>_ _ _ s. s), env_sweep = (\<lambda>_ s. (False, s)), env_acquire = (\<lambda>s. s), env_tick = False,
     env_timer = (\<lambda>_. True) \<rparr>"

definition ex_start :: "unit gc_state" where
  "ex_start = gc_start () ex_objects (proc (workers_start 0)) 0"

text \<open>The collector is triggered and the main processor moves it to the first synchronous phase.\<close>

definition ex_triggered :: "unit gc_state" where
  "ex_triggered = ex_start\<lparr>gtrigger := True\<rparr>"

definition ex_sync1 :: "unit gc_state" where
  "ex_sync1 = chiGCControl ex_option ex_env 0 ex_triggered"

lemmas ex_run = ex_sync1_def ex_triggered_def ex_start_def gc_start_def chiGCSetup_def new_gc_proc_def chiLocalGCSetup_def

lemma ex_triggered_reachable: "(gc_step ex_option)\<^sup>*\<^sup>* (gc_start () ex_objects (proc (workers_start 0)) 0) ex_triggered"
  unfolding ex_triggered_def ex_start_def by (rule r_into_rtranclp) (rule gc_step.trigger)

lemma ex_sync1_reachable: "(gc_step ex_option)\<^sup>*\<^sup>* (gc_start () ex_objects (proc (workers_start 0)) 0) ex_sync1"
proof (rule rtranclp.rtrancl_into_rtrancl [OF ex_triggered_reachable])
  show "gc_step ex_option ex_triggered ex_sync1" unfolding ex_sync1_def
    by (rule gc_step.control) (simp_all add: ex_run chiProcessorMain_def workers_start_def)
qed

lemma ex_sync1_state: "gphase ex_sync1 = GC_SYNC1" "length (gprocs ex_sync1) = 1" "lphase (gprocs ex_sync1 ! 0) = GC_IDLE"
  "barrier (lmark (gprocs ex_sync1 ! 0)) = BARRIER_NONE" "allocColor (gprocs ex_sync1 ! 0) = 1" "lmark (gprocs ex_sync1 ! 0) = markStateInit"
  by (simp_all add: ex_run chiGCControl_def global_transition gcPoll_def gcGlobalPhase_def gcWorkerEpochAck_def gcPollRequest_def
      markStateInit_def CHI_COLOR_USED_def)

theorem phases_in_step_witness:
  "next_phase (lphase (gprocs ex_sync1 ! 0)) = gphase ex_sync1 \<and> allocColor (gprocs ex_sync1 ! 0) = white (lmark (gprocs ex_sync1 ! 0))"
  using phases_in_step [OF ex_sync1_reachable, of "gprocs ex_sync1 ! 0"] by (simp add: ex_sync1_state ex_colors)



end
