(* ===== verification/Segment.thy ===== *)
theory Segment
  imports Mark Numfmt
begin

text \<open>
  The segments of the major heap: their pages, the lists of free objects, the objects carved out of a page
  (\<^verbatim>\<open>src/native/heap.c\<close>) and the sweeper (\<^verbatim>\<open>src/native/sweep.c\<close>). Memory is words at byte addresses, as the code
  lays it out: the header of a free object is the pointer to the next one, and because objects are aligned, its
  lowest bit, which marks used objects, is off. A free page holds the index of the next free one. Here an operation works on one
  segment and the memory; the theory Heap puts the segments together.
\<close>

type_synonym words = "nat \<Rightarrow> u64"

text \<open>The fields of \<^verbatim>\<open>ChiObject\<close>, which overlay the header word.\<close>

definition load_object :: "words \<Rightarrow> nat \<Rightarrow> gc_object" where
  "load_object m a = \<lparr> ocolor = ucast (m a), olock = bit (m a) 16, oshared = bit (m a) 25, odirty = bit (m a) 24,
     payload = map (\<lambda>i. m (a + CHI_WORDSIZE + CHI_WORDSIZE * i)) [0 ..< unat (drop_bit 32 (m a))] \<rparr>"

definition OBJECT_HEADER_SIZE :: nat where "OBJECT_HEADER_SIZE = 1"

record new_flags =
  new_clean :: bool
  new_shared :: bool
  new_try :: bool

text \<open>The byte of the owner is left alone.\<close>

definition objectInit :: "nat \<Rightarrow> nat \<Rightarrow> u8 \<Rightarrow> new_flags \<Rightarrow> words \<Rightarrow> words" where
  "objectInit obj sz color flags m =
     m(obj := ucast color OR (m obj AND 0xFF00) OR push_bit 24 (of_bool (\<not> new_clean flags)) OR push_bit 25 (of_bool (new_shared flags))
         OR push_bit 32 (of_nat sz))"

record heap_class =
  ctotal :: nat
  cfree :: "nat list"
  cfull :: "nat list"
  climitInit :: nat
  climitFull :: nat
  segmentWords :: nat
  pageWords :: nat
  pagesPerSegment :: nat
  bins :: nat
  linear :: bool

record segment =
  sweepIndex :: nat
  endIndex :: nat
  alive :: bool
  pages :: "u32 list"
  freePageList :: "nat option"
  freeObjectList :: "nat list"

definition HEAP_PAGE_FREE :: u32 where "HEAP_PAGE_FREE = push_bit 31 1"
definition UINT32_MAX :: u32 where "UINT32_MAX = NOT 0"

section \<open>Pages\<close>

text \<open>The successor of a free page, and a page put in front of the list.\<close>

definition page_next :: "u32 \<Rightarrow> nat option" where
  "page_next w = (if w = UINT32_MAX then None else Some (unat (w AND NOT HEAP_PAGE_FREE)))"

definition page_link :: "nat option \<Rightarrow> u32" where
  "page_link l = (case l of None \<Rightarrow> UINT32_MAX | Some i \<Rightarrow> of_nat i OR HEAP_PAGE_FREE)"

definition page_put :: "nat \<Rightarrow> segment \<Rightarrow> segment" where
  "page_put i s = s\<lparr> pages := (pages s)[i := page_link (freePageList s)], freePageList := Some i \<rparr>"

text \<open>The body of the loop of \<open>pageFindFree\<close>; None: the segment is full.\<close>

definition page_take :: "heap_class \<Rightarrow> segment \<Rightarrow> (nat \<times> segment) option" where
  "page_take cls s =
     (case freePageList s of
        Some p \<Rightarrow> Some (p, s\<lparr> freePageList := page_next (pages s ! p) \<rparr>)
      | None \<Rightarrow>
          if endIndex s = pagesPerSegment cls then None
          else Some (endIndex s, s\<lparr> endIndex := endIndex s + 1 \<rparr>))"

definition object_size :: "heap_class \<Rightarrow> nat \<Rightarrow> u32" where
  "object_size cls sz =
     (if linear cls then of_nat sz + of_nat OBJECT_HEADER_SIZE else push_bit (chiLog2Ceil (of_nat (sz + OBJECT_HEADER_SIZE))) 1)"

text \<open>The loop of \<open>pageAlloc\<close>: the objects of a page are put in front of a free list. No object is smaller than
  its header, so the guard for zero is never used.\<close>

function page_carve :: "nat \<Rightarrow> nat \<Rightarrow> nat \<Rightarrow> nat \<times> words \<Rightarrow> nat \<times> words" where
  "page_carve os ptr pend (fl, m) =
     (if os = 0 \<or> pend < ptr + CHI_WORDSIZE * os then (fl, m)
      else page_carve os (ptr + CHI_WORDSIZE * os) pend (ptr, m(ptr := of_nat fl)))"
  by pat_completeness auto
termination by (relation "measure (\<lambda>(os, ptr, pend, _). pend - ptr)") (auto simp: CHI_WORDSIZE_def)

definition page_fill :: "heap_class \<Rightarrow> nat \<Rightarrow> nat \<Rightarrow> nat \<Rightarrow> nat \<Rightarrow> segment \<times> words \<Rightarrow> segment \<times> words" where
  "page_fill cls start p sz bin s =
     (case s of (s, m) \<Rightarrow>
        let ptr = start + CHI_WORDSIZE * (pageWords cls * p); pend = ptr + CHI_WORDSIZE * pageWords cls;
            objectSize = object_size cls sz;
            (fl, m) = page_carve (unat objectSize) ptr pend (freeObjectList s ! bin, m)
        in (s\<lparr> pages := (pages s)[p := objectSize], freeObjectList := (freeObjectList s)[bin := fl] \<rparr>, m))"

text \<open>Taking the first object of a free list.\<close>

definition object_take :: "nat \<Rightarrow> segment \<times> words \<Rightarrow> nat \<times> segment" where
  "object_take bin s =
     (case s of (s, m) \<Rightarrow>
        let obj = freeObjectList s ! bin
        in (obj, s\<lparr> freeObjectList := (freeObjectList s)[bin := unat (m obj)] \<rparr>))"

section \<open>Sweeping\<close>

definition sweepResetSegment :: "heap_class \<Rightarrow> segment \<Rightarrow> segment" where
  "sweepResetSegment cls s =
     s\<lparr> sweepIndex := endIndex s, freePageList := None, alive := False, freeObjectList := replicate (bins cls) 0 \<rparr>"

text \<open>Addresses go down and may pass below the page, so they are integers here.\<close>

function pageSweep :: "ChiMarkState \<Rightarrow> nat \<Rightarrow> int \<Rightarrow> int \<Rightarrow> nat \<times> words \<Rightarrow> bool \<Rightarrow> bool \<times> nat \<times> words" where
  "pageSweep ms os start obj (fl, m) live =
     (if obj < start \<or> os = 0 then (live, fl, m)
      else
        let a = nat obj
        in if chiObjectGarbage ms (load_object m a)
           then pageSweep ms os start (obj - int (CHI_WORDSIZE * os)) (a, m(a := of_nat fl)) live
           else pageSweep ms os start (obj - int (CHI_WORDSIZE * os)) (fl, m) True)"
  by pat_completeness auto
termination by (relation "measure (\<lambda>(_, os, start, obj, _, _). nat (obj - start + 1))") (auto simp: CHI_WORDSIZE_def)

declare page_carve.simps [simp del] pageSweep.simps [simp del]

definition page_bin :: "heap_class \<Rightarrow> nat \<Rightarrow> nat" where
  "page_bin cls os =
     (if linear cls then os - OBJECT_HEADER_SIZE - 1 else chiLog2Floor (of_nat (os - OBJECT_HEADER_SIZE)))"

text \<open>The body of the loop of \<open>segmentSweep\<close> for the page below \<open>sweepIndex\<close>.\<close>

definition sweep_page :: "heap_class \<Rightarrow> nat \<Rightarrow> ChiMarkState \<Rightarrow> segment \<times> words \<Rightarrow> segment \<times> words" where
  "sweep_page cls cstart ms s =
     (case s of (s, m) \<Rightarrow>
        let i = sweepIndex s - 1; s = s\<lparr> sweepIndex := i \<rparr>; page = pages s ! i
        in if page AND HEAP_PAGE_FREE \<noteq> 0 then (page_put i s, m)
           else
             let os = unat page; bin = page_bin cls os;
                 start = cstart + CHI_WORDSIZE * (i * pageWords cls);
                 last = int start + int CHI_WORDSIZE * (int (CHI_FLOOR (pageWords cls) os) - int os)
             in case pageSweep ms os (int start) last (freeObjectList s ! bin, m) False of
                  (True, fl, m) \<Rightarrow> (s\<lparr> freeObjectList := (freeObjectList s)[bin := fl], alive := True \<rparr>, m)
                | (False, fl, m) \<Rightarrow> (page_put i s, m))"

text \<open>The timer is the sequence of its answers; the result has the number of answers used.\<close>

lemma sweep_page_index: "sweepIndex (fst (sweep_page cls a ms (s, m))) = sweepIndex s - 1"
proof -
  define s' where "s' = s\<lparr>sweepIndex := sweepIndex s - 1\<rparr>"
  have i: "sweepIndex s' = sweepIndex s - 1" by (simp add: s'_def)
  show ?thesis unfolding sweep_page_def Let_def s'_def [symmetric] prod.case
    using i by (auto simp: page_put_def split: prod.split bool.split)
qed

function segmentSweep ::
  "heap_class \<Rightarrow> nat \<Rightarrow> ChiMarkState \<Rightarrow> (nat \<Rightarrow> bool) \<Rightarrow> nat \<Rightarrow> segment \<times> words \<Rightarrow> nat \<times> segment \<times> words" where
  "segmentSweep cls cstart ms timer n s =
     (if sweepIndex (fst s) > 0
      then if timer n then segmentSweep cls cstart ms timer (n + 1) (sweep_page cls cstart ms s) else (n + 1, s)
      else (n, s))"
  by pat_completeness auto
termination
  by (relation "measure (\<lambda>(_, _, _, _, _, s). sweepIndex (fst s))") (auto simp: sweep_page_index)

section \<open>Free lists in memory\<close>

fun obj_list :: "words \<Rightarrow> nat \<Rightarrow> nat list \<Rightarrow> bool" where
  "obj_list m h [] \<longleftrightarrow> h = 0"
| "obj_list m h (a # as) \<longleftrightarrow> h = a \<and> a \<noteq> 0 \<and> obj_list m (unat (m a)) as"

fun page_list :: "u32 list \<Rightarrow> nat option \<Rightarrow> nat list \<Rightarrow> bool" where
  "page_list ps l [] \<longleftrightarrow> l = None"
| "page_list ps l (i # is) \<longleftrightarrow> l = Some i \<and> i < length ps \<and> page_list ps (page_next (ps ! i)) is"

lemma obj_list_frame: "\<forall>a \<in> set as. m' a = m a \<Longrightarrow> obj_list m' h as = obj_list m h as"
  by (induction as arbitrary: h) auto

lemma page_list_frame: "\<forall>i \<in> set is. ps' ! i = ps ! i \<Longrightarrow> length ps' = length ps \<Longrightarrow> page_list ps' l is = page_list ps l is"
  by (induction "is" arbitrary: l) auto

lemma obj_list_head: "obj_list m h as \<Longrightarrow> h = (case as of [] \<Rightarrow> 0 | a # _ \<Rightarrow> a)"
  by (cases as) auto

lemma obj_list_push: "obj_list m h as \<Longrightarrow> a \<noteq> 0 \<Longrightarrow> a \<notin> set as \<Longrightarrow> h < 2 ^ 64 \<Longrightarrow> obj_list (m(a := of_nat h)) a (a # as)"
  using obj_list_frame [of as "m(a := of_nat h)" m h] by (simp add: unat_of_nat take_bit_nat_eq_self)

definition used :: "words \<Rightarrow> nat \<Rightarrow> bool" where
  "used m a \<longleftrightarrow> chiColorUsed (ocolor (load_object m a))"

definition garbage :: "ChiMarkState \<Rightarrow> words \<Rightarrow> nat \<Rightarrow> bool" where
  "garbage ms m a \<longleftrightarrow> chiObjectGarbage ms (load_object m a)"

lemma used_bit: "used m a \<longleftrightarrow> bit (m a) 0"
proof -
  have "chiColorUsed c \<longleftrightarrow> bit c 0" for c :: u8
    by (simp add: chiColorUsed_def CHI_COLOR_USED_def and_one_eq bit_0 odd_iff_mod_2_eq_one)
  then show ?thesis by (simp add: used_def load_object_def bit_ucast_iff)
qed

lemma unused_even: "even h \<Longrightarrow> \<not> used (m(a := of_nat h)) a"
  by (simp add: used_bit bit_0)

lemma used_other: "a \<noteq> b \<Longrightarrow> used (m(b := v)) a = used m a" "m' a = m a \<Longrightarrow> used m' a = used m a"
  "m' a = m a \<Longrightarrow> garbage ms m' a = garbage ms m a"
  by (simp_all add: used_bit garbage_def load_object_def chiObjectGarbage_def)

text \<open>An object that is not used is garbage in every cycle.\<close>

lemma unused_garbage:
  assumes "cycle_colors ms" "\<not> used m a"
  shows "garbage ms m a"
proof -
  have w: "unat (white ms) mod 4 = 1" "black ms = white ms + 4" using assms(1) by (simp_all add: cycle_colors_def)
  then have "odd (unat (white ms))" by presburger
  then have wo: "bit (white ms) 0" by (simp add: bit_0 even_of_nat_iff [symmetric, where 'a = "8 word"])
  moreover have "unat (black ms) mod 4 = 1"
    using cycle_epoch [OF assms(1)] by (simp add: cycle_colors_def markStateEpoch_def CHI_COLOR_EPOCH_def w(2))
  then have "odd (unat (black ms))" by presburger
  then have "bit (black ms) 0" by (simp add: bit_0 even_of_nat_iff [symmetric, where 'a = "8 word"])
  moreover have c: "\<not> bit (ocolor (load_object m a)) 0" using assms(2) by (simp add: used_bit load_object_def bit_ucast_iff)
  then have "\<not> bit (ocolor (load_object m a) AND NOT CHI_COLOR_SHADED) 0" unfolding bit_and_iff by blast
  ultimately show ?thesis using c unfolding garbage_def chiObjectGarbage_def Let_def by metis
qed

section \<open>The objects of a page\<close>

definition page_objs :: "nat \<Rightarrow> nat \<Rightarrow> nat \<Rightarrow> nat list" where
  "page_objs ptr os n = map (\<lambda>j. ptr + 8 * os * j) [0 ..< n]"

lemma page_objs_Suc: "page_objs ptr os (Suc n) = ptr # page_objs (ptr + 8 * os) os n"
  by (simp add: page_objs_def map_upt_Suc algebra_simps del: upt_Suc)

lemma page_objs_snoc: "page_objs ptr os (Suc n) = page_objs ptr os n @ [ptr + 8 * os * n]"
  by (simp add: page_objs_def)

lemma page_objs_distinct: "0 < os \<Longrightarrow> distinct (page_objs ptr os n)"
  by (simp add: page_objs_def distinct_map inj_on_def)

lemma page_objs_range: "0 < os \<Longrightarrow> x \<in> set (page_objs ptr os n) \<Longrightarrow> ptr \<le> x \<and> x + 8 * os \<le> ptr + 8 * os * n"
  by (auto simp: page_objs_def) (metis Suc_leI add.commute mult_Suc_right mult_le_mono2)

lemma page_carve_ok:
  assumes "0 < os" "obj_list m fl as" "0 < ptr" "pend < 2 ^ 64" "fl < 2 ^ 64" "\<forall>a \<in> set as. a < ptr \<or> pend \<le> a"
    and "page_carve os ptr pend (fl, m) = (fl', m')"
  shows "obj_list m' fl' (rev (page_objs ptr os ((pend - ptr) div (8 * os))) @ as) \<and>
    (\<forall>x. x \<notin> set (page_objs ptr os ((pend - ptr) div (8 * os))) \<longrightarrow> m' x = m x)"
  using assms
proof (induction os ptr pend "(fl, m)" arbitrary: fl m as rule: page_carve.induct)
  case (1 os ptr pend fl m)
  show ?case
  proof (cases "pend < ptr + 8 * os")
    case True
    then have "(pend - ptr) div (8 * os) = 0" using "1.prems"(1) by simp
    then show ?thesis using "1.prems"(2,7) True by (subst (asm) page_carve.simps) (simp add: CHI_WORDSIZE_def page_objs_def)
  next
    case False
    let ?m = "m(ptr := of_nat fl)" and ?n = "(pend - (ptr + 8 * os)) div (8 * os)"
    have n: "(pend - ptr) div (8 * os) = Suc ?n" using False "1.prems"(1) by (simp add: div_if)
    have a: "\<forall>a \<in> set as. a < ptr \<or> pend \<le> a" "ptr \<notin> set as" using "1.prems"(1,6) False by auto
    have a': "\<forall>b \<in> set (ptr # as). b < ptr + 8 * os \<or> pend \<le> b" using a(1) "1.prems"(1) by (auto intro: trans_less_add1)
    have l: "obj_list ?m ptr (ptr # as)" using obj_list_push [OF "1.prems"(2) _ a(2)] "1.prems"(3,5) by simp
    have r: "page_carve os (ptr + 8 * os) pend (ptr, ?m) = (fl', m')"
      using "1.prems"(1,7) False by (subst (asm) page_carve.simps) (simp add: CHI_WORDSIZE_def)
    have "obj_list m' fl' (rev (page_objs (ptr + 8 * os) os ?n) @ ptr # as) \<and>
        (\<forall>x. x \<notin> set (page_objs (ptr + 8 * os) os ?n) \<longrightarrow> m' x = ?m x)"
      using "1.hyps" [of "ptr # as"] "1.prems"(1,3,4) False l r a' by (simp add: CHI_WORDSIZE_def)
    then show ?thesis unfolding n page_objs_Suc by simp
  qed
qed

lemma page_sweep_step:
  assumes "0 < os" "start \<le> a"
  shows "pageSweep ms os (int start) (int a) (fl, m) live =
    (if garbage ms m a then pageSweep ms os (int start) (int a - int (CHI_WORDSIZE * os)) (a, m(a := of_nat fl)) live
     else pageSweep ms os (int start) (int a - int (CHI_WORDSIZE * os)) (fl, m) True)"
  using assms by (subst pageSweep.simps) (simp add: garbage_def Let_def)

lemma page_sweep_ok:
  assumes "0 < os" "obj_list m fl as" "0 < start" "start + 8 * os * n \<le> 2 ^ 64" "fl < 2 ^ 64"
    and "\<forall>a \<in> set as. a < start \<or> start + 8 * os * n \<le> a"
    and "pageSweep ms os (int start) (int start + 8 * int os * (int n - 1)) (fl, m) live = (live', fl', m')"
  shows "obj_list m' fl' (filter (garbage ms m) (page_objs start os n) @ as) \<and>
    (live' \<longleftrightarrow> live \<or> (\<exists>x \<in> set (page_objs start os n). \<not> garbage ms m x)) \<and>
    (\<forall>x. x \<notin> set (filter (garbage ms m) (page_objs start os n)) \<longrightarrow> m' x = m x)"
  using assms
proof (induction n arbitrary: fl m as live)
  case 0
  then show ?case by (simp add: page_objs_def) (subst (asm) pageSweep.simps, simp)
next
  case (Suc n)
  let ?a = "start + 8 * os * n"
  have a: "int start + 8 * int os * (int (Suc n) - 1) = int ?a" by simp
  have d: "int ?a - int (CHI_WORDSIZE * os) = int start + 8 * int os * (int n - 1)" by (simp add: CHI_WORDSIZE_def algebra_simps)
  have na: "?a \<notin> set as" using Suc.prems(1,6) by auto
  have old: "?a \<notin> set (page_objs start os n)" using page_objs_range [OF Suc.prems(1), of ?a start n] Suc.prems(1) by auto
  have le: "8 * os * n \<le> 8 * os * Suc n" by simp
  show ?case
  proof (cases "garbage ms m ?a")
    case True
    let ?m = "m(?a := of_nat fl)"
    have l: "obj_list ?m ?a (?a # as)" by (rule obj_list_push [OF Suc.prems(2) _ na Suc.prems(5)]) (use Suc.prems(3) in simp)
    have r: "pageSweep ms os (int start) (int start + 8 * int os * (int n - 1)) (?a, ?m) live = (live', fl', m')"
      using Suc.prems(7) True unfolding a page_sweep_step [OF Suc.prems(1) le_add1] d by simp
    have og: "garbage ms ?m x = garbage ms m x" if "x \<in> set (page_objs start os n)" for x
      by (rule used_other(3)) (use that old in auto)
    have g: "filter (garbage ms ?m) (page_objs start os n) = filter (garbage ms m) (page_objs start os n)"
      by (rule filter_cong [OF refl]) (rule og)
    have "(\<exists>x \<in> set (page_objs start os n). \<not> garbage ms ?m x) = (\<exists>x \<in> set (page_objs start os n). \<not> garbage ms m x)"
      by (intro bex_cong refl) (simp only: og)
    note g = g this
    have b: "?a < 2 ^ 64" "start + 8 * os * n \<le> 2 ^ 64" using Suc.prems(1,4) by (simp_all add: algebra_simps)
    have "\<forall>b \<in> set (?a # as). b < start \<or> start + 8 * os * n \<le> b" using Suc.prems(6) le by fastforce
    note I = Suc.IH [OF Suc.prems(1) l Suc.prems(3) b(2,1) this r, unfolded g]
    have e: "filter (garbage ms m) (page_objs start os (Suc n)) = filter (garbage ms m) (page_objs start os n) @ [?a]"
      unfolding page_objs_snoc using True by simp
    have "(\<exists>x \<in> set (page_objs start os (Suc n)). \<not> garbage ms m x) = (\<exists>x \<in> set (page_objs start os n). \<not> garbage ms m x)"
      unfolding page_objs_snoc using True by auto
    then show ?thesis using I unfolding e by simp
  next
    case False
    have r: "pageSweep ms os (int start) (int start + 8 * int os * (int n - 1)) (fl, m) True = (live', fl', m')"
      using Suc.prems(7) False unfolding a page_sweep_step [OF Suc.prems(1) le_add1] d by simp
    have b: "start + 8 * os * n \<le> 2 ^ 64" using Suc.prems(4) le by linarith
    have "\<forall>b \<in> set as. b < start \<or> start + 8 * os * n \<le> b" using Suc.prems(6) le by fastforce
    note I = Suc.IH [OF Suc.prems(1,2,3) b Suc.prems(5) this r]
    have e: "filter (garbage ms m) (page_objs start os (Suc n)) = filter (garbage ms m) (page_objs start os n)"
      unfolding page_objs_snoc using False by simp
    have "\<exists>x \<in> set (page_objs start os (Suc n)). \<not> garbage ms m x"
      unfolding page_objs_snoc using False by auto
    then show ?thesis using I unfolding e by simp
  qed
qed

section \<open>The invariant of a segment\<close>

text \<open>What the classes of the heap look like, and where a segment may lie.\<close>

definition class_ok :: "heap_class \<Rightarrow> bool" where
  "class_ok cls \<longleftrightarrow> 0 < pageWords cls \<and> 0 < pagesPerSegment cls \<and> pageWords cls < 2 ^ 31 \<and> pagesPerSegment cls < 2 ^ 31 - 1 \<and>
     pagesPerSegment cls * pageWords cls \<le> segmentWords cls \<and>
     (if linear cls then bins cls + 1 \<le> pageWords cls else \<exists>q. pageWords cls = 2 ^ q \<and> q \<le> bins cls)"

definition seg_place :: "heap_class \<Rightarrow> nat \<Rightarrow> bool" where
  "seg_place cls a \<longleftrightarrow> 0 < a \<and> 8 dvd a \<and> a + 8 * segmentWords cls < 2 ^ 63"

definition size_ok :: "heap_class \<Rightarrow> nat \<Rightarrow> bool" where
  "size_ok cls w \<longleftrightarrow> 1 < w \<and> w \<le> pageWords cls \<and> page_bin cls w < bins cls \<and> (linear cls \<or> (\<exists>k. w = 2 ^ k))"

text \<open>The bin of a size, as \<open>chiHeapHandleNew\<close> computes it.\<close>

definition size_bin :: "heap_class \<Rightarrow> nat \<Rightarrow> nat" where
  "size_bin cls sz = (if linear cls then sz - 1 else chiLog2Floor (of_nat sz))"

lemma log2_floor_eq: "2 ^ k \<le> n \<Longrightarrow> n < 2 ^ Suc k \<Longrightarrow> n < 2 ^ 64 \<Longrightarrow> chiLog2Floor (of_nat n) = k"
proof -
  assume n: "2 ^ k \<le> n" "n < 2 ^ Suc k" "n < 2 ^ 64"
  then have u: "unat (of_nat n :: u64) = n" "0 < n" by (simp_all add: unat_of_nat take_bit_nat_eq_self) (metis gr0I less_le_trans zero_less_numeral zero_less_power)?
  then have "(of_nat n :: u64) \<noteq> 0" by (metis unat_0 less_irrefl)
  from chiLog2Floor_bounds [OF this] have b: "2 ^ chiLog2Floor (of_nat n) \<le> n" "n < 2 ^ Suc (chiLog2Floor (of_nat n))" unfolding u by simp_all
  have "k < Suc (chiLog2Floor (of_nat n))" using n(1) b(2) by (metis le_less_trans one_less_numeral_iff power_less_imp_less_exp semiring_norm(76))
  moreover have "chiLog2Floor (of_nat n) < Suc k" using n(2) b(1) by (metis le_less_trans one_less_numeral_iff power_less_imp_less_exp semiring_norm(76))
  ultimately show ?thesis by simp
qed

lemma size_split: "0 < n \<Longrightarrow> \<exists>k. 2 ^ k \<le> n \<and> n < 2 ^ Suc k" for n :: nat
proof -
  assume "0 < n"
  then have "2 ^ (floorlog 2 n - 1) \<le> n" "n < 2 ^ floorlog 2 n" "1 \<le> floorlog 2 n" using floorlog_bounds [of n] floorlog_ge_1 [of n] by simp_all
  then show ?thesis by (intro exI [of _ "floorlog 2 n - 1"]) simp
qed

lemma object_size_ok:
  assumes "class_ok cls" "0 < sz" "sz + 1 \<le> pageWords cls" "linear cls \<Longrightarrow> sz \<le> bins cls"
  shows "size_ok cls (unat (object_size cls sz))" "page_bin cls (unat (object_size cls sz)) = size_bin cls sz"
proof -
  have pw: "pageWords cls < 2 ^ 31" using assms(1) by (simp add: class_ok_def)
  then have sz: "sz < 2 ^ 31" using assms(3) by simp
  have "size_ok cls (unat (object_size cls sz)) \<and> page_bin cls (unat (object_size cls sz)) = size_bin cls sz"
  proof (cases "linear cls")
    case True
    have "unat (of_nat (Suc sz) :: u32) = Suc sz" by (subst unat_of_nat) (use sz in \<open>simp add: take_bit_nat_eq_self\<close>)
    then have "unat (object_size cls sz) = sz + 1" using True by (simp add: object_size_def OBJECT_HEADER_SIZE_def add.commute)
    then show ?thesis using assms True by (simp add: size_ok_def page_bin_def size_bin_def OBJECT_HEADER_SIZE_def)
  next
    case False
    obtain k where k: "2 ^ k \<le> sz" "sz < 2 ^ Suc k" using size_split [OF assms(2)] by blast
    obtain q where q: "pageWords cls = 2 ^ q" "q \<le> bins cls" using assms(1) False by (auto simp: class_ok_def)
    have fl: "chiLog2Floor (of_nat sz) = k" by (rule log2_floor_eq [OF k]) (use sz in simp)
    have "(2 :: nat) ^ k < 2 ^ q" using k(1) assms(3) q(1) by linarith
    then have kq: "k < q" by simp
    have "(2 :: nat) ^ q < 2 ^ 31" using pw q(1) by simp
    then have q31: "q < 31" by (metis one_less_numeral_iff power_less_imp_less_exp semiring_norm(76))
    have u: "unat (of_nat (sz + 1) :: u64) = sz + 1" by (subst unat_of_nat) (use sz in \<open>simp add: take_bit_nat_eq_self\<close>)
    then have "1 < (of_nat (sz + 1) :: u64)" unfolding word_less_nat_alt using assms(2) by simp
    from chiLog2Ceil_bounds [OF this] have c: "2 ^ (chiLog2Ceil (of_nat (sz + 1)) - 1) < sz + 1" "sz + 1 \<le> 2 ^ chiLog2Ceil (of_nat (sz + 1))"
      unfolding u by simp_all
    have ce: "chiLog2Ceil (of_nat (sz + 1)) = Suc k"
    proof -
      have "(2 :: nat) ^ k < 2 ^ chiLog2Ceil (of_nat (sz + 1))" using c(2) k(1) by linarith
      then have "k < chiLog2Ceil (of_nat (sz + 1))" by simp
      moreover have "(2 :: nat) ^ (chiLog2Ceil (of_nat (sz + 1)) - 1) < 2 ^ Suc k" using c(1) k(2) by linarith
      then have "chiLog2Ceil (of_nat (sz + 1)) - 1 < Suc k" by (simp only: power_strict_increasing_iff one_less_numeral_iff semiring_norm)
      ultimately show ?thesis by linarith
    qed
    have "object_size cls sz = push_bit (Suc k) 1" unfolding object_size_def OBJECT_HEADER_SIZE_def ce using False by simp
    moreover have "unat (push_bit (Suc k) 1 :: u32) = 2 ^ Suc k"
    proof -
      have "(2 :: nat) ^ Suc k < 2 ^ 32" using kq q31 by (intro power_strict_increasing) simp_all
      moreover have "push_bit (Suc k) (1 :: u32) = of_nat (2 ^ Suc k)" by (simp add: push_bit_eq_mult)
      ultimately show ?thesis by (simp only: unat_of_nat) (simp add: take_bit_nat_eq_self del: power_Suc)
    qed
    ultimately have w: "unat (object_size cls sz) = 2 ^ Suc k" by simp
    have pb: "page_bin cls (2 ^ Suc k) = k"
    proof -
      have "chiLog2Floor (of_nat (2 ^ Suc k - 1)) = k"
      proof (rule log2_floor_eq)
        have "(2 :: nat) ^ Suc k \<le> 2 ^ 31" by (rule power_increasing) (use kq q31 in simp_all)
        then show "(2 :: nat) ^ Suc k - 1 < 2 ^ 64" by simp
      qed simp_all
      then show ?thesis using False by (simp add: page_bin_def OBJECT_HEADER_SIZE_def)
    qed
    have "(2 :: nat) ^ Suc k \<le> 2 ^ q" by (rule power_increasing) (use kq in simp_all)
    moreover have "(1 :: nat) < 2 ^ Suc k" using one_less_power [of "2 :: nat" "Suc k"] by simp
    moreover have "\<exists>j. (2 :: nat) ^ Suc k = 2 ^ j" by blast
    ultimately show ?thesis unfolding w size_ok_def pb using False q kq fl by (simp add: size_bin_def del: power_Suc)
  qed
  then show "size_ok cls (unat (object_size cls sz))" "page_bin cls (unat (object_size cls sz)) = size_bin cls sz" by blast+
qed

lemma bin_words:
  assumes "size_ok cls w" "page_bin cls w = size_bin cls sz" "0 < sz" "sz < 2 ^ 32" "pageWords cls < 2 ^ 31"
  shows "sz < w"
proof (cases "linear cls")
  case True
  then have "w - 1 - 1 = sz - 1" "1 < w" using assms by (simp_all add: page_bin_def size_bin_def size_ok_def OBJECT_HEADER_SIZE_def)
  then show ?thesis using assms(3) by arith
next
  case False
  obtain j where j: "w = 2 ^ j" "1 < w" "w \<le> pageWords cls" using assms(1) False by (auto simp: size_ok_def)
  then obtain k where k: "j = Suc k" by (cases j) auto
  have "chiLog2Floor (of_nat (w - 1)) = k"
    by (rule log2_floor_eq) (use j k assms(5) in simp_all)
  moreover obtain i where i: "2 ^ i \<le> sz" "sz < 2 ^ Suc i" using size_split [OF assms(3)] by blast
  then have "chiLog2Floor (of_nat sz) = i" by (rule log2_floor_eq) (use assms(4) in simp)
  ultimately show ?thesis using assms(2) False i(2) j(1) k by (simp add: page_bin_def size_bin_def OBJECT_HEADER_SIZE_def)
qed

text \<open>A page is in use from its allocation until the sweeper finds no live object in it.\<close>

definition in_use :: "segment \<Rightarrow> nat \<Rightarrow> bool" where
  "in_use s i \<longleftrightarrow> i < endIndex s \<and> \<not> bit (pages s ! i) 31"

definition page_words :: "segment \<Rightarrow> nat \<Rightarrow> nat" where
  "page_words s i = unat (pages s ! i)"

definition slots :: "heap_class \<Rightarrow> nat \<Rightarrow> segment \<Rightarrow> nat \<Rightarrow> nat list" where
  "slots cls a s i = page_objs (a + 8 * (pageWords cls * i)) (page_words s i) (pageWords cls div page_words s i)"

definition free_slots :: "heap_class \<Rightarrow> nat \<Rightarrow> words \<Rightarrow> segment \<Rightarrow> nat \<Rightarrow> nat set" where
  "free_slots cls a m s b = {x. \<exists>i. in_use s i \<and> sweepIndex s \<le> i \<and> page_bin cls (page_words s i) = b \<and> x \<in> set (slots cls a s i) \<and> \<not> used m x}"

definition live_slots :: "heap_class \<Rightarrow> nat \<Rightarrow> words \<Rightarrow> segment \<Rightarrow> nat set" where
  "live_slots cls a m s = {x. \<exists>i. in_use s i \<and> x \<in> set (slots cls a s i) \<and> used m x}"

definition seg_objs :: "heap_class \<Rightarrow> nat \<Rightarrow> words \<Rightarrow> segment \<Rightarrow> (nat \<times> nat) set" where
  "seg_objs cls a m s = {(x, n). \<exists>i. in_use s i \<and> x \<in> set (slots cls a s i) \<and> used m x \<and> n = 8 * page_words s i}"

definition seg_shape :: "heap_class \<Rightarrow> segment \<Rightarrow> bool" where
  "seg_shape cls s \<longleftrightarrow> length (pages s) = pagesPerSegment cls \<and> sweepIndex s \<le> endIndex s \<and> endIndex s \<le> pagesPerSegment cls \<and>
     length (freeObjectList s) = bins cls \<and> (\<forall>i. in_use s i \<longrightarrow> size_ok cls (page_words s i))"

definition seg_pages :: "segment \<Rightarrow> bool" where
  "seg_pages s \<longleftrightarrow> (\<exists>is. page_list (pages s) (freePageList s) is \<and> distinct is \<and>
     set is = {i. sweepIndex s \<le> i \<and> i < endIndex s \<and> bit (pages s ! i) 31})"

definition seg_lists :: "heap_class \<Rightarrow> nat \<Rightarrow> words \<Rightarrow> segment \<Rightarrow> bool" where
  "seg_lists cls a m s \<longleftrightarrow> (\<forall>b < bins cls. \<exists>as. obj_list m (freeObjectList s ! b) as \<and> distinct as \<and> set as = free_slots cls a m s b)"

definition seg_ok :: "heap_class \<Rightarrow> nat \<Rightarrow> words \<Rightarrow> segment \<Rightarrow> bool" where
  "seg_ok cls a m s \<longleftrightarrow> seg_shape cls s \<and> seg_pages s \<and> seg_lists cls a m s"

lemma slots_page:
  assumes "seg_shape cls s" "in_use s i" "x \<in> set (slots cls a s i)"
  shows "a + 8 * (pageWords cls * i) \<le> x" "x + 8 * page_words s i \<le> a + 8 * (pageWords cls * i) + 8 * pageWords cls"
    "0 < page_words s i"
proof -
  have w: "0 < page_words s i" using assms(1,2) by (fastforce simp: seg_shape_def size_ok_def)
  have "pageWords cls div page_words s i * page_words s i \<le> pageWords cls" by simp
  then have "8 * page_words s i * (pageWords cls div page_words s i) \<le> 8 * pageWords cls" by (metis mult.assoc mult.commute mult_le_mono2)
  then show "a + 8 * (pageWords cls * i) \<le> x" "x + 8 * page_words s i \<le> a + 8 * (pageWords cls * i) + 8 * pageWords cls" "0 < page_words s i"
    using page_objs_range [OF w assms(3) [unfolded slots_def]] w by linarith+
qed

lemma page_end: "i < (n :: nat) \<Longrightarrow> 8 * (p * i) + 8 * p \<le> 8 * (p * n)"
proof -
  assume "i < n"
  then have "p * Suc i \<le> p * n" by (intro mult_le_mono2) simp
  then show ?thesis by simp
qed

lemma slots_apart:
  assumes "seg_shape cls s" "in_use s i" "x \<in> set (slots cls a s i)" "in_use s j" "y \<in> set (slots cls a s j)" "x \<noteq> y"
  shows "x + 8 * page_words s i \<le> y \<or> y + 8 * page_words s j \<le> x"
proof (cases "i = j")
  case True
  let ?w = "page_words s i"
  obtain k l where kl: "x = a + 8 * (pageWords cls * i) + 8 * ?w * k" "y = a + 8 * (pageWords cls * i) + 8 * ?w * l"
    using assms(3,5) unfolding slots_def page_objs_def True by auto
  then have "k < l \<or> l < k" using assms(6) by (metis nat_neq_iff)
  then have "8 * ?w * Suc k \<le> 8 * ?w * l \<or> 8 * ?w * Suc l \<le> 8 * ?w * k" by (metis Suc_leI mult_le_mono2)
  then show ?thesis using kl True by auto
next
  case False
  note X = slots_page [OF assms(1-3)] and Y = slots_page [OF assms(1,4,5)]
  show ?thesis
  proof (cases "i < j")
    case True
    then show ?thesis using page_end [OF True, of "pageWords cls"] X Y by linarith
  next
    case False
    then have "j < i" using \<open>i \<noteq> j\<close> by simp
    then show ?thesis using page_end [of j i "pageWords cls"] X Y by linarith
  qed
qed

lemma slots_same_page:
  assumes "seg_shape cls s" "in_use s i" "x \<in> set (slots cls a s i)" "in_use s j" "x \<in> set (slots cls a s j)"
  shows "i = j"
proof (rule ccontr)
  assume "i \<noteq> j"
  note X = slots_page [OF assms(1-3)] and Y = slots_page [OF assms(1,4,5)]
  show False
  proof (cases "i < j")
    case True
    then show ?thesis using page_end [OF True, of "pageWords cls"] X Y by linarith
  next
    case False
    then have "j < i" using \<open>i \<noteq> j\<close> by simp
    then show ?thesis using page_end [of j i "pageWords cls"] X Y by linarith
  qed
qed

lemma slots_within:
  assumes "class_ok cls" "seg_place cls a" "seg_shape cls s" "in_use s i" "x \<in> set (slots cls a s i)"
  shows "a \<le> x" "x + 8 * page_words s i \<le> a + 8 * segmentWords cls" "8 dvd x" "0 < x" "x < 2 ^ 63"
proof -
  note X = slots_page [OF assms(3-5)]
  have i: "i < pagesPerSegment cls" using assms(3,4) by (auto simp: seg_shape_def in_use_def)
  have c: "8 * (pageWords cls * pagesPerSegment cls) \<le> 8 * segmentWords cls" using assms(1) by (simp add: class_ok_def mult.commute)
  show "a \<le> x" "0 < x" using X assms(2) by (simp_all add: seg_place_def)
  show "x + 8 * page_words s i \<le> a + 8 * segmentWords cls" using page_end [OF i, of "pageWords cls"] X c by linarith
  then show "x < 2 ^ 63" using assms(2) X(3) unfolding seg_place_def by linarith
  show "8 dvd x" using assms(2,5) by (auto simp: seg_place_def slots_def page_objs_def mult.assoc)
qed

lemma free_list_head:
  assumes "seg_lists cls a m s" "b < bins cls" "freeObjectList s ! b \<noteq> 0"
  obtains as where "obj_list m (freeObjectList s ! b) (freeObjectList s ! b # as)" "distinct (freeObjectList s ! b # as)"
    "set (freeObjectList s ! b # as) = free_slots cls a m s b"
proof -
  obtain as where as: "obj_list m (freeObjectList s ! b) as" "distinct as" "set as = free_slots cls a m s b"
    using assms(1,2) unfolding seg_lists_def by blast
  then obtain c cs where "as = c # cs" using assms(3) by (cases as) auto
  then show thesis using that [of cs] as by auto
qed

lemma objs_live:
  assumes "seg_shape cls s" "\<And>i. in_use s' i \<Longrightarrow> in_use s i \<and> page_words s' i = page_words s i"
    and "live_slots cls a m' s' = live_slots cls a m s - W"
  shows "seg_objs cls a m' s' = {e \<in> seg_objs cls a m s. fst e \<notin> W}"
proof -
  have sl: "slots cls a s' i = slots cls a s i" if "in_use s' i" for i using assms(2) [OF that] by (simp add: slots_def)
  have "(x, n) \<in> seg_objs cls a m' s' \<longleftrightarrow> (x, n) \<in> seg_objs cls a m s \<and> x \<notin> W" for x n
  proof
    assume "(x, n) \<in> seg_objs cls a m' s'"
    then obtain i where i: "in_use s' i" "x \<in> set (slots cls a s i)" "used m' x" "n = 8 * page_words s i"
      using sl assms(2) unfolding seg_objs_def by auto
    then have "x \<in> live_slots cls a m' s'" using sl unfolding live_slots_def by auto
    then have x: "x \<in> live_slots cls a m s" "x \<notin> W" unfolding assms(3) by simp_all
    then show "(x, n) \<in> seg_objs cls a m s \<and> x \<notin> W"
      using assms(2) [OF i(1)] i(2,4) unfolding seg_objs_def live_slots_def by auto
  next
    assume x: "(x, n) \<in> seg_objs cls a m s \<and> x \<notin> W"
    then obtain i where i: "in_use s i" "x \<in> set (slots cls a s i)" "used m x" "n = 8 * page_words s i" unfolding seg_objs_def by blast
    then have "x \<in> live_slots cls a m s - W" using x unfolding live_slots_def by blast
    then have "x \<in> live_slots cls a m' s'" unfolding assms(3) .
    then obtain j where j: "in_use s' j" "x \<in> set (slots cls a s j)" "used m' x" using sl unfolding live_slots_def by auto
    then have "j = i" using slots_same_page [OF assms(1) i(1,2)] assms(2) by blast
    then show "(x, n) \<in> seg_objs cls a m' s'" using i(4) j sl assms(2) unfolding seg_objs_def by auto
  qed
  then show ?thesis by auto
qed

text \<open>The memory of a segment and what changes it.\<close>

lemma live_frame:
  assumes "\<And>i x. in_use s i \<Longrightarrow> x \<in> set (slots cls a s i) \<Longrightarrow> m' x = m x"
  shows "live_slots cls a m' s = live_slots cls a m s" "free_slots cls a m' s b = free_slots cls a m s b"
  unfolding live_slots_def free_slots_def using used_other(2) assms by blast+

lemma segment_frame:
  assumes "\<And>i x. in_use s i \<Longrightarrow> x \<in> set (slots cls a s i) \<Longrightarrow> m' x = m x" "seg_ok cls a m s"
  shows "seg_ok cls a m' s"
proof -
  note F = live_frame [where s = s and m' = m' and m = m, OF assms(1)]
  have "\<exists>as. obj_list m' (freeObjectList s ! b) as \<and> distinct as \<and> set as = free_slots cls a m' s b" if b: "b < bins cls" for b
  proof -
    obtain as where as: "obj_list m (freeObjectList s ! b) as" "distinct as" "set as = free_slots cls a m s b"
      using assms(2) b unfolding seg_ok_def seg_lists_def by blast
    have "\<forall>x \<in> set as. m' x = m x" unfolding as(3) free_slots_def using assms(1) by blast
    from obj_list_frame [OF this] have "obj_list m' (freeObjectList s ! b) as" using as(1) by simp
    then show ?thesis using as(2,3) F(2) by (intro exI [of _ as]) simp
  qed
  then show ?thesis using assms(2) unfolding seg_ok_def seg_lists_def by blast
qed

text \<open>Taking an object and initialising it.\<close>

lemma take_ok:
  assumes "class_ok cls" "seg_place cls a" "seg_ok cls a m s" "b < bins cls" "freeObjectList s ! b \<noteq> 0"
    and "object_take b (s, m) = (h, s')" "\<And>x. x \<noteq> h \<Longrightarrow> m' x = m x" "used m' h"
  shows "seg_ok cls a m' s' \<and> h \<notin> live_slots cls a m s \<and> live_slots cls a m' s' = insert h (live_slots cls a m s) \<and>
    (\<exists>i. in_use s i \<and> page_bin cls (page_words s i) = b \<and> h \<in> set (slots cls a s i))"
proof -
  have S: "seg_shape cls s" "seg_pages s" "seg_lists cls a m s" using assms(3) by (simp_all add: seg_ok_def)
  obtain as where as: "obj_list m h (h # as)" "distinct (h # as)" "set (h # as) = free_slots cls a m s b"
    using free_list_head [OF S(3) assms(4,5)] assms(6) by (auto simp: object_take_def Let_def)
  have s': "s' = s\<lparr>freeObjectList := (freeObjectList s)[b := unat (m h)]\<rparr>" "h = freeObjectList s ! b"
    using assms(6) by (auto simp: object_take_def Let_def)
  have same [simp]: "in_use s' = in_use s" "page_words s' = page_words s" "slots cls a s' = slots cls a s" "sweepIndex s' = sweepIndex s"
    by (intro ext | simp add: s' in_use_def page_words_def slots_def)+
  have "h \<in> free_slots cls a m s b" unfolding as(3) [symmetric] by simp
  then obtain i where i: "in_use s i" "sweepIndex s \<le> i" "page_bin cls (page_words s i) = b" "h \<in> set (slots cls a s i)" "\<not> used m h"
    unfolding free_slots_def by blast
  have u: "used m' x \<longleftrightarrow> x = h \<or> used m x" for x using assms(7,8) used_other(2) by metis
  have L: "live_slots cls a m' s' = insert h (live_slots cls a m s)"
    unfolding live_slots_def same u using i by blast
  have F: "free_slots cls a m' s' c = free_slots cls a m s c - {h}" for c
    unfolding free_slots_def same u by blast
  have lists: "\<exists>as. obj_list m' (freeObjectList s' ! c) as \<and> distinct as \<and> set as = free_slots cls a m' s' c" if c: "c < bins cls" for c
  proof (cases "c = b")
    case True
    have "\<forall>x \<in> set as. m' x = m x" using as(2) assms(7) by (metis distinct.simps(2))
    from obj_list_frame [OF this] have "obj_list m' (unat (m h)) as" using as(1) by simp
    moreover have "set as = free_slots cls a m s b - {h}" using as(2,3) by auto
    ultimately show ?thesis using as(2) F True S(1) assms(4) unfolding s'(1) by (auto simp: seg_shape_def)
  next
    case False
    obtain cs where cs: "obj_list m (freeObjectList s ! c) cs" "distinct cs" "set cs = free_slots cls a m s c"
      using S(3) c unfolding seg_lists_def by blast
    have "h \<notin> set cs"
    proof
      assume "h \<in> set cs"
      then obtain j where "in_use s j" "page_bin cls (page_words s j) = c" "h \<in> set (slots cls a s j)" unfolding cs(3) free_slots_def by blast
      then show False using slots_same_page [OF S(1) i(1,4)] i(3) False by blast
    qed
    then have "\<forall>x \<in> set cs. m' x = m x" "set cs = free_slots cls a m' s' c" using assms(7) cs(3) F by (metis, simp)
    note this(2) obj_list_frame [OF this(1)]
    then have "obj_list m' (freeObjectList s ! c) cs" "set cs = free_slots cls a m' s' c" using cs(1) by simp_all
    then show ?thesis using cs(2) False unfolding s'(1) by auto
  qed
  have "seg_shape cls s'" "seg_pages s'" using S(1,2) unfolding seg_shape_def seg_pages_def same by (simp_all add: s')
  then have "seg_ok cls a m' s'" using lists unfolding seg_ok_def seg_lists_def by blast
  then show ?thesis using L i unfolding live_slots_def
    using slots_same_page [OF S(1) i(1,4)] by blast
qed

lemma chain_unused: "obj_list m h as \<Longrightarrow> \<forall>a \<in> set as. even a \<Longrightarrow> \<forall>a \<in> set as. \<not> used m a"
proof (induction as arbitrary: h)
  case (Cons a as)
  have "unat (m a) = (case as of [] \<Rightarrow> 0 | b # _ \<Rightarrow> b)" using Cons.prems(1) obj_list_head by auto
  then have "even (unat (m a))" using Cons.prems(2) by (auto split: list.splits)
  then have "\<not> used m a" by (simp add: used_bit bit_0 even_of_nat_iff [symmetric, where 'a = "64 word"])
  then show ?case using Cons by auto
qed simp

text \<open>Taking a page and filling it with free objects.\<close>

lemma page_take_ok:
  assumes "seg_shape cls s" "seg_pages s" "sweepIndex s = 0" "page_take cls s = Some (p, s')"
  shows "p < pagesPerSegment cls" "\<not> in_use s p" "freeObjectList s' = freeObjectList s" "pages s' = pages s" "sweepIndex s' = 0"
    "endIndex s' \<le> pagesPerSegment cls" "endIndex s' = max (endIndex s) (Suc p)" "alive s' = alive s"
    "\<exists>is. page_list (pages s) (freePageList s') is \<and> distinct is \<and> set is = {i. i < endIndex s \<and> bit (pages s ! i) 31} - {p}"
    "p \<le> endIndex s"
proof -
  obtain js where js: "page_list (pages s) (freePageList s) js" "distinct js" "set js = {i. i < endIndex s \<and> bit (pages s ! i) 31}"
    using assms(2,3) unfolding seg_pages_def by auto
  have "p < pagesPerSegment cls \<and> \<not> in_use s p \<and> freeObjectList s' = freeObjectList s \<and> pages s' = pages s \<and> sweepIndex s' = 0 \<and>
    endIndex s' \<le> pagesPerSegment cls \<and> endIndex s' = max (endIndex s) (Suc p) \<and> alive s' = alive s \<and>
    (\<exists>is. page_list (pages s) (freePageList s') is \<and> distinct is \<and> set is = {i. i < endIndex s \<and> bit (pages s ! i) 31} - {p}) \<and> p \<le> endIndex s"
  proof (cases "freePageList s")
    case None
    then have "js = []" using js(1) by (cases js) auto
    moreover have "s' = s\<lparr>endIndex := endIndex s + 1\<rparr>" "p = endIndex s" "endIndex s \<noteq> pagesPerSegment cls"
      using assms(4) None by (auto simp: page_take_def split: if_splits)
    ultimately show ?thesis using assms(1,3) js(3) None by (intro conjI exI [of _ "[]"]) (auto simp: seg_shape_def in_use_def)
  next
    case (Some q)
    then obtain ks where ks: "js = p # ks" "q = p" "page_list (pages s) (page_next (pages s ! p)) ks"
      using js(1) assms(4) by (cases js) (auto simp: page_take_def)
    have p: "p \<in> set js" using ks(1) by simp
    have "s' = s\<lparr>freePageList := page_next (pages s ! p)\<rparr>" using assms(4) Some ks(2) by (auto simp: page_take_def)
    moreover have "set ks = {i. i < endIndex s \<and> bit (pages s ! i) 31} - {p}" using js(2,3) ks(1) by auto
    moreover have "p < endIndex s" "bit (pages s ! p) 31" using p js(3) by auto
    ultimately show ?thesis using assms(1,3) js(2) ks by (intro conjI exI [of _ ks]) (auto simp: seg_shape_def in_use_def)
  qed
  then show "p < pagesPerSegment cls" "\<not> in_use s p" "freeObjectList s' = freeObjectList s" "pages s' = pages s" "sweepIndex s' = 0"
    "endIndex s' \<le> pagesPerSegment cls" "endIndex s' = max (endIndex s) (Suc p)" "alive s' = alive s"
    "\<exists>is. page_list (pages s) (freePageList s') is \<and> distinct is \<and> set is = {i. i < endIndex s \<and> bit (pages s ! i) 31} - {p}"
    "p \<le> endIndex s" by blast+
qed

lemma small_no_free_bit: "unat (w :: u32) < 2 ^ 31 \<Longrightarrow> \<not> bit w 31"
proof -
  assume w: "unat w < 2 ^ 31"
  then have "take_bit 31 (unat w) = unat w" by (simp add: take_bit_nat_eq_self)
  then have "\<not> bit (unat w) 31" by (metis bit_take_bit_iff less_irrefl)
  then show ?thesis by (simp add: bit_unsigned_iff)
qed

lemma fill_ok:
  assumes c: "class_ok cls" "seg_place cls a" "seg_ok cls a m s" "sweepIndex s = 0"
    and b: "b < bins cls" "w = unat (object_size cls sz)" "size_ok cls w" "page_bin cls w = b"
    and r: "page_take cls s = Some (p, s1)" "page_fill cls a p sz b (s1, m) = (s2, m2)"
  shows "seg_ok cls a m2 s2 \<and> live_slots cls a m2 s2 = live_slots cls a m s \<and> freeObjectList s2 ! b \<noteq> 0 \<and> sweepIndex s2 = 0 \<and>
    (\<forall>x. x < a \<or> a + 8 * segmentWords cls \<le> x \<longrightarrow> m2 x = m x) \<and> seg_objs cls a m2 s2 = seg_objs cls a m s \<and>
    (\<forall>(x, n) \<in> seg_objs cls a m s. \<forall>y. x \<le> y \<and> y < x + n \<longrightarrow> m2 y = m y)"
proof -
  have S: "seg_shape cls s" "seg_pages s" "seg_lists cls a m s" using c(3) by (simp_all add: seg_ok_def)
  note T = page_take_ok [OF S(1,2) c(4) r(1)]
  define ptr where "ptr = a + 8 * (pageWords cls * p)"
  define P where "P = set (page_objs ptr w (pageWords cls div w))"
  have w: "0 < w" "w \<le> pageWords cls" "w < 2 ^ 31" using b(3) c(1) by (auto simp: size_ok_def class_ok_def)
  have pw: "\<not> bit (object_size cls sz) 31" by (rule small_no_free_bit) (use w(3) b(2) in simp)
  obtain fl where fl: "page_carve w ptr (ptr + 8 * pageWords cls) (freeObjectList s ! b, m) = (fl, m2)"
    "s2 = s1\<lparr>pages := (pages s)[p := object_size cls sz], freeObjectList := (freeObjectList s)[b := fl]\<rparr>"
    using r(2) b(2) T(3,4) by (auto simp: page_fill_def Let_def ptr_def CHI_WORDSIZE_def split: prod.splits)
  have len: "length (pages s) = pagesPerSegment cls" "length (freeObjectList s) = bins cls" using S(1) by (simp_all add: seg_shape_def)
  have use: "in_use s2 i \<longleftrightarrow> in_use s i \<or> i = p" for i
    using T(1,2,7,10) pw len(1) unfolding in_use_def fl(2) by (cases "i = p") (auto simp: nth_list_update less_Suc_eq)
  have wds: "page_words s2 i = (if i = p then w else page_words s i)" for i
    using T(1) len(1) b(2) unfolding page_words_def fl(2) by simp
  have slo: "slots cls a s2 i = (if i = p then page_objs ptr w (pageWords cls div w) else slots cls a s i)" for i
    unfolding slots_def wds ptr_def by simp
  have shape: "seg_shape cls s2"
    using S(1) T(5,6) use wds b(3) len unfolding seg_shape_def by (auto simp: fl(2))
  have pend: "ptr + 8 * pageWords cls \<le> a + 8 * segmentWords cls"
  proof -
    have "8 * (pageWords cls * pagesPerSegment cls) \<le> 8 * segmentWords cls" using c(1) by (simp add: class_ok_def mult.commute)
    then show ?thesis using page_end [OF T(1), of "pageWords cls"] unfolding ptr_def by linarith
  qed
  have Pr: "ptr \<le> x" "x + 8 * w \<le> ptr + 8 * pageWords cls" "8 dvd x" if "x \<in> P" for x
  proof -
    have "w * (pageWords cls div w) \<le> pageWords cls" by simp
    then have "8 * w * (pageWords cls div w) \<le> 8 * pageWords cls" by (metis mult.assoc mult_le_mono2)
    then show "ptr \<le> x" "x + 8 * w \<le> ptr + 8 * pageWords cls" using page_objs_range [OF w(1) that [unfolded P_def]] by linarith+
    show "8 dvd x" using that c(2) by (auto simp: P_def page_objs_def ptr_def seg_place_def mult.assoc)
  qed
  have other: "x < ptr \<or> ptr + 8 * pageWords cls \<le> x" if "in_use s i" "x \<in> set (slots cls a s i)" for x i
  proof -
    have "i \<noteq> p" using that(1) T(2) by blast
    then consider "i < p" | "p < i" by linarith
    then show ?thesis
      using slots_page [OF S(1) that] page_end [of i p "pageWords cls"] page_end [of p i "pageWords cls"] unfolding ptr_def by cases linarith+
  qed
  obtain as where as: "obj_list m (freeObjectList s ! b) as" "distinct as" "set as = free_slots cls a m s b"
    using S(3) b(1) unfolding seg_lists_def by blast
  have asr: "x < ptr \<or> ptr + 8 * pageWords cls \<le> x" "even x" "x < 2 ^ 63" if x: "x \<in> set as" for x
  proof -
    obtain i where i: "in_use s i" "x \<in> set (slots cls a s i)" using x unfolding as(3) free_slots_def by blast
    show "x < ptr \<or> ptr + 8 * pageWords cls \<le> x" by (rule other [OF i])
    have "8 dvd x" "x < 2 ^ 63" using slots_within [OF c(1,2) S(1) i] by simp_all
    then show "even x" "x < 2 ^ 63" by presburger+
  qed
  have "freeObjectList s ! b < 2 ^ 63" using obj_list_head [OF as(1)] asr(3) by (cases as) auto
  then have h: "freeObjectList s ! b < 2 ^ 64" by simp
  have pos: "0 < ptr" "ptr + 8 * pageWords cls < 2 ^ 64" using c(2) pend by (auto simp: seg_place_def ptr_def)
  have d: "(ptr + 8 * pageWords cls - ptr) div (8 * w) = pageWords cls div w" by simp
  have C: "obj_list m2 fl (rev (page_objs ptr w (pageWords cls div w)) @ as)" "\<forall>x. x \<notin> P \<longrightarrow> m2 x = m x"
    using page_carve_ok [OF w(1) as(1) pos h _ fl(1)] asr(1) unfolding d P_def by blast+
  let ?new = "rev (page_objs ptr w (pageWords cls div w)) @ as"
  have "even x" if "x \<in> P" for x using Pr(3) [OF that] by presburger
  then have "\<forall>x \<in> set ?new. even x" using asr(2) unfolding P_def by auto
  from chain_unused [OF C(1) this] have un: "\<not> used m2 x" if "x \<in> P" for x using that unfolding P_def by simp
  have keep: "m2 x = m x" if "in_use s i" "x \<in> set (slots cls a s i)" for x i
  proof -
    have "x \<notin> P" using other [OF that] Pr w(1) by fastforce
    then show ?thesis using C(2) by blast
  qed
  have ku: "used m2 x = used m x" if "in_use s i" "x \<in> set (slots cls a s i)" for x i by (rule used_other(2)) (rule keep [OF that])
  have L: "live_slots cls a m2 s2 = live_slots cls a m s"
  proof (intro set_eqI iffI)
    fix x assume "x \<in> live_slots cls a m2 s2"
    then obtain i where i: "in_use s i \<or> i = p" "x \<in> set (slots cls a s2 i)" "used m2 x" unfolding live_slots_def use by blast
    then have "i \<noteq> p" using un unfolding slo P_def by auto
    then show "x \<in> live_slots cls a m s" using i ku unfolding slo live_slots_def by auto
  next
    fix x assume "x \<in> live_slots cls a m s"
    then obtain i where i: "in_use s i" "x \<in> set (slots cls a s i)" "used m x" unfolding live_slots_def by blast
    moreover have "i \<noteq> p" using i(1) T(2) by blast
    ultimately show "x \<in> live_slots cls a m2 s2" using ku unfolding live_slots_def use slo by (auto intro!: exI [of _ i])
  qed
  have si [simp]: "sweepIndex s2 = 0" using T(5) by (simp add: fl(2))
  have F: "free_slots cls a m2 s2 k = free_slots cls a m s k \<union> (if k = b then P else {})" for k
  proof (intro set_eqI iffI)
    fix x assume "x \<in> free_slots cls a m2 s2 k"
    then obtain i where i: "in_use s i \<or> i = p" "page_bin cls (page_words s2 i) = k" "x \<in> set (slots cls a s2 i)" "\<not> used m2 x"
      unfolding free_slots_def use by blast
    show "x \<in> free_slots cls a m s k \<union> (if k = b then P else {})"
    proof (cases "i = p")
      case True
      then show ?thesis using i b(4) unfolding slo wds P_def by simp
    next
      case False
      then show ?thesis using i ku c(4) unfolding slo wds free_slots_def by auto
    qed
  next
    fix x assume x: "x \<in> free_slots cls a m s k \<union> (if k = b then P else {})"
    show "x \<in> free_slots cls a m2 s2 k"
    proof (cases "x \<in> free_slots cls a m s k")
      case True
      then obtain i where i: "in_use s i" "page_bin cls (page_words s i) = k" "x \<in> set (slots cls a s i)" "\<not> used m x"
        unfolding free_slots_def by blast
      moreover have "i \<noteq> p" using i(1) T(2) by blast
      ultimately show ?thesis using ku [OF i(1,3)] unfolding free_slots_def use slo wds by (auto intro!: exI [of _ i])
    next
      case False
      then have "k = b" "x \<in> P" using x by (auto split: if_splits)
      then show ?thesis using un b(4) unfolding free_slots_def use slo wds by (auto simp: P_def intro!: exI [of _ p])
    qed
  qed
  have lists: "\<exists>as. obj_list m2 (freeObjectList s2 ! k) as \<and> distinct as \<and> set as = free_slots cls a m2 s2 k" if k: "k < bins cls" for k
  proof (cases "k = b")
    case True
    have "distinct ?new" using as(2) page_objs_distinct [OF w(1)] asr(1) Pr w(1) unfolding P_def by fastforce
    moreover have "set ?new = free_slots cls a m2 s2 k" unfolding F True using as(3) by (auto simp: P_def)
    moreover have "freeObjectList s2 ! k = fl" using True b(1) len(2) by (simp add: fl(2))
    ultimately show ?thesis using C(1) by metis
  next
    case False
    obtain cs where cs: "obj_list m (freeObjectList s ! k) cs" "distinct cs" "set cs = free_slots cls a m s k"
      using S(3) k unfolding seg_lists_def by blast
    have "\<forall>x \<in> set cs. m2 x = m x" using keep unfolding cs(3) free_slots_def by blast
    from obj_list_frame [OF this] show ?thesis using cs False F by (intro exI [of _ cs]) (simp add: fl(2))
  qed
  have pgs: "seg_pages s2"
  proof -
    obtain js where js: "page_list (pages s) (freePageList s1) js" "distinct js" "set js = {i. i < endIndex s \<and> bit (pages s ! i) 31} - {p}"
      using T(9) by blast
    have "page_list (pages s2) (freePageList s2) js"
      using js(1,3) page_list_frame [of js "pages s2" "pages s"] by (auto simp: fl(2))
    moreover have "set js = {i. sweepIndex s2 \<le> i \<and> i < endIndex s2 \<and> bit (pages s2 ! i) 31}"
    proof (rule set_eqI)
      fix k
      have "k \<in> {k. sweepIndex s2 \<le> k \<and> k < endIndex s2 \<and> bit (pages s2 ! k) 31} \<longleftrightarrow> k < endIndex s1 \<and> bit ((pages s)[p := object_size cls sz] ! k) 31"
        by (simp add: fl(2) T(5))
      also have "\<dots> \<longleftrightarrow> k \<in> {i. i < endIndex s \<and> bit (pages s ! i) 31} - {p}"
      proof (cases "k = p")
        case False
        then have "k < endIndex s1 \<longleftrightarrow> k < endIndex s" using T(7,10) by linarith
        then show ?thesis using False by simp
      qed (use T(1) len(1) pw in simp)
      finally show "k \<in> set js \<longleftrightarrow> k \<in> {i. sweepIndex s2 \<le> i \<and> i < endIndex s2 \<and> bit (pages s2 ! i) 31}" using js(3) by simp
    qed
    ultimately show ?thesis using js(2) unfolding seg_pages_def by blast
  qed
  have "fl \<noteq> 0"
  proof -
    have "0 < pageWords cls div w" using w by (simp add: div_greater_zero_iff)
    then have "?new \<noteq> []" by (simp add: page_objs_def)
    then show ?thesis using C(1) by (cases ?new) auto
  qed
  then have "freeObjectList s2 ! b \<noteq> 0" using b(1) len(2) by (simp add: fl(2))
  moreover have "m2 x = m x" if "x < a \<or> a + 8 * segmentWords cls \<le> x" for x
  proof -
    have "x \<notin> P" using that Pr [of x] pend w(1) unfolding ptr_def by fastforce
    then show ?thesis using C(2) by blast
  qed
  moreover have "m2 y = m y" if o: "(x, n) \<in> seg_objs cls a m s" "x \<le> y" "y < x + n" for x n y
  proof -
    obtain i where i: "in_use s i" "x \<in> set (slots cls a s i)" "n = 8 * page_words s i" using o(1) unfolding seg_objs_def by blast
    have "y \<notin> P"
    proof
      assume y: "y \<in> P"
      have "i \<noteq> p" using i(1) T(2) by blast
      then consider "i < p" | "p < i" by linarith
      then show False
        using slots_page [OF S(1) i(1,2)] page_end [of i p "pageWords cls"] page_end [of p i "pageWords cls"] Pr [OF y] o(2,3) w(1)
        unfolding ptr_def i(3) by cases linarith+
    qed
    then show ?thesis using C(2) by blast
  qed
  moreover have "seg_objs cls a m2 s2 = seg_objs cls a m s"
  proof -
    have "in_use s2 i \<and> page_words s i = page_words s2 i" if "in_use s i" for i
    proof -
      have "i \<noteq> p" using that T(2) by blast
      then show ?thesis using that use wds by simp
    qed
    from objs_live [OF shape this, of a m m2 "{}"] L show ?thesis by auto
  qed
  moreover have "seg_ok cls a m2 s2" using shape pgs lists unfolding seg_ok_def seg_lists_def by blast
  ultimately show ?thesis using L by (simp add: Ball_def split_paired_All)
qed

section \<open>Sweeping keeps the invariant\<close>

lemma bit_FREE: "bit HEAP_PAGE_FREE n \<longleftrightarrow> n = 31"
  unfolding HEAP_PAGE_FREE_def bit_push_bit_iff by (auto simp: bit_1_iff)

lemma page_free_bit: "(w :: u32) AND HEAP_PAGE_FREE \<noteq> 0 \<longleftrightarrow> bit w 31"
proof -
  have "w AND HEAP_PAGE_FREE = (if bit w 31 then HEAP_PAGE_FREE else 0)"
  proof (rule bit_eqI)
    fix n assume "possible_bit TYPE(u32) n"
    show "bit (w AND HEAP_PAGE_FREE) n \<longleftrightarrow> bit (if bit w 31 then HEAP_PAGE_FREE else 0) n"
      unfolding bit_and_iff bit_FREE by (cases "n = 31") (auto simp: bit_FREE)
  qed
  moreover have "HEAP_PAGE_FREE \<noteq> 0" using bit_FREE [of 31] by force
  ultimately show ?thesis by simp
qed

lemma page_link_next:
  assumes "\<forall>j. l = Some j \<longrightarrow> j < 2 ^ 31 - 1"
  shows "page_next (page_link l) = l" "bit (page_link l) 31"
proof -
  note bF = bit_FREE
  have "page_next (page_link l) = l \<and> bit (page_link l) 31"
  proof (cases l)
    case None
    then show ?thesis by (simp add: page_link_def page_next_def UINT32_MAX_def)
  next
    case (Some j)
    then have j: "j < 2 ^ 31 - 1" using assms by blast
    let ?w = "of_nat j :: u32"
    have u: "unat ?w = j" using j by (simp add: unat_of_nat take_bit_nat_eq_self)
    have nb: "\<not> bit ?w 31" by (rule small_no_free_bit) (use j u in simp)
    have bits: "bit ?w n \<Longrightarrow> n < 31" for n
    proof (rule ccontr)
      assume b: "bit ?w n" "\<not> n < 31"
      then have "n < 32" using bit_imp_le_length [OF b(1)] by simp
      then have "n = 31" using b(2) by simp
      then show False using b(1) nb by simp
    qed
    have e: "(?w OR HEAP_PAGE_FREE) AND NOT HEAP_PAGE_FREE = ?w"
    proof (rule bit_eqI)
      fix n assume "possible_bit TYPE(u32) n"
      then show "bit ((?w OR HEAP_PAGE_FREE) AND NOT HEAP_PAGE_FREE) n \<longleftrightarrow> bit ?w n"
        unfolding bit_and_iff bit_or_iff bit_not_iff bF using nb by (cases "n = 31") blast+
    qed
    have "?w OR HEAP_PAGE_FREE \<noteq> UINT32_MAX"
    proof
      assume m: "?w OR HEAP_PAGE_FREE = UINT32_MAX"
      have "bit ?w n \<longleftrightarrow> n < 31" for n
      proof -
        have "bit UINT32_MAX n \<longleftrightarrow> n < 32" unfolding UINT32_MAX_def by (simp add: bit_not_iff)
        moreover have "bit UINT32_MAX n \<longleftrightarrow> bit ?w n \<or> n = 31" unfolding m [symmetric] bit_or_iff bF ..
        ultimately show ?thesis using bits [of n] nb by (metis less_antisym less_irrefl less_Suc_eq numeral_eq_Suc pred_numeral_simps(2) Num.BitM.simps)
      qed
      then have "?w = mask 31" by (intro bit_eqI) (auto simp: bit_mask_iff)
      then have "j = unat (mask 31 :: u32)" using u by simp
      then show False using j by (simp add: mask_eq_exp_minus_1)
    qed
    then show ?thesis using Some e u by (simp add: page_link_def page_next_def bit_or_iff bF)
  qed
  then show "page_next (page_link l) = l" "bit (page_link l) 31" by simp_all
qed

lemma page_put_ok:
  assumes "class_ok cls" "seg_shape cls s" "seg_pages s" "sweepIndex s = Suc i"
  defines "s' \<equiv> page_put i (s\<lparr>sweepIndex := i\<rparr>)"
  shows "seg_pages s'" "seg_shape cls s'" "in_use s' j \<longleftrightarrow> in_use s j \<and> j \<noteq> i" "j \<noteq> i \<Longrightarrow> page_words s' j = page_words s j"
    "freeObjectList s' = freeObjectList s" "sweepIndex s' = i" "endIndex s' = endIndex s" "alive s' = alive s"
proof -
  obtain js where js: "page_list (pages s) (freePageList s) js" "distinct js" "set js = {k. Suc i \<le> k \<and> k < endIndex s \<and> bit (pages s ! k) 31}"
    using assms(3,4) unfolding seg_pages_def by auto
  have i: "i < endIndex s" "endIndex s \<le> length (pages s)" "length (pages s) < 2 ^ 31 - 1"
    using assms(1,2,4) by (auto simp: seg_shape_def class_ok_def)
  have "\<forall>j. freePageList s = Some j \<longrightarrow> j < 2 ^ 31 - 1" using js(1) i(3) by (cases js) auto
  note L = page_link_next [OF this]
  have p: "pages s' = (pages s)[i := page_link (freePageList s)]" "freePageList s' = Some i" by (simp_all add: s'_def page_put_def)
  show e: "freeObjectList s' = freeObjectList s" "sweepIndex s' = i" "endIndex s' = endIndex s" "alive s' = alive s"
    by (simp_all add: s'_def page_put_def)
  show use: "in_use s' j \<longleftrightarrow> in_use s j \<and> j \<noteq> i" for j using L(2) i unfolding in_use_def e p by (cases "j = i") auto
  show wds: "j \<noteq> i \<Longrightarrow> page_words s' j = page_words s j" for j by (simp add: page_words_def p)
  show "seg_shape cls s'" using assms(2,4) use wds e unfolding seg_shape_def by (auto simp: p)
  have "page_list (pages s') (freePageList s') (i # js)"
    using js(1,3) page_list_frame [of js "pages s'" "pages s"] i L(1) by (auto simp: p)
  moreover have "distinct (i # js)" using js(2,3) by simp
  moreover have "set (i # js) = {k. sweepIndex s' \<le> k \<and> k < endIndex s' \<and> bit (pages s' ! k) 31}"
  proof (rule set_eqI)
    fix k show "k \<in> set (i # js) \<longleftrightarrow> k \<in> {k. sweepIndex s' \<le> k \<and> k < endIndex s' \<and> bit (pages s' ! k) 31}"
      unfolding e p using js(3) L(2) i by (cases "k = i") (simp_all, linarith)
  qed
  ultimately show "seg_pages s'" unfolding seg_pages_def by blast
qed

lemma slots_words: "page_words s' j = page_words s j \<Longrightarrow> slots cls a s' j = slots cls a s j"
  by (simp add: slots_def)

text \<open>What one page's sweep does to the segment.\<close>

definition swept :: "heap_class \<Rightarrow> nat \<Rightarrow> ChiMarkState \<Rightarrow> words \<Rightarrow> segment \<Rightarrow> nat \<Rightarrow> nat set" where
  "swept cls a ms m s i = {x. in_use s i \<and> x \<in> set (slots cls a s i) \<and> garbage ms m x}"

lemma free_page_swept:
  assumes "class_ok cls" "seg_ok cls a m s" "sweepIndex s = Suc i"
    and f: "in_use s i \<Longrightarrow> \<forall>x \<in> set (slots cls a s i). garbage ms m x" "\<And>x. x \<notin> swept cls a ms m s i \<Longrightarrow> m' x = m x"
  defines "s' \<equiv> page_put i (s\<lparr>sweepIndex := i\<rparr>)"
  shows "seg_ok cls a m' s' \<and> live_slots cls a m' s' = live_slots cls a m s - swept cls a ms m s i"
proof -
  have S: "seg_shape cls s" "seg_pages s" "seg_lists cls a m s" using assms(2) by (simp_all add: seg_ok_def)
  note P = page_put_ok [OF assms(1) S(1,2) assms(3), folded s'_def]
  have sl: "slots cls a s' j = slots cls a s j" if "j \<noteq> i" for j by (rule slots_words) (rule P(4) [OF that])
  have keep: "m' x = m x" if "in_use s j" "j \<noteq> i" "x \<in> set (slots cls a s j)" for x j
  proof (rule f(2), rule notI)
    assume "x \<in> swept cls a ms m s i"
    then show False using slots_same_page [OF S(1) that(1,3)] that(2) unfolding swept_def by blast
  qed
  have ku: "used m' x = used m x" if "in_use s j" "j \<noteq> i" "x \<in> set (slots cls a s j)" for x j by (rule used_other(2)) (rule keep [OF that])
  have "live_slots cls a m' s' = live_slots cls a m s - swept cls a ms m s i"
  proof (intro set_eqI iffI)
    fix x assume "x \<in> live_slots cls a m' s'"
    then obtain j where j: "in_use s j" "j \<noteq> i" "x \<in> set (slots cls a s j)" "used m x" using ku sl P(3) unfolding live_slots_def by auto
    moreover have "x \<notin> swept cls a ms m s i" using slots_same_page [OF S(1) j(1,3)] j(2) unfolding swept_def by blast
    ultimately show "x \<in> live_slots cls a m s - swept cls a ms m s i" unfolding live_slots_def by blast
  next
    fix x assume x: "x \<in> live_slots cls a m s - swept cls a ms m s i"
    then obtain j where j: "in_use s j" "x \<in> set (slots cls a s j)" "used m x" unfolding live_slots_def by blast
    then have "j \<noteq> i" using x f(1) unfolding swept_def by blast
    then show "x \<in> live_slots cls a m' s'" using j ku sl P(3) unfolding live_slots_def by auto
  qed
  moreover have "free_slots cls a m' s' k = free_slots cls a m s k" for k
  proof (intro set_eqI iffI)
    fix x assume "x \<in> free_slots cls a m' s' k"
    then obtain j where j: "in_use s j" "j \<noteq> i" "i \<le> j" "page_bin cls (page_words s j) = k" "x \<in> set (slots cls a s j)" "\<not> used m' x"
      using P sl unfolding free_slots_def by auto
    then show "x \<in> free_slots cls a m s k" using ku assms(3) unfolding free_slots_def by fastforce
  next
    fix x assume "x \<in> free_slots cls a m s k"
    then obtain j where j: "in_use s j" "Suc i \<le> j" "page_bin cls (page_words s j) = k" "x \<in> set (slots cls a s j)" "\<not> used m x"
      using assms(3) unfolding free_slots_def by auto
    then have "j \<noteq> i" "i \<le> j" by simp_all
    then show "x \<in> free_slots cls a m' s' k" using j ku [OF j(1) _ j(4)] P sl unfolding free_slots_def by auto
  qed
  moreover have "obj_list m' (freeObjectList s ! k) cs" if cs: "obj_list m (freeObjectList s ! k) cs" "set cs = free_slots cls a m s k" for k cs
  proof -
    have "m' x = m x" if x: "x \<in> set cs" for x
    proof -
      obtain j where "in_use s j" "Suc i \<le> j" "x \<in> set (slots cls a s j)" using x assms(3) unfolding cs(2) free_slots_def by auto
      then show ?thesis using keep by simp
    qed
    then have "\<forall>x \<in> set cs. m' x = m x" by blast
    from obj_list_frame [OF this] show ?thesis using cs(1) by simp
  qed
  ultimately show ?thesis using P(1,2,5) S(3) unfolding seg_ok_def seg_lists_def by metis
qed

lemma live_page_swept:
  assumes "class_ok cls" "seg_place cls a" "seg_ok cls a m s" "sweepIndex s = Suc i" "cycle_colors ms"
    and i: "in_use s i" "page_bin cls (page_words s i) = b"
    and fl: "obj_list m (freeObjectList s ! b) as" "distinct as" "set as = free_slots cls a m s b"
    and r: "obj_list m' fl (filter (garbage ms m) (slots cls a s i) @ as)" "\<And>x. x \<notin> swept cls a ms m s i \<Longrightarrow> m' x = m x"
  defines "s' \<equiv> s\<lparr>sweepIndex := i, freeObjectList := (freeObjectList s)[b := fl], alive := True\<rparr>"
  shows "seg_ok cls a m' s' \<and> live_slots cls a m' s' = live_slots cls a m s - swept cls a ms m s i"
proof -
  have S: "seg_shape cls s" "seg_pages s" "seg_lists cls a m s" using assms(3) by (simp_all add: seg_ok_def)
  let ?G = "filter (garbage ms m) (slots cls a s i)"
  have G: "set ?G = swept cls a ms m s i" using i(1) by (auto simp: swept_def)
  have same [simp]: "in_use s' = in_use s" "page_words s' = page_words s" "slots cls a s' = slots cls a s" "sweepIndex s' = i"
    by (intro ext | simp add: s'_def in_use_def page_words_def slots_def)+
  have b: "b < bins cls" "0 < page_words s i" using S(1) i by (auto simp: seg_shape_def size_ok_def)
  have keep: "m' x = m x" if "in_use s j" "j \<noteq> i" "x \<in> set (slots cls a s j)" for x j
  proof (rule r(2), rule notI)
    assume "x \<in> swept cls a ms m s i"
    then show False using slots_same_page [OF S(1) that(1,3)] that(2) unfolding swept_def by blast
  qed
  have ev: "even x" if "in_use s j" "x \<in> set (slots cls a s j)" for x j
    using slots_within(3) [OF assms(1,2) S(1) that] by presburger
  have asl: "\<exists>j. in_use s j \<and> j \<noteq> i \<and> x \<in> set (slots cls a s j)" if "x \<in> set as" for x
    using that assms(4) unfolding fl(3) free_slots_def by auto
  have "\<forall>x \<in> set (?G @ as). even x" using ev asl i(1) by (metis UnE filter_is_subset set_append subset_eq)
  from chain_unused [OF r(1) this] have un: "\<not> used m' x" if "x \<in> swept cls a ms m s i" for x using that G by auto
  have us: "used m' x \<longleftrightarrow> used m x \<and> x \<notin> swept cls a ms m s i" for x
    using un used_other(2) [of m' x m] r(2) by blast
  have ug: "x \<in> swept cls a ms m s i" if "x \<in> set (slots cls a s i)" "\<not> used m x" for x
    using unused_garbage [OF assms(5)] that i(1) unfolding swept_def by blast
  have L: "live_slots cls a m' s' = live_slots cls a m s - swept cls a ms m s i"
    unfolding live_slots_def same us by blast
  have F: "free_slots cls a m' s' k = free_slots cls a m s k \<union> (if k = b then swept cls a ms m s i else {})" for k
  proof (intro set_eqI iffI)
    fix x assume "x \<in> free_slots cls a m' s' k"
    then obtain j where j: "in_use s j" "i \<le> j" "page_bin cls (page_words s j) = k" "x \<in> set (slots cls a s j)" "\<not> used m' x"
      unfolding free_slots_def by auto
    show "x \<in> free_slots cls a m s k \<union> (if k = b then swept cls a ms m s i else {})"
    proof (cases "j = i")
      case True
      then show ?thesis using j us ug i(2) by auto
    next
      case False
      then have "\<not> used m x" using j(5) used_other(2) [of m' x m] keep [OF j(1) _ j(4)] by blast
      then show ?thesis using j False assms(4) unfolding free_slots_def by auto
    qed
  next
    fix x assume x: "x \<in> free_slots cls a m s k \<union> (if k = b then swept cls a ms m s i else {})"
    show "x \<in> free_slots cls a m' s' k"
    proof (cases "x \<in> free_slots cls a m s k")
      case True
      then show ?thesis using us assms(4) unfolding free_slots_def by auto
    next
      case False
      then have "k = b" "x \<in> swept cls a ms m s i" using x by (auto split: if_splits)
      then show ?thesis using un i unfolding free_slots_def swept_def by auto
    qed
  qed
  have lists: "\<exists>as. obj_list m' (freeObjectList s' ! k) as \<and> distinct as \<and> set as = free_slots cls a m' s' k" if k: "k < bins cls" for k
  proof (cases "k = b")
    case True
    have "distinct (slots cls a s i)" unfolding slots_def by (rule page_objs_distinct [OF b(2)])
    moreover have "x \<notin> set as" if "x \<in> set ?G" for x
    proof
      assume "x \<in> set as"
      then obtain j where "in_use s j" "j \<noteq> i" "x \<in> set (slots cls a s j)" using asl by blast
      then show False using slots_same_page [OF S(1) i(1), of x a j] that by auto
    qed
    ultimately have "distinct (?G @ as)" using fl(2) by auto
    moreover have "set (?G @ as) = free_slots cls a m' s' k" unfolding F True set_append G using fl(3) by auto
    moreover have "freeObjectList s' ! k = fl" using True b(1) S(1) by (simp add: s'_def seg_shape_def)
    ultimately show ?thesis using r(1) by metis
  next
    case False
    obtain cs where cs: "obj_list m (freeObjectList s ! k) cs" "distinct cs" "set cs = free_slots cls a m s k"
      using S(3) k unfolding seg_lists_def by blast
    have "m' x = m x" if "x \<in> set cs" for x
      using that keep assms(4) unfolding cs(3) free_slots_def by fastforce
    then have "\<forall>x \<in> set cs. m' x = m x" by blast
    from obj_list_frame [OF this] show ?thesis using cs False F by (intro exI [of _ cs]) (simp add: s'_def)
  qed
  obtain js where js: "page_list (pages s) (freePageList s) js" "distinct js" "set js = {k. Suc i \<le> k \<and> k < endIndex s \<and> bit (pages s ! k) 31}"
    using S(2) assms(4) unfolding seg_pages_def by auto
  have "set js = {k. i \<le> k \<and> k < endIndex s \<and> bit (pages s ! k) 31}"
  proof (rule set_eqI)
    fix k show "k \<in> set js \<longleftrightarrow> k \<in> {k. i \<le> k \<and> k < endIndex s \<and> bit (pages s ! k) 31}"
      using js(3) i(1) by (cases "k = i") (simp_all add: in_use_def, linarith)
  qed
  then have "seg_pages s'" using js unfolding seg_pages_def by (auto simp: s'_def)
  moreover have "seg_shape cls s'" using S(1) assms(4) unfolding seg_shape_def same by (simp add: s'_def)
  ultimately show ?thesis using L lists unfolding seg_ok_def seg_lists_def by blast
qed

lemma sweep_page_ok:
  assumes c: "class_ok cls" "seg_place cls a" "seg_ok cls a m s" "sweepIndex s = Suc i" "cycle_colors ms"
    and r: "sweep_page cls a ms (s, m) = (s', m')"
  shows "seg_ok cls a m' s' \<and> sweepIndex s' = i \<and> endIndex s' = endIndex s \<and>
    live_slots cls a m' s' = live_slots cls a m s - swept cls a ms m s i \<and> (\<forall>x. x \<notin> swept cls a ms m s i \<longrightarrow> m' x = m x) \<and>
    (alive s' \<longleftrightarrow> alive s \<or> in_use s' i) \<and> (in_use s' i \<longrightarrow> in_use s i \<and> page_words s' i = page_words s i) \<and>
    (\<forall>j. j \<noteq> i \<longrightarrow> in_use s' j = in_use s j \<and> page_words s' j = page_words s j)"
proof -
  have S: "seg_shape cls s" "seg_pages s" "seg_lists cls a m s" using c(3) by (simp_all add: seg_ok_def)
  note P = page_put_ok [OF c(1) S(1,2) c(4)]
  define s0 where "s0 = s\<lparr>sweepIndex := i\<rparr>"
  have s0: "pages s0 = pages s" "freeObjectList s0 = freeObjectList s" by (simp_all add: s0_def)
  have i: "i < endIndex s" using S(1) c(4) by (simp add: seg_shape_def)
  show ?thesis
  proof (cases "in_use s i")
    case False
    then have "bit (pages s ! i) 31" using i by (simp add: in_use_def)
    then have "s' = page_put i s0" "m' = m"
      using r page_free_bit c(4) unfolding sweep_page_def Let_def prod.case s0_def by simp_all
    then show ?thesis using free_page_swept [OF c(1,3,4), of ms m] P False by (auto simp: s0_def swept_def)
  next
    case True
    define w where "w = page_words s i"
    define b where "b = page_bin cls w"
    let ?start = "a + 8 * (pageWords cls * i)" and ?n = "pageWords cls div w"
    have w: "0 < w" "w \<le> pageWords cls" "b < bins cls" using S(1) True by (auto simp: seg_shape_def size_ok_def w_def b_def)
    have nf: "\<not> (pages s ! i) AND HEAP_PAGE_FREE \<noteq> 0" using True page_free_bit by (simp add: in_use_def)
    have n: "0 < ?n" using w by (simp add: div_greater_zero_iff)
    have last: "int (a + CHI_WORDSIZE * (i * pageWords cls)) + int CHI_WORDSIZE * (int (CHI_FLOOR (pageWords cls) w) - int w) =
        int ?start + 8 * int w * (int ?n - 1)"
      by (simp add: CHI_WORDSIZE_def CHI_FLOOR_def algebra_simps)
    obtain lv fl m2 where ps: "pageSweep ms w (int ?start) (int ?start + 8 * int w * (int ?n - 1)) (freeObjectList s ! b, m) False = (lv, fl, m2)"
      using prod_cases3 by blast
    have st: "a + CHI_WORDSIZE * (i * pageWords cls) = ?start" by (simp add: CHI_WORDSIZE_def)
    have e1: "sweepIndex s - 1 = i" and hw: "unat (pages s ! i) = w" using c(4) by (simp_all add: w_def page_words_def)
    have res: "(s', m') = (if lv then (s0\<lparr>freeObjectList := (freeObjectList s)[b := fl], alive := True\<rparr>, m2) else (page_put i s0, m2))"
    proof -
      have "sweep_page cls a ms (s, m) = (case pageSweep ms w (int ?start) (int ?start + 8 * int w * (int ?n - 1)) (freeObjectList s ! b, m) False of
          (True, fl, m) \<Rightarrow> (s0\<lparr>freeObjectList := (freeObjectList s)[b := fl], alive := True\<rparr>, m)
        | (False, fl, m) \<Rightarrow> (page_put i s0, m))"
        unfolding sweep_page_def Let_def prod.case e1 s0_def [symmetric] s0 hw b_def [symmetric] last [unfolded st] st if_not_P [OF nf] ..
      then show ?thesis using r ps by (simp split: bool.splits)
    qed
    obtain as where as: "obj_list m (freeObjectList s ! b) as" "distinct as" "set as = free_slots cls a m s b"
      using S(3) w(3) unfolding seg_lists_def by blast
    have le: "8 * w * ?n \<le> 8 * pageWords cls" by (metis mult.assoc mult_le_mono2 times_div_less_eq_dividend)
    have pend: "?start + 8 * pageWords cls \<le> a + 8 * segmentWords cls"
    proof -
      have "i < pagesPerSegment cls" using i S(1) by (simp add: seg_shape_def)
      then show ?thesis using page_end [of i "pagesPerSegment cls" "pageWords cls"] c(1) by (simp add: class_ok_def mult.commute)
    qed
    have asr: "x < ?start \<or> ?start + 8 * w * ?n \<le> x" "x < 2 ^ 63" if x: "x \<in> set as" for x
    proof -
      obtain j where j: "in_use s j" "Suc i \<le> j" "x \<in> set (slots cls a s j)" using x c(4) unfolding as(3) free_slots_def by auto
      have "i < j" using j(2) by simp
      then show "x < ?start \<or> ?start + 8 * w * ?n \<le> x"
        using slots_page(1) [OF S(1) j(1,3)] page_end [of i j "pageWords cls"] le by linarith
      show "x < 2 ^ 63" by (rule slots_within(5) [OF c(1,2) S(1) j(1,3)])
    qed
    have "freeObjectList s ! b < 2 ^ 63" using obj_list_head [OF as(1)] asr(2) by (cases as) auto
    then have h: "freeObjectList s ! b < 2 ^ 64" by simp
    have "?start + 8 * w * ?n < 2 ^ 63" using c(2) pend le unfolding seg_place_def by linarith
    then have pos: "0 < ?start" "?start + 8 * w * ?n \<le> 2 ^ 64" using c(2) by (auto simp: seg_place_def)
    have sl: "page_objs ?start w ?n = slots cls a s i" by (simp add: slots_def w_def)
    have A: "\<forall>x \<in> set as. x < ?start \<or> ?start + 8 * w * ?n \<le> x" using asr(1) by blast
    note W = page_sweep_ok [OF w(1) as(1) pos h A ps, unfolded sl]
    have m2: "m2 x = m x" if "x \<notin> swept cls a ms m s i" for x using W that True unfolding swept_def by auto
    show ?thesis
    proof (cases lv)
      case True
      note u = \<open>in_use s i\<close>
      have e: "s' = s\<lparr>sweepIndex := i, freeObjectList := (freeObjectList s)[b := fl], alive := True\<rparr>" "m' = m2"
        using res True by (simp_all add: s0_def)
      have same: "in_use s' = in_use s" "page_words s' = page_words s" by (intro ext, simp add: e in_use_def page_words_def)+
      have "seg_ok cls a m' s' \<and> live_slots cls a m' s' = live_slots cls a m s - swept cls a ms m s i"
        unfolding e by (rule live_page_swept [OF c u _ as]) (use W m2 in \<open>simp_all add: b_def w_def\<close>)
      then show ?thesis using m2 same u by (simp add: e)
    next
      case False
      have e: "s' = page_put i s0" "m' = m2" using res False by simp_all
      have "\<forall>x \<in> set (slots cls a s i). garbage ms m x" using W False by blast
      then have "seg_ok cls a m' s' \<and> live_slots cls a m' s' = live_slots cls a m s - swept cls a ms m s i"
        unfolding e s0_def by (intro free_page_swept [OF c(1,3,4)] m2)
      then show ?thesis using m2 P by (simp add: e s0_def)
    qed
  qed
qed

section \<open>Slices of sweeping\<close>

definition alive_ok :: "segment \<Rightarrow> bool" where
  "alive_ok s \<longleftrightarrow> (alive s \<longleftrightarrow> (\<exists>j \<ge> sweepIndex s. in_use s j))"

definition swept_from :: "heap_class \<Rightarrow> nat \<Rightarrow> ChiMarkState \<Rightarrow> words \<Rightarrow> segment \<Rightarrow> nat \<Rightarrow> nat set" where
  "swept_from cls a ms m s i = (\<Union>j \<in> {i ..< sweepIndex s}. swept cls a ms m s j)"

lemma swept_other:
  assumes "seg_shape cls s" "j \<noteq> i" "in_use s' j = in_use s j" "page_words s' j = page_words s j"
    and "\<And>x. x \<notin> swept cls a ms m s i \<Longrightarrow> m' x = m x"
  shows "swept cls a ms m' s' j = swept cls a ms m s j"
proof -
  have "garbage ms m' x = garbage ms m x" if "in_use s j" "x \<in> set (slots cls a s j)" for x
  proof (rule used_other(3), rule assms(5), rule notI)
    assume "x \<in> swept cls a ms m s i"
    then show False using slots_same_page [OF assms(1) that] assms(2) unfolding swept_def by blast
  qed
  then show ?thesis unfolding swept_def assms(3) slots_words [OF assms(4)] by blast
qed

lemma segment_sweep_ok:
  assumes "class_ok cls" "seg_place cls a" "seg_ok cls a m s" "alive_ok s" "cycle_colors ms"
    and "segmentSweep cls a ms timer n (s, m) = (n', s', m')"
  shows "seg_ok cls a m' s' \<and> alive_ok s' \<and> sweepIndex s' \<le> sweepIndex s \<and> endIndex s' = endIndex s \<and>
    live_slots cls a m' s' = live_slots cls a m s - swept_from cls a ms m s (sweepIndex s') \<and>
    (\<forall>x. x \<notin> swept_from cls a ms m s (sweepIndex s') \<longrightarrow> m' x = m x) \<and>
    (\<forall>j. in_use s' j \<longrightarrow> in_use s j \<and> page_words s' j = page_words s j) \<and>
    (\<forall>j < sweepIndex s'. in_use s j \<longrightarrow> in_use s' j) \<and> n \<le> n' \<and> (sweepIndex s' \<noteq> 0 \<longrightarrow> (\<exists>k. n \<le> k \<and> k < n' \<and> \<not> timer k))"
  using assms(3,4,6)
proof (induction "sweepIndex s" arbitrary: s m n)
  case 0
  then have "s' = s" "m' = m" "n' = n" by (subst (asm) segmentSweep.simps, simp)+
  then show ?case using 0 by (simp add: swept_from_def)
next
  case (Suc i)
  show ?case
  proof (cases "timer n")
    case False
    then have "s' = s" "m' = m" "n' = n + 1" using Suc.prems(3) Suc.hyps(2) [symmetric] by (subst (asm) segmentSweep.simps, simp)+
    then show ?thesis using Suc.prems(1,2) False by (auto simp: swept_from_def intro!: exI [of _ n])
  next
    case True
    obtain s1 m1 where p: "sweep_page cls a ms (s, m) = (s1, m1)" by fastforce
    have r: "segmentSweep cls a ms timer (n + 1) (s1, m1) = (n', s', m')"
      using Suc.prems(3) Suc.hyps(2) [symmetric] True p by (subst (asm) segmentSweep.simps) simp
    note P = sweep_page_ok [OF assms(1,2) Suc.prems(1) Suc.hyps(2) [symmetric] assms(5) p]
    have shape: "seg_shape cls s" using Suc.prems(1) by (simp add: seg_ok_def)
    have "alive_ok s1"
    proof -
      have o: "in_use s1 j = in_use s j" if "j \<ge> Suc i" for j
      proof -
        have "j \<noteq> i" using that by simp
        then show ?thesis using P by blast
      qed
      have "(\<exists>j \<ge> i. in_use s1 j) \<longleftrightarrow> in_use s1 i \<or> (\<exists>j \<ge> Suc i. in_use s1 j)"
        using le_less Suc_le_eq by (metis order_refl Suc_leD)
      also have "\<dots> \<longleftrightarrow> in_use s1 i \<or> alive s" using o Suc.prems(2) unfolding alive_ok_def Suc.hyps(2) [symmetric] by blast
      also have "\<dots> \<longleftrightarrow> alive s1" using P by blast
      finally show ?thesis using P unfolding alive_ok_def by simp
    qed
    note I = Suc.hyps(1) [OF _ _ this r]
    have I: "seg_ok cls a m' s' \<and> alive_ok s' \<and> sweepIndex s' \<le> i \<and> endIndex s' = endIndex s1 \<and>
      live_slots cls a m' s' = live_slots cls a m1 s1 - swept_from cls a ms m1 s1 (sweepIndex s') \<and>
      (\<forall>x. x \<notin> swept_from cls a ms m1 s1 (sweepIndex s') \<longrightarrow> m' x = m1 x) \<and>
      (\<forall>j. in_use s' j \<longrightarrow> in_use s1 j \<and> page_words s' j = page_words s1 j) \<and>
      (\<forall>j < sweepIndex s'. in_use s1 j \<longrightarrow> in_use s' j) \<and> n + 1 \<le> n' \<and>
      (sweepIndex s' \<noteq> 0 \<longrightarrow> (\<exists>k. n + 1 \<le> k \<and> k < n' \<and> \<not> timer k))"
      using I P by simp
    have "swept cls a ms m1 s1 j = swept cls a ms m s j" if "j < i" for j
      by (rule swept_other [OF shape, where i = i]) (use P that in auto)
    then have e: "swept_from cls a ms m1 s1 k = (\<Union>j \<in> {k ..< i}. swept cls a ms m s j)" for k using P unfolding swept_from_def by simp
    have f: "swept_from cls a ms m s k = (\<Union>j \<in> {k ..< Suc i}. swept cls a ms m s j)" for k
      by (simp only: swept_from_def Suc.hyps(2) [symmetric])
    have "sweepIndex s' \<le> i" using I by blast
    then have u: "swept_from cls a ms m s (sweepIndex s') = swept_from cls a ms m1 s1 (sweepIndex s') \<union> swept cls a ms m s i"
      unfolding e f by (simp add: atLeastLessThanSuc Un_commute)
    have words: "in_use s j \<and> page_words s1 j = page_words s j" if "in_use s1 j" for j
      using P that by (cases "j = i") blast+
    have "live_slots cls a m' s' = live_slots cls a m s - swept_from cls a ms m s (sweepIndex s')" using I P unfolding u by blast
    moreover have "m' x = m x" if "x \<notin> swept_from cls a ms m s (sweepIndex s')" for x using I P that unfolding u by simp
    moreover have "in_use s j \<and> page_words s' j = page_words s j" if j: "in_use s' j" for j
    proof -
      have "in_use s1 j" "page_words s' j = page_words s1 j" using I j by blast+
      then show ?thesis using words [of j] by simp
    qed
    moreover have "\<exists>k. n \<le> k \<and> k < n' \<and> \<not> timer k" if "sweepIndex s' \<noteq> 0"
    proof -
      have "\<exists>k. n + 1 \<le> k \<and> k < n' \<and> \<not> timer k" by (rule mp [OF _ that]) (use I in blast)
      then obtain k where k: "n + 1 \<le> k" "k < n'" "\<not> timer k" by (elim exE conjE)
      have "n \<le> k" using k(1) by simp
      then show ?thesis using k(2,3) by (intro exI conjI)
    qed
    moreover have "in_use s' j" if j: "j < sweepIndex s'" "in_use s j" for j
    proof -
      have "sweepIndex s' \<le> i" using I by blast
      then have "j \<noteq> i" using j(1) by simp
      moreover have "\<forall>j. j \<noteq> i \<longrightarrow> in_use s1 j = in_use s j" using P by blast
      ultimately have "in_use s1 j" using j(2) by blast
      moreover have "\<forall>j < sweepIndex s'. in_use s1 j \<longrightarrow> in_use s' j" using I by blast
      ultimately show ?thesis using j(1) by blast
    qed
    moreover have "n \<le> n'" "sweepIndex s' \<le> sweepIndex s" using I Suc.hyps(2) by linarith+
    moreover have "endIndex s' = endIndex s1" "endIndex s1 = endIndex s" using I P by blast+
    then have "endIndex s' = endIndex s" by simp
    moreover have "seg_ok cls a m' s'" "alive_ok s'" using I by blast+
    ultimately show ?thesis by blast
  qed
qed

lemma sweep_reset_ok:
  assumes "seg_ok cls a m s"
  shows "seg_ok cls a m (sweepResetSegment cls s)" "alive_ok (sweepResetSegment cls s)"
    "live_slots cls a m (sweepResetSegment cls s) = live_slots cls a m s" "sweepIndex (sweepResetSegment cls s) = endIndex s"
    "swept cls a ms m (sweepResetSegment cls s) i = swept cls a ms m s i"
proof -
  let ?s = "sweepResetSegment cls s"
  have same: "in_use ?s = in_use s" "page_words ?s = page_words s" "slots cls a ?s = slots cls a s"
    by (intro ext | simp add: sweepResetSegment_def in_use_def page_words_def slots_def)+
  show i: "sweepIndex ?s = endIndex s" by (simp add: sweepResetSegment_def)
  show "live_slots cls a m ?s = live_slots cls a m s" unfolding live_slots_def same ..
  show "swept cls a ms m ?s i = swept cls a ms m s i" unfolding swept_def same ..
  have "in_use s j \<Longrightarrow> j < endIndex s" for j by (simp add: in_use_def)
  then show "alive_ok ?s" unfolding alive_ok_def same i by (force simp: sweepResetSegment_def)
  have "free_slots cls a m ?s b = {}" for b unfolding free_slots_def same i by (force simp: in_use_def)
  then have "seg_lists cls a m ?s" unfolding seg_lists_def by (auto simp: sweepResetSegment_def intro!: exI [of _ "[]"])
  moreover have "seg_pages ?s" unfolding seg_pages_def by (rule exI [of _ "[]"]) (auto simp: sweepResetSegment_def)
  moreover have "seg_shape cls ?s" using assms unfolding seg_ok_def seg_shape_def same by (simp add: sweepResetSegment_def)
  ultimately show "seg_ok cls a m ?s" by (simp add: seg_ok_def)
qed

end
