(* ===== verification/Heap.thy ===== *)
theory Heap
  imports Segment RtMem
begin

text \<open>
  The major heap (\<^verbatim>\<open>src/native/heap.c\<close>, \<^verbatim>\<open>src/native/heap.h\<close>) and the part of the sweeper that goes through its
  segments and large objects (\<^verbatim>\<open>src/native/sweep.c\<close>): two classes of segments, from which the handles of the processors
  allocate small and medium objects, and a list of chunks that hold a large object each. A segment is known by its chunk.
  Each call that may take a chunk has an environment as in the theory RtMem; a call that would end the process returns
  \<open>Dies\<close>. The loop of \<open>pageFindFree\<close> runs with fuel: it takes the segments of the free list one after the other and then a
  new one, so the length of that list and two is enough.
\<close>

unbundle bit_operations_syntax

text \<open>The header that \<^verbatim>\<open>objectInit\<close> writes, read back.\<close>

lemma header_bit:
  "bit (ucast color OR (h AND 0xFF00) OR push_bit 24 (of_bool c) OR push_bit 25 (of_bool s) OR push_bit 32 (of_nat sz) :: u64) n \<longleftrightarrow>
    n < 64 \<and> (if n < 8 then bit (color :: u8) n else if n < 16 then bit h n else if n = 24 then c else if n = 25 then s
      else if 32 \<le> n then bit sz (n - 32) else False)"
proof -
  have m: "(0xFF00 :: u64) = push_bit 8 (mask 8)" by (simp add: mask_eq_exp_minus_1 push_bit_eq_mult)
  have b: "bit (of_bool p :: u64) k \<longleftrightarrow> p \<and> k = 0" for p k by (cases p) (auto simp: bit_1_iff)
  have c8: "bit color n \<Longrightarrow> n < 8" using bit_imp_le_length [of color n] by simp
  moreover have "\<not> bit color 24" "\<not> bit color 25" by (simp_all add: impossible_bit)
  ultimately show ?thesis
    by (auto simp: m b bit_or_iff bit_and_iff bit_push_bit_iff bit_mask_iff bit_ucast_iff bit_of_nat_iff )
qed

lemma object_init_ok:
  assumes "sz < 2 ^ 32"
  shows "ocolor (load_object (objectInit obj sz color flags m) obj) = color" "\<not> olock (load_object (objectInit obj sz color flags m) obj)"
    "oshared (load_object (objectInit obj sz color flags m) obj) = new_shared flags"
    "odirty (load_object (objectInit obj sz color flags m) obj) = (\<not> new_clean flags)"
    "length (payload (load_object (objectInit obj sz color flags m) obj)) = sz"
    "\<And>x. x \<noteq> obj \<Longrightarrow> objectInit obj sz color flags m x = m x"
proof -
  let ?w = "objectInit obj sz color flags m obj"
  have b: "bit ?w n \<longleftrightarrow> n < 64 \<and> (if n < 8 then bit color n else if n < 16 then bit (m obj) n else if n = 24 then \<not> new_clean flags
      else if n = 25 then new_shared flags else if 32 \<le> n then bit sz (n - 32) else False)" for n
    unfolding objectInit_def fun_upd_same by (rule header_bit)
  have n: "bit sz n \<Longrightarrow> n < 32" for n using assms take_bit_nat_eq_self [of sz 32] bit_take_bit_iff [of 32 sz n] by simp
  have "drop_bit 32 ?w = of_nat sz"
    by (rule bit_word_eqI) (auto simp: bit_drop_bit_eq b bit_of_nat_iff dest: n)
  then have "unat (drop_bit 32 ?w) = sz" using assms by (simp add: unat_of_nat take_bit_nat_eq_self)
  then show "length (payload (load_object (objectInit obj sz color flags m) obj)) = sz" by (simp add: load_object_def)
  show "ocolor (load_object (objectInit obj sz color flags m) obj) = color"
    by (rule bit_word_eqI) (simp add: load_object_def bit_ucast_iff b)
  show "\<And>x. x \<noteq> obj \<Longrightarrow> objectInit obj sz color flags m x = m x" by (simp add: objectInit_def)
  show "\<not> olock (load_object (objectInit obj sz color flags m) obj)"
    "oshared (load_object (objectInit obj sz color flags m) obj) = new_shared flags"
    "odirty (load_object (objectInit obj sz color flags m) obj) = (\<not> new_clean flags)" by (simp_all add: load_object_def b)
qed

datatype heap_kind = Small | Medium

record heap =
  hclass :: "heap_kind \<Rightarrow> heap_class"
  largeList :: "nat list"
  largeTotalWords :: nat
  largeLimitAlloc :: nat
  largeLimitInit :: nat
  largeLimitAllocPercent :: nat
  hsegment :: "nat \<Rightarrow> segment"
  hkind :: "nat \<Rightarrow> heap_kind"
  hmem :: words
  hrt :: rt_mem

record heap_handle =
  hsegments :: "heap_kind \<Rightarrow> nat option"
  hcolor :: u8

definition SMALL_BINS :: nat where "SMALL_BINS = CHI_MAX_UNPINNED"

definition on_class :: "heap_kind \<Rightarrow> (heap_class \<Rightarrow> heap_class) \<Rightarrow> heap \<Rightarrow> heap" where
  "on_class k f H = H\<lparr> hclass := (hclass H)(k := f (hclass H k)) \<rparr>"

definition class_of :: "heap \<Rightarrow> nat \<Rightarrow> heap_class" where
  "class_of H c = hclass H (hkind H c)"

definition seg_start :: "heap \<Rightarrow> nat \<Rightarrow> nat" where
  "seg_start H c = chunk_start (hrt H) c"

section \<open>Segments\<close>

definition classLimitReached :: "heap_class \<Rightarrow> bool" where
  "classLimitReached cls \<longleftrightarrow> length (cfull cls) > climitFull cls * ctotal cls div 100 \<and> ctotal cls > climitInit cls"

definition classSetup :: "nat \<Rightarrow> nat \<Rightarrow> nat \<Rightarrow> nat \<Rightarrow> nat \<Rightarrow> bool \<Rightarrow> heap_class" where
  "classSetup segmentSize pageSize limitFull limitInit n lin =
     \<lparr> ctotal = 0, cfree = [], cfull = [], climitInit = limitFull * (limitInit div segmentSize) div 100, climitFull = limitFull,
       segmentWords = segmentSize div CHI_WORDSIZE, pageWords = pageSize div CHI_WORDSIZE,
       pagesPerSegment = segmentSize div CHI_WORDSIZE div (pageSize div CHI_WORDSIZE), bins = n, linear = lin \<rparr>"

definition limit_reached :: "bool \<Rightarrow> heap \<Rightarrow> heap" where
  "limit_reached limit H = (if limit then H\<lparr> hrt := chiHeapLimitReached (hrt H) \<rparr> else H)"

definition segmentAcquireExisting :: "heap_kind \<Rightarrow> heap \<Rightarrow> nat option \<times> heap" where
  "segmentAcquireExisting k H =
     (case cfree (hclass H k) of
        [] \<Rightarrow> (None, H)
      | c # cs \<Rightarrow> (Some c, on_class k (\<lambda>cls. cls\<lparr> cfree := cs \<rparr>) H))"

definition new_segment :: "heap_class \<Rightarrow> segment" where
  "new_segment cls = \<lparr> sweepIndex = 0, endIndex = 0, alive = False, pages = replicate (pagesPerSegment cls) 0, freePageList = None,
     freeObjectList = replicate (bins cls) 0 \<rparr>"

text \<open>A request that may not fail does not return without a chunk.\<close>

definition segmentNewChunk :: "take_env \<Rightarrow> heap_kind \<Rightarrow> heap \<Rightarrow> (nat \<times> heap) outcome" where
  "segmentNewChunk e k H =
     (case chiHeapChunkNew e (segmentWords (hclass H k) * CHI_WORDSIZE) False (hrt H) of
        Returns (Some c, rt) \<Rightarrow> Returns (c, H\<lparr> hrt := rt, hsegment := (hsegment H)(c := new_segment (hclass H k)), hkind := (hkind H)(c := k) \<rparr>)
      | Returns (None, rt) \<Rightarrow> Dies
      | Dies \<Rightarrow> Dies | Diverges \<Rightarrow> Diverges)"

definition segmentAcquireNew :: "take_env \<Rightarrow> heap_kind \<Rightarrow> heap \<Rightarrow> (nat \<times> heap) outcome" where
  "segmentAcquireNew e k H =
     (case segmentNewChunk e k H of
        Returns (c, H) \<Rightarrow>
          let H = on_class k (\<lambda>cls. cls\<lparr> ctotal := ctotal cls + 1 \<rparr>) H
          in Returns (c, limit_reached (classLimitReached (hclass H k)) H)
      | Dies \<Rightarrow> Dies | Diverges \<Rightarrow> Diverges)"

definition segmentAcquire :: "take_env \<Rightarrow> heap_kind \<Rightarrow> heap \<Rightarrow> (nat \<times> heap) outcome" where
  "segmentAcquire e k H =
     (case segmentAcquireExisting k H of (Some c, H) \<Rightarrow> Returns (c, H) | (None, H) \<Rightarrow> segmentAcquireNew e k H)"

definition segmentDestroy :: "heap_kind \<Rightarrow> nat option \<Rightarrow> heap \<Rightarrow> heap" where
  "segmentDestroy k sh H = (case sh of None \<Rightarrow> H | Some c \<Rightarrow> on_class k (\<lambda>cls. cls\<lparr> cfree := cfree cls @ [c] \<rparr>) H)"

definition segmentFull :: "take_env \<Rightarrow> heap_kind \<Rightarrow> nat \<Rightarrow> heap \<Rightarrow> (nat \<times> heap) outcome" where
  "segmentFull e k c H =
     (let H = on_class k (\<lambda>cls. cls\<lparr> cfull := cfull cls @ [c] \<rparr>) H;
          limit = classLimitReached (hclass H k);
          (sh, H) = segmentAcquireExisting k H;
          H = limit_reached limit H
      in case sh of Some c \<Rightarrow> Returns (c, H) | None \<Rightarrow> segmentAcquireNew e k H)"

section \<open>Allocation\<close>

fun pageFindFree :: "nat \<Rightarrow> take_env \<Rightarrow> heap_kind \<Rightarrow> nat \<Rightarrow> heap \<Rightarrow> (nat \<times> nat \<times> heap) outcome" where
  "pageFindFree 0 e k c H = Diverges"
| "pageFindFree (Suc n) e k c H =
     (case page_take (hclass H k) (hsegment H c) of
        Some (p, s) \<Rightarrow> Returns (p, c, H\<lparr> hsegment := (hsegment H)(c := s) \<rparr>)
      | None \<Rightarrow>
          (case segmentFull e k c H of
             Returns (c, H) \<Rightarrow> pageFindFree n e k c H
           | Dies \<Rightarrow> Dies | Diverges \<Rightarrow> Diverges))"

definition pageAlloc :: "take_env \<Rightarrow> heap_kind \<Rightarrow> nat \<Rightarrow> nat \<Rightarrow> nat \<Rightarrow> heap \<Rightarrow> (nat \<times> heap) outcome" where
  "pageAlloc e k c sz bin H =
     (case pageFindFree (length (cfree (hclass H k)) + 2) e k c H of
        Returns (p, c, H) \<Rightarrow>
          (case page_fill (hclass H k) (seg_start H c) p sz bin (hsegment H c, hmem H) of
             (s, m) \<Rightarrow> Returns (c, H\<lparr> hsegment := (hsegment H)(c := s), hmem := m \<rparr>))
      | Dies \<Rightarrow> Dies | Diverges \<Rightarrow> Diverges)"

definition take_object :: "nat \<Rightarrow> nat \<Rightarrow> heap \<Rightarrow> nat \<times> heap" where
  "take_object c bin H =
     (case object_take bin (hsegment H c, hmem H) of (obj, s) \<Rightarrow> (obj, H\<lparr> hsegment := (hsegment H)(c := s) \<rparr>))"

definition segmentAlloc :: "take_env \<Rightarrow> heap_kind \<Rightarrow> nat \<Rightarrow> nat \<Rightarrow> nat \<Rightarrow> heap \<Rightarrow> (nat \<times> nat \<times> heap) outcome" where
  "segmentAlloc e k c sz bin H =
     (case pageAlloc e k c sz bin H of
        Returns (c, H) \<Rightarrow> (case take_object c bin H of (obj, H) \<Rightarrow> Returns (obj, c, H))
      | Dies \<Rightarrow> Dies | Diverges \<Rightarrow> Diverges)"

definition init_object :: "nat \<Rightarrow> nat \<Rightarrow> u8 \<Rightarrow> new_flags \<Rightarrow> heap \<Rightarrow> heap" where
  "init_object obj sz color flags H = H\<lparr> hmem := objectInit obj sz color flags (hmem H) \<rparr>"

text \<open>The result is the address of the payload and the segment of the handle.\<close>

definition segmentNew :: "take_env \<Rightarrow> heap_kind \<Rightarrow> nat \<Rightarrow> nat \<Rightarrow> new_flags \<Rightarrow> nat \<Rightarrow> u8 \<Rightarrow> heap \<Rightarrow> (nat \<times> nat \<times> heap) outcome" where
  "segmentNew e k c sz flags bin color H =
     (case (if freeObjectList (hsegment H c) ! bin \<noteq> 0
            then (case take_object c bin H of (obj, H) \<Rightarrow> Returns (obj, c, H))
            else segmentAlloc e k c sz bin H) of
        Returns (obj, c, H) \<Rightarrow> Returns (obj + CHI_WORDSIZE, c, init_object obj sz color flags H)
      | Dies \<Rightarrow> Dies | Diverges \<Rightarrow> Diverges)"

definition largeNew :: "take_env \<Rightarrow> nat \<Rightarrow> new_flags \<Rightarrow> u8 \<Rightarrow> heap \<Rightarrow> (nat option \<times> heap) outcome" where
  "largeNew e sz flags color H =
     (let chunkSizeW = unat (CHI_ALIGNUP (of_nat (sz + OBJECT_HEADER_SIZE)) (of_nat (CHI_CHUNK_MIN_SIZE div CHI_WORDSIZE)))
      in case chiHeapChunkNew e (chunkSizeW * CHI_WORDSIZE) (new_try flags) (hrt H) of
           Returns (None, rt) \<Rightarrow> Returns (None, H\<lparr> hrt := rt \<rparr>)
         | Returns (Some c, rt) \<Rightarrow>
             let obj = chunk_start rt c;
                 H = init_object obj sz color flags (H\<lparr> hrt := rt \<rparr>);
                 H = H\<lparr> largeTotalWords := largeTotalWords H + chunkSizeW, largeList := largeList H @ [c],
                        largeLimitAlloc := largeLimitAlloc H - min chunkSizeW (largeLimitAlloc H) \<rparr>
             in Returns (Some (obj + CHI_WORDSIZE), limit_reached (largeLimitAlloc H = 0) H)
         | Dies \<Rightarrow> Dies | Diverges \<Rightarrow> Diverges)"

definition handle_new ::
  "take_env \<Rightarrow> heap_kind \<Rightarrow> heap_handle \<Rightarrow> nat \<Rightarrow> new_flags \<Rightarrow> nat \<Rightarrow> heap \<Rightarrow> (nat option \<times> heap_handle \<times> heap) outcome" where
  "handle_new e k ha sz flags bin H =
     (case segmentNew e k (the (hsegments ha k)) sz flags bin (hcolor ha) H of
        Returns (p, c, H) \<Rightarrow> Returns (Some p, ha\<lparr> hsegments := (hsegments ha)(k := Some c) \<rparr>, H)
      | Dies \<Rightarrow> Dies | Diverges \<Rightarrow> Diverges)"

definition chiHeapHandleNewSmall :: "take_env \<Rightarrow> heap_handle \<Rightarrow> nat \<Rightarrow> new_flags \<Rightarrow> heap \<Rightarrow> (nat option \<times> heap_handle \<times> heap) outcome" where
  "chiHeapHandleNewSmall e ha sz flags H = handle_new e Small ha sz flags (sz - 1) H"

definition chiHeapHandleNew :: "take_env \<Rightarrow> heap_handle \<Rightarrow> nat \<Rightarrow> new_flags \<Rightarrow> heap \<Rightarrow> (nat option \<times> heap_handle \<times> heap) outcome" where
  "chiHeapHandleNew e ha sz flags H =
     (if sz \<le> SMALL_BINS then handle_new e Small ha sz flags (sz - 1) H
      else if sz < pageWords (hclass H Medium) then handle_new e Medium ha sz flags (chiLog2Floor (of_nat sz)) H
      else
        (case largeNew e sz flags (hcolor ha) H of
           Returns (p, H) \<Rightarrow> Returns (p, ha, H)
         | Dies \<Rightarrow> Dies | Diverges \<Rightarrow> Diverges))"

section \<open>Setup and the end\<close>

definition chiHeapSetup :: "nat \<Rightarrow> nat \<Rightarrow> nat \<Rightarrow> nat \<Rightarrow> nat \<Rightarrow> nat \<Rightarrow> words \<Rightarrow> rt_mem \<Rightarrow> heap" where
  "chiHeapSetup smallChunkSize smallPageSize mediumChunkSize mediumPageSize limitFull limitInit m rt =
     \<lparr> hclass = (\<lambda>k. case k of
         Small \<Rightarrow> classSetup smallChunkSize smallPageSize limitFull limitInit SMALL_BINS True
       | Medium \<Rightarrow> classSetup mediumChunkSize mediumPageSize limitFull limitInit (chiLog2Floor (of_nat (mediumPageSize - OBJECT_HEADER_SIZE))) False),
       largeList = [], largeTotalWords = 0, largeLimitAlloc = limitInit div CHI_WORDSIZE, largeLimitInit = limitInit div CHI_WORDSIZE,
       largeLimitAllocPercent = limitFull div 2, hsegment = (\<lambda>_. undefined), hkind = (\<lambda>_. Small), hmem = m, hrt = rt \<rparr>"

fun chiHeapSegmentListFree :: "(nat \<Rightarrow> free_env) \<Rightarrow> nat list \<Rightarrow> heap \<Rightarrow> heap" where
  "chiHeapSegmentListFree f [] H = H"
| "chiHeapSegmentListFree f (c # cs) H = chiHeapSegmentListFree f cs (H\<lparr> hrt := chiHeapChunkFree (f c) c (hrt H) \<rparr>)"

fun chiHeapChunkListFree :: "(nat \<Rightarrow> free_env) \<Rightarrow> nat list \<Rightarrow> heap \<Rightarrow> heap" where
  "chiHeapChunkListFree f [] H = H"
| "chiHeapChunkListFree f (c # cs) H = chiHeapChunkListFree f cs (H\<lparr> hrt := chiHeapChunkFree (f c) c (hrt H) \<rparr>)"

definition classDestroy :: "(nat \<Rightarrow> free_env) \<Rightarrow> heap_kind \<Rightarrow> heap \<Rightarrow> heap" where
  "classDestroy f k H =
     (let H = chiHeapSegmentListFree f (cfree (hclass H k)) (on_class k (\<lambda>cls. cls\<lparr> cfree := [] \<rparr>) H)
      in chiHeapSegmentListFree f (cfull (hclass H k)) (on_class k (\<lambda>cls. cls\<lparr> cfull := [] \<rparr>) H))"

definition chiHeapDestroy :: "(nat \<Rightarrow> free_env) \<Rightarrow> heap \<Rightarrow> heap" where
  "chiHeapDestroy f H = classDestroy f Medium (classDestroy f Small (chiHeapChunkListFree f (largeList H) (H\<lparr> largeList := [] \<rparr>)))"

definition chiHeapHandleSetup :: "take_env \<Rightarrow> take_env \<Rightarrow> u8 \<Rightarrow> heap \<Rightarrow> (heap_handle \<times> heap) outcome" where
  "chiHeapHandleSetup e1 e2 color H =
     (case segmentAcquire e1 Small H of
        Returns (c, H) \<Rightarrow>
          (case segmentAcquire e2 Medium H of
             Returns (d, H) \<Rightarrow> Returns (\<lparr> hsegments = (\<lambda>k. Some (case k of Small \<Rightarrow> c | Medium \<Rightarrow> d)), hcolor = color \<rparr>, H)
           | Dies \<Rightarrow> Dies | Diverges \<Rightarrow> Diverges)
      | Dies \<Rightarrow> Dies | Diverges \<Rightarrow> Diverges)"

definition chiHeapHandleDestroy :: "heap_handle \<Rightarrow> heap \<Rightarrow> heap" where
  "chiHeapHandleDestroy ha H = segmentDestroy Medium (hsegments ha Medium) (segmentDestroy Small (hsegments ha Small) H)"

section \<open>Sweeping the heap\<close>

record sweep_state =
  segmentUnswept :: "nat list"
  segmentPartial :: "nat list"
  sweepLarge :: "nat list"
  needed :: bool

definition chiHeapSweepReleaseSegment :: "free_env \<Rightarrow> nat \<Rightarrow> heap \<Rightarrow> heap" where
  "chiHeapSweepReleaseSegment f c H =
     (let k = hkind H c
      in if alive (hsegment H c) then on_class k (\<lambda>cls. cls\<lparr> cfree := cfree cls @ [c] \<rparr>) H
         else (on_class k (\<lambda>cls. cls\<lparr> ctotal := ctotal cls - 1 \<rparr>) H)\<lparr> hrt := chiHeapChunkFree f c (hrt H) \<rparr>)"

definition chiHeapSweepAcquire :: "sweep_state \<Rightarrow> heap \<Rightarrow> sweep_state \<times> heap" where
  "chiHeapSweepAcquire g H =
     (g\<lparr> segmentUnswept := segmentUnswept g @ cfull (hclass H Small) @ cfull (hclass H Medium), sweepLarge := sweepLarge g @ largeList H \<rparr>,
      (on_class Medium (\<lambda>cls. cls\<lparr> cfull := [] \<rparr>) (on_class Small (\<lambda>cls. cls\<lparr> cfull := [] \<rparr>) H))\<lparr> largeList := [] \<rparr>)"

definition chiHeapSweepReleaseLarge :: "nat list \<Rightarrow> nat \<Rightarrow> heap \<Rightarrow> heap" where
  "chiHeapSweepReleaseLarge cs freed H =
     (let total = largeTotalWords H - freed
      in H\<lparr> largeTotalWords := total, largeLimitAlloc := max (largeLimitInit H) (total * largeLimitAllocPercent H div 100),
            largeList := largeList H @ cs \<rparr>)"

datatype sweep_work = Sweep_segment nat | Sweep_large "nat list" | Sweep_nothing

definition sweepTake :: "sweep_state \<times> heap \<Rightarrow> sweep_work \<times> sweep_state \<times> heap" where
  "sweepTake s =
     (case s of (g, H) \<Rightarrow>
        case segmentPartial g of
          c # cs \<Rightarrow> (Sweep_segment c, g\<lparr> segmentPartial := cs \<rparr>, H)
        | [] \<Rightarrow>
            (case segmentUnswept g of
               c # cs \<Rightarrow> (Sweep_segment c, g\<lparr> segmentUnswept := cs \<rparr>,
                  H\<lparr> hsegment := (hsegment H)(c := sweepResetSegment (class_of H c) (hsegment H c)) \<rparr>)
             | [] \<Rightarrow>
                 if sweepLarge g \<noteq> [] then (Sweep_large (sweepLarge g), g\<lparr> sweepLarge := [] \<rparr>, H)
                 else (Sweep_nothing, g\<lparr> needed := False \<rparr>, H)))"

fun largeSweep :: "(nat \<Rightarrow> free_env) \<Rightarrow> ChiMarkState \<Rightarrow> nat list \<Rightarrow> heap \<Rightarrow> nat list \<times> nat \<times> heap" where
  "largeSweep f ms [] H = ([], 0, H)"
| "largeSweep f ms (c # cs) H =
     (let obj = chunk_start (hrt H) c; sz = chunk_size (hrt H) c div CHI_WORDSIZE
      in if garbage ms (hmem H) obj
         then (case largeSweep f ms cs (H\<lparr> hrt := chiHeapChunkFree (f c) c (hrt H) \<rparr>) of (l, freed, H) \<Rightarrow> (l, freed + sz, H))
         else (case largeSweep f ms cs H of (l, freed, H) \<Rightarrow> (c # l, freed, H)))"

text \<open>The loop of \<open>chiSweepSlice\<close> may go on forever only if the timer changes its mind; \<open>n\<close> counts its answers.\<close>

partial_function (option) sweep_loop ::
  "(nat \<Rightarrow> free_env) \<Rightarrow> ChiMarkState \<Rightarrow> (nat \<Rightarrow> bool) \<Rightarrow> nat \<Rightarrow> sweep_state \<times> heap \<Rightarrow> (sweep_state \<times> heap) option" where
  "sweep_loop f ms timer n s =
     (if \<not> timer n then Some s
      else
        (case sweepTake s of
           (Sweep_segment c, g, H) \<Rightarrow>
             (case segmentSweep (class_of H c) (seg_start H c) ms timer (n + 1) (hsegment H c, hmem H) of
                (n, sg, m) \<Rightarrow>
                  let H = H\<lparr> hsegment := (hsegment H)(c := sg), hmem := m \<rparr>
                  in if sweepIndex sg \<noteq> 0
                     then sweep_loop f ms timer n (g\<lparr> segmentPartial := segmentPartial g @ [c], needed := True \<rparr>, H)
                     else sweep_loop f ms timer n (g, chiHeapSweepReleaseSegment (f c) c H))
         | (Sweep_large cs, g, H) \<Rightarrow>
             (case largeSweep f ms cs H of
                (cs, freed, H) \<Rightarrow> sweep_loop f ms timer (n + 1) (g, chiHeapSweepReleaseLarge cs freed H))
         | (Sweep_nothing, s) \<Rightarrow> Some s))"

definition chiSweepSlice :: "(nat \<Rightarrow> free_env) \<Rightarrow> ChiMarkState \<Rightarrow> (nat \<Rightarrow> bool) \<Rightarrow> sweep_state \<times> heap \<Rightarrow> (sweep_state \<times> heap) option" where
  "chiSweepSlice f ms timer s = sweep_loop f ms timer 0 s"

end
