(* ===== verification/HeapOk.thy ===== *)
theory HeapOk
  imports Heap "HOL-Library.Multiset"
begin

text \<open>
  What the major heap guarantees: the invariant that ties its segments and large objects to the chunks that the runtime holds,
  the set of its objects, allocation and sweeping.
\<close>

section \<open>Classes\<close>

text \<open>What a segment depends on in its class.\<close>

definition class_like :: "heap_class \<Rightarrow> heap_class \<Rightarrow> bool" where
  "class_like c d \<longleftrightarrow> segmentWords c = segmentWords d \<and> pageWords c = pageWords d \<and> pagesPerSegment c = pagesPerSegment d \<and>
     bins c = bins d \<and> linear c = linear d"

lemma class_like_refl [simp]: "class_like c c"
  by (simp add: class_like_def)

lemma class_like_trans: "class_like a b \<Longrightarrow> class_like b c \<Longrightarrow> class_like a c"
  by (simp add: class_like_def)

lemma class_like_update [simp]: "class_like c (c\<lparr> cfree := x \<rparr>)" "class_like c (c\<lparr> cfull := x \<rparr>)" "class_like c (c\<lparr> ctotal := n \<rparr>)"
  by (simp_all add: class_like_def)

lemma class_like_eq:
  assumes "class_like c d"
  shows "class_ok d = class_ok c" "size_ok d = size_ok c" "page_bin d = page_bin c" "size_bin d = size_bin c" "slots d = slots c"
    "seg_shape d = seg_shape c" "live_slots d = live_slots c" "seg_objs d = seg_objs c" "seg_ok d = seg_ok c" "object_size d = object_size c"
    "page_take d = page_take c" "page_fill d = page_fill c" "seg_place d = seg_place c" "new_segment d = new_segment c"
proof -
  have e: "segmentWords d = segmentWords c" "pageWords d = pageWords c" "pagesPerSegment d = pagesPerSegment c" "bins d = bins c" "linear d = linear c"
    using assms by (simp_all add: class_like_def)
  show pb: "page_bin d = page_bin c" and sb: "size_bin d = size_bin c" by (intro ext, simp add: page_bin_def size_bin_def e)+
  show so: "size_ok d = size_ok c" and sl: "slots d = slots c" by (intro ext, simp add: size_ok_def slots_def pb e)+
  show ss: "seg_shape d = seg_shape c" by (intro ext) (simp add: seg_shape_def so e)
  show "live_slots d = live_slots c" "seg_objs d = seg_objs c" by (intro ext, simp add: live_slots_def seg_objs_def sl)+
  have "free_slots d = free_slots c" by (intro ext) (simp add: free_slots_def sl pb)
  then show "seg_ok d = seg_ok c" by (intro ext) (simp add: seg_ok_def seg_lists_def ss e)
  show os: "object_size d = object_size c" by (intro ext) (simp add: object_size_def e)
  show "page_take d = page_take c" "page_fill d = page_fill c" by (intro ext, simp add: page_take_def page_fill_def os e)+
  show "class_ok d = class_ok c" "seg_place d = seg_place c" "new_segment d = new_segment c"
    by (simp_all add: class_ok_def seg_place_def new_segment_def e fun_eq_iff)
qed

section \<open>The invariant\<close>

definition segment_ok :: "heap \<Rightarrow> nat \<Rightarrow> bool" where
  "segment_ok H c \<longleftrightarrow> held (hrt H) c = Some (seg_start H c, 8 * segmentWords (class_of H c)) \<and>
     seg_ok (class_of H c) (seg_start H c) (hmem H) (hsegment H c)"

definition listed :: "heap \<Rightarrow> nat list" where
  "listed H = cfree (hclass H Small) @ cfull (hclass H Small) @ cfree (hclass H Medium) @ cfull (hclass H Medium)"

text \<open>\<open>A\<close> are the segments of the handles, \<open>S\<close> and \<open>L\<close> are those segments and large objects that the sweeper has taken.\<close>

definition heap_inv :: "nat \<Rightarrow> nat \<Rightarrow> nat list \<Rightarrow> nat list \<Rightarrow> nat list \<Rightarrow> heap \<Rightarrow> bool" where
  "heap_inv lo hi A S L H \<longleftrightarrow> rt_ok lo hi (hrt H) \<and>
     (\<forall>k. class_ok (hclass H k) \<and> request_ok (segmentWords (hclass H k) * CHI_WORDSIZE) 0 \<and> linear (hclass H k) = (k = Small)) \<and>
     bins (hclass H Small) = SMALL_BINS \<and>
     distinct (A @ S @ listed H @ largeList H @ L) \<and> (\<forall>c \<in> set (A @ S @ listed H). segment_ok H c) \<and>
     (\<forall>c \<in> set (A @ listed H). sweepIndex (hsegment H c) = 0) \<and>
     (\<forall>k. \<forall>c \<in> set (cfree (hclass H k) @ cfull (hclass H k)). hkind H c = k) \<and>
     (\<forall>c \<in> set (largeList H @ L). held (hrt H) c \<noteq> None)"

text \<open>The objects of the heap: their addresses and sizes in bytes.\<close>

definition segment_objs :: "heap \<Rightarrow> nat \<Rightarrow> (nat \<times> nat) set" where
  "segment_objs H c = seg_objs (class_of H c) (seg_start H c) (hmem H) (hsegment H c)"

definition large_obj :: "heap \<Rightarrow> nat \<Rightarrow> nat \<times> nat" where
  "large_obj H c = (chunk_start (hrt H) c, chunk_size (hrt H) c)"

definition heap_objs :: "nat list \<Rightarrow> nat list \<Rightarrow> nat list \<Rightarrow> heap \<Rightarrow> (nat \<times> nat) set" where
  "heap_objs A S L H = (\<Union>c \<in> set (A @ S @ listed H). segment_objs H c) \<union> large_obj H ` set (largeList H @ L)"

lemma held_dvd:
  assumes "rt_ok lo hi rt" "held rt c = Some (s, n)"
  shows "CHI_CHUNK_MIN_SIZE dvd s" "lo \<le> s" "s + n \<le> hi" "0 < lo" "hi < 2 ^ 62"
proof -
  have inv: "rt_inv lo hi rt" "ua_inv lo hi (chunkAlloc rt)" using assms(1) by (simp_all add: rt_ok_def rt_inv_def)
  have a: "arena_ok lo hi (uva (chunkAlloc rt))" using inv(2) by (simp add: ua_inv_def va_inv_def va_wf_def)
  have "\<forall>x \<in> set (addrList (uva (chunkAlloc rt))). CHI_CHUNK_MIN_SIZE dvd cstart (chunks (uva (chunkAlloc rt)) x)"
    by (rule tiled_dvd) (use a in \<open>auto simp: arena_ok_def\<close>)
  then show "CHI_CHUNK_MIN_SIZE dvd s" using held_chunk [OF assms(2)] by (simp add: chunk_start_def)
  show "lo \<le> s" "s + n \<le> hi" using held_apart [OF inv(1) assms(2)] by simp_all
  show "0 < lo" using assms(1) by (simp add: rt_ok_def)
  show "hi < 2 ^ 62" by (rule arena_bound [OF inv(2)])
qed

lemma segment_place:
  assumes "rt_ok lo hi (hrt H)" "segment_ok H c"
  shows "seg_place (class_of H c) (seg_start H c)"
proof -
  have h: "held (hrt H) c = Some (seg_start H c, 8 * segmentWords (class_of H c))" using assms(2) by (simp add: segment_ok_def)
  note D = held_dvd [OF assms(1) h]
  have "(8 :: nat) dvd CHI_CHUNK_MIN_SIZE" by (simp add: CHI_CHUNK_MIN_SIZE_def)
  then have "8 dvd seg_start H c" using D(1) dvd_trans by blast
  moreover have "(2 :: nat) ^ 62 < 2 ^ 63" by simp
  ultimately show ?thesis using D unfolding seg_place_def by linarith
qed

lemma segment_objs_within:
  assumes "class_ok (class_of H c)" "rt_ok lo hi (hrt H)" "segment_ok H c" "(x, n) \<in> segment_objs H c"
  shows "seg_start H c \<le> x" "x + n \<le> seg_start H c + 8 * segmentWords (class_of H c)" "0 < n"
proof -
  obtain i where i: "in_use (hsegment H c) i" "x \<in> set (slots (class_of H c) (seg_start H c) (hsegment H c) i)" "n = 8 * page_words (hsegment H c) i"
    using assms(4) unfolding segment_objs_def seg_objs_def by blast
  have s: "seg_shape (class_of H c) (hsegment H c)" using assms(3) by (simp add: segment_ok_def seg_ok_def)
  note W = slots_within [OF assms(1) segment_place [OF assms(2,3)] s i(1,2)]
  show "seg_start H c \<le> x" "x + n \<le> seg_start H c + 8 * segmentWords (class_of H c)" using W(1,2) i(3) by simp_all
  show "0 < n" using slots_page(3) [OF s i(1,2)] i(3) by simp
qed

lemma segment_objs_apart:
  assumes "segment_ok H c" "(x, n) \<in> segment_objs H c" "(y, l) \<in> segment_objs H c" "(x, n) \<noteq> (y, l)"
  shows "x + n \<le> y \<or> y + l \<le> x"
proof -
  have s: "seg_shape (class_of H c) (hsegment H c)" using assms(1) by (simp add: segment_ok_def seg_ok_def)
  obtain i where i: "in_use (hsegment H c) i" "x \<in> set (slots (class_of H c) (seg_start H c) (hsegment H c) i)" "n = 8 * page_words (hsegment H c) i"
    using assms(2) unfolding segment_objs_def seg_objs_def by blast
  obtain j where j: "in_use (hsegment H c) j" "y \<in> set (slots (class_of H c) (seg_start H c) (hsegment H c) j)" "l = 8 * page_words (hsegment H c) j"
    using assms(3) unfolding segment_objs_def seg_objs_def by blast
  have "x \<noteq> y" using slots_same_page [OF s i(1,2) j(1)] j assms(4) i(3) by blast
  then show ?thesis using slots_apart [OF s i(1,2) j(1,2)] i(3) j(3) by simp
qed

text \<open>The chunk of an object and the memory it lies in.\<close>

lemma obj_chunk:
  assumes "heap_inv lo hi A S L H" "(x, n) \<in> heap_objs A S L H"
  obtains c a l where "held (hrt H) c = Some (a, l)" "a \<le> x" "x + n \<le> a + l" "0 < n"
    "c \<in> set (A @ S @ listed H) \<and> (x, n) \<in> segment_objs H c \<or> c \<in> set (largeList H @ L) \<and> x = a \<and> n = l"
proof -
  have ok: "rt_ok lo hi (hrt H)" using assms(1) by (simp add: heap_inv_def)
  consider c where "c \<in> set (A @ S @ listed H)" "(x, n) \<in> segment_objs H c" | c where "c \<in> set (largeList H @ L)" "(x, n) = large_obj H c"
    using assms(2) unfolding heap_objs_def by blast
  then show thesis
  proof cases
    case 1
    have s: "segment_ok H c" using assms(1) 1(1) unfolding heap_inv_def by blast
    have k: "class_ok (class_of H c)" using assms(1) by (simp add: heap_inv_def class_of_def)
    note W = segment_objs_within [OF k ok s 1(2)]
    show thesis by (rule that [of c "seg_start H c" "8 * segmentWords (class_of H c)"]) (use s W 1 in \<open>simp_all add: segment_ok_def\<close>)
  next
    case 2
    obtain a l where h: "held (hrt H) c = Some (a, l)" using assms(1) 2(1) unfolding heap_inv_def by fastforce
    have e: "x = a" "n = l" using held_chunk [OF h] 2(2) by (simp_all add: large_obj_def)
    have "rt_inv lo hi (hrt H)" using ok by (simp add: rt_ok_def)
    then have "0 < l" using held_apart [OF _ h] by blast
    then show thesis using that [OF h] 2(1) e by simp
  qed
qed

lemma objs_apart:
  assumes "heap_inv lo hi A S L H" "(x, n) \<in> heap_objs A S L H" "(y, l) \<in> heap_objs A S L H" "(x, n) \<noteq> (y, l)"
  shows "x + n \<le> y \<or> y + l \<le> x"
proof -
  obtain c a i where c: "held (hrt H) c = Some (a, i)" "a \<le> x" "x + n \<le> a + i"
      "c \<in> set (A @ S @ listed H) \<and> (x, n) \<in> segment_objs H c \<or> c \<in> set (largeList H @ L) \<and> x = a \<and> n = i"
    using obj_chunk [OF assms(1,2)] by metis
  obtain d b j where d: "held (hrt H) d = Some (b, j)" "b \<le> y" "y + l \<le> b + j"
      "d \<in> set (A @ S @ listed H) \<and> (y, l) \<in> segment_objs H d \<or> d \<in> set (largeList H @ L) \<and> y = b \<and> l = j"
    using obj_chunk [OF assms(1,3)] by metis
  show ?thesis
  proof (cases "c = d")
    case False
    have "a + i \<le> b \<or> b + j \<le> a" using held_apart [OF _ c(1)] d(1) False assms(1) unfolding heap_inv_def rt_ok_def by metis
    then show ?thesis using c(2,3) d(2,3) by linarith
  next
    case True
    have dis: "set (A @ S @ listed H) \<inter> set (largeList H @ L) = {}" using assms(1) unfolding heap_inv_def by auto
    have "c \<notin> set (largeList H @ L)"
    proof
      assume "c \<in> set (largeList H @ L)"
      then have "x = a" "n = i" "y = b" "l = j" using c(4) d(4) dis True by blast+
      then show False using assms(4) c(1) d(1) True by simp
    qed
    then have "c \<in> set (A @ S @ listed H)" "(x, n) \<in> segment_objs H c" "(y, l) \<in> segment_objs H c" using c(4) d(4) True by blast+
    moreover from this(1) have "segment_ok H c" using assms(1) unfolding heap_inv_def by blast
    ultimately show ?thesis using segment_objs_apart assms(4) by blast
  qed
qed

section \<open>What leaves a segment alone\<close>

definition same_segment :: "heap \<Rightarrow> heap \<Rightarrow> nat \<Rightarrow> bool" where
  "same_segment H H' c \<longleftrightarrow> held (hrt H') c = held (hrt H) c \<and> hkind H' c = hkind H c \<and> hsegment H' c = hsegment H c \<and>
     class_like (class_of H c) (class_of H' c) \<and>
     (\<forall>x. seg_start H c \<le> x \<and> x < seg_start H c + 8 * segmentWords (class_of H c) \<longrightarrow> hmem H' x = hmem H x)"

lemma same_segment_ok:
  assumes "same_segment H H' c" "segment_ok H c" "class_ok (class_of H c)" "rt_ok lo hi (hrt H)"
  shows "segment_ok H' c" "segment_objs H' c = segment_objs H c" "seg_start H' c = seg_start H c"
proof -
  have h: "held (hrt H) c = Some (seg_start H c, 8 * segmentWords (class_of H c))" and s: "seg_ok (class_of H c) (seg_start H c) (hmem H) (hsegment H c)"
    using assms(2) by (simp_all add: segment_ok_def)
  have e: "held (hrt H') c = Some (seg_start H c, 8 * segmentWords (class_of H c))" "hsegment H' c = hsegment H c"
    "class_like (class_of H c) (class_of H' c)" using assms(1) h by (simp_all add: same_segment_def)
  show st: "seg_start H' c = seg_start H c" using held_chunk [OF e(1)] by (simp add: seg_start_def)
  note C = class_like_eq [OF e(3)]
  have m: "hmem H' x = hmem H x" if "in_use (hsegment H c) i" "x \<in> set (slots (class_of H c) (seg_start H c) (hsegment H c) i)" for i x
  proof -
    have sh: "seg_shape (class_of H c) (hsegment H c)" using s by (simp add: seg_ok_def)
    note slots_within [OF assms(3) segment_place [OF assms(4,2)] sh that] slots_page(3) [OF sh that]
    then have "seg_start H c \<le> x" "x < seg_start H c + 8 * segmentWords (class_of H c)" by linarith+
    then show ?thesis using assms(1) unfolding same_segment_def by blast
  qed
  have "seg_ok (class_of H c) (seg_start H c) (hmem H') (hsegment H c)" by (rule segment_frame [OF m s])
  then show "segment_ok H' c" using e C st by (simp add: segment_ok_def class_like_def)
  have "used (hmem H') x = used (hmem H) x" if "in_use (hsegment H c) i" "x \<in> set (slots (class_of H c) (seg_start H c) (hsegment H c) i)" for i x
    by (rule used_other(2)) (rule m [OF that])
  then show "segment_objs H' c = segment_objs H c" unfolding segment_objs_def C e(2) st seg_objs_def by fast
qed

lemma same_large:
  assumes "held (hrt H') c = held (hrt H) c" "held (hrt H) c \<noteq> None"
  shows "large_obj H' c = large_obj H c"
proof -
  obtain a n where h: "held (hrt H) c = Some (a, n)" using assms(2) by auto
  then have "held (hrt H') c = Some (a, n)" using assms(1) by simp
  from held_chunk [OF this] held_chunk [OF h] show ?thesis by (simp add: large_obj_def)
qed

lemma gc_trigger_rt [simp]: "held (chiHeapLimitReached rt) = held rt" "rt_ok lo hi (chiHeapLimitReached rt) = rt_ok lo hi rt"
  "chunk_start (chiHeapLimitReached rt) = chunk_start rt" "chunk_size (chiHeapLimitReached rt) = chunk_size rt" "rt_ready e (chiHeapLimitReached rt) = rt_ready e rt"
  by (simp_all add: chiHeapLimitReached_def rt_ok_def rt_inv_def chunk_start_def chunk_size_def rt_ready_def fun_eq_iff)

text \<open>Two heaps that agree on their segments and large objects, which may move between lists.\<close>

lemma heap_same:
  assumes "heap_inv lo hi A S L H" "rt_ok lo hi (hrt H')" "\<forall>k. class_like (hclass H k) (hclass H' k)"
    and "\<forall>c \<in> set (A @ S @ listed H). same_segment H H' c" "mset (A' @ S' @ listed H') = mset (A @ S @ listed H)"
    and "\<forall>c \<in> set (largeList H @ L). held (hrt H') c = held (hrt H) c" "mset (largeList H' @ L') = mset (largeList H @ L)"
    and "\<forall>c \<in> set (A' @ listed H'). sweepIndex (hsegment H' c) = 0" "\<forall>k. \<forall>c \<in> set (cfree (hclass H' k) @ cfull (hclass H' k)). hkind H' c = k"
  shows "heap_inv lo hi A' S' L' H'" "heap_objs A' S' L' H' = heap_objs A S L H"
proof -
  have sets: "set (A' @ S' @ listed H') = set (A @ S @ listed H)" "set (largeList H' @ L') = set (largeList H @ L)"
    using assms(5,7) mset_eq_setD by blast+
  have "mset ((A' @ S' @ listed H') @ largeList H' @ L') = mset ((A @ S @ listed H) @ largeList H @ L)" using assms(5,7) by simp
  then have "distinct ((A' @ S' @ listed H') @ largeList H' @ L') = distinct ((A @ S @ listed H) @ largeList H @ L)"
    by (rule mset_eq_imp_distinct_iff)
  then have d: "distinct (A' @ S' @ listed H' @ largeList H' @ L')" using assms(1) by (simp add: heap_inv_def)
  have ok: "rt_ok lo hi (hrt H)" "\<And>c. class_ok (class_of H c)" using assms(1) by (simp_all add: heap_inv_def class_of_def)
  have s: "segment_ok H c" if "c \<in> set (A @ S @ listed H)" for c using assms(1) that unfolding heap_inv_def by blast
  note F = same_segment_ok [OF bspec [OF assms(4)] s ok(2,1)]
  have "class_ok (hclass H' k) \<and> request_ok (segmentWords (hclass H' k) * CHI_WORDSIZE) 0 \<and> linear (hclass H' k) = (k = Small)" for k
    using assms(1,3) class_like_eq(1) [of "hclass H k" "hclass H' k"] by (simp add: heap_inv_def class_like_def)
  moreover have "bins (hclass H' Small) = SMALL_BINS" using assms(1,3) by (simp add: heap_inv_def class_like_def)
  moreover have "\<forall>c \<in> set (A' @ S' @ listed H'). segment_ok H' c" unfolding sets using F(1) by blast
  moreover have hl: "\<forall>c \<in> set (largeList H @ L). held (hrt H) c \<noteq> None" using assms(1) by (simp add: heap_inv_def)
  then have "\<forall>c \<in> set (largeList H' @ L'). held (hrt H') c \<noteq> None" unfolding sets using assms(6) by simp
  ultimately show "heap_inv lo hi A' S' L' H'" using assms(2,8,9) d unfolding heap_inv_def by blast
  have "(\<Union>c \<in> set (A' @ S' @ listed H'). segment_objs H' c) = (\<Union>c \<in> set (A @ S @ listed H). segment_objs H c)" unfolding sets using F(2) by simp
  moreover have "large_obj H' ` set (largeList H' @ L') = large_obj H ` set (largeList H @ L)" unfolding sets
    by (rule image_cong [OF refl], rule same_large) (use assms(6) hl in blast)+
  ultimately show "heap_objs A' S' L' H' = heap_objs A S L H" by (simp add: heap_objs_def)
qed

lemma same_segment_lists: "class_like (class_of H c) (class_of H' c) \<Longrightarrow> held (hrt H') = held (hrt H) \<Longrightarrow> hkind H' = hkind H \<Longrightarrow> hsegment H' = hsegment H \<Longrightarrow>
    hmem H' = hmem H \<Longrightarrow> same_segment H H' c"
  by (simp add: same_segment_def)

text \<open>The trigger of the collector.\<close>

lemma limit_reached_simps [simp]: "hclass (limit_reached b H) = hclass H" "largeList (limit_reached b H) = largeList H"
  "hsegment (limit_reached b H) = hsegment H" "hkind (limit_reached b H) = hkind H" "hmem (limit_reached b H) = hmem H"
  "held (hrt (limit_reached b H)) = held (hrt H)" "rt_ok lo hi (hrt (limit_reached b H)) = rt_ok lo hi (hrt H)"
  "rt_ready e (hrt (limit_reached b H)) = rt_ready e (hrt H)" "listed (limit_reached b H) = listed H"
  "seg_start (limit_reached b H) = seg_start H" "class_of (limit_reached b H) = class_of H" "segment_objs (limit_reached b H) = segment_objs H"
  "large_obj (limit_reached b H) = large_obj H" "segment_ok (limit_reached b H) = segment_ok H"
  by (simp_all add: limit_reached_def listed_def seg_start_def class_of_def segment_objs_def large_obj_def segment_ok_def fun_eq_iff)

lemma limit_reached_inv [simp]: "heap_inv lo hi A S L (limit_reached b H) = heap_inv lo hi A S L H"
  "heap_objs A S L (limit_reached b H) = heap_objs A S L H"
  by (simp_all add: heap_inv_def heap_objs_def)

lemma on_class_simps [simp]: "hclass (on_class k f H) j = (if j = k then f (hclass H k) else hclass H j)" "largeList (on_class k f H) = largeList H"
  "hsegment (on_class k f H) = hsegment H" "hkind (on_class k f H) = hkind H" "hmem (on_class k f H) = hmem H" "hrt (on_class k f H) = hrt H"
  "seg_start (on_class k f H) = seg_start H"
  by (simp_all add: on_class_def seg_start_def fun_eq_iff)

lemma class_of_on_class: "(\<And>cls. class_like cls (f cls)) \<Longrightarrow> class_like (class_of H c) (class_of (on_class k f H) c)"
  by (simp add: class_of_def)

text \<open>Moving a segment between a handle and the lists of its class.\<close>

lemma move_segment:
  assumes "heap_inv lo hi A S L H" "\<And>cls. class_like cls (f cls)" "mset (A' @ S' @ listed (on_class k f H)) = mset (A @ S @ listed H)"
    and "\<forall>c \<in> set (A' @ listed (on_class k f H)). sweepIndex (hsegment H c) = 0"
    and "\<forall>c \<in> set (cfree (f (hclass H k)) @ cfull (f (hclass H k))). hkind H c = k"
  shows "heap_inv lo hi A' S' L (on_class k f H)" "heap_objs A' S' L (on_class k f H) = heap_objs A S L H"
proof -
  have "\<forall>j. \<forall>c \<in> set (cfree (hclass H j) @ cfull (hclass H j)). hkind H c = j" "rt_ok lo hi (hrt H)" using assms(1) by (simp_all add: heap_inv_def)
  note I = heap_same [OF assms(1), where H' = "on_class k f H" and A' = A' and S' = S' and L' = L]
  show "heap_inv lo hi A' S' L (on_class k f H)" "heap_objs A' S' L (on_class k f H) = heap_objs A S L H"
    by (rule I; use assms \<open>\<forall>j. _ j\<close> \<open>rt_ok lo hi (hrt H)\<close> in \<open>simp add: same_segment_lists class_of_on_class\<close>)+
qed

lemma acquire_existing_ok:
  assumes "heap_inv lo hi A S L H" "segmentAcquireExisting k H = (r, H')"
  shows "case r of None \<Rightarrow> H' = H \<and> cfree (hclass H k) = []
    | Some c \<Rightarrow> heap_inv lo hi (c # A) S L H' \<and> heap_objs (c # A) S L H' = heap_objs A S L H \<and> hkind H c = k \<and> sweepIndex (hsegment H c) = 0 \<and>
        c \<in> set (cfree (hclass H k)) \<and> H' = on_class k (\<lambda>cls. cls\<lparr> cfree := tl (cfree cls) \<rparr>) H \<and> length (cfree (hclass H k)) = Suc (length (cfree (hclass H' k)))"
proof (cases "cfree (hclass H k)")
  case Nil
  then show ?thesis using assms(2) by (simp add: segmentAcquireExisting_def)
next
  case (Cons c cs)
  let ?f = "\<lambda>cls. cls\<lparr> cfree := tl (cfree cls) \<rparr>"
  have "on_class k (\<lambda>cls. cls\<lparr> cfree := cs \<rparr>) H = on_class k ?f H" using Cons by (simp add: on_class_def)
  then have e: "r = Some c" "H' = on_class k ?f H" using assms(2) Cons by (simp_all add: segmentAcquireExisting_def)
  have k: "\<forall>c \<in> set (cfree (hclass H k) @ cfull (hclass H k)). hkind H c = k" "\<forall>c \<in> set (A @ listed H). sweepIndex (hsegment H c) = 0"
    using assms(1) by (simp_all add: heap_inv_def)
  have m: "mset (listed H) = add_mset c (mset (listed (on_class k ?f H)))" using Cons by (cases k) (simp_all add: listed_def)
  then have s: "set (listed H) = insert c (set (listed (on_class k ?f H)))" by (metis set_mset_add_mset_insert set_mset_mset)
  have "heap_inv lo hi (c # A) S L H'" "heap_objs (c # A) S L H' = heap_objs A S L H" unfolding e(2)
    by (rule move_segment [OF assms(1)]; use m s k Cons in simp)+
  then show ?thesis using e k Cons s by simp
qed

section \<open>A new segment\<close>

lemma fresh_segment_ok:
  assumes "class_ok cls"
  shows "seg_ok cls a m (new_segment cls)" "seg_objs cls a m (new_segment cls) = {}" "page_take cls (new_segment cls) \<noteq> None"
    "sweepIndex (new_segment cls) = 0"
proof -
  have u: "\<not> in_use (new_segment cls) i" for i by (simp add: in_use_def new_segment_def)
  have "seg_shape cls (new_segment cls)" unfolding seg_shape_def using u by (simp add: new_segment_def)
  moreover have "seg_pages (new_segment cls)" unfolding seg_pages_def by (rule exI [of _ "[]"]) (simp add: new_segment_def)
  moreover have "seg_lists cls a m (new_segment cls)"
    unfolding seg_lists_def free_slots_def using u by (auto simp: new_segment_def intro!: exI [of _ "[]"])
  ultimately show "seg_ok cls a m (new_segment cls)" by (simp add: seg_ok_def)
  show "seg_objs cls a m (new_segment cls) = {}" using u by (simp add: seg_objs_def)
  show "page_take cls (new_segment cls) \<noteq> None" using assms by (simp add: page_take_def new_segment_def class_ok_def)
  show "sweepIndex (new_segment cls) = 0" by (simp add: new_segment_def)
qed

text \<open>What allocation leaves alone: the classes, the chunks held and the class of each segment.\<close>

definition grows :: "heap \<Rightarrow> heap \<Rightarrow> bool" where
  "grows H H' \<longleftrightarrow> (\<forall>j. class_like (hclass H j) (hclass H' j)) \<and>
     (\<forall>d. held (hrt H) d \<noteq> None \<longrightarrow> held (hrt H') d = held (hrt H) d \<and> hkind H' d = hkind H d)"

lemma grows_refl [simp]: "grows H H"
  by (simp add: grows_def)

lemma grows_trans: "grows H H' \<Longrightarrow> grows H' H'' \<Longrightarrow> grows H H''"
  unfolding grows_def using class_like_trans by (metis (no_types, lifting))

lemma inv_segment: "heap_inv lo hi A S L H \<Longrightarrow> d \<in> set (A @ S @ listed H) \<Longrightarrow> segment_ok H d"
  unfolding heap_inv_def by blast

lemma inv_held:
  assumes "heap_inv lo hi A S L H" "c \<in> set (A @ S @ listed H @ largeList H @ L)"
  shows "held (hrt H) c \<noteq> None"
  using assms unfolding heap_inv_def segment_ok_def by fastforce

lemma new_chunk_same:
  assumes inv: "heap_inv lo hi A S L H" and rt: "rt_ok lo hi rt" "held (hrt H) c = None" "held rt = (held (hrt H))(c \<mapsto> (a, n))"
    and H': "H' = H\<lparr> hrt := rt, hsegment := (hsegment H)(c := s), hkind := (hkind H)(c := k) \<rparr>"
  shows "heap_inv lo hi A S L H'" "heap_objs A S L H' = heap_objs A S L H" "c \<notin> set (A @ S @ listed H @ largeList H @ L)" "grows H H'"
proof -
  note hd = inv_held [OF inv]
  show c: "c \<notin> set (A @ S @ listed H @ largeList H @ L)" using hd rt(2) by blast
  have e: "hclass H' = hclass H" "largeList H' = largeList H" "hmem H' = hmem H" "hrt H' = rt" "listed H' = listed H"
    by (simp_all add: H' listed_def)
  have o: "held rt d = held (hrt H) d" "hkind H' d = hkind H d" "hsegment H' d = hsegment H d" if "d \<noteq> c" for d
    using that rt(3) by (simp_all add: H')
  have ss: "\<forall>d \<in> set (A @ S @ listed H). same_segment H H' d"
  proof
    fix d assume "d \<in> set (A @ S @ listed H)"
    then have "d \<noteq> c" using c by auto
    from o [OF this] show "same_segment H H' d" unfolding same_segment_def e class_of_def by simp
  qed
  have k: "\<forall>k. \<forall>d \<in> set (cfree (hclass H k) @ cfull (hclass H k)). hkind H d = k" "\<forall>d \<in> set (A @ listed H). sweepIndex (hsegment H d) = 0"
    using inv by (simp_all add: heap_inv_def)
  have l: "set (cfree (hclass H j) @ cfull (hclass H j)) \<subseteq> set (listed H)" for j by (cases j) (auto simp: listed_def)
  have k1: "\<forall>k. \<forall>d \<in> set (cfree (hclass H k) @ cfull (hclass H k)). hkind H' d = k"
  proof (intro allI ballI)
    fix j d assume d: "d \<in> set (cfree (hclass H j) @ cfull (hclass H j))"
    then have "d \<noteq> c" using c l [of j] by auto
    then show "hkind H' d = j" using o k d by metis
  qed
  have k2: "\<forall>d \<in> set (A @ listed H). sweepIndex (hsegment H' d) = 0"
  proof
    fix d assume d: "d \<in> set (A @ listed H)"
    then have "d \<noteq> c" using c by auto
    then show "sweepIndex (hsegment H' d) = 0" using o k(2) d by metis
  qed
  have lg: "\<forall>d \<in> set (largeList H @ L). held (hrt H') d = held (hrt H) d"
  proof
    fix d assume "d \<in> set (largeList H @ L)"
    then have "d \<noteq> c" using c by auto
    then show "held (hrt H') d = held (hrt H) d" unfolding e by (rule o)
  qed
  note I = heap_same [OF inv, where H' = H' and A' = A and S' = S and L' = L]
  show "heap_inv lo hi A S L H'" "heap_objs A S L H' = heap_objs A S L H"
    by (rule I; use rt(1) ss k1 k2 lg in \<open>simp add: e\<close>)+
  show "grows H H'" unfolding grows_def e using o rt(2) by (metis class_like_refl)
qed

text \<open>A segment without objects joins the heap.\<close>

lemma join_segment:
  assumes "heap_inv lo hi A S L H" "c \<notin> set (A @ S @ listed H @ largeList H @ L)" "segment_ok H c" "segment_objs H c = {}" "sweepIndex (hsegment H c) = 0"
  shows "heap_inv lo hi (c # A) S L H" "heap_objs (c # A) S L H = heap_objs A S L H"
  using assms by (simp_all add: heap_inv_def heap_objs_def)

lemma acquire_new_ok:
  assumes inv: "heap_inv lo hi A S L H" and rd: "rt_ready e (hrt H)"
  shows "case segmentAcquireNew e k H of Diverges \<Rightarrow> False | Dies \<Rightarrow> True
    | Returns (c, H') \<Rightarrow> heap_inv lo hi (c # A) S L H' \<and> heap_objs (c # A) S L H' = heap_objs A S L H \<and> hkind H' c = k \<and>
        sweepIndex (hsegment H' c) = 0 \<and> page_take (hclass H' k) (hsegment H' c) \<noteq> None \<and> hmem H' = hmem H \<and> grows H H'"
proof -
  have cls: "class_ok (hclass H k)" "request_ok (segmentWords (hclass H k) * CHI_WORDSIZE) 0" and ok: "rt_ok lo hi (hrt H)"
    using inv by (simp_all add: heap_inv_def)
  note N = heap_chunk_new [OF ok cls(2) rd, of False]
  show ?thesis
  proof (cases "chiHeapChunkNew e (segmentWords (hclass H k) * CHI_WORDSIZE) False (hrt H)")
    case (Returns x)
    obtain c rt where x: "x = (Some c, rt)" using N Returns by (auto split: prod.splits option.splits)
    obtain a where a: "rt_ok lo hi rt" "held (hrt H) c = None" "held rt = (held (hrt H))(c \<mapsto> (a, segmentWords (hclass H k) * CHI_WORDSIZE))"
      using N unfolding Returns x by auto
    let ?s = "new_segment (hclass H k)" and ?f = "\<lambda>cls. cls\<lparr> ctotal := ctotal cls + 1 \<rparr>"
    define G where "G = H\<lparr> hrt := rt, hsegment := (hsegment H)(c := ?s), hkind := (hkind H)(c := k) \<rparr>"
    note G = new_chunk_same [OF inv a G_def]
    have g: "hclass G = hclass H" "hkind G c = k" "hsegment G c = ?s" "hrt G = rt" "hmem G = hmem H" "listed G = listed H" "largeList G = largeList H"
      by (simp_all add: G_def listed_def)
    have st: "seg_start G c = a" using held_chunk [of rt c] a(3) g(4) by (simp add: seg_start_def)
    note F = fresh_segment_ok [OF cls(1)]
    have s: "segment_ok G c" "segment_objs G c = {}" "sweepIndex (hsegment G c) = 0"
      using F a(3) st g by (simp_all add: segment_ok_def segment_objs_def class_of_def CHI_WORDSIZE_def mult.commute)
    have "c \<notin> set (A @ S @ listed G @ largeList G @ L)" using G(3) g by simp
    note J = join_segment [OF G(1) this s]
    define K where "K = on_class k ?f G"
    have l: "listed K = listed G" by (simp add: K_def listed_def)
    have f: "\<forall>j. \<forall>d \<in> set (cfree (hclass G j) @ cfull (hclass G j)). hkind G d = j" "\<forall>d \<in> set ((c # A) @ listed G). sweepIndex (hsegment G d) = 0"
      using J(1) by (simp_all add: heap_inv_def)
    have M: "heap_inv lo hi (c # A) S L K" "heap_objs (c # A) S L K = heap_objs (c # A) S L G" unfolding K_def
      by (rule move_segment [OF J(1)]; use l [unfolded K_def] f in simp)+
    have e: "segmentAcquireNew e k H = Returns (c, limit_reached (classLimitReached (hclass K k)) K)"
      by (simp add: segmentAcquireNew_def segmentNewChunk_def Returns x G_def K_def Let_def)
    have k: "hkind K = hkind G" "hsegment K = hsegment G" "hmem K = hmem G" "hrt K = hrt G" "class_like (hclass G j) (hclass K j)" for j
      by (simp_all add: K_def)
    have "grows G K" using k by (simp add: grows_def)
    then have "grows H K" using grows_trans G(4) by blast
    then have gr: "grows H (limit_reached b K)" for b by (simp add: grows_def)
    have "page_take (hclass K k) ?s \<noteq> None" using F(3) class_like_eq(11) [OF k(5)] g(1) by simp
    then show ?thesis unfolding e using M J(2) G(2) gr k g F(4) by simp
  qed (use N in \<open>simp_all add: segmentAcquireNew_def segmentNewChunk_def\<close>)
qed

section \<open>Full segments\<close>

lemma full_ok:
  assumes inv: "heap_inv lo hi (c # A) S L H" and rd: "rt_ready e (hrt H)" and k: "hkind H c = k"
  shows "case segmentFull e k c H of Diverges \<Rightarrow> False | Dies \<Rightarrow> True
    | Returns (d, H') \<Rightarrow> heap_inv lo hi (d # A) S L H' \<and> heap_objs (d # A) S L H' = heap_objs (c # A) S L H \<and> hkind H' d = k \<and>
        hmem H' = hmem H \<and> grows H H' \<and>
        (cfree (hclass H k) \<noteq> [] \<and> rt_ready e (hrt H') \<and> length (cfree (hclass H k)) = Suc (length (cfree (hclass H' k))) \<or>
         page_take (hclass H' k) (hsegment H' d) \<noteq> None)"
proof -
  let ?f = "\<lambda>cls. cls\<lparr> cfull := cfull cls @ [c] \<rparr>"
  define G where "G = on_class k ?f H"
  have i: "\<forall>j. \<forall>d \<in> set (cfree (hclass H j) @ cfull (hclass H j)). hkind H d = j" "\<forall>d \<in> set ((c # A) @ listed H). sweepIndex (hsegment H d) = 0"
    using inv by (simp_all add: heap_inv_def)
  have m: "mset (listed G) = add_mset c (mset (listed H))" unfolding G_def by (cases k) (simp_all add: listed_def)
  then have st: "set (listed G) = insert c (set (listed H))" by (metis set_mset_add_mset_insert set_mset_mset)
  have G: "heap_inv lo hi A S L G" "heap_objs A S L G = heap_objs (c # A) S L H" unfolding G_def
    by (rule move_segment [OF inv]; use m [unfolded G_def] st [unfolded G_def] i k in simp)+
  have g: "hmem G = hmem H" "hrt G = hrt H" "hkind G = hkind H" "cfree (hclass G k) = cfree (hclass H k)" "grows H G"
    by (simp_all add: G_def grows_def)
  obtain r K where r: "segmentAcquireExisting k G = (r, K)" by fastforce
  note E = acquire_existing_ok [OF G(1) r]
  let ?lim = "classLimitReached (hclass G k)"
  have e: "segmentFull e k c H = (case r of Some d \<Rightarrow> Returns (d, limit_reached ?lim K) | None \<Rightarrow> segmentAcquireNew e k (limit_reached ?lim K))"
    by (simp add: segmentFull_def Let_def G_def [symmetric] r)
  show ?thesis
  proof (cases r)
    case None
    then have K: "K = G" using E by simp
    have "rt_ready e (hrt (limit_reached ?lim G))" "heap_inv lo hi A S L (limit_reached ?lim G)" using rd G(1) g(2) by simp_all
    note N = acquire_new_ok [OF this(2,1), of k]
    have "grows H (limit_reached ?lim G)" using g(5) by (simp add: grows_def)
    then have tr: "grows (limit_reached ?lim G) H' \<Longrightarrow> grows H H'" for H' using grows_trans by blast
    have o: "heap_objs A S L (limit_reached ?lim G) = heap_objs (c # A) S L H" "hmem (limit_reached ?lim G) = hmem H" using G(2) g(1) by simp_all
    show ?thesis
    proof (cases "segmentAcquireNew e k (limit_reached ?lim G)")
      case (Returns x)
      then obtain d H' where x: "segmentAcquireNew e k (limit_reached ?lim G) = Returns (d, H')" by (cases x) simp
      show ?thesis using N tr [of H'] unfolding e None K option.case x outcome.case prod.case o by blast
    qed (use N in \<open>simp_all add: e None K\<close>)
  next
    case (Some d)
    note E = E [unfolded Some option.case]
    then have K: "K = on_class k (\<lambda>cls. cls\<lparr> cfree := tl (cfree cls) \<rparr>) G" by blast
    then have "grows G K" by (simp add: grows_def)
    then have "grows H K" by (rule grows_trans [OF g(5)])
    then have gr: "grows H (limit_reached ?lim K)" by (simp add: grows_def)
    have "cfree (hclass G k) \<noteq> []" using E by force
    moreover have "hmem K = hmem G" "hrt K = hrt G" "hkind K = hkind G" by (simp_all add: K)
    moreover have "heap_inv lo hi (d # A) S L K" "heap_objs (d # A) S L K = heap_objs A S L G" "hkind G d = k"
      "length (cfree (hclass G k)) = Suc (length (cfree (hclass K k)))" using E by blast+
    ultimately show ?thesis using gr G(2) g rd unfolding e Some option.case outcome.case prod.case by simp
  qed
qed

section \<open>Allocation\<close>

text \<open>A segment that nobody but its owner uses and its memory change; the others stay.\<close>

lemma change_hand:
  assumes inv: "heap_inv lo hi A (c # S) L H" and s: "seg_ok (class_of H c) (seg_start H c) m s"
    and m: "\<And>x. x < seg_start H c \<or> seg_start H c + 8 * segmentWords (class_of H c) \<le> x \<Longrightarrow> m x = hmem H x"
    and H': "H' = H\<lparr> hsegment := (hsegment H)(c := s), hmem := m \<rparr>"
  shows "heap_inv lo hi A (c # S) L H'"
    "heap_objs A (c # S) L H' = seg_objs (class_of H c) (seg_start H c) m s \<union> heap_objs A S L H"
    "\<forall>d \<in> set (A @ S @ listed H). same_segment H H' d"
    "\<forall>d \<in> set (largeList H @ L). hmem H' (seg_start H d) = hmem H (seg_start H d)"
proof -
  have e: "hclass H' = hclass H" "largeList H' = largeList H" "hrt H' = hrt H" "listed H' = listed H" "hkind H' = hkind H" "hmem H' = m"
    "seg_start H' = seg_start H" "class_of H' = class_of H" "hsegment H' c = s" "large_obj H' = large_obj H"
    by (simp_all add: H' listed_def seg_start_def class_of_def large_obj_def fun_eq_iff)
  have ok: "rt_ok lo hi (hrt H)" "\<And>d. class_ok (class_of H d)" using inv by (simp_all add: heap_inv_def class_of_def)
  have ri: "rt_inv lo hi (hrt H)" using ok(1) by (simp add: rt_ok_def)
  have c: "c \<notin> set (A @ S @ listed H)" "c \<notin> set (largeList H @ L)" using inv by (auto simp: heap_inv_def)
  have sg: "segment_ok H d" if "d \<in> set (A @ (c # S) @ listed H)" for d by (rule inv_segment [OF inv that])
  have hc: "held (hrt H) c = Some (seg_start H c, 8 * segmentWords (class_of H c))" using sg [of c] by (simp add: segment_ok_def)
  have same: "same_segment H H' d" if d: "d \<in> set (A @ S @ listed H)" for d
  proof -
    have n: "d \<noteq> c" using c d by auto
    have hd: "held (hrt H) d = Some (seg_start H d, 8 * segmentWords (class_of H d))" using sg [of d] d by (auto simp: segment_ok_def)
    from held_apart [OF ri hc] hd n
    have "seg_start H c + 8 * segmentWords (class_of H c) \<le> seg_start H d \<or> seg_start H d + 8 * segmentWords (class_of H d) \<le> seg_start H c" by blast
    then have "m x = hmem H x" if "seg_start H d \<le> x" "x < seg_start H d + 8 * segmentWords (class_of H d)" for x using m [of x] that by linarith
    then show ?thesis using n unfolding same_segment_def e by (simp add: H')
  qed
  then show "\<forall>d \<in> set (A @ S @ listed H). same_segment H H' d" by blast
  have sg': "segment_ok H d" if "d \<in> set (A @ S @ listed H)" for d by (rule sg) (use that in auto)
  note F = same_segment_ok [OF same sg' ok(2,1)]
  have "segment_ok H' c" using hc s by (simp add: segment_ok_def e)
  then have "\<forall>d \<in> set (A @ (c # S) @ listed H'). segment_ok H' d" using F(1) unfolding e by auto
  moreover have "\<forall>d \<in> set (A @ listed H'). sweepIndex (hsegment H' d) = 0"
  proof
    fix d assume d: "d \<in> set (A @ listed H')"
    then have "d \<noteq> c" using c(1) unfolding e by auto
    moreover have "sweepIndex (hsegment H d) = 0" using inv d unfolding heap_inv_def e by blast
    ultimately show "sweepIndex (hsegment H' d) = 0" by (simp add: H')
  qed
  ultimately show "heap_inv lo hi A (c # S) L H'" using inv unfolding heap_inv_def e by blast
  have "segment_objs H' c = seg_objs (class_of H c) (seg_start H c) m s" by (simp add: segment_objs_def e)
  moreover have "(\<Union>d \<in> set (A @ S @ listed H). segment_objs H' d) = (\<Union>d \<in> set (A @ S @ listed H). segment_objs H d)" using F(2) by simp
  ultimately show "heap_objs A (c # S) L H' = seg_objs (class_of H c) (seg_start H c) m s \<union> heap_objs A S L H"
    unfolding heap_objs_def e by auto
  show "\<forall>d \<in> set (largeList H @ L). hmem H' (seg_start H d) = hmem H (seg_start H d)"
  proof
    fix d assume d: "d \<in> set (largeList H @ L)"
    then have "d \<noteq> c" using c(2) by auto
    moreover obtain b l where b: "held (hrt H) d = Some (b, l)" using inv d unfolding heap_inv_def by fastforce
    ultimately have "seg_start H c + 8 * segmentWords (class_of H c) \<le> b \<or> b + l \<le> seg_start H c" using held_apart [OF ri hc] by blast
    moreover have "seg_start H d = b" "0 < l" using held_chunk [OF b] held_apart [OF ri b] by (simp_all add: seg_start_def)
    ultimately have "m (seg_start H d) = hmem H (seg_start H d)" using m [of b] by auto
    then show "hmem H' (seg_start H d) = hmem H (seg_start H d)" by (simp add: e)
  qed
qed

text \<open>A segment of a handle is one in the hand of nobody that needs no sweeping.\<close>

lemma inv_hand: "heap_inv lo hi (c # A) S L H \<longleftrightarrow> heap_inv lo hi A (c # S) L H \<and> sweepIndex (hsegment H c) = 0"
  unfolding heap_inv_def by auto

lemma objs_hand: "heap_objs (c # A) S L H = heap_objs A (c # S) L H"
  by (auto simp: heap_objs_def)

lemma change_segment:
  assumes inv: "heap_inv lo hi (c # A) S L H" and s: "seg_ok (class_of H c) (seg_start H c) m s" "sweepIndex s = 0"
    and m: "\<And>x. x < seg_start H c \<or> seg_start H c + 8 * segmentWords (class_of H c) \<le> x \<Longrightarrow> m x = hmem H x"
  shows "heap_inv lo hi (c # A) S L (H\<lparr> hsegment := (hsegment H)(c := s), hmem := m \<rparr>)"
    "heap_objs (c # A) S L (H\<lparr> hsegment := (hsegment H)(c := s), hmem := m \<rparr>) =
       seg_objs (class_of H c) (seg_start H c) m s \<union> heap_objs A S L H"
proof -
  have "heap_inv lo hi A (c # S) L H" using inv by (simp add: inv_hand)
  note C = change_hand [OF this s(1) m refl]
  show "heap_inv lo hi (c # A) S L (H\<lparr> hsegment := (hsegment H)(c := s), hmem := m \<rparr>)" using C(1) s(2) by (simp add: inv_hand)
  show "heap_objs (c # A) S L (H\<lparr> hsegment := (hsegment H)(c := s), hmem := m \<rparr>) =
       seg_objs (class_of H c) (seg_start H c) m s \<union> heap_objs A S L H" unfolding objs_hand by (rule C(2))
qed

lemma heap_objs_Cons: "heap_objs (c # A) S L H = segment_objs H c \<union> heap_objs A S L H"
  by (simp add: heap_objs_def Un_assoc)

text \<open>What no allocation touches.\<close>

definition objects_kept :: "nat list \<Rightarrow> nat list \<Rightarrow> nat list \<Rightarrow> heap \<Rightarrow> heap \<Rightarrow> bool" where
  "objects_kept A S L H H' \<longleftrightarrow> (\<forall>(x, n) \<in> heap_objs A S L H. \<forall>y. x \<le> y \<and> y < x + n \<longrightarrow> hmem H' y = hmem H y)"

lemma objects_kept_trans:
  "objects_kept A S L H G \<Longrightarrow> objects_kept A' S' L' G H' \<Longrightarrow> heap_objs A S L H \<subseteq> heap_objs A' S' L' G \<Longrightarrow> objects_kept A S L H H'"
  unfolding objects_kept_def by fastforce

lemma drop_segment: "heap_inv lo hi (c # A) S L H \<Longrightarrow> heap_inv lo hi A S L H"
  by (simp add: heap_inv_def)

lemma others_outside:
  assumes inv: "heap_inv lo hi (c # A) S L H" and o: "(x, n) \<in> heap_objs A S L H"
  shows "x + n \<le> seg_start H c \<or> seg_start H c + 8 * segmentWords (class_of H c) \<le> x"
proof -
  obtain d a l where d: "held (hrt H) d = Some (a, l)" "a \<le> x" "x + n \<le> a + l" "d \<in> set (A @ S @ listed H) \<or> d \<in> set (largeList H @ L)"
    using obj_chunk [OF drop_segment [OF inv] o] by metis
  have c: "held (hrt H) c = Some (seg_start H c, 8 * segmentWords (class_of H c))" using inv_segment [OF inv, of c] by (simp add: segment_ok_def)
  have "d \<noteq> c" using inv d(4) by (auto simp: heap_inv_def)
  moreover have "rt_inv lo hi (hrt H)" using inv by (simp add: heap_inv_def rt_ok_def)
  ultimately show ?thesis using held_apart [OF _ c] d(1-3) by (meson le_trans)
qed

text \<open>Changing a segment keeps the objects elsewhere.\<close>

lemma change_kept:
  assumes inv: "heap_inv lo hi (c # A) S L H"
    and m: "\<And>x. x < seg_start H c \<or> seg_start H c + 8 * segmentWords (class_of H c) \<le> x \<Longrightarrow> hmem H' x = hmem H x"
    and s: "\<And>x n y. (x, n) \<in> segment_objs H c \<Longrightarrow> x \<le> y \<Longrightarrow> y < x + n \<Longrightarrow> hmem H' y = hmem H y"
  shows "objects_kept (c # A) S L H H'"
proof -
  have "hmem H' y = hmem H y" if o: "(x, n) \<in> heap_objs A S L H" "x \<le> y" "y < x + n" for x n y
    using others_outside [OF inv o(1)] m [of y] o(2,3) by linarith
  then show ?thesis using s unfolding objects_kept_def heap_objs_Cons by blast
qed

lemma page_find_ok:
  assumes "heap_inv lo hi (c # A) S L H" "hkind H c = k"
    and "page_take (hclass H k) (hsegment H c) \<noteq> None \<and> 0 < n \<or> rt_ready e (hrt H) \<and> length (cfree (hclass H k)) + 2 \<le> n"
  shows "case pageFindFree n e k c H of Diverges \<Rightarrow> False | Dies \<Rightarrow> True
    | Returns (p, d, H') \<Rightarrow> \<exists>G s. heap_inv lo hi (d # A) S L G \<and> heap_objs (d # A) S L G = heap_objs (c # A) S L H \<and> hkind G d = k \<and>
        hmem G = hmem H \<and> grows H G \<and> page_take (hclass G k) (hsegment G d) = Some (p, s) \<and> H' = G\<lparr> hsegment := (hsegment G)(d := s) \<rparr>"
  using assms
proof (induction n arbitrary: c H)
  case 0
  then show ?case by simp
next
  case (Suc n)
  show ?case
  proof (cases "page_take (hclass H k) (hsegment H c)")
    case (Some ps)
    then show ?thesis using Suc.prems(1,2) by (cases ps) (auto intro!: exI [of _ H])
  next
    case None
    then have rd: "rt_ready e (hrt H)" "length (cfree (hclass H k)) + 2 \<le> Suc n" using Suc.prems(3) by simp_all
    note F = full_ok [OF Suc.prems(1) rd(1) Suc.prems(2)]
    show ?thesis
    proof (cases "segmentFull e k c H")
      case (Returns x)
      then obtain d G where x: "segmentFull e k c H = Returns (d, G)" by (cases x) simp
      note F = F [unfolded x outcome.case prod.case]
      have "page_take (hclass G k) (hsegment G d) \<noteq> None \<and> 0 < n \<or> rt_ready e (hrt G) \<and> length (cfree (hclass G k)) + 2 \<le> n" using F rd(2) by auto
      note I = Suc.IH [OF _ _ this]
      have I: "case pageFindFree n e k d G of Diverges \<Rightarrow> False | Dies \<Rightarrow> True
        | Returns (p, d', H') \<Rightarrow> \<exists>G' s. heap_inv lo hi (d' # A) S L G' \<and> heap_objs (d' # A) S L G' = heap_objs (d # A) S L G \<and> hkind G' d' = k \<and>
            hmem G' = hmem G \<and> grows G G' \<and> page_take (hclass G' k) (hsegment G' d') = Some (p, s) \<and> H' = G'\<lparr> hsegment := (hsegment G')(d' := s) \<rparr>"
        by (rule I) (use F in blast)+
      have o: "heap_objs (d # A) S L G = heap_objs (c # A) S L H" "hmem G = hmem H" and tr: "grows G G' \<Longrightarrow> grows H G'" for G'
        using F grows_trans by blast+
      have e: "pageFindFree (Suc n) e k c H = pageFindFree n e k d G" by (simp add: None x)
      show ?thesis
      proof (cases "pageFindFree n e k d G")
        case (Returns y)
        then obtain p d' H' where y: "pageFindFree n e k d G = Returns (p, d', H')" by (cases y) simp
        show ?thesis using I tr unfolding e y o outcome.case prod.case by blast
      qed (use I e in simp_all)
    qed (use F None in simp_all)
  qed
qed

lemma page_alloc_ok:
  assumes inv: "heap_inv lo hi (c # A) S L H" and rd: "rt_ready e (hrt H)" and k: "hkind H c = k"
    and b: "size_ok (hclass H k) (unat (object_size (hclass H k) sz))" "page_bin (hclass H k) (unat (object_size (hclass H k) sz)) = b"
  shows "case pageAlloc e k c sz b H of Diverges \<Rightarrow> False | Dies \<Rightarrow> True
    | Returns (d, H') \<Rightarrow> heap_inv lo hi (d # A) S L H' \<and> heap_objs (d # A) S L H' = heap_objs (c # A) S L H \<and> hkind H' d = k \<and>
        grows H H' \<and> freeObjectList (hsegment H' d) ! b \<noteq> 0 \<and> objects_kept (c # A) S L H H'"
proof -
  have "page_take (hclass H k) (hsegment H c) \<noteq> None \<and> 0 < length (cfree (hclass H k)) + 2 \<or> rt_ready e (hrt H) \<and> length (cfree (hclass H k)) + 2 \<le> length (cfree (hclass H k)) + 2"
    using rd by simp
  note F = page_find_ok [OF inv k this]
  show ?thesis
  proof (cases "pageFindFree (length (cfree (hclass H k)) + 2) e k c H")
    case (Returns x)
    then obtain p d H1 where x: "pageFindFree (length (cfree (hclass H k)) + 2) e k c H = Returns (p, d, H1)" by (cases x) simp
    obtain G s where G: "heap_inv lo hi (d # A) S L G" "heap_objs (d # A) S L G = heap_objs (c # A) S L H" "hkind G d = k" "hmem G = hmem H" "grows H G"
      "page_take (hclass G k) (hsegment G d) = Some (p, s)" "H1 = G\<lparr> hsegment := (hsegment G)(d := s) \<rparr>"
      using F unfolding x outcome.case prod.case by blast
    have like: "class_like (hclass H k) (hclass G k)" using G(5) by (simp add: grows_def)
    note C = class_like_eq [OF like]
    have cls: "class_of G d = hclass G k" by (simp add: class_of_def G(3))
    have ok: "class_ok (hclass G k)" "rt_ok lo hi (hrt G)" using G(1) by (simp_all add: heap_inv_def)
    have sg: "segment_ok G d" by (rule inv_segment [OF G(1)]) simp
    then have so: "seg_ok (hclass G k) (seg_start G d) (hmem G) (hsegment G d)" by (simp add: segment_ok_def cls)
    have z: "sweepIndex (hsegment G d) = 0" using G(1) by (simp add: heap_inv_def)
    obtain s2 m where f: "page_fill (hclass G k) (seg_start G d) p sz b (s, hmem G) = (s2, m)" by fastforce
    have bb: "b < bins (hclass G k)" using b like by (auto simp: size_ok_def class_like_def)
    note I = fill_ok [OF ok(1) segment_place [OF ok(2) sg, unfolded cls] so z bb refl _ _ G(6) f]
    have I: "seg_ok (hclass G k) (seg_start G d) m s2 \<and> live_slots (hclass G k) (seg_start G d) m s2 = live_slots (hclass G k) (seg_start G d) (hmem G) (hsegment G d) \<and>
        freeObjectList s2 ! b \<noteq> 0 \<and> sweepIndex s2 = 0 \<and>
        (\<forall>x. x < seg_start G d \<or> seg_start G d + 8 * segmentWords (hclass G k) \<le> x \<longrightarrow> m x = hmem G x) \<and>
        seg_objs (hclass G k) (seg_start G d) m s2 = segment_objs G d \<and>
        (\<forall>(x, n) \<in> segment_objs G d. \<forall>y. x \<le> y \<and> y < x + n \<longrightarrow> m y = hmem G y)"
      unfolding segment_objs_def cls by (rule I) (use b C in simp_all)
    have out: "m x = hmem G x" if "x < seg_start G d \<or> seg_start G d + 8 * segmentWords (class_of G d) \<le> x" for x using I that unfolding cls by blast
    have i1: "seg_ok (class_of G d) (seg_start G d) m s2" "sweepIndex s2 = 0" using I by (simp_all add: cls)
    define K where "K = G\<lparr> hsegment := (hsegment G)(d := s2), hmem := m \<rparr>"
    have h: "heap_inv lo hi (d # A) S L K" unfolding K_def by (rule change_segment(1) [OF G(1) i1 out])
    have "heap_objs (d # A) S L K = seg_objs (class_of G d) (seg_start G d) m s2 \<union> heap_objs A S L G"
      unfolding K_def by (rule change_segment(2) [OF G(1) i1 out])
    then have ho: "heap_objs (d # A) S L K = heap_objs (d # A) S L G" using I by (simp add: heap_objs_Cons cls)
    have kept: "objects_kept (d # A) S L G K"
      by (rule change_kept [OF G(1)]) (use out I in \<open>auto simp: K_def\<close>)
    have "grows G K" by (simp add: grows_def K_def)
    then have gr: "grows H K" using grows_trans G(5) by blast
    have ok': "objects_kept (c # A) S L H K" using kept G(2,4) by (simp add: objects_kept_def)
    have "H1\<lparr> hsegment := (hsegment H1)(d := s2), hmem := m \<rparr> = K" by (simp add: G(7) K_def)
    moreover have "seg_start H1 d = seg_start G d" "hclass H1 = hclass G" "hmem H1 = hmem G" "hsegment H1 d = s" by (simp_all add: G(7) seg_start_def)
    ultimately have e: "pageAlloc e k c sz b H = Returns (d, K)" using f unfolding pageAlloc_def x by simp
    have "freeObjectList (hsegment K d) ! b \<noteq> 0" "hkind K d = k" using I by (simp_all add: K_def G(3))
    then show ?thesis using h ho gr ok' G(2) unfolding e by simp
  qed (use F in \<open>simp_all add: pageAlloc_def\<close>)
qed

text \<open>Taking an object from its list and writing its header.\<close>

lemma take_new_ok:
  assumes inv: "heap_inv lo hi (c # A) S L H" and k: "hkind H c = k" and fl: "b < bins (hclass H k)" "freeObjectList (hsegment H c) ! b \<noteq> 0"
    and sz: "0 < sz" "sz < 2 ^ 32" "b = size_bin (hclass H k) sz" and col: "chiColorUsed color"
    and t: "take_object c b H = (obj, G)" and H'_def: "H' = init_object obj sz color flags G"
  shows "heap_inv lo hi (c # A) S L H' \<and> objects_kept (c # A) S L H H' \<and> hkind H' = hkind H \<and> hrt H' = hrt H \<and> hclass H' = hclass H \<and>
    (\<exists>n. heap_objs (c # A) S L H' = insert (obj, n) (heap_objs (c # A) S L H) \<and> (obj, n) \<notin> heap_objs (c # A) S L H \<and>
      8 * (sz + 1) \<le> n \<and> 8 dvd obj \<and> n \<le> 8 * pageWords (hclass H k))"
proof -
  let ?cls = "hclass H k" and ?a = "seg_start H c" and ?s = "hsegment H c" and ?m = "hmem H"
  have cls: "class_of H c = ?cls" by (simp add: class_of_def k)
  have ok: "class_ok ?cls" "rt_ok lo hi (hrt H)" using inv by (simp_all add: heap_inv_def)
  have sg: "segment_ok H c" by (rule inv_segment [OF inv]) simp
  then have so: "seg_ok ?cls ?a ?m ?s" by (simp add: segment_ok_def cls)
  then have sh: "seg_shape ?cls ?s" by (simp add: seg_ok_def)
  have z: "sweepIndex ?s = 0" using inv by (simp add: heap_inv_def)
  note pl = segment_place [OF ok(2) sg, unfolded cls]
  obtain s where s: "object_take b (?s, ?m) = (obj, s)" "G = H\<lparr> hsegment := (hsegment H)(c := s) \<rparr>"
    using t by (auto simp: take_object_def split: prod.splits)
  define m where "m = objectInit obj sz color flags ?m"
  have oi: "ocolor (load_object m obj) = color" "\<And>x. x \<noteq> obj \<Longrightarrow> m x = ?m x"
    unfolding m_def using object_init_ok(1,6) [OF sz(2)] by simp_all
  have u: "used m obj" using col oi(1) by (simp add: used_def)
  have H': "H' = H\<lparr> hsegment := (hsegment H)(c := s), hmem := m \<rparr>" by (simp add: H'_def init_object_def s(2) m_def)
  have T: "seg_ok ?cls ?a m s \<and> obj \<notin> live_slots ?cls ?a ?m ?s \<and> live_slots ?cls ?a m s = insert obj (live_slots ?cls ?a ?m ?s) \<and>
    (\<exists>i. in_use ?s i \<and> page_bin ?cls (page_words ?s i) = b \<and> obj \<in> set (slots ?cls ?a ?s i))"
    by (rule take_ok [OF ok(1) pl so fl s(1) oi(2) u])
  then obtain i where i: "in_use ?s i" "page_bin ?cls (page_words ?s i) = b" "obj \<in> set (slots ?cls ?a ?s i)" by blast
  note W = slots_within [OF ok(1) pl sh i(1,3)] slots_page(3) [OF sh i(1,3)]
  let ?n = "8 * page_words ?s i"
  have same: "in_use s = in_use ?s" "page_words s = page_words ?s" "sweepIndex s = sweepIndex ?s" "slots ?cls ?a s = slots ?cls ?a ?s"
    using s(1) by (auto simp: object_take_def Let_def in_use_def page_words_def slots_def fun_eq_iff)
  have "live_slots ?cls ?a ?m ?s = live_slots ?cls ?a m s - {obj}" using T by auto
  moreover have "seg_shape ?cls s" using T by (simp add: seg_ok_def)
  ultimately have o: "seg_objs ?cls ?a ?m ?s = {e \<in> seg_objs ?cls ?a m s. fst e \<notin> {obj}}"
    using objs_live [of ?cls s ?s ?a ?m m "{obj}"] same by simp
  have "(obj, ?n) \<in> seg_objs ?cls ?a m s" using i(1,3) u unfolding seg_objs_def same by blast
  moreover have "l = ?n" if l: "(obj, l) \<in> seg_objs ?cls ?a m s" for l
  proof -
    obtain j where "in_use ?s j" "obj \<in> set (slots ?cls ?a ?s j)" "l = 8 * page_words ?s j" using l unfolding seg_objs_def same by blast
    then show ?thesis using slots_same_page [OF sh i(1,3), of j] by blast
  qed
  ultimately have objs: "seg_objs ?cls ?a m s = insert (obj, ?n) (seg_objs ?cls ?a ?m ?s)" unfolding o by fastforce
  have out: "m x = ?m x" if "x < ?a \<or> ?a + 8 * segmentWords (class_of H c) \<le> x" for x
  proof (rule oi(2))
    have "?a \<le> obj" "obj < ?a + 8 * segmentWords (class_of H c)" using W unfolding cls by linarith+
    then show "x \<noteq> obj" using that by linarith
  qed
  have i1: "seg_ok (class_of H c) ?a m s" "sweepIndex s = 0" using T z same(3) by (simp_all add: cls)
  have h: "heap_inv lo hi (c # A) S L H'" unfolding H' by (rule change_segment(1) [OF inv i1 out])
  have "heap_objs (c # A) S L H' = seg_objs (class_of H c) ?a m s \<union> heap_objs A S L H"
    unfolding H' by (rule change_segment(2) [OF inv i1 out])
  then have ho: "heap_objs (c # A) S L H' = insert (obj, ?n) (heap_objs (c # A) S L H)" by (simp add: heap_objs_Cons segment_objs_def cls objs)
  have new: "(obj, ?n) \<notin> heap_objs (c # A) S L H"
  proof
    assume "(obj, ?n) \<in> heap_objs (c # A) S L H"
    then consider "(obj, ?n) \<in> seg_objs ?cls ?a ?m ?s" | "(obj, ?n) \<in> heap_objs A S L H" by (auto simp: heap_objs_Cons segment_objs_def cls)
    then show False
    proof cases
      case 1
      then show ?thesis by (simp add: o)
    next
      case 2
      then show ?thesis using others_outside [OF inv 2] W unfolding cls by linarith
    qed
  qed
  have kept: "objects_kept (c # A) S L H H'"
  proof -
    have "m y = ?m y" if x: "(x, n) \<in> heap_objs (c # A) S L H" "x \<le> y" "y < x + n" for x n y
    proof (rule oi(2), rule notI)
      assume "y = obj"
      moreover have "(x, n) \<in> heap_objs (c # A) S L H'" "(obj, ?n) \<in> heap_objs (c # A) S L H'" using x(1) ho by simp_all
      moreover have "(x, n) \<noteq> (obj, ?n)" using x(1) new by blast
      ultimately show False using objs_apart [OF h, of x n obj ?n] x(2,3) W(6) by linarith
    qed
    then show ?thesis by (auto simp: objects_kept_def H')
  qed
  have sk: "size_ok ?cls (page_words ?s i)" using sh i(1) by (simp add: seg_shape_def)
  have "sz < page_words ?s i"
    by (rule bin_words [OF sk _ sz(1,2)]) (use i(2) sz(3) ok(1) in \<open>simp_all add: class_ok_def\<close>)
  moreover have "page_words ?s i \<le> pageWords ?cls" using sk by (simp add: size_ok_def)
  ultimately show ?thesis using h kept ho new W(3) by (auto simp: H')
qed

definition new_header :: "heap \<Rightarrow> nat \<Rightarrow> nat \<Rightarrow> u8 \<Rightarrow> new_flags \<Rightarrow> bool" where
  "new_header H obj sz color flags \<longleftrightarrow>
     (let b = load_object (hmem H) obj
      in ocolor b = color \<and> \<not> olock b \<and> oshared b = new_shared flags \<and> odirty b = (\<not> new_clean flags) \<and> length (payload b) = sz)"

lemma init_object_header: "sz < 2 ^ 32 \<Longrightarrow> new_header (init_object obj sz color flags H) obj sz color flags"
  unfolding new_header_def init_object_def Let_def using object_init_ok(1-5) [of sz obj color flags "hmem H"] by simp

text \<open>A new object at the address \<open>obj\<close>: the invariant is kept, the object has room for its payload, and all that was there is
  still there.\<close>

definition allocated :: "nat list \<Rightarrow> nat list \<Rightarrow> nat list \<Rightarrow> nat \<Rightarrow> nat \<Rightarrow> heap \<Rightarrow> nat list \<Rightarrow> heap \<Rightarrow> bool" where
  "allocated A S L obj sz H A' H' \<longleftrightarrow> objects_kept A S L H H' \<and>
     (\<exists>n. heap_objs A' S L H' = insert (obj, n) (heap_objs A S L H) \<and> (obj, n) \<notin> heap_objs A S L H \<and> 8 * (sz + 1) \<le> n \<and> 8 dvd obj)"

lemma segment_new_ok:
  assumes inv: "heap_inv lo hi (c # A) S L H" and rd: "rt_ready e (hrt H)" and k: "hkind H c = k"
    and sz: "0 < sz" "sz < 2 ^ 32" "sz + 1 \<le> pageWords (hclass H k)" "linear (hclass H k) \<Longrightarrow> sz \<le> bins (hclass H k)"
    and col: "chiColorUsed color"
  shows "case segmentNew e k c sz flags (size_bin (hclass H k) sz) color H of Diverges \<Rightarrow> False | Dies \<Rightarrow> True
    | Returns (p, d, H') \<Rightarrow> 8 \<le> p \<and> heap_inv lo hi (d # A) S L H' \<and> hkind H' d = k \<and> grows H H' \<and>
        allocated (c # A) S L (p - 8) sz H (d # A) H' \<and> new_header H' (p - 8) sz color flags"
proof -
  let ?b = "size_bin (hclass H k) sz"
  have ok: "class_ok (hclass H k)" using inv by (simp add: heap_inv_def)
  note O = object_size_ok [OF ok sz(1,3,4)]
  show ?thesis
  proof (cases "freeObjectList (hsegment H c) ! ?b \<noteq> 0")
    case True
    obtain obj G where t: "take_object c ?b H = (obj, G)" by fastforce
    have b: "?b < bins (hclass H k)" using O by (simp add: size_ok_def)
    note N = take_new_ok [OF inv k b True sz(1,2) refl col t refl, of flags]
    have e: "segmentNew e k c sz flags ?b color H = Returns (obj + 8, c, init_object obj sz color flags G)"
      using True t by (simp add: segmentNew_def CHI_WORDSIZE_def)
    show ?thesis using N k init_object_header [OF sz(2)] unfolding e by (auto simp: allocated_def grows_def)
  next
    case False
    note P = page_alloc_ok [OF inv rd k O]
    show ?thesis
    proof (cases "pageAlloc e k c sz ?b H")
      case (Returns x)
      then obtain d H1 where x: "pageAlloc e k c sz ?b H = Returns (d, H1)" by (cases x) simp
      have P: "heap_inv lo hi (d # A) S L H1" "heap_objs (d # A) S L H1 = heap_objs (c # A) S L H" "hkind H1 d = k"
        "grows H H1" "freeObjectList (hsegment H1 d) ! ?b \<noteq> 0" "objects_kept (c # A) S L H H1"
        using P unfolding x outcome.case prod.case by blast+
      have like: "class_like (hclass H k) (hclass H1 k)" using P(4) by (simp add: grows_def)
      have b: "?b < bins (hclass H1 k)" "?b = size_bin (hclass H1 k) sz" using O like class_like_eq(4) [OF like] by (simp_all add: size_ok_def class_like_def)
      obtain obj G where t: "take_object d ?b H1 = (obj, G)" by fastforce
      define K where "K = init_object obj sz color flags G"
      have N: "heap_inv lo hi (d # A) S L K" "objects_kept (d # A) S L H1 K" "hkind K = hkind H1" "hrt K = hrt H1" "hclass K = hclass H1"
        "\<exists>n. heap_objs (d # A) S L K = insert (obj, n) (heap_objs (d # A) S L H1) \<and> (obj, n) \<notin> heap_objs (d # A) S L H1 \<and>
           8 * (sz + 1) \<le> n \<and> 8 dvd obj \<and> n \<le> 8 * pageWords (hclass H1 k)"
        using take_new_ok [OF P(1,3) b(1) P(5) sz(1,2) b(2) col t K_def] by blast+
      have e: "segmentNew e k c sz flags ?b color H = Returns (obj + 8, d, K)"
        using False x t by (simp add: segmentNew_def segmentAlloc_def CHI_WORDSIZE_def K_def)
      have "grows H1 K" using N by (simp add: grows_def)
      then have "grows H K" using P(4) grows_trans by blast
      moreover have "objects_kept (c # A) S L H K" using objects_kept_trans [OF P(6) N(2)] P(2) by simp
      moreover have "hkind K d = k" using N(3) P(3) by simp
      moreover have "new_header K obj sz color flags" unfolding K_def by (rule init_object_header [OF sz(2)])
      ultimately show ?thesis using N(1,6) unfolding e P(2) by (auto simp: allocated_def)
    qed (use P False in \<open>simp_all add: segmentNew_def segmentAlloc_def\<close>)
  qed
qed

section \<open>Large objects\<close>

lemma large_request:
  assumes "sz < 2 ^ 32"
  shows "request_ok (unat (CHI_ALIGNUP (of_nat (sz + OBJECT_HEADER_SIZE)) (of_nat (CHI_CHUNK_MIN_SIZE div CHI_WORDSIZE))) * CHI_WORDSIZE) 0"
    "sz + 1 \<le> unat (CHI_ALIGNUP (of_nat (sz + OBJECT_HEADER_SIZE)) (of_nat (CHI_CHUNK_MIN_SIZE div CHI_WORDSIZE)))"
proof -
  define q where "q = (sz + 1 + 511) div 512"
  have "q * 512 + (sz + 1 + 511) mod 512 = sz + 1 + 511" unfolding q_def by (rule div_mult_mod_eq)
  moreover have "(sz + 1 + 511) mod 512 < 512" by (rule mod_less_divisor) simp
  ultimately have q: "sz + 1 \<le> q * 512" "q * 512 \<le> sz + 512" by linarith+
  have d: "CHI_CHUNK_MIN_SIZE div CHI_WORDSIZE = 2 ^ 9" by (simp add: CHI_CHUNK_MIN_SIZE_def CHI_WORDSIZE_def)
  have "sz + OBJECT_HEADER_SIZE + 2 ^ 9 < 2 ^ 63" using assms by (simp add: OBJECT_HEADER_SIZE_def)
  from alignup_ceil [OF this]
  have u: "unat (CHI_ALIGNUP (of_nat (sz + OBJECT_HEADER_SIZE)) (of_nat (CHI_CHUNK_MIN_SIZE div CHI_WORDSIZE))) = q * 512"
    unfolding d q_def by (simp add: CHI_CEIL_def CHI_DIV_CEIL_def OBJECT_HEADER_SIZE_def)
  show "sz + 1 \<le> unat (CHI_ALIGNUP (of_nat (sz + OBJECT_HEADER_SIZE)) (of_nat (CHI_CHUNK_MIN_SIZE div CHI_WORDSIZE)))" unfolding u using q by linarith
  have "sz < 4294967296" using assms by simp
  then have q': "1 \<le> q" "q \<le> 16777216" using q by linarith+
  have e: "q * 512 * CHI_WORDSIZE = q * 2 ^ 12" by (simp add: CHI_WORDSIZE_def)
  have "(q * 2 ^ 12) AND (2 ^ 12 - 1) = take_bit 12 (q * 2 ^ 12)" by (simp add: take_bit_eq_mask mask_eq_exp_minus_1)
  also have "\<dots> = 0" by (simp add: take_bit_eq_mod)
  finally have m: "(q * 2 ^ 12) AND (CHI_CHUNK_MIN_SIZE - 1) = 0" by (simp add: CHI_CHUNK_MIN_SIZE_def)
  show "request_ok (unat (CHI_ALIGNUP (of_nat (sz + OBJECT_HEADER_SIZE)) (of_nat (CHI_CHUNK_MIN_SIZE div CHI_WORDSIZE))) * CHI_WORDSIZE) 0"
    unfolding u e request_ok_def chiChunkSizeValid_def chunkAlignValid_def using q q' m by (simp add: CHI_CHUNK_MIN_SIZE_def CHI_CHUNK_MAX_SIZE_def)
qed

lemma heap_objs_frame:
  assumes "heap_inv lo hi A S L H" "rt_ok lo hi rt" "\<And>d. held (hrt H) d \<noteq> None \<Longrightarrow> held rt d = held (hrt H) d"
    and "hclass H' = hclass H" "hsegment H' = hsegment H" "hkind H' = hkind H" "largeList H' = largeList H" "hmem H' = hmem H" "hrt H' = rt"
  shows "heap_inv lo hi A S L H'" "heap_objs A S L H' = heap_objs A S L H"
proof -
  have l: "listed H' = listed H" using assms(4) by (simp add: listed_def)
  have h: "held rt d = held (hrt H) d" if "d \<in> set (A @ S @ listed H @ largeList H @ L)" for d using assms(3) inv_held [OF assms(1) that] by blast
  have s: "\<forall>d \<in> set (A @ S @ listed H). same_segment H H' d" using h assms(4-9) by (auto simp: same_segment_def class_of_def)
  have i: "\<forall>k. \<forall>d \<in> set (cfree (hclass H k) @ cfull (hclass H k)). hkind H d = k" "\<forall>d \<in> set (A @ listed H). sweepIndex (hsegment H d) = 0"
    using assms(1) by (simp_all add: heap_inv_def)
  show "heap_inv lo hi A S L H'" "heap_objs A S L H' = heap_objs A S L H"
    by (rule heap_same [OF assms(1)]; use assms(2,4-9) s l h i in simp)+
qed

text \<open>A chunk joins the large objects, and its header is written.\<close>

lemma join_large:
  assumes inv: "heap_inv lo hi A S L H" and c: "c \<notin> set (A @ S @ listed H @ largeList H @ L)" "held (hrt H) c = Some (a, n)" "1 \<le> n"
    and H': "H' = H\<lparr> hmem := m, largeTotalWords := t, largeList := largeList H @ [c], largeLimitAlloc := la \<rparr>"
    and m: "\<And>x. x \<noteq> a \<Longrightarrow> m x = hmem H x"
  shows "heap_inv lo hi A S L H'" "heap_objs A S L H' = insert (a, n) (heap_objs A S L H)" "(a, n) \<notin> heap_objs A S L H" "objects_kept A S L H H'"
proof -
  have ok: "rt_inv lo hi (hrt H)" "rt_ok lo hi (hrt H)" "\<And>d. class_ok (class_of H d)" using inv by (simp_all add: heap_inv_def rt_ok_def class_of_def)
  have out: "x + l \<le> a \<or> a + n \<le> x" if o: "(x, l) \<in> heap_objs A S L H" for x l
  proof -
    obtain d b j where d: "held (hrt H) d = Some (b, j)" "b \<le> x" "x + l \<le> b + j" "d \<in> set (A @ S @ listed H) \<or> d \<in> set (largeList H @ L)"
      using obj_chunk [OF inv o] by metis
    then have "d \<noteq> c" using c(1) by auto
    then have "a + n \<le> b \<or> b + j \<le> a" using held_apart [OF ok(1) c(2)] d(1) by blast
    then show ?thesis using d(2,3) by linarith
  qed
  have pos: "0 < l" if "(x, l) \<in> heap_objs A S L H" for x l using obj_chunk [OF inv that] by metis
  show "(a, n) \<notin> heap_objs A S L H" using out [of a n] pos [of a n] by fastforce
  have "m y = hmem H y" if "(x, l) \<in> heap_objs A S L H" "x \<le> y" "y < x + l" for x l y
  proof (rule m, rule notI)
    assume "y = a"
    then show False using out [OF that(1)] that(2,3) c(3) by linarith
  qed
  then show "objects_kept A S L H H'" by (auto simp: objects_kept_def H')
  have e: "hclass H' = hclass H" "hrt H' = hrt H" "hsegment H' = hsegment H" "hkind H' = hkind H" "listed H' = listed H" "hmem H' = m"
    "largeList H' = largeList H @ [c]" "seg_start H' = seg_start H" "class_of H' = class_of H" "large_obj H' = large_obj H"
    by (simp_all add: H' listed_def seg_start_def class_of_def large_obj_def fun_eq_iff)
  have same: "same_segment H H' d" if d: "d \<in> set (A @ S @ listed H)" for d
  proof -
    have "held (hrt H) d = Some (seg_start H d, 8 * segmentWords (class_of H d))" using inv_segment [OF inv d] by (simp add: segment_ok_def)
    moreover have "d \<noteq> c" using c(1) d by auto
    ultimately have "a + n \<le> seg_start H d \<or> seg_start H d + 8 * segmentWords (class_of H d) \<le> a" using held_apart [OF ok(1) c(2)] by blast
    then have "m x = hmem H x" if "seg_start H d \<le> x" "x < seg_start H d + 8 * segmentWords (class_of H d)" for x
      using m [of x] that c(3) by fastforce
    then show ?thesis by (simp add: same_segment_def e)
  qed
  note F = same_segment_ok [OF same inv_segment [OF inv] ok(3,2)]
  have "\<forall>d \<in> set (A @ S @ listed H). segment_ok H' d" using F(1) by blast
  then show "heap_inv lo hi A S L H'" using inv c(1,2) unfolding heap_inv_def e by simp
  have "(\<Union>d \<in> set (A @ S @ listed H). segment_objs H' d) = (\<Union>d \<in> set (A @ S @ listed H). segment_objs H d)" using F(2) by simp
  moreover have "large_obj H c = (a, n)" using held_chunk [OF c(2)] by (simp add: large_obj_def)
  ultimately show "heap_objs A S L H' = insert (a, n) (heap_objs A S L H)" unfolding heap_objs_def e by auto
qed

lemma large_new_ok:
  assumes inv: "heap_inv lo hi A S L H" and rd: "rt_ready e (hrt H)" and sz: "sz < 2 ^ 32"
  shows "case largeNew e sz flags color H of Diverges \<Rightarrow> False | Dies \<Rightarrow> \<not> new_try flags
    | Returns (None, H') \<Rightarrow> new_try flags \<and> heap_inv lo hi A S L H' \<and> heap_objs A S L H' = heap_objs A S L H \<and> hmem H' = hmem H \<and> grows H H'
    | Returns (Some p, H') \<Rightarrow> 8 \<le> p \<and> heap_inv lo hi A S L H' \<and> grows H H' \<and> allocated A S L (p - 8) sz H A H' \<and> new_header H' (p - 8) sz color flags"
proof -
  have ok: "rt_ok lo hi (hrt H)" using inv by (simp add: heap_inv_def)
  define w where "w = unat (CHI_ALIGNUP (of_nat (sz + OBJECT_HEADER_SIZE)) (of_nat (CHI_CHUNK_MIN_SIZE div CHI_WORDSIZE)))"
  note R = large_request [OF sz, folded w_def]
  note N = heap_chunk_new [OF ok R(1) rd, of "new_try flags"]
  show ?thesis
  proof (cases "chiHeapChunkNew e (w * CHI_WORDSIZE) (new_try flags) (hrt H)")
    case (Returns x)
    obtain r rt where x: "x = (r, rt)" by fastforce
    show ?thesis
    proof (cases r)
      case None
      have n: "new_try flags" "rt_ok lo hi rt" "held rt = held (hrt H)" using N unfolding Returns x None by auto
      have e: "largeNew e sz flags color H = Returns (None, H\<lparr> hrt := rt \<rparr>)" unfolding largeNew_def Let_def w_def [symmetric] Returns x None by simp
      have "heap_inv lo hi A S L (H\<lparr> hrt := rt \<rparr>)" "heap_objs A S L (H\<lparr> hrt := rt \<rparr>) = heap_objs A S L H"
        by (rule heap_objs_frame [OF inv n(2)]; use n(3) in simp)+
      then show ?thesis using n unfolding e by (simp add: grows_def)
    next
      case (Some c)
      obtain a where a: "rt_ok lo hi rt" "held (hrt H) c = None" "held rt = (held (hrt H))(c \<mapsto> (a, w * CHI_WORDSIZE))"
        using N unfolding Returns x Some by auto
      define G where "G = H\<lparr> hrt := rt \<rparr>"
      have h: "held rt d = held (hrt H) d" if "held (hrt H) d \<noteq> None" for d using a(2,3) that by auto
      have G: "heap_inv lo hi A S L G" "heap_objs A S L G = heap_objs A S L H"
        by (rule heap_objs_frame [OF inv a(1)]; use h in \<open>simp add: G_def\<close>)+
      have "c \<notin> set (A @ S @ listed H @ largeList H @ L)" using inv_held [OF inv] a(2) by blast
      then have c: "c \<notin> set (A @ S @ listed G @ largeList G @ L)" by (simp add: G_def listed_def)
      have hc: "held (hrt G) c = Some (a, w * CHI_WORDSIZE)" using a(3) by (simp add: G_def)
      have st: "chunk_start rt c = a" using held_chunk [of rt c] a(3) by simp
      have n1: "1 \<le> w * CHI_WORDSIZE" using R(2) by (simp add: CHI_WORDSIZE_def)
      define m where "m = objectInit a sz color flags (hmem H)"
      define K where "K = G\<lparr> hmem := m, largeTotalWords := largeTotalWords G + w, largeList := largeList G @ [c],
        largeLimitAlloc := largeLimitAlloc G - min w (largeLimitAlloc G) \<rparr>"
      have mo: "m x = hmem G x" if "x \<noteq> a" for x using object_init_ok(6) [OF sz that] by (simp add: m_def G_def)
      note J = join_large [OF G(1) c hc n1 K_def mo]
      have e: "largeNew e sz flags color H = Returns (Some (a + 8), limit_reached (largeLimitAlloc K = 0) K)"
        unfolding largeNew_def Let_def w_def [symmetric] Returns x Some by (simp add: st init_object_def K_def G_def m_def CHI_WORDSIZE_def)
      have "grows H K" using h by (simp add: grows_def K_def G_def)
      then have gr: "grows H (limit_reached b K)" for b by (simp add: grows_def)
      have "new_header K a sz color flags"
        using init_object_header [OF sz, of a color flags H] by (simp add: new_header_def init_object_def K_def m_def)
      then have nh: "new_header (limit_reached b K) a sz color flags" for b by (simp add: new_header_def)
      have kept: "objects_kept A S L H (limit_reached b K)" for b using J(4) G(2) by (simp add: objects_kept_def G_def)
      have "CHI_CHUNK_MIN_SIZE dvd a" using held_dvd(1) [OF a(1), of c] a(3) by simp
      moreover have "(8 :: nat) dvd CHI_CHUNK_MIN_SIZE" by (simp add: CHI_CHUNK_MIN_SIZE_def)
      ultimately have "8 dvd a" using dvd_trans by blast
      then have "allocated A S L a sz H A (limit_reached b K)" for b
        unfolding allocated_def using kept J(2,3) G(2) R(2) by (auto simp: CHI_WORDSIZE_def)
      then show ?thesis using J(1) gr nh unfolding e by simp
    qed
  next
    case Dies
    then show ?thesis using N unfolding largeNew_def Let_def w_def [symmetric] Dies by simp
  next
    case Diverges
    then show ?thesis using N unfolding Diverges by simp
  qed
qed

section \<open>Allocation through a handle\<close>

definition handle_segs :: "heap_handle \<Rightarrow> nat list" where
  "handle_segs ha = [the (hsegments ha Small), the (hsegments ha Medium)]"

definition handle_ok :: "heap_handle \<Rightarrow> heap \<Rightarrow> bool" where
  "handle_ok ha H \<longleftrightarrow> (\<forall>k. hsegments ha k \<noteq> None \<and> hkind H (the (hsegments ha k)) = k) \<and> chiColorUsed (hcolor ha)"

lemma heap_permute:
  assumes "heap_inv lo hi A S L H" "mset A' = mset A"
  shows "heap_inv lo hi A' S L H" "heap_objs A' S L H = heap_objs A S L H"
proof -
  have s: "set A' = set A" using assms(2) by (metis set_mset_mset)
  have "distinct A' = distinct A" using assms(2) by (rule mset_eq_imp_distinct_iff)
  then show "heap_inv lo hi A' S L H" using assms(1) unfolding heap_inv_def by (simp add: s)
  show "heap_objs A' S L H = heap_objs A S L H" by (simp add: heap_objs_def s)
qed

lemma handle_new_ok:
  assumes inv: "heap_inv lo hi (handle_segs ha @ A) S L H" and ha: "handle_ok ha H" and rd: "rt_ready e (hrt H)"
    and sz: "0 < sz" "sz < 2 ^ 32" "sz + 1 \<le> pageWords (hclass H k)" "linear (hclass H k) \<Longrightarrow> sz \<le> bins (hclass H k)"
  shows "case handle_new e k ha sz flags (size_bin (hclass H k) sz) H of Diverges \<Rightarrow> False | Dies \<Rightarrow> True
    | Returns (None, ha', H') \<Rightarrow> False
    | Returns (Some p, ha', H') \<Rightarrow> 8 \<le> p \<and> heap_inv lo hi (handle_segs ha' @ A) S L H' \<and> handle_ok ha' H' \<and> hcolor ha' = hcolor ha \<and>
        allocated (handle_segs ha @ A) S L (p - 8) sz H (handle_segs ha' @ A) H' \<and> new_header H' (p - 8) sz (hcolor ha) flags"
proof -
  define c where "c = the (hsegments ha k)"
  define r where "r = the (hsegments ha (case k of Small \<Rightarrow> Medium | Medium \<Rightarrow> Small))"
  have m: "mset (c # r # A) = mset (handle_segs ha @ A)" by (cases k) (simp_all add: c_def r_def handle_segs_def)
  note I = heap_permute [OF inv m]
  have k: "hkind H c = k" and col: "chiColorUsed (hcolor ha)" using ha by (simp_all add: handle_ok_def c_def)
  note N = segment_new_ok [OF I(1) rd k sz col, of flags]
  show ?thesis
  proof (cases "segmentNew e k c sz flags (size_bin (hclass H k) sz) (hcolor ha) H")
    case (Returns x)
    then obtain p d H' where x: "segmentNew e k c sz flags (size_bin (hclass H k) sz) (hcolor ha) H = Returns (p, d, H')" by (cases x) simp
    define ha' where "ha' = ha\<lparr> hsegments := (hsegments ha)(k := Some d) \<rparr>"
    have N: "8 \<le> p" "heap_inv lo hi (d # r # A) S L H'" "hkind H' d = k" "grows H H'"
      "allocated (c # r # A) S L (p - 8) sz H (d # r # A) H'" "new_header H' (p - 8) sz (hcolor ha) flags"
      using N unfolding x outcome.case prod.case by blast+
    have m': "mset (handle_segs ha' @ A) = mset (d # r # A)" by (cases k) (simp_all add: ha'_def r_def handle_segs_def)
    note J = heap_permute [OF N(2) m']
    have "held (hrt H) (the (hsegments ha j)) \<noteq> None" for j
      by (rule inv_held [OF inv]) (cases j, simp_all add: handle_segs_def)
    then have kk: "hkind H' (the (hsegments ha j)) = j" for j using N(4) ha by (simp add: grows_def handle_ok_def)
    have "handle_ok ha' H'" using ha kk N(3) by (simp add: handle_ok_def ha'_def)
    moreover have "allocated (handle_segs ha @ A) S L (p - 8) sz H (handle_segs ha' @ A) H'"
      using N(5) unfolding allocated_def objects_kept_def I(2) J(2) by simp
    moreover have "handle_new e k ha sz flags (size_bin (hclass H k) sz) H = Returns (Some p, ha', H')"
      by (simp add: handle_new_def c_def [symmetric] x ha'_def)
    ultimately show ?thesis using N(1,6) J(1) by (simp add: ha'_def)
  qed (use N in \<open>simp_all add: handle_new_def flip: c_def\<close>)
qed

lemma allocated_apart:
  assumes "heap_inv lo hi A' S L H'" "allocated A S L obj sz H A' H'"
  shows "\<forall>(x, n) \<in> heap_objs A S L H. x + n \<le> obj \<or> obj + 8 * (sz + 1) \<le> x"
proof -
  obtain l where l: "heap_objs A' S L H' = insert (obj, l) (heap_objs A S L H)" "(obj, l) \<notin> heap_objs A S L H" "8 * (sz + 1) \<le> l"
    using assms(2) by (auto simp: allocated_def)
  have "x + n \<le> obj \<or> obj + 8 * (sz + 1) \<le> x" if o: "(x, n) \<in> heap_objs A S L H" for x n
  proof -
    have "(x, n) \<in> heap_objs A' S L H'" "(obj, l) \<in> heap_objs A' S L H'" "(x, n) \<noteq> (obj, l)" using l o by auto
    from objs_apart [OF assms(1) this] show ?thesis using l(3) by linarith
  qed
  then show ?thesis by blast
qed

text \<open>What a caller sees of a new object with payload at \<open>p\<close>.\<close>

definition new_object :: "nat list \<Rightarrow> nat list \<Rightarrow> nat list \<Rightarrow> heap \<Rightarrow> nat list \<Rightarrow> heap \<Rightarrow> nat \<Rightarrow> nat \<Rightarrow> u8 \<Rightarrow> new_flags \<Rightarrow> bool" where
  "new_object A S L H A' H' p sz color flags \<longleftrightarrow> 8 \<le> p \<and> 8 dvd p - 8 \<and>
     (\<exists>n \<ge> 8 * (sz + 1). heap_objs A' S L H' = insert (p - 8, n) (heap_objs A S L H)) \<and>
     (\<forall>(x, n) \<in> heap_objs A S L H.
        (x + n \<le> p - 8 \<or> p - 8 + 8 * (sz + 1) \<le> x) \<and> (\<forall>y. x \<le> y \<and> y < x + n \<longrightarrow> hmem H' y = hmem H y)) \<and>
     new_header H' (p - 8) sz color flags"

lemma new_object_at:
  assumes "8 \<le> p" "heap_inv lo hi A' S L H'" "allocated A S L (p - 8) sz H A' H'" "new_header H' (p - 8) sz color flags"
  shows "new_object A S L H A' H' p sz color flags"
  using assms allocated_apart [OF assms(2,3)] unfolding new_object_def allocated_def objects_kept_def by blast

text \<open>C6: Allocation on the major heap. It never hangs; only a request that may fail returns without an object, and then nothing has
  changed, and only a request that may not fail (or one for a small or medium object) ends the process. Otherwise the new
  object has a word for its header and room for its payload, is aligned, lies apart from every object of the heap, whose
  contents stay the same, and its header has the size, the color and the flags asked for. The invariant of the heap is kept and the
  heap has exactly one object more.\<close>

theorem heap_allocates:
  assumes "heap_inv lo hi (handle_segs ha @ A) S L H" "handle_ok ha H" "rt_ready e (hrt H)" "0 < sz" "sz < 2 ^ 32"
  shows "(case chiHeapHandleNew e ha sz flags H of
      Diverges \<Rightarrow> False
    | Dies \<Rightarrow> \<not> (new_try flags \<and> SMALL_BINS < sz \<and> pageWords (hclass H Medium) \<le> sz)
    | Returns (None, ha', H') \<Rightarrow> new_try flags \<and> ha' = ha \<and> heap_inv lo hi (handle_segs ha @ A) S L H' \<and>
        heap_objs (handle_segs ha @ A) S L H' = heap_objs (handle_segs ha @ A) S L H \<and> hmem H' = hmem H
    | Returns (Some p, ha', H') \<Rightarrow> heap_inv lo hi (handle_segs ha' @ A) S L H' \<and> handle_ok ha' H' \<and>
        new_object (handle_segs ha @ A) S L H (handle_segs ha' @ A) H' p sz (hcolor ha) flags) \<and>
    (sz \<le> SMALL_BINS \<longrightarrow> chiHeapHandleNewSmall e ha sz flags H = chiHeapHandleNew e ha sz flags H)"
proof -
  let ?A = "handle_segs ha @ A"
  have cls: "class_ok (hclass H k)" "linear (hclass H k) = (k = Small)" for k using assms(1) by (simp_all add: heap_inv_def)
  have bn: "bins (hclass H Small) = SMALL_BINS" using assms(1) by (simp add: heap_inv_def)
  consider "sz \<le> SMALL_BINS" | "SMALL_BINS < sz" "sz < pageWords (hclass H Medium)" | "SMALL_BINS < sz" "pageWords (hclass H Medium) \<le> sz" by linarith
  then show ?thesis
  proof cases
    case 1
    have s: "sz + 1 \<le> pageWords (hclass H Small)" "sz \<le> bins (hclass H Small)" using cls(1) [of Small] cls(2) [of Small] bn 1 by (simp_all add: class_ok_def)
    have e: "size_bin (hclass H Small) sz = sz - 1" using cls(2) [of Small] by (simp add: size_bin_def)
    note N = handle_new_ok [OF assms s, of flags, unfolded e]
    show ?thesis using N 1
      by (cases "handle_new e Small ha sz flags (sz - 1) H")
        (auto simp: chiHeapHandleNew_def chiHeapHandleNewSmall_def new_object_at split: option.splits)
  next
    case 2
    have e: "size_bin (hclass H Medium) sz = chiLog2Floor (of_nat sz)" using cls(2) [of Medium] by (simp add: size_bin_def)
    have "sz + 1 \<le> pageWords (hclass H Medium)" using 2 by simp
    note handle_new_ok [OF assms this, of flags, unfolded e]
    note N = this [unfolded cls(2) [of Medium], simplified]
    show ?thesis using N 2
      by (cases "handle_new e Medium ha sz flags (chiLog2Floor (of_nat sz)) H") (auto simp: chiHeapHandleNew_def new_object_at split: option.splits)
  next
    case 3
    note N = large_new_ok [OF assms(1,3,5), of flags "hcolor ha"]
    have e: "chiHeapHandleNew e ha sz flags H = (case largeNew e sz flags (hcolor ha) H of
        Returns (p, H) \<Rightarrow> Returns (p, ha, H) | Dies \<Rightarrow> Dies | Diverges \<Rightarrow> Diverges)" using 3 by (simp add: chiHeapHandleNew_def)
    show ?thesis
    proof (cases "largeNew e sz flags (hcolor ha) H")
      case (Returns x)
      obtain q H' where x: "x = (q, H')" by fastforce
      have hk: "handle_ok ha H'" if "grows H H'"
      proof -
        have "held (hrt H) (the (hsegments ha j)) \<noteq> None" for j by (rule inv_held [OF assms(1)]) (cases j, simp_all add: handle_segs_def)
        then show ?thesis using assms(2) that by (simp add: handle_ok_def grows_def)
      qed
      show ?thesis
      proof (cases q)
        case None
        then show ?thesis using N 3 unfolding e Returns x by simp
      next
        case (Some p)
        have R: "8 \<le> p" "heap_inv lo hi ?A S L H'" "grows H H'" "allocated ?A S L (p - 8) sz H ?A H'" "new_header H' (p - 8) sz (hcolor ha) flags"
          using N unfolding Returns x Some outcome.case prod.case option.case by blast+
        show ?thesis using R hk new_object_at [OF R(1,2,4,5)] 3 unfolding e Returns x Some by simp
      qed
    qed (use N 3 e in simp_all)
  qed
qed

text \<open>C9: The room of an object: the size classes of the heap give every object its header and its payload, a small object
  exactly that and a medium one at most twice its payload, an object fits in a page, and the bin of its page is the bin in which
  it is looked for.\<close>

theorem object_room:
  assumes "class_ok cls" "0 < sz" "sz + 1 \<le> pageWords cls" "linear cls \<longrightarrow> sz \<le> bins cls"
  shows "sz < unat (object_size cls sz) \<and> unat (object_size cls sz) \<le> pageWords cls \<and>
    unat (object_size cls sz) \<le> (if linear cls then sz + 1 else 2 * sz) \<and>
    page_bin cls (unat (object_size cls sz)) = size_bin cls sz \<and> size_bin cls sz < bins cls"
proof -
  let ?w = "unat (object_size cls sz)"
  have pw: "pageWords cls < 2 ^ 31" using assms(1) by (simp add: class_ok_def)
  have O: "size_ok cls ?w" "page_bin cls ?w = size_bin cls sz" using object_size_ok [OF assms(1-3)] assms(4) by simp_all
  have r: "sz < ?w" by (rule bin_words [OF O assms(2) _ pw]) (use assms(3) pw in simp)
  have "?w \<le> (if linear cls then sz + 1 else 2 * sz)"
  proof (cases "linear cls")
    case True
    have "?w - 1 - 1 = sz - 1" "1 < ?w" using O True by (simp_all add: page_bin_def size_bin_def size_ok_def OBJECT_HEADER_SIZE_def)
    then show ?thesis using True assms(2) by simp
  next
    case False
    obtain j where j: "?w = 2 ^ j" "1 < ?w" using O(1) False by (auto simp: size_ok_def)
    then obtain k where k: "j = Suc k" by (cases j) auto
    have "chiLog2Floor (of_nat (?w - 1)) = k" 
    proof (rule log2_floor_eq)
      have "?w < 2 ^ 64" using pw O(1) unfolding size_ok_def by simp
      then show "?w - 1 < 2 ^ 64" by simp
    qed (use j k in simp_all)
    moreover obtain i where i: "2 ^ i \<le> sz" "sz < 2 ^ Suc i" using size_split [OF assms(2)] by blast
    then have "chiLog2Floor (of_nat sz) = i" by (rule log2_floor_eq) (use assms(3) pw in simp)
    ultimately have "k = i" using O(2) False by (simp add: page_bin_def size_bin_def OBJECT_HEADER_SIZE_def)
    then show ?thesis using False i(1) j(1) k by simp
  qed
  then show ?thesis using O r by (simp add: size_ok_def)
qed

section \<open>An example\<close>

definition ex_chunks :: unmap_alloc where
  "ex_chunks = uaSetup ((vaSetup 7 (2 ^ 37) (2 ^ 16) False)\<lparr> sizeList := (\<lambda>_. []), addrList := [7, 4096],
     chunks := (\<lambda>c. if c = 7 then \<lparr> cstart = 2 ^ 37, csize = 2 ^ 16, cused = True, ctimeout = 0 \<rparr>
       else \<lparr> cstart = 2 ^ 37 + 2 ^ 16, csize = 2 ^ 16, cused = True, ctimeout = 0 \<rparr>) \<rparr>) 1000"

lemma ex_chunks_ok: "ua_inv (2 ^ 37) (2 ^ 37 + 2 ^ 17) ex_chunks" "ua_held ex_chunks = [7 \<mapsto> (2 ^ 37, 2 ^ 16), 4096 \<mapsto> (2 ^ 37 + 2 ^ 16, 2 ^ 16)]"
  "region_ok (uva ex_chunks) (Some (2 ^ 20))"
  using pool_init_ok [of sizeof_ChiChunk]
  by (auto simp: ex_chunks_def uaSetup_def vaSetup_def vaSetupArena_def chunkInit_def upd_def Let_def va_inv_def va_wf_def
      arena_ok_def sizes_ok_def handles_ok_def live_def sizeof_ChiChunk_def chiPoolInit_def pool_outside_def ua_inv_def apart_def
      ua_held_def fun_eq_iff CHI_CHUNK_MIN_SIZE_def CHI_CHUNK_MAX_SIZE_def region_ok_def)

definition ex_heap :: heap where
  "ex_heap = (chiHeapSetup 65536 4096 65536 8192 50 (2 ^ 20) (\<lambda>_. 0)
     (rt_example\<lparr> chunkAlloc := ex_chunks, heapTotalSize := 2 ^ 17 \<rparr>))\<lparr>
       hkind := (\<lambda>c. if c = 7 then Small else Medium),
       hsegment := (\<lambda>c. if c = 7 then new_segment (classSetup 65536 4096 50 (2 ^ 20) SMALL_BINS True)
         else new_segment (classSetup 65536 8192 50 (2 ^ 20) (chiLog2Floor (of_nat (8192 - OBJECT_HEADER_SIZE))) False)) \<rparr>"

definition ex_handle :: heap_handle where
  "ex_handle = \<lparr> hsegments = (\<lambda>k. Some (case k of Small \<Rightarrow> 7 | Medium \<Rightarrow> 4096)), hcolor = 5 \<rparr>"

definition ex_new :: new_flags where "ex_new = \<lparr> new_clean = True, new_shared = False, new_try = False \<rparr>"

lemma ex_log: "chiLog2Floor 8191 = 12"
  using log2_floor_eq [of 12 8191] by simp

lemma ex_heap_simps: "hclass ex_heap Small = classSetup 65536 4096 50 (2 ^ 20) SMALL_BINS True" "hkind ex_heap 7 = Small" "hkind ex_heap 4096 = Medium"
  "hclass ex_heap Medium = classSetup 65536 8192 50 (2 ^ 20) 12 False" "hsegment ex_heap 7 = new_segment (hclass ex_heap Small)"
  "hsegment ex_heap 4096 = new_segment (hclass ex_heap Medium)" "listed ex_heap = []" "largeList ex_heap = []" "hmem ex_heap = (\<lambda>_. 0)"
  "hrt ex_heap = rt_example\<lparr> chunkAlloc := ex_chunks, heapTotalSize := 2 ^ 17 \<rparr>"
  by (simp_all add: ex_heap_def chiHeapSetup_def listed_def OBJECT_HEADER_SIZE_def ex_log) (simp_all add: classSetup_def)

lemma ex_held: "held (hrt ex_heap) = [7 \<mapsto> (2 ^ 37, 2 ^ 16), 4096 \<mapsto> (2 ^ 37 + 2 ^ 16, 2 ^ 16)]"
  by (simp add: ex_heap_simps ex_chunks_ok(2))

lemma ex_heap_ok: "heap_inv (2 ^ 37) (2 ^ 37 + 2 ^ 17) (handle_segs ex_handle @ []) [] [] ex_heap" "handle_ok ex_handle ex_heap"
  "rt_ready (e, Some (2 ^ 20)) (hrt ex_heap)" "heap_objs (handle_segs ex_handle @ []) [] [] ex_heap = {}"
proof -
  have tot: "held_total [7 \<mapsto> (2 ^ 37, 2 ^ 16), 4096 \<mapsto> (2 ^ 37 + 2 ^ 16, 2 ^ 16)] = 2 ^ 17" by (simp add: held_total_def)
  have rt: "rt_ok (2 ^ 37) (2 ^ 37 + 2 ^ 17) (hrt ex_heap)"
    using ex_chunks_ok(1) tot by (simp add: rt_ok_def rt_inv_def ex_heap_simps ex_chunks_ok(2))
  have cls: "class_ok (hclass ex_heap k)" for k
    by (cases k) (auto simp: ex_heap_simps class_ok_def classSetup_def CHI_WORDSIZE_def SMALL_BINS_def CHI_MAX_UNPINNED_def intro!: exI [of _ 10])
  have rq: "request_ok (segmentWords (hclass ex_heap k) * CHI_WORDSIZE) 0 \<and> linear (hclass ex_heap k) = (k = Small)" for k
    by (cases k) (simp_all add: ex_heap_simps classSetup_def CHI_WORDSIZE_def request_ok_def chiChunkSizeValid_def chunkAlignValid_def
        CHI_CHUNK_MIN_SIZE_def CHI_CHUNK_MAX_SIZE_def)
  have st: "seg_start ex_heap 7 = 2 ^ 37" "seg_start ex_heap 4096 = 2 ^ 37 + 2 ^ 16"
    using held_chunk [of "hrt ex_heap" 7] held_chunk [of "hrt ex_heap" 4096] by (simp_all add: ex_held seg_start_def)
  have s7: "segment_ok ex_heap 7" "segment_objs ex_heap 7 = {}" and s8: "segment_ok ex_heap 4096" "segment_objs ex_heap 4096 = {}"
    using fresh_segment_ok [OF cls] by (simp_all add: segment_ok_def segment_objs_def ex_held st class_of_def ex_heap_simps(2,3,5,6))
      (simp_all add: ex_heap_simps classSetup_def CHI_WORDSIZE_def)
  have l: "cfree (hclass ex_heap k) = []" "cfull (hclass ex_heap k) = []" for k by (cases k; simp add: ex_heap_simps classSetup_def)+
  show "heap_inv (2 ^ 37) (2 ^ 37 + 2 ^ 17) (handle_segs ex_handle @ []) [] [] ex_heap"
    unfolding heap_inv_def using rt cls rq s7 s8 l
    by (simp add: handle_segs_def ex_handle_def ex_heap_simps(7,8) ex_heap_simps(5,6) new_segment_def) (simp add: ex_heap_simps classSetup_def)
  show "handle_ok ex_handle ex_heap" by (simp add: handle_ok_def ex_handle_def ex_heap_simps chiColorUsed_def CHI_COLOR_USED_def split: heap_kind.splits)
  show "rt_ready (e, Some (2 ^ 20)) (hrt ex_heap)" using ex_chunks_ok(3) by (simp add: rt_ready_def ex_heap_simps)
  show "heap_objs (handle_segs ex_handle @ []) [] [] ex_heap = {}"
    using s7 s8 by (simp add: heap_objs_def handle_segs_def ex_handle_def ex_heap_simps)
qed

lemma ex_new_returns: "\<exists>p ha' H'. chiHeapHandleNew e ex_handle 3 ex_new ex_heap = Returns (Some p, ha', H')"
proof -
  have "pageFindFree (length (cfree (hclass ex_heap Small)) + 2) e Small 7 ex_heap =
      Returns (0, 7, ex_heap\<lparr> hsegment := (hsegment ex_heap)(7 := (hsegment ex_heap 7)\<lparr> endIndex := 1 \<rparr>) \<rparr>)"
    by (simp add: page_take_def ex_heap_simps(1,5) new_segment_def classSetup_def CHI_WORDSIZE_def)
  then have "\<exists>c H'. pageAlloc e Small 7 3 2 ex_heap = Returns (c, H')" unfolding pageAlloc_def by (simp split: prod.split)
  then have "\<exists>p c H'. segmentNew e Small 7 3 ex_new 2 5 ex_heap = Returns (p, c, H')"
    by (auto simp: segmentNew_def segmentAlloc_def split: prod.split)
  then show ?thesis by (auto simp: chiHeapHandleNew_def handle_new_def ex_handle_def SMALL_BINS_def CHI_MAX_UNPINNED_def)
qed

theorem heap_allocates_witness:
  "\<exists>p ha' H'. chiHeapHandleNew (\<lambda>_ _ _. True, Some (2 ^ 20)) ex_handle 3 ex_new ex_heap = Returns (Some p, ha', H') \<and>
     new_header H' (p - 8) 3 5 ex_new"
proof -
  obtain p ha' H' where r: "chiHeapHandleNew (\<lambda>_ _ _. True, Some (2 ^ 20)) ex_handle 3 ex_new ex_heap = Returns (Some p, ha', H')"
    using ex_new_returns by blast
  have "(0 :: nat) < 3" "(3 :: nat) < 2 ^ 32" by simp_all
  from heap_allocates [OF ex_heap_ok(1,2,3) this, of ex_new "\<lambda>_ _ _. True"]
  show ?thesis unfolding r by (simp add: new_object_def ex_handle_def)
qed

theorem object_room_witness: "(100 :: nat) < unat (object_size (hclass ex_heap Medium) 100) \<and> unat (object_size (hclass ex_heap Medium) 100) \<le> 200"
proof -
  have "class_ok (hclass ex_heap Medium)" using ex_heap_ok(1) by (simp add: heap_inv_def)
  moreover have "\<not> linear (hclass ex_heap Medium)" "(100 :: nat) + 1 \<le> pageWords (hclass ex_heap Medium)"
    by (simp_all add: ex_heap_simps classSetup_def CHI_WORDSIZE_def)
  ultimately show ?thesis using object_room [of "hclass ex_heap Medium" 100] by simp
qed

end
