(* ===== verification/HeapSweep.thy ===== *)
theory HeapSweep
  imports HeapOk
begin

text \<open>
  What the sweeper does to the major heap (\<^verbatim>\<open>src/native/sweep.c\<close>): a slice frees only objects that are garbage for its mark
  state, leaves all others and their contents alone, keeps the invariant of the heap, and when its timer does not stop it, nothing that
  was handed to it is left. The sweeper owns the segments and large objects in its lists.
\<close>

section \<open>Garbage in a segment\<close>

definition page_garbage :: "ChiMarkState \<Rightarrow> heap \<Rightarrow> nat \<Rightarrow> nat \<Rightarrow> nat set" where
  "page_garbage ms H c k = {x. \<exists>i < k. in_use (hsegment H c) i \<and> x \<in> set (slots (class_of H c) (seg_start H c) (hsegment H c) i) \<and>
     garbage ms (hmem H) x}"

definition large_garbage :: "ChiMarkState \<Rightarrow> heap \<Rightarrow> nat \<Rightarrow> nat set" where
  "large_garbage ms H c = {x. x = seg_start H c \<and> garbage ms (hmem H) x}"

text \<open>What is left to free: pages of a segment in work that are not swept, all pages of a segment that is not, and the large
  objects.\<close>

definition unswept_garbage :: "ChiMarkState \<Rightarrow> nat list \<Rightarrow> nat list \<Rightarrow> nat list \<Rightarrow> heap \<Rightarrow> nat set" where
  "unswept_garbage ms P U L H =
     (\<Union>c \<in> set P. page_garbage ms H c (sweepIndex (hsegment H c))) \<union> (\<Union>c \<in> set U. page_garbage ms H c (endIndex (hsegment H c))) \<union>
     (\<Union>c \<in> set L. large_garbage ms H c)"

lemma page_garbage_same:
  assumes "same_segment H H' c" "segment_ok H c" "class_ok (class_of H c)" "rt_ok lo hi (hrt H)"
  shows "page_garbage ms H' c k = page_garbage ms H c k"
proof -
  have e: "hsegment H' c = hsegment H c" "class_like (class_of H c) (class_of H' c)" using assms(1) by (simp_all add: same_segment_def)
  have st: "seg_start H' c = seg_start H c" using same_segment_ok(3) [OF assms] .
  have sh: "seg_shape (class_of H c) (hsegment H c)" using assms(2) by (simp add: segment_ok_def seg_ok_def)
  have "garbage ms (hmem H') x = garbage ms (hmem H) x"
    if i: "in_use (hsegment H c) i" "x \<in> set (slots (class_of H c) (seg_start H c) (hsegment H c) i)" for i x
  proof (rule used_other(3))
    note slots_within [OF assms(3) segment_place [OF assms(4,2)] sh i] slots_page(3) [OF sh i]
    then have "seg_start H c \<le> x" "x < seg_start H c + 8 * segmentWords (class_of H c)" by linarith+
    then show "hmem H' x = hmem H x" using assms(1) unfolding same_segment_def by blast
  qed
  then show ?thesis unfolding page_garbage_def e(1) st class_like_eq(5) [OF e(2)] by blast
qed

section \<open>One segment\<close>

text \<open>A sweep of the segment in the sweeper's hand.\<close>

lemma sweep_hand:
  assumes inv: "heap_inv lo hi A (c # S) L H" and al: "alive_ok (hsegment H c)" and ms: "cycle_colors ms"
    and r: "segmentSweep (class_of H c) (seg_start H c) ms timer n (hsegment H c, hmem H) = (n', s, m)"
    and H': "H' = H\<lparr> hsegment := (hsegment H)(c := s), hmem := m \<rparr>"
  shows "\<exists>W. heap_inv lo hi A (c # S) L H' \<and> alive_ok s \<and> n \<le> n' \<and> (sweepIndex s \<noteq> 0 \<longrightarrow> (\<exists>k. n \<le> k \<and> k < n' \<and> \<not> timer k)) \<and>
    heap_objs A (c # S) L H' = {e \<in> heap_objs A (c # S) L H. fst e \<notin> W} \<and>
    W \<subseteq> page_garbage ms H c (sweepIndex (hsegment H c)) \<and>
    page_garbage ms H' c (sweepIndex s) \<subseteq> page_garbage ms H c (sweepIndex (hsegment H c)) \<and>
    page_garbage ms H c (sweepIndex (hsegment H c)) \<subseteq> W \<union> page_garbage ms H' c (sweepIndex s) \<and>
    (\<forall>(x, l) \<in> heap_objs A (c # S) L H'. \<forall>y. x \<le> y \<and> y < x + l \<longrightarrow> hmem H' y = hmem H y) \<and>
    (\<forall>d \<in> set (A @ S @ listed H). same_segment H H' d) \<and> (\<forall>d \<in> set (largeList H @ L). hmem H' (seg_start H d) = hmem H (seg_start H d))"
proof -
  let ?cls = "class_of H c" and ?a = "seg_start H c" and ?s = "hsegment H c" and ?m = "hmem H"
  have ok: "class_ok ?cls" "rt_ok lo hi (hrt H)" using inv by (simp_all add: heap_inv_def class_of_def)
  have sg: "segment_ok H c" by (rule inv_segment [OF inv]) simp
  then have so: "seg_ok ?cls ?a ?m ?s" by (simp add: segment_ok_def)
  then have sh: "seg_shape ?cls ?s" by (simp add: seg_ok_def)
  note pl = segment_place [OF ok(2) sg]
  define W where "W = swept_from ?cls ?a ms ?m ?s (sweepIndex s)"
  note S = segment_sweep_ok [OF ok(1) pl so al ms r, folded W_def]
  have Ws: "\<exists>i. in_use ?s i \<and> sweepIndex s \<le> i \<and> i < sweepIndex ?s \<and> x \<in> set (slots ?cls ?a ?s i) \<and> garbage ms ?m x" if "x \<in> W" for x
    using that by (auto simp: W_def swept_from_def swept_def)
  have wi: "?a \<le> x" "x < ?a + 8 * segmentWords ?cls" if x: "x \<in> W" for x
  proof -
    obtain i where i: "in_use ?s i" "x \<in> set (slots ?cls ?a ?s i)" using Ws [OF x] by blast
    show "?a \<le> x" "x < ?a + 8 * segmentWords ?cls" using slots_within [OF ok(1) pl sh i] slots_page(3) [OF sh i] by linarith+
  qed
  have keep: "m x = ?m x" if "x \<notin> W" for x using S that by blast
  have out: "m x = ?m x" if "x < ?a \<or> ?a + 8 * segmentWords ?cls \<le> x" for x
  proof (rule keep, rule notI)
    assume "x \<in> W"
    then show False using wi [of x] that by linarith
  qed
  have so': "seg_ok ?cls ?a m s" using S by blast
  note C = change_hand [OF inv so' out H']
  have ip: "in_use s j \<Longrightarrow> in_use ?s j \<and> page_words s j = page_words ?s j" for j using S by blast
  have "live_slots ?cls ?a m s = live_slots ?cls ?a ?m ?s - W" using S by blast
  from objs_live [OF sh ip this] have so: "seg_objs ?cls ?a m s = {e \<in> seg_objs ?cls ?a ?m ?s. fst e \<notin> W}" by simp
  have others: "x \<notin> W" "\<forall>y. x \<le> y \<and> y < x + l \<longrightarrow> y \<notin> W" if o: "(x, l) \<in> heap_objs A S L H" for x l
  proof -
    have oc: "x + l \<le> ?a \<or> ?a + 8 * segmentWords ?cls \<le> x" "0 < l"
    proof -
      have i: "heap_inv lo hi A S L H" using inv by (auto simp: heap_inv_def)
      obtain d b j where d: "held (hrt H) d = Some (b, j)" "b \<le> x" "x + l \<le> b + j" "0 < l" "d \<in> set (A @ S @ listed H) \<or> d \<in> set (largeList H @ L)"
        using obj_chunk [OF i o] by metis
      have hc: "held (hrt H) c = Some (?a, 8 * segmentWords ?cls)" using sg by (simp add: segment_ok_def)
      have "d \<noteq> c" using inv d(5) by (auto simp: heap_inv_def)
      moreover have "rt_inv lo hi (hrt H)" using ok(2) by (simp add: rt_ok_def)
      ultimately have "?a + 8 * segmentWords ?cls \<le> b \<or> b + j \<le> ?a" using held_apart [OF _ hc] d(1) by blast
      then show "x + l \<le> ?a \<or> ?a + 8 * segmentWords ?cls \<le> x" "0 < l" using d(2-4) by linarith+
    qed
    show "\<forall>y. x \<le> y \<and> y < x + l \<longrightarrow> y \<notin> W"
    proof (intro allI impI notI)
      fix y assume "x \<le> y \<and> y < x + l" "y \<in> W"
      then show False using wi [of y] oc by linarith
    qed
    then show "x \<notin> W" using oc(2) by simp
  qed
  have split: "heap_objs A (c # S) L H = seg_objs ?cls ?a ?m ?s \<union> heap_objs A S L H"
    unfolding objs_hand [symmetric] heap_objs_Cons segment_objs_def ..
  have "heap_objs A (c # S) L H' = seg_objs ?cls ?a m s \<union> heap_objs A S L H" by (rule C(2))
  then have objs: "heap_objs A (c # S) L H' = {e \<in> heap_objs A (c # S) L H. fst e \<notin> W}"
    unfolding so split using others(1) by auto
  have cells: "hmem H' y = ?m y" if o: "(x, l) \<in> heap_objs A (c # S) L H'" "x \<le> y" "y < x + l" for x l y
  proof -
    have h: "hmem H' = m" by (simp add: H')
    have "(x, l) \<in> heap_objs A (c # S) L H" "x \<notin> W" using o(1) unfolding objs by simp_all
    then consider "(x, l) \<in> seg_objs ?cls ?a ?m ?s" "x \<notin> W" | "(x, l) \<in> heap_objs A S L H" unfolding split by blast
    then show ?thesis
    proof cases
      case 1
      obtain i where i: "in_use ?s i" "x \<in> set (slots ?cls ?a ?s i)" "l = 8 * page_words ?s i" using 1(1) unfolding seg_objs_def by blast
      have "y \<notin> W"
      proof
        assume y: "y \<in> W"
        then obtain j where j: "in_use ?s j" "y \<in> set (slots ?cls ?a ?s j)" using Ws by blast
        have "x \<noteq> y" using 1(2) y by blast
        then show False using slots_apart [OF sh i(1,2) j] o(2,3) i(3) slots_page(3) [OF sh j] by linarith
      qed
      then show ?thesis using keep h by simp
    next
      case 2
      then show ?thesis using others(2) o(2,3) keep h by simp
    qed
  qed
  have g: "garbage ms m x = garbage ms ?m x" if "x \<notin> W" for x by (rule used_other(3)) (rule keep [OF that])
  have pg: "page_garbage ms H' c (sweepIndex s) = {x. \<exists>i < sweepIndex s. in_use s i \<and> x \<in> set (slots ?cls ?a s i) \<and> garbage ms m x}"
    by (simp add: page_garbage_def H' class_of_def seg_start_def)
  have sl: "slots ?cls ?a s i = slots ?cls ?a ?s i" if "in_use s i" for i using ip [OF that] by (simp add: slots_def)
  have below: "x \<notin> W" if i: "i < sweepIndex s" "in_use ?s i" "x \<in> set (slots ?cls ?a ?s i)" for i x
  proof
    assume "x \<in> W"
    then obtain j where "in_use ?s j" "sweepIndex s \<le> j" "x \<in> set (slots ?cls ?a ?s j)" using Ws by blast
    then show False using slots_same_page [OF sh i(2,3)] i(1) by force
  qed
  have le: "sweepIndex s \<le> sweepIndex ?s" using S by blast
  have sub: "page_garbage ms H' c (sweepIndex s) \<subseteq> page_garbage ms H c (sweepIndex ?s)"
  proof
    fix x assume "x \<in> page_garbage ms H' c (sweepIndex s)"
    then obtain i where i: "i < sweepIndex s" "in_use s i" "x \<in> set (slots ?cls ?a s i)" "garbage ms m x" unfolding pg by blast
    then have i': "in_use ?s i" "x \<in> set (slots ?cls ?a ?s i)" using ip sl by simp_all
    then have "garbage ms ?m x" using i(4) g [OF below [OF i(1) i']] by simp
    moreover have "i < sweepIndex ?s" using i(1) le by simp
    ultimately show "x \<in> page_garbage ms H c (sweepIndex ?s)" using i' unfolding page_garbage_def by blast
  qed
  have cov: "page_garbage ms H c (sweepIndex ?s) \<subseteq> W \<union> page_garbage ms H' c (sweepIndex s)"
  proof
    fix x assume "x \<in> page_garbage ms H c (sweepIndex ?s)"
    then obtain i where i: "i < sweepIndex ?s" "in_use ?s i" "x \<in> set (slots ?cls ?a ?s i)" "garbage ms ?m x" unfolding page_garbage_def by blast
    show "x \<in> W \<union> page_garbage ms H' c (sweepIndex s)"
    proof (cases "sweepIndex s \<le> i")
      case True
      then have "x \<in> W" using i unfolding W_def swept_from_def swept_def by auto
      then show ?thesis ..
    next
      case False
      then have lt: "i < sweepIndex s" by simp
      have u: "in_use s i" using S lt i(2) by blast
      have "garbage ms m x" using i(4) g [OF below [OF lt i(2,3)]] by simp
      then have "x \<in> page_garbage ms H' c (sweepIndex s)"
        unfolding pg mem_Collect_eq using lt u i(3) sl [OF u] by (intro exI [of _ i]) simp
      then show ?thesis ..
    qed
  qed
  have Wg: "W \<subseteq> page_garbage ms H c (sweepIndex ?s)" using Ws unfolding page_garbage_def by blast
  have S': "alive_ok s" "n \<le> n'" "sweepIndex s \<noteq> 0 \<longrightarrow> (\<exists>k. n \<le> k \<and> k < n' \<and> \<not> timer k)" using S by blast+
  have "\<forall>(x, l) \<in> heap_objs A (c # S) L H'. \<forall>y. x \<le> y \<and> y < x + l \<longrightarrow> hmem H' y = hmem H y" using cells by blast
  then show ?thesis using C S' objs Wg sub cov by (intro exI [of _ W] conjI)
qed

section \<open>Progress of the sweeper\<close>

text \<open>From one state of the sweeper and the heap to a later one: only what is to free goes, and what remains to be freed is what is
  not gone. The lists are the segments in work, those not begun and the large objects.\<close>

definition swept_to ::
  "ChiMarkState \<Rightarrow> nat list \<Rightarrow> nat list \<Rightarrow> nat list \<Rightarrow> nat list \<Rightarrow> heap \<Rightarrow> nat list \<Rightarrow> nat list \<Rightarrow> nat list \<Rightarrow> heap \<Rightarrow> bool" where
  "swept_to ms A P U L H P' U' L' H' \<longleftrightarrow> (\<exists>W. heap_objs A (P' @ U') L' H' = {e \<in> heap_objs A (P @ U) L H. fst e \<notin> W} \<and>
     W \<subseteq> unswept_garbage ms P U L H \<and> unswept_garbage ms P' U' L' H' \<subseteq> unswept_garbage ms P U L H \<and>
     unswept_garbage ms P U L H \<subseteq> W \<union> unswept_garbage ms P' U' L' H' \<and>
     (\<forall>(x, l) \<in> heap_objs A (P' @ U') L' H'. \<forall>y. x \<le> y \<and> y < x + l \<longrightarrow> hmem H' y = hmem H y))"

lemma swept_trans:
  assumes "swept_to ms A P U L H P1 U1 L1 H1" "swept_to ms A P1 U1 L1 H1 P2 U2 L2 H2"
  shows "swept_to ms A P U L H P2 U2 L2 H2"
proof -
  obtain V where V: "heap_objs A (P1 @ U1) L1 H1 = {e \<in> heap_objs A (P @ U) L H. fst e \<notin> V}" "V \<subseteq> unswept_garbage ms P U L H"
    "unswept_garbage ms P1 U1 L1 H1 \<subseteq> unswept_garbage ms P U L H" "unswept_garbage ms P U L H \<subseteq> V \<union> unswept_garbage ms P1 U1 L1 H1"
    "\<forall>(x, l) \<in> heap_objs A (P1 @ U1) L1 H1. \<forall>y. x \<le> y \<and> y < x + l \<longrightarrow> hmem H1 y = hmem H y"
    using assms(1) unfolding swept_to_def by blast
  obtain W where W: "heap_objs A (P2 @ U2) L2 H2 = {e \<in> heap_objs A (P1 @ U1) L1 H1. fst e \<notin> W}" "W \<subseteq> unswept_garbage ms P1 U1 L1 H1"
    "unswept_garbage ms P2 U2 L2 H2 \<subseteq> unswept_garbage ms P1 U1 L1 H1" "unswept_garbage ms P1 U1 L1 H1 \<subseteq> W \<union> unswept_garbage ms P2 U2 L2 H2"
    "\<forall>(x, l) \<in> heap_objs A (P2 @ U2) L2 H2. \<forall>y. x \<le> y \<and> y < x + l \<longrightarrow> hmem H2 y = hmem H1 y"
    using assms(2) unfolding swept_to_def by blast
  have "heap_objs A (P2 @ U2) L2 H2 = {e \<in> heap_objs A (P @ U) L H. fst e \<notin> V \<union> W}" unfolding W(1) V(1) by auto
  moreover have "hmem H2 y = hmem H y" if "(x, l) \<in> heap_objs A (P2 @ U2) L2 H2" "x \<le> y" "y < x + l" for x l y
  proof -
    have "(x, l) \<in> heap_objs A (P1 @ U1) L1 H1" using that(1) W(1) by simp
    then have "hmem H1 y = hmem H y" using V(5) that(2,3) by blast
    moreover have "hmem H2 y = hmem H1 y" using W(5) that by blast
    ultimately show ?thesis by simp
  qed
  ultimately show ?thesis unfolding swept_to_def using V(2-4) W(2-4) by (intro exI [of _ "V \<union> W"]) blast
qed

lemma swept_same:
  assumes "heap_objs A (P' @ U') L' H' = heap_objs A (P @ U) L H" "unswept_garbage ms P' U' L' H' = unswept_garbage ms P U L H" "hmem H' = hmem H"
  shows "swept_to ms A P U L H P' U' L' H'"
  unfolding swept_to_def using assms by (intro exI [of _ "{}"]) auto

lemma swept_refl: "swept_to ms A P U L H P U L H"
  by (rule swept_same) simp_all

lemma swept_lists:
  assumes "set P' = set P" "set U' = set U" "set L' = set L"
  shows "swept_to ms A P U L H P' U' L' H"
  by (rule swept_same) (use assms in \<open>simp_all add: heap_objs_def unswept_garbage_def\<close>)

lemma inv_parts:
  assumes "heap_inv lo hi A S L H"
  shows "rt_ok lo hi (hrt H)" "class_ok (class_of H c)"
  using assms by (simp_all add: heap_inv_def class_of_def)

text \<open>What a step leaves alone has the same garbage.\<close>

lemma garbage_frame:
  assumes inv: "heap_inv lo hi A S L H" and s: "\<And>d. d \<in> set P \<union> set U \<Longrightarrow> d \<in> set (A @ S @ listed H) \<and> same_segment H H' d"
    and l: "\<And>d. d \<in> set L' \<Longrightarrow> seg_start H' d = seg_start H d \<and> hmem H' (seg_start H d) = hmem H (seg_start H d)"
  shows "unswept_garbage ms P U L' H' = unswept_garbage ms P U L' H"
proof -
  have "page_garbage ms H' d k = page_garbage ms H d k \<and> hsegment H' d = hsegment H d" if d: "d \<in> set P \<union> set U" for d k
  proof -
    have m: "d \<in> set (A @ S @ listed H)" "same_segment H H' d" using s [OF d] by blast+
    from page_garbage_same [OF m(2) inv_segment [OF inv m(1)] inv_parts(2,1) [OF inv]] m(2) show ?thesis by (simp add: same_segment_def)
  qed
  then have e: "\<And>d k. d \<in> set P \<Longrightarrow> page_garbage ms H' d k = page_garbage ms H d k" "\<And>d. d \<in> set P \<Longrightarrow> hsegment H' d = hsegment H d"
    "\<And>d k. d \<in> set U \<Longrightarrow> page_garbage ms H' d k = page_garbage ms H d k" "\<And>d. d \<in> set U \<Longrightarrow> hsegment H' d = hsegment H d" by auto
  have "large_garbage ms H' d = large_garbage ms H d" if "d \<in> set L'" for d
  proof -
    have "garbage ms (hmem H') (seg_start H d) = garbage ms (hmem H) (seg_start H d)" by (rule used_other(3)) (use l [OF that] in simp)
    then show ?thesis using l [OF that] by (auto simp: large_garbage_def)
  qed
  then show ?thesis unfolding unswept_garbage_def using e by simp
qed

section \<open>The steps of a slice\<close>

text \<open>A part of the segment at the head of those in work.\<close>

lemma sweep_part:
  assumes inv: "heap_inv lo hi A ((c # P) @ U) L H" and al: "\<forall>d \<in> set (c # P). alive_ok (hsegment H d)" and ms: "cycle_colors ms"
    and r: "segmentSweep (class_of H c) (seg_start H c) ms timer n (hsegment H c, hmem H) = (n', s, m)"
    and H': "H' = H\<lparr> hsegment := (hsegment H)(c := s), hmem := m \<rparr>"
  shows "heap_inv lo hi A ((c # P) @ U) L H' \<and> (\<forall>d \<in> set (c # P). alive_ok (hsegment H' d)) \<and> n \<le> n' \<and>
    (sweepIndex s \<noteq> 0 \<longrightarrow> (\<exists>k. n \<le> k \<and> k < n' \<and> \<not> timer k)) \<and> swept_to ms A (c # P) U L H (c # P) U L H' \<and> hkind H' = hkind H"
proof -
  have inv': "heap_inv lo hi A (c # (P @ U)) L H" using inv by simp
  have "alive_ok (hsegment H c)" using al by simp
  from sweep_hand [OF inv' this ms r H'] obtain W where
    W: "heap_inv lo hi A (c # (P @ U)) L H'" "alive_ok s" "n \<le> n'" "sweepIndex s \<noteq> 0 \<longrightarrow> (\<exists>k. n \<le> k \<and> k < n' \<and> \<not> timer k)"
      "heap_objs A (c # (P @ U)) L H' = {e \<in> heap_objs A (c # (P @ U)) L H. fst e \<notin> W}"
      "W \<subseteq> page_garbage ms H c (sweepIndex (hsegment H c))"
      "page_garbage ms H' c (sweepIndex s) \<subseteq> page_garbage ms H c (sweepIndex (hsegment H c))"
      "page_garbage ms H c (sweepIndex (hsegment H c)) \<subseteq> W \<union> page_garbage ms H' c (sweepIndex s)"
      "\<forall>(x, l) \<in> heap_objs A (c # (P @ U)) L H'. \<forall>y. x \<le> y \<and> y < x + l \<longrightarrow> hmem H' y = hmem H y"
      "\<forall>d \<in> set (A @ (P @ U) @ listed H). same_segment H H' d" "\<forall>d \<in> set (largeList H @ L). hmem H' (seg_start H d) = hmem H (seg_start H d)"
    by (elim exE conjE)
  have sd: "d \<in> set (A @ (c # (P @ U)) @ listed H) \<and> same_segment H H' d" if "d \<in> set P \<union> set U" for d using W(10) that by auto
  have "hrt H' = hrt H" by (simp add: H')
  then have ls: "seg_start H' d = seg_start H d \<and> hmem H' (seg_start H d) = hmem H (seg_start H d)" if "d \<in> set L" for d
    using W(11) that by (simp add: seg_start_def)
  have G: "unswept_garbage ms P U L H' = unswept_garbage ms P U L H" by (rule garbage_frame [OF inv' sd ls])
  have cP: "c \<notin> set P" using inv by (simp add: heap_inv_def)
  then have "\<forall>d \<in> set (c # P). alive_ok (hsegment H' d)" using al W(2) by (auto simp: H')
  moreover have u: "unswept_garbage ms (c # P) U L K = page_garbage ms K c (sweepIndex (hsegment K c)) \<union> unswept_garbage ms P U L K" for K
    by (auto simp: unswept_garbage_def)
  have hs: "hsegment H' c = s" by (simp add: H')
  have "swept_to ms A (c # P) U L H (c # P) U L H'" unfolding swept_to_def u G hs
  proof (intro exI [of _ W] conjI)
    show "heap_objs A ((c # P) @ U) L H' = {e \<in> heap_objs A ((c # P) @ U) L H. fst e \<notin> W}" using W(5) by simp
    show "\<forall>(x, l) \<in> heap_objs A ((c # P) @ U) L H'. \<forall>y. x \<le> y \<and> y < x + l \<longrightarrow> hmem H' y = hmem H y" using W(9) by simp
  qed (use W(6-8) in blast)+
  ultimately show ?thesis using W(1,3,4) by (simp add: H')
qed

text \<open>A segment that is swept goes back to its class or, when nothing lives in it, to the runtime.\<close>

lemma drop_chunk_ok:
  assumes inv: "heap_inv lo hi A S L H" and c: "c \<notin> set (A @ S @ listed H @ largeList H @ L)" "held (hrt H) c \<noteq> None"
    and H': "H' = H\<lparr> hrt := chiHeapChunkFree f c (hrt H) \<rparr>"
  shows "heap_inv lo hi A S L H'" "heap_objs A S L H' = heap_objs A S L H" "\<forall>d \<in> set (A @ S @ listed H). same_segment H H' d"
    "\<forall>d \<in> set (largeList H @ L). seg_start H' d = seg_start H d \<and> held (hrt H') d = held (hrt H) d"
proof -
  have rt: "rt_inv lo hi (hrt H)" "0 < lo" using inv by (simp_all add: heap_inv_def rt_ok_def)
  note F = held_fun_free [OF rt(1) c(2), of f, folded heap_free_is_block_free]
  have e: "hclass H' = hclass H" "hsegment H' = hsegment H" "hkind H' = hkind H" "largeList H' = largeList H" "hmem H' = hmem H" "listed H' = listed H"
    "held (hrt H') = (held (hrt H))(c := None)" using F(2) by (simp_all add: H' listed_def)
  have rt': "rt_ok lo hi (hrt H')" using F(1) rt(2) by (simp add: H' rt_ok_def)
  have o: "held (hrt H') d = held (hrt H) d" if "d \<noteq> c" for d using that e(7) by simp
  have ss: "same_segment H H' d" if d: "d \<in> set (A @ S @ listed H)" for d
  proof -
    have "d \<noteq> c" using c(1) d by auto
    then show ?thesis using o e by (simp add: same_segment_def class_of_def)
  qed
  then show s: "\<forall>d \<in> set (A @ S @ listed H). same_segment H H' d" by blast
  have ol: "held (hrt H') d = held (hrt H) d" if d: "d \<in> set (largeList H @ L)" for d
  proof -
    have "d \<noteq> c" using c(1) d by auto
    then show ?thesis by (rule o)
  qed
  show "\<forall>d \<in> set (largeList H @ L). seg_start H' d = seg_start H d \<and> held (hrt H') d = held (hrt H) d"
  proof
    fix d assume d: "d \<in> set (largeList H @ L)"
    obtain b l where b: "held (hrt H) d = Some (b, l)" using inv_held [OF inv, of d] d by auto
    then have "held (hrt H') d = Some (b, l)" using ol [OF d] by simp
    then show "seg_start H' d = seg_start H d \<and> held (hrt H') d = held (hrt H) d"
      using held_chunk [OF b] held_chunk [of "hrt H'" d] b by (simp add: seg_start_def)
  qed
  have i: "\<forall>k. \<forall>d \<in> set (cfree (hclass H k) @ cfull (hclass H k)). hkind H d = k" "\<forall>d \<in> set (A @ listed H). sweepIndex (hsegment H d) = 0"
    using inv by (simp_all add: heap_inv_def)
  show "heap_inv lo hi A S L H'" "heap_objs A S L H' = heap_objs A S L H"
    by (rule heap_same [OF inv]; use rt' s ol e i in simp)+
qed

lemma dead_segment:
  assumes "seg_shape cls s" "alive_ok s" "sweepIndex s = 0" "\<not> alive s"
  shows "seg_objs cls a m s = {}"
  using assms by (auto simp: alive_ok_def seg_objs_def)

lemma drop_dead:
  assumes "heap_inv lo hi A ((c # P) @ U) L H" "segment_objs H c = {}"
  shows "heap_inv lo hi A (P @ U) L H" "heap_objs A (P @ U) L H = heap_objs A ((c # P) @ U) L H"
    "c \<notin> set (A @ (P @ U) @ listed H @ largeList H @ L)" "held (hrt H) c \<noteq> None"
  using assms inv_held [OF assms(1), of c] by (auto simp: heap_inv_def heap_objs_def)

lemma release_ok:
  assumes inv: "heap_inv lo hi A ((c # P) @ U) L H" and al: "\<forall>d \<in> set (c # P). alive_ok (hsegment H d)" and z: "sweepIndex (hsegment H c) = 0"
    and H': "H' = chiHeapSweepReleaseSegment f c H"
  shows "heap_inv lo hi A (P @ U) L H' \<and> (\<forall>d \<in> set P. alive_ok (hsegment H' d)) \<and> swept_to ms A (c # P) U L H P U L H'"
proof -
  have g: "unswept_garbage ms (c # P) U L H = unswept_garbage ms P U L H" using z by (auto simp: unswept_garbage_def page_garbage_def)
  let ?k = "hkind H c"
  show ?thesis
  proof (cases "alive (hsegment H c)")
    case True
    let ?f = "\<lambda>cls. cls\<lparr> cfree := cfree cls @ [c] \<rparr>"
    have e: "H' = on_class ?k ?f H" using True by (simp add: H' chiHeapSweepReleaseSegment_def Let_def)
    have m: "mset (listed H') = add_mset c (mset (listed H))" unfolding e by (cases ?k) (simp_all add: listed_def)
    then have st: "set (listed H') = insert c (set (listed H))" by (metis set_mset_add_mset_insert set_mset_mset)
    have i: "\<forall>k. \<forall>d \<in> set (cfree (hclass H k) @ cfull (hclass H k)). hkind H d = k" "\<forall>d \<in> set (A @ listed H). sweepIndex (hsegment H d) = 0"
      using inv by (simp_all add: heap_inv_def)
    have M: "heap_inv lo hi A (P @ U) L H'" "heap_objs A (P @ U) L H' = heap_objs A ((c # P) @ U) L H" unfolding e
      by (rule move_segment [OF inv]; use m [unfolded e] st [unfolded e] i z in simp)+
    have h: "hsegment H' = hsegment H" "hmem H' = hmem H" "seg_start H' = seg_start H" by (simp_all add: e)
    have cl: "class_like (class_of H d) (class_of H' d)" for d unfolding e by (rule class_of_on_class) simp
    have "page_garbage ms H' d k = page_garbage ms H d k" for d k unfolding page_garbage_def h class_like_eq(5) [OF cl] ..
    then have "unswept_garbage ms P U L H' = unswept_garbage ms P U L H" by (simp add: unswept_garbage_def large_garbage_def h)
    then have "swept_to ms A (c # P) U L H P U L H'" using M(2) g h(2) by (intro swept_same) simp_all
    then show ?thesis using M(1) al h(1) by simp
  next
    case False
    have sg: "segment_ok H c" by (rule inv_segment [OF inv]) simp
    have "segment_objs H c = {}" unfolding segment_objs_def
      by (rule dead_segment) (use sg al z False in \<open>simp_all add: segment_ok_def seg_ok_def\<close>)
    note D = drop_dead [OF inv this]
    let ?f = "\<lambda>cls. cls\<lparr> ctotal := ctotal cls - 1 \<rparr>"
    define G where "G = on_class ?k ?f H"
    have i: "\<forall>k. \<forall>d \<in> set (cfree (hclass H k) @ cfull (hclass H k)). hkind H d = k" "\<forall>d \<in> set (A @ listed H). sweepIndex (hsegment H d) = 0"
      using inv by (simp_all add: heap_inv_def)
    have l: "listed G = listed H" by (simp add: G_def listed_def)
    have M: "heap_inv lo hi A (P @ U) L G" "heap_objs A (P @ U) L G = heap_objs A (P @ U) L H" unfolding G_def
      by (rule move_segment [OF D(1)]; use l [unfolded G_def] i in simp)+
    have h: "hsegment G = hsegment H" "hmem G = hmem H" "seg_start G = seg_start H" "hrt G = hrt H" "largeList G = largeList H" by (simp_all add: G_def)
    have cl: "class_like (class_of H d) (class_of G d)" for d unfolding G_def by (rule class_of_on_class) simp
    have e: "H' = G\<lparr> hrt := chiHeapChunkFree f c (hrt G) \<rparr>" using False by (simp add: H' chiHeapSweepReleaseSegment_def Let_def G_def)
    have cG: "c \<notin> set (A @ (P @ U) @ listed G @ largeList G @ L)" "held (hrt G) c \<noteq> None" using D(3,4) h l by simp_all
    note F = drop_chunk_ok [OF M(1) cG e]
    have eH: "hsegment H' = hsegment G" "hmem H' = hmem G" by (simp_all add: e)
    have "page_garbage ms G d k = page_garbage ms H d k" for d k unfolding page_garbage_def h class_like_eq(5) [OF cl] ..
    then have u1: "unswept_garbage ms P U L G = unswept_garbage ms P U L H" by (simp add: unswept_garbage_def large_garbage_def h)
    have sd: "d \<in> set (A @ (P @ U) @ listed G) \<and> same_segment G H' d" if "d \<in> set P \<union> set U" for d using F(3) that by auto
    have ld: "seg_start H' d = seg_start G d \<and> hmem H' (seg_start G d) = hmem G (seg_start G d)" if "d \<in> set L" for d using F(4) that eH by simp
    have "unswept_garbage ms P U L H' = unswept_garbage ms P U L G" by (rule garbage_frame [OF M(1) sd ld])
    then have "swept_to ms A (c # P) U L H P U L H'" using F(2) M(2) D(2) g u1 eH h(2) by (intro swept_same) simp_all
    then show ?thesis using F(1) al eH(1) h(1) by simp
  qed
qed

text \<open>A segment is begun.\<close>

lemma begin_ok:
  assumes inv: "heap_inv lo hi A (c # U) L H"
    and H': "H' = H\<lparr> hsegment := (hsegment H)(c := sweepResetSegment (class_of H c) (hsegment H c)) \<rparr>"
  shows "heap_inv lo hi A ([c] @ U) L H' \<and> alive_ok (hsegment H' c) \<and> swept_to ms A [] (c # U) L H [c] U L H' \<and> hkind H' = hkind H"
proof -
  let ?cls = "class_of H c" and ?a = "seg_start H c" and ?s = "hsegment H c" and ?m = "hmem H"
  let ?r = "sweepResetSegment ?cls ?s"
  have sg: "segment_ok H c" by (rule inv_segment [OF inv]) simp
  then have so: "seg_ok ?cls ?a ?m ?s" by (simp add: segment_ok_def)
  note R = sweep_reset_ok [OF so]
  have H'': "H' = H\<lparr> hsegment := (hsegment H)(c := ?r), hmem := hmem H \<rparr>" by (simp add: H')
  note C = change_hand [OF inv R(1) refl H'']
  have same: "in_use ?r = in_use ?s" "page_words ?r = page_words ?s" "slots ?cls ?a ?r = slots ?cls ?a ?s"
    by (auto simp: sweepResetSegment_def in_use_def page_words_def slots_def fun_eq_iff)
  then have o: "seg_objs ?cls ?a ?m ?r = segment_objs H c" by (simp add: segment_objs_def seg_objs_def)
  have "heap_objs A (c # U) L H' = segment_objs H c \<union> heap_objs A U L H" using C(2) unfolding o .
  moreover have "heap_objs A (c # U) L H = segment_objs H c \<union> heap_objs A U L H" unfolding objs_hand [symmetric] heap_objs_Cons ..
  ultimately have objs: "heap_objs A ([c] @ U) L H' = heap_objs A (c # U) L H" by simp
  have e: "hmem H' = hmem H" "seg_start H' = seg_start H" "class_of H' = class_of H" "hkind H' = hkind H" "hsegment H' c = ?r"
    by (simp_all add: H' seg_start_def class_of_def fun_eq_iff)
  have cg: "page_garbage ms H' c (sweepIndex (hsegment H' c)) = page_garbage ms H c (endIndex (hsegment H c))"
    using R(4) same by (simp add: page_garbage_def e)
  have cU: "c \<notin> set U" using inv by (simp add: heap_inv_def)
  have "page_garbage ms H' d k = page_garbage ms H d k \<and> hsegment H' d = hsegment H d" if "d \<in> set U" for d k
  proof -
    have "d \<noteq> c" using that cU by blast
    then show ?thesis using e by (simp add: page_garbage_def H')
  qed
  then have "(\<Union>d \<in> set U. page_garbage ms H' d (endIndex (hsegment H' d))) = (\<Union>d \<in> set U. page_garbage ms H d (endIndex (hsegment H d)))" by simp
  then have "unswept_garbage ms [c] U L H' = unswept_garbage ms [] (c # U) L H"
    unfolding unswept_garbage_def using cg e by (simp add: large_garbage_def)
  then have "swept_to ms A [] (c # U) L H [c] U L H'" using objs e(1) by (intro swept_same) simp_all
  then show ?thesis using C(1) R(2) e by simp
qed

section \<open>Large objects\<close>

lemma large_permute:
  assumes "mset L' = mset L"
  shows "heap_inv lo hi A S L' H = heap_inv lo hi A S L H" "heap_objs A S L' H = heap_objs A S L H"
proof -
  have s: "set L' = set L" using assms by (metis set_mset_mset)
  have "distinct L' = distinct L" using assms by (rule mset_eq_imp_distinct_iff)
  then show "heap_inv lo hi A S L' H = heap_inv lo hi A S L H" unfolding heap_inv_def by (simp add: s)
  show "heap_objs A S L' H = heap_objs A S L H" by (simp add: heap_objs_def s)
qed

lemma free_large:
  assumes inv: "heap_inv lo hi A S (c # L) H" and H': "H' = H\<lparr> hrt := chiHeapChunkFree f c (hrt H) \<rparr>"
  shows "heap_inv lo hi A S L H'" "heap_objs A S L H' = {e \<in> heap_objs A S (c # L) H. fst e \<noteq> seg_start H c}"
    "\<forall>d \<in> set (A @ S @ listed H). same_segment H H' d" "\<forall>d \<in> set (largeList H @ L). seg_start H' d = seg_start H d"
proof -
  have i: "heap_inv lo hi A S L H" and c: "c \<notin> set (A @ S @ listed H @ largeList H @ L)" using inv by (auto simp: heap_inv_def)
  have hc: "held (hrt H) c \<noteq> None" by (rule inv_held [OF inv]) simp
  note F = drop_chunk_ok [OF i c hc H']
  show "heap_inv lo hi A S L H'" "\<forall>d \<in> set (A @ S @ listed H). same_segment H H' d" "\<forall>d \<in> set (largeList H @ L). seg_start H' d = seg_start H d"
    using F by blast+
  have o: "heap_objs A S (c # L) H = insert (large_obj H c) (heap_objs A S L H)" by (simp add: heap_objs_def)
  have n: "large_obj H c \<notin> heap_objs A S L H \<and> x \<noteq> seg_start H c" if x: "(x, l) \<in> heap_objs A S L H" for x l
  proof -
    obtain a k where h: "held (hrt H) c = Some (a, k)" using hc by auto
    have e: "large_obj H c = (a, k)" "seg_start H c = a" using held_chunk [OF h] by (simp_all add: large_obj_def seg_start_def)
    have ri: "rt_inv lo hi (hrt H)" using inv by (simp add: heap_inv_def rt_ok_def)
    have out: "y + j \<le> a \<or> a + k \<le> y" "0 < j" if y: "(y, j) \<in> heap_objs A S L H" for y j
    proof -
      obtain d b i where d: "held (hrt H) d = Some (b, i)" "b \<le> y" "y + j \<le> b + i" "0 < j" "d \<in> set (A @ S @ listed H) \<or> d \<in> set (largeList H @ L)"
        using obj_chunk [OF \<open>heap_inv lo hi A S L H\<close> y] by metis
      have "d \<noteq> c" using c d(5) by auto
      then have "a + k \<le> b \<or> b + i \<le> a" using held_apart [OF ri h] d(1) by blast
      then show "y + j \<le> a \<or> a + k \<le> y" "0 < j" using d(2-4) by linarith+
    qed
    have "0 < k" using held_apart [OF ri h] by blast
    then show ?thesis using out [of a k] out [OF x] e by fastforce
  qed
  have "fst (large_obj H c) = seg_start H c" by (simp add: large_obj_def seg_start_def)
  then show "heap_objs A S L H' = {e \<in> heap_objs A S (c # L) H. fst e \<noteq> seg_start H c}" unfolding F(2) o using n by fastforce
qed

lemma large_sweep_ok:
  assumes "heap_inv lo hi A S (cs @ D) H" "largeSweep f ms cs H = (l, k, H')"
  shows "heap_inv lo hi A S (l @ D) H' \<and>
    heap_objs A S (l @ D) H' = {e \<in> heap_objs A S (cs @ D) H. fst e \<notin> (\<Union>c \<in> set cs. large_garbage ms H c)} \<and>
    (\<forall>d \<in> set (A @ S @ listed H). same_segment H H' d) \<and> (\<forall>d \<in> set (largeList H @ l @ D). seg_start H' d = seg_start H d) \<and>
    hmem H' = hmem H \<and> hsegment H' = hsegment H \<and> hclass H' = hclass H \<and> hkind H' = hkind H \<and> largeList H' = largeList H \<and>
    set l \<subseteq> set cs \<and> (\<forall>c \<in> set l. large_garbage ms H c = {})"
  using assms
proof (induction cs arbitrary: D H l k H')
  case Nil
  then show ?case by (auto simp: same_segment_def)
next
  case (Cons c cs)
  let ?a = "seg_start H c"
  show ?case
  proof (cases "garbage ms (hmem H) ?a")
    case True
    define G where "G = H\<lparr> hrt := chiHeapChunkFree (f c) c (hrt H) \<rparr>"
    obtain j where r: "largeSweep f ms cs G = (l, j, H')"
      using Cons.prems(2) True by (auto simp: seg_start_def G_def split: prod.splits)
    have inv: "heap_inv lo hi A S (c # (cs @ D)) H" using Cons.prems(1) by simp
    note F = free_large [OF inv G_def]
    note I = Cons.IH [OF F(1) r]
    have g: "hmem G = hmem H" "hsegment G = hsegment H" "hclass G = hclass H" "hkind G = hkind H" "largeList G = largeList H" "listed G = listed H"
      by (simp_all add: G_def listed_def)
    have lg: "large_garbage ms G d = large_garbage ms H d" if "d \<in> set (cs @ D)" for d using F(4) that g(1) by (auto simp: large_garbage_def)
    have lc: "large_garbage ms H c = {?a}" using True by (auto simp: large_garbage_def)
    have "(\<Union>d \<in> set cs. large_garbage ms G d) = (\<Union>d \<in> set cs. large_garbage ms H d)" using lg by simp
    then have "heap_objs A S (l @ D) H' = {e \<in> heap_objs A S (c # (cs @ D)) H. fst e \<notin> (\<Union>c \<in> set (c # cs). large_garbage ms H c)}"
      using I F(2) lc by auto
    moreover have "same_segment H H' d" if d: "d \<in> set (A @ S @ listed H)" for d
    proof -
      have a: "same_segment H G d" "same_segment G H' d" using F(3) I d unfolding g(6) by blast+
      have "seg_start G d = seg_start H d"
        by (rule same_segment_ok(3) [OF a(1) inv_segment [OF inv d] inv_parts(2,1) [OF inv]])
      then show ?thesis using a class_like_trans by (auto simp: same_segment_def g class_like_def)
    qed
    moreover have "seg_start H' d = seg_start H d" if d: "d \<in> set (largeList H @ l @ D)" for d
    proof -
      have "seg_start H' d = seg_start G d" using I d unfolding g(5) by blast
      moreover have "d \<in> set (largeList H @ cs @ D)" using I d by auto
      ultimately show ?thesis using F(4) by simp
    qed
    moreover have "\<forall>d \<in> set l. large_garbage ms H d = {}"
    proof
      fix d assume d: "d \<in> set l"
      then have "d \<in> set (cs @ D)" "large_garbage ms G d = {}" using I by auto
      then show "large_garbage ms H d = {}" using lg by simp
    qed
    ultimately show ?thesis using I g by auto
  next
    case False
    obtain l' j where r: "largeSweep f ms cs H = (l', j, H')" "l = c # l'"
      using Cons.prems(2) False by (auto simp: seg_start_def split: prod.splits)
    have m: "mset (cs @ c # D) = mset ((c # cs) @ D)" "mset (l' @ c # D) = mset (l @ D)" by (simp_all add: r(2))
    have "heap_inv lo hi A S (cs @ c # D) H" using Cons.prems(1) unfolding large_permute [OF m(1)] .
    note I = Cons.IH [OF this r(1)]
    have lc: "large_garbage ms H c = {}" using False by (auto simp: large_garbage_def)
    have s: "set (largeList H @ l @ D) = set (largeList H @ l' @ c # D)" by (auto simp: r(2))
    show ?thesis using I lc unfolding large_permute [OF m(1)] large_permute [OF m(2)] s by (auto simp: r(2))
  qed
qed

lemma large_step:
  assumes inv: "heap_inv lo hi A (P @ U) L H" and r: "largeSweep f ms L H = (l, k, G)" and al: "\<forall>d \<in> set P. alive_ok (hsegment H d)"
    and H': "H' = chiHeapSweepReleaseLarge l k G"
  shows "heap_inv lo hi A (P @ U) [] H' \<and> (\<forall>d \<in> set P. alive_ok (hsegment H' d)) \<and> swept_to ms A P U L H P U [] H'"
proof -
  have "heap_inv lo hi A (P @ U) (L @ []) H" using inv by simp
  note R = large_sweep_ok [OF this r, simplified]
  have R': "heap_objs A (P @ U) l G = {e \<in> heap_objs A (P @ U) L H. fst e \<notin> (\<Union>c \<in> set L. large_garbage ms H c)}"
    using large_sweep_ok [OF \<open>heap_inv lo hi A (P @ U) (L @ []) H\<close> r] by simp
  have e: "hmem H' = hmem G" "hsegment H' = hsegment G" "hclass H' = hclass G" "hkind H' = hkind G" "hrt H' = hrt G" "largeList H' = largeList G @ l"
    "listed H' = listed G" by (simp_all add: H' chiHeapSweepReleaseLarge_def Let_def listed_def)
  have c: "class_of H' = class_of G" "seg_start H' = seg_start G" "large_obj H' = large_obj G" by (simp_all add: class_of_def seg_start_def large_obj_def e fun_eq_iff)
  have so: "segment_ok H' = segment_ok G" "segment_objs H' = segment_objs G" by (simp_all add: segment_ok_def segment_objs_def c e fun_eq_iff)
  have inv': "heap_inv lo hi A (P @ U) [] H'" using R unfolding heap_inv_def e so by auto
  define W where "W = (\<Union>c \<in> set L. large_garbage ms H c)"
  have o: "heap_objs A (P @ U) [] H' = {e \<in> heap_objs A (P @ U) L H. fst e \<notin> W}"
  proof -
    have "heap_objs A (P @ U) [] H' = heap_objs A (P @ U) l G" unfolding heap_objs_def so c e by simp
    also have "\<dots> = {e \<in> heap_objs A (P @ U) L H. fst e \<notin> W}" using R' by (simp add: W_def)
    finally show ?thesis .
  qed
  have sd: "d \<in> set (A @ (P @ U) @ listed H) \<and> same_segment H G d" if "d \<in> set P \<union> set U" for d using R that by auto
  have "unswept_garbage ms P U [] G = unswept_garbage ms P U [] H" by (rule garbage_frame [OF inv sd]) simp_all
  moreover have "unswept_garbage ms P U [] H' = unswept_garbage ms P U [] G" by (simp add: unswept_garbage_def page_garbage_def e c)
  ultimately have u: "unswept_garbage ms P U [] H' = unswept_garbage ms P U [] H" by simp
  have v: "unswept_garbage ms P U L H = unswept_garbage ms P U [] H \<union> W" by (auto simp: unswept_garbage_def W_def)
  have "hmem H' = hmem H" using R e(1) by simp
  then have "swept_to ms A P U L H P U [] H'" unfolding swept_to_def u v using o by (intro exI [of _ W]) auto
  then show ?thesis using inv' al R e(2) by simp
qed

section \<open>A slice\<close>

definition sweep_inv :: "nat \<Rightarrow> nat \<Rightarrow> nat list \<Rightarrow> sweep_state \<Rightarrow> heap \<Rightarrow> bool" where
  "sweep_inv lo hi A g H \<longleftrightarrow> heap_inv lo hi A (segmentPartial g @ segmentUnswept g) (sweepLarge g) H \<and>
     (\<forall>c \<in> set (segmentPartial g). alive_ok (hsegment H c))"

abbreviation swept_state :: "ChiMarkState \<Rightarrow> nat list \<Rightarrow> sweep_state \<Rightarrow> heap \<Rightarrow> sweep_state \<Rightarrow> heap \<Rightarrow> bool" where
  "swept_state ms A g H g' H' \<equiv> swept_to ms A (segmentPartial g) (segmentUnswept g) (sweepLarge g) H
     (segmentPartial g') (segmentUnswept g') (sweepLarge g') H'"

text \<open>A timer that has stopped does not start again.\<close>

definition timer_ok :: "(nat \<Rightarrow> bool) \<Rightarrow> bool" where
  "timer_ok timer \<longleftrightarrow> (\<forall>n. \<not> timer n \<longrightarrow> (\<forall>m \<ge> n. \<not> timer m))"

definition work :: "sweep_state \<Rightarrow> nat" where
  "work g = length (segmentPartial g) + length (segmentUnswept g) + (if sweepLarge g = [] then 0 else 1)"

lemma heap_permute_hand:
  assumes "mset S' = mset S"
  shows "heap_inv lo hi A S' L H = heap_inv lo hi A S L H"
proof -
  have s: "set S' = set S" using assms by (metis set_mset_mset)
  have "distinct S' = distinct S" using assms by (rule mset_eq_imp_distinct_iff)
  then show ?thesis unfolding heap_inv_def by (simp add: s)
qed

text \<open>The segment that is taken, swept as far as the timer allows, and put back or released.\<close>

lemma segment_round:
  assumes inv: "heap_inv lo hi A ((c # P) @ U) L H" and al: "\<forall>d \<in> set (c # P). alive_ok (hsegment H d)" and ms: "cycle_colors ms"
    and r: "segmentSweep (class_of H c) (seg_start H c) ms timer n (hsegment H c, hmem H) = (n', s, m)"
    and H': "H' = H\<lparr> hsegment := (hsegment H)(c := s), hmem := m \<rparr>"
  shows "n \<le> n' \<and>
    (if sweepIndex s \<noteq> 0
     then (\<exists>k. n \<le> k \<and> k < n' \<and> \<not> timer k) \<and> heap_inv lo hi A ((P @ [c]) @ U) L H' \<and> (\<forall>d \<in> set (P @ [c]). alive_ok (hsegment H' d)) \<and>
       swept_to ms A (c # P) U L H (P @ [c]) U L H'
     else heap_inv lo hi A (P @ U) L (chiHeapSweepReleaseSegment f c H') \<and>
       (\<forall>d \<in> set P. alive_ok (hsegment (chiHeapSweepReleaseSegment f c H') d)) \<and>
       swept_to ms A (c # P) U L H P U L (chiHeapSweepReleaseSegment f c H'))"
proof -
  have Q: "heap_inv lo hi A ((c # P) @ U) L H'" "\<forall>d \<in> set (c # P). alive_ok (hsegment H' d)" "n \<le> n'"
    "sweepIndex s \<noteq> 0 \<longrightarrow> (\<exists>k. n \<le> k \<and> k < n' \<and> \<not> timer k)" "swept_to ms A (c # P) U L H (c # P) U L H'"
    using sweep_part [OF inv al ms r H'] by blast+
  show ?thesis
  proof (cases "sweepIndex s = 0")
    case True
    then have "sweepIndex (hsegment H' c) = 0" by (simp add: H')
    from release_ok [OF Q(1,2) this refl, of f ms] show ?thesis using Q(3) True swept_trans [OF Q(5)] by simp
  next
    case False
    have "mset ((P @ [c]) @ U) = mset ((c # P) @ U)" by simp
    note P = heap_permute_hand [OF this]
    have "swept_to ms A (c # P) U L H' (P @ [c]) U L H'" by (rule swept_lists) auto
    then have "swept_to ms A (c # P) U L H (P @ [c]) U L H'" by (rule swept_trans [OF Q(5)])
    then show ?thesis using Q False P by auto
  qed
qed

lemma sweep_loop_ok:
  assumes "sweep_inv lo hi A g H" "cycle_colors ms" "timer_ok timer"
  shows "\<exists>g' H'. sweep_loop f ms timer n (g, H) = Some (g', H') \<and> sweep_inv lo hi A g' H' \<and> swept_state ms A g H g' H' \<and>
    ((\<forall>k. timer k) \<longrightarrow> segmentPartial g' = [] \<and> segmentUnswept g' = [] \<and> sweepLarge g' = [] \<and> \<not> needed g')"
  using assms(1)
proof (induction "work g" arbitrary: g H n rule: less_induct)
  case less
  have inv: "heap_inv lo hi A (segmentPartial g @ segmentUnswept g) (sweepLarge g) H" "\<forall>c \<in> set (segmentPartial g). alive_ok (hsegment H c)"
    using less.prems by (simp_all add: sweep_inv_def)
  have stop: "\<exists>g' H'. sweep_loop f ms timer k (g1, H1) = Some (g', H') \<and> sweep_inv lo hi A g' H' \<and> swept_state ms A g H g' H' \<and>
      ((\<forall>k. timer k) \<longrightarrow> segmentPartial g' = [] \<and> segmentUnswept g' = [] \<and> sweepLarge g' = [] \<and> \<not> needed g')"
    if "\<not> timer k" "sweep_inv lo hi A g1 H1" "swept_state ms A g H g1 H1" for k g1 H1
    using that by (subst sweep_loop.simps) auto
  have more: "\<exists>g' H'. sweep_loop f ms timer k (g1, H1) = Some (g', H') \<and> sweep_inv lo hi A g' H' \<and> swept_state ms A g H g' H' \<and>
      ((\<forall>k. timer k) \<longrightarrow> segmentPartial g' = [] \<and> segmentUnswept g' = [] \<and> sweepLarge g' = [] \<and> \<not> needed g')"
    if w: "work g1 < work g" "sweep_inv lo hi A g1 H1" "swept_state ms A g H g1 H1" for k g1 H1
    using less.hyps [OF w(1,2), of k] swept_trans [OF w(3)] by meson
  show ?case
  proof (cases "timer n")
    case False
    then show ?thesis by (rule stop [OF _ less.prems swept_refl])
  next
    case True
    have round: "\<exists>g' H'. (case segmentSweep (class_of H1 c) (seg_start H1 c) ms timer (n + 1) (hsegment H1 c, hmem H1) of
        (n, sg, m) \<Rightarrow>
          let H = H1\<lparr> hsegment := (hsegment H1)(c := sg), hmem := m \<rparr>
          in if sweepIndex sg \<noteq> 0
             then sweep_loop f ms timer n (g1\<lparr> segmentPartial := segmentPartial g1 @ [c], needed := True \<rparr>, H)
             else sweep_loop f ms timer n (g1, chiHeapSweepReleaseSegment (f c) c H)) = Some (g', H') \<and>
        sweep_inv lo hi A g' H' \<and> swept_state ms A g H g' H' \<and>
        ((\<forall>k. timer k) \<longrightarrow> segmentPartial g' = [] \<and> segmentUnswept g' = [] \<and> sweepLarge g' = [] \<and> \<not> needed g')"
      if c: "heap_inv lo hi A ((c # segmentPartial g1) @ segmentUnswept g1) (sweepLarge g1) H1"
        "\<forall>d \<in> set (c # segmentPartial g1). alive_ok (hsegment H1 d)" "work g1 < work g"
        "swept_to ms A (segmentPartial g) (segmentUnswept g) (sweepLarge g) H (c # segmentPartial g1) (segmentUnswept g1) (sweepLarge g1) H1" for c g1 H1
    proof -
      obtain n' s m where r: "segmentSweep (class_of H1 c) (seg_start H1 c) ms timer (n + 1) (hsegment H1 c, hmem H1) = (n', s, m)"
        using prod_cases3 by blast
      define H2 where "H2 = H1\<lparr> hsegment := (hsegment H1)(c := s), hmem := m \<rparr>"
      note R = segment_round [OF c(1,2) assms(2) r H2_def, of "f c"]
      show ?thesis
      proof (cases "sweepIndex s \<noteq> 0")
        case True
        let ?g = "g1\<lparr> segmentPartial := segmentPartial g1 @ [c], needed := True \<rparr>"
        note R' = conjunct2 [OF R, unfolded if_P [OF True]]
        have R: "\<exists>k. n + 1 \<le> k \<and> k < n' \<and> \<not> timer k" by (rule conjunct1 [OF R'])
        have i: "sweep_inv lo hi A ?g H2" unfolding sweep_inv_def using R' by simp
        have w: "swept_to ms A (c # segmentPartial g1) (segmentUnswept g1) (sweepLarge g1) H1
            (segmentPartial ?g) (segmentUnswept ?g) (sweepLarge ?g) H2" using R' by simp
        have "\<not> timer n'" using R assms(3) unfolding timer_ok_def by (meson less_imp_le)
        have e: "(case segmentSweep (class_of H1 c) (seg_start H1 c) ms timer (n + 1) (hsegment H1 c, hmem H1) of
            (n, sg, m) \<Rightarrow>
              let H = H1\<lparr> hsegment := (hsegment H1)(c := sg), hmem := m \<rparr>
              in if sweepIndex sg \<noteq> 0
                 then sweep_loop f ms timer n (g1\<lparr> segmentPartial := segmentPartial g1 @ [c], needed := True \<rparr>, H)
                 else sweep_loop f ms timer n (g1, chiHeapSweepReleaseSegment (f c) c H)) = sweep_loop f ms timer n' (?g, H2)"
          unfolding r prod.case Let_def H2_def if_P [OF True] ..
        show ?thesis unfolding e by (rule stop [OF \<open>\<not> timer n'\<close> i swept_trans [OF c(4) w]])
      next
        case False
        let ?H = "chiHeapSweepReleaseSegment (f c) c H2"
        note R' = conjunct2 [OF R, unfolded if_not_P [OF False]]
        have i: "sweep_inv lo hi A g1 ?H" unfolding sweep_inv_def using R' by simp
        have w: "swept_to ms A (c # segmentPartial g1) (segmentUnswept g1) (sweepLarge g1) H1
            (segmentPartial g1) (segmentUnswept g1) (sweepLarge g1) ?H" using R' by simp
        have e: "(case segmentSweep (class_of H1 c) (seg_start H1 c) ms timer (n + 1) (hsegment H1 c, hmem H1) of
            (n, sg, m) \<Rightarrow>
              let H = H1\<lparr> hsegment := (hsegment H1)(c := sg), hmem := m \<rparr>
              in if sweepIndex sg \<noteq> 0
                 then sweep_loop f ms timer n (g1\<lparr> segmentPartial := segmentPartial g1 @ [c], needed := True \<rparr>, H)
                 else sweep_loop f ms timer n (g1, chiHeapSweepReleaseSegment (f c) c H)) = sweep_loop f ms timer n' (g1, ?H)"
          unfolding r prod.case Let_def H2_def if_not_P [OF False] ..
        show ?thesis unfolding e by (rule more [OF c(3) i swept_trans [OF c(4) w]])
      qed
    qed
    show ?thesis
    proof (cases "segmentPartial g")
      case (Cons c P)
      have e: "sweepTake (g, H) = (Sweep_segment c, g\<lparr> segmentPartial := P \<rparr>, H)" by (simp add: sweepTake_def Cons)
      have "heap_inv lo hi A ((c # P) @ segmentUnswept g) (sweepLarge g) H" "\<forall>d \<in> set (c # P). alive_ok (hsegment H d)" using inv by (simp_all add: Cons)
      then have X: "\<exists>g' H'. (case segmentSweep (class_of H c) (seg_start H c) ms timer (n + 1) (hsegment H c, hmem H) of
          (n, sg, m) \<Rightarrow>
            let H = H\<lparr> hsegment := (hsegment H)(c := sg), hmem := m \<rparr>
            in if sweepIndex sg \<noteq> 0
               then sweep_loop f ms timer n ((g\<lparr> segmentPartial := P \<rparr>)\<lparr> segmentPartial := segmentPartial (g\<lparr> segmentPartial := P \<rparr>) @ [c], needed := True \<rparr>, H)
               else sweep_loop f ms timer n (g\<lparr> segmentPartial := P \<rparr>, chiHeapSweepReleaseSegment (f c) c H)) = Some (g', H') \<and>
          sweep_inv lo hi A g' H' \<and> swept_state ms A g H g' H' \<and>
          ((\<forall>k. timer k) \<longrightarrow> segmentPartial g' = [] \<and> segmentUnswept g' = [] \<and> sweepLarge g' = [] \<and> \<not> needed g')"
        by - (rule round, simp_all add: work_def Cons swept_refl)
      then show ?thesis using True unfolding sweep_loop.simps [of _ _ _ n] e by simp
    next
      case Nil
      show ?thesis
      proof (cases "segmentUnswept g")
        case (Cons c U)
        define H1 where "H1 = H\<lparr> hsegment := (hsegment H)(c := sweepResetSegment (class_of H c) (hsegment H c)) \<rparr>"
        have e: "sweepTake (g, H) = (Sweep_segment c, g\<lparr> segmentUnswept := U \<rparr>, H1)" by (simp add: sweepTake_def Cons Nil H1_def)
        have i: "heap_inv lo hi A (c # U) (sweepLarge g) H" using inv(1) by (simp add: Nil Cons)
        note B = begin_ok [OF i H1_def, of ms]
        have X: "\<exists>g' H'. (case segmentSweep (class_of H1 c) (seg_start H1 c) ms timer (n + 1) (hsegment H1 c, hmem H1) of
            (n, sg, m) \<Rightarrow>
              let H = H1\<lparr> hsegment := (hsegment H1)(c := sg), hmem := m \<rparr>
              in if sweepIndex sg \<noteq> 0
                 then sweep_loop f ms timer n ((g\<lparr> segmentUnswept := U \<rparr>)\<lparr> segmentPartial := segmentPartial (g\<lparr> segmentUnswept := U \<rparr>) @ [c], needed := True \<rparr>, H)
                 else sweep_loop f ms timer n (g\<lparr> segmentUnswept := U \<rparr>, chiHeapSweepReleaseSegment (f c) c H)) = Some (g', H') \<and>
            sweep_inv lo hi A g' H' \<and> swept_state ms A g H g' H' \<and>
            ((\<forall>k. timer k) \<longrightarrow> segmentPartial g' = [] \<and> segmentUnswept g' = [] \<and> sweepLarge g' = [] \<and> \<not> needed g')"
          by (rule round) (use B Nil Cons in \<open>simp_all add: work_def\<close>)
        then show ?thesis using True unfolding sweep_loop.simps [of _ _ _ n] e by simp
      next
        case U: Nil
        show ?thesis
        proof (cases "sweepLarge g = []")
          case True
          have e: "sweepTake (g, H) = (Sweep_nothing, g\<lparr> needed := False \<rparr>, H)" by (simp add: sweepTake_def Nil U True)
          have "sweep_loop f ms timer n (g, H) = Some (g\<lparr> needed := False \<rparr>, H)"
            unfolding sweep_loop.simps [of _ _ _ n] e using \<open>timer n\<close> by simp
          moreover have "sweep_inv lo hi A (g\<lparr> needed := False \<rparr>) H" using less.prems by (simp add: sweep_inv_def)
          ultimately show ?thesis using swept_refl by (simp add: Nil U True)
        next
          case False
          obtain l k G where r: "largeSweep f ms (sweepLarge g) H = (l, k, G)" using prod_cases3 by blast
          define g1 where "g1 = g\<lparr> sweepLarge := [] \<rparr>"
          have e: "sweepTake (g, H) = (Sweep_large (sweepLarge g), g1, H)" by (simp add: sweepTake_def Nil U False g1_def)
          note S = large_step [OF inv(1) r inv(2) refl]
          have "sweep_inv lo hi A g1 (chiHeapSweepReleaseLarge l k G)" "swept_state ms A g H g1 (chiHeapSweepReleaseLarge l k G)"
            using S by (simp_all add: sweep_inv_def g1_def)
          from more [OF _ this, of "n + 1"] have "\<exists>g' H'. sweep_loop f ms timer (n + 1) (g1, chiHeapSweepReleaseLarge l k G) = Some (g', H') \<and>
              sweep_inv lo hi A g' H' \<and> swept_state ms A g H g' H' \<and>
              ((\<forall>k. timer k) \<longrightarrow> segmentPartial g' = [] \<and> segmentUnswept g' = [] \<and> sweepLarge g' = [] \<and> \<not> needed g')"
            using False by (simp add: work_def g1_def)
          then show ?thesis using True unfolding sweep_loop.simps [of _ _ _ n] e by (simp add: r)
        qed
      qed
    qed
  qed
qed

definition sweep_objs :: "nat list \<Rightarrow> sweep_state \<Rightarrow> heap \<Rightarrow> (nat \<times> nat) set" where
  "sweep_objs A g H = heap_objs A (segmentPartial g @ segmentUnswept g) (sweepLarge g) H"

definition sweep_garbage :: "ChiMarkState \<Rightarrow> sweep_state \<Rightarrow> heap \<Rightarrow> nat set" where
  "sweep_garbage ms g H = unswept_garbage ms (segmentPartial g) (segmentUnswept g) (sweepLarge g) H"

lemma sweep_garbage_is: "x \<in> sweep_garbage ms g H \<Longrightarrow> garbage ms (hmem H) x"
  by (auto simp: sweep_garbage_def unswept_garbage_def page_garbage_def large_garbage_def)

lemma unswept_none [simp]: "unswept_garbage ms [] [] [] H = {}"
  by (simp add: unswept_garbage_def)

text \<open>C7: A slice of the sweeper. It returns, keeps the invariant of the heap, and frees only objects that are garbage for its mark
  state; each object that is left has the contents it had. If the timer does not stop the slice, the work is done: the sweeper
  has no segment and no large object left, asks for no more slices, and all garbage of what it was given is gone.\<close>

theorem sweep_frees_garbage:
  assumes "sweep_inv lo hi A g H" "cycle_colors ms" "timer_ok timer"
  shows "\<exists>g' H'. chiSweepSlice f ms timer (g, H) = Some (g', H') \<and> sweep_inv lo hi A g' H' \<and>
    sweep_objs A g' H' \<subseteq> sweep_objs A g H \<and> (\<forall>(x, l) \<in> sweep_objs A g H - sweep_objs A g' H'. garbage ms (hmem H) x) \<and>
    (\<forall>(x, l) \<in> sweep_objs A g' H'. \<forall>y. x \<le> y \<and> y < x + l \<longrightarrow> hmem H' y = hmem H y) \<and>
    ((\<forall>n. timer n) \<longrightarrow> segmentPartial g' = [] \<and> segmentUnswept g' = [] \<and> sweepLarge g' = [] \<and> \<not> needed g' \<and>
       sweep_objs A g' H' = {e \<in> sweep_objs A g H. fst e \<notin> sweep_garbage ms g H})"
proof -
  obtain g' H' where R: "sweep_loop f ms timer 0 (g, H) = Some (g', H')" "sweep_inv lo hi A g' H'" "swept_state ms A g H g' H'"
    "(\<forall>k. timer k) \<longrightarrow> segmentPartial g' = [] \<and> segmentUnswept g' = [] \<and> sweepLarge g' = [] \<and> \<not> needed g'"
    using sweep_loop_ok [OF assms] by blast
  obtain W where W: "sweep_objs A g' H' = {e \<in> sweep_objs A g H. fst e \<notin> W}" "W \<subseteq> sweep_garbage ms g H"
    "sweep_garbage ms g H \<subseteq> W \<union> sweep_garbage ms g' H'"
    "\<forall>(x, l) \<in> sweep_objs A g' H'. \<forall>y. x \<le> y \<and> y < x + l \<longrightarrow> hmem H' y = hmem H y"
    using R(3) unfolding swept_to_def sweep_objs_def sweep_garbage_def by blast
  have sub: "sweep_objs A g' H' \<subseteq> sweep_objs A g H" by (simp add: W(1))
  have gone: "\<forall>(x, l) \<in> sweep_objs A g H - sweep_objs A g' H'. garbage ms (hmem H) x"
    using W(1,2) sweep_garbage_is by auto
  have all: "W = sweep_garbage ms g H" if "\<forall>k. timer k"
  proof -
    have "sweep_garbage ms g' H' = {}" using R(4) that by (simp add: sweep_garbage_def)
    then show ?thesis using W(2,3) by blast
  qed
  have finished: "(\<forall>n. timer n) \<longrightarrow> segmentPartial g' = [] \<and> segmentUnswept g' = [] \<and> sweepLarge g' = [] \<and> \<not> needed g' \<and>
       sweep_objs A g' H' = {e \<in> sweep_objs A g H. fst e \<notin> sweep_garbage ms g H}"
    using R(4) W(1) all by simp
  show ?thesis unfolding chiSweepSlice_def by (intro exI conjI) (fact R(1) R(2) sub gone W(4) finished)+
qed

definition ex_sweep :: sweep_state where
  "ex_sweep = \<lparr> segmentUnswept = [], segmentPartial = [], sweepLarge = [7], needed = True \<rparr>"

lemma ex_sweep_ok: "sweep_inv (2 ^ 37) (2 ^ 37 + 2 ^ 17) [4096] ex_sweep ex_heap" "(2 ^ 37, 2 ^ 16) \<in> sweep_objs [4096] ex_sweep ex_heap"
  "2 ^ 37 \<in> sweep_garbage markStateInit ex_sweep ex_heap"
proof -
  have "heap_inv (2 ^ 37) (2 ^ 37 + 2 ^ 17) [4096] [] [7] ex_heap"
    using ex_heap_ok(1) ex_held unfolding heap_inv_def by (simp add: handle_segs_def ex_handle_def ex_heap_simps(7,8))
  then show "sweep_inv (2 ^ 37) (2 ^ 37 + 2 ^ 17) [4096] ex_sweep ex_heap" by (simp add: sweep_inv_def ex_sweep_def)
  have c: "chunk_start (hrt ex_heap) 7 = 2 ^ 37" "chunk_size (hrt ex_heap) 7 = 2 ^ 16"
    using held_chunk [of "hrt ex_heap" 7] by (simp_all add: ex_held)
  show "(2 ^ 37, 2 ^ 16) \<in> sweep_objs [4096] ex_sweep ex_heap"
    by (simp add: sweep_objs_def ex_sweep_def heap_objs_def large_obj_def c)
  have "\<not> used (hmem ex_heap) (2 ^ 37)" by (simp add: used_bit ex_heap_simps)
  then show "2 ^ 37 \<in> sweep_garbage markStateInit ex_sweep ex_heap"
    using unused_garbage [OF cycle_init] by (simp add: sweep_garbage_def ex_sweep_def unswept_garbage_def large_garbage_def seg_start_def c)
qed

theorem sweep_frees_garbage_witness:
  "\<exists>g' H'. chiSweepSlice (\<lambda>_. (True, 0)) markStateInit (\<lambda>_. True) (ex_sweep, ex_heap) = Some (g', H') \<and>
     (2 ^ 37, 2 ^ 16) \<in> sweep_objs [4096] ex_sweep ex_heap \<and> (2 ^ 37, 2 ^ 16) \<notin> sweep_objs [4096] g' H' \<and> \<not> needed g'"
proof -
  have "timer_ok (\<lambda>_. True)" by (simp add: timer_ok_def)
  from sweep_frees_garbage [OF ex_sweep_ok(1) cycle_init this, of "\<lambda>_. (True, 0)"] show ?thesis using ex_sweep_ok(2,3) by fastforce
qed

end
