(* ===== verification/Spec2Isabelle.thy ===== *)
theory Spec2Isabelle
  imports Numfmt Utf8 HashTable ChiliInt Sort Vec BlockAlloc BlockVec GC HeapSweep
begin

text \<open>
  A verification library of the Chili runtime (\<^verbatim>\<open>src/native\<close>), the run-time system of a lazy functional language: tagged
  64-bit values, big integers, UTF-8 strings, and a concurrent on-the-fly garbage collector over its own memory
  management, with one processor per system thread.

  Configuration. The code is full of switches; the model is the release build for 64-bit Linux
  (\<^verbatim>\<open>src/config/native/release.h\<close>): values in NaN boxing, the fixed arena for chunks, interrupts and tasks, the concurrent
  collector; poisoning, statistics and events are off and leave no trace in the definitions. Assertions of the code are
  preconditions here. Machine integers are words (\<open>u8\<close>, \<open>u32\<close>, \<open>u64\<close> of the theory Prelude); sizes and addresses are
  natural numbers where the invariants bound them far below 2 to the 64, and the theorems show that they stay there.

  The parts and how they fit together, from the bottom up, each theory with the file it models:

  \<^item> Prelude: integer types, the rounding macros of \<^verbatim>\<open>private_macros.h\<close>, memory as a map from addresses, collections of
    rules that all others use.
  \<^item> DList (\<^verbatim>\<open>generic/list.h\<close>), Pool (\<^verbatim>\<open>pool.h\<close>), Vec (\<^verbatim>\<open>generic/vec.h\<close>), Sort (\<^verbatim>\<open>generic/sort.h\<close>), HashTable
    (\<^verbatim>\<open>generic/hashtable.h\<close>): the generic containers. Each is shown to implement its abstract counterpart: a list, a set of
    disjoint addresses, a list with capacity, a sorted permutation, a finite map. The intrusive lists have an explicit
    store of links; the other theories write their lists as lists, which the refinement of DList justifies.
  \<^item> Chunk (\<^verbatim>\<open>chunk.c\<close>): the arena of virtual memory, cut into chunks that are split and coalesced, and the task that
    returns freed chunks to the system after a delay. Its invariant says that the chunks tile the arena, that no two free
    chunks are neighbours and that the size classes list exactly the free ones; the calls of several threads interleave as
    steps of a relation.
  \<^item> RtMem (\<^verbatim>\<open>setup.c\<close>, \<^verbatim>\<open>gc.c\<close>): chunks with the account of the bytes in use, the overflow limit and the trigger of the
    collector. The locale \<open>chunk_source\<close> is what its clients rely on.
  \<^item> BlockMan (\<^verbatim>\<open>blockman.c\<close>), BlockAlloc (\<^verbatim>\<open>blockalloc.h\<close>), BlockVec (\<^verbatim>\<open>generic/blockvec.h\<close>, \<^verbatim>\<open>grayvec.h\<close>): blocks carved
    out of chunks, bump allocation of young objects in them, and the stacks of the collector.
  \<^item> Chili (\<^verbatim>\<open>include/chili/base.h\<close>, \<^verbatim>\<open>bitfield.h\<close>, \<^verbatim>\<open>object/box.h\<close>, \<^verbatim>\<open>object/sized.h\<close>): the values. A reference is a word
    whose fields are type, size, generation and address; boxing and unboxing are inverse and the branch-free tests agree
    with their meaning.
  \<^item> BigDigits (\<^verbatim>\<open>bigint/znogmp.h\<close>), BigInt (\<^verbatim>\<open>bigint/z.h\<close>), ChiliInt (\<^verbatim>\<open>bigint.c\<close>, \<^verbatim>\<open>object/bigint.h\<close>): digit vectors, signed
    numbers with the allocation error as a value, and the integers of the language with their unboxed fast paths. Each
    operation is equal to the one on the mathematical integers, or the theorem says where it is not.
  \<^item> Numfmt (\<^verbatim>\<open>num.c\<close>, \<^verbatim>\<open>num.h\<close>), Utf8 (\<^verbatim>\<open>object/string.h\<close>, \<^verbatim>\<open>string.c\<close>): text of numbers and UTF-8.
  \<^item> Processor (\<^verbatim>\<open>processor.c\<close>): the two workers of a processor, the primary, which runs managed code, and the secondary,
    which answers requests while the primary is in protected code. All interleavings are steps of a relation.
  \<^item> Mark (\<^verbatim>\<open>mark.c\<close>): the colors of a cycle, the scan of every kind of object, and the marking loop.
  \<^item> GC (\<^verbatim>\<open>gc.c\<close>, \<^verbatim>\<open>localgc.h\<close>): the phases of a cycle, the handshakes with the processors and the worker threads, the write
    barrier and the roots. It uses the processors for its requests and marking for its slices.
  \<^item> Segment, Heap (\<^verbatim>\<open>heap.c\<close>, \<^verbatim>\<open>heap.h\<close>, \<^verbatim>\<open>sweep.c\<close>): the major heap in words of memory. A segment is a chunk cut into
    pages, a page into objects of one size, and the free objects are linked through their headers; Heap has the two classes of
    segments, the large objects, the handles from which processors allocate, and the slices of the sweeper.
  \<^item> HeapOk, HeapSweep: the invariant of that heap, what allocation does to its set of objects, and what the sweeper does. The
    theorem at the end of this theory joins marking and sweeping.

  What is shown. The collector: marking ends and blackens all that is reachable, every processor is in the phase of
  the collector or the one before, all who mark agree on the colors, what is allocated is never garbage for those who mark or
  sweep, and each handshake advances when every processor has looked. The major heap: a new object has room for its header and
  payload and lies apart from all others, whose words stay the same; a sweep frees only garbage, all of it if it is not
  stopped, and what was reachable when marking began is still there after the next sweep, word for word. The processors: one worker at a time serves, no
  request is lost, and without new requests the workers come to rest. The memory: what is handed out is disjoint, aligned and
  was not in use, accounts are exact, failing requests leave everything as it was. The numbers and the text: equality with
  mathematics or with a specification, and round trips.

  Bounds and fuel. Loops whose end is part of a claim are total functions with a measure; the digit estimate of the long
  division (\<open>qhat_loop\<close>) and the probing loops of the hash table carry a measure that the proofs bound. The loop of
  \<open>markAtomic\<close> has two rounds at most since a collapsed thunk is not a thunk again, which its lemmas show, so fuel 2 is enough. The
  marking loop itself is a \<open>partial_function\<close>, whose result is shown to exist for a finite number of white objects. The
  search of \<open>pageFindFree\<close> has fuel for every segment of the free list and two more, which its lemmas show to be enough
  because a new segment has a free page. The loop of \<open>chiSweepSlice\<close> is a \<open>partial_function\<close> and returns if the timer, once it has
  fired, does not take that back (\<open>timer_ok\<close>). The depth
  of recursive marking and the answers of the timer are arguments.

  Outside. What the program gets from elsewhere is an argument of the definitions: results of system calls (memory,
  tasks, clocks), the hash function and the comparison of a container's client, the scavenger, and in the
  theory GC the sweeper, in a slice of the collector. Each theorem with such an argument has a witness at a concrete one.

  Not modelled, and why. The bytecode interpreter, disassembler and rewriter (\<^verbatim>\<open>src/cby/bytecode\<close>) and the event writers
  (\<^verbatim>\<open>src/native/event\<close>) are generated from tables by scripts. The copying collector of the young generation
  (\<^verbatim>\<open>scavenger.c\<close>, \<^verbatim>\<open>promote.c\<close>), stacks and continuations (\<^verbatim>\<open>stack.c\<close>, \<^verbatim>\<open>runtime.c\<close>) work on frames whose layout is given by
  generated code and the calling convention of the compiler. Options, system layer, sandbox, loader, profiler, sinks and the
  standalone C library are input and output. The decimal text of big integers, UTF-16, xxHash and formatted output are pure
  and could be added. The statistics of the heap are left out. Weak memory is not modelled: shared fields are read and written in the order of the steps, and \<open>markDone\<close>,
  which reads the lists of all processors one after the other, is one step.
\<close>

section \<open>A collection\<close>

text \<open>C8: Marking and sweeping together. Once a slice of the marker has reported that no object is gray, a slice of the sweeper with the
  colors of the next epoch frees no object that was black, gray or reachable when marking began: such an object is still an object of
  the heap, and each of its words is as it was.\<close>

theorem reachable_survives:
  assumes "cycle_colors ms" "heap_ok ty h" "locks_ok ms h" "gray_ok ms ty {} (mark_start gs h)" "finite {a. ocolor (h a) = white ms}"
    and "covered ms ty L {} h" "\<forall>a \<in> L. ocolor (h a) \<in> {white ms, gray ms, black ms}"
    and "chiMarkSlice timer gs depth ms h = Some ((gs', True), h')"
    and "sweep_inv lo hi A g H" "\<forall>a \<in> L. ocolor (load_object (hmem H) a) = ocolor (h' a)" "timer_ok t"
  shows "\<exists>g' H'. chiSweepSlice f (markStateEpoch ms) t (g, H) = Some (g', H') \<and>
    (\<forall>(x, l) \<in> sweep_objs A g H. x \<in> L \<longrightarrow> (x, l) \<in> sweep_objs A g' H' \<and> (\<forall>y. x \<le> y \<and> y < x + l \<longrightarrow> hmem H' y = hmem H y))"
proof -
  have live: "\<not> garbage (markStateEpoch ms) (hmem H) a" if "a \<in> L" for a
  proof -
    obtain st where st: "chiMarkSlice timer gs depth ms h = Some ((mgray st, mgray st = []), mobjs st)" "sliced ms ty {} (mark_start gs h) st"
      by (rule chiMarkSlice_ok [OF assms(1-5)])
    then have "mgray st = []" "h' = mobjs st" using assms(8) by simp_all
    then have "ocolor (h' a) = black ms" using live_black [OF st(2) _ assms(6) that] assms(7) that by blast
    then have "ocolor (load_object (hmem H) a) = black ms" using assms(10) that by simp
    then show ?thesis using garbage_after_cycle(2) [OF assms(1)] by (simp add: garbage_def)
  qed
  obtain g' H' where R: "sweep_loop f (markStateEpoch ms) t 0 (g, H) = Some (g', H')" "swept_state (markStateEpoch ms) A g H g' H'"
    using sweep_loop_ok [OF assms(9) cycle_epoch [OF assms(1)] assms(11)] by blast
  obtain W where W: "sweep_objs A g' H' = {e \<in> sweep_objs A g H. fst e \<notin> W}" "W \<subseteq> sweep_garbage (markStateEpoch ms) g H"
    "\<forall>(x, l) \<in> sweep_objs A g' H'. \<forall>y. x \<le> y \<and> y < x + l \<longrightarrow> hmem H' y = hmem H y"
    using R(2) unfolding swept_to_def sweep_objs_def sweep_garbage_def by blast
  have kept: "(x, l) \<in> sweep_objs A g' H'" if "(x, l) \<in> sweep_objs A g H" "x \<in> L" for x l
  proof -
    have "x \<notin> W" using live [OF that(2)] W(2) sweep_garbage_is by blast
    then show ?thesis using W(1) that(1) by simp
  qed
  show ?thesis unfolding chiSweepSlice_def by (intro exI conjI, rule R(1)) (use W(3) kept in blast)
qed

definition ex_marked :: heap where
  "ex_marked = ex_heap\<lparr> hmem := (\<lambda>_. 0)(CHI_CHUNK_START := 0x100000005, CHI_CHUNK_START + CHI_WORDSIZE := ex_ref 1) \<rparr>"

lemma ex_marked_ok: "sweep_inv (2 ^ 37) (2 ^ 37 + 2 ^ 17) [4096] ex_sweep ex_marked" "(2 ^ 37, 2 ^ 16) \<in> sweep_objs [4096] ex_sweep ex_marked"
proof -
  have c: "chunk_start (hrt ex_heap) 7 = 2 ^ 37" "chunk_size (hrt ex_heap) 7 = 2 ^ 16" "seg_start ex_heap 4096 = 2 ^ 37 + 2 ^ 16"
    using held_chunk [of "hrt ex_heap" 7] held_chunk [of "hrt ex_heap" 4096] by (simp_all add: ex_held seg_start_def)
  have s: "segment_ok ex_heap 4096" using ex_heap_ok(1) by (simp add: heap_inv_def handle_segs_def ex_handle_def)
  have "same_segment ex_heap ex_marked 4096"
    by (simp add: same_segment_def ex_marked_def class_of_def c(3) ex_heap_simps CHI_CHUNK_START_def CHI_WORDSIZE_def)
  moreover have "class_ok (class_of ex_heap 4096)" "rt_ok (2 ^ 37) (2 ^ 37 + 2 ^ 17) (hrt ex_heap)"
    using ex_heap_ok(1) by (simp_all add: heap_inv_def class_of_def)
  ultimately have "segment_ok ex_marked 4096" using same_segment_ok(1) s by blast
  moreover have "heap_inv (2 ^ 37) (2 ^ 37 + 2 ^ 17) [4096] [] [7] ex_heap" using ex_sweep_ok(1) by (simp add: sweep_inv_def ex_sweep_def)
  moreover have "listed ex_marked = []" "hclass ex_marked = hclass ex_heap" "hrt ex_marked = hrt ex_heap" "largeList ex_marked = []"
    "hsegment ex_marked = hsegment ex_heap" "hkind ex_marked = hkind ex_heap"
    using ex_heap_simps(7) by (simp_all add: ex_marked_def ex_heap_simps(8) listed_def)
  ultimately show "sweep_inv (2 ^ 37) (2 ^ 37 + 2 ^ 17) [4096] ex_sweep ex_marked"
    unfolding sweep_inv_def heap_inv_def by (simp add: ex_sweep_def ex_heap_simps(7,8))
  show "(2 ^ 37, 2 ^ 16) \<in> sweep_objs [4096] ex_sweep ex_marked"
    by (simp add: sweep_objs_def ex_sweep_def heap_objs_def large_obj_def ex_marked_def c)
qed

theorem reachable_survives_witness:
  "\<exists>gs' h' g' H'. chiMarkSlice (\<lambda>_. True) ([ex_ref 0], False) 30 markStateInit ex_objects = Some ((gs', True), h') \<and>
     chiSweepSlice (\<lambda>_. (True, 0)) (markStateEpoch markStateInit) (\<lambda>_. True) (ex_sweep, ex_marked) = Some (g', H') \<and>
     (2 ^ 37, 2 ^ 16) \<in> sweep_objs [4096] g' H'"
proof -
  let ?L = "{CHI_CHUNK_START}"
  have cov: "covered markStateInit (\<lambda>_. 0) ?L {} ex_objects"
    "\<forall>a \<in> ?L. ocolor (ex_objects a) \<in> {white markStateInit, gray markStateInit, black markStateInit}"
    using ex_objects_ok(5,6) by (simp_all add: covered_def)
  obtain st where st: "chiMarkSlice (\<lambda>_. True) ([ex_ref 0], False) 30 markStateInit ex_objects = Some ((mgray st, mgray st = []), mobjs st)"
    "sliced markStateInit (\<lambda>_. 0) {} (mark_start ([ex_ref 0], False) ex_objects) st" "mgray st = []"
    using chiMarkSlice_ok [OF cycle_init ex_objects_ok(1,2,4,3), of "\<lambda>_. True" 30] by metis
  have m: "chiMarkSlice (\<lambda>_. True) ([ex_ref 0], False) 30 markStateInit ex_objects = Some (([], True), mobjs st)" using st(1,3) by simp
  have "ocolor (mobjs st CHI_CHUNK_START) = 5" using live_black [OF st(2,3) cov(1), of CHI_CHUNK_START] cov(2) ex_colors by simp
  then have c: "\<forall>a \<in> ?L. ocolor (load_object (hmem ex_marked) a) = ocolor (mobjs st a)"
    by (simp add: load_object_def ex_marked_def CHI_WORDSIZE_def)
  have "timer_ok (\<lambda>_. True)" by (simp add: timer_ok_def)
  from reachable_survives [OF cycle_init ex_objects_ok(1,2,4,3) cov m ex_marked_ok(1) c this, of "\<lambda>_. (True, 0)"]
  show ?thesis using m ex_marked_ok(2) by (fastforce simp: CHI_CHUNK_START_def)
qed

end
